(* ===== verification/Prelude.thy ===== *)
theory Prelude
  imports Main "HOL-Library.Word"
begin

text \<open>
  Shared notions of the development: Rust strings as lists of Unicode scalar values with the
  operations of \<open>str\<close> the program calls, and the lemmas and collections that carry the component proofs.
\<close>

section \<open>Collections of facts\<close>

named_theorems ascii_defs "definitions of the ASCII classes"

section \<open>Strings\<close>

text \<open>
  A Rust \<open>String\<close> or \<open>&str\<close> is a sequence of Unicode scalar values. A scalar value is a
  number of type \<open>int\<close> here (binary, so that concrete inputs evaluate) and \<open>str\<close> turns an ASCII literal into such a sequence. Operations
  that look at bytes (hashes, byte lengths) go through \<open>utf8\<close>.
\<close>

type_synonym uchar = int
type_synonym ustr = "uchar list"

definition str :: "string \<Rightarrow> ustr" where
  "str s = map of_char s"

abbreviation nl :: uchar where "nl \<equiv> 10"
abbreviation cr :: uchar where "cr \<equiv> 13"
abbreviation bom :: uchar where "bom \<equiv> 65279"

definition utf8_char :: "uchar \<Rightarrow> 8 word list" where
  "utf8_char c =
     (if c < 128 then [word_of_int c]
      else if c < 2048 then [word_of_int (192 + c div 64), word_of_int (128 + c mod 64)]
      else if c < 65536 then
        [word_of_int (224 + c div 4096), word_of_int (128 + (c div 64) mod 64),
         word_of_int (128 + c mod 64)]
      else
        [word_of_int (240 + c div 262144), word_of_int (128 + (c div 4096) mod 64),
         word_of_int (128 + (c div 64) mod 64), word_of_int (128 + c mod 64)])"

definition utf8 :: "ustr \<Rightarrow> 8 word list" where
  "utf8 s = concat (map utf8_char s)"

definition byte_len :: "ustr \<Rightarrow> nat" where
  "byte_len s = length (utf8 s)"

text \<open>
  The Unicode property White_Space, which \<open>char::is_whitespace\<close>, \<open>str::trim\<close> and the
  class \<open>\s\<close> of the \<open>regex\<close> crate all use.
\<close>

definition is_ws :: "uchar \<Rightarrow> bool" where
  "is_ws c \<longleftrightarrow> (9 \<le> c \<and> c \<le> 13) \<or> c = 32 \<or> c = 133 \<or> c = 160 \<or> c = 5760
     \<or> (8192 \<le> c \<and> c \<le> 8202) \<or> c = 8232 \<or> c = 8233 \<or> c = 8239 \<or> c = 8287 \<or> c = 12288"

text \<open>The zeros of the runs of ten that make up the category Nd, the class \<open>\d\<close> of \<open>regex\<close>.\<close>

definition digit_zeros :: "uchar list" where
  "digit_zeros =
     [48, 1632, 1776, 1984, 2406, 2534, 2662, 2790, 2918, 3046, 3174, 3302, 3430, 3558, 3664,
      3792, 3872, 4160, 4240, 6112, 6160, 6470, 6608, 6784, 6800, 6992, 7088, 7232, 7248, 42528,
      43216, 43264, 43472, 43504, 43600, 44016, 65296, 66720, 68912, 68928, 69734, 69872, 69942,
      70096, 70384, 70736, 70864, 71248, 71360, 71376, 71386, 71472, 71904, 72016, 72688, 72784,
      73040, 73120, 73552, 90416, 92768, 92864, 93008, 93552, 118000, 120782, 120792, 120802,
      120812, 120822, 123200, 123632, 124144, 124401, 125264, 130032]"

definition is_nd :: "uchar \<Rightarrow> bool" where
  "is_nd c \<longleftrightarrow> (if c < 1632 then 48 \<le> c \<and> c \<le> 57 else list_ex (\<lambda>z. z \<le> c \<and> c < z + 10) digit_zeros)"

definition is_ascii_digit :: "uchar \<Rightarrow> bool" where [ascii_defs]:
  "is_ascii_digit c \<longleftrightarrow> 48 \<le> c \<and> c \<le> 57"
definition is_ascii_upper :: "uchar \<Rightarrow> bool" where [ascii_defs]:
  "is_ascii_upper c \<longleftrightarrow> 65 \<le> c \<and> c \<le> 90"
definition is_ascii_lower :: "uchar \<Rightarrow> bool" where [ascii_defs]:
  "is_ascii_lower c \<longleftrightarrow> 97 \<le> c \<and> c \<le> 122"
definition is_ascii_alnum :: "uchar \<Rightarrow> bool" where [ascii_defs]:
  "is_ascii_alnum c \<longleftrightarrow> is_ascii_digit c \<or> is_ascii_upper c \<or> is_ascii_lower c"
definition is_ascii_ws :: "uchar \<Rightarrow> bool" where
  "is_ascii_ws c \<longleftrightarrow> c = 9 \<or> c = 10 \<or> c = 12 \<or> c = 13 \<or> c = 32"

definition to_ascii_lower :: "ustr \<Rightarrow> ustr" where
  "to_ascii_lower s = map (\<lambda>c. if is_ascii_upper c then c + 32 else c) s"

definition trim_start :: "ustr \<Rightarrow> ustr" where
  "trim_start s = dropWhile is_ws s"
definition trim_end :: "ustr \<Rightarrow> ustr" where
  "trim_end s = rev (dropWhile is_ws (rev s))"
definition trim :: "ustr \<Rightarrow> ustr" where
  "trim s = trim_end (trim_start s)"

fun strip_prefix :: "ustr \<Rightarrow> ustr \<Rightarrow> ustr option" where
  "strip_prefix [] s = Some s"
| "strip_prefix (p # ps) [] = None"
| "strip_prefix (p # ps) (c # cs) = (if p = c then strip_prefix ps cs else None)"

definition starts_with :: "ustr \<Rightarrow> ustr \<Rightarrow> bool" where
  "starts_with p s \<longleftrightarrow> strip_prefix p s \<noteq> None"

definition strip_suffix :: "ustr \<Rightarrow> ustr \<Rightarrow> ustr option" where
  "strip_suffix p s = map_option rev (strip_prefix (rev p) (rev s))"

fun str_contains :: "ustr \<Rightarrow> ustr \<Rightarrow> bool" where
  "str_contains p [] = (p = [])"
| "str_contains p (c # cs) = (starts_with p (c # cs) \<or> str_contains p cs)"

text \<open>\<open>find_char c s\<close> is \<open>s.find(c)\<close> with the text before and after the first occurrence.\<close>

fun split_once :: "'a \<Rightarrow> 'a list \<Rightarrow> ('a list \<times> 'a list) option" where
  "split_once d [] = None"
| "split_once d (c # cs) =
     (if c = d then Some ([], cs)
      else map_option (\<lambda>(a, b). (c # a, b)) (split_once d cs))"

fun split_on :: "'a \<Rightarrow> 'a list \<Rightarrow> 'a list list" where
  "split_on d [] = [[]]"
| "split_on d (c # cs) =
     (if c = d then [] # split_on d cs
      else (case split_on d cs of [] \<Rightarrow> [[c]] | l # ls \<Rightarrow> (c # l) # ls))"

fun join :: "'a list \<Rightarrow> 'a list list \<Rightarrow> 'a list" where
  "join sep [] = []"
| "join sep [l] = l"
| "join sep (l # m # ls) = l @ sep @ join sep (m # ls)"

text \<open>\<open>str::lines\<close>: a line ending is removed with the carriage return before it; the text after
  the last newline is a line unless it is empty, and keeps its carriage return.\<close>

definition strip_cr :: "ustr \<Rightarrow> ustr" where
  "strip_cr l = (case strip_suffix [cr] l of Some m \<Rightarrow> m | None \<Rightarrow> l)"

definition str_lines :: "ustr \<Rightarrow> ustr list" where
  "str_lines s = (let ps = split_on nl s; final = last ps
     in map strip_cr (butlast ps) @ (if final = [] then [] else [final]))"

text \<open>Decimal rendering of an unsigned number, as \<open>format!\<close> writes it.\<close>

fun show_nat :: "nat \<Rightarrow> ustr" where
  "show_nat n = (if n < 10 then [int (48 + n)] else show_nat (n div 10) @ [int (48 + n mod 10)])"

declare show_nat.simps [simp del]

subsection \<open>Laws of the string operations\<close>

lemma str_Nil [simp]: "str [] = []"
  by (simp add: str_def)

lemma str_append [simp]: "str (a @ b) = str a @ str b"
  by (simp add: str_def)

lemma strip_prefix_append [simp]: "strip_prefix p (p @ s) = Some s"
  by (induction p) auto

lemma strip_prefix_Some: "strip_prefix p s = Some r \<longleftrightarrow> s = p @ r"
  by (induction p s rule: strip_prefix.induct) auto

lemma strip_suffix_Some: "strip_suffix p s = Some r \<longleftrightarrow> s = r @ p"
proof -
  have "strip_suffix p s = Some r \<longleftrightarrow> rev s = rev p @ rev r"
    by (auto simp: strip_suffix_def strip_prefix_Some rev_swap)
  also have "\<dots> \<longleftrightarrow> s = r @ p"
    by (metis rev_append rev_rev_ident)
  finally show ?thesis .
qed

lemma starts_with_iff: "starts_with p s \<longleftrightarrow> (\<exists>r. s = p @ r)"
  by (auto simp: starts_with_def strip_prefix_Some)

lemma str_contains_iff: "str_contains p s \<longleftrightarrow> (\<exists>a b. s = a @ p @ b)"
proof (induction s)
  case Nil
  then show ?case by auto
next
  case (Cons c cs)
  have "str_contains p (c # cs) \<longleftrightarrow> (\<exists>r. c # cs = p @ r) \<or> (\<exists>a b. cs = a @ p @ b)"
    by (simp add: Cons.IH starts_with_iff)
  also have "\<dots> \<longleftrightarrow> (\<exists>a b. c # cs = a @ p @ b)"
    by (metis append_Cons append_Nil list.exhaust list.inject)
  finally show ?case .
qed

lemma str_contains_single: "str_contains [c] s \<longleftrightarrow> c \<in> set s"
  by (auto simp: str_contains_iff in_set_conv_decomp)

lemma split_on_neq_Nil [simp]: "split_on d s \<noteq> []"
  by (induction s) (auto split: list.splits)

lemma split_once_append:
  "d \<notin> set a \<Longrightarrow> split_once d (a @ d # b) = Some (a, b)"
  by (induction a) auto

lemma split_once_None: "split_once d s = None \<longleftrightarrow> d \<notin> set s"
  by (induction s) (auto split: if_splits)

lemma split_once_Some: "split_once d s = Some (a, b) \<Longrightarrow> s = a @ d # b \<and> d \<notin> set a"
  by (induction s arbitrary: a) (auto split: if_splits)

lemma join_Cons: "ls \<noteq> [] \<Longrightarrow> join sep (l # ls) = l @ sep @ join sep ls"
  by (cases ls) auto

lemma join_head: "join sep ((c # a) # ls) = c # join sep (a # ls)"
  by (cases ls) auto

lemma join_split [simp]: "join [d] (split_on d s) = s"
proof (induction s)
  case Nil
  then show ?case by simp
next
  case (Cons c cs)
  then show ?case
    by (cases "split_on d cs") (auto simp: join_head join_Cons)
qed

lemma split_on_no_sep: "l \<in> set (split_on d s) \<Longrightarrow> d \<notin> set l"
  by (induction s arbitrary: l) (auto split: if_splits list.splits)

lemma split_on_clean: "d \<notin> set l \<Longrightarrow> split_on d l = [l]"
  by (induction l) auto

lemma split_on_append_sep: "d \<notin> set l \<Longrightarrow> split_on d (l @ d # s) = l # split_on d s"
  by (induction l) auto

lemma split_join:
  "ls \<noteq> [] \<Longrightarrow> (\<forall>l \<in> set ls. d \<notin> set l) \<Longrightarrow> split_on d (join [d] ls) = ls"
proof (induction ls)
  case Nil
  then show ?case by simp
next
  case (Cons l ls)
  then show ?case
    by (cases "ls = []") (auto simp: split_on_clean split_on_append_sep join_Cons)
qed

lemma length_split_on: "length (split_on d s) = Suc (count_list s d)"
  by (induction s) (auto split: list.splits)


section \<open>Positions and slices of a list\<close>

text \<open>\<open>iter().enumerate().filter(..).map(|(i, _)| i)\<close>\<close>

definition positions :: "('a \<Rightarrow> bool) \<Rightarrow> 'a list \<Rightarrow> nat list" where
  "positions P xs = filter (\<lambda>i. P (xs ! i)) [0..<length xs]"

text \<open>\<open>xs[a..a + n]\<close>, where the caller has checked the bounds.\<close>

definition slice :: "nat \<Rightarrow> nat \<Rightarrow> 'a list \<Rightarrow> 'a list" where
  "slice a n xs = take n (drop a xs)"

lemma positions_iff: "i \<in> set (positions P xs) \<longleftrightarrow> i < length xs \<and> P (xs ! i)"
  by (auto simp: positions_def)

lemma positions_distinct [simp]: "distinct (positions P xs)"
  by (simp add: positions_def)

lemma positions_empty: "positions P xs = [] \<longleftrightarrow> (\<forall>x \<in> set xs. \<not> P x)"
  by (auto simp: positions_def filter_empty_conv all_set_conv_all_nth)

lemma positions_hd: "positions P xs \<noteq> [] \<Longrightarrow> hd (positions P xs) < length xs \<and> P (xs ! hd (positions P xs))"
  using hd_in_set[of "positions P xs"] by (simp add: positions_iff)

lemma distinct_set_single:
  assumes "distinct xs" and "set xs = {i}"
  shows "xs = [i]"
proof -
  have "length xs = Suc 0" using distinct_card[OF assms(1)] assms(2) by simp
  then obtain x where "xs = [x]" by (auto simp: length_Suc_conv)
  then show ?thesis using assms(2) by simp
qed

lemma positions_single:
  assumes "i < length xs" and "P (xs ! i)" and "\<And>j. j < length xs \<Longrightarrow> P (xs ! j) \<Longrightarrow> j = i"
  shows "positions P xs = [i]"
proof (rule distinct_set_single)
  show "set (positions P xs) = {i}"
  proof (rule set_eqI)
    fix j
    show "j \<in> set (positions P xs) \<longleftrightarrow> j \<in> {i}"
      using assms(1,2) assms(3)[of j] by (auto simp: positions_iff)
  qed
qed simp

lemma length_slice: "a + n \<le> length xs \<Longrightarrow> length (slice a n xs) = n"
  by (simp add: slice_def)

lemma slice_all: "n = length xs \<Longrightarrow> slice 0 n xs = xs"
  by (simp add: slice_def)

text \<open>\<open>iter().position\<close> and \<open>iter().rposition\<close>\<close>

fun position :: "('a \<Rightarrow> bool) \<Rightarrow> 'a list \<Rightarrow> nat option" where
  "position P [] = None"
| "position P (x # xs) = (if P x then Some 0 else map_option Suc (position P xs))"

definition rposition :: "('a \<Rightarrow> bool) \<Rightarrow> 'a list \<Rightarrow> nat option" where
  "rposition P xs = map_option (\<lambda>i. length xs - 1 - i) (position P (rev xs))"

lemma position_Some:
  "position P xs = Some i \<Longrightarrow> i < length xs \<and> P (xs ! i) \<and> (\<forall>j < i. \<not> P (xs ! j))"
proof (induction xs arbitrary: i)
  case (Cons x xs)
  then show ?case by (auto simp: nth_Cons' split: if_splits)
qed simp

lemma position_None: "position P xs = None \<longleftrightarrow> (\<forall>x \<in> set xs. \<not> P x)"
  by (induction xs) auto

lemma position_map: "position P (map f xs) = position (\<lambda>x. P (f x)) xs"
  by (induction xs) auto

lemma position_replicate: "position P (replicate n x) = (if P x \<and> 0 < n then Some 0 else None)"
  by (induction n) auto

end
