(* ===== verification/HashUtils.thy ===== *)
theory HashUtils
  imports Prelude
begin

unbundle bit_operations_syntax

text \<open>
  \<open>src/core/hash_utils.rs\<close>: the line hashes, the display format of anchored lines and the
  functions that strip or split an anchor again. Each regular expression of the source is
  translated to a matcher by hand. The patterns are unambiguous except where a helper states the
  preference order, so a greedy matcher takes the match the leftmost-first engine takes.
\<close>

section \<open>Line hashes\<close>

abbreviation delim :: uchar where "delim \<equiv> 167"

definition ANCHOR_DELIMITER :: ustr where
  "ANCHOR_DELIMITER = [delim]"

definition fnv1a_32 :: "8 word list \<Rightarrow> 32 word" where
  "fnv1a_32 bs = foldl (\<lambda>h b. (h XOR ucast b) * 16777619) 2166136261 bs"

definition hex_digit :: "nat \<Rightarrow> uchar" where
  "hex_digit d = (if d < 10 then 48 + int d else 87 + int d)"

text \<open>\<open>format!("{h:08x}")\<close>: eight lower-case hexadecimal digits.\<close>

definition hex8 :: "32 word \<Rightarrow> ustr" where
  "hex8 w = map (\<lambda>i. hex_digit (unat w div 16 ^ i mod 16)) [7, 6, 5, 4, 3, 2, 1, 0]"

definition content_hash :: "ustr \<Rightarrow> ustr" where
  "content_hash content = hex8 (fnv1a_32 (utf8 content))"

definition line_hash :: "ustr \<Rightarrow> 64 word" where
  "line_hash line = foldl (\<lambda>h b. (h XOR ucast b) * 1099511628211) 14695981039346656037 (utf8 line)"

definition compute_hashes :: "ustr list \<Rightarrow> 64 word list" where
  "compute_hashes ls = map line_hash ls"

text \<open>
  The buckets of the source map a line to the ascending 1-based indices where it occurs; a line's
  own index is filtered out of its bucket.
\<close>

definition bucket :: "ustr list \<Rightarrow> ustr \<Rightarrow> nat list" where
  "bucket ls l = map Suc (filter (\<lambda>i. ls ! i = l) [0..<length ls])"

definition identical_content_indices :: "ustr list \<Rightarrow> nat list list" where
  "identical_content_indices ls =
     map (\<lambda>i. filter (\<lambda>n. n \<noteq> Suc i) (bucket ls (ls ! i))) [0..<length ls]"

section \<open>Display format\<close>

definition format_line_with_hash :: "ustr \<Rightarrow> ustr \<Rightarrow> ustr" where
  "format_line_with_hash content anchor = anchor @ ANCHOR_DELIMITER @ content"

definition format_numbered_line_with_hash :: "nat \<Rightarrow> ustr \<Rightarrow> ustr \<Rightarrow> ustr" where
  "format_numbered_line_with_hash line_no content anchor =
     show_nat line_no @ str '': '' @ anchor @ ANCHOR_DELIMITER @ content"

section \<open>Matchers of the regular expressions\<close>

text \<open>\<open>^\d+:(\s+|$)\<close>, returning the text after the match.\<close>

definition LINE_NUMBER_GUTTER_REGEX :: "ustr \<Rightarrow> ustr option" where
  "LINE_NUMBER_GUTTER_REGEX s =
     (let ds = takeWhile is_nd s in
      if ds = [] then None
      else (case drop (length ds) s of
              [] \<Rightarrow> None
            | c # r \<Rightarrow> if c \<noteq> 58 then None
                       else if r = [] then Some []
                       else if is_ws (hd r) then Some (dropWhile is_ws r)
                       else None))"

definition strip_line_number_gutter :: "ustr \<Rightarrow> ustr" where
  "strip_line_number_gutter line =
     (case LINE_NUMBER_GUTTER_REGEX line of Some r \<Rightarrow> r | None \<Rightarrow> line)"

definition is_lower_hex :: "uchar \<Rightarrow> bool" where
  "is_lower_hex c \<longleftrightarrow> is_ascii_digit c \<or> (97 \<le> c \<and> c \<le> 102)"

text \<open>\<open>\s*\<section>\<close>, \<open>[A-Z][a-zA-Z0-9]*\s*\<section>\<close> and \<open>[0-9a-f]{8,16}\s*\<section>\<close>: what follows
  a name or a run of hexadecimal digits is white space or the delimiter, so both are maximal.\<close>

definition match_delim :: "ustr \<Rightarrow> ustr option" where
  "match_delim s = (case dropWhile is_ws s of
     [] \<Rightarrow> None | c # r \<Rightarrow> if c = delim then Some r else None)"

definition match_word :: "ustr \<Rightarrow> ustr option" where
  "match_word s = (case s of [] \<Rightarrow> None
     | c # r \<Rightarrow> if is_ascii_upper c then match_delim (dropWhile is_ascii_alnum r) else None)"

definition match_hex :: "ustr \<Rightarrow> ustr option" where
  "match_hex s = (let h = takeWhile is_lower_hex s in
     if 8 \<le> length h \<and> length h \<le> 16 then match_delim (drop (length h) s) else None)"

definition match_name :: "ustr \<Rightarrow> ustr option" where
  "match_name s = (case match_word s of Some r \<Rightarrow> Some r | None \<Rightarrow> match_hex s)"

text \<open>The optional hexadecimal prefix is tried first, then skipped.\<close>

definition match_prefixed_name :: "ustr \<Rightarrow> ustr option" where
  "match_prefixed_name s =
     (case match_hex s of
        None \<Rightarrow> match_name s
      | Some r \<Rightarrow> (case match_name (dropWhile is_ws r) of
                      Some r' \<Rightarrow> Some r' | None \<Rightarrow> match_name s))"

text \<open>\<open>\d+:\s+\<close>\<close>

definition match_gutter :: "ustr \<Rightarrow> ustr option" where
  "match_gutter s =
     (let ds = takeWhile is_nd s in
      if ds = [] then None
      else (case drop (length ds) s of
              [] \<Rightarrow> None
            | c # r \<Rightarrow> if c = 58 \<and> r \<noteq> [] \<and> is_ws (hd r) then Some (dropWhile is_ws r) else None))"

definition ANCHOR_STRIP_REGEX :: "ustr \<Rightarrow> ustr option" where
  "ANCHOR_STRIP_REGEX line =
     (let s = dropWhile (\<lambda>c. c = 32 \<or> c = 9) line in
      case match_gutter s of
        None \<Rightarrow> match_prefixed_name s
      | Some r \<Rightarrow> (case match_prefixed_name r of
                      Some r' \<Rightarrow> Some r' | None \<Rightarrow> match_prefixed_name s))"

text \<open>
  \<open>\s*\[identical content also at lines \d+(?:, \d+)*(?:, (?:\<dots>|\.\.\.) \(\d+ more\))?\]\s*$\<close>.
  \<open>dup_tail\<close> matches from the first \<open>\d+\<close> on: after a comma either another number or the
  ellipsis follows, never both.
\<close>

definition match_digits :: "ustr \<Rightarrow> ustr option" where
  "match_digits s = (let ds = takeWhile is_nd s in
     if ds = [] then None else Some (drop (length ds) s))"

definition dup_close :: "ustr \<Rightarrow> bool" where
  "dup_close s = (case s of [] \<Rightarrow> False | c # r \<Rightarrow> c = 93 \<and> list_all is_ws r)"

definition dup_more :: "ustr \<Rightarrow> bool" where
  "dup_more s =
     (case (case strip_prefix [8230] s of Some r \<Rightarrow> Some r | None \<Rightarrow> strip_prefix (str ''...'') s) of
        None \<Rightarrow> False
      | Some r \<Rightarrow> (case strip_prefix (str '' ('') r of
           None \<Rightarrow> False
         | Some r2 \<Rightarrow> (case match_digits r2 of
              None \<Rightarrow> False
            | Some r3 \<Rightarrow> (case strip_prefix (str '' more)'') r3 of
                 None \<Rightarrow> False | Some r4 \<Rightarrow> dup_close r4))))"

lemma match_digits_length: "match_digits s = Some r \<Longrightarrow> length r < length s"
  by (cases s) (auto simp: match_digits_def Let_def split: if_splits)

function dup_tail :: "ustr \<Rightarrow> bool" where
  "dup_tail s =
     (case match_digits s of
        None \<Rightarrow> False
      | Some r \<Rightarrow> dup_close r \<or>
          (case strip_prefix (str '', '') r of
             None \<Rightarrow> False | Some r' \<Rightarrow> dup_tail r' \<or> dup_more r'))"
  by pat_completeness auto
termination
  by (relation "measure length") (auto simp: strip_prefix_Some dest!: match_digits_length)

declare dup_tail.simps [simp del]

definition dup_suffix_here :: "ustr \<Rightarrow> bool" where
  "dup_suffix_here s =
     (case strip_prefix (str ''[identical content also at lines '') (dropWhile is_ws s) of
        None \<Rightarrow> False | Some r \<Rightarrow> dup_tail r)"

text \<open>The leftmost start of a match; the text before it is kept.\<close>

fun strip_duplicate_anchor_suffix :: "ustr \<Rightarrow> ustr" where
  "strip_duplicate_anchor_suffix [] = []"
| "strip_duplicate_anchor_suffix (c # cs) =
     (if dup_suffix_here (c # cs) then [] else c # strip_duplicate_anchor_suffix cs)"

definition has_dup_suffix :: "ustr \<Rightarrow> bool" where
  "has_dup_suffix s \<longleftrightarrow> strip_duplicate_anchor_suffix s \<noteq> s"

text \<open>\<open>(?:[A-Z][a-zA-Z0-9]*|[0-9a-f]{8,16})\<section>\<close> anywhere in the line.\<close>

definition glued_here :: "ustr \<Rightarrow> bool" where
  "glued_here s =
     ((case s of [] \<Rightarrow> False
       | c # r \<Rightarrow> is_ascii_upper c \<and> starts_with [delim] (dropWhile is_ascii_alnum r))
      \<or> (let h = takeWhile is_lower_hex s in
          8 \<le> length h \<and> length h \<le> 16 \<and> starts_with [delim] (drop (length h) s)))"

fun GLUED_ANCHOR_REGEX :: "ustr \<Rightarrow> bool" where
  "GLUED_ANCHOR_REGEX [] = False"
| "GLUED_ANCHOR_REGEX (c # cs) = (glued_here (c # cs) \<or> GLUED_ANCHOR_REGEX cs)"

text \<open>\<open>^[A-Z][a-zA-Z0-9]*$\<close> of \<open>src/core/file_editor.rs\<close>.\<close>

definition ANCHOR_NAME_REGEX :: "ustr \<Rightarrow> bool" where
  "ANCHOR_NAME_REGEX s = (case s of [] \<Rightarrow> False | c # r \<Rightarrow> is_ascii_upper c \<and> list_all is_ascii_alnum r)"

section \<open>Splitting and stripping anchors\<close>

definition split_anchor :: "ustr \<Rightarrow> ustr \<times> ustr" where
  "split_anchor raw_anchor =
     (let raw = strip_line_number_gutter (trim_start raw_anchor) in
      case split_once delim raw of
        Some (a, b) \<Rightarrow> (trim a, strip_duplicate_anchor_suffix b)
      | None \<Rightarrow> (trim raw, []))"

definition strip_hashes_line :: "ustr \<Rightarrow> ustr" where
  "strip_hashes_line line =
     (case ANCHOR_STRIP_REGEX line of
        None \<Rightarrow> line
      | Some stripped \<Rightarrow>
          (case strip_suffix [cr] stripped of
             Some body \<Rightarrow> strip_duplicate_anchor_suffix body @ [cr]
           | None \<Rightarrow> strip_duplicate_anchor_suffix stripped))"

definition strip_hashes :: "ustr \<Rightarrow> ustr" where
  "strip_hashes content =
     (if content = [] then [] else join [nl] (map strip_hashes_line (split_on nl content)))"

definition find_glued_anchor_in_lines :: "ustr list \<Rightarrow> nat list \<Rightarrow> nat list" where
  "find_glued_anchor_in_lines ls check_indices =
     map Suc (filter (\<lambda>i. i < length ls \<and> GLUED_ANCHOR_REGEX (ls ! i)) check_indices)"

definition extract_id :: "ustr \<Rightarrow> ustr" where
  "extract_id reference =
     (if reference = [] then []
      else (case split_once delim reference of Some (a, b) \<Rightarrow> a | None \<Rightarrow> reference))"


section \<open>Facts about the matchers\<close>

lemma alnum_not_ws: "is_ascii_alnum c \<Longrightarrow> \<not> is_ws c"
  by (auto simp: ascii_defs is_ws_def)

lemma alnum_not_delim: "is_ascii_alnum c \<Longrightarrow> c \<noteq> delim"
  by (auto simp: ascii_defs)

lemma upper_alnum: "is_ascii_upper c \<Longrightarrow> is_ascii_alnum c"
  by (simp add: is_ascii_alnum_def)

lemma upper_not_nd: "is_ascii_upper c \<Longrightarrow> \<not> is_nd c"
  by (auto simp: is_ascii_upper_def is_nd_def)

lemma upper_not_hex: "is_ascii_upper c \<Longrightarrow> \<not> is_lower_hex c"
  by (auto simp: is_ascii_upper_def is_lower_hex_def is_ascii_digit_def)

lemma ascii_digit_nd: "48 \<le> c \<Longrightarrow> c \<le> 57 \<Longrightarrow> is_nd c"
  by (simp add: is_nd_def)

lemmas name_char_facts = alnum_not_ws alnum_not_delim upper_alnum upper_not_nd upper_not_hex

lemma show_nat_digits: "\<forall>c \<in> set (show_nat n). 48 \<le> c \<and> c \<le> 57"
proof (induction n rule: show_nat.induct)
  case (1 n)
  show ?case
    by (cases "n < 10"; subst show_nat.simps; use "1.IH" in auto)
qed

lemma show_nat_neq_Nil [simp]: "show_nat n \<noteq> []"
  by (subst show_nat.simps) simp

lemma takeWhile_run:
  "(\<forall>x \<in> set a. P x) \<Longrightarrow> (b = [] \<or> \<not> P (hd b)) \<Longrightarrow> takeWhile P (a @ b) = a"
  by (cases b) (auto simp: takeWhile_append)

lemma dropWhile_run:
  "(\<forall>x \<in> set a. P x) \<Longrightarrow> (b = [] \<or> \<not> P (hd b)) \<Longrightarrow> dropWhile P (a @ b) = b"
  by (cases b) (auto simp: dropWhile_append)

lemma trim_start_clean: "s = [] \<or> \<not> is_ws (hd s) \<Longrightarrow> trim_start s = s"
  by (cases s) (auto simp: trim_start_def)

lemma trim_clean: "(\<forall>c \<in> set s. \<not> is_ws c) \<Longrightarrow> trim s = s"
proof -
  assume h: "\<forall>c \<in> set s. \<not> is_ws c"
  then have "trim_start s = s" by (intro trim_start_clean) (cases s; auto)
  moreover have "dropWhile is_ws (rev s) = rev s"
    using h by (cases "rev s") (auto simp flip: set_rev[of s])
  ultimately show ?thesis by (simp add: trim_def trim_end_def)
qed

lemma trim_Nil [simp]: "trim [] = []"
  by (simp add: trim_def trim_end_def trim_start_def)

lemma ANCHOR_NAME_alnum: "ANCHOR_NAME_REGEX a \<Longrightarrow> c \<in> set a \<Longrightarrow> is_ascii_alnum c"
  by (auto simp: ANCHOR_NAME_REGEX_def upper_alnum list_all_iff split: list.splits)

lemma ANCHOR_NAME_head: "ANCHOR_NAME_REGEX a \<Longrightarrow> \<exists>c r. a = c # r \<and> is_ascii_upper c \<and> (\<forall>x \<in> set r. is_ascii_alnum x)"
  by (auto simp: ANCHOR_NAME_REGEX_def list_all_iff split: list.splits)

lemma ANCHOR_NAME_trim: "ANCHOR_NAME_REGEX a \<Longrightarrow> trim a = a"
  by (intro trim_clean) (auto dest: ANCHOR_NAME_alnum alnum_not_ws)

lemma ANCHOR_NAME_no_delim: "ANCHOR_NAME_REGEX a \<Longrightarrow> delim \<notin> set a"
  by (auto dest: ANCHOR_NAME_alnum alnum_not_delim)

lemma strip_dup_clean: "\<not> has_dup_suffix s \<Longrightarrow> strip_duplicate_anchor_suffix s = s"
  by (simp add: has_dup_suffix_def)

lemma strip_dup_prefix: "\<exists>r. s = strip_duplicate_anchor_suffix s @ r"
  by (induction s) auto

lemma strip_dup_set: "set (strip_duplicate_anchor_suffix s) \<subseteq> set s"
proof -
  obtain r where "s = strip_duplicate_anchor_suffix s @ r" using strip_dup_prefix by blast
  then show ?thesis by (metis set_append Un_upper1)
qed

lemma gutter_none: "s = [] \<or> \<not> is_nd (hd s) \<Longrightarrow> LINE_NUMBER_GUTTER_REGEX s = None"
  by (cases s) (auto simp: LINE_NUMBER_GUTTER_REGEX_def)

lemma strip_gutter_name:
  "ANCHOR_NAME_REGEX a \<Longrightarrow> strip_line_number_gutter (a @ s) = a @ s"
  by (auto simp: strip_line_number_gutter_def dest!: ANCHOR_NAME_head intro!: gutter_none
      split: option.splits dest: upper_not_nd)
     (metis gutter_none append_Cons list.sel(1) option.distinct(1) upper_not_nd)

lemma strip_gutter_numbered:
  assumes "r \<noteq> []" and "\<not> is_ws (hd r)"
  shows "strip_line_number_gutter (show_nat n @ str '': '' @ r) = r"
proof -
  have tw: "takeWhile is_nd (show_nat n @ 58 # 32 # r) = show_nat n"
    by (rule takeWhile_run) (auto simp: is_nd_def dest: show_nat_digits[rule_format])
  have sp: "is_ws 32" by (simp add: is_ws_def)
  have dw: "dropWhile is_ws r = r"
    using assms by (cases r) auto
  show ?thesis
    by (simp add: strip_line_number_gutter_def LINE_NUMBER_GUTTER_REGEX_def tw dw sp str_def Let_def)
qed


section \<open>Reading back what was displayed\<close>

lemma split_anchor_core:
  assumes "ANCHOR_NAME_REGEX a" and "\<not> has_dup_suffix c"
    and "strip_line_number_gutter (trim_start raw) = a @ delim # c"
  shows "split_anchor raw = (a, c)"
  using assms by (simp add: split_anchor_def split_once_append ANCHOR_NAME_no_delim
      ANCHOR_NAME_trim strip_dup_clean)

lemma name_hd: "ANCHOR_NAME_REGEX a \<Longrightarrow> a \<noteq> [] \<and> \<not> is_ws (hd a)"
  by (auto dest!: ANCHOR_NAME_head simp: upper_alnum alnum_not_ws)

text \<open>An anchored line copied from the reader's output, with or without its line number, splits
  into the anchor and the content it was built from.\<close>

lemma split_anchor_format:
  assumes "ANCHOR_NAME_REGEX a" and "\<not> has_dup_suffix c"
  shows "split_anchor (format_line_with_hash c a) = (a, c)"
proof -
  have "trim_start (a @ delim # c) = a @ delim # c"
    using name_hd[OF assms(1)] by (intro trim_start_clean) simp
  then show ?thesis
    using assms by (intro split_anchor_core)
      (auto simp: format_line_with_hash_def ANCHOR_DELIMITER_def strip_gutter_name)
qed

lemma split_anchor_numbered:
  assumes "ANCHOR_NAME_REGEX a" and "\<not> has_dup_suffix c"
  shows "split_anchor (format_numbered_line_with_hash n c a) = (a, c)"
proof -
  obtain d ds where sn: "show_nat n = d # ds" by (cases "show_nat n") auto
  then have "\<not> is_ws d"
    using show_nat_digits[of n] by (auto simp: is_ws_def)
  then have ts: "trim_start (show_nat n @ str '': '' @ a @ delim # c) = show_nat n @ str '': '' @ a @ delim # c"
    by (intro trim_start_clean) (simp add: sn)
  have "strip_line_number_gutter (show_nat n @ str '': '' @ (a @ delim # c)) = a @ delim # c"
    using name_hd[OF assms(1)] by (intro strip_gutter_numbered) auto
  then show ?thesis
    using assms by (intro split_anchor_core)
      (auto simp: format_numbered_line_with_hash_def ANCHOR_DELIMITER_def ts)
qed

lemma match_word_name:
  assumes "ANCHOR_NAME_REGEX a"
  shows "match_word (a @ delim # c) = Some c"
proof -
  obtain d r where ar: "a = d # r" "is_ascii_upper d" "\<forall>x \<in> set r. is_ascii_alnum x"
    using ANCHOR_NAME_head[OF assms] by blast
  have "dropWhile is_ascii_alnum (r @ delim # c) = delim # c"
    using ar(3) by (intro dropWhile_run)
      (auto simp: ascii_defs)
  moreover have "\<not> is_ws delim" by (simp add: is_ws_def)
  ultimately show ?thesis
    by (simp add: match_word_def match_delim_def ar)
qed

lemma ANCHOR_STRIP_name:
  assumes "ANCHOR_NAME_REGEX a"
  shows "ANCHOR_STRIP_REGEX (a @ delim # c) = Some c"
proof -
  obtain d r where ar: "a = d # r" "is_ascii_upper d"
    using ANCHOR_NAME_head[OF assms] by blast
  have d: "\<not> is_nd d" "\<not> is_lower_hex d" "d \<noteq> 32" "d \<noteq> 9"
    using ar(2) by (auto simp: upper_not_nd upper_not_hex is_ascii_upper_def)
  have "match_hex (a @ delim # c) = None"
    by (simp add: match_hex_def ar d)
  moreover have "match_gutter (a @ delim # c) = None"
    by (simp add: match_gutter_def ar d)
  ultimately show ?thesis
    using match_word_name[OF assms, of c]
    by (simp add: ANCHOR_STRIP_REGEX_def match_prefixed_name_def match_name_def ar d)
qed

text \<open>Stripping the display format of a line gives the line back, and stripping keeps the number
  of lines.\<close>

lemma strip_hashes_format:
  assumes "ANCHOR_NAME_REGEX a" and "nl \<notin> set c"
    and "\<not> has_dup_suffix (strip_cr c)"
  shows "strip_hashes (format_line_with_hash c a) = c"
proof -
  have "nl \<notin> set a" using assms(1)
    by (auto dest: ANCHOR_NAME_alnum simp: ascii_defs)
  then have "split_on nl (a @ delim # c) = [a @ delim # c]"
    using assms(2) by (intro split_on_clean) auto
  moreover have "strip_hashes_line (a @ delim # c) = c"
    using assms(3)
    by (cases "strip_suffix [cr] c")
       (auto simp: strip_hashes_line_def ANCHOR_STRIP_name[OF assms(1)] strip_cr_def strip_dup_clean
         dest: strip_suffix_Some[THEN iffD1])
  ultimately show ?thesis
    by (simp add: strip_hashes_def format_line_with_hash_def ANCHOR_DELIMITER_def)
qed


lemma match_delim_suffix: "match_delim s = Some r \<Longrightarrow> set r \<subseteq> set s"
  by (auto simp: match_delim_def split: list.splits if_splits dest!: arg_cong[where f=set] dest: set_dropWhileD)

lemma match_word_suffix: "match_word s = Some r \<Longrightarrow> set r \<subseteq> set s"
  by (auto simp: match_word_def split: list.splits if_splits dest!: match_delim_suffix dest: set_dropWhileD)

lemma match_hex_suffix: "match_hex s = Some r \<Longrightarrow> set r \<subseteq> set s"
  by (auto simp: match_hex_def Let_def split: if_splits dest!: match_delim_suffix dest: in_set_dropD)

lemma match_name_suffix: "match_name s = Some r \<Longrightarrow> set r \<subseteq> set s"
  by (auto simp: match_name_def split: option.splits dest!: match_word_suffix match_hex_suffix)

lemma set_dropWhile_subset: "set (dropWhile P s) \<subseteq> set s"
  by (auto dest: set_dropWhileD)

lemma match_prefixed_suffix: "match_prefixed_name s = Some r \<Longrightarrow> set r \<subseteq> set s"
  by (auto simp: match_prefixed_name_def split: option.splits dest!: match_name_suffix match_hex_suffix
      dest: set_dropWhileD)

lemma match_gutter_suffix: "match_gutter s = Some r \<Longrightarrow> set r \<subseteq> set s"
proof -
  assume h: "match_gutter s = Some r"
  then obtain r' where r': "drop (length (takeWhile is_nd s)) s = 58 # r'" and rr: "r = dropWhile is_ws r'"
    by (auto simp: match_gutter_def Let_def split: list.splits if_splits)
  have "set r' \<subseteq> set (drop (length (takeWhile is_nd s)) s)" by (simp add: r' subset_insertI)
  also have "\<dots> \<subseteq> set s" by (rule set_drop_subset)
  finally show ?thesis using set_dropWhile_subset[of is_ws r'] rr by blast
qed

lemma ANCHOR_STRIP_suffix: "ANCHOR_STRIP_REGEX s = Some r \<Longrightarrow> set r \<subseteq> set s"
  using set_dropWhile_subset[of "\<lambda>c. c = 32 \<or> c = 9" s]
  by (auto simp: ANCHOR_STRIP_REGEX_def Let_def split: option.splits
      dest!: match_prefixed_suffix match_gutter_suffix)

lemma strip_hashes_line_set: "set (strip_hashes_line l) \<subseteq> set l"
proof (cases "ANCHOR_STRIP_REGEX l")
  case None
  then show ?thesis by (simp add: strip_hashes_line_def)
next
  case (Some s)
  have sub: "set s \<subseteq> set l" by (rule ANCHOR_STRIP_suffix[OF Some])
  show ?thesis
  proof (cases "strip_suffix [cr] s")
    case None
    then show ?thesis using strip_dup_set[of s] sub by (auto simp: strip_hashes_line_def Some)
  next
    case (Some b)
    then have "s = b @ [cr]" by (simp add: strip_suffix_Some)
    then show ?thesis using strip_dup_set[of b] sub Some \<open>ANCHOR_STRIP_REGEX l = Some s\<close>
      by (auto simp: strip_hashes_line_def)
  qed
qed

lemma split_strip_hashes:
  "split_on nl (strip_hashes s) = (if s = [] then [[]] else map strip_hashes_line (split_on nl s))"
proof (cases "s = []")
  case True
  then show ?thesis by (simp add: strip_hashes_def)
next
  case False
  have "\<forall>l \<in> set (map strip_hashes_line (split_on nl s)). nl \<notin> set l"
    using split_on_no_sep strip_hashes_line_set by fastforce
  then show ?thesis using False by (simp add: strip_hashes_def split_join)
qed

lemma length_split_strip_hashes [simp]:
  "length (split_on nl (strip_hashes s)) = length (split_on nl s)"
  by (simp add: split_strip_hashes)

lemma strip_gutter_set: "set (strip_line_number_gutter l) \<subseteq> set l"
proof -
  have d: "set (drop n l) \<subseteq> set l" for n by (rule set_drop_subset)
  have "set r \<subseteq> set l" if "drop (length (takeWhile is_nd l)) l = c # r" for c r
    using d[of "length (takeWhile is_nd l)"] that by auto
  then show ?thesis
    by (auto simp: strip_line_number_gutter_def LINE_NUMBER_GUTTER_REGEX_def Let_def
        split: option.splits list.splits if_splits dest: set_dropWhileD)
qed

lemma GLUED_append: "GLUED_ANCHOR_REGEX s \<Longrightarrow> GLUED_ANCHOR_REGEX (p @ s)"
  by (induction p) auto

text \<open>A current anchor followed by the delimiter is found wherever it stands in a line.\<close>

lemma GLUED_name:
  assumes "ANCHOR_NAME_REGEX a"
  shows "GLUED_ANCHOR_REGEX (p @ a @ delim # c)"
proof -
  obtain d r where ar: "a = d # r" "is_ascii_upper d" "\<forall>x \<in> set r. is_ascii_alnum x"
    using ANCHOR_NAME_head[OF assms] by blast
  have "dropWhile is_ascii_alnum (r @ delim # c) = delim # c"
    using ar(3) by (intro dropWhile_run)
      (auto simp: ascii_defs)
  then have "glued_here (a @ delim # c)"
    using ar(2) by (simp add: glued_here_def ar(1) starts_with_def)
  then have "GLUED_ANCHOR_REGEX (a @ delim # c)" by (simp add: ar(1))
  then show ?thesis by (rule GLUED_append)
qed

lemma find_glued_empty:
  "find_glued_anchor_in_lines ls is = [] \<longleftrightarrow> (\<forall>i \<in> set is. i < length ls \<longrightarrow> \<not> GLUED_ANCHOR_REGEX (ls ! i))"
  by (auto simp: find_glued_anchor_in_lines_def filter_empty_conv)

lemma length_compute_hashes [simp]: "length (compute_hashes ls) = length ls"
  by (simp add: compute_hashes_def)

lemma identical_content_indices_sound:
  "i < length ls \<Longrightarrow>
   n \<in> set (identical_content_indices ls ! i) \<longleftrightarrow>
     0 < n \<and> n \<le> length ls \<and> n \<noteq> Suc i \<and> ls ! (n - 1) = ls ! i"
  by (cases n) (auto simp: identical_content_indices_def bucket_def)

section \<open>Properties\<close>

lemma format_clean:
  assumes "ANCHOR_NAME_REGEX a" and "nl \<notin> set c"
  shows "nl \<notin> set (format_line_with_hash c a)"
proof -
  have "nl \<notin> set a" using assms(1)
    by (auto dest: ANCHOR_NAME_alnum simp: ascii_defs)
  then show ?thesis using assms(2) by (simp add: format_line_with_hash_def ANCHOR_DELIMITER_def)
qed

lemma strip_hashes_line_format:
  assumes "ANCHOR_NAME_REGEX a" and "nl \<notin> set c" and "\<not> has_dup_suffix (strip_cr c)"
  shows "strip_hashes_line (format_line_with_hash c a) = c"
proof -
  have "format_line_with_hash c a \<noteq> []" by (simp add: format_line_with_hash_def ANCHOR_DELIMITER_def)
  then have "split_on nl (strip_hashes (format_line_with_hash c a)) = [strip_hashes_line (format_line_with_hash c a)]"
    using format_clean[OF assms(1,2)] by (simp add: split_strip_hashes split_on_clean)
  then show ?thesis using strip_hashes_format[OF assms] split_on_clean[OF assms(2)] by simp
qed

text \<open>A line of the reader's output, with its line number and anchor, splits back into the anchor
  and the source line it shows, for every anchor name the regex admits.\<close>

theorem displayed_line_splits:
  assumes "ANCHOR_NAME_REGEX a" and "\<not> has_dup_suffix c"
  shows "split_anchor (format_numbered_line_with_hash n c a) = (a, c)
    \<and> split_anchor (format_line_with_hash c a) = (a, c)"
  using split_anchor_format[OF assms] split_anchor_numbered[OF assms] by simp

theorem displayed_line_splits_witness:
  "split_anchor (format_numbered_line_with_hash 12 (str ''  let x = 1;'') (str ''AxD6h8'')) = (str ''AxD6h8'', str ''  let x = 1;'')
    \<and> split_anchor (format_line_with_hash (str ''  let x = 1;'') (str ''AxD6h8'')) = (str ''AxD6h8'', str ''  let x = 1;'')"
  by (rule displayed_line_splits) code_simp+

text \<open>A block of anchored lines pasted back by the model is cleaned to the source lines it shows.\<close>

theorem pasted_block_cleaned:
  assumes "\<forall>(a, c) \<in> set block. ANCHOR_NAME_REGEX a \<and> nl \<notin> set c \<and> \<not> has_dup_suffix (strip_cr c)"
  shows "strip_hashes (join [nl] (map (\<lambda>(a, c). format_line_with_hash c a) block)) = join [nl] (map snd block)"
proof (cases "block = []")
  case True
  then show ?thesis by (simp add: strip_hashes_def)
next
  case False
  let ?ls = "map (\<lambda>(a, c). format_line_with_hash c a) block"
  have sp: "split_on nl (join [nl] ?ls) = ?ls"
    using assms False by (intro split_join) (auto simp: format_clean)
  have "strip_hashes_line \<circ> (\<lambda>(a, c). format_line_with_hash c a) = (\<lambda>x. strip_hashes_line (format_line_with_hash (snd x) (fst x)))"
    by auto
  then have "map strip_hashes_line ?ls = map snd block"
    using assms by (auto simp: strip_hashes_line_format)
  moreover have "?ls \<noteq> [[]]"
    by (cases block) (auto simp: format_line_with_hash_def ANCHOR_DELIMITER_def)
  then have "join [nl] ?ls \<noteq> []" using sp by force
  ultimately show ?thesis
    using sp by (simp add: strip_hashes_def del: map_map)
qed

theorem pasted_block_cleaned_witness:
  "strip_hashes (join [nl] (map (\<lambda>(a, c). format_line_with_hash c a) [(str ''Ab'', str ''x''), (str ''Cd'', str ''  y'')]))
     = join [nl] (map snd [(str ''Ab'', str ''x''), (str ''Cd'', str ''  y'')])"
  by (rule pasted_block_cleaned) code_simp

end
