(* ===== verification/FileText.thy ===== *)
theory FileText
  imports HashUtils
begin

text \<open>
  The text layer of \<open>src/core/file_editor.rs\<close>: logical lines, and the normalisation that
  removes a byte order mark and carriage returns before an edit and restores them after it.
\<close>

section \<open>Logical lines and line endings\<close>

definition split_content_lines :: "ustr \<Rightarrow> ustr list" where
  "split_content_lines content = split_on nl content"

datatype file_line_ending = Lf | CrLf

record file_text_format =
  line_ending :: file_line_ending
  line_endings :: "file_line_ending list"
  has_utf8_bom :: bool

definition default_file_text_format :: file_text_format where
  "default_file_text_format = \<lparr>line_ending = Lf, line_endings = [], has_utf8_bom = False\<rparr>"

text \<open>One entry per newline, in order: whether the character before it is a carriage return. The
  first argument says so of the character before the text.\<close>

fun scan_line_endings :: "bool \<Rightarrow> ustr \<Rightarrow> file_line_ending list" where
  "scan_line_endings p [] = []"
| "scan_line_endings p (c # cs) =
     (if c = nl then (if p then CrLf else Lf) # scan_line_endings False cs
      else scan_line_endings (c = cr) cs)"

text \<open>\<open>content.replace("\r\n", "\n")\<close>\<close>

fun replace_crlf :: "ustr \<Rightarrow> ustr" where
  "replace_crlf [] = []"
| "replace_crlf [c] = [c]"
| "replace_crlf (c # d # cs) =
     (if c = cr \<and> d = nl then nl # replace_crlf cs else c # replace_crlf (d # cs))"

definition strip_bom :: "ustr \<Rightarrow> ustr" where
  "strip_bom content = (case strip_prefix [bom] content of Some r \<Rightarrow> r | None \<Rightarrow> content)"

definition normalize_file_content :: "ustr \<Rightarrow> ustr \<times> file_text_format" where
  "normalize_file_content raw =
     (let has_bom = starts_with [bom] raw;
          content = strip_bom raw;
          endings = scan_line_endings False content;
          ending = (case endings of [] \<Rightarrow> Lf | e # _ \<Rightarrow> e);
          normalized = (if str_contains [cr, nl] content then replace_crlf content else content)
      in (normalized, \<lparr>line_ending = ending, line_endings = endings, has_utf8_bom = has_bom\<rparr>))"

text \<open>
  The restoring loop. It carries whether the previous character was a carriage return and the
  endings that are left; past the end of the table the file's default ending is used.
\<close>

fun restore_loop :: "file_line_ending \<Rightarrow> bool \<Rightarrow> file_line_ending list \<Rightarrow> ustr \<Rightarrow> ustr" where
  "restore_loop dflt p es [] = []"
| "restore_loop dflt p es (c # cs) =
     (if c = nl
      then (if \<not> p \<and> (case es of [] \<Rightarrow> dflt | e # _ \<Rightarrow> e) = CrLf then [cr, nl] else [nl])
             @ restore_loop dflt False (tl es) cs
      else c # restore_loop dflt (c = cr) es cs)"

definition restore_file_content_with_endings ::
    "ustr \<Rightarrow> file_text_format \<Rightarrow> file_line_ending list \<Rightarrow> ustr" where
  "restore_file_content_with_endings content format endings =
     (let restored = (if endings = [] \<and> line_ending format = Lf then content
                      else restore_loop (line_ending format) False endings content)
      in if has_utf8_bom format then bom # restored else restored)"

definition restore_file_content :: "ustr \<Rightarrow> file_text_format \<Rightarrow> ustr" where
  "restore_file_content content format =
     restore_file_content_with_endings content format (line_endings format)"

section \<open>Facts\<close>

lemma split_content_neq_Nil [simp]: "split_content_lines s \<noteq> []"
  by (simp add: split_content_lines_def)

lemma join_split_content [simp]: "join [nl] (split_content_lines s) = s"
  by (simp add: split_content_lines_def)

lemma split_content_join:
  "ls \<noteq> [] \<Longrightarrow> \<forall>l \<in> set ls. nl \<notin> set l \<Longrightarrow> split_content_lines (join [nl] ls) = ls"
  by (simp add: split_content_lines_def split_join)

lemma split_content_clean: "l \<in> set (split_content_lines s) \<Longrightarrow> nl \<notin> set l"
  by (auto simp: split_content_lines_def dest: split_on_no_sep)

lemma restore_loop_Lf [simp]: "restore_loop Lf p [] s = s"
  by (induction s arbitrary: p) auto

lemma restore_with_endings_loop:
  "restore_file_content_with_endings content format endings =
     (if has_utf8_bom format then [bom] else [])
       @ restore_loop (line_ending format) False endings content"
  by (auto simp: restore_file_content_with_endings_def Let_def)

lemma contains_Cons2:
  "str_contains [a, b] (c # d # s) \<longleftrightarrow> (c = a \<and> d = b) \<or> str_contains [a, b] (d # s)"
  by (auto simp: starts_with_def)

lemma replace_crlf_id: "\<not> str_contains [cr, nl] s \<Longrightarrow> replace_crlf s = s"
  by (induction s rule: replace_crlf.induct) (auto simp: starts_with_def)

lemma normalize_eq:
  "normalize_file_content raw =
     (replace_crlf (strip_bom raw),
      \<lparr>line_ending = (case scan_line_endings False (strip_bom raw) of [] \<Rightarrow> Lf | e # _ \<Rightarrow> e),
       line_endings = scan_line_endings False (strip_bom raw), has_utf8_bom = starts_with [bom] raw\<rparr>)"
  by (simp add: normalize_file_content_def Let_def replace_crlf_id)

lemma strip_bom_eq: "raw = (if starts_with [bom] raw then [bom] else []) @ strip_bom raw"
  by (auto simp: strip_bom_def starts_with_def strip_prefix_Some split: option.splits)

text \<open>A text with a carriage return before the one of a line ending: the second one is taken for
  part of the line ending, and the first one then hides it from the restoring loop.\<close>

definition crcrlf :: ustr where "crcrlf = [cr, cr, nl]"

lemma restore_replace:
  "\<not> str_contains crcrlf (if p then cr # s else s) \<Longrightarrow>
   restore_loop dflt p (scan_line_endings p s) (replace_crlf s) = s"
proof (induction s arbitrary: p rule: replace_crlf.induct)
  case 1
  then show ?case by simp
next
  case (2 c)
  then show ?case by (simp add: starts_with_def split: if_splits)
next
  case (3 c d cs)
  show ?case
  proof (cases "c = cr \<and> d = nl")
    case True
    with "3.prems" have "\<not> p" by (auto simp: crcrlf_def starts_with_def)
    moreover have "\<not> str_contains crcrlf cs"
      using "3.prems" True by (auto simp: crcrlf_def starts_with_def split: if_splits)
    ultimately show ?thesis using "3.IH"(1)[OF True, of False] True by simp
  next
    case False
    have "\<not> str_contains crcrlf (if c = cr then cr # d # cs else d # cs)"
      using "3.prems" by (auto simp: crcrlf_def starts_with_def split: if_splits)
    then show ?thesis using "3.IH"(2)[OF False, of "c = cr"] False
        "3.IH"(2)[OF False, of False] by auto
  qed
qed

lemma restore_replace_length:
  "length (restore_loop dflt p (scan_line_endings p s) (replace_crlf s)) \<le> length s"
  "str_contains crcrlf (if p then cr # s else s) \<Longrightarrow>
     length (restore_loop dflt p (scan_line_endings p s) (replace_crlf s)) < length s"
proof (induction s arbitrary: p rule: replace_crlf.induct)
  case (3 c d cs)
  {
    case 1
    show ?case
      using "3.IH"(1)[of False] "3.IH"(3)[of "c = cr"] "3.IH"(3)[of False]
      by (cases "c = cr \<and> d = nl"; cases "c = nl") auto
  next
    case 2
    show ?case
    proof (cases "c = cr \<and> d = nl")
      case True
      then show ?thesis
        using "3.IH"(1)[OF True, of False] "3.IH"(2)[OF True, of False] 2
        by (cases p) (auto simp: crcrlf_def starts_with_def)
    next
      case False
      then have "str_contains crcrlf (if c = cr then cr # d # cs else d # cs)"
        using 2 by (cases p) (auto simp: crcrlf_def starts_with_def split: if_splits)
      then show ?thesis using "3.IH"(4)[OF False, of "c = cr"] False
          "3.IH"(4)[OF False, of False] by (auto split: if_splits)
    qed
  }
qed (auto simp: crcrlf_def starts_with_def split: if_splits)


section \<open>Round trips\<close>

lemma contains_bom_crcrlf: "str_contains crcrlf (bom # s) = str_contains crcrlf s"
  by (simp add: crcrlf_def starts_with_def)

lemma contains_strip_bom: "str_contains crcrlf (strip_bom raw) = str_contains crcrlf raw"
proof (cases "starts_with [bom] raw")
  case True
  then have "raw = bom # strip_bom raw" using strip_bom_eq[of raw] by simp
  then show ?thesis by (metis contains_bom_crcrlf)
next
  case False
  then show ?thesis using strip_bom_eq[of raw] by simp
qed

lemma restore_normalize_eq:
  "restore_file_content (fst (normalize_file_content raw)) (snd (normalize_file_content raw)) =
     (if starts_with [bom] raw then [bom] else []) @
     restore_loop (case scan_line_endings False (strip_bom raw) of [] \<Rightarrow> Lf | e # _ \<Rightarrow> e) False
       (scan_line_endings False (strip_bom raw)) (replace_crlf (strip_bom raw))"
  by (simp add: restore_file_content_def restore_with_endings_loop normalize_eq)

lemma restore_normalize:
  "restore_file_content (fst (normalize_file_content raw)) (snd (normalize_file_content raw)) = raw
     \<longleftrightarrow> \<not> str_contains crcrlf raw"
proof
  assume "\<not> str_contains crcrlf raw"
  then have "\<not> str_contains crcrlf (if False then cr # strip_bom raw else strip_bom raw)"
    by (simp add: contains_strip_bom)
  from restore_replace[OF this] strip_bom_eq[of raw]
  show "restore_file_content (fst (normalize_file_content raw)) (snd (normalize_file_content raw)) = raw"
    by (simp add: restore_normalize_eq)
next
  assume eq: "restore_file_content (fst (normalize_file_content raw)) (snd (normalize_file_content raw)) = raw"
  show "\<not> str_contains crcrlf raw"
  proof
    assume "str_contains crcrlf raw"
    then have "str_contains crcrlf (if False then cr # strip_bom raw else strip_bom raw)"
      by (simp add: contains_strip_bom)
    from restore_replace_length(2)[OF this]
    have "length (restore_file_content (fst (normalize_file_content raw)) (snd (normalize_file_content raw)))
            < length ((if starts_with [bom] raw then [bom] else []) @ strip_bom raw)"
      by (simp add: restore_normalize_eq)
    then show False using eq strip_bom_eq[of raw] by simp
  qed
qed

text \<open>The other way round: text without carriage returns before a newline is read back unchanged,
  whatever endings were chosen, and the endings are the chosen ones.\<close>

lemma restore_loop_hd:
  "restore_loop d p es (c # cs) = x # r \<Longrightarrow> x = c \<or> (x = cr \<and> c = nl)"
  by (auto split: if_splits)

lemma replace_restore:
  "\<not> str_contains [cr, nl] (if p then cr # s else s) \<Longrightarrow>
   replace_crlf (restore_loop d p es s) = s"
proof (induction s arbitrary: p es)
  case Nil
  then show ?case by simp
next
  case (Cons c cs)
  show ?case
  proof (cases "c = nl")
    case True
    have "replace_crlf (nl # t) = nl # replace_crlf t" for t
      by (cases t) auto
    moreover have "\<not> p" "\<not> str_contains [cr, nl] cs"
      using Cons.prems True by (auto simp: starts_with_def split: if_splits)
    ultimately show ?thesis using Cons.IH[of False] True by simp
  next
    case False
    have prem: "\<not> str_contains [cr, nl] (if c = cr then cr # cs else cs)"
      using Cons.prems False by (auto simp: starts_with_def split: if_splits)
    have "replace_crlf (c # restore_loop d (c = cr) es cs) = c # replace_crlf (restore_loop d (c = cr) es cs)"
    proof (cases "restore_loop d (c = cr) es cs")
      case Nil
      then show ?thesis by simp
    next
      case (Cons x r)
      then obtain c' cs' where cs: "cs = c' # cs'" by (cases cs) auto
      have "\<not> (c = cr \<and> x = nl)"
        using prem Cons cs by (auto simp: starts_with_def split: if_splits)
      then show ?thesis using Cons by simp
    qed
    then show ?thesis using Cons.IH[OF prem] False by simp
  qed
qed

lemma restore_loop_not_bom:
  "\<not> starts_with [bom] s \<Longrightarrow> \<not> starts_with [bom] (restore_loop d p es s)"
  by (cases s) (auto simp: starts_with_def)

lemma strip_bom_noop: "\<not> starts_with [bom] s \<Longrightarrow> strip_bom s = s"
  by (simp add: starts_with_def strip_bom_def)

lemma strip_bom_restore:
  assumes "has_utf8_bom fmt \<or> \<not> starts_with [bom] s"
  shows "strip_bom (restore_file_content_with_endings s fmt es) = restore_loop (line_ending fmt) False es s"
  using assms restore_loop_not_bom[of s "line_ending fmt" False es]
  by (auto simp: restore_with_endings_loop strip_bom_noop) (simp_all add: strip_bom_def)

lemma normalize_restore:
  assumes "\<not> str_contains [cr, nl] s" and "has_utf8_bom fmt \<or> \<not> starts_with [bom] s"
  shows "fst (normalize_file_content (restore_file_content_with_endings s fmt es)) = s"
  using assms replace_restore[of False s] by (simp add: normalize_eq strip_bom_restore)

fun chosen_endings :: "file_line_ending \<Rightarrow> file_line_ending list \<Rightarrow> nat \<Rightarrow> file_line_ending list" where
  "chosen_endings d es 0 = []"
| "chosen_endings d [] (Suc n) = d # chosen_endings d [] n"
| "chosen_endings d (e # es) (Suc n) = e # chosen_endings d es n"

lemma scan_restore:
  "\<not> str_contains [cr, nl] (if p then cr # s else s) \<Longrightarrow>
   scan_line_endings p (restore_loop d p es s) = chosen_endings d es (count_list s nl)"
proof (induction s arbitrary: p es)
  case Nil
  then show ?case by simp
next
  case (Cons c cs)
  have "\<not> str_contains [cr, nl] (if c = cr then cr # cs else cs)"
    using Cons.prems by (auto simp: starts_with_def split: if_splits)
  note IH = Cons.IH[OF this]
  have "\<not> str_contains [cr, nl] cs"
    using Cons.prems by (auto simp: starts_with_def split: if_splits)
  then have IHF: "scan_line_endings False (restore_loop d False es cs) = chosen_endings d es (count_list cs nl)" for es
    using Cons.IH[of False] by simp
  show ?case
  proof (cases "c = nl")
    case True
    then have "\<not> p" using Cons.prems by (auto simp: starts_with_def split: if_splits)
    then show ?thesis using True IHF IHF[of "[]"]
      by (cases es; cases d; cases "hd es") auto
  next
    case False
    then show ?thesis using IH by simp
  qed
qed

section \<open>Properties\<close>

text \<open>C34. Reading a file and writing it back unedited reproduces it byte for byte, mixed line endings and
  byte order mark included, exactly when no line ending is preceded by a further carriage return.\<close>

theorem unedited_file_restored_iff:
  "restore_file_content (fst (normalize_file_content raw)) (snd (normalize_file_content raw)) = raw
     \<longleftrightarrow> \<not> str_contains crcrlf raw"
  by (rule restore_normalize)

text \<open>Edited text written in a file's format reads back as that text, keeps the byte order mark, and
  every line gets the ending chosen for it: the given one, or the file's dominant one beyond the given.\<close>

theorem edited_file_reads_back:
  assumes "\<not> str_contains [cr, nl] body" and "\<not> starts_with [bom] body"
  shows "fst (normalize_file_content (restore_file_content_with_endings body fmt endings)) = body
    \<and> has_utf8_bom (snd (normalize_file_content (restore_file_content_with_endings body fmt endings))) = has_utf8_bom fmt
    \<and> line_endings (snd (normalize_file_content (restore_file_content_with_endings body fmt endings)))
        = chosen_endings (line_ending fmt) endings (count_list body nl)"
proof -
  have "has_utf8_bom fmt = starts_with [bom] (restore_file_content_with_endings body fmt endings)"
    using restore_loop_not_bom[OF assms(2)] by (auto simp: restore_with_endings_loop starts_with_def)
  then show ?thesis
    using assms normalize_restore[of body fmt endings] scan_restore[of False body]
    by (simp add: normalize_eq strip_bom_restore)
qed

theorem edited_file_reads_back_witness:
  "fst (normalize_file_content (restore_file_content_with_endings (str ''a'' @ [nl] @ str ''b'' @ [nl]) \<lparr>line_ending = CrLf, line_endings = [CrLf], has_utf8_bom = True\<rparr> [Lf]))
     = str ''a'' @ [nl] @ str ''b'' @ [nl]
   \<and> has_utf8_bom (snd (normalize_file_content (restore_file_content_with_endings (str ''a'' @ [nl] @ str ''b'' @ [nl]) \<lparr>line_ending = CrLf, line_endings = [CrLf], has_utf8_bom = True\<rparr> [Lf])))
     = has_utf8_bom \<lparr>line_ending = CrLf, line_endings = [CrLf], has_utf8_bom = True\<rparr>
   \<and> line_endings (snd (normalize_file_content (restore_file_content_with_endings (str ''a'' @ [nl] @ str ''b'' @ [nl]) \<lparr>line_ending = CrLf, line_endings = [CrLf], has_utf8_bom = True\<rparr> [Lf])))
     = chosen_endings (line_ending \<lparr>line_ending = CrLf, line_endings = [CrLf], has_utf8_bom = True\<rparr>) [Lf] (count_list (str ''a'' @ [nl] @ str ''b'' @ [nl]) nl)"
  by (rule edited_file_reads_back) code_simp+

end
