(* ===== verification/EditTypes.thy ===== *)
theory EditTypes
  imports FileText
begin

text \<open>
  The data of the edit engine in \<open>src/core/file_editor.rs\<close> (edits, resolved edits, failures,
  applied edits, outcomes) and the classification of failure diagnostics that decides which
  recovery the model is told to take.
\<close>

section \<open>Edits and their outcomes\<close>

record edit =
  ed_anchor :: ustr
  ed_end_anchor :: "ustr option"
  ed_edit_type :: ustr
  ed_text :: ustr
  ed_content :: "ustr list option"
  ed_old_text :: "ustr option"

definition Edit_anchored ::
    "ustr \<Rightarrow> ustr option \<Rightarrow> ustr \<Rightarrow> ustr \<Rightarrow> ustr list option \<Rightarrow> edit" where
  "Edit_anchored anchor end_anchor edit_type text content =
     \<lparr>ed_anchor = anchor, ed_end_anchor = end_anchor, ed_edit_type = edit_type, ed_text = text,
      ed_content = content, ed_old_text = None\<rparr>"

definition Edit_block :: "ustr \<Rightarrow> ustr \<Rightarrow> edit" where
  "Edit_block old_text new_text =
     \<lparr>ed_anchor = [], ed_end_anchor = None, ed_edit_type = str ''replace'', ed_text = new_text,
      ed_content = None, ed_old_text = Some old_text\<rparr>"

record resolved_edit =
  line_idx :: nat
  end_idx :: nat
  re_edit :: edit

record unchanged_site =
  us_line_idx :: nat
  us_end_idx :: nat
  identical_content_at :: "nat list"
  total_identical_count :: nat
  anchor_word :: "ustr option"

record failed_edit =
  fe_edit :: edit
  fe_error :: ustr

record applied_edit =
  start_idx :: nat
  ae_end_idx :: nat
  original_start_idx :: nat
  original_end_idx :: nat
  ae_edit :: edit
  lines_added :: nat
  lines_deleted :: nat

record splice_provenance =
  origins :: "nat option list"
  edit_ranges :: "applied_edit list"

datatype apply_outcome =
    Applied "ustr list" nat nat "applied_edit list" "unchanged_site list"
  | Overlap
  | GluedAnchor "nat list"
  | DuplicateInsertion "failed_edit list"

text \<open>\<open>{:?}\<close> on a string escapes it with the tables of the standard library; the escaping is the
  parameter \<open>dbg\<close> wherever a message quotes text that way.\<close>

definition describe_edit :: "(ustr \<Rightarrow> ustr) \<Rightarrow> edit \<Rightarrow> ustr" where
  "describe_edit dbg e =
     (case ed_old_text e of
        Some old_text \<Rightarrow> str ''Block edit (old_text: '' @ dbg (take 80 old_text) @ str '')''
      | None \<Rightarrow> str ''Edit (anchor: \"'' @ ed_anchor e @ str ''\", end_anchor: \"''
                 @ (case ed_end_anchor e of Some a \<Rightarrow> a | None \<Rightarrow> []) @ str ''\")'')"

definition format_failure_message :: "(ustr \<Rightarrow> ustr) \<Rightarrow> edit \<Rightarrow> ustr option \<Rightarrow> ustr" where
  "format_failure_message dbg e err =
     describe_edit dbg e @ str '' failed.'' @
     (case err of
        None \<Rightarrow> str '' Incorrect selector or unexpected file content.''
      | Some d \<Rightarrow> str '' Diagnostics: '' @ d)"

section \<open>Failure reasons\<close>

datatype edit_failure_reason =
    InvalidEditInput | MissingAnchor | UnknownAnchor | DuplicateContent | WhitespaceMismatch
  | RangeOverlap | ReasonGluedAnchor | ReasonDuplicateInsertion

definition names_fragments :: "ustr \<Rightarrow> bool" where
  "names_fragments lower \<longleftrightarrow> str_contains (str ''glued'') lower
     \<or> str_contains (str ''word'' @ [delim] @ str ''/hex'' @ [delim] @ str '' fragments'') lower"

definition names_duplicates :: "ustr \<Rightarrow> bool" where
  "names_duplicates lower \<longleftrightarrow> str_contains (str ''matches '') lower
     \<and> str_contains (str ''identical content'') lower"

definition names_missing :: "ustr \<Rightarrow> bool" where
  "names_missing lower \<longleftrightarrow> str_contains (str ''missing'') lower
     \<or> str_contains (str ''multiple lines'') lower \<or> str_contains (str ''incorrectly formatted'') lower"

definition names_stale :: "ustr \<Rightarrow> bool" where
  "names_stale lower \<longleftrightarrow> str_contains (str ''not found in the file'') lower
     \<or> str_contains (str ''anchor is stale'') lower"

definition from_diagnostic :: "ustr \<Rightarrow> edit_failure_reason" where
  "from_diagnostic diagnostic =
     (let lower = to_ascii_lower diagnostic in
      if str_contains (str ''duplicate insertion'') lower then ReasonDuplicateInsertion
      else if str_contains (str ''overlap'') lower then RangeOverlap
      else if names_fragments lower then ReasonGluedAnchor
      else if names_duplicates lower then DuplicateContent
      else if str_contains (str ''only after trimming whitespace'') lower then WhitespaceMismatch
      else if names_missing lower then MissingAnchor
      else UnknownAnchor)"

definition add_reason :: "bool \<Rightarrow> edit_failure_reason \<Rightarrow> edit_failure_reason list \<Rightarrow> edit_failure_reason list" where
  "add_reason b r rs = (if b \<and> r \<notin> set rs then rs @ [r] else rs)"

definition recognized_reasons :: "ustr \<Rightarrow> edit_failure_reason list" where
  "recognized_reasons lower =
     add_reason (names_stale lower) UnknownAnchor
    (add_reason (names_missing lower) MissingAnchor
    (add_reason (str_contains (str ''only after trimming whitespace'') lower) WhitespaceMismatch
    (add_reason (names_duplicates lower) DuplicateContent
    (add_reason (names_fragments lower) ReasonGluedAnchor
    (add_reason (str_contains (str ''duplicate insertion'') lower) ReasonDuplicateInsertion
    (add_reason (str_contains (str ''overlap'') lower) RangeOverlap []))))))"

definition from_diagnostics :: "ustr \<Rightarrow> edit_failure_reason list" where
  "from_diagnostics diagnostic =
     (let reasons = recognized_reasons (to_ascii_lower diagnostic) in
      if reasons = [] then [from_diagnostic diagnostic] else reasons)"

definition label :: "edit_failure_reason \<Rightarrow> ustr" where
  "label r = (case r of
     InvalidEditInput \<Rightarrow> str ''invalid edit parameters''
   | MissingAnchor \<Rightarrow> str ''missing or malformed anchor''
   | UnknownAnchor \<Rightarrow> str ''unknown or stale anchor''
   | DuplicateContent \<Rightarrow> str ''duplicate anchor content''
   | WhitespaceMismatch \<Rightarrow> str ''whitespace mismatch''
   | RangeOverlap \<Rightarrow> str ''overlapping edit ranges''
   | ReasonGluedAnchor \<Rightarrow> str ''glued anchor fragments''
   | ReasonDuplicateInsertion \<Rightarrow> str ''duplicate insertion'')"

definition reason_requires_reread :: "edit_failure_reason \<Rightarrow> bool" where
  "reason_requires_reread r \<longleftrightarrow> r = MissingAnchor \<or> r = UnknownAnchor \<or> r = ReasonGluedAnchor"

section \<open>Errors of a file edit\<close>

datatype file_editor_error =
    AllEditsFailed (err_message: ustr)
  | ValidationError ustr
  | AtomicBatchRejected (err_message: ustr) (failed_count: nat) (withheld_count: nat)
      (err_requires_reread: bool) (validation_only: bool)
  | OverlappingEdits (err_message: ustr)

definition atomic_batch_rejected :: "ustr \<Rightarrow> nat \<Rightarrow> nat \<Rightarrow> file_editor_error" where
  "atomic_batch_rejected message failed withheld =
     AtomicBatchRejected message failed withheld
       (list_ex reason_requires_reread (from_diagnostics message)) False"

definition validation_batch_rejected :: "ustr \<Rightarrow> nat \<Rightarrow> nat \<Rightarrow> file_editor_error" where
  "validation_batch_rejected message failed withheld =
     AtomicBatchRejected message failed withheld False True"

definition is_validation_error :: "file_editor_error \<Rightarrow> bool" where
  "is_validation_error e = (case e of
     ValidationError _ \<Rightarrow> True | AtomicBatchRejected _ _ _ _ v \<Rightarrow> v | _ \<Rightarrow> False)"

definition requires_reread :: "file_editor_error \<Rightarrow> bool" where
  "requires_reread e = (case e of AtomicBatchRejected _ _ _ r _ \<Rightarrow> r | _ \<Rightarrow> False)"

section \<open>Facts\<close>

lemma to_ascii_lower_append [simp]: "to_ascii_lower (a @ b) = to_ascii_lower a @ to_ascii_lower b"
  by (simp add: to_ascii_lower_def)

lemma to_ascii_lower_Nil [simp]: "to_ascii_lower [] = []"
  by (simp add: to_ascii_lower_def)

lemma str_contains_append: "str_contains p s \<Longrightarrow> str_contains p (a @ s @ b)"
  by (metis append_assoc str_contains_iff)

lemma str_contains_part: "str_contains p s \<Longrightarrow> str_contains p (a @ s)"
  "str_contains p s \<Longrightarrow> str_contains p (s @ b)"
  using str_contains_append[of p s a "[]"] str_contains_append[of p s "[]" b] by auto

lemma set_add_reason [simp]: "set (add_reason b r rs) = (if b then insert r (set rs) else set rs)"
  by (auto simp: add_reason_def)

lemma distinct_add_reason [simp]: "distinct rs \<Longrightarrow> distinct (add_reason b r rs)"
  by (auto simp: add_reason_def)

lemma set_recognized_reasons:
  "r \<in> set (recognized_reasons lower) \<longleftrightarrow>
     (r = UnknownAnchor \<and> names_stale lower) \<or> (r = MissingAnchor \<and> names_missing lower)
     \<or> (r = WhitespaceMismatch \<and> str_contains (str ''only after trimming whitespace'') lower)
     \<or> (r = DuplicateContent \<and> names_duplicates lower)
     \<or> (r = ReasonGluedAnchor \<and> names_fragments lower)
     \<or> (r = ReasonDuplicateInsertion \<and> str_contains (str ''duplicate insertion'') lower)
     \<or> (r = RangeOverlap \<and> str_contains (str ''overlap'') lower)"
  by (auto simp: recognized_reasons_def)

lemma from_diagnostics_distinct: "distinct (from_diagnostics d)"
  by (simp add: from_diagnostics_def recognized_reasons_def Let_def)

lemma names_mono:
  "names_stale s \<Longrightarrow> names_stale (a @ s @ b)"
  "names_missing s \<Longrightarrow> names_missing (a @ s @ b)"
  "names_duplicates s \<Longrightarrow> names_duplicates (a @ s @ b)"
  "names_fragments s \<Longrightarrow> names_fragments (a @ s @ b)"
  unfolding names_stale_def names_missing_def names_duplicates_def names_fragments_def
  using str_contains_append[of _ s a b] by blast+

lemma recognized_mono:
  assumes "r \<in> set (recognized_reasons s)"
  shows "r \<in> set (recognized_reasons (a @ s @ b))"
  using assms names_mono[of s a b]
    str_contains_append[of "str ''only after trimming whitespace''" s a b]
    str_contains_append[of "str ''duplicate insertion''" s a b]
    str_contains_append[of "str ''overlap''" s a b]
  unfolding set_recognized_reasons by argo

lemma join_split_at:
  "i < length ds \<Longrightarrow> \<exists>a b. join sep ds = a @ ds ! i @ b"
proof (induction ds arbitrary: i)
  case Nil
  then show ?case by simp
next
  case (Cons d ds)
  show ?case
  proof (cases i)
    case 0
    then show ?thesis by (cases "ds = []") (auto simp: join_Cons intro: exI[of _ "[]"])
  next
    case (Suc j)
    with Cons.prems have "ds \<noteq> []" "j < length ds" by auto
    moreover from Cons.IH[OF \<open>j < length ds\<close>] obtain a b where "join sep ds = a @ ds ! j @ b"
      by blast
    ultimately show ?thesis using Suc
      by (intro exI[of _ "d @ sep @ a"] exI[of _ b]) (simp add: join_Cons)
  qed
qed

lemma from_diagnostics_joined:
  assumes "d \<in> set ds" and "r \<in> set (recognized_reasons (to_ascii_lower d))"
  shows "r \<in> set (from_diagnostics (join sep ds))"
proof -
  obtain i where "i < length ds" "ds ! i = d" using assms(1) by (auto simp: in_set_conv_nth)
  then obtain a b where "join sep ds = a @ d @ b" using join_split_at by blast
  then have "r \<in> set (recognized_reasons (to_ascii_lower (join sep ds)))"
    using recognized_mono[OF assms(2)] by simp
  then show ?thesis by (auto simp: from_diagnostics_def Let_def)
qed

lemma requires_reread_atomic:
  "requires_reread (atomic_batch_rejected m f w) \<longleftrightarrow>
     (\<exists>r \<in> set (from_diagnostics m). reason_requires_reread r)"
  by (simp add: requires_reread_def atomic_batch_rejected_def list_ex_iff)

section \<open>Properties\<close>

text \<open>Joining the diagnostics of a batch loses no failure category: every category recognised in one of
  them is reported for the joined text, which reports none twice, and if one of them calls for a fresh read then so does the
  rejection of the whole batch.\<close>

theorem joined_diagnostics_keep_reasons:
  assumes "d \<in> set ds" and "r \<in> set (recognized_reasons (to_ascii_lower d))"
  shows "r \<in> set (from_diagnostics (join sep ds)) \<and> distinct (from_diagnostics (join sep ds))
    \<and> (reason_requires_reread r \<longrightarrow> requires_reread (atomic_batch_rejected (join sep ds) failed withheld))"
  using from_diagnostics_joined[OF assms, of sep] from_diagnostics_distinct requires_reread_atomic by blast

theorem joined_diagnostics_keep_reasons_witness:
  "UnknownAnchor \<in> set (from_diagnostics (join [nl] [str ''Overlap'', str ''anchor Ab not found in the file''])) \<and>
   distinct (from_diagnostics (join [nl] [str ''Overlap'', str ''anchor Ab not found in the file''])) \<and>
   requires_reread (atomic_batch_rejected (join [nl] [str ''Overlap'', str ''anchor Ab not found in the file'']) 1 0)"
proof -
  have "UnknownAnchor \<in> set (recognized_reasons (to_ascii_lower (str ''anchor Ab not found in the file'')))" by code_simp
  from joined_diagnostics_keep_reasons[OF _ this, of "[str ''Overlap'', str ''anchor Ab not found in the file'']" "[nl]" 1 0]
  show ?thesis by (simp add: reason_requires_reread_def)
qed

end
