(* ===== verification/EditResolve.thy ===== *)
theory EditResolve
  imports EditTypes
begin

text \<open>
  Resolution of edits to line ranges: \<open>EditExecutor::resolve_edits\<close> and its helpers in
  \<open>src/core/file_editor.rs\<close>. A helper of the source returns an index and an optional message,
  with \<open>usize::MAX\<close> as the index exactly when there is a message; \<open>resolution\<close> has one
  constructor for either case and one for an index out of range, where the source panics.
\<close>

section \<open>Diagnostics\<close>

datatype resolution = Bound nat | Unresolved ustr | Panic

definition quoted :: "ustr \<Rightarrow> ustr" where
  "quoted s = str ''\"'' @ s @ str ''\"''"

definition msg_missing :: "ustr \<Rightarrow> ustr" where
  "msg_missing t = t @ str '' is missing.''"

definition msg_multiple_lines :: "ustr \<Rightarrow> ustr" where
  "msg_multiple_lines t = t @ str '' contains multiple lines. Anchors must refer to a single line only in the format Anchor''
     @ ANCHOR_DELIMITER @ str ''{line_text}.''"

definition msg_multiple_lines_word :: "ustr \<Rightarrow> ustr" where
  "msg_multiple_lines_word t = t @ str '' contains multiple lines. Anchors must refer to a single line only in the format Anchor''
     @ ANCHOR_DELIMITER @ str ''line_text.''"

definition msg_bad_name_word :: "ustr \<Rightarrow> ustr" where
  "msg_bad_name_word t = t @ str '' is missing or incorrectly formatted. It must start with a single word followed by the delimiter (e.g., \"Apple''
     @ ANCHOR_DELIMITER @ str ''\").''"

definition msg_bad_name :: "ustr \<Rightarrow> ustr" where
  "msg_bad_name t = msg_bad_name_word t
     @ str '' COPY THE EXACT ANCHOR STRING FROM read_file OUTPUT (e.g., \"Crawler'' @ [delim]
     @ str ''void draw_game_over() {\"). Do NOT use raw source lines without the Word'' @ [delim] @ str '' prefix.''"

definition msg_not_found_word :: "ustr \<Rightarrow> ustr \<Rightarrow> ustr" where
  "msg_not_found_word t name = t @ str '' '' @ quoted name
     @ str '' not found in the file. Please ensure you are using the latest anchors from the most recent read_file output.''"

definition msg_not_found :: "ustr \<Rightarrow> ustr \<Rightarrow> ustr" where
  "msg_not_found t name = msg_not_found_word t name
     @ str '' COPY THE EXACT ANCHOR STRING FROM read_file OUTPUT (e.g., \"Crawler'' @ [delim]
     @ str ''void draw_game_over() {\"). Do not modify the anchor text or omit the Word'' @ [delim] @ str '' prefix.''"

definition msg_whitespace_tail :: ustr where
  "msg_whitespace_tail =
     str '' The supplied content differs from the file's content only in leading or trailing whitespace ''
     @ [8212] @ str '' copy the line EXACTLY from read_file output (preserving spaces) and retry. Do NOT re-read first; re-reading won't change whitespace.''"

definition msg_whitespace_one :: "(ustr \<Rightarrow> ustr) \<Rightarrow> ustr \<Rightarrow> ustr \<Rightarrow> nat \<Rightarrow> ustr \<Rightarrow> ustr" where
  "msg_whitespace_one dbg t name bound bound_content = t @ str '' '' @ quoted name
     @ str '' matches a line only after trimming whitespace (line '' @ show_nat (bound + 1)
     @ str ''), but the word-bound line is '' @ dbg bound_content @ str ''.'' @ msg_whitespace_tail"

definition msg_whitespace_many :: "ustr \<Rightarrow> ustr \<Rightarrow> nat list \<Rightarrow> ustr \<Rightarrow> ustr" where
  "msg_whitespace_many t name trimmed rebound = t @ str '' '' @ quoted name
     @ str '' matches a line only after trimming whitespace (lines ''
     @ join (str '', '') (map (\<lambda>i. show_nat (i + 1)) trimmed)
     @ str ''), but the word-bound line is ('' @ rebound @ str '').'' @ msg_whitespace_tail"

definition msg_reread_tail :: ustr where
  "msg_reread_tail = str '' after a prior edit. Please re-read the file with read_file to get fresh anchors before retrying.''"

definition msg_stale :: "ustr \<Rightarrow> ustr \<Rightarrow> ustr \<Rightarrow> ustr" where
  "msg_stale t name now = t @ str '' '' @ quoted name
     @ str '' exists, but the supplied content does not match the line it currently binds to (now: '' @ now
     @ str ''). The anchor is stale: the quoted word resolved to a different line'' @ msg_reread_tail"

definition msg_stale_rebound :: "ustr \<Rightarrow> ustr \<Rightarrow> ustr \<Rightarrow> ustr" where
  "msg_stale_rebound t name rebound = t @ str '' '' @ quoted name
     @ str '' exists, but the supplied content does not match a line it currently binds to (word-bound: '' @ rebound
     @ str ''). The anchor is stale: the quoted word resolved to different lines'' @ msg_reread_tail"

definition rebound_listing :: "(ustr \<Rightarrow> ustr) \<Rightarrow> ustr list \<Rightarrow> nat list \<Rightarrow> ustr" where
  "rebound_listing dbg ls wb = join (str '', '')
     (map (\<lambda>i. str ''line '' @ show_nat (i + 1) @ str '': '' @ dbg (ls ! i)) wb)"

definition msg_ambiguous ::
    "ustr \<Rightarrow> ustr \<Rightarrow> ustr \<Rightarrow> nat list \<Rightarrow> ustr list \<Rightarrow> ustr list \<Rightarrow> ustr option \<Rightarrow> ustr" where
  "msg_ambiguous t name provided cm hashes ls hint =
     (let occurrences = map (\<lambda>i. str ''  line '' @ show_nat (i + 1) @ str '': ''
            @ (if i < length hashes then hashes ! i else str ''?'') @ ANCHOR_DELIMITER @ ls ! i) (take 8 cm);
          overflow = length cm - length occurrences;
          listing = join [nl] occurrences
            @ (if overflow > 0 then [nl] @ str ''  ... and '' @ show_nat overflow @ str '' more'' else []);
          base = str ''Pin a unique span by quoting anchor + end_anchor + the lines between them in the 'content' field, then retry.''
      in t @ str '' '' @ quoted (name @ ANCHOR_DELIMITER @ provided) @ str '' matches ''
         @ show_nat (length cm) @ str '' lines with identical content:'' @ [nl] @ listing @ [nl]
         @ (case hint of Some h \<Rightarrow> h | None \<Rightarrow> base))"

definition msg_multiple_matches :: "ustr \<Rightarrow> ustr \<Rightarrow> nat list \<Rightarrow> ustr" where
  "msg_multiple_matches t name wb = t @ str '' '' @ quoted name @ str '' matches multiple lines (''
     @ join (str '', '') (map (\<lambda>i. str ''line '' @ show_nat (i + 1)) wb)
     @ str ''). Anchor a unique neighboring line instead, or rewrite the file with write_to_file.''"

section \<open>Resolution of one anchor\<close>

definition resolve_anchor_with_hint ::
    "(ustr \<Rightarrow> ustr) \<Rightarrow> ustr \<Rightarrow> ustr \<Rightarrow> ustr list \<Rightarrow> ustr list \<Rightarrow> ustr option \<Rightarrow> resolution" where
  "resolve_anchor_with_hint dbg anchor_type raw_anchor hashes ls hint =
     (let anchor_raw = trim_start raw_anchor in
      if anchor_raw = [] then Unresolved (msg_missing anchor_type)
      else if nl \<in> set anchor_raw \<or> cr \<in> set anchor_raw then Unresolved (msg_multiple_lines anchor_type)
      else
        (let (name, provided) = split_anchor anchor_raw in
         if \<not> ANCHOR_NAME_REGEX name then Unresolved (msg_bad_name anchor_type)
         else
           (let wb = positions (\<lambda>h. h = name) hashes;
                cm = positions (\<lambda>l. l = provided) ls;
                rebound = rebound_listing dbg ls wb;
                out_of_range = list_ex (\<lambda>i. length ls \<le> i) wb in
            if wb = [] then Unresolved (msg_not_found anchor_type name)
            else if length wb = 1 then
              (let bound = hd wb in
               if length ls \<le> bound then Panic
               else if ls ! bound = provided then Bound bound
               else if trim (ls ! bound) = trim provided \<and> ls ! bound \<noteq> []
               then Unresolved (msg_whitespace_one dbg anchor_type name bound (ls ! bound))
               else Unresolved (msg_stale anchor_type name (dbg (ls ! bound))))
            else if 2 \<le> length cm
            then Unresolved (msg_ambiguous anchor_type name provided cm hashes ls hint)
            else if cm = [] then
              (let trimmed = positions (\<lambda>l. trim l = trim provided \<and> l \<noteq> []) ls in
               if out_of_range then Panic
               else if trimmed \<noteq> [] then Unresolved (msg_whitespace_many anchor_type name trimmed rebound)
               else Unresolved (msg_stale anchor_type name rebound))
            else if hd cm \<notin> set wb then
              (if out_of_range then Panic else Unresolved (msg_stale_rebound anchor_type name rebound))
            else Bound (hd cm))))"

definition resolve_anchor ::
    "(ustr \<Rightarrow> ustr) \<Rightarrow> ustr \<Rightarrow> ustr \<Rightarrow> ustr list \<Rightarrow> ustr list \<Rightarrow> resolution" where
  "resolve_anchor dbg anchor_type raw_anchor hashes ls =
     resolve_anchor_with_hint dbg anchor_type raw_anchor hashes ls None"

definition resolve_anchor_by_word :: "ustr \<Rightarrow> ustr \<Rightarrow> ustr list \<Rightarrow> resolution" where
  "resolve_anchor_by_word anchor_type raw_anchor hashes =
     (let anchor_raw = trim raw_anchor in
      if anchor_raw = [] then Unresolved (msg_missing anchor_type)
      else if nl \<in> set anchor_raw \<or> cr \<in> set anchor_raw
      then Unresolved (msg_multiple_lines_word anchor_type)
      else
        (let name = fst (split_anchor anchor_raw) in
         if \<not> ANCHOR_NAME_REGEX name then Unresolved (msg_bad_name_word anchor_type)
         else
           (let wb = positions (\<lambda>h. h = name) hashes in
            if wb = [] then Unresolved (msg_not_found_word anchor_type name)
            else if length wb \<noteq> 1
            then Unresolved (msg_multiple_matches anchor_type name wb)
            else Bound (hd wb))))"

section \<open>Exact blocks: \<open>old_text\<close>\<close>

definition strip_final_newline :: "ustr \<Rightarrow> ustr" where
  "strip_final_newline s =
     (case strip_suffix [cr, nl] s of Some r \<Rightarrow> r
      | None \<Rightarrow> (case strip_suffix [nl] s of Some r \<Rightarrow> r | None \<Rightarrow> s))"

text \<open>The windows of \<open>n\<close> lines that satisfy a test, by their first index.\<close>

definition windows :: "(ustr list \<Rightarrow> bool) \<Rightarrow> nat \<Rightarrow> ustr list \<Rightarrow> nat list" where
  "windows P n ls =
     (if length ls < n then [] else filter (\<lambda>i. P (slice i n ls)) [0..<Suc (length ls - n)])"

definition find_block :: "ustr list \<Rightarrow> ustr list \<Rightarrow> nat list" where
  "find_block ls wanted = windows (\<lambda>w. w = wanted) (length wanted) ls"

definition find_trimmed_block :: "ustr list \<Rightarrow> ustr list \<Rightarrow> nat list" where
  "find_trimmed_block ls wanted =
     windows (\<lambda>w. list_all (\<lambda>(a, b). trim a = trim b) (zip w wanted)) (length wanted) ls"

definition ungutter_lines :: "ustr list \<Rightarrow> ustr list" where
  "ungutter_lines ls =
     split_content_lines (strip_hashes (join [nl] (map strip_line_number_gutter ls)))"

definition msg_block_insert :: "ustr \<Rightarrow> ustr" where
  "msg_block_insert edit_type =
     str ''Old_text block matching replaces the matched block; it cannot position an '' @ [39] @ edit_type @ [39]
     @ str '' insertion. Drop 'old_text' and use 'anchor' for insertions, or change 'edit_type' to 'replace'.''"

definition msg_block_not_found :: ustr where
  "msg_block_not_found = str ''Exact block replacement failed: 'old_text' was not found in the file. Ensure the quoted lines match the current file contents exactly.''"

definition msg_block_whitespace :: "nat \<Rightarrow> ustr list \<Rightarrow> ustr list \<Rightarrow> ustr" where
  "msg_block_whitespace start ls old_lines =
     str ''Exact block replacement failed: 'old_text' matches line '' @ show_nat (start + 1)
     @ str '' only after trimming whitespace.'' @ [nl] @ str ''File has:'' @ [nl]
     @ join [nl] (slice start (length old_lines) ls) @ [nl] @ str ''Supplied 'old_text':'' @ [nl]
     @ join [nl] old_lines @ [nl] @ str ''Indentation and whitespace must match the file exactly.''"

definition msg_block_many :: "(ustr \<Rightarrow> ustr) \<Rightarrow> nat list \<Rightarrow> ustr list \<Rightarrow> ustr" where
  "msg_block_many dbg matches ls =
     str ''Exact block replacement failed: 'old_text' matches '' @ show_nat (length matches)
     @ str '' occurrences in the file:'' @ [nl]
     @ join [nl] (map (\<lambda>i. str ''  line '' @ show_nat (i + 1) @ str '': '' @ dbg (ls ! i)) (take 5 matches))
     @ [nl] @ str ''Provide more surrounding context lines in 'old_text' to identify a unique block.''"

definition is_insert_type :: "ustr \<Rightarrow> bool" where
  "is_insert_type t \<longleftrightarrow> t = str ''insert_before'' \<or> t = str ''insert_after''"

definition at_range :: "edit \<Rightarrow> nat \<Rightarrow> nat \<Rightarrow> resolved_edit" where
  "at_range e a b = \<lparr>line_idx = a, end_idx = b, re_edit = e\<rparr>"

definition failing :: "edit \<Rightarrow> ustr \<Rightarrow> failed_edit" where
  "failing e m = \<lparr>fe_edit = e, fe_error = m\<rparr>"

definition resolve_block ::
    "(ustr \<Rightarrow> ustr) \<Rightarrow> ustr list \<Rightarrow> edit \<Rightarrow> ustr \<Rightarrow> failed_edit + resolved_edit" where
  "resolve_block dbg ls e old_text =
     (if is_insert_type (ed_edit_type e) then Inl (failing e (msg_block_insert (ed_edit_type e)))
      else
        (let clean_old = strip_hashes old_text in
         if trim clean_old = []
         then Inl (failing e (str ''Exact block replacement requires non-empty 'old_text'.''))
         else
           (let old_lines = split_content_lines (strip_final_newline clean_old);
                exact = find_block ls old_lines;
                matches = (if exact = [] then find_block ls (ungutter_lines old_lines) else exact);
                trimmed = find_trimmed_block ls old_lines in
            case matches of
              [] \<Rightarrow>
                (case trimmed of
                   [] \<Rightarrow> Inl (failing e msg_block_not_found)
                 | [i] \<Rightarrow> Inr (at_range e i (i + length old_lines - 1))
                 | i # _ \<Rightarrow> Inl (failing e (msg_block_whitespace i ls old_lines)))
            | [i] \<Rightarrow> Inr (at_range e i (i + length old_lines - 1))
            | _ \<Rightarrow> Inl (failing e (msg_block_many dbg matches ls)))))"

section \<open>Multi-line anchored selectors\<close>

text \<open>One expected line: the anchor word it must carry, when it has one, and its content.\<close>

type_synonym expected_line = "ustr option \<times> ustr"

definition anchored_line :: "ustr \<Rightarrow> bool" where
  "anchored_line l \<longleftrightarrow> delim \<in> set l \<and> ANCHOR_NAME_REGEX (fst (split_anchor l))"

definition expect_continuation :: "bool \<Rightarrow> ustr \<Rightarrow> expected_line" where
  "expect_continuation anchored_continuations line =
     (let l = strip_cr line in
      if anchored_continuations \<and> anchored_line l
      then (Some (fst (split_anchor l)), snd (split_anchor l)) else (None, l))"

definition expected_at :: "ustr list \<Rightarrow> ustr list \<Rightarrow> nat \<Rightarrow> expected_line \<Rightarrow> bool" where
  "expected_at hashes ls i x \<longleftrightarrow>
     (case fst x of None \<Rightarrow> True | Some w \<Rightarrow> i < length hashes \<and> hashes ! i = w)
      \<and> i < length ls \<and> ls ! i = snd x"

definition span_at :: "ustr list \<Rightarrow> ustr list \<Rightarrow> expected_line list \<Rightarrow> nat \<Rightarrow> bool" where
  "span_at hashes ls expected start \<longleftrightarrow>
     list_all (\<lambda>k. expected_at hashes ls (start + k) (expected ! k)) [0..<length expected]"

definition find_span :: "ustr \<Rightarrow> ustr list \<Rightarrow> ustr list \<Rightarrow> expected_line list \<Rightarrow> nat list" where
  "find_span first_word hashes ls expected =
     filter (\<lambda>start. span_at hashes ls expected start \<and> hashes ! start = first_word) [0..<length hashes]"

definition ungutter_expected :: "expected_line \<Rightarrow> expected_line" where
  "ungutter_expected x =
     (case fst x of
        Some w \<Rightarrow> x
      | None \<Rightarrow> (None, (case str_lines (strip_hashes (strip_line_number_gutter (snd x))) of
                        [] \<Rightarrow> [] | l # _ \<Rightarrow> l)))"

definition msg_span_start :: ustr where
  "msg_span_start = str ''A multiline anchored block must start with a complete Word'' @ [delim]
     @ str ''source line from read_file.''"

definition msg_span_suggest :: "ustr list \<Rightarrow> nat \<Rightarrow> ustr list \<Rightarrow> ustr" where
  "msg_span_suggest hashes start contents =
     str ''The multiline anchored block's words do not match current anchors, but its content matches lines ''
     @ show_nat (start + 1) @ [8211] @ show_nat (start + length contents)
     @ str '' exactly. The quoted words were likely mistranscribed or stale; retry with these current anchors:'' @ [nl]
     @ join [nl] (map (\<lambda>k. hashes ! (start + k) @ [delim] @ contents ! k) [0..<length contents])"

definition msg_span_stale :: "ustr \<Rightarrow> ustr" where
  "msg_span_stale what = str ''The multiline anchored block does not match consecutive current '' @ what
     @ str '' lines. Read the changed range again before retrying; no edit was applied.''"

definition msg_span_many :: ustr where
  "msg_span_many = str ''The multiline anchored block matches more than one range. Use a narrower unique range; no edit was applied.''"

definition continuations_anchored :: "ustr \<Rightarrow> bool" where
  "continuations_anchored raw = list_ex (\<lambda>l. delim \<in> set l) (tl (split_on nl raw))"

definition block_first_line :: "ustr \<Rightarrow> ustr" where
  "block_first_line raw = strip_cr (hd (split_on nl raw))"

definition expected_lines :: "ustr \<Rightarrow> expected_line list" where
  "expected_lines raw =
     (let (first_word, first_content) = split_anchor (block_first_line raw)
      in (Some first_word, first_content)
           # map (expect_continuation (continuations_anchored raw)) (tl (split_on nl raw)))"

text \<open>No span matches. When the continuation lines were anchored, a unique match of the contents alone
  is reported with its current anchors; \<open>None\<close> is the index panic of that suggestion, when there are
  fewer anchors than lines.\<close>

definition span_failure ::
    "bool \<Rightarrow> ustr list \<Rightarrow> ustr list \<Rightarrow> ustr list \<Rightarrow> (ustr + nat \<times> nat) option" where
  "span_failure anchored_continuations contents hashes ls =
     (if anchored_continuations then
        (case find_block ls contents of
           [start] \<Rightarrow>
             if length hashes < start + length contents then None
             else Some (Inl (msg_span_suggest hashes start contents))
         | _ \<Rightarrow> Some (Inl (msg_span_stale (str ''Word'' @ [delim] @ str ''source''))))
      else Some (Inl (msg_span_stale (str ''source''))))"

definition resolve_anchored_block ::
    "ustr \<Rightarrow> ustr list \<Rightarrow> ustr list \<Rightarrow> (ustr + nat \<times> nat) option" where
  "resolve_anchored_block raw hashes ls =
     (if \<not> anchored_line (block_first_line raw) then Some (Inl msg_span_start)
      else
        (let first_word = fst (split_anchor (block_first_line raw));
             expected = expected_lines raw;
             exact = find_span first_word hashes ls expected;
             matches = (if exact = [] then find_span first_word hashes ls (map ungutter_expected expected)
                        else exact) in
         case matches of
           [] \<Rightarrow> span_failure (continuations_anchored raw) (map snd expected) hashes ls
         | [start] \<Rightarrow> Some (Inr (start, start + (length expected - 1)))
         | _ # _ # _ \<Rightarrow> Some (Inl msg_span_many)))"

definition msg_range :: ustr where
  "msg_range = str ''Range error: anchor must refer to a line that precedes or is the same as end_anchor.''"

text \<open>One end of a multi-line selector: a block gives its first and last line, an anchor its line.\<close>

definition resolve_selector ::
    "(ustr \<Rightarrow> ustr) \<Rightarrow> ustr \<Rightarrow> ustr \<Rightarrow> ustr list \<Rightarrow> ustr list \<Rightarrow> (ustr + nat \<times> nat) option" where
  "resolve_selector dbg anchor_type raw hashes ls =
     (if nl \<in> set raw then resolve_anchored_block raw hashes ls
      else (case resolve_anchor dbg anchor_type raw hashes ls of
              Bound i \<Rightarrow> Some (Inr (i, i))
            | Unresolved m \<Rightarrow> Some (Inl m)
            | Panic \<Rightarrow> None))"

definition resolve_multiline ::
    "(ustr \<Rightarrow> ustr) \<Rightarrow> ustr list \<Rightarrow> ustr list \<Rightarrow> edit \<Rightarrow> (failed_edit + resolved_edit) option" where
  "resolve_multiline dbg hashes ls e =
     (if ed_edit_type e \<noteq> str ''replace''
      then Some (Inl (failing e (str ''Multiline anchored selectors require edit_type 'replace'.'')))
      else
        (case resolve_selector dbg (str ''anchor'') (ed_anchor e) hashes ls of
           None \<Rightarrow> None
         | Some (Inl m) \<Rightarrow> Some (Inl (failing e m))
         | Some (Inr (a, anchor_end)) \<Rightarrow>
             (case (case ed_end_anchor e of
                      None \<Rightarrow> Some (Inr (a, anchor_end))
                    | Some end_anchor \<Rightarrow> resolve_selector dbg (str ''end_anchor'') end_anchor hashes ls) of
                None \<Rightarrow> None
              | Some (Inl m) \<Rightarrow> Some (Inl (failing e m))
              | Some (Inr (_, b)) \<Rightarrow>
                  if b < a then Some (Inl (failing e msg_range)) else Some (Inr (at_range e a b)))))"

section \<open>Single-line selectors and fingerprints\<close>

definition hint_insert :: ustr where
  "hint_insert = str ''Anchor a unique neighboring line instead, or rewrite the file with write_to_file. The fingerprint escape hatch (anchor + end_anchor + content) does not apply to insert_before / insert_after.''"

definition bound_of :: "resolution \<Rightarrow> nat option" where
  "bound_of r = (case r of Bound i \<Rightarrow> Some i | _ \<Rightarrow> None)"

definition error_of :: "resolution \<Rightarrow> ustr list" where
  "error_of r = (case r of Unresolved m \<Rightarrow> [m] | _ \<Rightarrow> [])"

definition msg_fingerprint_length :: "nat \<Rightarrow> nat \<Rightarrow> ustr" where
  "msg_fingerprint_length expected got =
     str ''fingerprint content does not match the lines between anchor and end_anchor: expected ''
     @ show_nat expected @ str '' line(s), got '' @ show_nat got"

definition msg_fingerprint_span :: ustr where
  "msg_fingerprint_span = str ''fingerprint requires anchor and end_anchor to span at least one line between them.''"

definition msg_fingerprint_differs :: "(ustr \<Rightarrow> ustr) \<Rightarrow> nat \<Rightarrow> ustr \<Rightarrow> ustr \<Rightarrow> ustr" where
  "msg_fingerprint_differs dbg n file_line content_line =
     str ''fingerprint content differs from the file starting at interior line '' @ show_nat n
     @ str '': file has '' @ dbg file_line @ str '' but content lists '' @ dbg content_line"

text \<open>The lines strictly between the anchors must equal the supplied ones; \<open>None\<close> is the panic of
  a slice that ends beyond the file.\<close>

definition fingerprint_errors ::
    "(ustr \<Rightarrow> ustr) \<Rightarrow> ustr list \<Rightarrow> nat \<Rightarrow> nat \<Rightarrow> ustr list \<Rightarrow> ustr list option" where
  "fingerprint_errors dbg ls a b fp =
     (let interior_len = b - a - 1 in
      if interior_len \<noteq> length fp then Some [msg_fingerprint_length (length fp) interior_len]
      else if b \<le> a then Some [msg_fingerprint_span]
      else if length ls < b then None
      else
        (let interior = slice (a + 1) interior_len ls;
             diffs = filter (\<lambda>k. interior ! k \<noteq> fp ! k) [0..<interior_len] in
         case diffs of
           [] \<Rightarrow> Some []
         | d # _ \<Rightarrow> Some [msg_fingerprint_differs dbg (a + 1 + d) (interior ! d) (fp ! d)]))"

definition resolve_start ::
    "(ustr \<Rightarrow> ustr) \<Rightarrow> ustr list \<Rightarrow> ustr list \<Rightarrow> edit \<Rightarrow> bool \<Rightarrow> resolution" where
  "resolve_start dbg hashes ls e using_fingerprint =
     (if using_fingerprint then resolve_anchor_by_word (str ''anchor'') (ed_anchor e) hashes
      else resolve_anchor_with_hint dbg (str ''anchor'') (ed_anchor e) hashes ls
             (if is_insert_type (ed_edit_type e) then Some hint_insert else None))"

text \<open>A replace with a blank or missing end anchor ends where it starts.\<close>

definition resolve_end ::
    "(ustr \<Rightarrow> ustr) \<Rightarrow> ustr list \<Rightarrow> ustr list \<Rightarrow> edit \<Rightarrow> bool \<Rightarrow> resolution option" where
  "resolve_end dbg hashes ls e using_fingerprint =
     (let end_anchor = (case ed_end_anchor e of Some a \<Rightarrow> a | None \<Rightarrow> []) in
      if ed_edit_type e \<noteq> str ''replace'' \<or> trim end_anchor = [] then None
      else if using_fingerprint then Some (resolve_anchor_by_word (str ''end_anchor'') end_anchor hashes)
      else Some (resolve_anchor dbg (str ''end_anchor'') end_anchor hashes ls))"

definition range_errors ::
    "(ustr \<Rightarrow> ustr) \<Rightarrow> ustr list \<Rightarrow> ustr list option \<Rightarrow> resolution \<Rightarrow> resolution \<Rightarrow> ustr list option" where
  "range_errors dbg ls content start stop =
     (case (bound_of start, bound_of stop) of
        (Some a, Some b) \<Rightarrow>
          (case (case content of None \<Rightarrow> Some [] | Some fp \<Rightarrow> fingerprint_errors dbg ls a b fp) of
             None \<Rightarrow> None
           | Some errs \<Rightarrow> Some ((if b < a then [msg_range] else []) @ errs))
      | _ \<Rightarrow> Some [])"

definition fingerprinted :: "edit \<Rightarrow> bool" where
  "fingerprinted e \<longleftrightarrow> ed_edit_type e = str ''replace'' \<and> ed_end_anchor e \<noteq> None \<and> ed_content e \<noteq> None"

definition stop_of :: "resolution \<Rightarrow> resolution option \<Rightarrow> resolution" where
  "stop_of start ending = (case ending of Some r \<Rightarrow> r | None \<Rightarrow> start)"

definition resolve_single ::
    "(ustr \<Rightarrow> ustr) \<Rightarrow> ustr list \<Rightarrow> ustr list \<Rightarrow> edit \<Rightarrow> (failed_edit + resolved_edit) option" where
  "resolve_single dbg hashes ls e =
     (let start = resolve_start dbg hashes ls e (fingerprinted e);
          ending = resolve_end dbg hashes ls e (fingerprinted e);
          stop = stop_of start ending;
          stop_errors = (case ending of Some r \<Rightarrow> error_of r | None \<Rightarrow> []) in
      if start = Panic \<or> stop = Panic then None
      else
        (case range_errors dbg ls (ed_content e) start stop of
           None \<Rightarrow> None
         | Some errs \<Rightarrow>
             (let diagnostics = error_of start @ stop_errors @ errs in
              if diagnostics \<noteq> [] then Some (Inl (failing e (join (str '' '') diagnostics)))
              else (case (bound_of start, bound_of stop) of
                      (Some a, Some b) \<Rightarrow> Some (Inr (at_range e a b))
                    | _ \<Rightarrow> None))))"

section \<open>A batch of edits\<close>

definition resolve_edit ::
    "(ustr \<Rightarrow> ustr) \<Rightarrow> ustr list \<Rightarrow> ustr list \<Rightarrow> edit \<Rightarrow> (failed_edit + resolved_edit) option" where
  "resolve_edit dbg hashes ls e =
     (case ed_old_text e of
        Some old_text \<Rightarrow> Some (resolve_block dbg ls e old_text)
      | None \<Rightarrow>
          if nl \<in> set (ed_anchor e) \<or> (case ed_end_anchor e of Some a \<Rightarrow> nl \<in> set a | None \<Rightarrow> False)
          then resolve_multiline dbg hashes ls e
          else resolve_single dbg hashes ls e)"

fun resolve_all ::
    "(edit \<Rightarrow> (failed_edit + resolved_edit) option) \<Rightarrow> edit list
       \<Rightarrow> (resolved_edit list \<times> failed_edit list) option" where
  "resolve_all f [] = Some ([], [])"
| "resolve_all f (e # es) =
     (case f e of
        None \<Rightarrow> None
      | Some r \<Rightarrow> (case resolve_all f es of
          None \<Rightarrow> None
        | Some (rs, fs) \<Rightarrow> (case r of Inl x \<Rightarrow> Some (rs, x # fs) | Inr x \<Rightarrow> Some (x # rs, fs))))"

definition resolve_edits ::
    "(ustr \<Rightarrow> ustr) \<Rightarrow> edit list \<Rightarrow> ustr list \<Rightarrow> ustr list
       \<Rightarrow> (resolved_edit list \<times> failed_edit list) option" where
  "resolve_edits dbg edits ls line_hashes = resolve_all (resolve_edit dbg (map trim line_hashes) ls) edits"

section \<open>Soundness and bounds\<close>

lemma resolve_anchor_with_hint_Bound:
  assumes "resolve_anchor_with_hint dbg t raw hashes ls hint = Bound i"
  shows "i < length ls \<and> i < length hashes \<and> hashes ! i = fst (split_anchor (trim_start raw))
    \<and> ls ! i = snd (split_anchor (trim_start raw)) \<and> ANCHOR_NAME_REGEX (hashes ! i)"
proof -
  obtain name provided where sp: "split_anchor (trim_start raw) = (name, provided)"
    by (cases "split_anchor (trim_start raw)")
  let ?wb = "positions (\<lambda>h. h = name) hashes"
  let ?cm = "positions (\<lambda>l. l = provided) ls"
  have nm: "ANCHOR_NAME_REGEX name"
    using assms by (auto simp: resolve_anchor_with_hint_def sp Let_def split: if_splits)
  have "(length ?wb = 1 \<and> i = hd ?wb \<and> i < length ls \<and> ls ! i = provided)
    \<or> (?cm \<noteq> [] \<and> i = hd ?cm \<and> i \<in> set ?wb)"
    using assms by (auto simp: resolve_anchor_with_hint_def sp Let_def split: if_splits)
  then show ?thesis
  proof
    assume h: "length ?wb = 1 \<and> i = hd ?wb \<and> i < length ls \<and> ls ! i = provided"
    then have "i \<in> set ?wb" by (cases ?wb) auto
    then show ?thesis using h nm by (auto simp: sp positions_iff)
  next
    assume h: "?cm \<noteq> [] \<and> i = hd ?cm \<and> i \<in> set ?wb"
    then have "?cm \<noteq> []" by auto
    from positions_hd[OF this] h nm show ?thesis by (auto simp: sp positions_iff)
  qed
qed

lemma resolve_anchor_with_hint_no_panic:
  assumes "length hashes = length ls"
  shows "resolve_anchor_with_hint dbg t raw hashes ls hint \<noteq> Panic"
proof -
  obtain name provided where sp: "split_anchor (trim_start raw) = (name, provided)"
    by (cases "split_anchor (trim_start raw)")
  let ?wb = "positions (\<lambda>h. h = name) hashes"
  have ex: "\<not> list_ex (\<lambda>i. length ls \<le> i) ?wb"
    using assms by (auto simp: positions_iff list_ex_iff)
  have hd: "?wb \<noteq> [] \<Longrightarrow> \<not> length ls \<le> hd ?wb"
    using positions_hd[of "\<lambda>h. h = name" hashes] assms by simp
  {
    assume "resolve_anchor_with_hint dbg t raw hashes ls hint = Panic"
    then have "(?wb \<noteq> [] \<and> length ls \<le> hd ?wb) \<or> list_ex (\<lambda>i. length ls \<le> i) ?wb"
      by (auto simp: resolve_anchor_with_hint_def sp Let_def split: if_splits)
    then have False using ex hd by blast
  }
  then show ?thesis by blast
qed

lemma single_hd: "length xs = 1 \<Longrightarrow> i = hd xs \<Longrightarrow> xs = [i]"
  by (cases xs) auto

lemma resolve_anchor_by_word_Bound:
  assumes "resolve_anchor_by_word t raw hashes = Bound i"
  shows "i < length hashes \<and> hashes ! i = fst (split_anchor (trim raw))
    \<and> (\<forall>j < length hashes. hashes ! j = hashes ! i \<longrightarrow> j = i)"
proof -
  let ?n = "fst (split_anchor (trim raw))"
  let ?wb = "positions (\<lambda>h. h = ?n) hashes"
  have h: "length ?wb = 1" "i = hd ?wb"
    using assms by (auto simp: resolve_anchor_by_word_def Let_def split: if_splits)
  then have wb: "?wb = [i]" by (rule single_hd)
  have iff: "j < length hashes \<and> hashes ! j = ?n \<longleftrightarrow> j = i" for j
    using positions_iff[of j "\<lambda>h. h = ?n" hashes] by (simp add: wb)
  from iff[of i] have i: "i < length hashes" "hashes ! i = ?n" by auto
  have "j = i" if "j < length hashes" "hashes ! j = hashes ! i" for j
    using iff[of j] that i by simp
  with i show ?thesis by blast
qed

lemma resolve_anchor_by_word_no_panic: "resolve_anchor_by_word t raw hashes \<noteq> Panic"
  by (simp add: resolve_anchor_by_word_def Let_def)

lemma windows_iff: "i \<in> set (windows P n ls) \<longleftrightarrow> i + n \<le> length ls \<and> P (slice i n ls)"
  by (auto simp: windows_def simp del: upt_Suc)

lemma windows_distinct [simp]: "distinct (windows P n ls)"
  by (simp add: windows_def)

lemma find_block_iff:
  "i \<in> set (find_block ls wanted) \<longleftrightarrow>
     i + length wanted \<le> length ls \<and> slice i (length wanted) ls = wanted"
  by (simp add: find_block_def windows_iff)

lemma length_ungutter_lines:
  assumes "ls \<noteq> []" and "\<forall>l \<in> set ls. nl \<notin> set l"
  shows "length (ungutter_lines ls) = length ls"
proof -
  have "\<forall>l \<in> set (map strip_line_number_gutter ls). nl \<notin> set l"
    using assms(2) strip_gutter_set by fastforce
  then show ?thesis
    using assms(1) by (simp add: ungutter_lines_def split_content_lines_def split_join)
qed

lemma length_old_lines: "0 < length (split_content_lines s)"
  by (simp add: length_greater_0_conv)

text \<open>A resolved block lies inside the file, and its lines equal the quoted ones up to the white space
  around each line and the display prefix the second attempt removes.\<close>

lemma unique_match_cases:
  "(case (if ex = [] then ug else ex) of
      [] \<Rightarrow> (case tr of [] \<Rightarrow> Inl a | [i] \<Rightarrow> Inr (g i) | i # x # xs \<Rightarrow> Inl (b i))
    | [i] \<Rightarrow> Inr (g i) | _ # _ # _ \<Rightarrow> Inl c) = Inr r \<Longrightarrow>
   \<exists>i. r = g i \<and> (ex = [i] \<or> ex = [] \<and> ug = [i] \<or> ex = [] \<and> ug = [] \<and> tr = [i])"
  by (auto split: list.splits if_splits)

lemma resolve_block_Inr:
  assumes "resolve_block dbg ls e old_text = Inr r"
  defines "old \<equiv> split_content_lines (strip_final_newline (strip_hashes old_text))"
  shows "line_idx r \<le> end_idx r \<and> end_idx r < length ls \<and> re_edit r = e
    \<and> end_idx r = line_idx r + length old - 1 \<and> \<not> is_insert_type (ed_edit_type e)
    \<and> (find_block ls old = [line_idx r]
       \<or> find_block ls old = [] \<and> find_block ls (ungutter_lines old) = [line_idx r]
       \<or> find_block ls old = [] \<and> find_block ls (ungutter_lines old) = []
           \<and> find_trimmed_block ls old = [line_idx r])"
proof -
  let ?ex = "find_block ls old"
  let ?ug = "find_block ls (ungutter_lines old)"
  let ?tr = "find_trimmed_block ls old"
  have ln: "length (ungutter_lines old) = length old"
    by (rule length_ungutter_lines) (auto simp: old_def dest: split_content_clean)
  have ol: "0 < length old" unfolding old_def by (rule length_old_lines)
  have ni: "\<not> is_insert_type (ed_edit_type e)" and tne: "trim (strip_hashes old_text) \<noteq> []"
    using assms(1) by (auto simp: resolve_block_def Let_def split: if_splits)
  have "\<exists>i. r = at_range e i (i + length old - 1)
      \<and> (?ex = [i] \<or> ?ex = [] \<and> ?ug = [i] \<or> ?ex = [] \<and> ?ug = [] \<and> ?tr = [i])"
    using assms(1) ni tne unfolding resolve_block_def Let_def old_def
    by (intro unique_match_cases) simp
  then obtain i where r: "r = at_range e i (i + length old - 1)"
    and m: "?ex = [i] \<or> ?ex = [] \<and> ?ug = [i] \<or> ?ex = [] \<and> ?ug = [] \<and> ?tr = [i]" by blast
  have "i \<in> set ?ex \<or> i \<in> set ?ug \<or> i \<in> set ?tr" using m by force
  then have "i + length old \<le> length ls"
    using ln by (auto simp: find_block_iff find_trimmed_block_def windows_iff)
  then have "i \<le> i + length old - 1 \<and> i + length old - 1 < length ls" using ol by linarith
  then show ?thesis using ni m by (simp add: r at_range_def)
qed

lemma find_span_range:
  assumes "start \<in> set (find_span w hashes ls expected)" and "expected \<noteq> []"
  shows "start + length expected \<le> length ls"
proof -
  let ?k = "length expected - 1"
  have "expected_at hashes ls (start + ?k) (expected ! ?k)"
    using assms by (auto simp: find_span_def span_at_def list_all_iff)
  then have "start + ?k < length ls" by (simp add: expected_at_def)
  then show ?thesis using assms(2) by (cases expected) auto
qed

lemma unique_span_cases:
  "(case (if ex = [] then ug else ex) of
      [] \<Rightarrow> E | [start] \<Rightarrow> Some (Inr (start, start + m)) | _ # _ # _ \<Rightarrow> Some (Inl c)) = r \<Longrightarrow>
   (r = E \<and> ex = [] \<and> ug = []) \<or> r = Some (Inl c)
   \<or> (\<exists>i. r = Some (Inr (i, i + m)) \<and> (ex = [i] \<or> ex = [] \<and> ug = [i]))"
  by (auto split: list.splits if_splits)

lemma length_expected_lines: "length (expected_lines raw) = length (split_on nl raw)"
  by (cases "split_on nl raw") (auto simp: expected_lines_def Let_def case_prod_unfold)

lemma resolve_anchored_block_Inr:
  assumes "resolve_anchored_block raw hashes ls = Some (Inr (a, b))"
  shows "a \<le> b \<and> b < length ls \<and> b = a + length (split_on nl raw) - 1"
proof -
  let ?w = "fst (split_anchor (block_first_line raw))"
  let ?exp = "expected_lines raw"
  let ?E = "span_failure (continuations_anchored raw) (map snd ?exp) hashes ls"
  have al: "anchored_line (block_first_line raw)"
    using assms by (auto simp: resolve_anchored_block_def split: if_splits)
  have E: "Some (Inr (a, b)) \<noteq> ?E" by (auto simp: span_failure_def split: list.splits)
  have "(b = a + (length ?exp - 1)) \<and> (find_span ?w hashes ls ?exp = [a]
      \<or> find_span ?w hashes ls (map ungutter_expected ?exp) = [a])"
    using unique_span_cases[OF assms[unfolded resolve_anchored_block_def Let_def if_not_P[OF al[THEN not_not[THEN iffD2]]]]] E
    by auto
  moreover have "?exp \<noteq> []"
    by (simp add: length_expected_lines length_split_on flip: length_greater_0_conv)
  moreover from calculation have "a + length ?exp \<le> length ls"
    using find_span_range[of a ?w hashes ls ?exp]
      find_span_range[of a ?w hashes ls "map ungutter_expected ?exp"]
    by auto
  moreover have "0 < length ?exp" by (simp add: length_expected_lines length_split_on)
  ultimately show ?thesis using length_expected_lines[of raw] by linarith
qed

lemma resolve_anchored_block_no_panic:
  assumes "length hashes = length ls"
  shows "resolve_anchored_block raw hashes ls \<noteq> None"
proof
  assume "resolve_anchored_block raw hashes ls = None"
  then have "span_failure (continuations_anchored raw) (map snd (expected_lines raw)) hashes ls = None"
    by (auto simp: resolve_anchored_block_def Let_def split: if_splits list.splits)
  then obtain start cs where fb: "find_block ls cs = [start]" "length hashes < start + length cs"
    by (auto simp: span_failure_def simp del: length_map split: if_splits list.splits)
  then have "start \<in> set (find_block ls cs)" by simp
  then have "start + length cs \<le> length ls" by (simp add: find_block_iff)
  then show False using assms fb(2) by simp
qed

lemma resolve_selector_Inr:
  assumes "resolve_selector dbg t raw hashes ls = Some (Inr (a, b))"
  shows "a \<le> b \<and> b < length ls"
proof (cases "nl \<in> set raw")
  case True
  then show ?thesis using assms resolve_anchored_block_Inr by (auto simp: resolve_selector_def)
next
  case False
  then have "resolve_anchor dbg t raw hashes ls = Bound a \<and> b = a"
    using assms by (auto simp: resolve_selector_def split: resolution.splits)
  then show ?thesis
    using resolve_anchor_with_hint_Bound[of dbg t raw hashes ls None a] by (simp add: resolve_anchor_def)
qed

lemma resolve_selector_no_panic:
  "length hashes = length ls \<Longrightarrow> resolve_selector dbg t raw hashes ls \<noteq> None"
  using resolve_anchored_block_no_panic[of hashes ls raw]
    resolve_anchor_with_hint_no_panic[of hashes ls dbg t raw None]
  by (auto simp: resolve_selector_def resolve_anchor_def split: resolution.splits)

lemma resolve_multiline_Inr:
  assumes "resolve_multiline dbg hashes ls e = Some (Inr r)"
  shows "line_idx r \<le> end_idx r \<and> end_idx r < length ls \<and> re_edit r = e \<and> ed_edit_type e = str ''replace''"
proof -
  have ty: "ed_edit_type e = str ''replace''"
    using assms by (simp add: resolve_multiline_def split: if_splits)
  obtain a ae where ab: "resolve_selector dbg (str ''anchor'') (ed_anchor e) hashes ls = Some (Inr (a, ae))"
    using assms ty by (auto simp: resolve_multiline_def split: option.splits sum.splits)
  let ?stop = "case ed_end_anchor e of None \<Rightarrow> Some (Inr (a, ae))
      | Some end_anchor \<Rightarrow> resolve_selector dbg (str ''end_anchor'') end_anchor hashes ls"
  obtain x b where b: "?stop = Some (Inr (x, b))"
    using assms ty by (auto simp: resolve_multiline_def ab split: option.splits sum.splits)
  have r: "r = at_range e a b \<and> a \<le> b"
    using assms ty b by (simp add: resolve_multiline_def ab split: if_splits)
  have "b < length ls"
    using b resolve_selector_Inr[OF ab] by (auto split: option.splits dest: resolve_selector_Inr)
  then show ?thesis using r ty by (simp add: at_range_def)
qed

lemma resolve_multiline_no_panic:
  assumes "length hashes = length ls"
  shows "resolve_multiline dbg hashes ls e \<noteq> None"
proof -
  have np: "(resolve_selector dbg t raw hashes ls = None) = False" for t raw
    using resolve_selector_no_panic[OF assms] by simp
  show ?thesis
    by (auto simp: resolve_multiline_def np split: option.splits sum.splits prod.splits)
qed

lemma fingerprint_errors_no_panic:
  "b < length ls \<Longrightarrow> fingerprint_errors dbg ls a b fp \<noteq> None"
  by (auto simp: fingerprint_errors_def Let_def split: list.splits)

text \<open>Without a fingerprint error the interior lines are exactly the quoted ones.\<close>

lemma fingerprint_errors_Nil:
  assumes "fingerprint_errors dbg ls a b fp = Some []"
  shows "a < b \<and> b \<le> length ls \<and> slice (a + 1) (b - a - 1) ls = fp"
proof -
  let ?n = "b - a - 1"
  have n: "?n = length fp" "a < b" "b \<le> length ls"
    and d: "filter (\<lambda>k. slice (a + 1) ?n ls ! k \<noteq> fp ! k) [0..<?n] = []"
    using assms by (auto simp: fingerprint_errors_def Let_def split: if_splits list.splits)
  have "slice (a + 1) ?n ls = fp"
  proof (rule nth_equalityI)
    show len: "length (slice (a + 1) ?n ls) = length fp"
      using n by (simp add: length_slice)
    fix k assume "k < length (slice (a + 1) ?n ls)"
    then have "k < ?n" using len n by simp
    then show "slice (a + 1) ?n ls ! k = fp ! k"
      using d by (simp add: filter_empty_conv)
  qed
  then show ?thesis using n by simp
qed

lemma resolve_start_Bound:
  assumes "resolve_start dbg hashes ls e fp = Bound a" and "length hashes = length ls"
  shows "a < length ls"
  using assms resolve_anchor_with_hint_Bound[of dbg "str ''anchor''" "ed_anchor e" hashes ls _ a]
    resolve_anchor_by_word_Bound[of "str ''anchor''" "ed_anchor e" hashes a]
  by (auto simp: resolve_start_def split: if_splits)

lemma resolve_end_Bound:
  assumes "resolve_end dbg hashes ls e fp = Some (Bound b)" and "length hashes = length ls"
  shows "b < length ls"
  using assms resolve_anchor_with_hint_Bound[of dbg "str ''end_anchor''" _ hashes ls None b]
    resolve_anchor_by_word_Bound[of "str ''end_anchor''" _ hashes b]
  by (auto simp: resolve_end_def resolve_anchor_def Let_def split: if_splits)

lemma resolve_start_no_panic:
  "length hashes = length ls \<Longrightarrow> resolve_start dbg hashes ls e fp \<noteq> Panic"
  by (simp add: resolve_start_def resolve_anchor_by_word_no_panic resolve_anchor_with_hint_no_panic)

lemma resolve_end_no_panic:
  "length hashes = length ls \<Longrightarrow> resolve_end dbg hashes ls e fp \<noteq> Some Panic"
  by (simp add: resolve_end_def resolve_anchor_def Let_def resolve_anchor_by_word_no_panic
      resolve_anchor_with_hint_no_panic)

lemma error_of_Nil: "error_of r = [] \<Longrightarrow> r \<noteq> Panic \<Longrightarrow> \<exists>i. r = Bound i"
  by (cases r) (auto simp: error_of_def)

text \<open>What a resolved single-line selector means: both ends are bound, in order, and a fingerprint
  matches the lines between them.\<close>

lemma resolve_single_Inr:
  fixes dbg hashes ls e
  defines "start \<equiv> resolve_start dbg hashes ls e (fingerprinted e)"
    and "ending \<equiv> resolve_end dbg hashes ls e (fingerprinted e)"
  assumes "resolve_single dbg hashes ls e = Some (Inr r)"
  shows "start = Bound (line_idx r) \<and> stop_of start ending = Bound (end_idx r)
    \<and> line_idx r \<le> end_idx r \<and> re_edit r = e
    \<and> (\<forall>fp. ed_content e = Some fp \<longrightarrow>
          line_idx r < end_idx r \<and> end_idx r \<le> length ls
          \<and> slice (line_idx r + 1) (end_idx r - line_idx r - 1) ls = fp)"
proof -
  let ?stop = "stop_of start ending"
  note eq = assms(3)[unfolded resolve_single_def Let_def, folded start_def ending_def]
  have re: "range_errors dbg ls (ed_content e) start ?stop = Some []"
    using eq by (auto split: if_splits option.splits)
  have "bound_of start \<noteq> None \<and> bound_of ?stop \<noteq> None"
    using eq by (auto split: if_splits option.splits)
  then obtain a b where a: "start = Bound a" and b: "?stop = Bound b"
    by (auto simp: bound_of_def split: resolution.splits)
  have r: "r = at_range e a b"
    using eq re b by (simp add: a bound_of_def split: if_splits)
  have le: "a \<le> b" and fe: "ed_content e = Some fp \<Longrightarrow> fingerprint_errors dbg ls a b fp = Some []" for fp
    using re b by (auto simp: range_errors_def a bound_of_def split: option.splits if_splits)
  then show ?thesis
    using a b by (auto simp: r at_range_def dest!: fe fingerprint_errors_Nil)
qed

lemma resolve_single_bounds:
  assumes "resolve_single dbg hashes ls e = Some (Inr r)" and "length hashes = length ls"
  shows "end_idx r < length ls"
  using resolve_single_Inr[OF assms(1)] resolve_start_Bound[OF _ assms(2)] resolve_end_Bound[OF _ assms(2)]
  by (auto simp: stop_of_def split: option.splits)

lemma resolve_single_no_panic:
  assumes "length hashes = length ls"
  shows "resolve_single dbg hashes ls e \<noteq> None"
proof
  let ?start = "resolve_start dbg hashes ls e (fingerprinted e)"
  let ?ending = "resolve_end dbg hashes ls e (fingerprinted e)"
  let ?stop = "stop_of ?start ?ending"
  assume n: "resolve_single dbg hashes ls e = None"
  have np: "?start \<noteq> Panic" "?stop \<noteq> Panic"
    using resolve_start_no_panic[OF assms] resolve_end_no_panic[OF assms]
    by (auto simp: stop_of_def split: option.splits)
  have bd: "b < length ls" if "?stop = Bound b" for b
    using that resolve_start_Bound[OF _ assms] resolve_end_Bound[OF _ assms]
    by (auto simp: stop_of_def split: option.splits)
  have fnp: "b < length ls \<Longrightarrow> (fingerprint_errors dbg ls a b fp = None) = False" for a b fp
    using fingerprint_errors_no_panic by blast
  have "range_errors dbg ls (ed_content e) ?start ?stop \<noteq> None"
    by (auto simp: fnp bd range_errors_def bound_of_def split: option.splits resolution.splits)
  then obtain errs where re: "range_errors dbg ls (ed_content e) ?start ?stop = Some errs" by blast
  have "error_of ?start @ (case ?ending of Some r \<Rightarrow> error_of r | None \<Rightarrow> []) @ errs = []
     \<and> (bound_of ?start = None \<or> bound_of ?stop = None)"
    using n[unfolded resolve_single_def Let_def] np re by (auto split: if_splits option.splits)
  then show False
    using np error_of_Nil by (fastforce simp: stop_of_def bound_of_def split: option.splits)
qed

lemma resolve_block_bounds:
  "resolve_block dbg ls e old_text = Inr r \<Longrightarrow>
   line_idx r \<le> end_idx r \<and> end_idx r < length ls \<and> re_edit r = e"
  using resolve_block_Inr by blast

lemma resolve_edit_Inr:
  assumes "resolve_edit dbg hashes ls e = Some (Inr r)" and "length hashes = length ls"
  shows "line_idx r \<le> end_idx r \<and> end_idx r < length ls \<and> re_edit r = e"
proof -
  have "resolve_single dbg hashes ls e = Some (Inr r) \<Longrightarrow> ?thesis"
    using resolve_single_Inr[of dbg hashes ls e r] resolve_single_bounds[of dbg hashes ls e r] assms(2)
    by blast
  then show ?thesis
    using assms(1) resolve_block_bounds resolve_multiline_Inr[of dbg hashes ls e r]
    unfolding resolve_edit_def by (auto split: option.splits if_splits)
qed

lemma resolve_edit_no_panic:
  "length hashes = length ls \<Longrightarrow> resolve_edit dbg hashes ls e \<noteq> None"
  by (auto simp: resolve_edit_def resolve_multiline_no_panic resolve_single_no_panic
      simp del: not_None_eq split: option.splits)

lemma resolve_all_total:
  "(\<And>e. e \<in> set es \<Longrightarrow> f e \<noteq> None) \<Longrightarrow> \<exists>rs fs. resolve_all f es = Some (rs, fs)"
proof (induction es)
  case Nil
  then show ?case by simp
next
  case (Cons e es)
  obtain rs fs where rf: "resolve_all f es = Some (rs, fs)" using Cons.IH Cons.prems by auto
  obtain x where x: "f e = Some x" using Cons.prems[of e] by auto
  show ?case by (cases x) (simp_all add: x rf)
qed

text \<open>Every edit of a batch is either resolved or reported as failed, in the order of the batch.\<close>

lemma resolve_all_parts:
  "resolve_all f es = Some (rs, fs) \<Longrightarrow>
   length rs + length fs = length es
   \<and> (\<forall>r \<in> set rs. \<exists>e \<in> set es. f e = Some (Inr r))
   \<and> (\<forall>x \<in> set fs. \<exists>e \<in> set es. f e = Some (Inl x))"
proof (induction es arbitrary: rs fs)
  case Nil
  then show ?case by simp
next
  case (Cons e es)
  obtain x rs' fs' where x: "f e = Some x" and rf: "resolve_all f es = Some (rs', fs')"
    using Cons.prems by (auto split: option.splits)
  show ?case using Cons.prems Cons.IH[OF rf] by (cases x) (auto simp: x rf)
qed

section \<open>A displayed anchor resolves to its own line\<close>

lemma split_anchor_no_ws_eol:
  assumes "ANCHOR_NAME_REGEX a" and "nl \<notin> set c" and "cr \<notin> set c"
  shows "trim_start (format_numbered_line_with_hash n c a) = format_numbered_line_with_hash n c a
    \<and> nl \<notin> set (format_numbered_line_with_hash n c a) \<and> cr \<notin> set (format_numbered_line_with_hash n c a)
    \<and> format_numbered_line_with_hash n c a \<noteq> []"
proof -
  obtain d ds where sn: "show_nat n = d # ds" by (cases "show_nat n") auto
  have dig: "\<forall>x \<in> set (show_nat n). 48 \<le> x \<and> x \<le> 57" by (rule show_nat_digits)
  then have "\<not> is_ws d" using sn by (auto simp: is_ws_def)
  moreover have "nl \<notin> set (show_nat n)" "cr \<notin> set (show_nat n)" using dig by force+
  moreover have "nl \<notin> set a" "cr \<notin> set a" using ANCHOR_NAME_alnum[OF assms(1)]
    by (force simp: ascii_defs)+
  moreover have "show_nat n @ str '': '' @ a @ ANCHOR_DELIMITER @ c
      = d # (ds @ str '': '' @ a @ ANCHOR_DELIMITER @ c)" by (simp add: sn)
  ultimately show ?thesis using assms(2,3)
    by (auto simp: format_numbered_line_with_hash_def ANCHOR_DELIMITER_def str_def
        intro!: trim_start_clean)
qed

lemma resolve_displayed_line:
  assumes "i < length ls" and "length hashes = length ls" and "distinct hashes"
    and "ANCHOR_NAME_REGEX (hashes ! i)" and "nl \<notin> set (ls ! i)" and "cr \<notin> set (ls ! i)"
    and "\<not> has_dup_suffix (ls ! i)"
  shows "resolve_anchor_with_hint dbg t (format_numbered_line_with_hash n (ls ! i) (hashes ! i)) hashes ls hint
    = Bound i"
proof -
  have "positions (\<lambda>h. h = hashes ! i) hashes = [i]"
    using assms(1-3) by (intro positions_single) (auto simp: nth_eq_iff_index_eq)
  then show ?thesis
    using split_anchor_no_ws_eol[OF assms(4-6), of n] split_anchor_numbered[OF assms(4,7), of n] assms(1,4)
    by (simp add: resolve_anchor_with_hint_def Let_def)
qed

section \<open>Properties\<close>

text \<open>C35. An anchor that is resolved together with the line it quotes (\<open>resolve_anchor_with_hint\<close>) binds only to the line it
  names: the line's current word is the quoted one and the line is exactly the quoted text. The anchors of a range with a
  fingerprint are resolved by their words alone; for them the fingerprint stands for the content.\<close>

theorem bound_anchor_matches:
  assumes "resolve_anchor_with_hint dbg t raw hashes ls hint = Bound i"
  shows "i < length ls \<and> hashes ! i = fst (split_anchor (trim_start raw))
    \<and> ls ! i = snd (split_anchor (trim_start raw)) \<and> ANCHOR_NAME_REGEX (hashes ! i)"
  using resolve_anchor_with_hint_Bound[OF assms] by blast

theorem bound_anchor_matches_witness:
  "1 < length [str ''x'', str ''y''] \<and> [str ''Ab'', str ''Cd''] ! 1 = fst (split_anchor (trim_start (str ''Cd'' @ delim # str ''y'')))
    \<and> [str ''x'', str ''y''] ! 1 = snd (split_anchor (trim_start (str ''Cd'' @ delim # str ''y'')))
    \<and> ANCHOR_NAME_REGEX ([str ''Ab'', str ''Cd''] ! 1)"
  by (rule bound_anchor_matches[of "\<lambda>s. s" "str ''anchor''" _ _ _ None]) code_simp

text \<open>Every line shown to the model can be edited: with distinct anchors, the displayed form of a line
  resolves to that line.\<close>

theorem displayed_line_resolves:
  assumes "i < length ls" and "length hashes = length ls" and "distinct hashes"
    and "ANCHOR_NAME_REGEX (hashes ! i)" and "nl \<notin> set (ls ! i)" and "cr \<notin> set (ls ! i)"
    and "\<not> has_dup_suffix (ls ! i)"
  shows "resolve_anchor dbg t (format_numbered_line_with_hash n (ls ! i) (hashes ! i)) hashes ls = Bound i"
  unfolding resolve_anchor_def by (rule resolve_displayed_line[OF assms])

theorem displayed_line_resolves_witness:
  "resolve_anchor (\<lambda>s. s) (str ''anchor'')
     (format_numbered_line_with_hash 2 ([str ''x'', str ''  x''] ! 1) ([str ''Ab'', str ''Cd''] ! 1))
     [str ''Ab'', str ''Cd''] [str ''x'', str ''  x''] = Bound 1"
  by (rule displayed_line_resolves) code_simp+

text \<open>Resolution of a batch neither panics nor loses an edit: each edit is bound to a range of the file or
  reported as failed.\<close>

theorem batch_resolution_total:
  assumes "length hashes = length ls"
  shows "\<exists>resolved failed. resolve_edits dbg edits ls hashes = Some (resolved, failed)
    \<and> length resolved + length failed = length edits
    \<and> (\<forall>r \<in> set resolved. line_idx r \<le> end_idx r \<and> end_idx r < length ls \<and> re_edit r \<in> set edits)"
proof -
  have len: "length (map trim hashes) = length ls" using assms by simp
  obtain rs fs where rf: "resolve_all (resolve_edit dbg (map trim hashes) ls) edits = Some (rs, fs)"
    using resolve_all_total resolve_edit_no_panic[OF len] by blast
  have "line_idx r \<le> end_idx r \<and> end_idx r < length ls \<and> re_edit r \<in> set edits" if "r \<in> set rs" for r
  proof -
    obtain e where "e \<in> set edits" "resolve_edit dbg (map trim hashes) ls e = Some (Inr r)"
      using resolve_all_parts[OF rf] \<open>r \<in> set rs\<close> by blast
    then show ?thesis using resolve_edit_Inr[OF _ len] by blast
  qed
  then show ?thesis using resolve_all_parts[OF rf] by (auto simp: resolve_edits_def rf)
qed

theorem batch_resolution_total_witness:
  "\<exists>resolved failed. resolve_edits (\<lambda>s. s) [Edit_block (str ''x'') (str ''z''), Edit_block (str ''q'') (str ''z'')] [str ''x''] [str ''Ab'']
       = Some (resolved, failed)
    \<and> length resolved + length failed = length [Edit_block (str ''x'') (str ''z''), Edit_block (str ''q'') (str ''z'')]
    \<and> (\<forall>r \<in> set resolved. line_idx r \<le> end_idx r \<and> end_idx r < length [str ''x'']
        \<and> re_edit r \<in> set [Edit_block (str ''x'') (str ''z''), Edit_block (str ''q'') (str ''z'')])"
  by (rule batch_resolution_total) code_simp

lemma resolve_anchor_by_word_positions:
  assumes "resolve_anchor_by_word t raw hashes = Bound i"
  shows "positions (\<lambda>h. h = fst (split_anchor (trim raw))) hashes = [i]"
proof -
  let ?wb = "positions (\<lambda>h. h = fst (split_anchor (trim raw))) hashes"
  have "length ?wb = 1" "i = hd ?wb" using assms by (auto simp: resolve_anchor_by_word_def Let_def split: if_splits)
  then show ?thesis by (rule single_hd)
qed


definition fingerprint_edit :: edit where
  "fingerprint_edit = \<lparr>ed_anchor = str ''Ab'', ed_end_anchor = Some (str ''Ef''), ed_edit_type = str ''replace'',
     ed_text = str ''new'', ed_content = Some [str ''y''], ed_old_text = None\<rparr>"


lemma unique_window:
  assumes "windows P n ls = [i]"
  shows "i + n \<le> length ls \<and> P (slice i n ls) \<and> (\<forall>j. j + n \<le> length ls \<longrightarrow> P (slice j n ls) \<longrightarrow> j = i)"
  using windows_iff[of _ P n ls] assms by auto

lemma find_trimmed_block_eq:
  "find_trimmed_block ls old = windows (\<lambda>s. map trim s = map trim old) (length old) ls"
proof -
  have "list_all (\<lambda>(a, b). trim a = trim b) (zip (slice i (length old) ls) old)
      \<longleftrightarrow> map trim (slice i (length old) ls) = map trim old"
    if "i + length old \<le> length ls" for i
  proof -
    have "list_all (\<lambda>(a, b). trim a = trim b) (zip w v) \<longleftrightarrow> map trim w = map trim v" if "length w = length v" for w v :: "ustr list"
      using that by (induction w v rule: list_induct2) auto
    moreover have "length (slice i (length old) ls) = length old" using that by (simp add: slice_def)
    ultimately show ?thesis by blast
  qed
  then show ?thesis
    unfolding find_trimmed_block_def windows_def by (auto intro!: filter_cong)
qed

text \<open>A block replacement takes effect only at the single place its text matches: exactly, with the reader's
  line numbers and anchors removed, or (when neither occurs) up to the white space around each line.\<close>

theorem block_replaces_unique_match:
  assumes "resolve_block dbg ls e old_text = Inr r"
  shows "let old = split_content_lines (strip_final_newline (strip_hashes old_text)); n = length old;
             only_at = (\<lambda>P. P (slice (line_idx r) n ls) \<and> (\<forall>j. j + n \<le> length ls \<longrightarrow> P (slice j n ls) \<longrightarrow> j = line_idx r))
         in 0 < n \<and> line_idx r + n \<le> length ls \<and> end_idx r = line_idx r + n - 1
            \<and> (only_at (\<lambda>s. s = old) \<or> only_at (\<lambda>s. s = ungutter_lines old) \<or> only_at (\<lambda>s. map trim s = map trim old))"
proof -
  define old where "old = split_content_lines (strip_final_newline (strip_hashes old_text))"
  let ?only = "\<lambda>P. P (slice (line_idx r) (length old) ls)
      \<and> (\<forall>j. j + length old \<le> length ls \<longrightarrow> P (slice j (length old) ls) \<longrightarrow> j = line_idx r)"
  have n: "0 < length old" unfolding old_def by (rule length_old_lines)
  have u: "length (ungutter_lines old) = length old"
    by (rule length_ungutter_lines) (auto simp: old_def dest: split_content_clean)
  note facts = resolve_block_Inr[OF assms, folded old_def]
  have e: "find_block ls old = [line_idx r] \<Longrightarrow> ?only (\<lambda>s. s = old)"
    unfolding find_block_def by (drule unique_window) blast
  have g: "find_block ls (ungutter_lines old) = [line_idx r] \<Longrightarrow> ?only (\<lambda>s. s = ungutter_lines old)"
    unfolding find_block_def u by (drule unique_window) blast
  have t: "find_trimmed_block ls old = [line_idx r] \<Longrightarrow> ?only (\<lambda>s. map trim s = map trim old)"
    unfolding find_trimmed_block_eq by (drule unique_window) blast
  have "?only (\<lambda>s. s = old) \<or> ?only (\<lambda>s. s = ungutter_lines old) \<or> ?only (\<lambda>s. map trim s = map trim old)"
    using facts e g t by blast
  moreover have "line_idx r + length old \<le> length ls" using n facts by linarith
  ultimately show ?thesis using n facts unfolding Let_def old_def[symmetric] by blast
qed

theorem block_replaces_unique_match_witness:
  "let old = split_content_lines (strip_final_newline (strip_hashes (str ''y''))); n = length old;
       only_at = (\<lambda>P. P (slice (line_idx (at_range (Edit_block (str ''y'') []) 1 1)) n [str ''x'', str ''  y''])
         \<and> (\<forall>j. j + n \<le> length [str ''x'', str ''  y''] \<longrightarrow> P (slice j n [str ''x'', str ''  y''])
              \<longrightarrow> j = line_idx (at_range (Edit_block (str ''y'') []) 1 1)))
   in 0 < n \<and> line_idx (at_range (Edit_block (str ''y'') []) 1 1) + n \<le> length [str ''x'', str ''  y'']
      \<and> end_idx (at_range (Edit_block (str ''y'') []) 1 1) = line_idx (at_range (Edit_block (str ''y'') []) 1 1) + n - 1
      \<and> (only_at (\<lambda>s. s = old) \<or> only_at (\<lambda>s. s = ungutter_lines old) \<or> only_at (\<lambda>s. map trim s = map trim old))"
  by (rule block_replaces_unique_match[of "\<lambda>s. s" _ "Edit_block (str ''y'') []"]) code_simp

end
