(* ===== verification/EditApply.thy ===== *)
theory EditApply
  imports EditResolve "HOL-Library.Multiset"
begin

text \<open>
  Application of resolved edits: \<open>EditExecutor::apply_edits_recording\<close> and
  \<open>apply_edits_with_provenance\<close> in \<open>src/core/file_editor.rs\<close>. The result is \<open>None\<close> where the
  source panics (an index or a slice out of range). \<open>alnum\<close> is \<open>char::is_alphanumeric\<close>, whose
  tables belong to the standard library; \<open>dbg\<close> is the escaping of \<open>{:?}\<close>.
\<close>

section \<open>The steps of the executor\<close>

definition replacement_lines :: "edit \<Rightarrow> ustr list" where
  "replacement_lines e =
     (let clean_text = strip_hashes (ed_text e) in
      if clean_text = [] then []
      else if ed_old_text e \<noteq> None then split_content_lines (strip_final_newline clean_text)
      else split_content_lines clean_text)"

definition is_insert :: "resolved_edit \<Rightarrow> bool" where
  "is_insert r = is_insert_type (ed_edit_type (re_edit r))"

definition is_insert_after :: "resolved_edit \<Rightarrow> bool" where
  "is_insert_after r \<longleftrightarrow> ed_edit_type (re_edit r) = str ''insert_after''"

definition bound_lines :: "ustr list \<Rightarrow> resolved_edit \<Rightarrow> ustr list" where
  "bound_lines ls r = slice (line_idx r) (end_idx r + 1 - line_idx r) ls"

definition unchanged_site_of :: "ustr list \<Rightarrow> resolved_edit \<Rightarrow> unchanged_site" where
  "unchanged_site_of ls r =
     (let first_line = (case bound_lines ls r of [] \<Rightarrow> [] | l # _ \<Rightarrow> l);
          all_identical = filter (\<lambda>i. i \<noteq> line_idx r) (positions (\<lambda>l. l = first_line) ls);
          word = fst (split_anchor (ed_anchor (re_edit r)))
      in \<lparr>us_line_idx = line_idx r, us_end_idx = end_idx r, identical_content_at = take 8 all_identical,
          total_identical_count = length all_identical,
          anchor_word = (if word = [] then None else Some word)\<rparr>)"

text \<open>An insertion of nothing and a replacement by what is already there are dropped; the second
  kind is reported. A replaced range is sliced, so it must lie in the file.\<close>

definition effective :: "ustr list \<Rightarrow> resolved_edit \<Rightarrow> (bool \<times> unchanged_site list) option" where
  "effective ls r =
     (let repl = replacement_lines (re_edit r) in
      if is_insert r then Some (repl \<noteq> [], [])
      else if length ls \<le> end_idx r \<or> end_idx r + 1 < line_idx r then None
      else if bound_lines ls r = repl then Some (False, [unchanged_site_of ls r])
      else Some (True, []))"

fun effective_edits ::
    "ustr list \<Rightarrow> resolved_edit list \<Rightarrow> (resolved_edit list \<times> unchanged_site list) option" where
  "effective_edits ls [] = Some ([], [])"
| "effective_edits ls (r # rs) =
     (case effective ls r of
        None \<Rightarrow> None
      | Some (keep, site) \<Rightarrow>
          (case effective_edits ls rs of
             None \<Rightarrow> None
           | Some (kept, sites) \<Rightarrow> Some ((if keep then r # kept else kept), site @ sites)))"

definition msg_dup_boundary :: "(ustr \<Rightarrow> ustr) \<Rightarrow> ustr \<Rightarrow> ustr \<Rightarrow> ustr" where
  "msg_dup_boundary dbg anchor_line edit_type =
     str ''duplicate insertion rejected: insertion text repeats the anchored line '' @ dbg anchor_line
     @ str '' at its boundary. '' @ edit_type
     @ str '' preserves the anchor; use replace with anchor and end_anchor when wrapping existing code''"

definition msg_dup_adjacent :: "nat \<Rightarrow> bool \<Rightarrow> ustr" where
  "msg_dup_adjacent n before =
     str ''duplicate insertion rejected: the exact '' @ show_nat n
     @ str ''-line insertion block is already immediately '' @ (if before then str ''before'' else str ''after'')
     @ str '' the anchor. Leading and trailing blank lines are part of this exact comparison; do not retry the same insertion''"

text \<open>The exact block already stands next to the anchor. Slices are compared only where they fit.\<close>

definition adjacent_matches :: "ustr list \<Rightarrow> resolved_edit \<Rightarrow> ustr list \<Rightarrow> bool" where
  "adjacent_matches ls r block =
     (let n = length block in
      if ed_edit_type (re_edit r) = str ''insert_before''
      then n \<le> line_idx r \<and> slice (line_idx r - n) n ls = block
      else line_idx r + 1 + n \<le> length ls \<and> slice (line_idx r + 1) n ls = block)"

text \<open>The outer option is the panic of \<open>lines[line_idx]\<close>.\<close>

definition duplicate_insertion ::
    "(uchar \<Rightarrow> bool) \<Rightarrow> (ustr \<Rightarrow> ustr) \<Rightarrow> ustr list \<Rightarrow> resolved_edit \<Rightarrow> failed_edit list option" where
  "duplicate_insertion alnum dbg ls r =
     (let e = re_edit r; clean_text = strip_hashes (ed_text e) in
      if \<not> is_insert r \<or> clean_text = [] then Some []
      else if length ls \<le> line_idx r then None
      else
        (let anchor_line = ls ! line_idx r; block = split_content_lines clean_text in
         if list_ex alnum anchor_line \<and> (hd block = anchor_line \<or> last block = anchor_line)
         then Some [failing e (msg_dup_boundary dbg anchor_line (ed_edit_type e))]
         else if adjacent_matches ls r block
         then Some [failing e (msg_dup_adjacent (length block) (ed_edit_type e = str ''insert_before''))]
         else Some []))"

fun duplicate_insertions ::
    "(uchar \<Rightarrow> bool) \<Rightarrow> (ustr \<Rightarrow> ustr) \<Rightarrow> ustr list \<Rightarrow> resolved_edit list \<Rightarrow> failed_edit list option" where
  "duplicate_insertions alnum dbg ls [] = Some []"
| "duplicate_insertions alnum dbg ls (r # rs) =
     (case duplicate_insertion alnum dbg ls r of
        None \<Rightarrow> None
      | Some f \<Rightarrow> (case duplicate_insertions alnum dbg ls rs of
                     None \<Rightarrow> None | Some fs \<Rightarrow> Some (f @ fs)))"

definition range_end :: "resolved_edit \<Rightarrow> nat" where
  "range_end r = (if is_insert r then line_idx r else end_idx r)"

definition overlaps :: "resolved_edit \<Rightarrow> resolved_edit \<Rightarrow> bool" where
  "overlaps a b \<longleftrightarrow> line_idx a \<le> range_end b \<and> line_idx b \<le> range_end a"

fun any_overlap :: "resolved_edit list \<Rightarrow> bool" where
  "any_overlap [] = False"
| "any_overlap (a # rs) = (list_ex (overlaps a) rs \<or> any_overlap rs)"

text \<open>Where an edit is spliced in, and how many lines it removes there
  (\<open>end_idx - line_idx + 1\<close>, which is 0 for the empty range \<open>bound_lines\<close> admits).\<close>

definition splice_index :: "resolved_edit \<Rightarrow> nat" where
  "splice_index r = (if is_insert_after r then line_idx r + 1 else line_idx r)"

definition removed_in :: "resolved_edit \<Rightarrow> nat" where
  "removed_in r = (if is_insert r then 0 else end_idx r + 1 - line_idx r)"

definition splice :: "'a list \<Rightarrow> nat \<Rightarrow> nat \<Rightarrow> 'a list \<Rightarrow> 'a list" where
  "splice xs i n ys = take i xs @ ys @ drop (i + n) xs"

definition apply_splice :: "(edit \<Rightarrow> 'a list) \<Rightarrow> 'a list \<Rightarrow> resolved_edit \<Rightarrow> 'a list" where
  "apply_splice new xs r = splice xs (splice_index r) (removed_in r) (new (re_edit r))"

definition new_origins :: "edit \<Rightarrow> nat option list" where
  "new_origins e = replicate (length (replacement_lines e)) None"

text \<open>Edits from the last line to the first; the sort of the source is stable.\<close>

definition sorted_edits :: "resolved_edit list \<Rightarrow> resolved_edit list" where
  "sorted_edits rs = sort_key (\<lambda>r. - int (line_idx r)) rs"

definition shift_before :: "resolved_edit list \<Rightarrow> nat \<Rightarrow> int" where
  "shift_before changes i =
     sum_list (map (\<lambda>r. int (length (replacement_lines (re_edit r))) - int (removed_in r))
       (filter (\<lambda>r. line_idx r < i) changes))"

definition applied_edit_of :: "resolved_edit list \<Rightarrow> resolved_edit \<Rightarrow> applied_edit" where
  "applied_edit_of changes r =
     (let repl = length (replacement_lines (re_edit r));
          start = nat (int (line_idx r) + shift_before changes (line_idx r))
                    + (if is_insert_after r then 1 else 0)
      in \<lparr>start_idx = start, ae_end_idx = (if repl = 0 then start else start + repl - 1),
          original_start_idx = line_idx r,
          original_end_idx = (if removed_in r = 0 then line_idx r else line_idx r + removed_in r - 1),
          ae_edit = re_edit r, lines_added = repl, lines_deleted = removed_in r\<rparr>)"

definition applied_edits :: "resolved_edit list \<Rightarrow> applied_edit list" where
  "applied_edits changes = sort_key original_start_idx (map (applied_edit_of changes) changes)"

definition touched_lines :: "applied_edit list \<Rightarrow> nat list" where
  "touched_lines aes = concat (map (\<lambda>a. [start_idx a..<Suc (ae_end_idx a)]) (filter (\<lambda>a. 0 < lines_added a) aes))"

definition assembled_outcome ::
    "ustr list \<Rightarrow> resolved_edit list \<Rightarrow> unchanged_site list \<Rightarrow> apply_outcome \<times> splice_provenance" where
  "assembled_outcome ls effective_rs sites =
     (let changes = sorted_edits effective_rs;
          new_lines = foldl (apply_splice replacement_lines) ls changes;
          orgs = foldl (apply_splice new_origins) (map Some [0..<length ls]) changes;
          aes = applied_edits changes;
          glued = find_glued_anchor_in_lines new_lines (touched_lines aes);
          added = sum_list (map (\<lambda>r. length (replacement_lines (re_edit r))) changes);
          removed = sum_list (map removed_in changes)
      in if glued \<noteq> [] then (GluedAnchor glued, \<lparr>origins = orgs, edit_ranges = aes\<rparr>)
         else if new_lines = []
         then (Applied [[]] added removed aes sites, \<lparr>origins = orgs @ [None], edit_ranges = aes\<rparr>)
         else (Applied new_lines added removed aes sites, \<lparr>origins = orgs, edit_ranges = aes\<rparr>))"

definition apply_edits_with_provenance ::
    "(uchar \<Rightarrow> bool) \<Rightarrow> (ustr \<Rightarrow> ustr) \<Rightarrow> ustr list \<Rightarrow> resolved_edit list
       \<Rightarrow> (apply_outcome \<times> splice_provenance) option" where
  "apply_edits_with_provenance alnum dbg ls resolved =
     (let unedited = \<lparr>origins = map Some [0..<length ls], edit_ranges = []\<rparr> in
      case effective_edits ls resolved of
        None \<Rightarrow> None
      | Some (rs, sites) \<Rightarrow>
          (case duplicate_insertions alnum dbg ls rs of
             None \<Rightarrow> None
           | Some dups \<Rightarrow>
               if dups \<noteq> [] then Some (DuplicateInsertion dups, unedited)
               else if any_overlap rs then Some (Overlap, unedited)
               else Some (assembled_outcome ls rs sites)))"

definition apply_edits ::
    "(uchar \<Rightarrow> bool) \<Rightarrow> (ustr \<Rightarrow> ustr) \<Rightarrow> ustr list \<Rightarrow> resolved_edit list \<Rightarrow> apply_outcome option" where
  "apply_edits alnum dbg ls resolved = map_option fst (apply_edits_with_provenance alnum dbg ls resolved)"

section \<open>A reference for the spliced result\<close>

text \<open>
  The executor splices from the last edit to the first so that indices stay valid. The reference
  reads the file once from the front: untouched stretch, replacement, untouched stretch, and so on.
  It is generic in the elements, since lines and their origins are spliced alike.
\<close>

fun stitch :: "(edit \<Rightarrow> 'a list) \<Rightarrow> nat \<Rightarrow> 'a list \<Rightarrow> resolved_edit list \<Rightarrow> 'a list" where
  "stitch new p xs [] = drop p xs"
| "stitch new p xs (r # rs) =
     slice p (splice_index r - p) xs @ new (re_edit r) @ stitch new (splice_index r + removed_in r) xs rs"

fun chain :: "nat \<Rightarrow> resolved_edit list \<Rightarrow> nat \<Rightarrow> bool" where
  "chain p [] n \<longleftrightarrow> p \<le> n"
| "chain p (r # rs) n \<longleftrightarrow> p \<le> splice_index r \<and> chain (splice_index r + removed_in r) rs n"

lemma chain_bound: "chain p rs n \<Longrightarrow> p \<le> n"
  by (induction p rs n rule: chain.induct) auto

lemma chain_later: "chain p rs n \<Longrightarrow> x \<in> set rs \<Longrightarrow> p \<le> splice_index x"
  by (induction p rs n rule: chain.induct) auto

lemma take_slice: "p \<le> q \<Longrightarrow> take p xs @ slice p (q - p) xs = take q xs"
  by (simp add: slice_def flip: take_add)

lemma foldl_splice_stitch:
  "chain p rs (length xs) \<Longrightarrow>
   foldl (apply_splice new) xs (rev rs) = take p xs @ stitch new p xs rs"
proof (induction rs arbitrary: p)
  case Nil
  then show ?case by simp
next
  case (Cons r rs)
  let ?s = "splice_index r" and ?q = "splice_index r + removed_in r"
  have ch: "p \<le> ?s" "chain ?q rs (length xs)" using Cons.prems by auto
  have qn: "?q \<le> length xs" by (rule chain_bound[OF ch(2)])
  have "foldl (apply_splice new) xs (rev (r # rs)) =
      splice (take ?q xs @ stitch new ?q xs rs) ?s (removed_in r) (new (re_edit r))"
    by (simp add: Cons.IH[OF ch(2)] apply_splice_def)
  also have "\<dots> = take ?s xs @ new (re_edit r) @ stitch new ?q xs rs"
    using qn by (simp add: splice_def min_def)
  also have "take ?s xs = take p xs @ slice p (?s - p) xs"
    by (rule take_slice[OF ch(1), symmetric])
  finally show ?case by simp
qed

definition in_bounds :: "ustr list \<Rightarrow> resolved_edit \<Rightarrow> bool" where
  "in_bounds ls r \<longleftrightarrow> line_idx r \<le> end_idx r \<and> end_idx r < length ls"

lemma overlaps_sym: "overlaps a b = overlaps b a"
  by (auto simp: overlaps_def)

lemma any_overlap_sorted_wrt: "\<not> any_overlap rs \<longleftrightarrow> sorted_wrt (\<lambda>a b. \<not> overlaps a b) rs"
  by (induction rs) (auto simp: list_ex_iff)

lemma sorted_wrt_insort:
  "(\<And>a b. R a b \<Longrightarrow> R b a) \<Longrightarrow> sorted_wrt R xs \<Longrightarrow> (\<forall>y \<in> set xs. R x y) \<Longrightarrow> sorted_wrt R (insort_key f x xs)"
  by (induction xs) (auto simp: set_insort_key)

lemma sorted_wrt_sort_key:
  "(\<And>a b. R a b \<Longrightarrow> R b a) \<Longrightarrow> sorted_wrt R xs \<Longrightarrow> sorted_wrt R (sort_key f xs)"
  by (induction xs) (auto intro!: sorted_wrt_insort[where R = R])

lemma set_sorted_edits [simp]: "set (sorted_edits rs) = set rs"
  by (simp add: sorted_edits_def)

text \<open>The edits in file order.\<close>

definition file_order :: "resolved_edit list \<Rightarrow> resolved_edit list" where
  "file_order rs = rev (sorted_edits rs)"

lemma set_file_order [simp]: "set (file_order rs) = set rs"
  by (simp add: file_order_def)

lemma file_order_sorted:
  assumes "\<not> any_overlap rs"
  shows "sorted_wrt (\<lambda>a b. line_idx a \<le> line_idx b \<and> \<not> overlaps a b) (file_order rs)"
proof -
  have "sorted_wrt (\<lambda>a b. \<not> overlaps a b) (sorted_edits rs)"
    unfolding sorted_edits_def
    by (rule sorted_wrt_sort_key) (use assms in \<open>auto simp: any_overlap_sorted_wrt overlaps_sym\<close>)
  moreover have "sorted (map (\<lambda>r. - int (line_idx r)) (sorted_edits rs))"
    by (simp add: sorted_edits_def)
  then have "sorted_wrt (\<lambda>a b. line_idx b \<le> line_idx a) (sorted_edits rs)"
    by (simp add: sorted_map)
  ultimately have "sorted_wrt (\<lambda>a b. line_idx b \<le> line_idx a \<and> \<not> overlaps a b) (sorted_edits rs)"
    by (auto simp: sorted_wrt_iff_nth_less)
  then show ?thesis
    by (simp add: file_order_def sorted_wrt_rev overlaps_sym)
qed

lemma splice_order:
  assumes "in_bounds ls a" and "in_bounds ls b" and "line_idx a \<le> line_idx b" and "\<not> overlaps a b"
  shows "splice_index a + removed_in a \<le> line_idx b"
  using assms by (auto simp: in_bounds_def overlaps_def splice_index_def removed_in_def range_end_def
      is_insert_def is_insert_after_def is_insert_type_def split: if_splits)

lemma splice_in_file: "in_bounds ls r \<Longrightarrow> splice_index r + removed_in r \<le> length ls"
  by (auto simp: in_bounds_def splice_index_def removed_in_def is_insert_def is_insert_after_def
      is_insert_type_def)

lemma line_le_splice: "line_idx r \<le> splice_index r"
  by (simp add: splice_index_def)

lemma chain_file_order:
  "sorted_wrt (\<lambda>a b. line_idx a \<le> line_idx b \<and> \<not> overlaps a b) rs \<Longrightarrow> (\<forall>r \<in> set rs. in_bounds ls r) \<Longrightarrow>
   (\<forall>r \<in> set rs. p \<le> line_idx r) \<Longrightarrow> p \<le> length ls \<Longrightarrow> chain p rs (length ls)"
proof (induction rs arbitrary: p)
  case Nil
  then show ?case by simp
next
  case (Cons r rs)
  have "p \<le> splice_index r" using Cons.prems(3) line_le_splice[of r] by force
  moreover have "chain (splice_index r + removed_in r) rs (length ls)"
    using Cons.prems splice_order[of ls r] splice_in_file[of ls r] by (intro Cons.IH) auto
  ultimately show ?case by simp
qed

lemma spliced_as_stitched:
  assumes "\<not> any_overlap rs" and "\<forall>r \<in> set rs. in_bounds ls r" and "length xs = length ls"
  shows "foldl (apply_splice new) xs (sorted_edits rs) = stitch new 0 xs (file_order rs)"
    and "chain 0 (file_order rs) (length ls)"
proof -
  show ch: "chain 0 (file_order rs) (length ls)"
    using assms by (intro chain_file_order file_order_sorted) auto
  show "foldl (apply_splice new) xs (sorted_edits rs) = stitch new 0 xs (file_order rs)"
    using foldl_splice_stitch[of 0 "file_order rs" xs new] ch assms(3) by (simp add: file_order_def)
qed

section \<open>What the executor guarantees\<close>

subsection \<open>Effective edits\<close>

lemma effective_in_bounds:
  assumes "in_bounds ls r"
  shows "\<exists>k s. effective ls r = Some (k, s)"
  using assms by (auto simp: effective_def in_bounds_def Let_def)

lemma effective_edits_total:
  "(\<forall>r \<in> set rs. in_bounds ls r) \<Longrightarrow>
   \<exists>kept sites. effective_edits ls rs = Some (kept, sites) \<and> set kept \<subseteq> set rs"
proof (induction rs)
  case Nil
  then show ?case by simp
next
  case (Cons r rs)
  then obtain kept sites where "effective_edits ls rs = Some (kept, sites)" "set kept \<subseteq> set rs" by auto
  moreover obtain k s where "effective ls r = Some (k, s)" using effective_in_bounds Cons.prems by fastforce
  ultimately show ?case by auto
qed

lemma effective_edits_kept:
  "effective_edits ls rs = Some (kept, sites) \<Longrightarrow>
   kept = filter (\<lambda>r. (if is_insert r then replacement_lines (re_edit r) \<noteq> []
                       else bound_lines ls r \<noteq> replacement_lines (re_edit r))) rs"
proof (induction rs arbitrary: kept sites)
  case Nil
  then show ?case by simp
next
  case (Cons r rs)
  obtain k s kept' sites' where h: "effective ls r = Some (k, s)" "effective_edits ls rs = Some (kept', sites')"
      "kept = (if k then r # kept' else kept')"
    using Cons.prems by (auto split: option.splits)
  have "k \<longleftrightarrow> (if is_insert r then replacement_lines (re_edit r) \<noteq> []
                       else bound_lines ls r \<noteq> replacement_lines (re_edit r))"
    using h(1) by (auto simp: effective_def Let_def split: if_splits)
  then show ?case using h(3) Cons.IH[OF h(2)] by auto
qed

lemma duplicate_insertion_total:
  "in_bounds ls r \<Longrightarrow> duplicate_insertion alnum dbg ls r \<noteq> None"
  by (auto simp: duplicate_insertion_def Let_def in_bounds_def)

lemma duplicate_insertions_total:
  "(\<forall>r \<in> set rs. in_bounds ls r) \<Longrightarrow> \<exists>f. duplicate_insertions alnum dbg ls rs = Some f"
  by (induction rs) (use duplicate_insertion_total in \<open>fastforce split: option.splits\<close>)+

text \<open>Resolved edits never make the executor panic.\<close>

lemma apply_edits_total:
  assumes "\<forall>r \<in> set rs. in_bounds ls r"
  shows "apply_edits_with_provenance alnum dbg ls rs \<noteq> None"
proof -
  obtain kept sites where k: "effective_edits ls rs = Some (kept, sites)" "set kept \<subseteq> set rs"
    using effective_edits_total[OF assms] by blast
  then obtain f where "duplicate_insertions alnum dbg ls kept = Some f"
    using duplicate_insertions_total[of kept ls] assms by blast
  then show ?thesis by (simp add: apply_edits_with_provenance_def Let_def k)
qed

text \<open>What an applied batch went through.\<close>

lemma apply_edits_Applied:
  assumes "apply_edits_with_provenance alnum dbg ls rs = Some (Applied new added removed aes sites, prov)"
  obtains kept where "effective_edits ls rs = Some (kept, sites)"
    and "duplicate_insertions alnum dbg ls kept = Some []" and "\<not> any_overlap kept"
    and "assembled_outcome ls kept sites = (Applied new added removed aes sites, prov)"
proof -
  obtain kept st where k: "effective_edits ls rs = Some (kept, st)"
    using assms by (auto simp: apply_edits_with_provenance_def Let_def split: option.splits)
  have d: "duplicate_insertions alnum dbg ls kept = Some []" "\<not> any_overlap kept"
     "assembled_outcome ls kept st = (Applied new added removed aes sites, prov)"
    using assms by (auto simp: apply_edits_with_provenance_def Let_def k split: option.splits if_splits)
  then have "st = sites" by (auto simp: assembled_outcome_def Let_def split: if_splits)
  with k d that show thesis by blast
qed

subsection \<open>Provenance\<close>

definition some_values :: "'a option list \<Rightarrow> 'a list" where
  "some_values xs = concat (map (\<lambda>x. case x of None \<Rightarrow> [] | Some a \<Rightarrow> [a]) xs)"

lemma some_values_simps [simp]:
  "some_values [] = []" "some_values (None # xs) = some_values xs"
  "some_values (Some a # xs) = a # some_values xs" "some_values (xs @ ys) = some_values xs @ some_values ys"
  "some_values (replicate n None) = []"
  by (auto simp: some_values_def)

lemma some_values_map_Some [simp]: "some_values (map Some xs) = xs"
  by (induction xs) auto

lemma stitch_rel:
  assumes "list_all2 P xs ys" and "\<And>e. list_all2 P (f e) (g e)"
  shows "list_all2 P (stitch f p xs rs) (stitch g p ys rs)"
proof (induction rs arbitrary: p)
  case Nil
  then show ?case using assms(1) by (simp add: list_all2_dropI)
next
  case (Cons r rs)
  then show ?case using assms
    by (auto simp: slice_def intro!: list_all2_appendI list_all2_takeI list_all2_dropI)
qed

lemma some_values_new_origins [simp]: "some_values (new_origins e) = []"
  by (simp add: new_origins_def)

text \<open>The lines that survive, in order: those outside every replaced range.\<close>

definition replaced :: "resolved_edit list \<Rightarrow> nat \<Rightarrow> bool" where
  "replaced rs i \<longleftrightarrow> (\<exists>r \<in> set rs. \<not> is_insert r \<and> line_idx r \<le> i \<and> i \<le> end_idx r)"

lemma slice_upt: "q \<le> n \<Longrightarrow> slice p (q - p) [0..<n] = [p..<q]"
  by (cases "p \<le> q") (auto simp: slice_def take_upt drop_upt)

lemma some_values_stitch_origins:
  assumes "chain p rs n"
  shows "some_values (stitch new_origins p (map Some [0..<n]) rs) =
      filter (\<lambda>i. \<forall>r \<in> set rs. \<not> (splice_index r \<le> i \<and> i < splice_index r + removed_in r)) [p..<n]"
  using assms
proof (induction rs arbitrary: p)
  case Nil
  then show ?case by (simp add: drop_map drop_upt)
next
  case (Cons r rs)
  let ?s = "splice_index r" and ?q = "splice_index r + removed_in r"
  let ?keep = "\<lambda>rs i. \<forall>r \<in> set rs. \<not> (splice_index r \<le> i \<and> i < splice_index r + removed_in r)"
  have ch: "p \<le> ?s" "chain ?q rs n" using Cons.prems by auto
  have later: "x \<in> set rs \<Longrightarrow> ?q \<le> splice_index x" for x
    by (rule chain_later[OF ch(2)])
  have qn: "?q \<le> n" by (rule chain_bound[OF ch(2)])
  have "[p..<n] = [p..<?s] @ [?s..<?q] @ [?q..<n]"
    using ch(1) qn by (metis append.assoc le_add1 le_trans upt_add_eq_append le_iff_add)
  moreover have "filter (?keep (r # rs)) [p..<?s] = [p..<?s]"
    by (rule filter_True) (use later in force)
  moreover have "filter (?keep (r # rs)) [?s..<?q] = []"
    by (simp add: filter_empty_conv)
  moreover have "filter (?keep (r # rs)) [?q..<n] = filter (?keep rs) [?q..<n]"
    by (rule filter_cong) auto
  ultimately have "filter (?keep (r # rs)) [p..<n] = [p..<?s] @ filter (?keep rs) [?q..<n]"
    by simp
  moreover have "slice p (?s - p) (map Some [0..<n]) = map Some [p..<?s]"
    using ch(1) qn by (simp add: slice_def take_map drop_map drop_upt take_upt)
  ultimately show ?case
    using Cons.IH[OF ch(2)] by simp
qed

lemma length_slice_upto: "q \<le> length xs \<Longrightarrow> length (slice p (q - p) xs) = q - p"
  by (auto simp: slice_def)

definition growth :: "resolved_edit list \<Rightarrow> int" where
  "growth rs = sum_list (map (\<lambda>r. int (length (replacement_lines (re_edit r))) - int (removed_in r)) rs)"

lemma growth_simps [simp]:
  "growth [] = 0"
  "growth (r # rs) = int (length (replacement_lines (re_edit r))) - int (removed_in r) + growth rs"
  "growth (xs @ ys) = growth xs + growth ys"
  by (simp_all add: growth_def)

lemma stitch_length:
  "chain p rs (length xs) \<Longrightarrow> (\<And>r. r \<in> set rs \<Longrightarrow> length (new (re_edit r)) = length (replacement_lines (re_edit r))) \<Longrightarrow>
   int (length (stitch new p xs rs)) = int (length xs) - int p + growth rs"
proof (induction rs arbitrary: p)
  case Nil
  then show ?case by simp
next
  case (Cons r rs)
  have ch: "p \<le> splice_index r" "chain (splice_index r + removed_in r) rs (length xs)"
    using Cons.prems by auto
  have "splice_index r \<le> length xs" using chain_bound[OF ch(2)] by simp
  moreover have "length (new (re_edit r)) = length (replacement_lines (re_edit r))" by (simp add: Cons.prems)
  moreover have "int (length (stitch new (splice_index r + removed_in r) xs rs)) =
      int (length xs) - int (splice_index r + removed_in r) + growth rs"
    using Cons.prems by (intro Cons.IH[OF ch(2)]) simp
  ultimately show ?case using ch(1) by (simp add: length_slice_upto)
qed

lemma stitch_at:
  "chain p (pre @ r # post) (length xs) \<Longrightarrow>
   \<exists>before rest. stitch replacement_lines p xs (pre @ r # post) = before @ replacement_lines (re_edit r) @ rest
     \<and> int (length before) = int (splice_index r) - int p + growth pre"
proof (induction pre arbitrary: p)
  case Nil
  then have "splice_index r \<le> length xs" using chain_bound by fastforce
  with Nil show ?case by (auto simp: length_slice_upto intro!: exI)
next
  case (Cons x pre)
  let ?q = "splice_index x + removed_in x"
  have ch: "p \<le> splice_index x" "chain ?q (pre @ r # post) (length xs)" using Cons.prems by auto
  then have "splice_index x \<le> length xs" using chain_bound by fastforce
  moreover obtain before rest where
    "stitch replacement_lines ?q xs (pre @ r # post) = before @ replacement_lines (re_edit r) @ rest"
    "int (length before) = int (splice_index r) - int ?q + growth pre"
    using Cons.IH[OF ch(2)] by blast
  ultimately show ?case using ch(1)
    by (intro exI[of _ "slice p (splice_index x - p) xs @ replacement_lines (re_edit x) @ before"] exI[of _ rest])
       (simp add: length_slice_upto)
qed

lemma growth_mset:
  assumes "mset xs = mset ys"
  shows "growth xs = growth ys"
proof -
  let ?f = "\<lambda>r. int (length (replacement_lines (re_edit r))) - int (removed_in r)"
  have "sum_mset (image_mset ?f (mset xs)) = sum_mset (image_mset ?f (mset ys))"
    by (simp only: assms)
  then show ?thesis by (simp add: growth_def sum_mset_sum_list flip: mset_map)
qed

lemma mset_file_order [simp]: "mset (file_order rs) = mset rs"
  by (simp add: file_order_def sorted_edits_def)

lemma mset_sorted_edits [simp]: "mset (sorted_edits rs) = mset rs"
  by (simp add: sorted_edits_def)

text \<open>In file order, the edits with a smaller line index are those in front.\<close>

lemma shift_before_prefix:
  assumes "file_order rs = pre @ r # post" and "\<not> any_overlap rs" and "\<forall>r \<in> set rs. in_bounds ls r"
  shows "shift_before (sorted_edits rs) (line_idx r) = growth pre"
proof -
  have so: "sorted_wrt (\<lambda>a b. line_idx a \<le> line_idx b \<and> \<not> overlaps a b) (pre @ r # post)"
    using file_order_sorted[OF assms(2)] assms(1) by simp
  have bd: "\<forall>x \<in> set (pre @ r # post). in_bounds ls x"
    using assms(1,3) set_file_order[of rs] by metis
  have "line_idx x < line_idx r" if x: "x \<in> set pre" for x
  proof -
    have "line_idx x \<le> line_idx r" "\<not> overlaps x r" using so x by (auto simp: sorted_wrt_append)
    moreover have "line_idx r \<le> range_end r" "line_idx x \<le> range_end x"
      using bd x by (auto simp: range_end_def in_bounds_def)
    ultimately show ?thesis unfolding overlaps_def by linarith
  qed
  then have f1: "filter (\<lambda>x. line_idx x < line_idx r) pre = pre" by (simp add: filter_True)
  have f2: "filter (\<lambda>x. line_idx x < line_idx r) post = []"
    using so by (auto simp: sorted_wrt_append filter_empty_conv)
  have "shift_before (sorted_edits rs) (line_idx r)
      = growth (filter (\<lambda>x. line_idx x < line_idx r) (sorted_edits rs))"
    by (simp add: shift_before_def growth_def)
  also have "\<dots> = growth (filter (\<lambda>x. line_idx x < line_idx r) (file_order rs))"
    by (intro growth_mset) simp
  also have "\<dots> = growth pre" by (simp add: assms(1) f1 f2)
  finally show ?thesis .
qed

lemma chain_append: "chain p (xs @ ys) n \<Longrightarrow> chain p xs n"
  by (induction p xs n rule: chain.induct) (auto dest: chain_bound)

lemma chain_shrink:
  "chain p rs n \<Longrightarrow> p \<le> m \<Longrightarrow> (\<forall>x \<in> set rs. splice_index x + removed_in x \<le> m) \<Longrightarrow> chain p rs m"
  by (induction p rs n rule: chain.induct) auto

text \<open>Every applied edit reports where its replacement stands in the new file.\<close>

lemma applied_edit_split:
  assumes "\<not> any_overlap rs" and "\<forall>r \<in> set rs. in_bounds ls r" and "r \<in> set rs"
  shows "\<exists>before rest. foldl (apply_splice replacement_lines) ls (sorted_edits rs) = before @ replacement_lines (re_edit r) @ rest
      \<and> start_idx (applied_edit_of (sorted_edits rs) r) = length before"
proof -
  obtain pre post where fo: "file_order rs = pre @ r # post"
    using assms(3) set_file_order[of rs] split_list[of r "file_order rs"] by auto
  have st: "foldl (apply_splice replacement_lines) ls (sorted_edits rs) = stitch replacement_lines 0 ls (pre @ r # post)"
    and ch: "chain 0 (pre @ r # post) (length ls)"
    using spliced_as_stitched[OF assms(1,2) refl] fo by auto
  obtain before rest where b: "stitch replacement_lines 0 ls (pre @ r # post) = before @ replacement_lines (re_edit r) @ rest"
    "int (length before) = int (splice_index r) + growth pre"
    using stitch_at[OF ch] by auto
  have sh: "shift_before (sorted_edits rs) (line_idx r) = growth pre"
    by (rule shift_before_prefix[OF fo assms(1,2)])
  have "0 \<le> int (line_idx r) + growth pre"
  proof -
    have so: "sorted_wrt (\<lambda>a b. line_idx a \<le> line_idx b \<and> \<not> overlaps a b) (pre @ r # post)"
      using file_order_sorted[OF assms(1)] fo by simp
    moreover have bd: "\<forall>x \<in> set (pre @ r # post). in_bounds ls x"
      using assms(2) fo set_file_order[of rs] by metis
    have "splice_index x + removed_in x \<le> line_idx r" if "x \<in> set pre" for x
      using that so bd by (intro splice_order) (auto simp: sorted_wrt_append)
    then have "chain 0 pre (line_idx r)"
      using chain_append[OF ch] by (auto intro: chain_shrink)
    then show ?thesis using stitch_length[of 0 pre "replicate (line_idx r) undefined" replacement_lines] by simp
  qed
  then have "start_idx (applied_edit_of (sorted_edits rs) r) = length before"
    using b(2) by (auto simp: applied_edit_of_def Let_def sh splice_index_def split: if_splits)
  then show ?thesis using st b(1) by (intro exI[of _ before] exI[of _ rest]) simp
qed

lemma applied_edit_position:
  assumes "\<not> any_overlap rs" and "\<forall>r \<in> set rs. in_bounds ls r" and "r \<in> set rs"
  shows "slice (start_idx (applied_edit_of (sorted_edits rs) r)) (length (replacement_lines (re_edit r)))
      (foldl (apply_splice replacement_lines) ls (sorted_edits rs)) = replacement_lines (re_edit r)"
  using applied_edit_split[OF assms] by (auto simp: slice_def)

section \<open>The executor, as its callers rely on it\<close>

text \<open>The edits that take effect, and the lines they replace.\<close>

definition takes_effect :: "ustr list \<Rightarrow> resolved_edit \<Rightarrow> bool" where
  "takes_effect ls r \<longleftrightarrow> (if is_insert r then replacement_lines (re_edit r) \<noteq> []
                       else bound_lines ls r \<noteq> replacement_lines (re_edit r))"

definition rewritten :: "ustr list \<Rightarrow> resolved_edit list \<Rightarrow> nat \<Rightarrow> bool" where
  "rewritten ls rs i \<longleftrightarrow> replaced (filter (takes_effect ls) rs) i"

lemma kept_edits: "effective_edits ls rs = Some (kept, sites) \<Longrightarrow> kept = filter (takes_effect ls) rs"
  by (drule effective_edits_kept) (simp add: takes_effect_def[abs_def])

lemma assembled_Applied:
  assumes "assembled_outcome ls rs sites = (Applied new added removed aes sites', prov)"
  shows "aes = applied_edits (sorted_edits rs)" and "edit_ranges prov = aes" and "sites' = sites"
    and "added = sum_list (map (\<lambda>r. length (replacement_lines (re_edit r))) (sorted_edits rs))"
    and "removed = sum_list (map removed_in (sorted_edits rs))"
    and "find_glued_anchor_in_lines (foldl (apply_splice replacement_lines) ls (sorted_edits rs)) (touched_lines aes) = []"
    and "(new, origins prov) =
       (let n = foldl (apply_splice replacement_lines) ls (sorted_edits rs);
            os = foldl (apply_splice new_origins) (map Some [0..<length ls]) (sorted_edits rs)
        in if n = [] then ([[]], os @ [None]) else (n, os))"
  using assms by (auto simp: assembled_outcome_def Let_def split: if_splits)

lemma replaced_span:
  "\<forall>r \<in> set rs. in_bounds ls r \<Longrightarrow>
   (\<forall>r \<in> set rs. \<not> (splice_index r \<le> i \<and> i < splice_index r + removed_in r)) \<longleftrightarrow> \<not> replaced rs i"
  by (auto simp: replaced_def removed_in_def splice_index_def in_bounds_def is_insert_after_def is_insert_def
      is_insert_type_def split: if_splits)

lemma stitched_origins:
  assumes "\<not> any_overlap rs" and "\<forall>r \<in> set rs. in_bounds ls r"
  defines "n \<equiv> foldl (apply_splice replacement_lines) ls (sorted_edits rs)"
    and "os \<equiv> foldl (apply_splice new_origins) (map Some [0..<length ls]) (sorted_edits rs)"
  shows "list_all2 (\<lambda>x q. \<forall>i. q = Some i \<longrightarrow> i < length ls \<and> x = ls ! i) n os"
    and "some_values os = filter (\<lambda>i. \<not> replaced rs i) [0..<length ls]"
proof -
  have n: "n = stitch replacement_lines 0 ls (file_order rs)" and ch: "chain 0 (file_order rs) (length ls)"
    unfolding n_def using spliced_as_stitched[OF assms(1,2) refl] by auto
  have os: "os = stitch new_origins 0 (map Some [0..<length ls]) (file_order rs)"
    unfolding os_def by (rule spliced_as_stitched[OF assms(1,2)]) simp
  show "list_all2 (\<lambda>x q. \<forall>i. q = Some i \<longrightarrow> i < length ls \<and> x = ls ! i) n os"
    unfolding n os by (rule stitch_rel) (auto simp: list_all2_conv_all_nth new_origins_def)
  have "\<forall>r \<in> set (file_order rs). in_bounds ls r" using assms(2) by simp
  then show "some_values os = filter (\<lambda>i. \<not> replaced rs i) [0..<length ls]"
    unfolding os some_values_stitch_origins[OF ch]
    by (intro filter_cong refl) (simp only: replaced_span, simp add: replaced_def)
qed

lemma in_bounds_kept:
  "effective_edits ls rs = Some (kept, sites) \<Longrightarrow> \<forall>r \<in> set rs. in_bounds ls r \<Longrightarrow> \<forall>r \<in> set kept. in_bounds ls r"
  by (auto dest: kept_edits)

lemma Applied_provenance:
  assumes "apply_edits_with_provenance alnum dbg ls rs = Some (Applied new added removed aes sites, prov)"
    and "\<forall>r \<in> set rs. in_bounds ls r"
  shows "list_all2 (\<lambda>x q. \<forall>i. q = Some i \<longrightarrow> i < length ls \<and> x = ls ! i) new (origins prov)"
    and "some_values (origins prov) = filter (\<lambda>i. \<not> rewritten ls rs i) [0..<length ls]"
proof -
  obtain kept where k: "effective_edits ls rs = Some (kept, sites)" "\<not> any_overlap kept"
    "assembled_outcome ls kept sites = (Applied new added removed aes sites, prov)"
    using apply_edits_Applied[OF assms(1)] by metis
  have kb: "\<forall>r \<in> set kept. in_bounds ls r" by (rule in_bounds_kept[OF k(1) assms(2)])
  note so = stitched_origins[OF k(2) kb]
  have rw: "rewritten ls rs = replaced kept" using kept_edits[OF k(1)] by (simp add: rewritten_def[abs_def])
  show "list_all2 (\<lambda>x q. \<forall>i. q = Some i \<longrightarrow> i < length ls \<and> x = ls ! i) new (origins prov)"
    and "some_values (origins prov) = filter (\<lambda>i. \<not> rewritten ls rs i) [0..<length ls]"
    using so assembled_Applied(7)[OF k(3)] by (auto simp: Let_def rw split: if_splits)
qed

lemma growth_alt:
  "growth rs = int (sum_list (map (\<lambda>r. length (replacement_lines (re_edit r))) rs)) - int (sum_list (map removed_in rs))"
  by (induction rs) auto

lemma Applied_accounting:
  assumes "apply_edits_with_provenance alnum dbg ls rs = Some (Applied new added removed aes sites, prov)"
    and "\<forall>r \<in> set rs. in_bounds ls r"
  shows "(if length ls + added = removed then new = [[]] else length new + removed = length ls + added)"
proof -
  obtain kept where k: "effective_edits ls rs = Some (kept, sites)" "\<not> any_overlap kept"
    "assembled_outcome ls kept sites = (Applied new added removed aes sites, prov)"
    using apply_edits_Applied[OF assms(1)] by metis
  have kb: "\<forall>r \<in> set kept. in_bounds ls r" by (rule in_bounds_kept[OF k(1) assms(2)])
  let ?n = "foldl (apply_splice replacement_lines) ls (sorted_edits kept)"
  have "?n = stitch replacement_lines 0 ls (file_order kept)" "chain 0 (file_order kept) (length ls)"
    using spliced_as_stitched[OF k(2) kb refl] by auto
  then have "int (length ?n) = int (length ls) + growth (file_order kept)"
    using stitch_length[of 0 "file_order kept" ls replacement_lines] by simp
  also have "growth (file_order kept) = growth (sorted_edits kept)" by (rule growth_mset) simp
  also have "\<dots> = int added - int removed"
    using assembled_Applied(4,5)[OF k(3)] by (simp add: growth_alt)
  finally have "length ?n + removed = length ls + added" by linarith
  then show ?thesis using assembled_Applied(7)[OF k(3)] by (auto simp: Let_def split: if_splits)
qed

lemma Applied_positions:
  assumes "apply_edits_with_provenance alnum dbg ls rs = Some (Applied new added removed aes sites, prov)"
    and "\<forall>r \<in> set rs. in_bounds ls r"
  shows "\<forall>a \<in> set aes. slice (start_idx a) (lines_added a) new = replacement_lines (ae_edit a)"
proof -
  obtain kept where k: "effective_edits ls rs = Some (kept, sites)" "\<not> any_overlap kept"
    "assembled_outcome ls kept sites = (Applied new added removed aes sites, prov)"
    using apply_edits_Applied[OF assms(1)] by metis
  have kb: "\<forall>r \<in> set kept. in_bounds ls r" by (rule in_bounds_kept[OF k(1) assms(2)])
  let ?n = "foldl (apply_splice replacement_lines) ls (sorted_edits kept)"
  have pos: "slice (start_idx a) (lines_added a) ?n = replacement_lines (ae_edit a)" if a: "a \<in> set aes" for a
  proof -
    obtain r where "r \<in> set kept" "a = applied_edit_of (sorted_edits kept) r"
      using a assembled_Applied(1)[OF k(3)] by (auto simp: applied_edits_def)
    then show ?thesis using applied_edit_position[OF k(2) kb, of r]
      by (simp add: applied_edit_of_def Let_def)
  qed
  moreover have "new = ?n \<or> ?n = [] \<and> new = [[]]"
    using assembled_Applied(7)[OF k(3)] by (auto simp: Let_def split: if_splits)
  moreover have "slice (start_idx a) (lines_added a) [[]] = ([] :: ustr list)"
    if "slice (start_idx a) (lines_added a) [] = replacement_lines (ae_edit a)" "a \<in> set aes" for a
    using that assembled_Applied(1)[OF k(3)]
    by (auto simp: applied_edits_def applied_edit_of_def Let_def slice_def)
  ultimately show ?thesis by (force simp: slice_def)
qed

text \<open>The ranges of an applied edit lie in the old and in the new file.\<close>

lemma Applied_ranges:
  assumes "apply_edits_with_provenance alnum dbg ls rs = Some (Applied new added removed aes sites, prov)"
    and "\<forall>r \<in> set rs. in_bounds ls r" and "a \<in> set aes"
  shows "start_idx a + lines_added a \<le> length new \<and> original_start_idx a + lines_deleted a \<le> length ls
    \<and> original_start_idx a < length ls \<and> new \<noteq> []
    \<and> lines_added a = length (replacement_lines (ae_edit a))
    \<and> ae_end_idx a = (if lines_added a = 0 then start_idx a else start_idx a + lines_added a - 1)"
proof -
  obtain kept where k: "effective_edits ls rs = Some (kept, sites)" "\<not> any_overlap kept"
    "assembled_outcome ls kept sites = (Applied new added removed aes sites, prov)"
    using apply_edits_Applied[OF assms(1)] by metis
  have kb: "\<forall>r \<in> set kept. in_bounds ls r" by (rule in_bounds_kept[OF k(1) assms(2)])
  let ?n = "foldl (apply_splice replacement_lines) ls (sorted_edits kept)"
  obtain r where r: "r \<in> set kept" "a = applied_edit_of (sorted_edits kept) r"
    using assms(3) assembled_Applied(1)[OF k(3)] by (auto simp: applied_edits_def)
  have "start_idx a + lines_added a \<le> length ?n"
    using applied_edit_split[OF k(2) kb r(1)] r(2) by (auto simp: applied_edit_of_def Let_def)
  moreover have "new = ?n \<and> new \<noteq> [] \<or> ?n = [] \<and> new = [[]]"
    using assembled_Applied(7)[OF k(3)] by (auto simp: Let_def split: if_splits)
  moreover have "in_bounds ls r" using kb r(1) by simp
  ultimately show ?thesis using r(2)
    by (auto simp: applied_edit_of_def Let_def in_bounds_def removed_in_def)
qed

section \<open>Properties\<close>

lemma resolved_in_bounds:
  assumes "resolve_edits dbg edits ls hashes = Some (rs, fs)" and "length hashes = length ls"
  shows "\<forall>r \<in> set rs. in_bounds ls r"
proof
  fix r
  assume "r \<in> set rs"
  then obtain e where "resolve_edit dbg (map trim hashes) ls e = Some (Inr r)"
    using resolve_all_parts assms(1) unfolding resolve_edits_def by blast
  then show "in_bounds ls r" using resolve_edit_Inr[of dbg "map trim hashes" ls e r] assms(2)
    by (simp add: in_bounds_def)
qed

definition sample_edit :: edit where
  "sample_edit = \<lparr>ed_anchor = str ''Ab'' @ [delim, 97], ed_end_anchor = None, ed_edit_type = str ''replace'',
     ed_text = [99, 10, 100], ed_content = None, ed_old_text = None\<rparr>"

definition sample_insert :: edit where
  "sample_insert = \<lparr>ed_anchor = str ''Cd'' @ [delim, 98], ed_end_anchor = None, ed_edit_type = str ''insert_after'',
     ed_text = [101], ed_content = None, ed_old_text = None\<rparr>"

definition sample_lines :: "ustr list" where
  "sample_lines = [[97], [98], [102]]"

definition sample_hashes :: "ustr list" where
  "sample_hashes = [str ''Ab'', str ''Cd'', str ''Ef'']"

definition sample_resolved :: "resolved_edit list" where
  "sample_resolved = [\<lparr>line_idx = 0, end_idx = 0, re_edit = sample_edit\<rparr>, \<lparr>line_idx = 1, end_idx = 1, re_edit = sample_insert\<rparr>]"

definition sample_applied :: "applied_edit list" where
  "sample_applied =
     [\<lparr>start_idx = 0, ae_end_idx = 1, original_start_idx = 0, original_end_idx = 0, ae_edit = sample_edit,
       lines_added = 2, lines_deleted = 1\<rparr>,
      \<lparr>start_idx = 3, ae_end_idx = 3, original_start_idx = 1, original_end_idx = 1, ae_edit = sample_insert,
       lines_added = 1, lines_deleted = 0\<rparr>]"

definition sample_provenance :: splice_provenance where
  "sample_provenance = \<lparr>origins = [None, None, Some 1, None, Some 2], edit_ranges = sample_applied\<rparr>"

lemma sample_resolves:
  "resolve_edits (\<lambda>s. s) [sample_edit, sample_insert] sample_lines sample_hashes = Some (sample_resolved, [])"
  by code_simp

lemma sample_applies:
  "apply_edits_with_provenance (\<lambda>_. True) (\<lambda>s. s) sample_lines sample_resolved
     = Some (Applied [[99], [100], [98], [101], [102]] 3 1 sample_applied [], sample_provenance)"
  by code_simp

lemma sample_in_bounds: "\<forall>r \<in> set sample_resolved. in_bounds sample_lines r"
  by code_simp

text \<open>Whatever edits the resolver binds, the executor does not panic on them: no index, slice or
  subtraction of \<open>apply_edits_recording\<close> leaves the file.\<close>

theorem executor_never_panics:
  assumes "resolve_edits dbg edits ls hashes = Some (resolved, failed)" and "length hashes = length ls"
  shows "\<exists>outcome prov. apply_edits_with_provenance alnum dbg' ls resolved = Some (outcome, prov)"
  using apply_edits_total[OF resolved_in_bounds[OF assms]] by fastforce

theorem executor_never_panics_witness:
  "\<exists>outcome prov. apply_edits_with_provenance (\<lambda>_. True) (\<lambda>s. s) sample_lines sample_resolved = Some (outcome, prov)"
  by (rule executor_never_panics[OF sample_resolves]) code_simp

text \<open>C2. Splicing from the last edit to the first gives the file read once from the front with every
  effective edit's replacement in the place of its lines; an emptied file becomes one empty line.\<close>

theorem splices_equal_one_pass:
  assumes "apply_edits_with_provenance alnum dbg ls rs = Some (Applied new added removed aes sites, prov)"
    and "\<forall>r \<in> set rs. in_bounds ls r"
  shows "new = (let one_pass = stitch replacement_lines 0 ls (file_order (filter (takes_effect ls) rs))
                in if one_pass = [] then [[]] else one_pass)"
proof -
  obtain kept where k: "effective_edits ls rs = Some (kept, sites)" "\<not> any_overlap kept"
    "assembled_outcome ls kept sites = (Applied new added removed aes sites, prov)"
    using apply_edits_Applied[OF assms(1)] by metis
  show ?thesis
    using assembled_Applied(7)[OF k(3)] spliced_as_stitched(1)[OF k(2) in_bounds_kept[OF k(1) assms(2)] refl]
    by (auto simp: Let_def kept_edits[OF k(1)] split: if_splits)
qed

theorem splices_equal_one_pass_witness:
  "[[99], [100], [98], [101], [102]] =
     (let one_pass = stitch replacement_lines 0 sample_lines (file_order (filter (takes_effect sample_lines) sample_resolved))
      in if one_pass = [] then [[]] else one_pass)"
  by (rule splices_equal_one_pass[OF sample_applies sample_in_bounds])

text \<open>C1. The recorded provenance is exact: a line with an origin is that line of the old file
  unchanged, the origins ascend, and they are precisely the lines no effective edit replaced.\<close>

theorem provenance_exact:
  assumes "apply_edits_with_provenance alnum dbg ls rs = Some (Applied new added removed aes sites, prov)"
    and "\<forall>r \<in> set rs. in_bounds ls r"
  shows "list_all2 (\<lambda>line origin. \<forall>i. origin = Some i \<longrightarrow> i < length ls \<and> line = ls ! i) new (origins prov)
    \<and> some_values (origins prov) = filter (\<lambda>i. \<not> rewritten ls rs i) [0..<length ls]
    \<and> sorted_wrt (<) (some_values (origins prov))"
  using Applied_provenance[OF assms] by (simp add: sorted_wrt_filter)

theorem provenance_exact_witness:
  "list_all2 (\<lambda>line origin. \<forall>i. origin = Some i \<longrightarrow> i < length sample_lines \<and> line = sample_lines ! i)
      [[99], [100], [98], [101], [102]] (origins sample_provenance)
    \<and> some_values (origins sample_provenance) = filter (\<lambda>i. \<not> rewritten sample_lines sample_resolved i) [0..<length sample_lines]
    \<and> sorted_wrt (<) (some_values (origins sample_provenance))"
  by (rule provenance_exact[OF sample_applies sample_in_bounds])

text \<open>The reported ranges are true: the replacement of every applied edit stands in the new file at
  its reported position, and the reported counts balance the length of the file.\<close>

theorem applied_edits_located:
  assumes "apply_edits_with_provenance alnum dbg ls rs = Some (Applied new added removed aes sites, prov)"
    and "\<forall>r \<in> set rs. in_bounds ls r"
  shows "list_all (\<lambda>a. slice (start_idx a) (lines_added a) new = replacement_lines (ae_edit a)) aes
    \<and> (if length ls + added = removed then new = [[]] else length new + removed = length ls + added)"
  using Applied_positions[OF assms] Applied_accounting[OF assms] by (simp add: list_all_iff)

theorem applied_edits_located_witness:
  "list_all (\<lambda>a. slice (start_idx a) (lines_added a) [[99], [100], [98], [101], [102]]
        = replacement_lines (ae_edit a)) sample_applied
    \<and> (if length sample_lines + 3 = (1::nat) then [[99], [100], [98], [101], [102]] = [[] :: ustr]
       else length [[99], [100], [98], [101], [102 :: nat]] + 1 = length sample_lines + 3)"
  using applied_edits_located[OF sample_applies sample_in_bounds] by simp

text \<open>No line an applied batch wrote carries anchor syntax left over from what the model saw.\<close>

theorem written_lines_unglued:
  assumes "apply_edits_with_provenance alnum dbg ls rs = Some (Applied new added removed aes sites, prov)"
  shows "list_all (\<lambda>a. lines_added a = 0
      \<or> list_all (\<lambda>line. \<not> GLUED_ANCHOR_REGEX line) (slice (start_idx a) (ae_end_idx a + 1 - start_idx a) new)) aes"
proof -
  obtain kept where k: "assembled_outcome ls kept sites = (Applied new added removed aes sites, prov)"
    using apply_edits_Applied[OF assms(1)] by metis
  let ?n = "foldl (apply_splice replacement_lines) ls (sorted_edits kept)"
  have "\<not> GLUED_ANCHOR_REGEX (?n ! i)"
    if "a \<in> set aes" "i \<in> {start_idx a..ae_end_idx a}" "0 < lines_added a" "i < length ?n" for a i
    using assembled_Applied(6)[OF k] that unfolding find_glued_empty touched_lines_def by fastforce
  moreover have "\<not> GLUED_ANCHOR_REGEX []" by code_simp
  ultimately have "\<not> GLUED_ANCHOR_REGEX (new ! i)"
    if "a \<in> set aes" "i \<in> {start_idx a..ae_end_idx a}" "0 < lines_added a" "i < length new" for a i
    using assembled_Applied(7)[OF k] that by (auto simp: Let_def split: if_splits)
  then show ?thesis
    by (fastforce simp: list_all_iff slice_def in_set_conv_nth)
qed

theorem written_lines_unglued_witness:
  "list_all (\<lambda>a. lines_added a = 0
      \<or> list_all (\<lambda>line. \<not> GLUED_ANCHOR_REGEX line)
           (slice (start_idx a) (ae_end_idx a + 1 - start_idx a) [[99], [100], [98], [101], [102]])) sample_applied"
  by (rule written_lines_unglued[OF sample_applies])

end
