(* ===== verification/AnchorState.thy ===== *)
theory AnchorState
  imports EditApply
begin

text \<open>
  The state of one tracked document and the pure part of \<open>AnchorStateManager\<close> in
  \<open>src/core/file_editor.rs\<close>: allocation and migration of identities, observation of a document,
  staging of a transition and reconciliation by a diff. The store the documents live in is in
  \<open>AnchorStore\<close>. Parameters: \<open>sha\<close> is the hexadecimal SHA-256 of the \<open>sha2\<close> crate, \<open>fresh\<close> the
  namespace drawn by \<open>new_anchor_namespace\<close>, \<open>diff\<close> the Myers diff of the \<open>similar\<close> crate. An outer
  \<open>None\<close> is a panic.
\<close>

section \<open>Documents\<close>

abbreviation MAX_TRACKED_LINES :: nat where "MAX_TRACKED_LINES \<equiv> 5000"
abbreviation MAX_RETIRED_ANCHORS :: nat where "MAX_RETIRED_ANCHORS \<equiv> 128"

record tracked_document =
  td_generation :: "64 word"
  td_hashes :: "64 word list"
  td_anchors :: "ustr list"
  used_words :: "ustr list"
  used_words_set :: "ustr set"
  anchor_namespace :: "ustr option"
  next_anchor_id :: "64 word"
  retired_anchors :: "ustr list"

datatype anchor_transition_error =
    StaleGeneration ustr
  | Validation ustr
  | Persistence ustr

section \<open>Identities\<close>

definition base36_digit :: "nat \<Rightarrow> uchar" where
  "base36_digit d = (if d < 10 then 48 + int d else 55 + int d)"

fun digits36 :: "nat \<Rightarrow> ustr" where
  "digits36 n = (if n = 0 then [] else base36_digit (n mod 36) # digits36 (n div 36))"

declare digits36.simps [simp del]

definition encode_base36 :: "64 word \<Rightarrow> ustr" where
  "encode_base36 value = (if value = 0 then str ''0'' else rev (digits36 (unat value)))"

definition identity :: "ustr \<Rightarrow> 64 word \<Rightarrow> ustr" where
  "identity namespace counter = str ''A'' @ namespace @ str ''N'' @ encode_base36 counter"

text \<open>Legacy words that are no longer live seed the retired ones, most recent first, up to the bound.\<close>

fun seed_retired :: "ustr set \<Rightarrow> ustr list \<Rightarrow> ustr list \<Rightarrow> ustr list" where
  "seed_retired live [] retired = retired"
| "seed_retired live (w # ws) retired =
     (if w \<notin> live \<and> w \<notin> set retired
      then (if MAX_RETIRED_ANCHORS \<le> length (w # retired) then w # retired
            else seed_retired live ws (w # retired))
      else seed_retired live ws retired)"

definition keep_recent :: "ustr list \<Rightarrow> ustr list" where
  "keep_recent ws = drop (length ws - MAX_RETIRED_ANCHORS) ws"

definition migrate_allocator_state :: "ustr \<Rightarrow> tracked_document \<Rightarrow> ustr list \<Rightarrow> tracked_document" where
  "migrate_allocator_state fresh doc live_anchors =
     (let doc1 = (if anchor_namespace doc = None
                  then doc\<lparr>anchor_namespace := Some fresh,
                           retired_anchors := seed_retired (set live_anchors) (rev (used_words doc)) (retired_anchors doc)\<rparr>
                  else doc)
      in doc1\<lparr>used_words := [], used_words_set := {}, retired_anchors := keep_recent (retired_anchors doc1)\<rparr>)"

definition msg_exhausted :: ustr where "msg_exhausted = str ''anchor identity counter exhausted''"

text \<open>\<open>checked_add\<close> fails at the largest \<open>u64\<close>; otherwise the counter grows until the identity is new.\<close>

function allocate_loop :: "bool \<Rightarrow> tracked_document \<Rightarrow> anchor_transition_error + (tracked_document \<times> ustr)" where
  "allocate_loop skip_collision_scan doc =
     (let counter = next_anchor_id doc in
      if counter = - 1 then Inl (Validation msg_exhausted)
      else
        (let doc' = doc\<lparr>next_anchor_id := counter + 1\<rparr>;
             new = identity (case anchor_namespace doc of Some ns \<Rightarrow> ns | None \<Rightarrow> []) counter
         in if skip_collision_scan \<or> (new \<notin> set (td_anchors doc) \<and> new \<notin> set (retired_anchors doc))
            then Inr (doc', new)
            else allocate_loop skip_collision_scan doc'))"
  by auto

lemma unat_succ: "(w :: 64 word) \<noteq> - 1 \<Longrightarrow> unat (w + 1) = unat w + 1"
  by (metis add.commute add_eq_0_iff unatSuc Suc_eq_plus1 minus_equation_iff)

lemma unat_u64: "unat (w :: 64 word) < 2 ^ 64"
  using unsigned_less[of w] by simp

termination allocate_loop
proof (relation "measure (\<lambda>(_, doc). 2 ^ 64 - unat (next_anchor_id doc))")
  show "wf (measure (\<lambda>(_ :: bool, doc). 2 ^ 64 - unat (next_anchor_id doc)))" by simp
next
  fix skip doc counter doc' new
  assume "counter = next_anchor_id (doc :: tracked_document)" "counter \<noteq> - 1"
    "doc' = doc\<lparr>next_anchor_id := counter + 1\<rparr>"
  then have "unat (next_anchor_id doc') = unat (next_anchor_id doc) + 1" by (simp add: unat_succ)
  moreover have "unat (next_anchor_id doc') < 2 ^ 64" by (rule unat_u64)
  ultimately show "((skip :: bool, doc'), (skip, doc)) \<in> measure (\<lambda>(_, doc). 2 ^ 64 - unat (next_anchor_id doc))"
    by simp
qed

declare allocate_loop.simps [simp del]

definition allocate_identity ::
    "ustr \<Rightarrow> bool \<Rightarrow> tracked_document \<Rightarrow> anchor_transition_error + (tracked_document \<times> ustr)" where
  "allocate_identity fresh skip_collision_scan doc =
     allocate_loop skip_collision_scan
       (if anchor_namespace doc = None then migrate_allocator_state fresh doc (td_anchors doc) else doc)"

definition push_anchor :: "ustr \<Rightarrow> tracked_document \<Rightarrow> tracked_document" where
  "push_anchor word doc = doc\<lparr>td_anchors := td_anchors doc @ [word]\<rparr>"

text \<open>Allocation of one identity after another, each pushed on the document.\<close>

fun mint_lines ::
    "('d \<Rightarrow> 'e + ('d \<times> 'w)) \<Rightarrow> ('w \<Rightarrow> 'd \<Rightarrow> 'd) \<Rightarrow> nat \<Rightarrow> 'd \<Rightarrow> 'e + 'd" where
  "mint_lines alloc push 0 doc = Inr doc"
| "mint_lines alloc push (Suc n) doc =
     (case alloc doc of Inl e \<Rightarrow> Inl e | Inr (doc', word) \<Rightarrow> mint_lines alloc push n (push word doc'))"

definition allocate_lines ::
    "ustr \<Rightarrow> bool \<Rightarrow> nat \<Rightarrow> tracked_document \<Rightarrow> anchor_transition_error + tracked_document" where
  "allocate_lines fresh skip_collision_scan = mint_lines (allocate_identity fresh skip_collision_scan) push_anchor"

definition new_document :: "ustr \<Rightarrow> 64 word list \<Rightarrow> tracked_document" where
  "new_document fresh hashes =
     \<lparr>td_generation = 0, td_hashes = hashes, td_anchors = [], used_words = [], used_words_set = {},
      anchor_namespace = Some fresh, next_anchor_id = 0, retired_anchors = []\<rparr>"

definition first_document :: "ustr \<Rightarrow> 64 word list \<Rightarrow> anchor_transition_error + tracked_document" where
  "first_document fresh hashes = allocate_lines fresh True (length hashes) (new_document fresh hashes)"

text \<open>Anchors of a large file, bound to its content and never tracked.\<close>

definition word_le :: "64 word \<Rightarrow> 8 word list" where
  "word_le w = map (\<lambda>i. ucast (drop_bit i w)) [0, 8, 16, 24, 32, 40, 48, 56]"

definition u64_le :: "nat \<Rightarrow> 8 word list" where
  "u64_le n = word_le (word_of_nat n)"

definition snapshot_line_anchors :: "(8 word list \<Rightarrow> ustr) \<Rightarrow> ustr list \<Rightarrow> ustr list" where
  "snapshot_line_anchors sha ls =
     (let revision = sha (concat (map (\<lambda>l. u64_le (byte_len l) @ utf8 l) ls))
      in map (\<lambda>i. str ''L'' @ take 32 revision @ str ''N'' @ show_nat i) [1..<Suc (length ls)])"

section \<open>Observation\<close>

record anchor_snapshot =
  sn_absolute_path :: ustr
  sn_task_id :: ustr
  sn_generation :: "64 word"
  sn_raw_digest :: ustr
  sn_normalized_digest :: ustr
  sn_lines :: "ustr list"
  sn_anchors :: "ustr list"
  sn_snapshot_mode :: bool
  sn_expected :: "tracked_document option"
  sn_memory_expected :: "tracked_document option"
  sn_document :: tracked_document

definition content_digest :: "(8 word list \<Rightarrow> ustr) \<Rightarrow> ustr \<Rightarrow> ustr" where
  "content_digest sha content = sha (utf8 content)"

text \<open>The document an observation settles on, given what memory and disk hold for the path.\<close>

definition observe_document ::
    "(8 word list \<Rightarrow> ustr) \<Rightarrow> ustr \<Rightarrow> ustr \<Rightarrow> ustr list \<Rightarrow> tracked_document option \<Rightarrow> tracked_document option
       \<Rightarrow> anchor_transition_error + tracked_document" where
  "observe_document sha fresh path ls memory_expected expected =
     (let hashes = compute_hashes ls; large = MAX_TRACKED_LINES < length ls in
      if expected = None \<and> memory_expected \<noteq> None \<and> \<not> large then Inl (StaleGeneration path)
      else if large
      then Inr \<lparr>td_generation = (case expected of Some d \<Rightarrow> td_generation d | None \<Rightarrow> 0), td_hashes = hashes,
                td_anchors = snapshot_line_anchors sha ls, used_words = [], used_words_set = {},
                anchor_namespace = None, next_anchor_id = 0, retired_anchors = []\<rparr>
      else (case expected of
              Some d \<Rightarrow> if td_hashes d \<noteq> hashes \<or> length (td_anchors d) \<noteq> length ls
                        then Inl (StaleGeneration path) else Inr d
            | None \<Rightarrow> first_document fresh hashes))"

definition snapshot_of ::
    "(8 word list \<Rightarrow> ustr) \<Rightarrow> ustr \<Rightarrow> ustr \<Rightarrow> ustr \<Rightarrow> tracked_document option \<Rightarrow> tracked_document option
       \<Rightarrow> tracked_document \<Rightarrow> anchor_snapshot" where
  "snapshot_of sha path task raw_content memory_expected expected doc =
     (let normalized = fst (normalize_file_content raw_content); ls = split_content_lines normalized in
      \<lparr>sn_absolute_path = path, sn_task_id = task, sn_generation = td_generation doc,
       sn_raw_digest = content_digest sha raw_content, sn_normalized_digest = content_digest sha normalized,
       sn_lines = ls, sn_anchors = td_anchors doc, sn_snapshot_mode = MAX_TRACKED_LINES < length ls,
       sn_expected = expected, sn_memory_expected = memory_expected, sn_document = doc\<rparr>)"

definition observe_content ::
    "(8 word list \<Rightarrow> ustr) \<Rightarrow> ustr \<Rightarrow> ustr \<Rightarrow> ustr \<Rightarrow> ustr \<Rightarrow> tracked_document option \<Rightarrow> tracked_document option
       \<Rightarrow> anchor_transition_error + anchor_snapshot" where
  "observe_content sha fresh path task raw_content memory_expected expected =
     (let ls = split_content_lines (fst (normalize_file_content raw_content)) in
      case observe_document sha fresh path ls memory_expected expected of
        Inl e \<Rightarrow> Inl e
      | Inr doc \<Rightarrow> Inr (snapshot_of sha path task raw_content memory_expected expected doc))"

section \<open>Staging a transition\<close>

datatype line_provenance = Preserved nat | Created ustr

record anchor_transition =
  tr_absolute_path :: ustr
  tr_task_id :: ustr
  tr_generation :: "64 word"
  tr_raw_digest :: ustr
  tr_normalized_digest :: ustr
  tr_anchors :: "ustr list"
  expected_generation :: "64 word option"
  input_raw_digest :: ustr
  output_raw_digest :: ustr
  input_normalized_digest :: ustr
  output_normalized_digest :: ustr
  output_lines :: "ustr list"
  tr_provenance :: "line_provenance list"
  retired_identities :: "ustr list"
  tr_edit_ranges :: "applied_edit list"
  is_noop :: bool
  tr_expected :: "tracked_document option"
  tr_memory_expected :: "tracked_document option"
  tr_document :: tracked_document
  tr_snapshot_mode :: bool

definition msg_line_count :: ustr where "msg_line_count = str ''provenance line count differs from content''"
definition msg_reordered :: ustr where "msg_reordered = str ''invalid or reordered preserved line origin''"
definition msg_generation :: ustr where "msg_generation = str ''generation exhausted''"

text \<open>An origin is valid when its line is unchanged and it comes after the previous one.\<close>

definition valid_origin :: "ustr list \<Rightarrow> nat option \<Rightarrow> nat \<Rightarrow> ustr \<Rightarrow> bool" where
  "valid_origin old_lines previous p line \<longleftrightarrow>
     p < length old_lines \<and> old_lines ! p = line \<and> (case previous of Some q \<Rightarrow> q < p | None \<Rightarrow> True)"

text \<open>The identity of one line: a snapshot anchor in a large file, the preserved one where the origin
  proves it, a new one otherwise.\<close>

definition line_word ::
    "ustr \<Rightarrow> anchor_snapshot \<Rightarrow> ustr option \<Rightarrow> nat option \<Rightarrow> tracked_document
       \<Rightarrow> (anchor_transition_error + (tracked_document \<times> ustr)) option" where
  "line_word fresh snap snapshot_anchor origin doc =
     (case snapshot_anchor of
        Some a \<Rightarrow> Some (Inr (doc, a))
      | None \<Rightarrow>
          (case (if sn_snapshot_mode snap then None else origin) of
             Some p \<Rightarrow> if p < length (td_anchors (sn_document snap))
                       then Some (Inr (doc, td_anchors (sn_document snap) ! p)) else None
           | None \<Rightarrow> Some (allocate_identity fresh (sn_snapshot_mode snap) doc)))"

fun stage_lines ::
    "ustr \<Rightarrow> anchor_snapshot \<Rightarrow> (ustr \<times> nat option \<times> ustr option) list \<Rightarrow> nat option \<Rightarrow> tracked_document
       \<Rightarrow> (anchor_transition_error + tracked_document) option" where
  "stage_lines fresh snap [] previous doc = Some (Inr doc)"
| "stage_lines fresh snap ((line, origin, snapshot_anchor) # rest) previous doc =
     (if (case origin of Some p \<Rightarrow> \<not> valid_origin (sn_lines snap) previous p line | None \<Rightarrow> False)
      then Some (Inl (Validation msg_reordered))
      else
        (case line_word fresh snap snapshot_anchor origin doc of
           None \<Rightarrow> None
         | Some (Inl e) \<Rightarrow> Some (Inl e)
         | Some (Inr (doc', word)) \<Rightarrow>
             stage_lines fresh snap rest (case origin of Some p \<Rightarrow> Some p | None \<Rightarrow> previous) (push_anchor word doc')))"

fun retire :: "ustr list \<Rightarrow> ustr list \<Rightarrow> ustr list" where
  "retire retired [] = retired"
| "retire retired (w # ws) = retire (if w \<in> set retired then retired else retired @ [w]) ws"

text \<open>Bump the generation of a changed document; \<open>checked_add\<close> fails at the largest \<open>u64\<close>.\<close>

definition bump_generation :: "tracked_document \<Rightarrow> tracked_document \<Rightarrow> anchor_transition_error + tracked_document" where
  "bump_generation old doc =
     (if doc = old then Inr doc
      else if td_generation doc = - 1 then Inl (Validation msg_generation)
      else Inr (doc\<lparr>td_generation := td_generation doc + 1\<rparr>))"

definition line_provenance_of :: "bool \<Rightarrow> ustr \<Rightarrow> nat option \<Rightarrow> line_provenance" where
  "line_provenance_of tracked word origin =
     (case (if tracked then origin else None) of Some p \<Rightarrow> Preserved p | None \<Rightarrow> Created word)"

text \<open>The transition built from the staged document.\<close>

definition build_transition ::
    "(8 word list \<Rightarrow> ustr) \<Rightarrow> anchor_snapshot \<Rightarrow> ustr \<Rightarrow> splice_provenance \<Rightarrow> tracked_document \<Rightarrow> anchor_transition" where
  "build_transition sha snap final_content prov staged =
     (let normalized = fst (normalize_file_content final_content);
          ls = split_content_lines normalized;
          large = MAX_TRACKED_LINES < length ls;
          gone = filter (\<lambda>w. w \<notin> set (td_anchors staged)) (sn_anchors snap);
          doc = staged\<lparr>retired_anchors := keep_recent (retire (retired_anchors staged) gone)\<rparr>;
          digest = content_digest sha final_content
      in \<lparr>tr_absolute_path = sn_absolute_path snap, tr_task_id = sn_task_id snap,
          tr_generation = td_generation doc, tr_raw_digest = digest,
          tr_normalized_digest = content_digest sha normalized, tr_anchors = td_anchors doc,
          expected_generation = map_option td_generation (sn_expected snap),
          input_raw_digest = sn_raw_digest snap, output_raw_digest = digest,
          input_normalized_digest = sn_normalized_digest snap,
          output_normalized_digest = content_digest sha normalized, output_lines = ls,
          tr_provenance = map2 (line_provenance_of (\<not> sn_snapshot_mode snap \<and> \<not> large)) (td_anchors doc) (origins prov),
          retired_identities = gone, tr_edit_ranges = edit_ranges prov,
          is_noop = (sn_raw_digest snap = digest \<and> sn_document snap = doc),
          tr_expected = sn_expected snap, tr_memory_expected = sn_memory_expected snap,
          tr_document = doc, tr_snapshot_mode = large\<rparr>)"

definition stage_transition ::
    "(8 word list \<Rightarrow> ustr) \<Rightarrow> ustr \<Rightarrow> anchor_snapshot \<Rightarrow> ustr \<Rightarrow> splice_provenance
       \<Rightarrow> (anchor_transition_error + anchor_transition) option" where
  "stage_transition sha fresh snap final_content prov =
     (let ls = split_content_lines (fst (normalize_file_content final_content)) in
      if length ls \<noteq> length (origins prov) then Some (Inl (Validation msg_line_count))
      else
        (let start = (migrate_allocator_state fresh (sn_document snap) (sn_anchors snap))
                       \<lparr>td_hashes := compute_hashes ls, td_anchors := []\<rparr>;
             snap_anchors = (if MAX_TRACKED_LINES < length ls then map Some (snapshot_line_anchors sha ls)
                             else replicate (length ls) None)
         in case stage_lines fresh snap (zip ls (zip (origins prov) snap_anchors)) None start of
              None \<Rightarrow> None
            | Some (Inl e) \<Rightarrow> Some (Inl e)
            | Some (Inr doc) \<Rightarrow>
                (case bump_generation (sn_document snap) doc of
                   Inl e \<Rightarrow> Some (Inl e)
                 | Inr doc' \<Rightarrow> Some (Inr (build_transition sha snap final_content prov doc')))))"

section \<open>Reconciliation by a diff\<close>

text \<open>The operations of \<open>similar::capture_diff_slices\<close>, with the lengths the source reads, and the
  runs \<open>diff_arrays\<close> makes of them.\<close>

datatype diff_op = Equal nat | Delete nat | Insert nat | Replace nat nat

datatype diff_change = Added nat | Removed nat | Unchanged nat

fun changes_of :: "diff_op \<Rightarrow> diff_change list" where
  "changes_of (Equal n) = [Unchanged n]"
| "changes_of (Delete n) = [Removed n]"
| "changes_of (Insert n) = [Added n]"
| "changes_of (Replace m n) = [Removed m, Added n]"

definition diff_arrays :: "(64 word list \<Rightarrow> 64 word list \<Rightarrow> diff_op list) \<Rightarrow> 64 word list \<Rightarrow> 64 word list \<Rightarrow> diff_change list" where
  "diff_arrays diff old new = concat (map changes_of (diff old new))"

text \<open>\<open>Unchanged n\<close>: a line keeps its identity unless its content occurs twice in either revision of a
  changed file. The index into the old document is checked by the source's indexing.\<close>

fun keep_lines ::
    "ustr \<Rightarrow> bool \<Rightarrow> tracked_document \<Rightarrow> 64 word list \<Rightarrow> nat \<Rightarrow> nat \<Rightarrow> tracked_document
       \<Rightarrow> (anchor_transition_error + tracked_document) option" where
  "keep_lines fresh changed old new_hashes old_idx 0 doc = Some (Inr doc)"
| "keep_lines fresh changed old new_hashes old_idx (Suc n) doc =
     (if length (td_hashes old) \<le> old_idx then None
      else
        (let h = td_hashes old ! old_idx in
         if changed \<and> (1 < count_list (td_hashes old) h \<or> 1 < count_list new_hashes h)
         then (case allocate_identity fresh False doc of
                 Inl e \<Rightarrow> Some (Inl e)
               | Inr (doc', word) \<Rightarrow> keep_lines fresh changed old new_hashes (Suc old_idx) n (push_anchor word doc'))
         else if length (td_anchors old) \<le> old_idx then None
         else keep_lines fresh changed old new_hashes (Suc old_idx) n (push_anchor (td_anchors old ! old_idx) doc)))"

fun apply_changes ::
    "ustr \<Rightarrow> bool \<Rightarrow> tracked_document \<Rightarrow> 64 word list \<Rightarrow> nat \<Rightarrow> diff_change list \<Rightarrow> tracked_document
       \<Rightarrow> (anchor_transition_error + tracked_document) option" where
  "apply_changes fresh changed old new_hashes old_idx [] doc = Some (Inr doc)"
| "apply_changes fresh changed old new_hashes old_idx (Added n # cs) doc =
     (case allocate_lines fresh False n doc of
        Inl e \<Rightarrow> Some (Inl e)
      | Inr doc' \<Rightarrow> apply_changes fresh changed old new_hashes old_idx cs doc')"
| "apply_changes fresh changed old new_hashes old_idx (Removed n # cs) doc =
     apply_changes fresh changed old new_hashes (old_idx + n) cs doc"
| "apply_changes fresh changed old new_hashes old_idx (Unchanged n # cs) doc =
     (case keep_lines fresh changed old new_hashes old_idx n doc of
        None \<Rightarrow> None
      | Some (Inl e) \<Rightarrow> Some (Inl e)
      | Some (Inr doc') \<Rightarrow> apply_changes fresh changed old new_hashes (old_idx + n) cs doc')"

definition saturating_succ :: "64 word \<Rightarrow> 64 word" where
  "saturating_succ w = (if w = - 1 then - 1 else w + 1)"

text \<open>The new document of a tracked file whose lines changed.\<close>

definition reconcile_document ::
    "(64 word list \<Rightarrow> 64 word list \<Rightarrow> diff_op list) \<Rightarrow> ustr \<Rightarrow> tracked_document \<Rightarrow> 64 word list
       \<Rightarrow> (anchor_transition_error + tracked_document) option" where
  "reconcile_document diff fresh tracked new_hashes =
     (let old = migrate_allocator_state fresh tracked (td_anchors tracked);
          changed = (td_hashes old \<noteq> new_hashes) in
      case apply_changes fresh changed old new_hashes 0 (diff_arrays diff (td_hashes old) new_hashes)
             (old\<lparr>td_anchors := []\<rparr>) of
        None \<Rightarrow> None
      | Some (Inl e) \<Rightarrow> Some (Inl e)
      | Some (Inr doc) \<Rightarrow>
          Some (Inr (doc\<lparr>retired_anchors := keep_recent (retire (retired_anchors doc)
                             (filter (\<lambda>w. w \<notin> set (td_anchors doc)) (td_anchors tracked))),
                         td_generation := saturating_succ (td_generation old),
                         td_hashes := new_hashes\<rparr>)))"

section \<open>Identities are unique\<close>

lemma base36_digit_inj: "a < 36 \<Longrightarrow> b < 36 \<Longrightarrow> base36_digit a = base36_digit b \<Longrightarrow> a = b"
  by (auto simp: base36_digit_def split: if_splits)

lemma digits36_inj: "digits36 m = digits36 n \<Longrightarrow> m = n"
proof (induction m arbitrary: n rule: digits36.induct)
  case (1 m)
  show ?case
  proof (cases "m = 0 \<or> n = 0")
    case True
    then show ?thesis using "1.prems" by (auto simp: digits36.simps[of m] digits36.simps[of n] split: if_splits)
  next
    case False
    then have "base36_digit (m mod 36) = base36_digit (n mod 36)" "digits36 (m div 36) = digits36 (n div 36)"
      using "1.prems" by (simp_all add: digits36.simps[of m] digits36.simps[of n])
    then have "m mod 36 = n mod 36" "m div 36 = n div 36"
      using False "1.IH" base36_digit_inj[of "m mod 36" "n mod 36"] by auto
    then show ?thesis by (metis mult_div_mod_eq)
  qed
qed

lemma digits36_last: "0 < n \<Longrightarrow> last (digits36 n) \<noteq> 48"
proof (induction n rule: digits36.induct)
  case (1 n)
  show ?case
  proof (cases "n < 36")
    case True
    then show ?thesis using "1.prems" by (simp add: digits36.simps[of n] digits36.simps[of 0] base36_digit_def)
  next
    case False
    then have "0 < n div 36" by (simp add: div_greater_zero_iff)
    then have "digits36 (n div 36) \<noteq> []" by (simp add: digits36.simps[of "n div 36"])
    then show ?thesis using "1.IH" "1.prems" \<open>0 < n div 36\<close> by (simp add: digits36.simps[of n])
  qed
qed

lemma encode_base36_inj: "encode_base36 v = encode_base36 w \<Longrightarrow> v = w"
proof -
  assume eq: "encode_base36 v = encode_base36 w"
  have z: "rev (digits36 (unat u)) \<noteq> str ''0''" if "u \<noteq> 0" for u :: "64 word"
  proof
    assume "rev (digits36 (unat u)) = str ''0''"
    then have "digits36 (unat u) = [48]" by (simp add: str_def)
    moreover have "0 < unat u" using that by (simp add: unat_gt_0)
    ultimately show False using digits36_last[of "unat u"] by simp
  qed
  show "v = w"
  proof (cases "v = 0 \<or> w = 0")
    case True
    then show ?thesis using eq z[of v] z[of w] by (auto simp: encode_base36_def split: if_splits)
  next
    case False
    then have "unat v = unat w" using eq by (auto simp: encode_base36_def dest: digits36_inj)
    then show ?thesis by (simp add: word_unat_eq_iff)
  qed
qed

lemma identity_inj: "identity ns v = identity ns w \<longleftrightarrow> v = w"
  by (auto simp: identity_def dest: encode_base36_inj)

text \<open>Every identity of the namespace among \<open>W\<close> was minted before the counter reached \<open>k\<close>.\<close>

definition older :: "ustr \<Rightarrow> 64 word \<Rightarrow> ustr set \<Rightarrow> bool" where
  "older ns k W \<longleftrightarrow> (\<forall>w \<in> W. \<forall>j. w = identity ns j \<longrightarrow> unat j < unat k)"

lemma older_Un [simp]: "older ns k (A \<union> B) \<longleftrightarrow> older ns k A \<and> older ns k B"
  by (auto simp: older_def)

lemma older_mono: "older ns k W \<Longrightarrow> V \<subseteq> W \<Longrightarrow> older ns k V"
  by (auto simp: older_def)

lemma older_empty [simp]: "older ns k {}"
  by (simp add: older_def)

lemma older_next: "older ns k W \<Longrightarrow> identity ns k \<notin> W"
  by (auto simp: older_def)

lemma older_step: "older ns k W \<Longrightarrow> k \<noteq> - 1 \<Longrightarrow> older ns (k + 1) (insert (identity ns k) W)"
  by (auto simp: older_def identity_inj unat_succ)

text \<open>With that invariant allocation mints the next identity at once, and it is new.\<close>

lemma allocate_identity_new:
  assumes "anchor_namespace doc = Some ns" and "next_anchor_id doc \<noteq> - 1"
    and "older ns (next_anchor_id doc) W" and "set (td_anchors doc) \<union> set (retired_anchors doc) \<subseteq> W"
  shows "allocate_identity fresh skip doc
      = Inr (doc\<lparr>next_anchor_id := next_anchor_id doc + 1\<rparr>, identity ns (next_anchor_id doc))"
  using assms older_next[OF assms(3)]
  by (subst allocate_identity_def, subst allocate_loop.simps) (auto simp: Let_def)

lemma allocate_identity_exhausted:
  assumes "anchor_namespace doc = Some ns" and "next_anchor_id doc = - 1"
  shows "allocate_identity fresh skip doc = Inl (Validation msg_exhausted)"
  using assms by (subst allocate_identity_def, subst allocate_loop.simps) (simp add: Let_def)

text \<open>Without a scan the identity is the next one whatever the document holds.\<close>

lemma allocate_identity_skip:
  assumes "anchor_namespace doc = Some ns" and "next_anchor_id doc \<noteq> - 1"
  shows "allocate_identity fresh True doc
      = Inr (doc\<lparr>next_anchor_id := next_anchor_id doc + 1\<rparr>, identity ns (next_anchor_id doc))"
  using assms by (subst allocate_identity_def, subst allocate_loop.simps) (simp add: Let_def)

section \<open>Well-formed documents\<close>

definition wf_document :: "tracked_document \<Rightarrow> bool" where
  "wf_document doc \<longleftrightarrow> length (td_anchors doc) = length (td_hashes doc) \<and> distinct (td_anchors doc)
     \<and> set (td_anchors doc) \<inter> set (retired_anchors doc) = {} \<and> length (retired_anchors doc) \<le> MAX_RETIRED_ANCHORS
     \<and> (\<forall>ns. anchor_namespace doc = Some ns
          \<longrightarrow> older ns (next_anchor_id doc) (set (td_anchors doc) \<union> set (retired_anchors doc)))"

lemma length_keep_recent: "length (keep_recent ws) \<le> MAX_RETIRED_ANCHORS"
  by (simp add: keep_recent_def)

lemma keep_recent_id: "length ws \<le> MAX_RETIRED_ANCHORS \<Longrightarrow> keep_recent ws = ws"
  by (simp add: keep_recent_def)

lemma set_keep_recent: "set (keep_recent ws) \<subseteq> set ws"
  by (simp add: keep_recent_def set_drop_subset)

lemma set_retire [simp]: "set (retire r ws) = set r \<union> set ws"
  by (induction r ws rule: retire.induct) auto

lemma set_seed_retired:
  "set (seed_retired live ws r) \<subseteq> set r \<union> (set ws - live)"
  by (induction live ws r rule: seed_retired.induct) auto

text \<open>A namespace that occurs in none of the words a document holds; the source draws it at random.\<close>

definition unused_namespace :: "ustr \<Rightarrow> tracked_document \<Rightarrow> bool" where
  "unused_namespace fresh doc \<longleftrightarrow>
     (\<forall>w \<in> set (td_anchors doc) \<union> set (retired_anchors doc) \<union> set (used_words doc). \<forall>j. w \<noteq> identity fresh j)"

lemma migrate_simps [simp]:
  "td_anchors (migrate_allocator_state fresh doc live) = td_anchors doc"
  "td_hashes (migrate_allocator_state fresh doc live) = td_hashes doc"
  "td_generation (migrate_allocator_state fresh doc live) = td_generation doc"
  "next_anchor_id (migrate_allocator_state fresh doc live) = next_anchor_id doc"
  "used_words (migrate_allocator_state fresh doc live) = []"
  "used_words_set (migrate_allocator_state fresh doc live) = {}"
  by (auto simp: migrate_allocator_state_def Let_def)

lemma migrate_namespace:
  "anchor_namespace (migrate_allocator_state fresh doc live)
     = Some (case anchor_namespace doc of Some ns \<Rightarrow> ns | None \<Rightarrow> fresh)"
  by (auto simp: migrate_allocator_state_def Let_def split: option.splits)

lemma migrate_retired:
  "set (retired_anchors (migrate_allocator_state fresh doc live))
     \<subseteq> set (retired_anchors doc) \<union> (set (used_words doc) - set live)"
  "length (retired_anchors (migrate_allocator_state fresh doc live)) \<le> MAX_RETIRED_ANCHORS"
proof -
  show "set (retired_anchors (migrate_allocator_state fresh doc live))
     \<subseteq> set (retired_anchors doc) \<union> (set (used_words doc) - set live)"
    using set_seed_retired[of "set live" "rev (used_words doc)" "retired_anchors doc"]
      set_keep_recent[of "retired_anchors doc"]
      set_keep_recent[of "seed_retired (set live) (rev (used_words doc)) (retired_anchors doc)"]
    by (auto simp: migrate_allocator_state_def Let_def)
  show "length (retired_anchors (migrate_allocator_state fresh doc live)) \<le> MAX_RETIRED_ANCHORS"
    by (simp add: migrate_allocator_state_def Let_def length_keep_recent)
qed

text \<open>Migration of a well-formed document, to the one allocation starts from.\<close>

lemma migrate_wf:
  assumes "wf_document doc" and "anchor_namespace doc = None \<longrightarrow> unused_namespace fresh doc"
  shows "wf_document (migrate_allocator_state fresh doc (td_anchors doc))"
proof -
  let ?m = "migrate_allocator_state fresh doc (td_anchors doc)"
  have r: "set (retired_anchors ?m) \<subseteq> set (retired_anchors doc) \<union> (set (used_words doc) - set (td_anchors doc))"
    by (rule migrate_retired)
  have "older ns (next_anchor_id doc) (set (td_anchors doc) \<union> set (retired_anchors ?m))"
    if ns: "anchor_namespace ?m = Some ns" for ns
  proof (cases "anchor_namespace doc")
    case None
    then have "unused_namespace ns doc" using assms(2) ns by (simp add: migrate_namespace)
    then show ?thesis using r unfolding older_def unused_namespace_def by blast
  next
    case (Some m)
    then have "set (retired_anchors ?m) \<subseteq> set (retired_anchors doc)"
      using set_keep_recent by (auto simp: migrate_allocator_state_def Let_def)
    then show ?thesis using assms(1) ns Some unfolding wf_document_def migrate_namespace
      by (auto intro: older_mono)
  qed
  then show ?thesis using assms(1) r migrate_retired(2) unfolding wf_document_def by auto
qed

section \<open>Assignment of identities to lines\<close>

text \<open>
  What staging and reconciliation have in common: a line with an origin takes the old identity there,
  a line without one takes an identity outside everything seen so far.
\<close>

fun assigned :: "'w list \<Rightarrow> 'w set \<Rightarrow> nat option list \<Rightarrow> 'w list \<Rightarrow> bool" where
  "assigned old W [] [] \<longleftrightarrow> True"
| "assigned old W (Some p # os) (w # ws) \<longleftrightarrow> p < length old \<and> w = old ! p \<and> assigned old W os ws"
| "assigned old W (None # os) (w # ws) \<longleftrightarrow> w \<notin> W \<and> assigned old (insert w W) os ws"
| "assigned old W _ _ \<longleftrightarrow> False"

lemma assigned_length: "assigned old W os ws \<Longrightarrow> length ws = length os"
  by (induction old W os ws rule: assigned.induct) auto

lemma assigned_mono: "assigned old W os ws \<Longrightarrow> V \<subseteq> W \<Longrightarrow> assigned old V os ws"
  by (induction old W os ws arbitrary: V rule: assigned.induct) (auto, blast)

lemma assigned_append:
  "assigned old W os ws \<Longrightarrow> assigned old (W \<union> set ws) os' ws' \<Longrightarrow> assigned old W (os @ os') (ws @ ws')"
proof (induction old W os ws rule: assigned.induct)
  case (2 old W p os w ws)
  have "assigned old (W \<union> set ws) os' ws'" using 2(3) by (rule assigned_mono) auto
  then show ?case using 2 by simp
qed auto

lemma assigned_members:
  "assigned old W os ws \<Longrightarrow> w \<in> set ws \<Longrightarrow> w \<in> W \<Longrightarrow> \<exists>p \<in> set (some_values os). p < length old \<and> w = old ! p"
  by (induction old W os ws rule: assigned.induct) auto

lemma assigned_nth:
  "assigned old W os ws \<Longrightarrow> i < length os \<Longrightarrow>
   (case os ! i of Some p \<Rightarrow> p < length old \<and> ws ! i = old ! p | None \<Rightarrow> ws ! i \<notin> W)"
proof (induction old W os ws arbitrary: i rule: assigned.induct)
  case (2 old W p os w ws)
  show ?case
  proof (cases i)
    case (Suc j)
    then show ?thesis using "2.IH"[of j] "2.prems" by (cases "os ! j") simp_all
  qed (use "2.prems" in simp)
next
  case (3 old W os w ws)
  show ?case
  proof (cases i)
    case (Suc j)
    then show ?thesis using "3.IH"[of j] "3.prems" by (cases "os ! j") simp_all
  qed (use "3.prems" in simp)
qed auto

lemma assigned_distinct:
  "assigned old W os ws \<Longrightarrow> distinct old \<Longrightarrow> set old \<subseteq> W \<Longrightarrow> distinct (some_values os) \<Longrightarrow> distinct ws"
proof (induction old W os ws rule: assigned.induct)
  case (2 old W p os w ws)
  have "w \<notin> set ws"
  proof
    assume "w \<in> set ws"
    moreover have "w \<in> W" "assigned old W os ws" using 2 by auto
    ultimately obtain q where "q \<in> set (some_values os)" "q < length old" "w = old ! q"
      using assigned_members[of old W os ws w] by blast
    then show False using 2 by (auto simp: nth_eq_iff_index_eq)
  qed
  then show ?case using 2 by auto
next
  case (3 old W os w ws)
  have "w \<notin> set ws"
    using assigned_members[of old "insert w W" os ws w] 3 by (fastforce dest: nth_mem)
  then show ?case using 3 by auto
qed auto

lemma assigned_disjoint:
  assumes "assigned old W os ws" and "R \<subseteq> W" and "set old \<inter> R = {}"
  shows "set ws \<inter> R = {}"
  using assigned_members[OF assms(1)] assms(2,3) by (fastforce dest: nth_mem)

text \<open>The state of an allocation in progress: \<open>W\<close> holds every identity seen so far.\<close>

definition allocating :: "ustr \<Rightarrow> ustr set \<Rightarrow> tracked_document \<Rightarrow> bool" where
  "allocating ns W doc \<longleftrightarrow> anchor_namespace doc = Some ns \<and> older ns (next_anchor_id doc) W
     \<and> set (td_anchors doc) \<union> set (retired_anchors doc) \<subseteq> W"

definition extended :: "tracked_document \<Rightarrow> ustr list \<Rightarrow> 64 word \<Rightarrow> tracked_document" where
  "extended doc ws k = doc\<lparr>td_anchors := td_anchors doc @ ws, next_anchor_id := k\<rparr>"

lemma extended_simps [simp]:
  "td_anchors (extended doc ws k) = td_anchors doc @ ws"
  "td_hashes (extended doc ws k) = td_hashes doc"
  "td_generation (extended doc ws k) = td_generation doc"
  "retired_anchors (extended doc ws k) = retired_anchors doc"
  "anchor_namespace (extended doc ws k) = anchor_namespace doc"
  "used_words (extended doc ws k) = used_words doc"
  "next_anchor_id (extended doc ws k) = k"
  "extended (extended doc ws k) vs l = extended doc (ws @ vs) l"
  "extended doc [] (next_anchor_id doc) = doc"
  by (simp_all add: extended_def)

lemma push_extended: "push_anchor w (doc\<lparr>next_anchor_id := k\<rparr>) = extended doc [w] k"
  "push_anchor w doc = extended doc [w] (next_anchor_id doc)"
  by (simp_all add: push_anchor_def extended_def)

lemma allocating_keep: "allocating ns W doc \<Longrightarrow> w \<in> W \<Longrightarrow> allocating ns W (push_anchor w doc)"
  by (auto simp: allocating_def push_anchor_def)

lemma allocating_mint:
  assumes "allocating ns W doc" and "allocate_identity fresh skip doc = Inr (doc', w)"
  shows "w \<notin> W" and "push_anchor w doc' = extended doc [w] (next_anchor_id doc + 1)"
    and "allocating ns (insert w W) (push_anchor w doc')"
proof -
  have inv: "anchor_namespace doc = Some ns" "older ns (next_anchor_id doc) W"
     "set (td_anchors doc) \<union> set (retired_anchors doc) \<subseteq> W"
    using assms(1) by (auto simp: allocating_def)
  have k: "next_anchor_id doc \<noteq> - 1"
    using assms(2) allocate_identity_exhausted[OF inv(1)] by auto
  have eq: "doc' = doc\<lparr>next_anchor_id := next_anchor_id doc + 1\<rparr>" "w = identity ns (next_anchor_id doc)"
    using assms(2) allocate_identity_new[OF inv(1) k inv(2,3), of fresh skip] by auto
  show "w \<notin> W" using older_next[OF inv(2)] eq by simp
  show "push_anchor w doc' = extended doc [w] (next_anchor_id doc + 1)" by (simp add: eq push_anchor_def extended_def)
  show "allocating ns (insert w W) (push_anchor w doc')"
    using inv older_step[OF inv(2) k] by (auto simp: allocating_def push_anchor_def eq)
qed

text \<open>
  What staging and reconciliation rely on: minting gives an identity outside everything seen, and
  pushing an identity only lengthens the document's list.
\<close>

locale identity_supply =
  fixes tracking :: "'w set \<Rightarrow> 'd \<Rightarrow> bool"
    and alloc :: "'d \<Rightarrow> 'e + ('d \<times> 'w)"
    and push :: "'w \<Rightarrow> 'd \<Rightarrow> 'd"
    and live :: "'d \<Rightarrow> 'w list"
  assumes mint: "tracking W d \<Longrightarrow> alloc d = Inr (d', w) \<Longrightarrow>
      w \<notin> W \<and> tracking (insert w W) (push w d') \<and> live (push w d') = live d @ [w]"
    and keep: "tracking W d \<Longrightarrow> w \<in> W \<Longrightarrow> tracking W (push w d) \<and> live (push w d) = live d @ [w]"
begin

lemma mint_lines_assigned:
  "mint_lines alloc push n d = Inr d' \<Longrightarrow> tracking W d \<Longrightarrow>
   \<exists>ws. live d' = live d @ ws \<and> assigned old W (replicate n None) ws \<and> tracking (W \<union> set ws) d'"
proof (induction n arbitrary: d W)
  case 0
  then show ?case by (intro exI[of _ "[]"]) auto
next
  case (Suc n)
  obtain c w where a: "alloc d = Inr (c, w)" and r: "mint_lines alloc push n (push w c) = Inr d'"
    using Suc.prems(1) by (auto split: sum.splits)
  note m = mint[OF Suc.prems(2) a]
  then have tr: "tracking (insert w W) (push w c)" by blast
  obtain ws where "live d' = live (push w c) @ ws" "assigned old (insert w W) (replicate n None) ws"
    "tracking (insert w W \<union> set ws) d'"
    using Suc.IH[OF r tr] by blast
  then show ?case using m by (intro exI[of _ "w # ws"]) auto
qed

end

lemma allocating_supply:
  "identity_supply (allocating ns) (allocate_identity fresh skip) push_anchor td_anchors"
proof
  fix W d d' w
  assume "allocating ns W d" "allocate_identity fresh skip d = Inr (d', w)"
  then show "w \<notin> W \<and> allocating ns (insert w W) (push_anchor w d') \<and> td_anchors (push_anchor w d') = td_anchors d @ [w]"
    using allocating_mint by fastforce
next
  fix W d w
  assume "allocating ns W d" "w \<in> W"
  then show "allocating ns W (push_anchor w d) \<and> td_anchors (push_anchor w d) = td_anchors d @ [w]"
    using allocating_keep by (simp add: push_anchor_def)
qed

interpretation minter: identity_supply "allocating ns" "allocate_identity fresh skip" push_anchor td_anchors
  for ns fresh skip
  by (rule allocating_supply)

text \<open>Minting touches nothing but the anchors and the counter.\<close>

lemma allocate_loop_result: "allocate_loop skip doc = Inr (doc', w) \<Longrightarrow> \<exists>k. doc' = doc\<lparr>next_anchor_id := k\<rparr>"
proof (induction skip doc rule: allocate_loop.induct)
  case (1 skip doc)
  let ?c = "next_anchor_id doc"
  let ?d = "doc\<lparr>next_anchor_id := ?c + 1\<rparr>"
  let ?w = "identity (case anchor_namespace doc of Some ns \<Rightarrow> ns | None \<Rightarrow> []) ?c"
  have c: "?c \<noteq> - 1" using "1.prems" by (subst (asm) allocate_loop.simps) (auto simp: Let_def)
  show ?case
  proof (cases "skip \<or> (?w \<notin> set (td_anchors doc) \<and> ?w \<notin> set (retired_anchors doc))")
    case True
    then have "doc' = ?d" using "1.prems" c by (subst (asm) allocate_loop.simps) (simp add: Let_def)
    then show ?thesis by blast
  next
    case False
    then have "allocate_loop skip ?d = Inr (doc', w)"
      using "1.prems" c by (subst (asm) allocate_loop.simps) (auto simp: Let_def split: if_splits)
    then have "\<exists>k. doc' = ?d\<lparr>next_anchor_id := k\<rparr>" using "1.IH"[OF refl c refl refl False] by blast
    then show ?thesis by auto
  qed
qed

lemma allocate_identity_extends:
  assumes "allocate_identity fresh skip doc = Inr (doc', w)" and "anchor_namespace doc = Some ns"
  shows "\<exists>k. push_anchor w doc' = extended doc [w] k"
proof -
  have "allocate_loop skip doc = Inr (doc', w)" using assms by (simp add: allocate_identity_def)
  then obtain k where "doc' = doc\<lparr>next_anchor_id := k\<rparr>" using allocate_loop_result by blast
  then show ?thesis by (intro exI[of _ k]) (simp add: push_anchor_def extended_def)
qed

lemma allocate_lines_extends:
  "mint_lines (allocate_identity fresh skip) push_anchor n doc = Inr doc' \<Longrightarrow> anchor_namespace doc = Some ns \<Longrightarrow>
   \<exists>ws k. doc' = extended doc ws k"
proof (induction n arbitrary: doc)
  case 0
  then show ?case by (intro exI[of _ "[]"] exI[of _ "next_anchor_id doc"]) auto
next
  case (Suc n)
  obtain c w where a: "allocate_identity fresh skip doc = Inr (c, w)"
    and r: "mint_lines (allocate_identity fresh skip) push_anchor n (push_anchor w c) = Inr doc'"
    using Suc.prems(1) by (auto split: sum.splits)
  obtain k where "push_anchor w c = extended doc [w] k"
    using allocate_identity_extends[OF a Suc.prems(2)] by blast
  then show ?case using Suc.IH[OF r] Suc.prems(2) by force
qed

lemma allocate_lines_assigned:
  assumes "allocate_lines fresh skip n doc = Inr doc'" and "allocating ns W doc"
  shows "\<exists>ws k. doc' = extended doc ws k \<and> assigned old W (replicate n None) ws \<and> allocating ns (W \<union> set ws) doc'"
proof -
  have ml: "mint_lines (allocate_identity fresh skip) push_anchor n doc = Inr doc'"
    using assms(1) by (simp add: allocate_lines_def)
  obtain ws where "td_anchors doc' = td_anchors doc @ ws" "assigned old W (replicate n None) ws"
    "allocating ns (W \<union> set ws) doc'"
    using minter.mint_lines_assigned[OF ml assms(2)] by blast
  moreover obtain vs k where "doc' = extended doc vs k"
    using allocate_lines_extends[OF ml] assms(2) by (auto simp: allocating_def)
  ultimately show ?thesis by auto
qed

section \<open>Staging\<close>

text \<open>The origins that keep an identity: none when the snapshot was a large file.\<close>

definition kept_origins :: "bool \<Rightarrow> nat option list \<Rightarrow> nat option list" where
  "kept_origins large os = (if large then map (\<lambda>_. None) os else os)"

lemma kept_origins_simps [simp]:
  "kept_origins large [] = []"
  "kept_origins large (q # os) = (if large then None else q) # kept_origins large os"
  "kept_origins False os = os"
  "length (kept_origins large os) = length os"
  by (simp_all add: kept_origins_def)

abbreviation untracked :: "ustr list \<Rightarrow> nat option list \<Rightarrow> (ustr \<times> nat option \<times> ustr option) list" where
  "untracked ls os \<equiv> zip ls (zip os (replicate (length ls) None))"

text \<open>Origins in order from some line on.\<close>

fun ascending :: "ustr list \<Rightarrow> nat option \<Rightarrow> ustr list \<Rightarrow> nat option list \<Rightarrow> bool" where
  "ascending old previous [] [] \<longleftrightarrow> True"
| "ascending old previous (l # ls) (None # os) \<longleftrightarrow> ascending old previous ls os"
| "ascending old previous (l # ls) (Some p # os) \<longleftrightarrow> valid_origin old previous p l \<and> ascending old (Some p) ls os"
| "ascending old previous _ _ \<longleftrightarrow> False"

lemma ascending_after:
  "ascending old (Some q) ls os \<Longrightarrow> p \<in> set (some_values os) \<Longrightarrow> q < p"
  by (induction old "Some q" ls os arbitrary: q rule: ascending.induct) (fastforce simp: valid_origin_def)+

lemma ascending_sorted: "ascending old previous ls os \<Longrightarrow> sorted_wrt (<) (some_values os)"
  by (induction old previous ls os rule: ascending.induct) (auto dest: ascending_after)

lemma ascending_distinct: "ascending old previous ls os \<Longrightarrow> distinct (some_values os)"
  using ascending_sorted strict_sorted_iff by blast

text \<open>A run of the staging loop that returns, and one that must return.\<close>

lemma stage_lines_assigned:
  assumes "stage_lines fresh snap (untracked ls os) previous doc = Some (Inr doc')" and "length os = length ls"
    and "allocating ns W doc" and "set (td_anchors (sn_document snap)) \<subseteq> W"
  shows "ascending (sn_lines snap) previous ls os \<and> (\<exists>ws k. doc' = extended doc ws k \<and> allocating ns (W \<union> set ws) doc'
    \<and> assigned (td_anchors (sn_document snap)) W (kept_origins (sn_snapshot_mode snap) os) ws)"
  using assms
proof (induction ls arbitrary: os previous doc W)
  case Nil
  then show ?case by (intro conjI exI[of _ "[]"] exI[of _ "next_anchor_id doc"]) auto
next
  case (Cons l ls)
  let ?old = "td_anchors (sn_document snap)"
  obtain q os' where os: "os = q # os'" using Cons.prems(2) by (cases os) auto
  have valid: "\<not> (case q of Some p \<Rightarrow> \<not> valid_origin (sn_lines snap) previous p l | None \<Rightarrow> False)"
    using Cons.prems(1) by (auto simp: os split: if_splits)
  obtain d w where lw: "line_word fresh snap None q doc = Some (Inr (d, w))"
    and rest: "stage_lines fresh snap (untracked ls os') (case q of Some p \<Rightarrow> Some p | None \<Rightarrow> previous) (push_anchor w d)
        = Some (Inr doc')"
    using Cons.prems(1) valid by (auto simp: os split: if_splits option.splits sum.splits)
  have len: "length os' = length ls" using Cons.prems(2) os by simp
  show ?case
  proof (cases "if sn_snapshot_mode snap then None else q")
    case None
    then have al: "allocate_identity fresh (sn_snapshot_mode snap) doc = Inr (d, w)"
      using lw by (simp add: line_word_def)
    note m = allocating_mint[OF Cons.prems(3) al]
    obtain ws k where w: "ascending (sn_lines snap) (case q of Some p \<Rightarrow> Some p | None \<Rightarrow> previous) ls os'"
      "doc' = extended (push_anchor w d) ws k" "allocating ns (insert w W \<union> set ws) doc'"
      "assigned ?old (insert w W) (kept_origins (sn_snapshot_mode snap) os') ws"
      using Cons.IH[OF rest len m(3)] Cons.prems(4) by blast
    then show ?thesis using m valid None
      by (intro conjI exI[of _ "w # ws"] exI[of _ k]) (auto simp: os split: option.splits if_splits)
  next
    case (Some p)
    then have q: "q = Some p" "\<not> sn_snapshot_mode snap" by (auto split: if_splits)
    then have dw: "d = doc" "p < length ?old" "w = ?old ! p" using lw by (auto simp: line_word_def split: if_splits)
    then have "w \<in> W" using Cons.prems(4) by (auto dest: nth_mem)
    then have al: "allocating ns W (push_anchor w d)" using allocating_keep[OF Cons.prems(3)] dw by simp
    obtain ws k where w: "ascending (sn_lines snap) (Some p) ls os'"
      "doc' = extended (push_anchor w d) ws k" "allocating ns (W \<union> set ws) doc'"
      "assigned ?old W (kept_origins (sn_snapshot_mode snap) os') ws"
      using Cons.IH[OF rest len al Cons.prems(4)] q by auto
    then show ?thesis using q valid dw \<open>w \<in> W\<close>
      by (intro conjI exI[of _ "w # ws"] exI[of _ k]) (auto simp: os push_extended insert_absorb)
  qed
qed

lemma unat_room: "unat (w :: 64 word) + Suc n < 2 ^ 64 \<Longrightarrow> w \<noteq> - 1"
  by (auto simp: unsigned_minus_1_eq_mask mask_eq_exp_minus_1)

lemma stage_lines_accepts:
  assumes "ascending (sn_lines snap) previous ls os" and "allocating ns W doc"
    and "set (td_anchors (sn_document snap)) \<subseteq> W"
    and "length (td_anchors (sn_document snap)) = length (sn_lines snap)"
    and "unat (next_anchor_id doc) + length ls < 2 ^ 64"
  shows "\<exists>doc'. stage_lines fresh snap (untracked ls os) previous doc = Some (Inr doc')"
  using assms
proof (induction "sn_lines snap" previous ls os arbitrary: doc W rule: ascending.induct)
  case (2 previous l ls os)
  have "next_anchor_id doc \<noteq> - 1" using 2(6) unat_room[of "next_anchor_id doc" "length ls"] by simp
  then obtain d w where a: "allocate_identity fresh (sn_snapshot_mode snap) doc = Inr (d, w)"
    using allocate_identity_new[of doc ns W fresh "sn_snapshot_mode snap"] 2(3) by (auto simp: allocating_def)
  note m = allocating_mint[OF 2(3) a]
  have "unat (next_anchor_id (push_anchor w d)) + length ls < 2 ^ 64"
    using 2(6) \<open>next_anchor_id doc \<noteq> - 1\<close> by (simp add: m(2) unat_succ)
  then show ?case
    using 2(1)[OF _ m(3)] 2(2,4,5) by (fastforce simp: line_word_def a)
next
  case (3 previous l ls p os)
  let ?old = "td_anchors (sn_document snap)"
  have p: "valid_origin (sn_lines snap) previous p l" "p < length ?old"
    using 3(2,5) by (auto simp: valid_origin_def)
  show ?case
  proof (cases "sn_snapshot_mode snap")
    case False
    have al: "allocating ns W (push_anchor (?old ! p) doc)"
      using allocating_keep[OF 3(3)] p(2) 3(4) by (auto dest: nth_mem)
    show ?thesis using 3(1)[OF _ al] 3(2,4,5,6) p False by (auto simp: line_word_def push_anchor_def)
  next
    case True
    have "next_anchor_id doc \<noteq> - 1" using 3(6) unat_room[of "next_anchor_id doc" "length ls"] by simp
    then obtain d w where a: "allocate_identity fresh True doc = Inr (d, w)"
      using allocate_identity_new[of doc ns W fresh True] 3(3) by (auto simp: allocating_def)
    note m = allocating_mint[OF 3(3) a]
    have "unat (next_anchor_id (push_anchor w d)) + length ls < 2 ^ 64"
      using 3(6) \<open>next_anchor_id doc \<noteq> - 1\<close> by (simp add: m(2) unat_succ)
    then show ?thesis
      using 3(1)[OF _ m(3)] 3(2,4,5) p True by (fastforce simp: line_word_def a)
  qed
qed simp_all

section \<open>Reconciliation\<close>

text \<open>The documented result of a diff: its operations consume both sequences, and equal runs are equal.\<close>

fun valid_changes :: "64 word list \<Rightarrow> 64 word list \<Rightarrow> diff_change list \<Rightarrow> bool" where
  "valid_changes old new [] \<longleftrightarrow> old = [] \<and> new = []"
| "valid_changes old new (Added n # cs) \<longleftrightarrow> n \<le> length new \<and> valid_changes old (drop n new) cs"
| "valid_changes old new (Removed n # cs) \<longleftrightarrow> n \<le> length old \<and> valid_changes (drop n old) new cs"
| "valid_changes old new (Unchanged n # cs) \<longleftrightarrow>
     n \<le> length old \<and> take n old = take n new \<and> n \<le> length new \<and> valid_changes (drop n old) (drop n new) cs"

text \<open>The old line each new line takes its identity from.\<close>

definition repeats :: "64 word list \<Rightarrow> 64 word list \<Rightarrow> 64 word \<Rightarrow> bool" where
  "repeats old new h \<longleftrightarrow> 1 < count_list old h \<or> 1 < count_list new h"

definition kept_origin :: "bool \<Rightarrow> 64 word list \<Rightarrow> 64 word list \<Rightarrow> nat \<Rightarrow> nat option" where
  "kept_origin changed old new i = (if changed \<and> repeats old new (old ! i) then None else Some i)"

fun change_origins :: "bool \<Rightarrow> 64 word list \<Rightarrow> 64 word list \<Rightarrow> nat \<Rightarrow> diff_change list \<Rightarrow> nat option list" where
  "change_origins changed old new i [] = []"
| "change_origins changed old new i (Added n # cs) = replicate n None @ change_origins changed old new i cs"
| "change_origins changed old new i (Removed n # cs) = change_origins changed old new (i + n) cs"
| "change_origins changed old new i (Unchanged n # cs) =
     map (kept_origin changed old new) [i..<i + n] @ change_origins changed old new (i + n) cs"

lemma keep_lines_assigned:
  "keep_lines fresh changed old new i n doc = Some (Inr doc') \<Longrightarrow> allocating ns W doc \<Longrightarrow>
   set (td_anchors old) \<subseteq> W \<Longrightarrow>
   \<exists>ws k. doc' = extended doc ws k \<and> allocating ns (W \<union> set ws) doc'
     \<and> assigned (td_anchors old) W (map (kept_origin changed (td_hashes old) new) [i..<i + n]) ws"
proof (induction n arbitrary: i doc W)
  case 0
  then show ?case by (intro exI[of _ "[]"] exI[of _ "next_anchor_id doc"]) auto
next
  case (Suc n)
  let ?h = "td_hashes old ! i"
  have up: "[i..<i + Suc n] = i # [Suc i..<Suc i + n]" by (simp add: upt_conv_Cons)
  have bound: "i < length (td_hashes old)" using Suc.prems(1) by (auto split: if_splits)
  show ?case
  proof (cases "changed \<and> repeats (td_hashes old) new ?h")
    case True
    then obtain d w where a: "allocate_identity fresh False doc = Inr (d, w)"
      and r: "keep_lines fresh changed old new (Suc i) n (push_anchor w d) = Some (Inr doc')"
      using Suc.prems(1) bound by (auto simp: Let_def repeats_def split: sum.splits)
    note m = allocating_mint[OF Suc.prems(2) a]
    obtain ws k where "doc' = extended (push_anchor w d) ws k" "allocating ns (insert w W \<union> set ws) doc'"
      "assigned (td_anchors old) (insert w W) (map (kept_origin changed (td_hashes old) new) [Suc i..<Suc i + n]) ws"
      using Suc.IH[OF r m(3)] Suc.prems(3) by blast
    moreover have "kept_origin changed (td_hashes old) new i = None" using True by (simp add: kept_origin_def)
    ultimately show ?thesis using m unfolding up
      by (intro exI[of _ "w # ws"] exI[of _ k]) (simp del: upt_Suc)
  next
    case False
    then have ia: "i < length (td_anchors old)"
      and r: "keep_lines fresh changed old new (Suc i) n (push_anchor (td_anchors old ! i) doc) = Some (Inr doc')"
      using Suc.prems(1) bound by (auto simp: Let_def repeats_def split: if_splits)
    let ?w = "td_anchors old ! i"
    have w: "?w \<in> W" using ia Suc.prems(3) by (auto dest: nth_mem)
    note al = allocating_keep[OF Suc.prems(2) w]
    obtain ws k where "doc' = extended (push_anchor ?w doc) ws k" "allocating ns (W \<union> set ws) doc'"
      "assigned (td_anchors old) W (map (kept_origin changed (td_hashes old) new) [Suc i..<Suc i + n]) ws"
      using Suc.IH[OF r al Suc.prems(3)] by blast
    moreover have "kept_origin changed (td_hashes old) new i = Some i" using False by (simp add: kept_origin_def)
    ultimately show ?thesis using w ia unfolding up
      by (intro exI[of _ "?w # ws"] exI[of _ k]) (simp add: push_extended insert_absorb del: upt_Suc)
  qed
qed

lemma apply_changes_assigned:
  "apply_changes fresh changed old new i cs doc = Some (Inr doc') \<Longrightarrow> allocating ns W doc \<Longrightarrow>
   set (td_anchors old) \<subseteq> W \<Longrightarrow>
   \<exists>ws k. doc' = extended doc ws k \<and> allocating ns (W \<union> set ws) doc'
     \<and> assigned (td_anchors old) W (change_origins changed (td_hashes old) new i cs) ws"
proof (induction cs arbitrary: i doc W)
  case Nil
  then show ?case by (intro exI[of _ "[]"] exI[of _ "next_anchor_id doc"]) auto
next
  case (Cons c cs)
  show ?case
  proof (cases c)
    case (Added n)
    then obtain d where a: "allocate_lines fresh False n doc = Inr d"
      and r: "apply_changes fresh changed old new i cs d = Some (Inr doc')"
      using Cons.prems(1) by (auto split: sum.splits)
    obtain ws k where w: "d = extended doc ws k" "assigned (td_anchors old) W (replicate n None) ws"
      "allocating ns (W \<union> set ws) d"
      using allocate_lines_assigned[OF a Cons.prems(2)] by blast
    obtain vs l where "doc' = extended d vs l" "allocating ns (W \<union> set ws \<union> set vs) doc'"
      "assigned (td_anchors old) (W \<union> set ws) (change_origins changed (td_hashes old) new i cs) vs"
      using Cons.IH[OF r w(3)] Cons.prems(3) by blast
    then show ?thesis using w Added
      by (intro exI[of _ "ws @ vs"] exI[of _ l]) (auto intro: assigned_append simp: Un_assoc)
  next
    case (Removed n)
    then show ?thesis using Cons by simp
  next
    case (Unchanged n)
    then obtain d where a: "keep_lines fresh changed old new i n doc = Some (Inr d)"
      and r: "apply_changes fresh changed old new (i + n) cs d = Some (Inr doc')"
      using Cons.prems(1) by (auto split: sum.splits option.splits)
    obtain ws k where w: "d = extended doc ws k" "allocating ns (W \<union> set ws) d"
      "assigned (td_anchors old) W (map (kept_origin changed (td_hashes old) new) [i..<i + n]) ws"
      using keep_lines_assigned[OF a Cons.prems(2,3)] by blast
    obtain vs l where "doc' = extended d vs l" "allocating ns (W \<union> set ws \<union> set vs) doc'"
      "assigned (td_anchors old) (W \<union> set ws) (change_origins changed (td_hashes old) new (i + n) cs) vs"
      using Cons.IH[OF r w(2)] Cons.prems(3) by blast
    then show ?thesis using w Unchanged
      by (intro exI[of _ "ws @ vs"] exI[of _ l]) (auto intro: assigned_append simp: Un_assoc)
  qed
qed

lemma all2_some_values:
  "list_all2 P hs os \<Longrightarrow> (\<And>h p. P h (Some p) \<Longrightarrow> Q p) \<Longrightarrow> \<forall>p \<in> set (some_values os). Q p"
proof (induction rule: list_all2_induct)
  case (Cons x xs y ys)
  then show ?case by (cases y) auto
qed simp

lemma some_values_kept:
  "some_values (map (kept_origin changed old new) is) = filter (\<lambda>i. \<not> (changed \<and> repeats old new (old ! i))) is"
  by (induction "is") (auto simp: kept_origin_def)

text \<open>The origins of a valid diff: ascending, with equal hashes, and no repeated line among them.\<close>

definition sound_origin :: "bool \<Rightarrow> 64 word list \<Rightarrow> 64 word list \<Rightarrow> nat \<Rightarrow> 64 word \<Rightarrow> nat option \<Rightarrow> bool" where
  "sound_origin changed old new i h q \<longleftrightarrow>
     (\<forall>p. q = Some p \<longrightarrow> i \<le> p \<and> p < length old \<and> old ! p = h \<and> (changed \<longrightarrow> \<not> repeats old new h))"

lemma sound_origins_mono:
  "list_all2 (sound_origin changed old new (i + n)) hs os \<Longrightarrow> list_all2 (sound_origin changed old new i) hs os"
  by (erule list_all2_mono) (auto simp: sound_origin_def)

lemma change_origins_sound:
  "valid_changes (drop i old) rest cs \<Longrightarrow> i \<le> length old \<Longrightarrow>
   list_all2 (sound_origin changed old new i) rest (change_origins changed old new i cs)
   \<and> sorted_wrt (<) (some_values (change_origins changed old new i cs))"
proof (induction cs arbitrary: i rest)
  case Nil
  then show ?case by simp
next
  case (Cons c cs)
  let ?ok = "sound_origin changed old new"
  show ?case
  proof (cases c)
    case (Added n)
    then have v: "n \<le> length rest" "valid_changes (drop i old) (drop n rest) cs" using Cons.prems by auto
    have "list_all2 (?ok i) (take n rest) (replicate n None)"
      using v(1) by (auto simp: list_all2_conv_all_nth sound_origin_def)
    then have "list_all2 (?ok i) (take n rest @ drop n rest) (replicate n None @ change_origins changed old new i cs)"
      using Cons.IH[OF v(2) Cons.prems(2)] by (intro list_all2_appendI) auto
    then show ?thesis using Cons.IH[OF v(2) Cons.prems(2)] Added by simp
  next
    case (Removed n)
    then have v: "n \<le> length old - i" "valid_changes (drop (i + n) old) rest cs"
      using Cons.prems by (auto simp: add.commute)
    then have "i + n \<le> length old" using Cons.prems(2) by linarith
    then show ?thesis using Cons.IH[OF v(2)] sound_origins_mono[of changed old new i n] Removed by simp
  next
    case (Unchanged n)
    then have v: "n \<le> length old - i" "take n (drop i old) = take n rest" "n \<le> length rest"
      "valid_changes (drop (i + n) old) (drop n rest) cs"
      using Cons.prems unfolding Unchanged by (simp_all add: add.commute)
    have i: "i + n \<le> length old" using v(1) Cons.prems(2) by linarith
    let ?head = "map (kept_origin changed old new) [i..<i + n]" and ?tail = "change_origins changed old new (i + n) cs"
    have hd: "list_all2 (?ok i) (take n rest) ?head"
    proof (rule list_all2_all_nthI)
      show "length (take n rest) = length ?head" using v(3) by simp
      fix k assume "k < length (take n rest)"
      then have "k < n" by simp
      moreover from this have "take n rest ! k = old ! (i + k)"
        unfolding v(2)[symmetric] using i by simp
      ultimately show "?ok i (take n rest ! k) (?head ! k)" using i by (auto simp: kept_origin_def sound_origin_def)
    qed
    have tl: "list_all2 (?ok (i + n)) (drop n rest) ?tail" "sorted_wrt (<) (some_values ?tail)"
      using Cons.IH[OF v(4) i] by auto
    have "list_all2 (?ok i) (drop n rest) ?tail" using tl(1) by (rule sound_origins_mono)
    then have "list_all2 (?ok i) (take n rest @ drop n rest) (?head @ ?tail)"
      using hd by (intro list_all2_appendI)
    moreover have "\<forall>p \<in> set (some_values ?tail). i + n \<le> p"
      using tl(1) by (rule all2_some_values) (simp add: sound_origin_def)
    then have "sorted_wrt (<) (some_values (?head @ ?tail))"
      using tl(2) by (fastforce simp: some_values_kept sorted_wrt_append sorted_wrt_filter)
    ultimately show ?thesis using Unchanged by simp
  qed
qed

text \<open>With counter values left, neither loop fails.\<close>

lemma allocate_identity_room:
  assumes "allocating ns W doc" and "unat (next_anchor_id doc) + Suc n < 2 ^ 64"
  shows "\<exists>d w. allocate_identity fresh skip doc = Inr (d, w)
    \<and> unat (next_anchor_id (push_anchor w d)) = Suc (unat (next_anchor_id doc))"
proof -
  have k: "next_anchor_id doc \<noteq> - 1" using unat_room[OF assms(2)] .
  then show ?thesis
    using assms(1) allocate_identity_new[of doc ns W fresh skip]
    by (fastforce simp: allocating_def push_anchor_def unat_succ)
qed

lemma allocate_lines_room:
  "allocating ns W doc \<Longrightarrow> unat (next_anchor_id doc) + n < 2 ^ 64 \<Longrightarrow>
   \<exists>d. allocate_lines fresh skip n doc = Inr d \<and> unat (next_anchor_id d) = unat (next_anchor_id doc) + n"
  unfolding allocate_lines_def
proof (induction n arbitrary: doc W)
  case (Suc n)
  obtain d w where a: "allocate_identity fresh skip doc = Inr (d, w)"
      "unat (next_anchor_id (push_anchor w d)) = Suc (unat (next_anchor_id doc))"
    using allocate_identity_room Suc.prems by blast
  show ?case using Suc.IH[OF allocating_mint(3)[OF Suc.prems(1) a(1)]] Suc.prems(2) a by auto
qed simp

lemma keep_lines_room:
  "allocating ns W doc \<Longrightarrow> unat (next_anchor_id doc) + n < 2 ^ 64 \<Longrightarrow> set (td_anchors old) \<subseteq> W \<Longrightarrow>
   i + n \<le> length (td_hashes old) \<Longrightarrow> length (td_anchors old) = length (td_hashes old) \<Longrightarrow>
   \<exists>d. keep_lines fresh changed old new i n doc = Some (Inr d)
     \<and> unat (next_anchor_id d) \<le> unat (next_anchor_id doc) + n"
proof (induction n arbitrary: doc W i)
  case (Suc n)
  show ?case
  proof (cases "changed \<and> (1 < count_list (td_hashes old) (td_hashes old ! i) \<or> 1 < count_list new (td_hashes old ! i))")
    case True
    obtain d w where a: "allocate_identity fresh False doc = Inr (d, w)"
        "unat (next_anchor_id (push_anchor w d)) = Suc (unat (next_anchor_id doc))"
      using allocate_identity_room Suc.prems(1,2) by blast
    have "\<exists>d'. keep_lines fresh changed old new (Suc i) n (push_anchor w d) = Some (Inr d')
        \<and> unat (next_anchor_id d') \<le> unat (next_anchor_id (push_anchor w d)) + n"
      using Suc.prems a by (intro Suc.IH[OF allocating_mint(3)[OF Suc.prems(1) a(1)]]) auto
    then show ?thesis using True a Suc.prems(4) by (auto simp: Let_def)
  next
    case False
    have i: "i < length (td_hashes old)" "i < length (td_anchors old)" using Suc.prems(4,5) by auto
    then have "td_anchors old ! i \<in> W" using Suc.prems(3) by (auto dest: nth_mem)
    then have al: "allocating ns W (push_anchor (td_anchors old ! i) doc)" by (rule allocating_keep[OF Suc.prems(1)])
    have "\<exists>d'. keep_lines fresh changed old new (Suc i) n (push_anchor (td_anchors old ! i) doc) = Some (Inr d')
        \<and> unat (next_anchor_id d') \<le> unat (next_anchor_id (push_anchor (td_anchors old ! i) doc)) + n"
      using Suc.prems by (intro Suc.IH[OF al]) (auto simp: push_anchor_def)
    moreover have "next_anchor_id (push_anchor (td_anchors old ! i) doc) = next_anchor_id doc"
      by (simp add: push_anchor_def)
    ultimately show ?thesis using False i by (auto simp: Let_def)
  qed
qed simp

lemma apply_changes_room:
  "valid_changes (drop i (td_hashes old)) rest cs \<Longrightarrow> i \<le> length (td_hashes old) \<Longrightarrow>
   length (td_anchors old) = length (td_hashes old) \<Longrightarrow> set (td_anchors old) \<subseteq> W \<Longrightarrow>
   allocating ns W doc \<Longrightarrow> unat (next_anchor_id doc) + length rest < 2 ^ 64 \<Longrightarrow>
   \<exists>d. apply_changes fresh changed old new i cs doc = Some (Inr d)"
proof (induction cs arbitrary: i rest doc W)
  case (Cons c cs)
  show ?case
  proof (cases c)
    case (Added n)
    then have n: "n \<le> length rest" and v: "valid_changes (drop i (td_hashes old)) (drop n rest) cs"
      using Cons.prems(1) by auto
    then have "unat (next_anchor_id doc) + n < 2 ^ 64" using Cons.prems(6) by linarith
    then obtain d where a: "allocate_lines fresh False n doc = Inr d"
        "unat (next_anchor_id d) = unat (next_anchor_id doc) + n"
      using allocate_lines_room[OF Cons.prems(5)] by blast
    obtain ws where "allocating ns (W \<union> set ws) d"
      using allocate_lines_assigned[OF a(1) Cons.prems(5)] by blast
    then show ?thesis
      using Cons.IH[OF v Cons.prems(2,3), of "W \<union> set ws" d] Cons.prems(4,6) a n Added by auto
  next
    case (Removed n)
    then have "n \<le> length (td_hashes old) - i" "valid_changes (drop (i + n) (td_hashes old)) rest cs"
      using Cons.prems(1) by (simp_all add: add.commute)
    then show ?thesis using Cons.IH[of "i + n" rest W doc] Cons.prems Removed by simp
  next
    case (Unchanged n)
    then have n: "n \<le> length (td_hashes old) - i" "n \<le> length rest"
      and v: "valid_changes (drop (i + n) (td_hashes old)) (drop n rest) cs"
      using Cons.prems(1) by (simp_all add: add.commute)
    have i: "i + n \<le> length (td_hashes old)" using n(1) Cons.prems(2) by linarith
    have "unat (next_anchor_id doc) + n < 2 ^ 64" using Cons.prems(6) n(2) by linarith
    then obtain d where a: "keep_lines fresh changed old new i n doc = Some (Inr d)"
        "unat (next_anchor_id d) \<le> unat (next_anchor_id doc) + n"
      using keep_lines_room[OF Cons.prems(5) _ Cons.prems(4) i Cons.prems(3)] by blast
    obtain ws where "allocating ns (W \<union> set ws) d"
      using keep_lines_assigned[OF a(1) Cons.prems(5,4)] by blast
    moreover have "unat (next_anchor_id d) + length (drop n rest) < 2 ^ 64"
      using a(2) n(2) Cons.prems(6) by simp
    moreover have "set (td_anchors old) \<subseteq> W \<union> set ws" using Cons.prems(4) by blast
    ultimately show ?thesis using Cons.IH[OF v i Cons.prems(3)] a(1) Unchanged by fastforce
  qed
qed simp

text \<open>The loops start from a migrated document whose anchors have been cleared.\<close>

lemma allocating_start:
  assumes "wf_document doc" and "anchor_namespace doc = None \<longrightarrow> unused_namespace fresh doc"
  obtains ns where "allocating ns (set (td_anchors doc) \<union> set (retired_anchors (migrate_allocator_state fresh doc (td_anchors doc))))
      (migrate_allocator_state fresh doc (td_anchors doc)\<lparr>td_anchors := []\<rparr>)"
proof -
  let ?m = "migrate_allocator_state fresh doc (td_anchors doc)"
  obtain ns where ns: "anchor_namespace ?m = Some ns" by (simp add: migrate_namespace)
  have "wf_document ?m" by (rule migrate_wf[OF assms])
  then have "older ns (next_anchor_id ?m) (set (td_anchors ?m) \<union> set (retired_anchors ?m))"
    using ns unfolding wf_document_def by blast
  then have "allocating ns (set (td_anchors doc) \<union> set (retired_anchors ?m)) (?m\<lparr>td_anchors := []\<rparr>)"
    using ns by (simp add: allocating_def)
  then show thesis by (rule that)
qed

text \<open>What retirement makes of a staged document.\<close>

lemma retired_wf:
  assumes "allocating ns (set old \<union> R \<union> set (td_anchors doc)) doc" and "distinct (td_anchors doc)"
    and "length (td_anchors doc) = length hs" and "set (td_anchors doc) \<inter> R = {}" and "set (retired_anchors doc) \<subseteq> R"
  shows "wf_document (doc\<lparr>retired_anchors := keep_recent (retire (retired_anchors doc)
            (filter (\<lambda>w. w \<notin> set (td_anchors doc)) old)), td_generation := g, td_hashes := hs\<rparr>)"
proof -
  let ?r = "keep_recent (retire (retired_anchors doc) (filter (\<lambda>w. w \<notin> set (td_anchors doc)) old))"
  have r: "set ?r \<subseteq> R \<union> (set old - set (td_anchors doc))"
    using assms(5) set_keep_recent[of "retire (retired_anchors doc) (filter (\<lambda>w. w \<notin> set (td_anchors doc)) old)"]
    by auto
  then have "older ns (next_anchor_id doc) (set (td_anchors doc) \<union> set ?r)"
    using assms(1) unfolding allocating_def by (blast intro: older_mono)
  moreover have "anchor_namespace doc = Some ns" using assms(1) by (simp add: allocating_def)
  ultimately show ?thesis
    using assms(2,3,4) r length_keep_recent unfolding wf_document_def by fastforce
qed

section \<open>What staging and reconciliation guarantee\<close>

lemma bump_cases:
  "bump_generation old doc = Inr doc' \<Longrightarrow> \<exists>g. doc' = doc\<lparr>td_generation := g\<rparr>"
  by (auto simp: bump_generation_def split: if_splits intro: exI[of _ "td_generation doc"])

lemma seed_retired_suffix: "\<exists>p. seed_retired live ws r = p @ r"
  by (induction live ws r rule: seed_retired.induct) auto

lemma keep_recent_suffix: "length r \<le> MAX_RETIRED_ANCHORS \<Longrightarrow> set r \<subseteq> set (keep_recent (p @ r))"
  by (auto simp: keep_recent_def)

text \<open>Migration forgets no retired identity.\<close>

lemma migrate_keeps_retired:
  assumes "length (retired_anchors doc) \<le> MAX_RETIRED_ANCHORS"
  shows "set (retired_anchors doc) \<subseteq> set (retired_anchors (migrate_allocator_state fresh doc live))"
proof -
  obtain p where "seed_retired (set live) (rev (used_words doc)) (retired_anchors doc) = p @ retired_anchors doc"
    using seed_retired_suffix by blast
  then show ?thesis
    using keep_recent_suffix[OF assms, of p] keep_recent_suffix[OF assms, of "[]"]
    by (auto simp: migrate_allocator_state_def Let_def)
qed

text \<open>A tracked snapshot: of a file small enough, with a well-formed document of its lines.\<close>

definition tracked_snapshot :: "ustr \<Rightarrow> anchor_snapshot \<Rightarrow> bool" where
  "tracked_snapshot fresh snap \<longleftrightarrow> \<not> sn_snapshot_mode snap \<and> wf_document (sn_document snap)
     \<and> sn_anchors snap = td_anchors (sn_document snap)
     \<and> length (td_anchors (sn_document snap)) = length (sn_lines snap)
     \<and> (anchor_namespace (sn_document snap) = None \<longrightarrow> unused_namespace fresh (sn_document snap))"

definition final_lines :: "ustr \<Rightarrow> ustr list" where
  "final_lines content = split_content_lines (fst (normalize_file_content content))"

abbreviation staging_start :: "ustr \<Rightarrow> anchor_snapshot \<Rightarrow> ustr list \<Rightarrow> tracked_document" where
  "staging_start fresh snap ls \<equiv>
     migrate_allocator_state fresh (sn_document snap) (sn_anchors snap)\<lparr>td_hashes := compute_hashes ls, td_anchors := []\<rparr>"

lemma staging_allocating:
  assumes "tracked_snapshot fresh snap"
  obtains ns R where "R = set (retired_anchors (staging_start fresh snap ls))"
    and "allocating ns (set (td_anchors (sn_document snap)) \<union> R) (staging_start fresh snap ls)"
    and "set (td_anchors (sn_document snap)) \<inter> R = {}"
proof -
  let ?d = "sn_document snap"
  let ?m = "migrate_allocator_state fresh ?d (td_anchors ?d)"
  have wf: "wf_document ?d" "anchor_namespace ?d = None \<longrightarrow> unused_namespace fresh ?d" "sn_anchors snap = td_anchors ?d"
    using assms by (auto simp: tracked_snapshot_def)
  obtain ns where "allocating ns (set (td_anchors ?d) \<union> set (retired_anchors ?m)) (?m\<lparr>td_anchors := []\<rparr>)"
    by (rule allocating_start[OF wf(1,2)])
  then have "allocating ns (set (td_anchors ?d) \<union> set (retired_anchors ?m)) (staging_start fresh snap ls)"
    using wf(3) by (simp add: allocating_def)
  moreover have "set (td_anchors ?d) \<inter> set (retired_anchors ?m) = {}"
    using migrate_wf[OF wf(1,2)] by (simp add: wf_document_def)
  ultimately show thesis using wf(3) by (intro that[of "set (retired_anchors ?m)" ns]) simp_all
qed

lemma stage_transition_tracked:
  assumes "stage_transition sha fresh snap content prov = Some (Inr tr)" and "tracked_snapshot fresh snap"
    and "length (final_lines content) \<le> MAX_TRACKED_LINES"
  shows "wf_document (tr_document tr) \<and> td_hashes (tr_document tr) = compute_hashes (final_lines content)
    \<and> output_lines tr = final_lines content \<and> tr_anchors tr = td_anchors (tr_document tr)
    \<and> ascending (sn_lines snap) None (final_lines content) (origins prov)
    \<and> assigned (sn_anchors snap) (set (sn_anchors snap) \<union> set (retired_anchors (sn_document snap)))
        (origins prov) (tr_anchors tr)"
proof -
  let ?ls = "final_lines content" and ?d = "sn_document snap"
  have snap: "\<not> sn_snapshot_mode snap" "sn_anchors snap = td_anchors ?d" "wf_document ?d"
    using assms(2) by (auto simp: tracked_snapshot_def)
  obtain ns R where R: "R = set (retired_anchors (staging_start fresh snap ?ls))"
    "allocating ns (set (td_anchors ?d) \<union> R) (staging_start fresh snap ?ls)" "set (td_anchors ?d) \<inter> R = {}"
    by (rule staging_allocating[OF assms(2)])
  obtain doc doc' where len: "length (origins prov) = length ?ls"
    and run: "stage_lines fresh snap (untracked ?ls (origins prov)) None (staging_start fresh snap ?ls) = Some (Inr doc)"
    and bump: "bump_generation ?d doc = Inr doc'" and tr: "tr = build_transition sha snap content prov doc'"
    using assms(1,3) by (auto simp: stage_transition_def Let_def final_lines_def split: if_splits option.splits sum.splits)
  obtain ws k where asc: "ascending (sn_lines snap) None ?ls (origins prov)"
    and doc: "doc = extended (staging_start fresh snap ?ls) ws k"
    and al: "allocating ns (set (td_anchors ?d) \<union> R \<union> set ws) doc"
    and as: "assigned (td_anchors ?d) (set (td_anchors ?d) \<union> R) (origins prov) ws"
    using stage_lines_assigned[OF run len R(2)] snap(1) by auto
  obtain g where g: "doc' = doc\<lparr>td_generation := g\<rparr>" using bump_cases[OF bump] by blast
  have ws: "td_anchors doc = ws" "td_hashes doc = compute_hashes ?ls" "set (retired_anchors doc) = R"
    by (simp_all add: doc R(1))
  have "distinct ws"
    using assigned_distinct[OF as] ascending_distinct[OF asc] snap(3) by (auto simp: wf_document_def)
  moreover have "set ws \<inter> R = {}" using R(3) by (intro assigned_disjoint[OF as]) auto
  moreover have "length ws = length ?ls" using assigned_length[OF as] len by simp
  ultimately have "wf_document (doc\<lparr>retired_anchors := keep_recent (retire (retired_anchors doc)
            (filter (\<lambda>w. w \<notin> set (td_anchors doc)) (td_anchors ?d))), td_generation := g, td_hashes := compute_hashes ?ls\<rparr>)"
    using al ws by (intro retired_wf[of ns _ R]) auto
  then have wf: "wf_document (tr_document tr)"
    by (simp add: tr build_transition_def Let_def g snap(2) wf_document_def ws(2))
  have "set (retired_anchors ?d) \<subseteq> R"
    using migrate_keeps_retired[of ?d] snap(3) R(1) by (simp add: wf_document_def)
  then have "assigned (td_anchors ?d) (set (td_anchors ?d) \<union> set (retired_anchors ?d)) (origins prov) ws"
    using as by (elim assigned_mono) blast
  then show ?thesis
    using wf asc ws(1,2) by (simp add: tr build_transition_def Let_def g snap(2) flip: final_lines_def)
qed

text \<open>The provenance of the executor is always in order.\<close>

lemma provenance_ascending:
  "list_all2 (\<lambda>l q. \<forall>i. q = Some i \<longrightarrow> i < length old \<and> l = old ! i) ls os \<Longrightarrow> sorted_wrt (<) (some_values os) \<Longrightarrow>
   (case previous of Some p \<Rightarrow> \<forall>q \<in> set (some_values os). p < q | None \<Rightarrow> True) \<Longrightarrow> ascending old previous ls os"
proof (induction ls os arbitrary: previous rule: list_all2_induct)
  case (Cons l ls q os)
  then show ?case by (cases q) (auto simp: valid_origin_def split: option.splits)
qed simp

lemma ascending_length: "ascending old previous ls os \<Longrightarrow> length ls = length os"
  by (induction old previous ls os rule: ascending.induct) auto

lemma stage_transition_accepts:
  assumes "tracked_snapshot fresh snap" and "length (final_lines content) \<le> MAX_TRACKED_LINES"
    and "ascending (sn_lines snap) None (final_lines content) (origins prov)"
    and "unat (next_anchor_id (sn_document snap)) + length (final_lines content) < 2 ^ 64"
    and "td_generation (sn_document snap) \<noteq> - 1"
  shows "\<exists>tr. stage_transition sha fresh snap content prov = Some (Inr tr)"
proof -
  let ?ls = "final_lines content" and ?d = "sn_document snap"
  have snap: "sn_anchors snap = td_anchors ?d" "length (td_anchors ?d) = length (sn_lines snap)"
    using assms(1) by (auto simp: tracked_snapshot_def)
  obtain ns R where R: "allocating ns (set (td_anchors ?d) \<union> R) (staging_start fresh snap ?ls)"
    by (rule staging_allocating[OF assms(1)])
  have len: "length ?ls = length (origins prov)" by (rule ascending_length[OF assms(3)])
  obtain doc where run: "stage_lines fresh snap (untracked ?ls (origins prov)) None (staging_start fresh snap ?ls) = Some (Inr doc)"
    using stage_lines_accepts[OF assms(3) R, of fresh] assms(4) snap(2) by auto
  obtain ws k where "doc = extended (staging_start fresh snap ?ls) ws k"
    using stage_lines_assigned[OF run len[symmetric] R] by blast
  then have "\<exists>doc'. bump_generation ?d doc = Inr doc'"
    using assms(5) by (simp add: bump_generation_def)
  then show ?thesis
    using run len assms(2) by (auto simp: stage_transition_def Let_def final_lines_def snap(1))
qed

subsection \<open>Reconciliation\<close>

lemma reconcile_document_result:
  fixes tracked fresh
  defines "old \<equiv> migrate_allocator_state fresh tracked (td_anchors tracked)"
  assumes "reconcile_document diff fresh tracked hs = Some (Inr doc)"
    and "wf_document tracked" and "anchor_namespace tracked = None \<longrightarrow> unused_namespace fresh tracked"
    and "valid_changes (td_hashes tracked) hs (diff_arrays diff (td_hashes tracked) hs)"
  shows "wf_document doc \<and> td_hashes doc = hs \<and>
    assigned (td_anchors tracked) (set (td_anchors tracked) \<union> set (retired_anchors old))
      (change_origins (td_hashes tracked \<noteq> hs) (td_hashes tracked) hs 0 (diff_arrays diff (td_hashes tracked) hs))
      (td_anchors doc)"
proof -
  let ?cs = "diff_arrays diff (td_hashes tracked) hs" and ?ch = "td_hashes tracked \<noteq> hs"
  let ?os = "change_origins ?ch (td_hashes tracked) hs 0 ?cs"
  let ?R = "set (retired_anchors old)"
  obtain ns where al: "allocating ns (set (td_anchors tracked) \<union> ?R) (old\<lparr>td_anchors := []\<rparr>)"
    unfolding old_def by (rule allocating_start[OF assms(3,4)])
  obtain d where run: "apply_changes fresh ?ch old hs 0 ?cs (old\<lparr>td_anchors := []\<rparr>) = Some (Inr d)"
    and doc: "doc = d\<lparr>retired_anchors := keep_recent (retire (retired_anchors d)
          (filter (\<lambda>w. w \<notin> set (td_anchors d)) (td_anchors tracked))), td_generation := saturating_succ (td_generation old),
          td_hashes := hs\<rparr>"
    using assms(2) by (auto simp: reconcile_document_def Let_def old_def split: option.splits sum.splits)
  have oa: "td_anchors old = td_anchors tracked" "td_hashes old = td_hashes tracked" by (simp_all add: old_def)
  obtain ws k where d: "d = extended (old\<lparr>td_anchors := []\<rparr>) ws k"
    and al': "allocating ns (set (td_anchors tracked) \<union> ?R \<union> set ws) d"
    and as: "assigned (td_anchors tracked) (set (td_anchors tracked) \<union> ?R) ?os ws"
    using apply_changes_assigned[OF run al] by (auto simp: oa)
  have so: "list_all2 (sound_origin ?ch (td_hashes tracked) hs 0) hs ?os" "sorted_wrt (<) (some_values ?os)"
    using change_origins_sound[of 0 "td_hashes tracked" hs ?cs ?ch hs] assms(5) by auto
  have wm: "wf_document old" unfolding old_def by (rule migrate_wf[OF assms(3,4)])
  have ws: "td_anchors d = ws" "set (retired_anchors d) = ?R" by (simp_all add: d)
  have "distinct ws"
    using assigned_distinct[OF as] so(2) assms(3) by (auto simp: wf_document_def strict_sorted_iff)
  moreover have "set ws \<inter> ?R = {}"
    using wm oa by (intro assigned_disjoint[OF as]) (auto simp: wf_document_def)
  moreover have "length ws = length hs" using assigned_length[OF as] list_all2_lengthD[OF so(1)] by simp
  ultimately have "wf_document doc" unfolding doc
    using al' ws by (intro retired_wf[of ns _ ?R]) auto
  then show ?thesis using as by (simp add: doc ws)
qed

lemma reconcile_document_accepts:
  assumes "wf_document tracked" and "anchor_namespace tracked = None \<longrightarrow> unused_namespace fresh tracked"
    and "valid_changes (td_hashes tracked) hs (diff_arrays diff (td_hashes tracked) hs)"
    and "unat (next_anchor_id tracked) + length hs < 2 ^ 64"
  shows "\<exists>doc. reconcile_document diff fresh tracked hs = Some (Inr doc)"
proof -
  let ?old = "migrate_allocator_state fresh tracked (td_anchors tracked)"
  obtain ns where al: "allocating ns (set (td_anchors tracked) \<union> set (retired_anchors ?old)) (?old\<lparr>td_anchors := []\<rparr>)"
    by (rule allocating_start[OF assms(1,2)])
  have "\<exists>d. apply_changes fresh (td_hashes tracked \<noteq> hs) ?old hs 0 (diff_arrays diff (td_hashes tracked) hs) (?old\<lparr>td_anchors := []\<rparr>)
      = Some (Inr d)"
    using assms al by (intro apply_changes_room[where rest = hs]) (auto simp: wf_document_def)
  then show ?thesis by (auto simp: reconcile_document_def Let_def)
qed

text \<open>The loops do not index out of range, whatever the counter holds.\<close>

lemma keep_lines_no_panic:
  "i + n \<le> length (td_hashes old) \<Longrightarrow> length (td_anchors old) = length (td_hashes old) \<Longrightarrow>
   keep_lines fresh changed old new i n doc \<noteq> None"
proof (induction n arbitrary: i doc)
  case (Suc n)
  have ih: "(keep_lines fresh changed old new (Suc i) n d = None) = False" for d
    using Suc.IH[of "Suc i" d] Suc.prems by simp
  have i: "\<not> length (td_hashes old) \<le> i" "\<not> length (td_anchors old) \<le> i" using Suc.prems by simp_all
  show ?case
    unfolding keep_lines.simps if_not_P[OF i(1)] if_not_P[OF i(2)] Let_def
    by (cases "allocate_identity fresh False doc")
      (simp_all only: sum.case split_beta ih not_False_eq_True if_cancel option.distinct split: if_split, simp_all)
qed simp

lemma apply_changes_no_panic:
  "valid_changes (drop i (td_hashes old)) rest cs \<Longrightarrow> i \<le> length (td_hashes old) \<Longrightarrow>
   length (td_anchors old) = length (td_hashes old) \<Longrightarrow> apply_changes fresh changed old new i cs doc \<noteq> None"
proof (induction cs arbitrary: i rest doc)
  case (Cons c cs)
  show ?case
  proof (cases c)
    case (Added n)
    then show ?thesis using Cons by (auto simp del: not_None_eq split: sum.splits)
  next
    case (Removed n)
    then have "n \<le> length (td_hashes old) - i" "valid_changes (drop (i + n) (td_hashes old)) rest cs"
      using Cons.prems(1) by (simp_all add: add.commute)
    moreover from this have "i + n \<le> length (td_hashes old)" using Cons.prems(2) by linarith
    ultimately show ?thesis using Cons Removed by simp
  next
    case (Unchanged n)
    then have le: "n \<le> length (td_hashes old) - i" and v: "valid_changes (drop (i + n) (td_hashes old)) (drop n rest) cs"
      using Cons.prems(1) by (simp_all add: add.commute)
    have n: "i + n \<le> length (td_hashes old)" "valid_changes (drop (i + n) (td_hashes old)) (drop n rest) cs"
      using le v Cons.prems(2) by simp_all
    then show ?thesis
      using Cons.IH[OF n(2,1) Cons.prems(3)] keep_lines_no_panic[OF n(1) Cons.prems(3), of fresh changed new doc] Unchanged
      by (auto simp del: not_None_eq split: option.splits sum.splits)
  qed
qed simp

lemma reconcile_document_no_panic:
  assumes "length (td_anchors tracked) = length (td_hashes tracked)"
    and "valid_changes (td_hashes tracked) hs (diff_arrays diff (td_hashes tracked) hs)"
  shows "reconcile_document diff fresh tracked hs \<noteq> None"
  using apply_changes_no_panic[of 0 "migrate_allocator_state fresh tracked (td_anchors tracked)" hs
      "diff_arrays diff (td_hashes tracked) hs"] assms
  by (auto simp: reconcile_document_def Let_def simp del: not_None_eq split: option.splits sum.splits)

subsection \<open>Observation\<close>

lemma allocate_loop_name:
  "allocate_loop skip doc = Inr (doc', w) \<Longrightarrow> anchor_namespace doc = Some ns \<Longrightarrow> \<exists>k. w = identity ns k"
proof (induction skip doc rule: allocate_loop.induct)
  case (1 skip doc)
  let ?c = "next_anchor_id doc"
  let ?d = "doc\<lparr>next_anchor_id := ?c + 1\<rparr>"
  let ?w = "identity (case anchor_namespace doc of Some ns \<Rightarrow> ns | None \<Rightarrow> []) ?c"
  have c: "?c \<noteq> - 1" using "1.prems" by (subst (asm) allocate_loop.simps) (auto simp: Let_def)
  show ?case
  proof (cases "skip \<or> (?w \<notin> set (td_anchors doc) \<and> ?w \<notin> set (retired_anchors doc))")
    case True
    then have "w = ?w" using "1.prems" c by (subst (asm) allocate_loop.simps) (simp add: Let_def)
    then show ?thesis using "1.prems"(2) by auto
  next
    case False
    then have "allocate_loop skip ?d = Inr (doc', w)"
      using "1.prems" c by (subst (asm) allocate_loop.simps) (auto simp: Let_def split: if_splits)
    then show ?thesis using "1.IH"[OF refl c refl refl False] "1.prems"(2) by simp
  qed
qed

lemma mint_lines_names:
  "mint_lines (allocate_identity fresh skip) push_anchor n doc = Inr doc' \<Longrightarrow> anchor_namespace doc = Some ns \<Longrightarrow>
   \<forall>w \<in> set (td_anchors doc). \<exists>k. w = identity ns k \<Longrightarrow> \<forall>w \<in> set (td_anchors doc'). \<exists>k. w = identity ns k"
proof (induction n arbitrary: doc)
  case (Suc n)
  obtain c w where a: "allocate_identity fresh skip doc = Inr (c, w)"
    and r: "mint_lines (allocate_identity fresh skip) push_anchor n (push_anchor w c) = Inr doc'"
    using Suc.prems(1) by (auto split: sum.splits)
  obtain k where k: "push_anchor w c = extended doc [w] k"
    using allocate_identity_extends[OF a Suc.prems(2)] by blast
  obtain j where "w = identity ns j"
    using a allocate_loop_name Suc.prems(2) by (fastforce simp: allocate_identity_def)
  then show ?case using Suc.IH[OF r] Suc.prems(2,3) k by auto
qed simp

lemma first_document_result:
  assumes "first_document fresh hashes = Inr doc"
  shows "wf_document doc \<and> td_hashes doc = hashes \<and> retired_anchors doc = [] \<and> anchor_namespace doc = Some fresh
    \<and> (\<forall>w \<in> set (td_anchors doc). \<exists>k. w = identity fresh k)"
proof -
  let ?n = "new_document fresh hashes"
  have run: "allocate_lines fresh True (length hashes) ?n = Inr doc" using assms by (simp add: first_document_def)
  have "allocating fresh {} ?n" by (simp add: allocating_def new_document_def)
  from allocate_lines_assigned[OF run this, of "[]"] obtain ws k where d: "doc = extended ?n ws k" "allocating fresh (set ws) doc"
    "assigned [] {} (replicate (length hashes) None) ws" by auto
  have "distinct ws" using assigned_distinct[OF d(3)] by (simp)
  moreover have "length ws = length hashes" using assigned_length[OF d(3)] by simp
  moreover have "\<forall>w \<in> set (td_anchors doc). \<exists>k. w = identity fresh k"
    using run unfolding allocate_lines_def by (rule mint_lines_names) (simp_all add: new_document_def)
  ultimately show ?thesis
    using d(1,2) by (auto simp: wf_document_def new_document_def allocating_def extended_def)
qed

lemma first_document_room:
  assumes "length hashes < 2 ^ 64"
  shows "\<exists>doc. first_document fresh hashes = Inr doc"
proof -
  have "allocating fresh {} (new_document fresh hashes)" by (simp add: allocating_def new_document_def)
  then show ?thesis
    using allocate_lines_room[of fresh "{}" "new_document fresh hashes" "length hashes" fresh True] assms
    by (auto simp: first_document_def new_document_def)
qed

text \<open>Identities are anchor names when the namespace is alphanumeric.\<close>

lemma digits36_alnum: "c \<in> set (digits36 n) \<Longrightarrow> is_ascii_alnum c"
proof (induction n rule: digits36.induct)
  case (1 n)
  have "is_ascii_alnum (base36_digit (n mod 36))"
    using mod_less_divisor[of 36 n] by (auto simp: base36_digit_def ascii_defs)
  then show ?case using 1 by (auto simp: digits36.simps[of n] split: if_splits)
qed

lemma identity_name:
  assumes "\<forall>c \<in> set ns. is_ascii_alnum c"
  shows "ANCHOR_NAME_REGEX (identity ns k)"
proof -
  have "\<forall>c \<in> set (digits36 (unat k)). is_ascii_alnum c" using digits36_alnum by blast
  moreover have "is_ascii_alnum 48" by code_simp
  ultimately have "\<forall>c \<in> set (encode_base36 k). is_ascii_alnum c"
    by (simp add: encode_base36_def str_def)
  then show ?thesis using assms
    by (auto simp: ANCHOR_NAME_REGEX_def identity_def str_def list_all_iff ascii_defs)
qed

section \<open>Properties\<close>

lemma ascending_nth:
  "ascending old previous ls os \<Longrightarrow> i < length os \<Longrightarrow> os ! i = Some p \<Longrightarrow> p < length old \<and> ls ! i = old ! p"
proof (induction old previous ls os arbitrary: i rule: ascending.induct)
  case (2 old previous l ls os)
  then show ?case by (cases i) auto
next
  case (3 old previous l ls q os)
  then show ?case by (cases i) (auto simp: valid_origin_def)
qed auto

definition sample_document :: tracked_document where
  "sample_document = \<lparr>td_generation = 4, td_hashes = compute_hashes sample_lines, td_anchors = sample_hashes,
     used_words = [], used_words_set = {}, anchor_namespace = Some (str ''q7''), next_anchor_id = 36,
     retired_anchors = [str ''Zz'']\<rparr>"

definition no_sha :: "8 word list \<Rightarrow> ustr" where "no_sha bytes = replicate 64 48"

definition sample_snapshot :: anchor_snapshot where
  "sample_snapshot = snapshot_of no_sha (str ''f'') (str ''t'') (join [nl] sample_lines) None (Some sample_document) sample_document"

definition sample_content :: ustr where
  "sample_content = join [nl] [[99], [100], [98], [101], [102]]"

lemma sample_wf: "wf_document sample_document"
proof -
  have "older (str ''q7'') 36 {w}" if "w \<in> set (sample_hashes @ [str ''Zz''])" for w
    using that by (auto simp: older_def sample_hashes_def identity_def str_def)
  then have "older (str ''q7'') 36 (set sample_hashes \<union> {str ''Zz''})"
    by (fastforce simp: older_def)
  moreover have "length sample_hashes = length (compute_hashes sample_lines)" "distinct sample_hashes"
     "set sample_hashes \<inter> {str ''Zz''} = {}"
    by code_simp+
  ultimately show ?thesis by (simp add: wf_document_def sample_document_def)
qed

lemma sample_snapshot_simps:
  "sn_lines sample_snapshot = sample_lines" "sn_snapshot_mode sample_snapshot = False"
  "sn_anchors sample_snapshot = sample_hashes" "sn_document sample_snapshot = sample_document"
  by (code_simp, code_simp, code_simp, simp add: sample_snapshot_def snapshot_of_def Let_def)

lemma sample_tracked: "tracked_snapshot fresh sample_snapshot"
proof -
  have "length sample_hashes = length sample_lines" by code_simp
  then show ?thesis using sample_wf
    by (simp add: tracked_snapshot_def sample_snapshot_simps) (simp add: sample_document_def)
qed

lemma sample_lines_final: "final_lines sample_content = [[99], [100], [98], [101], [102]]"
  by code_simp

lemma sample_staged:
  "case stage_transition no_sha [] sample_snapshot sample_content sample_provenance of
     Some (Inr tr) \<Rightarrow> tr_anchors tr = [str ''Aq7N10'', str ''Aq7N11'', str ''Cd'', str ''Aq7N12'', str ''Ef'']
   | _ \<Rightarrow> False"
  by code_simp

text \<open>The provenance of an applied batch is always accepted: staging the edited file neither panics nor
  rejects an origin, as long as the identity counter and the generation have values left.\<close>

theorem executor_provenance_accepted:
  assumes "apply_edits_with_provenance alnum dbg (sn_lines snap) rs = Some (Applied new added removed aes sites, prov)"
    and "\<forall>r \<in> set rs. in_bounds (sn_lines snap) r" and "tracked_snapshot fresh snap"
    and "final_lines content = new" and "length new \<le> MAX_TRACKED_LINES"
    and "unat (next_anchor_id (sn_document snap)) + length new < 2 ^ 64"
    and "td_generation (sn_document snap) \<noteq> - 1"
  shows "\<exists>tr. stage_transition sha fresh snap content prov = Some (Inr tr) \<and> output_lines tr = new
    \<and> wf_document (tr_document tr)"
proof -
  have "ascending (sn_lines snap) None (final_lines content) (origins prov)"
    using Applied_provenance[OF assms(1,2)] assms(4)
    by (intro provenance_ascending) (auto simp: sorted_wrt_filter)
  then obtain tr where "stage_transition sha fresh snap content prov = Some (Inr tr)"
    using stage_transition_accepts[OF assms(3)] assms(4-7) by metis
  then show ?thesis using stage_transition_tracked[OF _ assms(3)] assms(4,5) by blast
qed

theorem executor_provenance_accepted_witness:
  "\<exists>tr. stage_transition no_sha [] sample_snapshot sample_content sample_provenance = Some (Inr tr)
    \<and> output_lines tr = [[99], [100], [98], [101], [102]] \<and> wf_document (tr_document tr)"
proof (rule executor_provenance_accepted)
  show "apply_edits_with_provenance (\<lambda>_. True) (\<lambda>s. s) (sn_lines sample_snapshot) sample_resolved
     = Some (Applied [[99], [100], [98], [101], [102]] 3 1 sample_applied [], sample_provenance)"
    unfolding sample_snapshot_simps by (rule sample_applies)
  show "\<forall>r \<in> set sample_resolved. in_bounds (sn_lines sample_snapshot) r"
    unfolding sample_snapshot_simps by (rule sample_in_bounds)
qed (simp_all add: sample_tracked sample_lines_final sample_snapshot_simps sample_document_def)

text \<open>C3. Staging a new text of at most \<open>MAX_TRACKED_LINES\<close> lines on a tracked snapshot: an unchanged line keeps its anchor, every
  other line gets one that is neither among the current anchors of the snapshot nor among the retired ones its document still
  remembers (the list is bounded, so an anchor retired long ago may come back), all are distinct, and the new document is
  well-formed again.\<close>

theorem staging_keeps_identities:
  assumes "stage_transition sha fresh snap content prov = Some (Inr tr)" and "tracked_snapshot fresh snap"
    and "length (final_lines content) \<le> MAX_TRACKED_LINES"
  shows "wf_document (tr_document tr) \<and> distinct (tr_anchors tr) \<and> length (tr_anchors tr) = length (final_lines content)
    \<and> list_all (\<lambda>i. case origins prov ! i of
          Some p \<Rightarrow> tr_anchors tr ! i = sn_anchors snap ! p \<and> final_lines content ! i = sn_lines snap ! p
        | None \<Rightarrow> tr_anchors tr ! i \<notin> set (sn_anchors snap) \<union> set (retired_anchors (sn_document snap)))
      [0..<length (final_lines content)]"
proof -
  note t = stage_transition_tracked[OF assms]
  have asc: "ascending (sn_lines snap) None (final_lines content) (origins prov)"
    and as: "assigned (sn_anchors snap) (set (sn_anchors snap) \<union> set (retired_anchors (sn_document snap)))
        (origins prov) (tr_anchors tr)"
    and wf: "wf_document (tr_document tr)" "tr_anchors tr = td_anchors (tr_document tr)"
    using t by auto
  have len: "length (final_lines content) = length (origins prov)" by (rule ascending_length[OF asc])
  have "case origins prov ! i of
          Some p \<Rightarrow> tr_anchors tr ! i = sn_anchors snap ! p \<and> final_lines content ! i = sn_lines snap ! p
        | None \<Rightarrow> tr_anchors tr ! i \<notin> set (sn_anchors snap) \<union> set (retired_anchors (sn_document snap))"
    if i: "i < length (final_lines content)" for i
    using assigned_nth[OF as, of i] ascending_nth[OF asc, of i] i len by (cases "origins prov ! i") auto
  then show ?thesis
    using wf assigned_length[OF as] len by (simp add: list_all_iff wf_document_def)
qed

theorem staging_keeps_identities_witness:
  "\<exists>tr. stage_transition no_sha [] sample_snapshot sample_content sample_provenance = Some (Inr tr)
    \<and> distinct (tr_anchors tr) \<and> wf_document (tr_document tr)"
proof -
  obtain tr where tr: "stage_transition no_sha [] sample_snapshot sample_content sample_provenance = Some (Inr tr)"
    using sample_staged by (auto split: option.splits sum.splits)
  moreover have "length (final_lines sample_content) \<le> MAX_TRACKED_LINES" by (simp add: sample_lines_final)
  ultimately show ?thesis using staging_keeps_identities[OF tr sample_tracked] by blast
qed

text \<open>C38. Reconciling a file that changed on disk succeeds for every diff that is an edit script between the two
  revisions, and gives a well-formed document of the current lines.\<close>

theorem reconciliation_total:
  assumes "wf_document tracked" and "anchor_namespace tracked = None \<longrightarrow> unused_namespace fresh tracked"
    and "valid_changes (td_hashes tracked) hs (diff_arrays diff (td_hashes tracked) hs)"
    and "unat (next_anchor_id tracked) + length hs < 2 ^ 64"
  shows "\<exists>doc. reconcile_document diff fresh tracked hs = Some (Inr doc) \<and> wf_document doc
    \<and> td_hashes doc = hs \<and> length (td_anchors doc) = length hs"
proof -
  obtain doc where d: "reconcile_document diff fresh tracked hs = Some (Inr doc)"
    using reconcile_document_accepts[OF assms] by blast
  then show ?thesis using reconcile_document_result[OF d assms(1-3)] by (auto simp: wf_document_def)
qed

definition sample_diff :: "64 word list \<Rightarrow> 64 word list \<Rightarrow> diff_op list" where
  "sample_diff old new = (if old = new then [Equal (length old)] else [Delete (length old), Insert (length new)])"

theorem reconciliation_total_witness:
  "\<exists>doc. reconcile_document sample_diff [] sample_document [1, 2] = Some (Inr doc) \<and> wf_document doc
    \<and> td_hashes doc = [1, 2] \<and> length (td_anchors doc) = length [1, 2 :: 64 word]"
proof (rule reconciliation_total[OF sample_wf])
  show "valid_changes (td_hashes sample_document) [1, 2] (diff_arrays sample_diff (td_hashes sample_document) [1, 2])"
    by code_simp
qed (simp_all add: sample_document_def)

text \<open>C11. Reconciliation never rebinds an anchor to other content: where an anchor of the old revision is still in
  use its line has the same hash, and in a changed file no line with that hash occurs twice in either revision.\<close>

theorem reconciliation_never_rebinds:
  assumes "reconcile_document diff fresh tracked hs = Some (Inr doc)"
    and "wf_document tracked" and "anchor_namespace tracked = None \<longrightarrow> unused_namespace fresh tracked"
    and "valid_changes (td_hashes tracked) hs (diff_arrays diff (td_hashes tracked) hs)"
    and "i < length hs" and "p < length (td_hashes tracked)" and "td_anchors doc ! i = td_anchors tracked ! p"
  shows "hs ! i = td_hashes tracked ! p
    \<and> (td_hashes tracked = hs \<or> count_list (td_hashes tracked) (hs ! i) \<le> 1 \<and> count_list hs (hs ! i) \<le> 1)"
proof -
  let ?cs = "diff_arrays diff (td_hashes tracked) hs" and ?ch = "td_hashes tracked \<noteq> hs"
  let ?os = "change_origins ?ch (td_hashes tracked) hs 0 ?cs"
  have so: "list_all2 (sound_origin ?ch (td_hashes tracked) hs 0) hs ?os"
    using change_origins_sound[of 0 "td_hashes tracked" hs ?cs ?ch hs] assms(4) by auto
  have as: "assigned (td_anchors tracked) (set (td_anchors tracked) \<union> set (retired_anchors (migrate_allocator_state fresh tracked (td_anchors tracked)))) ?os (td_anchors doc)"
    using reconcile_document_result[OF assms(1-4)] by blast
  have len: "length ?os = length hs" using list_all2_lengthD[OF so] by simp
  have wf: "distinct (td_anchors tracked)" "p < length (td_anchors tracked)"
    using assms(2,6) by (auto simp: wf_document_def)
  have "?os ! i = Some p"
    using assigned_nth[OF as, of i] assms(5,7) len wf
    by (auto simp: nth_eq_iff_index_eq split: option.splits)
  then show ?thesis using list_all2_nthD[OF so assms(5)]
    by (auto simp: sound_origin_def repeats_def not_less)
qed

definition drop_first_diff :: "64 word list \<Rightarrow> 64 word list \<Rightarrow> diff_op list" where
  "drop_first_diff old new = [Delete 1, Equal (length new)]"

theorem reconciliation_never_rebinds_witness:
  "tl (td_hashes sample_document) ! 0 = td_hashes sample_document ! 1
    \<and> (td_hashes sample_document = tl (td_hashes sample_document)
       \<or> count_list (td_hashes sample_document) (tl (td_hashes sample_document) ! 0) \<le> 1
         \<and> count_list (tl (td_hashes sample_document)) (tl (td_hashes sample_document) ! 0) \<le> 1)"
proof -
  let ?hs = "tl (td_hashes sample_document)"
  have v: "valid_changes (td_hashes sample_document) ?hs (diff_arrays drop_first_diff (td_hashes sample_document) ?hs)"
    by code_simp
  have ns: "anchor_namespace sample_document = None \<longrightarrow> unused_namespace [] sample_document"
    by (simp add: sample_document_def)
  have "case reconcile_document drop_first_diff [] sample_document ?hs of
      Some (Inr doc) \<Rightarrow> td_anchors doc ! 0 = td_anchors sample_document ! 1 | _ \<Rightarrow> False"
    by code_simp
  then obtain doc where d: "reconcile_document drop_first_diff [] sample_document ?hs = Some (Inr doc)"
     "td_anchors doc ! 0 = td_anchors sample_document ! 1"
    by (auto split: option.splits sum.splits)
  have "0 < length ?hs" "1 < length (td_hashes sample_document)" by code_simp+
  then show ?thesis by (rule reconciliation_never_rebinds[OF d(1) sample_wf ns v _ _ d(2)])
qed

lemma show_nat_inj: "show_nat m = show_nat n \<Longrightarrow> m = n"
proof (induction m arbitrary: n rule: show_nat.induct)
  case (1 m)
  have l: "last (show_nat k) = 48 + int (k mod 10)" "10 \<le> k \<Longrightarrow> butlast (show_nat k) = show_nat (k div 10)"
    "k < 10 \<Longrightarrow> butlast (show_nat k) = []" for k
    by (subst show_nat.simps; simp)+
  have "m mod 10 = n mod 10" using "1.prems" l(1)[of m] l(1)[of n] by simp
  moreover have "m div 10 = n div 10"
  proof (cases "m < 10")
    case True
    then have "butlast (show_nat n) = []" using "1.prems" l(3)[of m] by simp
    then have "n < 10" using l(2)[of n] by (cases "n < 10") auto
    with True show ?thesis by simp
  next
    case False
    then have "butlast (show_nat n) \<noteq> []" using "1.prems" l(2)[of m] by simp
    then have "10 \<le> n" using l(3)[of n] by (cases "n < 10") auto
    then have "show_nat (m div 10) = show_nat (n div 10)" using "1.prems" l(2)[of m] l(2)[of n] False by simp
    then show ?thesis using "1.IH"[OF False] by simp
  qed
  ultimately show ?case by (metis div_mult_mod_eq)
qed

lemma snapshot_anchors_distinct: "distinct (snapshot_line_anchors sha ls)"
  by (auto simp: snapshot_line_anchors_def Let_def distinct_map inj_on_def dest: show_nat_inj)

definition alnum_digest :: "(8 word list \<Rightarrow> ustr) \<Rightarrow> bool" where
  "alnum_digest sha \<longleftrightarrow> (\<forall>bytes. \<forall>c \<in> set (sha bytes). is_ascii_alnum c)"

lemma snapshot_anchors_names:
  assumes "alnum_digest sha" and "a \<in> set (snapshot_line_anchors sha ls)"
  shows "ANCHOR_NAME_REGEX a"
proof -
  obtain r i where a: "a = 76 # take 32 (sha r) @ 78 # show_nat i"
    using assms(2) by (auto simp: snapshot_line_anchors_def Let_def str_def simp del: upt_Suc)
  have "\<forall>c \<in> set (show_nat i). is_ascii_alnum c"
    using show_nat_digits by (fastforce simp: ascii_defs)
  moreover have "\<forall>c \<in> set (take 32 (sha r)). is_ascii_alnum c"
    using assms(1) by (auto simp: alnum_digest_def dest: in_set_takeD)
  moreover have "is_ascii_alnum 78" "is_ascii_upper 76" by code_simp+
  ultimately show ?thesis by (auto simp: a ANCHOR_NAME_REGEX_def list_all_iff)
qed

text \<open>A file read for the first time, large or small, gets distinct anchor names.\<close>

lemma first_observation:
  assumes "observe_content sha fresh path task raw None None = Inr snap"
    and "alnum_digest sha" and "\<forall>c \<in> set fresh. is_ascii_alnum c"
  shows "sn_lines snap = final_lines raw \<and> length (sn_anchors snap) = length (sn_lines snap)
    \<and> distinct (sn_anchors snap) \<and> (\<forall>a \<in> set (sn_anchors snap). ANCHOR_NAME_REGEX a)"
proof -
  let ?ls = "final_lines raw"
  obtain doc where d: "observe_document sha fresh path ?ls None None = Inr doc"
    and s: "snap = snapshot_of sha path task raw None None doc"
    using assms(1) by (auto simp: observe_content_def Let_def final_lines_def split: sum.splits)
  have "length (td_anchors doc) = length ?ls \<and> distinct (td_anchors doc) \<and> (\<forall>a \<in> set (td_anchors doc). ANCHOR_NAME_REGEX a)"
  proof (cases "MAX_TRACKED_LINES < length ?ls")
    case True
    then have "td_anchors doc = snapshot_line_anchors sha ?ls"
      using d by (auto simp: observe_document_def Let_def)
    moreover have "length (snapshot_line_anchors sha ?ls) = length ?ls"
      by (simp add: snapshot_line_anchors_def Let_def del: upt_Suc)
    ultimately show ?thesis using snapshot_anchors_distinct snapshot_anchors_names[OF assms(2)] by auto
  next
    case False
    then have "first_document fresh (compute_hashes ?ls) = Inr doc"
      using d by (auto simp: observe_document_def Let_def)
    from first_document_result[OF this] show ?thesis
      using identity_name[OF assms(3)] by (auto simp: wf_document_def)
  qed
  then show ?thesis by (simp add: s snapshot_of_def Let_def flip: final_lines_def)
qed

text \<open>Every line of a freshly read file can be edited: its displayed form, numbered and anchored, resolves to that
  line. This holds for tracked files and for files beyond the tracking limit alike.\<close>

theorem first_read_editable:
  assumes "observe_content sha fresh path task raw None None = Inr snap"
    and "alnum_digest sha" and "\<forall>c \<in> set fresh. is_ascii_alnum c"
    and "i < length (sn_lines snap)" and "cr \<notin> set (sn_lines snap ! i)" and "\<not> has_dup_suffix (sn_lines snap ! i)"
  shows "resolve_anchor dbg t (format_numbered_line_with_hash (Suc i) (sn_lines snap ! i) (sn_anchors snap ! i))
      (sn_anchors snap) (sn_lines snap) = Bound i"
proof -
  note f = first_observation[OF assms(1-3)]
  have "nl \<notin> set (sn_lines snap ! i)"
    using f assms(4) split_content_clean[of "sn_lines snap ! i" "fst (normalize_file_content raw)"]
    by (simp add: final_lines_def)
  then show ?thesis
    using f assms(4-6) unfolding resolve_anchor_def by (intro resolve_displayed_line) auto
qed

theorem first_read_editable_witness:
  "\<exists>snap. observe_content no_sha (str ''q7'') (str ''f'') (str ''t'') (join [nl] sample_lines) None None = Inr snap
    \<and> resolve_anchor (\<lambda>s. s) (str ''anchor'')
        (format_numbered_line_with_hash (Suc 1) (sn_lines snap ! 1) (sn_anchors snap ! 1)) (sn_anchors snap) (sn_lines snap)
      = Bound 1"
proof -
  have "case observe_content no_sha (str ''q7'') (str ''f'') (str ''t'') (join [nl] sample_lines) None None of
      Inr snap \<Rightarrow> sn_lines snap = sample_lines | Inl _ \<Rightarrow> False"
    by code_simp
  then obtain snap where s: "observe_content no_sha (str ''q7'') (str ''f'') (str ''t'') (join [nl] sample_lines) None None = Inr snap"
      "sn_lines snap = sample_lines"
    by (auto split: sum.splits)
  have "alnum_digest no_sha" by (simp add: alnum_digest_def no_sha_def ascii_defs)
  moreover have "\<forall>c \<in> set (str ''q7''). is_ascii_alnum c" "1 < length sample_lines" "cr \<notin> set (sample_lines ! 1)"
      "\<not> has_dup_suffix (sample_lines ! 1)"
    by code_simp+
  ultimately show ?thesis using first_read_editable[OF s(1)] s by metis
qed

end
