(* ===== verification/IndexMap.thy ===== *)
theory IndexMap
  imports Prelude
begin

text \<open>
  The insertion-ordered map of the \<open>indexmap\<close> crate as an association list, with the operations the
  program calls (\<open>get\<close>, \<open>insert\<close>, \<open>shift_remove\<close>, \<open>shift_remove_index(0)\<close>, \<open>keys\<close>), the laws its clients
  use as a locale, and the lemmas proved once from those laws. A \<open>HashMap\<close> whose order the program
  never observes is modelled by the same type.
\<close>

type_synonym ('k, 'v) imap = "('k \<times> 'v) list"

definition im_get :: "('k, 'v) imap \<Rightarrow> 'k \<Rightarrow> 'v option" where
  "im_get m k = map_of m k"

definition im_keys :: "('k, 'v) imap \<Rightarrow> 'k list" where
  "im_keys m = map fst m"

text \<open>\<open>insert\<close> replaces the value of a present key in place and appends a new key.\<close>

definition im_insert :: "'k \<Rightarrow> 'v \<Rightarrow> ('k, 'v) imap \<Rightarrow> ('k, 'v) imap" where
  "im_insert k v m =
     (if im_get m k = None then m @ [(k, v)] else map (\<lambda>(i, x). if i = k then (k, v) else (i, x)) m)"

definition im_shift_remove :: "'k \<Rightarrow> ('k, 'v) imap \<Rightarrow> ('k, 'v) imap" where
  "im_shift_remove k m = filter (\<lambda>(i, _). i \<noteq> k) m"

definition im_wf :: "('k, 'v) imap \<Rightarrow> bool" where
  "im_wf m \<longleftrightarrow> distinct (im_keys m)"

section \<open>Laws\<close>

lemma im_get_empty [simp]: "im_get [] k = None"
  by (simp add: im_get_def)

lemma map_of_replace:
  "map_of (map (\<lambda>(i, x). if i = k then (k, v) else (i, x)) m) i =
     (if i = k then map_option (\<lambda>_. v) (map_of m k) else map_of m i)"
  by (induction m) auto

lemma im_get_insert [simp]: "im_get (im_insert k v m) i = (if i = k then Some v else im_get m i)"
  by (cases "map_of m k") (auto simp: im_insert_def im_get_def map_of_replace map_add_def split: option.splits)

lemma im_get_shift_remove [simp]: "im_get (im_shift_remove k m) i = (if i = k then None else im_get m i)"
  by (induction m) (auto simp: im_shift_remove_def im_get_def)

lemma im_get_keys: "im_get m k = None \<longleftrightarrow> k \<notin> set (im_keys m)"
  by (simp add: im_get_def im_keys_def map_of_eq_None_iff)

lemma im_keys_insert: "im_keys (im_insert k v m) = (if k \<in> set (im_keys m) then im_keys m else im_keys m @ [k])"
proof -
  have "map (fst \<circ> (\<lambda>(i, x). if i = k then (k, v) else (i, x))) m = map fst m"
    by (rule map_cong) auto
  then show ?thesis using im_get_keys[of m k] by (auto simp: im_insert_def im_keys_def)
qed

lemma im_keys_shift_remove [simp]: "im_keys (im_shift_remove k m) = filter (\<lambda>i. i \<noteq> k) (im_keys m)"
  by (induction m) (auto simp: im_shift_remove_def im_keys_def)

lemma im_wf_simps [simp]:
  "im_wf []" "im_wf (im_insert k v m) \<longleftrightarrow> im_wf m" "im_wf m \<Longrightarrow> im_wf (im_shift_remove k m)"
  by (auto simp: im_wf_def im_keys_insert) (auto simp: im_keys_def)

lemma length_im_insert: "length (im_insert k v m) = (if im_get m k = None then length m + 1 else length m)"
  by (simp add: im_insert_def)

lemma length_im_shift_remove: "length (im_shift_remove k m) \<le> length m"
  by (simp add: im_shift_remove_def)

text \<open>Moving a key to the back, as every publication does.\<close>

definition im_replace :: "'k \<Rightarrow> 'v \<Rightarrow> ('k, 'v) imap \<Rightarrow> ('k, 'v) imap" where
  "im_replace k v m = im_insert k v (im_shift_remove k m)"

lemma im_get_replace [simp]: "im_get (im_replace k v m) i = (if i = k then Some v else im_get m i)"
  by (simp add: im_replace_def)

section \<open>The interface its clients rely on\<close>

locale keyed_store =
  fixes get :: "'m \<Rightarrow> 'k \<Rightarrow> 'v option"
    and put :: "'k \<Rightarrow> 'v \<Rightarrow> 'm \<Rightarrow> 'm"
    and remove :: "'k \<Rightarrow> 'm \<Rightarrow> 'm"
    and nothing :: "'m"
  assumes get_nothing: "get nothing k = None"
    and get_put: "get (put k v m) i = (if i = k then Some v else get m i)"
    and get_remove: "get (remove k m) i = (if i = k then None else get m i)"
begin

lemma get_put_remove: "get (put k v (remove k m)) i = (if i = k then Some v else get m i)"
  by (simp add: get_put get_remove)

lemma put_remove_same: "get (remove k (put k v m)) = get (remove k m)"
  by (rule ext) (simp add: get_put get_remove)

text \<open>A batch of updates, each a value or a removal, with distinct keys.\<close>

lemma get_batch_other:
  "i \<notin> fst ` set us \<Longrightarrow>
   get (foldl (\<lambda>m (k, u). case u of Some v \<Rightarrow> put k v (remove k m) | None \<Rightarrow> remove k m) m us) i = get m i"
  by (induction us arbitrary: m) (auto simp: get_put get_remove split: option.splits)

lemma get_batch:
  "distinct (map fst us) \<Longrightarrow> (i, u) \<in> set us \<Longrightarrow>
   get (foldl (\<lambda>m (k, u). case u of Some v \<Rightarrow> put k v (remove k m) | None \<Rightarrow> remove k m) m us) i = u"
proof (induction us arbitrary: m)
  case (Cons x us)
  obtain k v where x: "x = (k, v)" by (cases x)
  show ?case
  proof (cases "(i, u) = (k, v)")
    case True
    then have "i \<notin> fst ` set us" using Cons.prems(1) x by force
    then show ?thesis using True x by (auto simp: get_batch_other get_put get_remove split: option.splits)
  next
    case False
    then show ?thesis using Cons x by auto
  qed
qed simp

end

interpretation imap: keyed_store im_get im_insert im_shift_remove "[]"
  by unfold_locales simp_all

end
