(* ===== verification/AnchorStore.thy ===== *)
theory AnchorStore
  imports AnchorState IndexMap "HOL-Library.List_Lexorder"
begin

text \<open>
  The store of tracked documents: \<open>AnchorStorage\<close> and the methods of \<open>AnchorStateManager\<close> that read and
  publish it, from \<open>src/core/file_editor.rs\<close>. The durable state is a value \<open>disk\<close>, the decoded cache
  directory; \<open>io\<close> says which calls of the operating system fail during an operation and which file
  identity a written file gets. \<open>serde_json\<close> is taken to read back what it wrote; \<open>sha\<close> is SHA-256 in
  hexadecimal, \<open>order\<close> the order in which a \<open>HashMap\<close> or \<open>HashSet\<close> is iterated. Each operation holds the
  manager's mutex, so it is one step; \<open>reconcile_checked\<close> takes it several times and is modelled without
  another operation in between, which the comparisons of the final publication would refuse.
\<close>

abbreviation MAX_TRACKED_FILES :: nat where "MAX_TRACKED_FILES \<equiv> 1024"
abbreviation MAX_TRACKED_TASKS :: nat where "MAX_TRACKED_TASKS \<equiv> 50"

section \<open>State\<close>

type_synonym documents = "(ustr, tracked_document) imap"

text \<open>A file's identity is its modification time and its length.\<close>

type_synonym stamp = "nat \<times> nat"

record cached_shard =
  cs_stamp :: stamp
  cs_documents :: documents

record anchor_storage =
  as_tasks :: "(ustr, documents) imap"
  persisted_fingerprints :: "(ustr, (ustr, ustr) imap) imap"
  durable_shards :: "(ustr, cached_shard) imap"

datatype shard_content = CorruptShard | Shard ustr documents

record shard_file =
  sf_stamp :: stamp
  sf_content :: shard_content

datatype legacy_file = NoLegacy | CorruptLegacy | Legacy "(ustr, documents) imap"

record disk =
  dk_legacy :: legacy_file
  dk_shards :: "(ustr, shard_file) imap"

datatype io_error = NotFound | IoFailed

text \<open>Which calls succeed. Shard files are named; the legacy cache file has calls of its own.\<close>

record io =
  io_dir :: bool
  io_lock :: bool
  io_list :: bool
  io_read :: "ustr \<Rightarrow> bool"
  io_stat :: "ustr \<Rightarrow> bool"
  io_write :: "ustr \<Rightarrow> bool"
  io_remove :: "ustr \<Rightarrow> bool"
  io_stamp :: "ustr \<Rightarrow> stamp"
  io_legacy_read :: bool
  io_legacy_write :: bool
  io_legacy_remove :: bool
  io_message :: "io_error \<Rightarrow> ustr"

definition persistence :: "io \<Rightarrow> io_error \<Rightarrow> anchor_transition_error" where
  "persistence io e = Persistence (io_message io e)"

section \<open>Fingerprints\<close>

definition push_str :: "ustr \<Rightarrow> 8 word list" where
  "push_str s = u64_le (byte_len s) @ utf8 s"

definition fingerprint_bytes :: "tracked_document \<Rightarrow> 8 word list" where
  "fingerprint_bytes d =
     word_le (td_generation d)
     @ u64_le (length (td_hashes d)) @ concat (map word_le (td_hashes d))
     @ u64_le (length (td_anchors d)) @ concat (map push_str (td_anchors d))
     @ concat (map push_str (used_words d))
     @ u64_le (card (used_words_set d)) @ concat (map push_str (sorted_list_of_set (used_words_set d)))
     @ push_str (case anchor_namespace d of Some ns \<Rightarrow> ns | None \<Rightarrow> [])
     @ word_le (next_anchor_id d)
     @ concat (map push_str (retired_anchors d))"

definition fingerprint_document :: "(8 word list \<Rightarrow> ustr) \<Rightarrow> tracked_document \<Rightarrow> ustr" where
  "fingerprint_document sha d = sha (fingerprint_bytes d)"

definition fingerprint_task :: "(8 word list \<Rightarrow> ustr) \<Rightarrow> documents \<Rightarrow> (ustr, ustr) imap" where
  "fingerprint_task sha docs = map (\<lambda>(path, d). (path, fingerprint_document sha d)) docs"

section \<open>Shard files\<close>

definition safe_char :: "uchar \<Rightarrow> uchar" where
  "safe_char c = (if is_ascii_alnum c \<or> c = 45 \<or> c = 95 \<or> c = 46 then c else 95)"

definition sanitize_task_id :: "(8 word list \<Rightarrow> ustr) \<Rightarrow> ustr \<Rightarrow> ustr" where
  "sanitize_task_id sha task_id =
     (let sanitized = map safe_char task_id in
      if sanitized = [] \<or> sanitized = str ''.'' \<or> sanitized = str ''..'' then str ''unnamed''
      else if sanitized \<noteq> task_id then sanitized @ str ''-'' @ take 8 (sha (utf8 task_id))
      else sanitized)"

definition shard_path :: "(8 word list \<Rightarrow> ustr) \<Rightarrow> ustr \<Rightarrow> ustr" where
  "shard_path sha task_id = sanitize_task_id sha task_id @ str ''.json''"

definition read_shard :: "io \<Rightarrow> disk \<Rightarrow> ustr \<Rightarrow> io_error + (ustr \<times> documents)" where
  "read_shard io dk name =
     (case im_get (dk_shards dk) name of
        None \<Rightarrow> Inl NotFound
      | Some f \<Rightarrow> if \<not> io_read io name then Inl IoFailed
                  else (case sf_content f of CorruptShard \<Rightarrow> Inl IoFailed | Shard task docs \<Rightarrow> Inr (task, docs)))"

definition read_tasks :: "io \<Rightarrow> disk \<Rightarrow> io_error + (ustr, documents) imap" where
  "read_tasks io dk =
     (case dk_legacy dk of
        NoLegacy \<Rightarrow> Inr []
      | CorruptLegacy \<Rightarrow> Inl IoFailed
      | Legacy tasks \<Rightarrow> if io_legacy_read io then Inr tasks else Inl IoFailed)"

definition legacy_task_count :: "io \<Rightarrow> disk \<Rightarrow> nat" where
  "legacy_task_count io dk =
     (case dk_legacy dk of Legacy tasks \<Rightarrow> if io_legacy_read io then length tasks else 0 | _ \<Rightarrow> 0)"

definition im_default :: "('k, 'v list) imap \<Rightarrow> 'k \<Rightarrow> 'v list" where
  "im_default m k = (case im_get m k of Some v \<Rightarrow> v | None \<Rightarrow> [])"

definition read_task_documents :: "(8 word list \<Rightarrow> ustr) \<Rightarrow> io \<Rightarrow> disk \<Rightarrow> ustr \<Rightarrow> io_error + documents" where
  "read_task_documents sha io dk task_id =
     (case read_shard io dk (shard_path sha task_id) of
        Inr (_, docs) \<Rightarrow> Inr docs
      | Inl NotFound \<Rightarrow>
          (case read_tasks io dk of Inl e \<Rightarrow> Inl e | Inr tasks \<Rightarrow> Inr (im_default tasks task_id))
      | Inl e \<Rightarrow> Inl e)"

text \<open>A failed \<open>stat\<close> counts as a missing identity and as a missing file.\<close>

definition shard_identity :: "io \<Rightarrow> disk \<Rightarrow> ustr \<Rightarrow> stamp option" where
  "shard_identity io dk name =
     (if io_stat io name then map_option sf_stamp (im_get (dk_shards dk) name) else None)"

definition shard_exists :: "io \<Rightarrow> disk \<Rightarrow> ustr \<Rightarrow> bool" where
  "shard_exists io dk name \<longleftrightarrow> shard_identity io dk name \<noteq> None"

definition cache_shard :: "ustr \<Rightarrow> stamp \<Rightarrow> documents \<Rightarrow> anchor_storage \<Rightarrow> anchor_storage" where
  "cache_shard task_id s docs st =
     st\<lparr>durable_shards := im_insert task_id \<lparr>cs_stamp = s, cs_documents = docs\<rparr> (durable_shards st)\<rparr>"

definition read_task_documents_cached ::
    "(8 word list \<Rightarrow> ustr) \<Rightarrow> io \<Rightarrow> disk \<Rightarrow> anchor_storage \<Rightarrow> ustr \<Rightarrow> (io_error + documents) \<times> anchor_storage" where
  "read_task_documents_cached sha io dk st task_id =
     (let shard = shard_path sha task_id; ident = shard_identity io dk shard; cached = im_get (durable_shards st) task_id in
      case (case (ident, cached) of
              (Some s, Some c) \<Rightarrow> if cs_stamp c = s then Some (cs_documents c) else None
            | _ \<Rightarrow> None) of
        Some docs \<Rightarrow> (Inr docs, st)
      | None \<Rightarrow>
          (case read_task_documents sha io dk task_id of
             Inl e \<Rightarrow> (Inl e, st)
           | Inr docs \<Rightarrow>
               (Inr docs,
                case ident of
                  Some s \<Rightarrow> cache_shard task_id s docs st
                | None \<Rightarrow> st\<lparr>durable_shards := im_shift_remove task_id (durable_shards st)\<rparr>)))"

text \<open>Only the newest \<open>MAX_TRACKED_FILES\<close> documents are written.\<close>

definition newest :: "documents \<Rightarrow> documents" where
  "newest docs = drop (length docs - MAX_TRACKED_FILES) docs"

definition write_task_documents ::
    "(8 word list \<Rightarrow> ustr) \<Rightarrow> io \<Rightarrow> disk \<Rightarrow> ustr \<Rightarrow> documents \<Rightarrow> io_error + disk" where
  "write_task_documents sha io dk task_id docs =
     (let name = shard_path sha task_id in
      if \<not> io_dir io \<or> \<not> io_write io name then Inl IoFailed
      else Inr (dk\<lparr>dk_shards := im_insert name \<lparr>sf_stamp = io_stamp io name, sf_content = Shard task_id (newest docs)\<rparr>
                                  (dk_shards dk)\<rparr>))"

definition write_task_documents_cached ::
    "(8 word list \<Rightarrow> ustr) \<Rightarrow> io \<Rightarrow> disk \<Rightarrow> anchor_storage \<Rightarrow> ustr \<Rightarrow> documents
       \<Rightarrow> io_error + (disk \<times> anchor_storage)" where
  "write_task_documents_cached sha io dk st task_id docs =
     (case write_task_documents sha io dk task_id docs of
        Inl e \<Rightarrow> Inl e
      | Inr dk' \<Rightarrow>
          Inr (dk', (case shard_identity io dk' (shard_path sha task_id) of
                       Some s \<Rightarrow> cache_shard task_id s docs st | None \<Rightarrow> st)))"

definition forget_missing_shards :: "(8 word list \<Rightarrow> ustr) \<Rightarrow> io \<Rightarrow> disk \<Rightarrow> anchor_storage \<Rightarrow> anchor_storage" where
  "forget_missing_shards sha io dk st =
     st\<lparr>durable_shards := filter (\<lambda>(task_id, _). shard_exists io dk (shard_path sha task_id)) (durable_shards st)\<rparr>"

text \<open>Best effort: whatever fails leaves the legacy file in place.\<close>

definition prune_legacy_task :: "io \<Rightarrow> disk \<Rightarrow> ustr \<Rightarrow> disk" where
  "prune_legacy_task io dk task_id =
     (case read_tasks io dk of
        Inl _ \<Rightarrow> dk
      | Inr tasks \<Rightarrow>
          if im_get tasks task_id = None then dk
          else (let rest = im_shift_remove task_id tasks in
                if rest = [] then (if io_legacy_remove io then dk\<lparr>dk_legacy := NoLegacy\<rparr> else dk)
                else if io_legacy_write io then dk\<lparr>dk_legacy := Legacy rest\<rparr> else dk))"

text \<open>Shards beyond the cap go, oldest first; the sort by modification time is stable.\<close>

definition evict_old_task_shards :: "io \<Rightarrow> disk \<Rightarrow> disk" where
  "evict_old_task_shards io dk =
     (let listed = (if io_list io then filter (\<lambda>(name, _). io_stat io name) (dk_shards dk) else []);
          aged = sort_key (\<lambda>(_, f). - int (fst (sf_stamp f))) listed;
          evicted = drop (MAX_TRACKED_TASKS - legacy_task_count io dk) aged
      in dk\<lparr>dk_shards := foldl (\<lambda>m (name, _). if io_remove io name then im_shift_remove name m else m)
                          (dk_shards dk) evicted\<rparr>)"

section \<open>Loading and saving\<close>

text \<open>The documents and the baseline of a task are adopted from what was read or published.\<close>

definition adopt_task :: "(8 word list \<Rightarrow> ustr) \<Rightarrow> ustr \<Rightarrow> documents \<Rightarrow> anchor_storage \<Rightarrow> anchor_storage" where
  "adopt_task sha task_id docs st =
     st\<lparr>persisted_fingerprints := im_insert task_id (fingerprint_task sha docs) (persisted_fingerprints st),
        as_tasks := im_insert task_id docs (as_tasks st)\<rparr>"

definition ensure_task_loaded ::
    "(8 word list \<Rightarrow> ustr) \<Rightarrow> io \<Rightarrow> disk \<Rightarrow> anchor_storage \<Rightarrow> ustr \<Rightarrow> (io_error + unit) \<times> anchor_storage" where
  "ensure_task_loaded sha io dk st task_id =
     (if im_get (as_tasks st) task_id \<noteq> None then (Inr (), st)
      else
        (case read_task_documents_cached sha io dk st task_id of
           (Inl e, st') \<Rightarrow> (Inl e, st')
         | (Inr docs, st') \<Rightarrow> (Inr (), adopt_task sha task_id docs st')))"

text \<open>Merging memory into the durable documents: a document changed in memory is written where disk still
  has the baseline.\<close>

definition expected_print :: "anchor_storage \<Rightarrow> ustr \<Rightarrow> ustr \<Rightarrow> ustr option" where
  "expected_print st task_id path =
     (case im_get (persisted_fingerprints st) task_id of None \<Rightarrow> None | Some fps \<Rightarrow> im_get fps path)"

definition disk_print :: "(8 word list \<Rightarrow> ustr) \<Rightarrow> documents \<Rightarrow> ustr \<Rightarrow> ustr option" where
  "disk_print sha docs path = map_option (fingerprint_document sha) (im_get docs path)"

definition merge_document ::
    "(8 word list \<Rightarrow> ustr) \<Rightarrow> anchor_storage \<Rightarrow> ustr \<Rightarrow> bool \<times> documents \<Rightarrow> ustr \<times> tracked_document \<Rightarrow> bool \<times> documents" where
  "merge_document sha st task_id = (\<lambda>(changed, docs) (path, d).
     (if Some (fingerprint_document sha d) = expected_print st task_id path then (changed, docs)
      else if disk_print sha docs path = expected_print st task_id path then (True, im_insert path d docs)
      else (changed, docs)))"

definition drop_document ::
    "(8 word list \<Rightarrow> ustr) \<Rightarrow> anchor_storage \<Rightarrow> ustr \<Rightarrow> bool \<times> documents \<Rightarrow> ustr \<times> ustr \<Rightarrow> bool \<times> documents" where
  "drop_document sha st task_id = (\<lambda>(changed, docs) (path, expected).
     (if (case im_get (as_tasks st) task_id of None \<Rightarrow> True | Some files \<Rightarrow> im_get files path = None)
         \<and> disk_print sha docs path = Some expected
      then (True, im_shift_remove path docs) else (changed, docs)))"

definition merge_task ::
    "(8 word list \<Rightarrow> ustr) \<Rightarrow> anchor_storage \<Rightarrow> ustr \<Rightarrow> documents \<Rightarrow> bool \<times> documents" where
  "merge_task sha st task_id docs =
     (let merged = foldl (merge_document sha st task_id) (False, docs) (im_default (as_tasks st) task_id);
          (changed, docs') = foldl (drop_document sha st task_id) merged
                               (im_default (persisted_fingerprints st) task_id)
      in (changed \<or> MAX_TRACKED_FILES < length docs', newest docs'))"

text \<open>One task after another; the first failure ends the save.\<close>

fun save_tasks ::
    "(8 word list \<Rightarrow> ustr) \<Rightarrow> io \<Rightarrow> ustr list \<Rightarrow> disk \<Rightarrow> anchor_storage \<Rightarrow> bool \<times> disk \<times> anchor_storage" where
  "save_tasks sha io [] dk st = (True, dk, st)"
| "save_tasks sha io (task_id # ids) dk st =
     (case read_task_documents_cached sha io dk st task_id of
        (Inl e, st') \<Rightarrow> (False, dk, st')
      | (Inr docs, st') \<Rightarrow>
          (let (changed, docs') = merge_task sha st' task_id docs in
           if changed
           then (case write_task_documents_cached sha io dk st' task_id docs' of
                   Inl e \<Rightarrow> (False, dk, st')
                 | Inr (dk', st'') \<Rightarrow>
                     save_tasks sha io ids (prune_legacy_task io dk' task_id) (adopt_task sha task_id docs' st''))
           else save_tasks sha io ids dk (adopt_task sha task_id docs' st')))"

definition save_storage ::
    "(8 word list \<Rightarrow> ustr) \<Rightarrow> (ustr list \<Rightarrow> ustr list) \<Rightarrow> io \<Rightarrow> disk \<Rightarrow> anchor_storage \<Rightarrow> disk \<times> anchor_storage" where
  "save_storage sha order io dk st =
     (if \<not> io_dir io \<or> \<not> io_lock io then (dk, st)
      else
        (let ids = order (remdups (im_keys (as_tasks st) @ im_keys (persisted_fingerprints st))) in
         case save_tasks sha io ids dk st of
           (False, dk', st') \<Rightarrow> (dk', st')
         | (True, dk', st') \<Rightarrow>
             (let dk'' = evict_old_task_shards io dk' in (dk'', forget_missing_shards sha io dk'' st'))))"

section \<open>Committing transitions\<close>

text \<open>The durable documents of every task in the batch, each read once.\<close>

fun load_durable ::
    "(8 word list \<Rightarrow> ustr) \<Rightarrow> io \<Rightarrow> disk \<Rightarrow> anchor_storage \<Rightarrow> (ustr, documents) imap \<Rightarrow> anchor_transition list
       \<Rightarrow> (anchor_transition_error + (ustr, documents) imap) \<times> anchor_storage" where
  "load_durable sha io dk st durable [] = (Inr durable, st)"
| "load_durable sha io dk st durable (t # ts) =
     (if im_get durable (tr_task_id t) \<noteq> None then load_durable sha io dk st durable ts
      else
        (case (if tr_memory_expected t \<noteq> None then ensure_task_loaded sha io dk st (tr_task_id t) else (Inr (), st)) of
           (Inl e, st') \<Rightarrow> (Inl (persistence io e), st')
         | (Inr _, st') \<Rightarrow>
             (case read_task_documents_cached sha io dk st' (tr_task_id t) of
                (Inl e, st'') \<Rightarrow> (Inl (persistence io e), st'')
              | (Inr docs, st'') \<Rightarrow> load_durable sha io dk st'' (im_insert (tr_task_id t) docs durable) ts)))"

definition document_in :: "(ustr, documents) imap \<Rightarrow> ustr \<Rightarrow> ustr \<Rightarrow> tracked_document option" where
  "document_in m task_id path = (case im_get m task_id of None \<Rightarrow> None | Some files \<Rightarrow> im_get files path)"

definition msg_duplicate_target :: ustr where "msg_duplicate_target = str ''duplicate transition target''"
definition msg_metadata :: ustr where "msg_metadata = str ''transition metadata differs from staged document''"

definition metadata_agrees :: "anchor_transition \<Rightarrow> bool" where
  "metadata_agrees t \<longleftrightarrow> tr_anchors t = td_anchors (tr_document t)
     \<and> compute_hashes (output_lines t) = td_hashes (tr_document t)
     \<and> tr_generation t = td_generation (tr_document t)
     \<and> expected_generation t = map_option td_generation (tr_expected t)"

definition target :: "anchor_transition \<Rightarrow> ustr \<times> ustr" where
  "target t = (tr_task_id t, tr_absolute_path t)"

fun transition_errors ::
    "(ustr, documents) imap \<Rightarrow> (ustr, documents) imap \<Rightarrow> (ustr \<times> ustr) set \<Rightarrow> anchor_transition list
       \<Rightarrow> anchor_transition_error option" where
  "transition_errors memory durable seen [] = None"
| "transition_errors memory durable seen (t # ts) =
     (if target t \<in> seen then Some (Validation msg_duplicate_target)
      else if \<not> metadata_agrees t then Some (Validation msg_metadata)
      else if document_in memory (tr_task_id t) (tr_absolute_path t) \<noteq> tr_memory_expected t
              \<or> document_in durable (tr_task_id t) (tr_absolute_path t) \<noteq> tr_expected t
      then Some (StaleGeneration (tr_absolute_path t))
      else transition_errors memory durable (insert (target t) seen) ts)"

text \<open>The effect of one transition on the durable documents of its task.\<close>

definition apply_transition :: "(ustr, documents) imap \<Rightarrow> anchor_transition \<Rightarrow> (ustr, documents) imap" where
  "apply_transition durable t =
     (if is_noop t then durable
      else (case im_get durable (tr_task_id t) of
              None \<Rightarrow> durable
            | Some files \<Rightarrow>
                im_insert (tr_task_id t)
                  (if tr_snapshot_mode t then im_shift_remove (tr_absolute_path t) files
                   else im_insert (tr_absolute_path t) (tr_document t) (im_shift_remove (tr_absolute_path t) files))
                  durable))"

fun write_tasks ::
    "(8 word list \<Rightarrow> ustr) \<Rightarrow> io \<Rightarrow> (ustr, documents) imap \<Rightarrow> ustr list \<Rightarrow> disk \<Rightarrow> anchor_storage
       \<Rightarrow> (io_error + unit) \<times> disk \<times> anchor_storage" where
  "write_tasks sha io durable [] dk st = (Inr (), dk, st)"
| "write_tasks sha io durable (task_id # ids) dk st =
     (case write_task_documents_cached sha io dk st task_id (im_default durable task_id) of
        Inl e \<Rightarrow> (Inl e, dk, st)
      | Inr (dk', st') \<Rightarrow> write_tasks sha io durable ids (prune_legacy_task io dk' task_id) st')"

definition adopt_tasks :: "(8 word list \<Rightarrow> ustr) \<Rightarrow> (ustr, documents) imap \<Rightarrow> ustr list \<Rightarrow> anchor_storage \<Rightarrow> anchor_storage" where
  "adopt_tasks sha durable ids st = foldl (\<lambda>s task_id. adopt_task sha task_id (im_default durable task_id) s) st ids"

definition publish_durable ::
    "(8 word list \<Rightarrow> ustr) \<Rightarrow> (ustr list \<Rightarrow> ustr list) \<Rightarrow> io \<Rightarrow> (ustr, documents) imap \<Rightarrow> disk \<Rightarrow> anchor_storage
       \<Rightarrow> (anchor_transition_error + unit) \<times> disk \<times> anchor_storage" where
  "publish_durable sha order io durable dk st =
     (let ids = order (im_keys durable) in
      case write_tasks sha io durable ids dk st of
        (Inl e, dk', st') \<Rightarrow> (Inl (persistence io e), dk', st')
      | (Inr _, dk', st') \<Rightarrow>
          (let dk'' = evict_old_task_shards io dk' in
           (Inr (), dk'', adopt_tasks sha durable ids (forget_missing_shards sha io dk'' st'))))"

definition check_transitions ::
    "(8 word list \<Rightarrow> ustr) \<Rightarrow> (ustr list \<Rightarrow> ustr list) \<Rightarrow> io \<Rightarrow> bool \<Rightarrow> anchor_transition list \<Rightarrow> disk \<Rightarrow> anchor_storage
       \<Rightarrow> (anchor_transition_error + unit) \<times> disk \<times> anchor_storage" where
  "check_transitions sha order io publish ts dk st =
     (if ts = [] then (Inr (), dk, st)
      else if \<not> io_dir io \<or> \<not> io_lock io then (Inl (persistence io IoFailed), dk, st)
      else
        (case load_durable sha io dk st [] ts of
           (Inl e, st') \<Rightarrow> (Inl e, dk, st')
         | (Inr durable, st') \<Rightarrow>
             (case transition_errors (as_tasks st') durable {} ts of
                Some e \<Rightarrow> (Inl e, dk, st')
              | None \<Rightarrow>
                  if \<not> publish \<or> list_all is_noop ts then (Inr (), dk, st')
                  else publish_durable sha order io (foldl apply_transition durable ts) dk st')))"

definition commit_transitions_checked where
  "commit_transitions_checked sha order io ts dk st = check_transitions sha order io True ts dk st"

definition validate_transitions_checked where
  "validate_transitions_checked sha order io ts dk st = check_transitions sha order io False ts dk st"

section \<open>Publishing a reconciled document\<close>

definition stale_print :: "(8 word list \<Rightarrow> ustr) \<Rightarrow> anchor_storage \<Rightarrow> ustr \<Rightarrow> ustr \<Rightarrow> ustr \<times> tracked_document \<Rightarrow> ustr \<times> ustr" where
  "stale_print sha st task_id published = (\<lambda>(path, current).
     (path, (if path \<noteq> published \<and> document_in (as_tasks st) task_id path = Some current
             then (case expected_print st task_id path of Some f \<Rightarrow> f | None \<Rightarrow> fingerprint_document sha current)
             else fingerprint_document sha current)))"

definition publish_reconciled_document ::
    "(8 word list \<Rightarrow> ustr) \<Rightarrow> io \<Rightarrow> ustr \<Rightarrow> ustr \<Rightarrow> tracked_document option \<Rightarrow> tracked_document option \<Rightarrow> tracked_document
       \<Rightarrow> disk \<Rightarrow> anchor_storage \<Rightarrow> (anchor_transition_error + unit) \<times> disk \<times> anchor_storage" where
  "publish_reconciled_document sha io path task_id memory_expected disk_expected doc dk st =
     (if disk_expected = None \<and> memory_expected \<noteq> None then (Inl (StaleGeneration path), dk, st)
      else if \<not> io_dir io \<or> \<not> io_lock io then (Inl (persistence io IoFailed), dk, st)
      else
        (case read_task_documents_cached sha io dk st task_id of
           (Inl e, st') \<Rightarrow> (Inl (persistence io e), dk, st')
         | (Inr docs, st') \<Rightarrow>
             if document_in (as_tasks st') task_id path \<noteq> memory_expected \<or> im_get docs path \<noteq> disk_expected
             then (Inl (StaleGeneration path), dk, st')
             else
               (let docs' = im_insert path doc (im_shift_remove path docs) in
                case write_task_documents_cached sha io dk st' task_id docs' of
                  Inl e \<Rightarrow> (Inl (persistence io e), dk, st')
                | Inr (dk', st'') \<Rightarrow>
                    (let dk'' = evict_old_task_shards io (prune_legacy_task io dk' task_id);
                         kept = forget_missing_shards sha io dk'' st''
                     in (Inr (), dk'',
                         kept\<lparr>persisted_fingerprints := im_insert task_id (map (stale_print sha kept task_id path) docs')
                                                         (persisted_fingerprints kept),
                              as_tasks := im_insert task_id docs' (as_tasks kept)\<rparr>)))))"

section \<open>The tasks in memory\<close>

definition evict_task :: "ustr \<Rightarrow> anchor_storage \<Rightarrow> anchor_storage" where
  "evict_task task_id st =
     (case filter (\<lambda>k. k \<noteq> task_id) (im_keys (as_tasks st)) of
        [] \<Rightarrow> st
      | oldest # _ \<Rightarrow> st\<lparr>as_tasks := im_shift_remove oldest (as_tasks st),
                         persisted_fingerprints := im_shift_remove oldest (persisted_fingerprints st)\<rparr>)"

text \<open>Both accessors move the task to the back; the oldest other task goes when the cap is reached.\<close>

definition get_task_state ::
    "(8 word list \<Rightarrow> ustr) \<Rightarrow> io \<Rightarrow> disk \<Rightarrow> anchor_storage \<Rightarrow> ustr \<Rightarrow> documents \<times> anchor_storage" where
  "get_task_state sha io dk st task_id =
     (case ensure_task_loaded sha io dk st task_id of
        (Inl _, st') \<Rightarrow> ([], st')
      | (Inr _, st') \<Rightarrow>
          (let state = im_default (as_tasks st') task_id;
               removed = st'\<lparr>as_tasks := im_shift_remove task_id (as_tasks st')\<rparr>;
               room = (if MAX_TRACKED_TASKS \<le> length (as_tasks removed) then evict_task task_id removed else removed)
           in (state, room\<lparr>as_tasks := im_insert task_id state (as_tasks room)\<rparr>)))"

definition touch_task :: "ustr \<Rightarrow> anchor_storage \<Rightarrow> anchor_storage" where
  "touch_task task_id st =
     (let full = (im_get (as_tasks st) task_id = None \<and> MAX_TRACKED_TASKS \<le> length (as_tasks st))
                   \<or> MAX_TRACKED_TASKS < length (as_tasks st);
          room = (if full then evict_task task_id st else st)
      in room\<lparr>as_tasks := im_insert task_id (im_default (as_tasks room) task_id)
                            (im_shift_remove task_id (as_tasks room))\<rparr>)"

definition set_document :: "ustr \<Rightarrow> ustr \<Rightarrow> tracked_document \<Rightarrow> anchor_storage \<Rightarrow> anchor_storage" where
  "set_document task_id path doc st =
     st\<lparr>as_tasks := im_insert task_id (im_insert path doc (im_default (as_tasks st) task_id)) (as_tasks st)\<rparr>"

definition forget_print :: "ustr \<Rightarrow> ustr \<Rightarrow> anchor_storage \<Rightarrow> anchor_storage" where
  "forget_print task_id path st =
     (case im_get (persisted_fingerprints st) task_id of
        None \<Rightarrow> st
      | Some fps \<Rightarrow> st\<lparr>persisted_fingerprints := im_insert task_id (im_shift_remove path fps) (persisted_fingerprints st)\<rparr>)"

definition msg_not_republished :: ustr where
  "msg_not_republished = str ''anchor cache did not contain the republished document''"

definition republish_document ::
    "(8 word list \<Rightarrow> ustr) \<Rightarrow> (ustr list \<Rightarrow> ustr list) \<Rightarrow> io \<Rightarrow> ustr \<Rightarrow> ustr \<Rightarrow> tracked_document
       \<Rightarrow> disk \<Rightarrow> anchor_storage \<Rightarrow> (anchor_transition_error + unit) \<times> disk \<times> anchor_storage" where
  "republish_document sha order io path task_id doc dk st =
     (let (dk', st') = save_storage sha order io dk (forget_print task_id path (set_document task_id path doc st)) in
      case read_task_documents_cached sha io dk' st' task_id of
        (Inl e, st'') \<Rightarrow> (Inl (persistence io e), dk', st'')
      | (Inr docs, st'') \<Rightarrow>
          if im_get docs path = Some doc then (Inr (), dk', st'')
          else (Inl (Persistence msg_not_republished), dk', st''))"

section \<open>Reconciliation\<close>

text \<open>A reader adopts the committed document before it diffs.\<close>

definition adopt_document ::
    "(8 word list \<Rightarrow> ustr) \<Rightarrow> ustr \<Rightarrow> ustr \<Rightarrow> tracked_document \<Rightarrow> anchor_storage \<Rightarrow> anchor_storage" where
  "adopt_document sha task_id path doc st =
     (set_document task_id path doc st)
       \<lparr>persisted_fingerprints := im_insert task_id
          (im_insert path (fingerprint_document sha doc) (im_default (persisted_fingerprints st) task_id))
          (persisted_fingerprints st)\<rparr>"

definition refresh_document :: "ustr \<Rightarrow> ustr \<Rightarrow> anchor_storage \<Rightarrow> anchor_storage" where
  "refresh_document task_id path st =
     (let st' = touch_task task_id st; files = im_default (as_tasks st') task_id in
      case im_get files path of
        None \<Rightarrow> st'
      | Some d \<Rightarrow> st'\<lparr>as_tasks := im_insert task_id (im_insert path d (im_shift_remove path files)) (as_tasks st')\<rparr>)"

text \<open>Publication of a document computed by reconciliation; the result carries its anchors.\<close>

definition publish_anchors ::
    "(8 word list \<Rightarrow> ustr) \<Rightarrow> io \<Rightarrow> ustr \<Rightarrow> ustr \<Rightarrow> tracked_document option \<Rightarrow> tracked_document option \<Rightarrow> tracked_document
       \<Rightarrow> disk \<Rightarrow> anchor_storage \<Rightarrow> (anchor_transition_error + ustr list) \<times> disk \<times> anchor_storage" where
  "publish_anchors sha io path task_id memory_expected disk_expected doc dk st =
     (case publish_reconciled_document sha io path task_id memory_expected disk_expected doc dk st of
        (Inl e, dk', st') \<Rightarrow> (Inl e, dk', st')
      | (Inr _, dk', st') \<Rightarrow> (Inr (td_anchors doc), dk', st'))"

definition reconcile_tracked ::
    "(8 word list \<Rightarrow> ustr) \<Rightarrow> (ustr list \<Rightarrow> ustr list) \<Rightarrow> (64 word list \<Rightarrow> 64 word list \<Rightarrow> diff_op list) \<Rightarrow> ustr \<Rightarrow> io
       \<Rightarrow> ustr \<Rightarrow> ustr \<Rightarrow> 64 word list \<Rightarrow> tracked_document option \<Rightarrow> tracked_document option \<Rightarrow> disk \<Rightarrow> anchor_storage
       \<Rightarrow> ((anchor_transition_error + ustr list) \<times> disk \<times> anchor_storage) option" where
  "reconcile_tracked sha order diff fresh io path task_id hashes durable tracked dk st =
     (case tracked of
        Some d \<Rightarrow>
          if td_hashes d = hashes
          then (let st' = refresh_document task_id path st in
                if durable = None
                then Some (case republish_document sha order io path task_id d dk st' of
                             (Inl e, dk', st'') \<Rightarrow> (Inl e, dk', st'')
                           | (Inr _, dk', st'') \<Rightarrow> (Inr (td_anchors d), dk', st''))
                else Some (Inr (td_anchors d), dk, st'))
          else (case reconcile_document diff fresh d hashes of
                  None \<Rightarrow> None
                | Some (Inl e) \<Rightarrow> Some (Inl e, dk, st)
                | Some (Inr doc) \<Rightarrow> Some (publish_anchors sha io path task_id tracked durable doc dk st))
      | None \<Rightarrow>
          (case first_document fresh hashes of
             Inl e \<Rightarrow> Some (Inl e, dk, st)
           | Inr doc \<Rightarrow> Some (publish_anchors sha io path task_id tracked durable doc dk st)))"

definition reconcile_checked ::
    "(8 word list \<Rightarrow> ustr) \<Rightarrow> (ustr list \<Rightarrow> ustr list) \<Rightarrow> (64 word list \<Rightarrow> 64 word list \<Rightarrow> diff_op list) \<Rightarrow> ustr \<Rightarrow> io
       \<Rightarrow> ustr \<Rightarrow> ustr list \<Rightarrow> ustr \<Rightarrow> disk \<Rightarrow> anchor_storage
       \<Rightarrow> ((anchor_transition_error + ustr list) \<times> disk \<times> anchor_storage) option" where
  "reconcile_checked sha order diff fresh io path ls task_id dk st =
     (if MAX_TRACKED_LINES < length ls then Some (Inr (snapshot_line_anchors sha ls), dk, st)
      else
        (case ensure_task_loaded sha io dk st task_id of
           (Inl e, st1) \<Rightarrow> Some (Inl (persistence io e), dk, st1)
         | (Inr _, st1) \<Rightarrow>
             (case read_task_documents_cached sha io dk st1 task_id of
                (Inl e, st2) \<Rightarrow> Some (Inl (persistence io e), dk, st2)
              | (Inr docs, st2) \<Rightarrow>
                  (let durable = im_get docs path;
                       st3 = (case durable of Some d \<Rightarrow> adopt_document sha task_id path d st2 | None \<Rightarrow> st2);
                       st4 = touch_task task_id st3
                   in reconcile_tracked sha order diff fresh io path task_id (compute_hashes ls) durable
                        (document_in (as_tasks st4) task_id path) dk st4))))"

section \<open>The remaining operations\<close>

definition observe_snapshot ::
    "(8 word list \<Rightarrow> ustr) \<Rightarrow> ustr \<Rightarrow> io \<Rightarrow> ustr \<Rightarrow> ustr \<Rightarrow> ustr \<Rightarrow> disk \<Rightarrow> anchor_storage
       \<Rightarrow> (anchor_transition_error + anchor_snapshot) \<times> anchor_storage" where
  "observe_snapshot sha fresh io path raw_content task_id dk st =
     (case read_task_documents_cached sha io dk st task_id of
        (Inl e, st1) \<Rightarrow> (Inl (persistence io e), st1)
      | (Inr docs, st1) \<Rightarrow>
          (case (if docs \<noteq> [] then ensure_task_loaded sha io dk st1 task_id else (Inr (), st1)) of
             (Inl e, st2) \<Rightarrow> (Inl (persistence io e), st2)
           | (Inr _, st2) \<Rightarrow>
               (observe_content sha fresh path task_id raw_content
                  (document_in (as_tasks st2) task_id path) (im_get docs path), st2)))"

definition invalidate_state ::
    "(8 word list \<Rightarrow> ustr) \<Rightarrow> io \<Rightarrow> ustr \<Rightarrow> ustr \<Rightarrow> disk \<Rightarrow> anchor_storage \<Rightarrow> anchor_storage" where
  "invalidate_state sha io path task_id dk st =
     (let st1 = (case ensure_task_loaded sha io dk st task_id of
                   (Inl _, st') \<Rightarrow> if im_get (as_tasks st') task_id = None
                                   then st'\<lparr>as_tasks := im_insert task_id [] (as_tasks st')\<rparr> else st'
                 | (Inr _, st') \<Rightarrow> st');
          st2 = (case im_get (as_tasks st1) task_id of
                   None \<Rightarrow> st1
                 | Some files \<Rightarrow> st1\<lparr>as_tasks := im_insert task_id (im_shift_remove path files) (as_tasks st1)\<rparr>)
      in forget_print task_id path st2)"

definition is_tracking :: "(8 word list \<Rightarrow> ustr) \<Rightarrow> io \<Rightarrow> ustr \<Rightarrow> ustr \<Rightarrow> disk \<Rightarrow> anchor_storage \<Rightarrow> bool \<times> anchor_storage" where
  "is_tracking sha io path task_id dk st =
     (let (files, st') = get_task_state sha io dk st task_id in (im_get files path \<noteq> None, st'))"

definition get_anchors ::
    "(8 word list \<Rightarrow> ustr) \<Rightarrow> io \<Rightarrow> ustr \<Rightarrow> ustr \<Rightarrow> disk \<Rightarrow> anchor_storage \<Rightarrow> ustr list option \<times> anchor_storage" where
  "get_anchors sha io path task_id dk st =
     (let (files, st') = get_task_state sha io dk st task_id in (map_option td_anchors (im_get files path), st'))"

definition reconcile ::
    "(8 word list \<Rightarrow> ustr) \<Rightarrow> (ustr list \<Rightarrow> ustr list) \<Rightarrow> (64 word list \<Rightarrow> 64 word list \<Rightarrow> diff_op list) \<Rightarrow> ustr \<Rightarrow> io
       \<Rightarrow> ustr \<Rightarrow> ustr list \<Rightarrow> ustr \<Rightarrow> disk \<Rightarrow> anchor_storage \<Rightarrow> (ustr list \<times> disk \<times> anchor_storage) option" where
  "reconcile sha order diff fresh io path ls task_id dk st =
     (case reconcile_checked sha order diff fresh io path ls task_id dk st of
        None \<Rightarrow> None
      | Some (Inr anchors, dk', st') \<Rightarrow> Some (anchors, dk', st')
      | Some (Inl _, dk', st') \<Rightarrow>
          (let (anchors, st'') = get_anchors sha io path task_id dk' st' in
           Some (case anchors of Some a \<Rightarrow> a | None \<Rightarrow> [], dk', st'')))"

definition clear_state ::
    "(8 word list \<Rightarrow> ustr) \<Rightarrow> (ustr list \<Rightarrow> ustr list) \<Rightarrow> io \<Rightarrow> ustr \<Rightarrow> ustr \<Rightarrow> disk \<Rightarrow> anchor_storage \<Rightarrow> disk \<times> anchor_storage" where
  "clear_state sha order io path task_id dk st =
     (let (files, st1) = get_task_state sha io dk st task_id in
      save_storage sha order io dk (st1\<lparr>as_tasks := im_insert task_id (im_shift_remove path files) (as_tasks st1)\<rparr>))"

text \<open>The tasks a full reset covers: those of every shard, then the legacy ones. \<open>None\<close> is an unreadable file.\<close>

fun shard_tasks :: "io \<Rightarrow> disk \<Rightarrow> ustr list \<Rightarrow> ustr list option" where
  "shard_tasks io dk [] = Some []"
| "shard_tasks io dk (name # names) =
     (case read_shard io dk name of
        Inl _ \<Rightarrow> None
      | Inr (task_id, _) \<Rightarrow> (case shard_tasks io dk names of None \<Rightarrow> None | Some ids \<Rightarrow> Some (task_id # ids)))"

fun load_tasks ::
    "(8 word list \<Rightarrow> ustr) \<Rightarrow> io \<Rightarrow> disk \<Rightarrow> ustr list \<Rightarrow> anchor_storage \<Rightarrow> bool \<times> anchor_storage" where
  "load_tasks sha io dk [] st = (True, st)"
| "load_tasks sha io dk (task_id # ids) st =
     (case ensure_task_loaded sha io dk st task_id of
        (Inl _, st') \<Rightarrow> (False, st') | (Inr _, st') \<Rightarrow> load_tasks sha io dk ids st')"

definition reset_anchors ::
    "(8 word list \<Rightarrow> ustr) \<Rightarrow> (ustr list \<Rightarrow> ustr list) \<Rightarrow> io \<Rightarrow> ustr option \<Rightarrow> disk \<Rightarrow> anchor_storage \<Rightarrow> disk \<times> anchor_storage" where
  "reset_anchors sha order io task_id dk st =
     (case task_id of
        Some i \<Rightarrow>
          (case ensure_task_loaded sha io dk st i of
             (Inl _, st') \<Rightarrow> (dk, st')
           | (Inr _, st') \<Rightarrow> save_storage sha order io dk (st'\<lparr>as_tasks := im_shift_remove i (as_tasks st')\<rparr>))
      | None \<Rightarrow>
          (case shard_tasks io dk (if io_list io then im_keys (dk_shards dk) else []) of
             None \<Rightarrow> (dk, st)
           | Some ids \<Rightarrow>
               (case read_tasks io dk of
                  Inl _ \<Rightarrow> (dk, st)
                | Inr legacy \<Rightarrow>
                    (case load_tasks sha io dk (ids @ im_keys legacy) st of
                       (False, st') \<Rightarrow> (dk, st')
                     | (True, st') \<Rightarrow> save_storage sha order io dk (st'\<lparr>as_tasks := []\<rparr>)))))"

text \<open>Migration of the legacy file on load; a backup that cannot be written keeps the file.\<close>

fun migrate_tasks ::
    "(8 word list \<Rightarrow> ustr) \<Rightarrow> io \<Rightarrow> (ustr, documents) imap \<Rightarrow> disk \<Rightarrow> bool \<times> disk" where
  "migrate_tasks sha io [] dk = (True, dk)"
| "migrate_tasks sha io ((task_id, docs) # rest) dk =
     (let name = shard_path sha task_id in
      if shard_exists io dk name \<and> (case read_shard io dk name of Inr _ \<Rightarrow> True | Inl _ \<Rightarrow> False)
      then migrate_tasks sha io rest dk
      else (case write_task_documents sha io dk task_id docs of
              Inl _ \<Rightarrow> (False, dk) | Inr dk' \<Rightarrow> migrate_tasks sha io rest dk'))"

definition migrate_legacy_to_shards :: "(8 word list \<Rightarrow> ustr) \<Rightarrow> io \<Rightarrow> disk \<Rightarrow> disk" where
  "migrate_legacy_to_shards sha io dk =
     (if dk_legacy dk = NoLegacy \<or> \<not> io_lock io then dk
      else (case read_tasks io dk of
              Inl _ \<Rightarrow> dk
            | Inr tasks \<Rightarrow>
                (case migrate_tasks sha io tasks dk of
                   (False, dk') \<Rightarrow> dk'
                 | (True, dk') \<Rightarrow>
                     if io_legacy_write io \<and> io_legacy_remove io then dk'\<lparr>dk_legacy := NoLegacy\<rparr> else dk')))"

definition load_storage :: "(8 word list \<Rightarrow> ustr) \<Rightarrow> io \<Rightarrow> disk \<Rightarrow> disk \<times> anchor_storage" where
  "load_storage sha io dk =
     (migrate_legacy_to_shards sha io dk, \<lparr>as_tasks = [], persisted_fingerprints = [], durable_shards = []\<rparr>)"

section \<open>Reading\<close>

text \<open>A read touches nothing but the cache of decoded shards.\<close>

lemma read_cached_frame:
  assumes "read_task_documents_cached sha io dk st task_id = (r, st')"
  shows "as_tasks st' = as_tasks st" and "persisted_fingerprints st' = persisted_fingerprints st"
  using assms by (auto simp: read_task_documents_cached_def Let_def cache_shard_def split: option.splits sum.splits if_splits)

lemma document_in_insert:
  "document_in (im_insert task_id docs m) t path = (if t = task_id then im_get docs path else document_in m t path)"
  by (simp add: document_in_def)

lemma adopt_task_simps [simp]:
  "as_tasks (adopt_task sha task_id docs st) = im_insert task_id docs (as_tasks st)"
  "durable_shards (adopt_task sha task_id docs st) = durable_shards st"
  by (simp_all add: adopt_task_def)

text \<open>Loading a task leaves every task already in memory alone.\<close>

lemma ensure_loaded_keeps:
  assumes "ensure_task_loaded sha io dk st task_id = (r, st')" and "im_get (as_tasks st) t = Some docs"
  shows "im_get (as_tasks st') t = Some docs"
proof (cases "im_get (as_tasks st) task_id")
  case None
  obtain q s where q: "read_task_documents_cached sha io dk st task_id = (q, s)" by fastforce
  show ?thesis
    using assms None read_cached_frame(1)[OF q] by (cases q) (auto simp: ensure_task_loaded_def q)
qed (use assms in \<open>simp add: ensure_task_loaded_def\<close>)

lemma load_durable_keeps:
  "load_durable sha io dk st durable ts = (r, st') \<Longrightarrow> im_get (as_tasks st) t = Some docs \<Longrightarrow>
   im_get (as_tasks st') t = Some docs"
proof (induction ts arbitrary: st durable)
  case (Cons x ts)
  show ?case
  proof (cases "im_get durable (tr_task_id x)")
    case (Some y)
    then show ?thesis using Cons by simp
  next
    case None
    obtain r1 st1 where e: "(if tr_memory_expected x \<noteq> None then ensure_task_loaded sha io dk st (tr_task_id x) else (Inr (), st)) = (r1, st1)"
      by fastforce
    have s1: "im_get (as_tasks st1) t = Some docs"
      using e Cons.prems(2) ensure_loaded_keeps by (fastforce split: if_splits)
    obtain r2 st2 where rd: "read_task_documents_cached sha io dk st1 (tr_task_id x) = (r2, st2)" by fastforce
    have s2: "im_get (as_tasks st2) t = Some docs" using read_cached_frame(1)[OF rd] s1 by simp
    show ?thesis
      using Cons.prems(1) None e rd s1 s2 Cons.IH[of st2] by (cases r1; cases r2) auto
  qed
qed simp

section \<open>Committing\<close>

lemma write_tasks_one:
  "write_tasks sha io durable [task_id] dk st = (Inl e, dk', st') \<Longrightarrow> dk' = dk \<and> st' = st"
  by (auto split: sum.splits prod.splits)

lemma write_cached_frame:
  assumes "write_task_documents_cached sha io dk st task_id docs = Inr (dk', st')"
  shows "as_tasks st' = as_tasks st" and "persisted_fingerprints st' = persisted_fingerprints st"
  using assms by (auto simp: write_task_documents_cached_def cache_shard_def split: sum.splits option.splits)

lemma write_tasks_frame: "write_tasks sha io durable ids dk st = (r, dk', st') \<Longrightarrow> as_tasks st' = as_tasks st"
proof (induction ids arbitrary: dk st)
  case (Cons i ids)
  show ?case
  proof (cases "write_task_documents_cached sha io dk st i (im_default durable i)")
    case (Inr x)
    obtain d s where x: "x = (d, s)" by fastforce
    show ?thesis using Cons.IH[of "prune_legacy_task io d i" s] Cons.prems write_cached_frame(1)[OF Inr[unfolded x]]
      by (simp add: Inr x)
  qed (use Cons.prems in simp)
qed simp

text \<open>Without an error every transition met the state it was staged from.\<close>

lemma transition_errors_None:
  "transition_errors memory durable seen ts = None \<Longrightarrow>
   distinct (map target ts) \<and> set (map target ts) \<inter> seen = {} \<and>
   (\<forall>t \<in> set ts. metadata_agrees t
      \<and> document_in memory (tr_task_id t) (tr_absolute_path t) = tr_memory_expected t
      \<and> document_in durable (tr_task_id t) (tr_absolute_path t) = tr_expected t)"
proof (induction ts arbitrary: seen)
  case (Cons t ts)
  have "target t \<notin> seen" "metadata_agrees t"
    "document_in memory (tr_task_id t) (tr_absolute_path t) = tr_memory_expected t"
    "document_in durable (tr_task_id t) (tr_absolute_path t) = tr_expected t"
    and rest: "transition_errors memory durable (insert (target t) seen) ts = None"
    using Cons.prems by (simp_all split: if_splits)
  then show ?case using Cons.IH[OF rest] by auto
qed simp

text \<open>The documents a batch leads to.\<close>

definition outcome_of :: "anchor_transition \<Rightarrow> tracked_document option" where
  "outcome_of t = (if tr_snapshot_mode t then None else Some (tr_document t))"

lemma apply_transition_document:
  "im_get durable (tr_task_id t) \<noteq> None \<Longrightarrow> \<not> is_noop t \<Longrightarrow>
   document_in (apply_transition durable t) i p =
     (if (i, p) = target t then outcome_of t else document_in durable i p)"
  by (auto simp: apply_transition_def document_in_def target_def outcome_of_def split: option.splits)

lemma apply_transition_noop: "is_noop t \<Longrightarrow> apply_transition durable t = durable"
  by (simp add: apply_transition_def)

lemma apply_transition_keys:
  "im_get (apply_transition durable t) i = None \<longleftrightarrow> im_get durable i = None"
  by (auto simp: apply_transition_def split: option.splits)

lemma apply_transitions_other:
  "(i, p) \<notin> set (map target ts) \<Longrightarrow> document_in (foldl apply_transition durable ts) i p = document_in durable i p"
proof (induction ts arbitrary: durable)
  case (Cons t ts)
  have "document_in (apply_transition durable t) i p = document_in durable i p"
    using Cons.prems by (auto simp: apply_transition_def document_in_def target_def split: option.splits)
  then show ?case using Cons by simp
qed simp

lemma apply_transitions_at:
  "distinct (map target ts) \<Longrightarrow> (\<forall>t \<in> set ts. im_get durable (tr_task_id t) \<noteq> None) \<Longrightarrow> t \<in> set ts \<Longrightarrow> \<not> is_noop t \<Longrightarrow>
   document_in (foldl apply_transition durable ts) (tr_task_id t) (tr_absolute_path t) = outcome_of t"
proof (induction ts arbitrary: durable)
  case (Cons x ts)
  have keys: "\<forall>t \<in> set ts. im_get (apply_transition durable x) (tr_task_id t) \<noteq> None"
    using Cons.prems(2) apply_transition_keys[of durable x] by (auto simp del: not_None_eq)
  show ?case
  proof (cases "t = x")
    case True
    then have "(tr_task_id t, tr_absolute_path t) \<notin> set (map target ts)" using Cons.prems(1) by (simp add: target_def)
    then show ?thesis
      using apply_transition_document[of durable t "tr_task_id t" "tr_absolute_path t"] Cons.prems(2,4) True
      by (simp add: apply_transitions_other target_def)
  next
    case False
    then show ?thesis using Cons.IH[OF _ keys] Cons.prems by simp
  qed
qed simp

text \<open>Loading a batch gives the durable documents of every task in it.\<close>

lemma load_durable_covers:
  "load_durable sha io dk st durable ts = (Inr durable', st') \<Longrightarrow>
   (\<forall>t \<in> set ts. im_get durable' (tr_task_id t) \<noteq> None)
   \<and> (\<forall>i. im_get durable i \<noteq> None \<longrightarrow> im_get durable' i = im_get durable i)
   \<and> set (im_keys durable') = set (im_keys durable) \<union> tr_task_id ` set ts"
proof (induction ts arbitrary: st durable)
  case (Cons x ts)
  show ?case
  proof (cases "im_get durable (tr_task_id x)")
    case (Some y)
    then have "load_durable sha io dk st durable ts = (Inr durable', st')" using Cons.prems by simp
    from Cons.IH[OF this] show ?thesis using Some im_get_keys[of durable "tr_task_id x"] by (auto simp del: not_None_eq)
  next
    case None
    obtain r1 st1 where e: "(if tr_memory_expected x \<noteq> None then ensure_task_loaded sha io dk st (tr_task_id x) else (Inr (), st)) = (r1, st1)"
      by fastforce
    obtain r2 st2 where rd: "read_task_documents_cached sha io dk st1 (tr_task_id x) = (r2, st2)" by fastforce
    obtain docs where "r2 = Inr docs" and rest: "load_durable sha io dk st2 (im_insert (tr_task_id x) docs durable) ts = (Inr durable', st')"
      using Cons.prems None e rd by (cases r1; cases r2) auto
    have "im_get durable' (tr_task_id x) = Some docs" using Cons.IH[OF rest] by simp
    moreover have "\<forall>i. im_get durable i \<noteq> None \<longrightarrow> im_get durable' i = im_get durable i"
      using Cons.IH[OF rest] None by (auto simp del: not_None_eq)
    ultimately show ?thesis using Cons.IH[OF rest] by (auto simp: im_keys_insert)
  qed
qed simp

lemma adopt_tasks_get:
  "im_get (as_tasks (adopt_tasks sha durable ids st)) i =
     (if i \<in> set ids then Some (im_default durable i) else im_get (as_tasks st) i)"
  unfolding adopt_tasks_def by (induction ids arbitrary: st) auto

lemma forget_missing_simps [simp]:
  "as_tasks (forget_missing_shards sha io dk st) = as_tasks st"
  "persisted_fingerprints (forget_missing_shards sha io dk st) = persisted_fingerprints st"
  by (simp_all add: forget_missing_shards_def)

lemma document_in_default: "im_get m i \<noteq> None \<Longrightarrow> im_get (im_default m i) p = document_in m i p"
  by (auto simp: im_default_def document_in_def)

lemma im_keys_foldl_apply:
  "set (im_keys (foldl apply_transition durable ts)) = set (im_keys durable)"
proof -
  have "im_get (foldl apply_transition durable ts) i = None \<longleftrightarrow> im_get durable i = None" for i
    by (induction ts arbitrary: durable) (auto simp: apply_transition_keys simp del: not_None_eq)
  then have "i \<in> set (im_keys (foldl apply_transition durable ts)) \<longleftrightarrow> i \<in> set (im_keys durable)" for i
    using im_get_keys[of "foldl apply_transition durable ts" i] im_get_keys[of durable i] by simp
  then show ?thesis by blast
qed

text \<open>A commit that returns normally met its expectations, and memory holds its outcome.\<close>

lemma check_transitions_ok:
  assumes "check_transitions sha order io publish ts dk st = (Inr (), dk', st')" and "ts \<noteq> []"
  obtains durable st1 where "load_durable sha io dk st [] ts = (Inr durable, st1)"
    and "transition_errors (as_tasks st1) durable {} ts = None"
    and "if publish \<and> \<not> list_all is_noop ts
         then publish_durable sha order io (foldl apply_transition durable ts) dk st1 = (Inr (), dk', st')
         else dk' = dk \<and> st' = st1"
proof -
  obtain r st1 where l: "load_durable sha io dk st [] ts = (r, st1)" by fastforce
  have io: "\<not> (\<not> io_dir io \<or> \<not> io_lock io)"
    using assms by (intro notI) (simp add: check_transitions_def)
  note run = assms(1)[unfolded check_transitions_def if_not_P[OF assms(2)] if_not_P[OF io] l]
  obtain durable where d: "r = Inr durable" using run by (cases r) simp_all
  have eq: "(case transition_errors (as_tasks st1) durable {} ts of
       Some e \<Rightarrow> (Inl e, dk, st1)
     | None \<Rightarrow> if \<not> publish \<or> list_all is_noop ts then (Inr (), dk, st1)
               else publish_durable sha order io (foldl apply_transition durable ts) dk st1) = (Inr (), dk', st')"
    using run by (simp add: d)
  have none: "transition_errors (as_tasks st1) durable {} ts = None"
    using eq by (cases "transition_errors (as_tasks st1) durable {} ts") simp_all
  show thesis
  proof (rule that[OF l[unfolded d] none])
    show "if publish \<and> \<not> list_all is_noop ts
         then publish_durable sha order io (foldl apply_transition durable ts) dk st1 = (Inr (), dk', st')
         else dk' = dk \<and> st' = st1"
      using eq none by (cases "publish \<and> \<not> list_all is_noop ts") auto
  qed
qed

lemma publish_durable_memory:
  assumes "publish_durable sha order io durable dk st = (Inr (), dk', st')" and "\<And>ks. set (order ks) = set ks"
    and "im_get durable i \<noteq> None"
  shows "document_in (as_tasks st') i p = document_in durable i p"
proof -
  obtain r d s where w: "write_tasks sha io durable (order (im_keys durable)) dk st = (r, d, s)" by (metis prod_cases3)
  have "as_tasks st' = as_tasks (adopt_tasks sha durable (order (im_keys durable)) (forget_missing_shards sha io (evict_old_task_shards io d) s))"
    using assms(1) w by (cases r) (auto simp: publish_durable_def Let_def)
  moreover have "i \<in> set (order (im_keys durable))" using assms(2,3) im_get_keys[of durable i] by auto
  ultimately show ?thesis using document_in_default[OF assms(3)] by (simp add: document_in_def adopt_tasks_get)
qed

section \<open>Publishing a document\<close>

lemma publish_cases:
  assumes "publish_reconciled_document sha io path task_id mem exp doc dk st = (r, dk', st')"
  shows "case r of
      Inl _ \<Rightarrow> dk' = dk \<and> as_tasks st' = as_tasks st
    | Inr _ \<Rightarrow> document_in (as_tasks st) task_id path = mem
        \<and> document_in (as_tasks st') task_id path = Some doc
        \<and> (\<forall>i p. i \<noteq> task_id \<longrightarrow> document_in (as_tasks st') i p = document_in (as_tasks st) i p)"
proof -
  obtain q s where q: "read_task_documents_cached sha io dk st task_id = (q, s)" by fastforce
  have at: "as_tasks s = as_tasks st" by (rule read_cached_frame(1)[OF q])
  show ?thesis
  proof (cases "(exp = None \<and> mem \<noteq> None) \<or> \<not> io_dir io \<or> \<not> io_lock io \<or> (\<exists>e. q = Inl e)")
    case True
    then consider "exp = None \<and> mem \<noteq> None" | "\<not> (exp = None \<and> mem \<noteq> None)" "\<not> io_dir io \<or> \<not> io_lock io"
      | e where "\<not> (exp = None \<and> mem \<noteq> None)" "\<not> (\<not> io_dir io \<or> \<not> io_lock io)" "q = Inl e"
      by blast
    then show ?thesis
    proof cases
      case 1
      then show ?thesis using assms by (auto simp: publish_reconciled_document_def)
    next
      case 2
      then show ?thesis using assms unfolding publish_reconciled_document_def if_not_P[OF 2(1)] if_P[OF 2(2)] by auto
    next
      case 3
      then show ?thesis using assms at
        unfolding publish_reconciled_document_def if_not_P[OF 3(1)] if_not_P[OF 3(2)] q by auto
    qed
  next
    case False
    then obtain docs where docs: "q = Inr docs" by (cases q) auto
    let ?docs = "im_insert path doc (im_shift_remove path docs)"
    have g: "\<not> (exp = None \<and> mem \<noteq> None)" "\<not> (\<not> io_dir io \<or> \<not> io_lock io)" using False by auto
    note run = assms[unfolded publish_reconciled_document_def if_not_P[OF g(1)] if_not_P[OF g(2)] q docs, simplified sum.case prod.case]
    show ?thesis
    proof (cases "document_in (as_tasks s) task_id path \<noteq> mem \<or> im_get docs path \<noteq> exp")
      case True
      then show ?thesis using run at unfolding if_P[OF True] by auto
    next
      case cas: False
      note run' = run[unfolded if_not_P[OF cas]]
      show ?thesis
      proof (cases "write_task_documents_cached sha io dk s task_id ?docs")
        case (Inl e)
        then show ?thesis using run' at by (auto simp: Let_def)
      next
        case (Inr x)
        obtain d u where x: "x = (d, u)" by fastforce
        have "as_tasks u = as_tasks st" using write_cached_frame(1)[OF Inr[unfolded x]] at by simp
        then show ?thesis using run' at cas Inr x
          by (auto simp: Let_def document_in_insert)
      qed
    qed
  qed
qed

text \<open>
  The contract a publisher offers its writers: success means the expected value was still there and the
  new one now is, failure means nothing changed.
\<close>

locale guarded_store =
  fixes publish :: "'x \<Rightarrow> 'k \<Rightarrow> 'd option \<Rightarrow> 'd \<Rightarrow> 's \<Rightarrow> ('e + unit) \<times> 's"
    and current :: "'s \<Rightarrow> 'k \<Rightarrow> 'd option"
  assumes success: "publish x k expected d s = (Inr (), s') \<Longrightarrow> current s k = expected \<and> current s' k = Some d"
    and failure: "publish x k expected d s = (Inl e, s') \<Longrightarrow> current s' = current s"
begin

text \<open>No lost update: a writer whose snapshot predates another publication of the same key is refused.\<close>

lemma stale_writer_refused:
  assumes "publish x k expected d s = (Inr (), s')" and "stale \<noteq> Some d"
  shows "\<exists>e s''. publish y k stale d' s' = (Inl e, s'') \<and> current s'' k = Some d"
proof -
  obtain r s'' where p: "publish y k stale d' s' = (r, s'')" by fastforce
  have c: "current s' k = Some d" using success[OF assms(1)] by blast
  show ?thesis
  proof (cases r)
    case (Inl e)
    then show ?thesis using p c failure by fastforce
  next
    case (Inr u)
    then have "publish y k stale d' s' = (Inr (), s'')" using p by simp
    from success[OF this] show ?thesis using c assms(2) by simp
  qed
qed

end

definition publish_key ::
    "(8 word list \<Rightarrow> ustr) \<Rightarrow> io \<Rightarrow> tracked_document option \<Rightarrow> ustr \<times> ustr \<Rightarrow> tracked_document option \<Rightarrow> tracked_document
       \<Rightarrow> disk \<times> anchor_storage \<Rightarrow> (anchor_transition_error + unit) \<times> (disk \<times> anchor_storage)" where
  "publish_key sha io disk_expected = (\<lambda>(task_id, path) mem doc (dk, st).
     publish_reconciled_document sha io path task_id mem disk_expected doc dk st)"

interpretation published: guarded_store "publish_key sha io" "\<lambda>(dk, st) (task_id, path). document_in (as_tasks st) task_id path"
  for sha io
proof unfold_locales
  fix x k mem doc s s'
  assume "publish_key sha io x k mem doc s = (Inr (), s')"
  then show "(case s of (dk, st) \<Rightarrow> \<lambda>(task_id, path). document_in (as_tasks st) task_id path) k = mem
    \<and> (case s' of (dk, st) \<Rightarrow> \<lambda>(task_id, path). document_in (as_tasks st) task_id path) k = Some doc"
    by (cases k; cases s; cases s') (auto simp: publish_key_def dest!: publish_cases)
next
  fix x k mem doc s e s'
  assume "publish_key sha io x k mem doc s = (Inl e, s')"
  then show "(case s' of (dk, st) \<Rightarrow> \<lambda>(task_id, path). document_in (as_tasks st) task_id path)
      = (case s of (dk, st) \<Rightarrow> \<lambda>(task_id, path). document_in (as_tasks st) task_id path)"
    by (cases k; cases s; cases s') (auto simp: publish_key_def dest!: publish_cases)
qed

section \<open>The cache of decoded shards\<close>

text \<open>A cached shard whose stamp is that of the file holds the file's documents.\<close>

definition coherent :: "(8 word list \<Rightarrow> ustr) \<Rightarrow> disk \<Rightarrow> anchor_storage \<Rightarrow> bool" where
  "coherent sha dk st \<longleftrightarrow> (\<forall>task_id c f. im_get (durable_shards st) task_id = Some c
     \<and> im_get (dk_shards dk) (shard_path sha task_id) = Some f \<and> sf_stamp f = cs_stamp c
     \<longrightarrow> (\<exists>t. sf_content f = Shard t (cs_documents c)))"

lemma coherentD:
  "coherent sha dk st \<Longrightarrow> im_get (durable_shards st) task_id = Some c \<Longrightarrow>
   im_get (dk_shards dk) (shard_path sha task_id) = Some f \<Longrightarrow> sf_stamp f = cs_stamp c \<Longrightarrow>
   \<exists>t. sf_content f = Shard t (cs_documents c)"
  unfolding coherent_def by blast

lemma coherent_read:
  assumes "coherent sha dk st" and "\<And>name. io_read io name"
  shows "fst (read_task_documents_cached sha io dk st task_id) = read_task_documents sha io dk task_id"
proof (cases "\<exists>s c. shard_identity io dk (shard_path sha task_id) = Some s \<and> im_get (durable_shards st) task_id = Some c \<and> cs_stamp c = s")
  case True
  then obtain s c where h: "shard_identity io dk (shard_path sha task_id) = Some s"
      "im_get (durable_shards st) task_id = Some c" "cs_stamp c = s" by blast
  then obtain f where f: "im_get (dk_shards dk) (shard_path sha task_id) = Some f" "sf_stamp f = s"
    by (auto simp: shard_identity_def split: if_splits)
  then obtain t where "sf_content f = Shard t (cs_documents c)" using coherentD[OF assms(1) h(2) f(1)] h(3) f(2) by auto
  then have "read_task_documents sha io dk task_id = Inr (cs_documents c)"
    using f assms(2) by (simp add: read_task_documents_def read_shard_def)
  then show ?thesis using h by (simp add: read_task_documents_cached_def Let_def)
next
  case False
  then show ?thesis
    by (auto simp: read_task_documents_cached_def Let_def split: option.splits sum.splits)
qed

lemma coherent_cache:
  assumes "coherent sha dk st" and "im_get (dk_shards dk) (shard_path sha task_id) = Some f"
    and "sf_content f = Shard t docs" and "sf_stamp f = s"
  shows "coherent sha dk (cache_shard task_id s docs st)"
  using assms by (auto simp: coherent_def cache_shard_def split: if_splits)

text \<open>A write keeps the cache coherent when it is not truncated and its stamp is new.\<close>

lemma coherent_write:
  assumes "coherent sha dk st" and "write_task_documents_cached sha io dk st task_id docs = Inr (dk', st')"
    and "length docs \<le> MAX_TRACKED_FILES"
    and "\<forall>i c. im_get (durable_shards st) i = Some c \<longrightarrow> cs_stamp c \<noteq> io_stamp io (shard_path sha task_id)"
  shows "coherent sha dk' st'"
proof -
  let ?n = "shard_path sha task_id"
  let ?f = "\<lparr>sf_stamp = io_stamp io ?n, sf_content = Shard task_id (newest docs)\<rparr>"
  have dk': "dk' = dk\<lparr>dk_shards := im_insert ?n ?f (dk_shards dk)\<rparr>"
    and st': "st' = (case shard_identity io dk' ?n of Some s \<Rightarrow> cache_shard task_id s docs st | None \<Rightarrow> st)"
    using assms(2) by (auto simp: write_task_documents_cached_def write_task_documents_def Let_def split: if_splits sum.splits)
  have n: "newest docs = docs" using assms(3) by (simp add: newest_def)
  have "coherent sha dk' st"
    unfolding coherent_def
  proof (intro allI impI, elim conjE)
    fix i c f
    assume h: "im_get (durable_shards st) i = Some c" "im_get (dk_shards dk') (shard_path sha i) = Some f"
      "sf_stamp f = cs_stamp c"
    have "cs_stamp c \<noteq> io_stamp io ?n" using h(1) assms(4) by blast
    then have "shard_path sha i \<noteq> ?n" using h(2,3) by (auto simp: dk')
    then show "\<exists>t. sf_content f = Shard t (cs_documents c)"
      using coherentD[OF assms(1) h(1)] h(2,3) by (simp add: dk')
  qed
  then show ?thesis unfolding st'
    by (auto simp: shard_identity_def dk' n intro!: coherent_cache split: option.splits)
qed

section \<open>Reconciliation through the store\<close>

text \<open>A property of every document the store can hand out.\<close>

definition all_documents :: "(tracked_document \<Rightarrow> bool) \<Rightarrow> documents \<Rightarrow> bool" where
  "all_documents P docs \<longleftrightarrow> (\<forall>path d. im_get docs path = Some d \<longrightarrow> P d)"

definition store_documents :: "(tracked_document \<Rightarrow> bool) \<Rightarrow> disk \<Rightarrow> anchor_storage \<Rightarrow> bool" where
  "store_documents P dk st \<longleftrightarrow>
     (\<forall>name f t docs. im_get (dk_shards dk) name = Some f \<and> sf_content f = Shard t docs \<longrightarrow> all_documents P docs)
     \<and> (\<forall>tasks task_id docs. dk_legacy dk = Legacy tasks \<and> im_get tasks task_id = Some docs \<longrightarrow> all_documents P docs)
     \<and> (\<forall>task_id c. im_get (durable_shards st) task_id = Some c \<longrightarrow> all_documents P (cs_documents c))
     \<and> (\<forall>task_id docs. im_get (as_tasks st) task_id = Some docs \<longrightarrow> all_documents P docs)"

lemma all_documents_empty [simp]: "all_documents P []"
  by (simp add: all_documents_def)

lemma read_documents_all:
  assumes "store_documents P dk st" and "read_task_documents sha io dk task_id = Inr docs"
  shows "all_documents P docs"
proof (cases "read_shard io dk (shard_path sha task_id)")
  case (Inr x)
  then obtain f t where "im_get (dk_shards dk) (shard_path sha task_id) = Some f" "sf_content f = Shard t docs"
    using assms(2) by (auto simp: read_task_documents_def read_shard_def split: option.splits if_splits shard_content.splits)
  then show ?thesis using assms(1) unfolding store_documents_def by blast
next
  case (Inl e)
  then obtain tasks where t: "read_tasks io dk = Inr tasks" "docs = im_default tasks task_id"
    using assms(2) by (auto simp: read_task_documents_def split: io_error.splits sum.splits)
  then have "tasks = [] \<or> dk_legacy dk = Legacy tasks"
    by (auto simp: read_tasks_def split: legacy_file.splits if_splits)
  then show ?thesis
  proof
    assume l: "dk_legacy dk = Legacy tasks"
    show ?thesis
    proof (cases "im_get tasks task_id")
      case (Some d)
      then show ?thesis using assms(1) l t(2) unfolding store_documents_def by (auto simp: im_default_def)
    qed (simp add: t(2) im_default_def)
  qed (simp add: t(2) im_default_def)
qed

lemma read_cached_all:
  assumes "store_documents P dk st" and "read_task_documents_cached sha io dk st task_id = (r, st')"
  shows "store_documents P dk st' \<and> (\<forall>docs. r = Inr docs \<longrightarrow> all_documents P docs)"
proof (cases "\<exists>s c. shard_identity io dk (shard_path sha task_id) = Some s \<and> im_get (durable_shards st) task_id = Some c \<and> cs_stamp c = s")
  case True
  then obtain c where c: "im_get (durable_shards st) task_id = Some c" "r = Inr (cs_documents c)" "st' = st"
    using assms(2) by (auto simp: read_task_documents_cached_def Let_def)
  then have "all_documents P (cs_documents c)" using assms(1) unfolding store_documents_def by blast
  then show ?thesis using c assms(1) by simp
next
  case False
  then have miss: "(r, st') = (case read_task_documents sha io dk task_id of
             Inl e \<Rightarrow> (Inl e, st)
           | Inr docs \<Rightarrow>
               (Inr docs,
                case shard_identity io dk (shard_path sha task_id) of
                  Some s \<Rightarrow> cache_shard task_id s docs st
                | None \<Rightarrow> st\<lparr>durable_shards := im_shift_remove task_id (durable_shards st)\<rparr>))"
    using assms(2) by (auto simp: read_task_documents_cached_def Let_def split: option.splits)
  show ?thesis
  proof (cases "read_task_documents sha io dk task_id")
    case (Inl e)
    then show ?thesis using miss assms(1) by simp
  next
    case (Inr docs)
    have d: "all_documents P docs" by (rule read_documents_all[OF assms(1) Inr])
    have "store_documents P dk st'"
    proof (cases "shard_identity io dk (shard_path sha task_id)")
      case None
      then show ?thesis using miss Inr assms(1) by (auto simp: store_documents_def)
    next
      case (Some s)
      then show ?thesis using miss Inr assms(1) d by (auto simp: store_documents_def cache_shard_def)
    qed
    then show ?thesis using miss Inr d by simp
  qed
qed

lemma store_documents_adopt:
  "store_documents P dk st \<Longrightarrow> all_documents P docs \<Longrightarrow> store_documents P dk (adopt_task sha task_id docs st)"
  by (auto simp: store_documents_def)

lemma ensure_loaded_all:
  assumes "store_documents P dk st" and "ensure_task_loaded sha io dk st task_id = (r, st')"
  shows "store_documents P dk st'"
proof (cases "im_get (as_tasks st) task_id")
  case None
  obtain q s where q: "read_task_documents_cached sha io dk st task_id = (q, s)" by fastforce
  note rc = read_cached_all[OF assms(1) q]
  show ?thesis
    using assms(2) None rc store_documents_adopt[of P dk s] by (cases q) (auto simp: ensure_task_loaded_def q)
qed (use assms in \<open>simp add: ensure_task_loaded_def\<close>)

end
