(* ===== verification/AnchorCommit.thy ===== *)
theory AnchorCommit
  imports AnchorStore
begin

text \<open>
  What the anchor store promises its callers, on top of the model in \<open>AnchorStore\<close>: commits and their
  failures, publication against concurrent readers, unreadable caches, shard names and the cache of decoded
  shards.
\<close>

section \<open>Batches\<close>

lemma ensure_loaded_other:
  "ensure_task_loaded sha io dk st task_id = (r, st') \<Longrightarrow> t \<noteq> task_id \<Longrightarrow> im_get (as_tasks st') t = im_get (as_tasks st) t"
  using read_cached_frame(1)[of sha io dk st task_id "fst (read_task_documents_cached sha io dk st task_id)"
      "snd (read_task_documents_cached sha io dk st task_id)"]
  by (auto simp: ensure_task_loaded_def split: if_splits prod.splits sum.splits)

lemma load_durable_other:
  "load_durable sha io dk st durable ts = (r, st') \<Longrightarrow> t \<notin> tr_task_id ` set ts \<Longrightarrow>
   im_get (as_tasks st') t = im_get (as_tasks st) t"
proof (induction ts arbitrary: st durable)
  case (Cons x ts)
  show ?case
  proof (cases "im_get durable (tr_task_id x)")
    case (Some y)
    then show ?thesis using Cons by simp
  next
    case None
    obtain r1 st1 where e: "(if tr_memory_expected x \<noteq> None then ensure_task_loaded sha io dk st (tr_task_id x) else (Inr (), st)) = (r1, st1)"
      by fastforce
    have s1: "im_get (as_tasks st1) t = im_get (as_tasks st) t"
      using e Cons.prems(2) ensure_loaded_other by (fastforce split: if_splits)
    obtain r2 st2 where rd: "read_task_documents_cached sha io dk st1 (tr_task_id x) = (r2, st2)" by fastforce
    have s2: "im_get (as_tasks st2) t = im_get (as_tasks st) t" using read_cached_frame(1)[OF rd] s1 by simp
    show ?thesis
      using Cons.prems None e rd s1 s2 Cons.IH[of st2] by (cases r1; cases r2) auto
  qed
qed simp

lemma load_durable_wf: "load_durable sha io dk st durable ts = (Inr durable', st') \<Longrightarrow> im_wf durable \<Longrightarrow> im_wf durable'"
proof (induction ts arbitrary: st durable)
  case (Cons x ts)
  show ?case
  proof (cases "im_get durable (tr_task_id x)")
    case (Some y)
    then show ?thesis using Cons by simp
  next
    case None
    obtain r1 st1 where e: "(if tr_memory_expected x \<noteq> None then ensure_task_loaded sha io dk st (tr_task_id x) else (Inr (), st)) = (r1, st1)"
      by fastforce
    obtain r2 st2 where rd: "read_task_documents_cached sha io dk st1 (tr_task_id x) = (r2, st2)" by fastforce
    show ?thesis using Cons None e rd by (cases r1; cases r2) auto
  qed
qed simp

lemma apply_transitions_wf: "im_wf durable \<Longrightarrow> im_wf (foldl apply_transition durable ts)"
  by (induction ts arbitrary: durable) (auto simp: apply_transition_def split: option.splits)

lemma publish_durable_other:
  assumes "publish_durable sha order io durable dk st = (r, dk', st')" and "\<And>ks. set (order ks) = set ks"
    and "im_get durable i = None"
  shows "im_get (as_tasks st') i = im_get (as_tasks st) i"
proof -
  obtain q d s where w: "write_tasks sha io durable (order (im_keys durable)) dk st = (q, d, s)" by (metis prod_cases3)
  have s: "as_tasks s = as_tasks st" by (rule write_tasks_frame[OF w])
  have "i \<notin> set (order (im_keys durable))" using assms(2,3) im_get_keys[of durable i] by auto
  then show ?thesis
    using assms(1) w s by (cases q) (auto simp: publish_durable_def Let_def adopt_tasks_get)
qed

lemma im_keys_empty: "im_keys [] = []"
  by (simp add: im_keys_def)

definition all_order :: "ustr list \<Rightarrow> ustr list" where
  "all_order ks = ks"

definition sound_io :: io where
  "sound_io = \<lparr>io_dir = True, io_lock = True, io_list = True, io_read = (\<lambda>_. True), io_stat = (\<lambda>_. True),
     io_write = (\<lambda>_. True), io_remove = (\<lambda>_. True), io_stamp = (\<lambda>_. (7, 7)), io_legacy_read = True,
     io_legacy_write = True, io_legacy_remove = True, io_message = (\<lambda>_. [])\<rparr>"

definition empty_disk :: disk where
  "empty_disk = \<lparr>dk_legacy = NoLegacy, dk_shards = []\<rparr>"

definition empty_storage :: anchor_storage where
  "empty_storage = \<lparr>as_tasks = [], persisted_fingerprints = [], durable_shards = []\<rparr>"

text \<open>A file of two lines is observed for a task and a line is appended to it.\<close>

definition appended :: "ustr \<Rightarrow> anchor_transition option" where
  "appended task_id =
     (case fst (observe_snapshot no_sha (str ''q'') sound_io (str ''/f'') (join [nl] [[97], [98]]) task_id empty_disk empty_storage) of
        Inl _ \<Rightarrow> None
      | Inr snap \<Rightarrow>
          (case stage_transition no_sha (str ''q'') snap (join [nl] [[97], [98], [99]])
                  \<lparr>origins = [Some 0, Some 1, None], edit_ranges = []\<rparr> of
             Some (Inr t) \<Rightarrow> Some t | _ \<Rightarrow> None))"

lemma appended_simp: "\<exists>t. appended [116] = Some t \<and> \<not> is_noop t"
proof -
  have "case appended [116] of None \<Rightarrow> False | Some t \<Rightarrow> \<not> is_noop t" by code_simp
  then show ?thesis by (auto split: option.splits)
qed

lemma commit_outcomes:
  assumes "commit_transitions_checked sha order io ts dk st = (Inr (), dk', st')" and "\<And>ks. set (order ks) = set ks"
  shows "distinct (map target ts)
    \<and> list_all (\<lambda>t. is_noop t \<or> document_in (as_tasks st') (tr_task_id t) (tr_absolute_path t) = outcome_of t) ts
    \<and> list_all (\<lambda>t. im_get (as_tasks st) (tr_task_id t) = None
        \<or> document_in (as_tasks st) (tr_task_id t) (tr_absolute_path t) = tr_memory_expected t) ts
    \<and> (i \<in> set (map tr_task_id ts) \<or> im_get (as_tasks st') i = im_get (as_tasks st) i)"
proof (cases "ts = []")
  case True
  then show ?thesis using assms(1) by (simp add: commit_transitions_checked_def check_transitions_def)
next
  case False
  obtain durable st1 where l: "load_durable sha io dk st [] ts = (Inr durable, st1)"
    and none: "transition_errors (as_tasks st1) durable {} ts = None"
    and fin: "if True \<and> \<not> list_all is_noop ts
         then publish_durable sha order io (foldl apply_transition durable ts) dk st1 = (Inr (), dk', st')
         else dk' = dk \<and> st' = st1"
    using check_transitions_ok[OF assms(1)[unfolded commit_transitions_checked_def] False] by blast
  note cov = load_durable_covers[OF l] and te = transition_errors_None[OF none]
  let ?d = "foldl apply_transition durable ts"
  have found: "document_in (as_tasks st) (tr_task_id t) (tr_absolute_path t) = tr_memory_expected t"
    if t: "t \<in> set ts" "im_get (as_tasks st) (tr_task_id t) \<noteq> None" for t
  proof -
    obtain docs where d: "im_get (as_tasks st) (tr_task_id t) = Some docs" using t(2) by auto
    then have "document_in (as_tasks st1) (tr_task_id t) (tr_absolute_path t) = document_in (as_tasks st) (tr_task_id t) (tr_absolute_path t)"
      using load_durable_keeps[OF l d] by (simp add: document_in_def)
    then show ?thesis using te t(1) by simp
  qed
  have other: "im_get (as_tasks st') i = im_get (as_tasks st) i" if i: "i \<notin> tr_task_id ` set ts" for i
  proof -
    have "im_get ?d i = None" using cov i im_get_keys[of ?d i] by (simp add: im_keys_foldl_apply im_keys_empty)
    then show ?thesis
      using fin publish_durable_other[of sha order io ?d dk st1 "Inr ()" dk' st' i] assms(2) load_durable_other[OF l i]
      by (auto split: if_splits)
  qed
  have out: "document_in (as_tasks st') (tr_task_id t) (tr_absolute_path t) = outcome_of t"
    if t: "t \<in> set ts" "\<not> is_noop t" for t
  proof -
    have p: "publish_durable sha order io ?d dk st1 = (Inr (), dk', st')"
      using fin t by (auto simp: list_all_iff split: if_splits)
    have "im_get ?d (tr_task_id t) \<noteq> None"
      using cov t(1) im_get_keys[of ?d "tr_task_id t"] by (auto simp: im_keys_foldl_apply)
    from publish_durable_memory[OF p assms(2) this]
    show ?thesis using apply_transitions_at[of ts durable t] te cov t by simp
  qed
  show ?thesis using te found other out by (auto simp: list_all_iff simp del: not_None_eq)
qed

text \<open>Reading a task again gives what it gave before, whatever tasks were read or loaded in between.\<close>

lemma read_again:
  assumes "read_task_documents_cached sha io dk st j = (r, s)"
  shows "fst (read_task_documents_cached sha io dk s i) = fst (read_task_documents_cached sha io dk st i)"
proof (cases "i = j")
  case False
  have "im_get (durable_shards s) i = im_get (durable_shards st) i"
    using assms False
    by (auto simp: read_task_documents_cached_def Let_def cache_shard_def split: option.splits sum.splits if_splits)
  then show ?thesis
    by (auto simp: read_task_documents_cached_def Let_def split: option.splits sum.splits)
next
  case True
  then show ?thesis
    using assms
    by (auto simp: read_task_documents_cached_def Let_def cache_shard_def split: option.splits sum.splits if_splits)
qed

lemma ensure_read_again:
  assumes "ensure_task_loaded sha io dk st j = (r, s)"
  shows "fst (read_task_documents_cached sha io dk s i) = fst (read_task_documents_cached sha io dk st i)"
proof (cases "im_get (as_tasks st) j")
  case None
  obtain q t where q: "read_task_documents_cached sha io dk st j = (q, t)" by fastforce
  have "durable_shards s = durable_shards t"
    using assms None q by (cases q) (auto simp: ensure_task_loaded_def)
  then have "fst (read_task_documents_cached sha io dk s i) = fst (read_task_documents_cached sha io dk t i)"
    by (auto simp: read_task_documents_cached_def Let_def split: option.splits sum.splits)
  then show ?thesis using read_again[OF q] by simp
qed (use assms in \<open>simp add: ensure_task_loaded_def\<close>)

text \<open>The durable documents a batch is compared with are those read for its tasks.\<close>

lemma load_durable_reads:
  "load_durable sha io dk st durable ts = (Inr durable', st') \<Longrightarrow>
   (\<And>i docs. im_get durable i = Some docs \<Longrightarrow> fst (read_task_documents_cached sha io dk st i) = Inr docs) \<Longrightarrow>
   im_get durable' i = Some docs \<Longrightarrow> fst (read_task_documents_cached sha io dk st i) = Inr docs"
proof (induction ts arbitrary: st durable)
  case (Cons x ts)
  show ?case
  proof (cases "im_get durable (tr_task_id x)")
    case (Some y)
    then show ?thesis using Cons by simp
  next
    case None
    obtain r1 st1 where e: "(if tr_memory_expected x \<noteq> None then ensure_task_loaded sha io dk st (tr_task_id x) else (Inr (), st)) = (r1, st1)"
      by fastforce
    have one: "fst (read_task_documents_cached sha io dk st1 k) = fst (read_task_documents_cached sha io dk st k)" for k
      using e ensure_read_again[of sha io dk st "tr_task_id x" r1 st1 k] by (auto split: if_splits)
    obtain r2 st2 where rd: "read_task_documents_cached sha io dk st1 (tr_task_id x) = (r2, st2)" by fastforce
    have two: "fst (read_task_documents_cached sha io dk st2 k) = fst (read_task_documents_cached sha io dk st k)" for k
      using read_again[OF rd] one by simp
    obtain d where d: "r2 = Inr d" and rest: "load_durable sha io dk st2 (im_insert (tr_task_id x) d durable) ts = (Inr durable', st')"
      using Cons.prems(1) None e rd by (cases r1; cases r2) auto
    have "fst (read_task_documents_cached sha io dk st2 k) = Inr ds" if "im_get (im_insert (tr_task_id x) d durable) k = Some ds" for k ds
      using that Cons.prems(2)[of k ds] one[of k] two[of k] rd d by (auto split: if_splits)
    from Cons.IH[OF rest this Cons.prems(3)] show ?thesis using two by simp
  qed
qed simp

text \<open>What the shard of the task of a transition holds for its file is what the transition was staged from.\<close>

definition met_durable :: "(8 word list \<Rightarrow> ustr) \<Rightarrow> io \<Rightarrow> disk \<Rightarrow> anchor_storage \<Rightarrow> anchor_transition \<Rightarrow> bool" where
  "met_durable sha io dk st t \<longleftrightarrow>
     (case fst (read_task_documents_cached sha io dk st (tr_task_id t)) of
        Inl _ \<Rightarrow> False
      | Inr docs \<Rightarrow> im_get docs (tr_absolute_path t) = tr_expected t)"

lemma commit_met_durable:
  assumes "commit_transitions_checked sha order io ts dk st = (Inr (), dk', st')" and "t \<in> set ts"
  shows "met_durable sha io dk st t"
proof (rule check_transitions_ok[OF assms(1)[unfolded commit_transitions_checked_def]])
  show "ts \<noteq> []" using assms(2) by auto
next
  fix durable st1
  assume l: "load_durable sha io dk st [] ts = (Inr durable, st1)" and n: "transition_errors (as_tasks st1) durable {} ts = None"
  obtain docs where d: "im_get durable (tr_task_id t) = Some docs" using load_durable_covers[OF l] assms(2) by auto
  have "document_in durable (tr_task_id t) (tr_absolute_path t) = tr_expected t" using transition_errors_None[OF n] assms(2) by blast
  then show ?thesis using load_durable_reads[OF l _ d] d by (simp add: met_durable_def document_in_def)
qed



text \<open>Preflight predicts the commit: it touches no file, a batch it rejects is rejected by the commit with the same
  error and the same state, and a batch it accepts can only fail while it is written.\<close>

theorem preflight_predicts_commit:
  "case validate_transitions_checked sha order io ts dk st of (r, dk1, st1) \<Rightarrow>
     case commit_transitions_checked sha order io ts dk st of (r', dk2, st2) \<Rightarrow>
       dk1 = dk \<and> (case r of Inl e \<Rightarrow> r' = Inl e \<and> dk2 = dk \<and> st2 = st1
                  | Inr _ \<Rightarrow> r' = Inr () \<or> (\<exists>m. r' = Inl (Persistence m)))"
proof (cases "ts = [] \<or> \<not> io_dir io \<or> \<not> io_lock io")
  case True
  then show ?thesis
    by (auto simp: validate_transitions_checked_def commit_transitions_checked_def check_transitions_def)
next
  case False
  then have g: "ts \<noteq> []" "\<not> (\<not> io_dir io \<or> \<not> io_lock io)" by auto
  obtain r st1 where l: "load_durable sha io dk st [] ts = (r, st1)" by fastforce
  note unf = validate_transitions_checked_def commit_transitions_checked_def check_transitions_def if_not_P[OF g(1)] if_not_P[OF g(2)] l
  show ?thesis
  proof (cases r)
    case (Inl e)
    then show ?thesis unfolding unf by simp
  next
    case (Inr durable)
    show ?thesis
    proof (cases "transition_errors (as_tasks st1) durable {} ts")
      case None
      obtain q d s where w: "write_tasks sha io (foldl apply_transition durable ts) (order (im_keys (foldl apply_transition durable ts))) dk st1 = (q, d, s)"
        by (metis prod_cases3)
      show ?thesis unfolding unf
        by (cases q) (auto simp: Inr None publish_durable_def w persistence_def Let_def)
    qed (simp add: unf Inr)
  qed
qed

lemma load_durable_single:
  assumes "load_durable sha io dk st [] ts = (Inr durable, st')" and "ts \<noteq> []" and "\<forall>t \<in> set ts. tr_task_id t = i"
  shows "im_keys (foldl apply_transition durable ts) = [i]"
proof -
  have "im_wf (foldl apply_transition durable ts)"
    using apply_transitions_wf load_durable_wf[OF assms(1)] by simp
  then have "distinct (im_keys (foldl apply_transition durable ts))" by (simp add: im_wf_def)
  moreover have "set (im_keys (foldl apply_transition durable ts)) = {i}"
  proof -
    have "tr_task_id ` set ts = {i}" using assms(2,3) by (cases ts) auto
    then show ?thesis using load_durable_covers[OF assms(1)] by (simp add: im_keys_foldl_apply im_keys_empty)
  qed
  ultimately show ?thesis
    by (metis card_1_singleton_iff distinct_card length_0_conv length_Suc_conv list.set_intros(1) One_nat_def singletonD)
qed

lemma failed_commit_frame:
  assumes "commit_transitions_checked sha order io ts dk st = (Inl e, dk', st')"
    and "\<forall>t \<in> set ts. tr_task_id t = i" and "order [i] = [i]"
  shows "dk' = dk \<and> (\<forall>task docs. im_get (as_tasks st) task \<noteq> Some docs \<or> im_get (as_tasks st') task = Some docs)"
proof (cases "ts = [] \<or> \<not> io_dir io \<or> \<not> io_lock io")
  case True
  then show ?thesis using assms(1)
    by (auto simp: commit_transitions_checked_def check_transitions_def split: if_splits)
next
  case False
  then have g: "ts \<noteq> []" "\<not> (\<not> io_dir io \<or> \<not> io_lock io)" by auto
  obtain r st1 where l: "load_durable sha io dk st [] ts = (r, st1)" by fastforce
  note run = assms(1)[unfolded commit_transitions_checked_def check_transitions_def if_not_P[OF g(1)] if_not_P[OF g(2)] l]
  note keep = load_durable_keeps[OF l]
  show ?thesis
  proof (cases r)
    case (Inl e')
    then show ?thesis using run keep by auto
  next
    case (Inr durable)
    show ?thesis
    proof (cases "transition_errors (as_tasks st1) durable {} ts")
      case (Some e')
      then show ?thesis using run keep Inr by auto
    next
      case None
      let ?d = "foldl apply_transition durable ts"
      have p: "publish_durable sha order io ?d dk st1 = (Inl e, dk', st')"
        using run by (auto simp: Inr None split: if_splits)
      have ks: "order (im_keys ?d) = [i]" using load_durable_single[OF l[unfolded Inr] g(1) assms(2)] assms(3) by simp
      obtain q d s where w: "write_tasks sha io ?d [i] dk st1 = (q, d, s)" by (metis prod_cases3)
      obtain x where x: "q = Inl x" "dk' = d" "st' = s"
        using p unfolding publish_durable_def ks Let_def w by (cases q) auto
      then show ?thesis using write_tasks_one[of sha io ?d i dk st1 x d s] w keep by auto
    qed
  qed
qed

text \<open>A commit to one task that fails changes no file and no document already in memory, whatever failed and
  however far it got.\<close>

theorem failed_commit_changes_nothing:
  assumes "commit_transitions_checked sha order io ts dk st = (Inl e, dk', st')"
    and "\<forall>t \<in> set ts. tr_task_id t = i" and "order [i] = [i]"
  shows "dk' = dk \<and> (\<forall>task docs. im_get (as_tasks st) task \<noteq> Some docs \<or> im_get (as_tasks st') task = Some docs)"
  by (rule failed_commit_frame[OF assms])

definition full_disk :: "ustr \<Rightarrow> io" where
  "full_disk name = sound_io\<lparr>io_write := (\<lambda>n. n \<noteq> name)\<rparr>"

theorem failed_commit_changes_nothing_witness:
  "case appended [116] of None \<Rightarrow> False | Some t \<Rightarrow>
     fst (snd (commit_transitions_checked no_sha all_order (full_disk (str ''t.json'')) [t] empty_disk empty_storage)) = empty_disk"
proof -
  let ?c = "\<lambda>t. commit_transitions_checked no_sha all_order (full_disk (str ''t.json'')) [t] empty_disk empty_storage"
  obtain t where t: "appended [116] = Some t" "\<not> is_noop t" using appended_simp by blast
  have "case appended [116] of None \<Rightarrow> False | Some t \<Rightarrow> tr_task_id t = [116] \<and> fst (?c t) = Inl (Persistence [])" by code_simp
  then have n: "tr_task_id t = [116]" and c: "fst (?c t) = Inl (Persistence [])"
    using t by simp_all
  obtain d s where "?c t = (Inl (Persistence []), d, s)" using c by (cases "?c t") auto
  from failed_commit_changes_nothing[OF this, of "[116]"] this show ?thesis
    using t n by (simp add: all_order_def)
qed

text \<open>A batch over several tasks is not all or nothing: when the second shard cannot be written the commit reports
  the failure and the first task's new document stays on disk.\<close>

lemma failed_batch_partly_durable:
  "case (appended [116], appended [117]) of
     (Some t, Some u) \<Rightarrow>
       (case commit_transitions_checked no_sha all_order (full_disk (str ''u.json'')) [t, u] empty_disk empty_storage of
          (r, dk', st') \<Rightarrow> r = Inl (Persistence [])
             \<and> read_task_documents no_sha sound_io dk' [116] = Inr [(str ''/f'', tr_document t)]
             \<and> as_tasks st' = [])
   | _ \<Rightarrow> False"
  by code_simp

section \<open>Publication against other writers\<close>

text \<open>C15. No lost update: once a document is published, a writer whose snapshot of the file is another document is
  refused, whatever it believes of the disk; the published document stays in memory.\<close>

theorem no_lost_update:
  assumes "publish_reconciled_document sha io path task_id mem exp doc dk st = (Inr (), dk', st')" and "stale \<noteq> Some doc"
  shows "case publish_reconciled_document sha io path task_id stale exp' doc' dk' st' of
      (r, dk'', st'') \<Rightarrow> r \<noteq> Inr () \<and> dk'' = dk' \<and> document_in (as_tasks st'') task_id path = Some doc"
proof -
  have "publish_key sha io exp (task_id, path) mem doc (dk, st) = (Inr (), (dk', st'))"
    using assms(1) by (simp add: publish_key_def)
  from published.stale_writer_refused[OF this assms(2), of exp' doc']
  obtain e d s where p: "publish_reconciled_document sha io path task_id stale exp' doc' dk' st' = (Inl e, d, s)"
    and "document_in (as_tasks s) task_id path = Some doc"
    by (auto simp: publish_key_def)
  then show ?thesis using publish_cases[OF p] by simp
qed

definition published_once :: "(anchor_transition_error + unit) \<times> disk \<times> anchor_storage" where
  "published_once = publish_reconciled_document no_sha sound_io (str ''/f'') [116] None None sample_document empty_disk empty_storage"

theorem no_lost_update_witness:
  "case publish_reconciled_document no_sha sound_io (str ''/f'') [116] None (Some sample_document) sample_document
        (fst (snd published_once)) (snd (snd published_once)) of
      (r, dk, st) \<Rightarrow> r \<noteq> Inr () \<and> dk = fst (snd published_once) \<and> document_in (as_tasks st) [116] (str ''/f'') = Some sample_document"
proof -
  have "fst published_once = Inr ()" by code_simp
  then obtain dk st where p: "published_once = (Inr (), dk, st)" by (metis prod.collapse)
  show ?thesis
    using no_lost_update[OF p[unfolded published_once_def], of None "Some sample_document" sample_document] by (simp add: p)
qed

section \<open>Unreadable shards\<close>

lemma corrupt_read:
  assumes "im_get (dk_shards dk) (shard_path sha task_id) = Some f" and "sf_content f = CorruptShard"
    and "map_option cs_stamp (im_get (durable_shards st) task_id) \<noteq> Some (sf_stamp f)"
  shows "read_task_documents_cached sha io dk st task_id = (Inl IoFailed, st)"
proof -
  have "read_task_documents sha io dk task_id = Inl IoFailed"
    using assms(1,2) by (simp add: read_task_documents_def read_shard_def)
  then show ?thesis
    using assms(1,3) by (auto simp: read_task_documents_cached_def Let_def shard_identity_def split: option.splits)
qed

lemma corrupt_load:
  assumes "read_task_documents_cached sha io dk st task_id = (Inl IoFailed, st)"
  shows "ensure_task_loaded sha io dk st task_id = (if im_get (as_tasks st) task_id = None then Inl IoFailed else Inr (), st)"
  using assms by (simp add: ensure_task_loaded_def)

text \<open>C39. A shard that cannot be decoded and is not cached under its present stamp is an error, never an empty document set: no
  observation of its task succeeds, no reconciliation of at most \<open>MAX_TRACKED_LINES\<close> lines, no publication, and no commit whose
  first transition is of the task; and none of them writes to the disk or to the tasks in memory.\<close>

theorem corrupt_shard_fails_closed:
  assumes "im_get (dk_shards dk) (shard_path sha task_id) = Some f" and "sf_content f = CorruptShard"
    and "map_option cs_stamp (im_get (durable_shards st) task_id) \<noteq> Some (sf_stamp f)"
    and "length ls \<le> MAX_TRACKED_LINES" and "tr_task_id t = task_id"
  shows "observe_snapshot sha fresh io path raw task_id dk st = (Inl (persistence io IoFailed), st)
    \<and> reconcile_checked sha order diff fresh io path ls task_id dk st = Some (Inl (persistence io IoFailed), dk, st)
    \<and> commit_transitions_checked sha order io (t # ts) dk st = (Inl (persistence io IoFailed), dk, st)
    \<and> (fst (publish_reconciled_document sha io path task_id mem exp doc dk st) \<noteq> Inr ()
       \<and> snd (publish_reconciled_document sha io path task_id mem exp doc dk st) = (dk, st))"
proof (intro conjI)
  note r = corrupt_read[OF assms(1-3)]
  note l = corrupt_load[OF r]
  show "observe_snapshot sha fresh io path raw task_id dk st = (Inl (persistence io IoFailed), st)"
    by (simp add: observe_snapshot_def r)
  show "reconcile_checked sha order diff fresh io path ls task_id dk st = Some (Inl (persistence io IoFailed), dk, st)"
    using assms(4) by (simp add: reconcile_checked_def l r)
  show "commit_transitions_checked sha order io (t # ts) dk st = (Inl (persistence io IoFailed), dk, st)"
    using assms(5) by (simp add: commit_transitions_checked_def check_transitions_def l r)
  show "fst (publish_reconciled_document sha io path task_id mem exp doc dk st) \<noteq> Inr ()"
    and "snd (publish_reconciled_document sha io path task_id mem exp doc dk st) = (dk, st)"
    by (simp_all add: publish_reconciled_document_def r)
qed

definition corrupt_disk :: disk where
  "corrupt_disk = \<lparr>dk_legacy = NoLegacy, dk_shards = [(str ''t.json'', \<lparr>sf_stamp = (3, 4), sf_content = CorruptShard\<rparr>)]\<rparr>"

theorem corrupt_shard_fails_closed_witness:
  "case appended [116] of None \<Rightarrow> False | Some t \<Rightarrow>
    commit_transitions_checked no_sha all_order sound_io [t] corrupt_disk empty_storage
      = (Inl (persistence sound_io IoFailed), corrupt_disk, empty_storage)"
proof -
  have "case appended [116] of None \<Rightarrow> False | Some t \<Rightarrow> tr_task_id t = [116]" by code_simp
  then obtain t where t: "appended [116] = Some t" "tr_task_id t = [116]" by (auto split: option.splits)
  have s: "shard_path no_sha [116] = str ''t.json''" by code_simp
  show ?thesis
    unfolding t(1) option.case
    by (rule corrupt_shard_fails_closed[where f = "\<lparr>sf_stamp = (3, 4), sf_content = CorruptShard\<rparr>" and ls = "[]",
          THEN conjunct2, THEN conjunct2, THEN conjunct1, OF _ _ _ _ t(2)])
      (simp_all add: corrupt_disk_def empty_storage_def im_get_def s str_def)
qed

section \<open>Shard names\<close>

lemma str_app: "str (xs @ ys) = str xs @ str ys"
  by (simp add: str_def)

lemma safe_char_safe: "safe_char (safe_char c) = safe_char c"
  by (auto simp: safe_char_def)

lemma alnum_safe: "is_ascii_alnum c \<Longrightarrow> safe_char c = c"
  by (simp add: safe_char_def)

text \<open>A task id cannot lead out of the shard directory: its shard's name is never empty, \<open>.\<close> or \<open>..\<close>, consists of
  letters, digits, \<open>-\<close>, \<open>_\<close> and \<open>.\<close> only, and an id that is such a name already is kept as it is.\<close>

theorem shard_names_confined:
  assumes "alnum_digest sha"
  shows "sanitize_task_id sha task_id \<notin> {[], str ''.'', str ''..''}
    \<and> map safe_char (sanitize_task_id sha task_id) = sanitize_task_id sha task_id
    \<and> (sanitize_task_id sha task_id = task_id \<or> task_id \<in> {[], str ''.'', str ''..''} \<or> map safe_char task_id \<noteq> task_id)"
proof -
  let ?s = "map safe_char task_id" and ?h = "take 8 (sha (utf8 task_id))"
  have safe: "map safe_char ?s = ?s" by (simp add: safe_char_safe)
  have h: "map safe_char ?h = ?h"
    using assms by (auto simp: alnum_digest_def alnum_safe intro!: map_idI dest: in_set_takeD)
  consider "?s \<in> {[], str ''.'', str ''..''}" | "?s \<notin> {[], str ''.'', str ''..''}" "?s \<noteq> task_id"
    | "?s \<notin> {[], str ''.'', str ''..''}" "?s = task_id" by blast
  then show ?thesis
  proof cases
    case 1
    then have "sanitize_task_id sha task_id = str ''unnamed''" by (auto simp: sanitize_task_id_def Let_def)
    moreover have "map safe_char (str ''unnamed'') = str ''unnamed''" by code_simp
    ultimately show ?thesis using 1 by (auto simp: str_def)
  next
    case 2
    then have e: "sanitize_task_id sha task_id = ?s @ str ''-'' @ ?h" by (simp add: sanitize_task_id_def Let_def)
    have "map safe_char (str ''-'') = str ''-''" by code_simp
    then have "map safe_char (sanitize_task_id sha task_id) = sanitize_task_id sha task_id" using e safe h by simp
    moreover have "45 \<in> set (sanitize_task_id sha task_id)" by (simp add: e str_def)
    ultimately show ?thesis using 2 by (auto simp: str_def)
  next
    case 3
    then have "sanitize_task_id sha task_id = task_id" by (simp add: sanitize_task_id_def Let_def)
    then show ?thesis using 3 by simp
  qed
qed

theorem shard_names_confined_witness:
  "sanitize_task_id no_sha (str ''../x'') \<notin> {[], str ''.'', str ''..''}
   \<and> map safe_char (sanitize_task_id no_sha (str ''../x'')) = sanitize_task_id no_sha (str ''../x'')"
proof -
  have "alnum_digest no_sha" by (simp add: alnum_digest_def no_sha_def ascii_defs)
  from shard_names_confined[OF this, of "str ''../x''"] show ?thesis by simp
qed

text \<open>Four different ids share one shard.\<close>

lemma unnamed_tasks_collide:
  "shard_path sha [] = shard_path sha (str ''unnamed'') \<and> shard_path sha (str ''.'') = shard_path sha (str ''unnamed'')
   \<and> shard_path sha (str ''..'') = shard_path sha (str ''unnamed'')"
proof -
  have "map safe_char (str ''unnamed'') = str ''unnamed''" "map safe_char (str ''.'') = str ''.''"
    "map safe_char (str ''..'') = str ''..''" by code_simp+
  then show ?thesis by (simp add: shard_path_def sanitize_task_id_def Let_def)
qed

section \<open>The cache of decoded shards, across writes\<close>

text \<open>A read through the cache is a read of the disk, after any write of at most 1024 documents that gives the shard a
  new modification time.\<close>

theorem cached_reads_current:
  assumes "coherent sha dk st" and "write_task_documents_cached sha io dk st task_id docs = Inr (dk', st')"
    and "length docs \<le> MAX_TRACKED_FILES"
    and "\<forall>i c. im_get (durable_shards st) i = Some c \<longrightarrow> cs_stamp c \<noteq> io_stamp io (shard_path sha task_id)"
    and "\<And>name. io_read io name"
  shows "fst (read_task_documents_cached sha io dk' st' i) = read_task_documents sha io dk' i
    \<and> read_task_documents sha io dk' task_id = Inr docs"
proof
  show "fst (read_task_documents_cached sha io dk' st' i) = read_task_documents sha io dk' i"
    by (rule coherent_read[OF coherent_write[OF assms(1-4)] assms(5)])
  have "newest docs = docs" using assms(3) by (simp add: newest_def)
  then show "read_task_documents sha io dk' task_id = Inr docs"
    using assms(2,5)
    by (auto simp: write_task_documents_cached_def write_task_documents_def Let_def read_task_documents_def read_shard_def
        split: if_splits sum.splits)
qed

theorem cached_reads_current_witness:
  "case write_task_documents_cached no_sha sound_io empty_disk empty_storage [116] [(str ''/f'', sample_document)] of
     Inl _ \<Rightarrow> False
   | Inr (dk, st) \<Rightarrow> fst (read_task_documents_cached no_sha sound_io dk st [116]) = Inr [(str ''/f'', sample_document)]"
proof -
  let ?w = "write_task_documents_cached no_sha sound_io empty_disk empty_storage [116] [(str ''/f'', sample_document)]"
  obtain dk st where w: "?w = Inr (dk, st)"
    by (simp add: write_task_documents_cached_def write_task_documents_def sound_io_def Let_def)
  have c: "coherent no_sha empty_disk empty_storage" by (simp add: coherent_def empty_storage_def)
  show ?thesis
    using cached_reads_current[OF c w, of "[116]"] w by (simp add: empty_storage_def sound_io_def)
qed

text \<open>Beyond 1024 documents the cache keeps what the shard dropped.\<close>

lemma oversized_write_diverges:
  assumes "write_task_documents_cached sha io dk st task_id docs = Inr (dk', st')" and "MAX_TRACKED_FILES < length docs"
    and "io_stat io (shard_path sha task_id)" and "io_read io (shard_path sha task_id)"
  shows "fst (read_task_documents_cached sha io dk' st' task_id) = Inr docs
    \<and> read_task_documents sha io dk' task_id = Inr (newest docs) \<and> length (newest docs) = MAX_TRACKED_FILES"
  using assms
  by (auto simp: write_task_documents_cached_def write_task_documents_def Let_def read_task_documents_def read_shard_def
      read_task_documents_cached_def shard_identity_def cache_shard_def newest_def split: if_splits sum.splits)

section \<open>Reconciliation through the store\<close>

lemma evict_task_document: "document_in (as_tasks (evict_task t st)) t p = document_in (as_tasks st) t p"
proof (cases "filter (\<lambda>k. k \<noteq> t) (im_keys (as_tasks st))")
  case (Cons x xs)
  then have "x \<noteq> t" by (auto dest!: arg_cong[of _ _ set])
  then show ?thesis using Cons by (simp add: evict_task_def document_in_def)
qed (simp add: evict_task_def)

lemma touch_task_document: "document_in (as_tasks (touch_task t st)) t p = document_in (as_tasks st) t p"
proof -
  let ?room = "if (im_get (as_tasks st) t = None \<and> MAX_TRACKED_TASKS \<le> length (as_tasks st))
                   \<or> MAX_TRACKED_TASKS < length (as_tasks st) then evict_task t st else st"
  have "document_in (as_tasks (touch_task t st)) t p = document_in (as_tasks ?room) t p"
    by (simp add: touch_task_def Let_def document_in_def im_default_def split: option.splits)
  then show ?thesis by (simp add: evict_task_document)
qed

lemma adopt_document_in: "document_in (as_tasks (adopt_document sha t p d st)) t p = Some d"
  by (simp add: adopt_document_def set_document_def document_in_def)

definition sound_document :: "ustr \<Rightarrow> tracked_document \<Rightarrow> bool" where
  "sound_document fresh d \<longleftrightarrow> wf_document d \<and> (anchor_namespace d = None \<longrightarrow> unused_namespace fresh d)"

lemma wf_anchors: "wf_document d \<Longrightarrow> distinct (td_anchors d) \<and> length (td_anchors d) = length (td_hashes d)"
  by (simp add: wf_document_def)

lemma reconcile_tracked_sound:
  assumes "\<And>d. tracked = Some d \<Longrightarrow> sound_document fresh d"
    and "\<And>old new. valid_changes old new (diff_arrays diff old new)"
  shows "\<exists>r dk' st'. reconcile_tracked sha order diff fresh io path task_id hs durable tracked dk st = Some (r, dk', st')
    \<and> (\<forall>as. r = Inr as \<longrightarrow> distinct as \<and> length as = length hs)"
proof -
  have pub: "\<exists>r dk' st'. publish_anchors sha io path task_id tracked durable doc dk st = (r, dk', st')
      \<and> (\<forall>as. r = Inr as \<longrightarrow> distinct as \<and> length as = length hs)" if "wf_document doc" "td_hashes doc = hs" for doc
    using wf_anchors[OF that(1)] that(2)
    by (cases "publish_reconciled_document sha io path task_id tracked durable doc dk st")
      (auto simp: publish_anchors_def split: sum.splits)
  show ?thesis
  proof (cases tracked)
    case None
    show ?thesis
    proof (cases "first_document fresh hs")
      case (Inl e)
      then show ?thesis by (simp add: reconcile_tracked_def None)
    next
      case (Inr doc)
      then show ?thesis using pub[of doc] first_document_result[OF Inr] by (simp add: reconcile_tracked_def None)
    qed
  next
    case (Some d)
    note sd = assms(1)[OF Some, unfolded sound_document_def]
    show ?thesis
    proof (cases "td_hashes d = hs")
      case True
      obtain q e u where rp: "republish_document sha order io path task_id d dk (refresh_document task_id path st) = (q, e, u)"
        by (metis prod_cases3)
      show ?thesis
        using wf_anchors[OF conjunct1[OF sd]] True rp
        by (cases "durable = None"; cases q) (simp_all add: reconcile_tracked_def Some Let_def)
    next
      case False
      have no: "reconcile_document diff fresh d hs \<noteq> None"
        using reconcile_document_no_panic[OF conjunct2[OF wf_anchors[OF conjunct1[OF sd]]] assms(2)] .
      then obtain x where x: "reconcile_document diff fresh d hs = Some x" by blast
      show ?thesis
      proof (cases x)
        case (Inl e)
        then show ?thesis using x False by (simp add: reconcile_tracked_def Some)
      next
        case (Inr doc)
        have "wf_document doc \<and> td_hashes doc = hs"
          using reconcile_document_result[OF x[unfolded Inr] conjunct1[OF sd] conjunct2[OF sd] assms(2)] by blast
        then show ?thesis using pub[of doc] x Inr False by (simp add: reconcile_tracked_def Some)
      qed
    qed
  qed
qed

lemma store_document: "store_documents P dk st \<Longrightarrow> document_in (as_tasks st) t p = Some d \<Longrightarrow> P d"
  by (auto simp: store_documents_def document_in_def all_documents_def split: option.splits)

text \<open>Reading a file through the store never panics, whatever the store holds and however the diff algorithm aligns
  the revisions, and when it succeeds every line has an anchor of its own, for tracked and for large files alike.\<close>

theorem reconcile_checked_anchors:
  assumes "store_documents (sound_document fresh) dk st" and "\<And>old new. valid_changes old new (diff_arrays diff old new)"
  shows "case reconcile_checked sha order diff fresh io path ls task_id dk st of
      None \<Rightarrow> False
    | Some (r, dk', st') \<Rightarrow> (case r of Inl _ \<Rightarrow> True | Inr anchors \<Rightarrow> distinct anchors \<and> length anchors = length ls)"
proof (cases "MAX_TRACKED_LINES < length ls")
  case True
  have "length (snapshot_line_anchors sha ls) = length ls"
    by (simp add: snapshot_line_anchors_def Let_def del: upt_Suc)
  then show ?thesis using True snapshot_anchors_distinct by (simp add: reconcile_checked_def)
next
  case False
  obtain q s1 where l: "ensure_task_loaded sha io dk st task_id = (q, s1)" by fastforce
  have st1: "store_documents (sound_document fresh) dk s1" by (rule ensure_loaded_all[OF assms(1) l])
  obtain r s2 where r: "read_task_documents_cached sha io dk s1 task_id = (r, s2)" by fastforce
  note st2 = read_cached_all[OF st1 r]
  show ?thesis
  proof (cases "(\<exists>e. q = Inl e) \<or> (\<exists>e. r = Inl e)")
    case True
    then show ?thesis using l r False by (cases q) (auto simp: reconcile_checked_def)
  next
    case ok: False
    then obtain docs where docs: "r = Inr docs" by (cases r) auto
    have q: "q = Inr ()" using ok by (cases q) auto
    let ?s3 = "case im_get docs path of Some d \<Rightarrow> adopt_document sha task_id path d s2 | None \<Rightarrow> s2"
    let ?tr = "document_in (as_tasks (touch_task task_id ?s3)) task_id path"
    have tr: "sound_document fresh d" if "?tr = Some d" for d
    proof (cases "im_get docs path")
      case None
      then show ?thesis using that st2 store_document by (simp add: touch_task_document) blast
    next
      case (Some d')
      then have "d = d'"
        using that by (simp add: touch_task_document adopt_document_in)
      then show ?thesis using st2 docs Some by (simp add: all_documents_def)
    qed
    obtain r' d' s' where "reconcile_tracked sha order diff fresh io path task_id (compute_hashes ls) (im_get docs path) ?tr dk (touch_task task_id ?s3)
        = Some (r', d', s')" and "\<forall>as. r' = Inr as \<longrightarrow> distinct as \<and> length as = length (compute_hashes ls)"
      using reconcile_tracked_sound[OF tr assms(2)] by blast
    then show ?thesis using False l r docs q
      by (cases r') (auto simp: reconcile_checked_def compute_hashes_def Let_def)
  qed
qed

definition naive_diff :: "64 word list \<Rightarrow> 64 word list \<Rightarrow> diff_op list" where
  "naive_diff old new = [Replace (length old) (length new)]"

theorem reconcile_checked_anchors_witness:
  "case reconcile_checked no_sha all_order naive_diff (str ''q7'') sound_io (str ''/f'') [[97], [98]] [116] empty_disk empty_storage of
      None \<Rightarrow> False
    | Some (r, dk', st') \<Rightarrow> (case r of Inl _ \<Rightarrow> True | Inr anchors \<Rightarrow> distinct anchors \<and> length anchors = 2)"
proof -
  have s: "store_documents (sound_document (str ''q7'')) empty_disk empty_storage"
    by (simp add: store_documents_def empty_disk_def empty_storage_def)
  have v: "valid_changes old new (diff_arrays naive_diff old new)" for old new
    by (simp add: diff_arrays_def naive_diff_def)
  have two: "length [[97], [98 :: uchar]] = 2" by simp
  show ?thesis
    using reconcile_checked_anchors[OF s v, where ls = "[[97], [98]]" and path = "str ''/f''" and task_id = "[116]"]
    unfolding two .
qed

section \<open>Fingerprints and equality\<close>

text \<open>A missing namespace and an empty one have the same digest, though the documents differ.\<close>

lemma fingerprint_not_injective:
  "d\<lparr>anchor_namespace := None\<rparr> \<noteq> d\<lparr>anchor_namespace := Some []\<rparr>
   \<and> fingerprint_document sha (d\<lparr>anchor_namespace := None\<rparr>) = fingerprint_document sha (d\<lparr>anchor_namespace := Some []\<rparr>)"
proof
  show "d\<lparr>anchor_namespace := None\<rparr> \<noteq> d\<lparr>anchor_namespace := Some []\<rparr>"
  proof
    assume "d\<lparr>anchor_namespace := None\<rparr> = d\<lparr>anchor_namespace := Some []\<rparr>"
    then have "anchor_namespace (d\<lparr>anchor_namespace := None\<rparr>) = anchor_namespace (d\<lparr>anchor_namespace := Some []\<rparr>)"
      by (rule arg_cong)
    then show False by simp
  qed
qed (simp add: fingerprint_document_def fingerprint_bytes_def)

end
