(* ===== verification/FileEditor.thy ===== *)
theory FileEditor
  imports AnchorCommit
begin

text \<open>
  \<open>FileEditor\<close> of \<open>src/core/file_editor.rs\<close>: the whole of an edit, from the observation of the file through
  resolution, execution and restoration of its text format to the staged and committed anchors.
\<close>

definition transition_message :: "anchor_transition_error \<Rightarrow> ustr" where
  "transition_message e =
     (case e of
        StaleGeneration path \<Rightarrow> str ''Anchor generation changed for '' @ path @ str ''; re-read the file with read_file''
      | Validation m \<Rightarrow> str ''Invalid anchor transition: '' @ m
      | Persistence m \<Rightarrow> str ''Failed to persist anchor transition: '' @ m)"

definition msg_overlap :: ustr where
  "msg_overlap = str ''Edit ranges overlap. Apply edits sequentially or ensure non-overlapping ranges.''"

definition glued_message :: "nat list \<Rightarrow> ustr" where
  "glued_message glued =
     str ''Assembled content has Word'' @ [delim] @ str ''/hex'' @ [delim] @ str '' fragments at ''
     @ join (str '', '') (map (\<lambda>l. str ''line '' @ show_nat l) glued)
     @ str ''; the model likely reconstructed content without a newline between anchored lines. Re-read the file with read_file and retry, preserving line breaks exactly.''"

definition blank_line :: ustr where "blank_line = [nl, nl]"

text \<open>The ending of each newline: that of the original newline where both its lines are neighbours of the
  original, the file's dominant one otherwise.\<close>

definition newline_ending :: "file_text_format \<Rightarrow> nat option list \<Rightarrow> nat \<Rightarrow> file_line_ending" where
  "newline_ending format orgs index =
     (case (orgs ! index, orgs ! Suc index) of
        (Some first, Some second) \<Rightarrow>
          if second = first + 1
          then (if first < length (line_endings format) then line_endings format ! first else line_ending format)
          else line_ending format
      | _ \<Rightarrow> line_ending format)"

definition restored_content :: "ustr \<Rightarrow> ustr list \<Rightarrow> applied_edit list \<Rightarrow> splice_provenance \<Rightarrow> ustr" where
  "restored_content content new_lines applied prov =
     (let format = snd (normalize_file_content content) in
      if applied = [] then content
      else if length (origins prov) = length new_lines
      then restore_file_content_with_endings (join [nl] new_lines) format
             (map (newline_ending format (origins prov)) [0..<length new_lines - 1])
      else restore_file_content (join [nl] new_lines) format)"

text \<open>What the executor's outcome means for the batch.\<close>

definition outcome_result ::
    "resolved_edit list \<Rightarrow> apply_outcome \<Rightarrow> file_editor_error + (ustr list \<times> applied_edit list)" where
  "outcome_result resolved outcome =
     (case outcome of
        Overlap \<Rightarrow> Inl (OverlappingEdits msg_overlap)
      | GluedAnchor glued \<Rightarrow> Inl (AllEditsFailed (glued_message glued))
      | DuplicateInsertion failed \<Rightarrow>
          Inl (atomic_batch_rejected (join blank_line (map fe_error failed)) (length failed)
                 (length resolved - length failed))
      | Applied new_lines _ _ applied _ \<Rightarrow> Inr (new_lines, applied))"

definition publish_edit ::
    "(8 word list \<Rightarrow> ustr) \<Rightarrow> (ustr list \<Rightarrow> ustr list) \<Rightarrow> ustr \<Rightarrow> io \<Rightarrow> anchor_snapshot \<Rightarrow> ustr \<Rightarrow> splice_provenance
       \<Rightarrow> disk \<Rightarrow> anchor_storage \<Rightarrow> ((file_editor_error + unit) \<times> disk \<times> anchor_storage) option" where
  "publish_edit sha order fresh io snap final_content prov dk st =
     (case stage_transition sha fresh snap final_content prov of
        None \<Rightarrow> None
      | Some (Inl e) \<Rightarrow> Some (Inl (AllEditsFailed (transition_message e)), dk, st)
      | Some (Inr t) \<Rightarrow>
          (case commit_transitions_checked sha order io [t] dk st of
             (Inl e, dk', st') \<Rightarrow> Some (Inl (AllEditsFailed (transition_message e)), dk', st')
           | (Inr _, dk', st') \<Rightarrow> Some (Inr (), dk', st')))"

definition edit_content ::
    "(8 word list \<Rightarrow> ustr) \<Rightarrow> (ustr list \<Rightarrow> ustr list) \<Rightarrow> (uchar \<Rightarrow> bool) \<Rightarrow> (ustr \<Rightarrow> ustr) \<Rightarrow> ustr \<Rightarrow> io
       \<Rightarrow> ustr \<Rightarrow> edit list \<Rightarrow> ustr \<Rightarrow> ustr \<Rightarrow> disk \<Rightarrow> anchor_storage
       \<Rightarrow> ((file_editor_error + (ustr \<times> applied_edit list \<times> failed_edit list)) \<times> disk \<times> anchor_storage) option" where
  "edit_content sha order alnum dbg fresh io content edits path task_id dk st =
     (case observe_snapshot sha fresh io path content task_id dk st of
        (Inl e, st1) \<Rightarrow> Some (Inl (AllEditsFailed (transition_message e)), dk, st1)
      | (Inr snap, st1) \<Rightarrow>
          (case resolve_edits dbg edits (sn_lines snap) (sn_anchors snap) of
             None \<Rightarrow> None
           | Some (resolved, failed) \<Rightarrow>
               if failed \<noteq> [] \<and> resolved = []
               then Some (Inl (atomic_batch_rejected
                      (join blank_line (map (\<lambda>f. format_failure_message dbg (fe_edit f) (Some (fe_error f))) failed))
                      (length failed) 0), dk, st1)
               else
                 (case apply_edits_with_provenance alnum dbg (sn_lines snap) resolved of
                    None \<Rightarrow> None
                  | Some (outcome, prov) \<Rightarrow>
                      (case outcome_result resolved outcome of
                         Inl e \<Rightarrow> Some (Inl e, dk, st1)
                       | Inr (new_lines, applied) \<Rightarrow>
                           (let final_content = restored_content content new_lines applied prov in
                            case publish_edit sha order fresh io snap final_content prov dk st1 of
                              None \<Rightarrow> None
                            | Some (Inl e, dk', st') \<Rightarrow> Some (Inl e, dk', st')
                            | Some (Inr _, dk', st') \<Rightarrow> Some (Inr (final_content, applied, failed), dk', st'))))))"

section \<open>Outcomes of an edit\<close>

definition target_of_snapshot :: "anchor_snapshot \<Rightarrow> ustr \<times> ustr" where
  "target_of_snapshot snap = (sn_task_id snap, sn_absolute_path snap)"

lemma observed_snapshot:
  assumes "observe_snapshot sha fresh io path content task_id dk st = (Inr snap, st')"
  shows "length (sn_anchors snap) = length (sn_lines snap)" and "length (td_anchors (sn_document snap)) = length (sn_lines snap)"
    and "target_of_snapshot snap = (task_id, path)" and "sn_raw_digest snap = content_digest sha content"
proof -
  obtain mem exp where "observe_content sha fresh path task_id content mem exp = Inr snap"
    using assms by (auto simp: observe_snapshot_def split: prod.splits sum.splits)
  then obtain doc where d: "observe_document sha fresh path (final_lines content) mem exp = Inr doc"
    and s: "snap = snapshot_of sha path task_id content mem exp doc"
    by (auto simp: observe_content_def Let_def final_lines_def split: sum.splits)
  have large: "length (snapshot_line_anchors sha ls) = length ls" for ls
    by (simp add: snapshot_line_anchors_def Let_def del: upt_Suc)
  have "length (td_anchors doc) = length (final_lines content)"
    using d first_document_result[of fresh "compute_hashes (final_lines content)" doc]
    by (auto simp: observe_document_def Let_def large wf_document_def compute_hashes_def split: if_splits option.splits)
  then show "length (sn_anchors snap) = length (sn_lines snap)" "length (td_anchors (sn_document snap)) = length (sn_lines snap)"
    "target_of_snapshot snap = (task_id, path)" "sn_raw_digest snap = content_digest sha content"
    by (simp_all add: s snapshot_of_def target_of_snapshot_def Let_def flip: final_lines_def)
qed

lemma observe_frame:
  assumes "observe_snapshot sha fresh io path content task_id dk st = (r, st')" and "im_get (as_tasks st) t = Some docs"
  shows "im_get (as_tasks st') t = Some docs"
proof -
  obtain q s where q: "read_task_documents_cached sha io dk st task_id = (q, s)" by fastforce
  have s: "im_get (as_tasks s) t = Some docs" using read_cached_frame(1)[OF q] assms(2) by simp
  obtain q2 s2 where q2: "ensure_task_loaded sha io dk s task_id = (q2, s2)" by fastforce
  have "im_get (as_tasks s2) t = Some docs" by (rule ensure_loaded_keeps[OF q2 s])
  then show ?thesis using assms(1) s q q2
    by (cases q; cases q2) (auto simp: observe_snapshot_def split: if_splits)
qed

lemma stage_lines_no_panic:
  "length (td_anchors (sn_document snap)) = length (sn_lines snap) \<Longrightarrow> stage_lines fresh snap xs prev doc \<noteq> None"
proof (induction fresh snap xs prev doc rule: stage_lines.induct)
  case (2 fresh snap line origin sa rest previous doc)
  show ?case
  proof (cases "case origin of Some p \<Rightarrow> \<not> valid_origin (sn_lines snap) previous p line | None \<Rightarrow> False")
    case True
    then show ?thesis by simp
  next
    case False
    have "line_word fresh snap sa origin doc \<noteq> None"
      using False "2.prems" by (auto simp: line_word_def valid_origin_def split: option.splits)
    then obtain x where x: "line_word fresh snap sa origin doc = Some x" by blast
    show ?thesis
    proof (cases x)
      case (Inl e)
      then show ?thesis using False x by simp
    next
      case (Inr y)
      obtain d w where y: "y = (d, w)" by fastforce
      show ?thesis using "2.IH"[OF False x Inr y[symmetric]] "2.prems" x Inr y False by simp
    qed
  qed
qed simp

lemma stage_transition_no_panic:
  "length (td_anchors (sn_document snap)) = length (sn_lines snap) \<Longrightarrow> stage_transition sha fresh snap content prov \<noteq> None"
  using stage_lines_no_panic[of snap]
  by (auto simp: stage_transition_def Let_def simp del: not_None_eq split: option.splits sum.splits)

lemma resolve_edits_total:
  assumes "length hashes = length ls"
  obtains rs fs where "resolve_edits dbg edits ls hashes = Some (rs, fs)"
proof -
  have "length (map trim hashes) = length ls" using assms by simp
  then show thesis using that resolve_all_total resolve_edit_no_panic unfolding resolve_edits_def by blast
qed

lemma staged_facts:
  "stage_transition sha fresh snap content prov = Some (Inr t) \<Longrightarrow>
   output_lines t = final_lines content \<and> target t = target_of_snapshot snap
   \<and> (is_noop t \<longrightarrow> sn_raw_digest snap = content_digest sha content)
   \<and> tr_snapshot_mode t = (MAX_TRACKED_LINES < length (final_lines content))"
  by (auto simp: stage_transition_def Let_def build_transition_def target_def target_of_snapshot_def final_lines_def
      split: option.splits sum.splits if_splits)

text \<open>A publication that fails leaves the disk and the loaded tasks alone.\<close>

lemma publish_edit_failure:
  assumes "publish_edit sha order fresh io snap content prov dk st = Some (Inl e, dk', st')" and "order [sn_task_id snap] = [sn_task_id snap]"
  shows "dk' = dk \<and> (\<forall>t docs. im_get (as_tasks st) t \<noteq> Some docs \<or> im_get (as_tasks st') t = Some docs)"
proof -
  obtain x where x: "stage_transition sha fresh snap content prov = Some x"
    using assms(1) by (auto simp: publish_edit_def split: option.splits)
  show ?thesis
  proof (cases x)
    case (Inl e)
    then show ?thesis using assms(1) x by (auto simp: publish_edit_def)
  next
    case (Inr t)
    have id: "tr_task_id t = sn_task_id snap" using staged_facts[OF x[unfolded Inr]] by (simp add: target_def target_of_snapshot_def)
    obtain r d s where c: "commit_transitions_checked sha order io [t] dk st = (r, d, s)" by (metis prod_cases3)
    then obtain e' where "r = Inl e'" "d = dk'" "s = st'"
      using assms(1) x Inr by (cases r) (auto simp: publish_edit_def)
    then show ?thesis using failed_commit_frame[of sha order io "[t]" dk st e' dk' st' "sn_task_id snap"] c id assms(2) by simp
  qed
qed

lemma committed_metadata:
  assumes "commit_transitions_checked sha order io ts dk st = (Inr (), dk', st')" and "t \<in> set ts"
  shows "metadata_agrees t"
proof (rule check_transitions_ok[OF assms(1)[unfolded commit_transitions_checked_def]])
  show "ts \<noteq> []" using assms(2) by auto
next
  fix durable st1 assume "transition_errors (as_tasks st1) durable {} ts = None"
  then show ?thesis using transition_errors_None assms(2) by blast
qed

lemma edit_content_cases:
  obtains e st1 where "observe_snapshot sha fresh io path content task_id dk st = (Inl e, st1)"
      "edit_content sha order alnum dbg fresh io content edits path task_id dk st = Some (Inl (AllEditsFailed (transition_message e)), dk, st1)"
  | snap st1 e where "observe_snapshot sha fresh io path content task_id dk st = (Inr snap, st1)"
      "edit_content sha order alnum dbg fresh io content edits path task_id dk st = Some (Inl e, dk, st1)"
  | snap st1 resolved failed outcome prov new_lines applied
    where "observe_snapshot sha fresh io path content task_id dk st = (Inr snap, st1)"
      "resolve_edits dbg edits (sn_lines snap) (sn_anchors snap) = Some (resolved, failed)"
      "apply_edits_with_provenance alnum dbg (sn_lines snap) resolved = Some (outcome, prov)"
      "outcome_result resolved outcome = Inr (new_lines, applied)"
      "edit_content sha order alnum dbg fresh io content edits path task_id dk st =
        (case publish_edit sha order fresh io snap (restored_content content new_lines applied prov) prov dk st1 of
           None \<Rightarrow> None
         | Some (Inl e, dk', st') \<Rightarrow> Some (Inl e, dk', st')
         | Some (Inr _, dk', st') \<Rightarrow> Some (Inr (restored_content content new_lines applied prov, applied, failed), dk', st'))"
proof -
  obtain r st1 where o: "observe_snapshot sha fresh io path content task_id dk st = (r, st1)" by fastforce
  show thesis
  proof (cases r)
    case (Inl e)
    show thesis using o Inl by (intro that(1)) (simp_all add: edit_content_def)
  next
    case (Inr snap)
    note ob = observed_snapshot[OF o[unfolded Inr]]
    obtain resolved failed where rs: "resolve_edits dbg edits (sn_lines snap) (sn_anchors snap) = Some (resolved, failed)"
      using resolve_edits_total[OF ob(1)] by blast
    have "\<forall>r \<in> set resolved. in_bounds (sn_lines snap) r" by (rule resolved_in_bounds[OF rs ob(1)])
    then obtain outcome prov where ap: "apply_edits_with_provenance alnum dbg (sn_lines snap) resolved = Some (outcome, prov)"
      using apply_edits_total by fastforce
    show thesis
    proof (cases "failed \<noteq> [] \<and> resolved = []")
      case True
      then show thesis using o Inr rs by (intro that(2)) (auto simp: edit_content_def)
    next
      case False
      show thesis
      proof (cases "outcome_result resolved outcome")
        case e: (Inl e)
        show thesis using o Inr rs ap e False by (intro that(2)) (auto simp: edit_content_def)
      next
        case x: (Inr x)
        obtain nl ap' where x': "x = (nl, ap')" by fastforce
        show thesis using o Inr rs ap x x' False
          by (intro that(3)[OF o[unfolded Inr] rs ap x[unfolded x']]) (auto simp: edit_content_def Let_def)
      qed
    qed
  qed
qed

text \<open>C27. An edit never panics and is all or nothing towards the store: when it is rejected, for a stale observation, an
  unresolved or overlapping batch, a glued or duplicated line, a refused transition or a failed write, no file of the
  cache has changed and every document in memory is still there.\<close>

theorem rejected_edit_changes_nothing:
  assumes "order [task_id] = [task_id]"
  shows "case edit_content sha order alnum dbg fresh io content edits path task_id dk st of
      None \<Rightarrow> False
    | Some (r, dk', st') \<Rightarrow> (case r of Inr _ \<Rightarrow> True
        | Inl e \<Rightarrow> dk' = dk \<and> (\<forall>t docs. im_get (as_tasks st) t \<noteq> Some docs \<or> im_get (as_tasks st') t = Some docs))"
proof (rule edit_content_cases[of sha fresh io path content task_id dk st order alnum dbg edits])
  fix e st1
  assume h: "observe_snapshot sha fresh io path content task_id dk st = (Inl e, st1)"
    "edit_content sha order alnum dbg fresh io content edits path task_id dk st = Some (Inl (AllEditsFailed (transition_message e)), dk, st1)"
  show ?thesis using h(2) observe_frame[OF h(1)] by auto
next
  fix snap st1 e
  assume h: "observe_snapshot sha fresh io path content task_id dk st = (Inr snap, st1)"
    "edit_content sha order alnum dbg fresh io content edits path task_id dk st = Some (Inl e, dk, st1)"
  show ?thesis using h(2) observe_frame[OF h(1)] by auto
next
  fix snap st1 resolved failed outcome prov new_lines applied
  let ?fin = "restored_content content new_lines applied prov"
  assume o: "observe_snapshot sha fresh io path content task_id dk st = (Inr snap, st1)"
    and e: "edit_content sha order alnum dbg fresh io content edits path task_id dk st =
        (case publish_edit sha order fresh io snap ?fin prov dk st1 of
           None \<Rightarrow> None
         | Some (Inl e, dk', st') \<Rightarrow> Some (Inl e, dk', st')
         | Some (Inr _, dk', st') \<Rightarrow> Some (Inr (?fin, applied, failed), dk', st'))"
  note ob = observed_snapshot[OF o]
  have "stage_transition sha fresh snap ?fin prov \<noteq> None" by (rule stage_transition_no_panic[OF ob(2)])
  then have "publish_edit sha order fresh io snap ?fin prov dk st1 \<noteq> None"
    by (auto simp: publish_edit_def split: sum.splits prod.splits)
  then obtain r d s where p: "publish_edit sha order fresh io snap ?fin prov dk st1 = Some (r, d, s)" by auto
  show ?thesis
  proof (cases r)
    case (Inl x)
    have "order [sn_task_id snap] = [sn_task_id snap]" using assms ob(3) by (simp add: target_of_snapshot_def)
    then show ?thesis using publish_edit_failure[OF p[unfolded Inl]] observe_frame[OF o] e p Inl by auto
  qed (use e p in auto)
qed

definition sample_edit :: edit where
  "sample_edit = Edit_block (str ''b'') (str ''c'')"

theorem rejected_edit_changes_nothing_witness:
  "case edit_content no_sha all_order (\<lambda>_. True) (\<lambda>s. s) (str ''q'') (full_disk (str ''t.json'')) (join [nl] [[97], [98]]) [sample_edit]
      (str ''/f'') [116] empty_disk empty_storage of
      None \<Rightarrow> False
    | Some (r, dk', st') \<Rightarrow> (case r of Inr _ \<Rightarrow> False | Inl e \<Rightarrow> dk' = empty_disk)"
proof -
  let ?e = "edit_content no_sha all_order (\<lambda>_. True) (\<lambda>s. s) (str ''q'') (full_disk (str ''t.json'')) (join [nl] [[97], [98]]) [sample_edit]
      (str ''/f'') [116] empty_disk empty_storage"
  have "case ?e of Some (Inl _, _, _) \<Rightarrow> True | _ \<Rightarrow> False" by code_simp
  then obtain r d s where e: "?e = Some (r, d, s)" and r: "case r of Inl _ \<Rightarrow> True | Inr _ \<Rightarrow> False" by (cases ?e) auto
  then obtain x where x: "r = Inl x" by (cases r) auto
  have "all_order [[116]] = [[116]]" by (simp add: all_order_def)
  from rejected_edit_changes_nothing[where order = all_order and task_id = "[116]" and dk = empty_disk and sha = no_sha
      and alnum = "\<lambda>_. True" and dbg = "\<lambda>s. s" and fresh = "str ''q''" and io = "full_disk (str ''t.json'')"
      and content = "join [nl] [[97], [98]]" and edits = "[sample_edit]" and path = "str ''/f''" and st = empty_storage, OF this]
  show ?thesis unfolding e x by simp
qed

text \<open>C4. An edit that succeeds leaves the store describing the returned text: the document in memory has the hashes of
  its lines, or the file is too large to be tracked, or the text is the one that was read.\<close>

theorem edited_content_tracked:
  assumes "edit_content sha order alnum dbg fresh io content edits path task_id dk st = Some (Inr (content', applied, failed), dk', st')"
    and "\<And>ks. set (order ks) = set ks"
  shows "sha (utf8 content') = sha (utf8 content)
    \<or> (case document_in (as_tasks st') task_id path of
         None \<Rightarrow> MAX_TRACKED_LINES < length (final_lines content')
       | Some doc \<Rightarrow> td_hashes doc = compute_hashes (final_lines content'))"
proof (rule edit_content_cases[of sha fresh io path content task_id dk st order alnum dbg edits])
  fix snap st1 resolved fs outcome prov new_lines ap
  let ?fin = "restored_content content new_lines ap prov"
  assume o: "observe_snapshot sha fresh io path content task_id dk st = (Inr snap, st1)"
    and e: "edit_content sha order alnum dbg fresh io content edits path task_id dk st =
        (case publish_edit sha order fresh io snap ?fin prov dk st1 of
           None \<Rightarrow> None
         | Some (Inl e, dk', st') \<Rightarrow> Some (Inl e, dk', st')
         | Some (Inr _, dk', st') \<Rightarrow> Some (Inr (?fin, ap, fs), dk', st'))"
  note ob = observed_snapshot[OF o]
  obtain r d s where p: "publish_edit sha order fresh io snap ?fin prov dk st1 = Some (r, d, s)"
    using assms(1) e by (auto split: option.splits)
  then have r: "r = Inr ()" "content' = ?fin" "st' = s" using assms(1) e by (auto split: sum.splits)
  obtain t where t: "stage_transition sha fresh snap ?fin prov = Some (Inr t)"
    and c: "commit_transitions_checked sha order io [t] dk st1 = (Inr (), d, s)"
    using p[unfolded r] by (auto simp: publish_edit_def split: option.splits sum.splits prod.splits)
  note sf = staged_facts[OF t]
  have m: "metadata_agrees t" by (rule committed_metadata[OF c]) simp
  have h: "td_hashes (tr_document t) = compute_hashes (final_lines ?fin)" using m sf by (simp add: metadata_agrees_def)
  show ?thesis
  proof (cases "is_noop t")
    case True
    then show ?thesis using sf ob(4) by (simp add: content_digest_def r(2))
  next
    case False
    have "document_in (as_tasks s) task_id path = outcome_of t"
      using commit_outcomes[OF c assms(2)] False sf ob(3) by (simp add: target_def target_of_snapshot_def)
    moreover have "outcome_of t = (if MAX_TRACKED_LINES < length (final_lines ?fin) then None else Some (tr_document t))"
      using sf by (simp add: outcome_of_def)
    ultimately show ?thesis unfolding r(2,3) by (simp add: h)
  qed
qed (use assms(1) in auto)

theorem edited_content_tracked_witness:
  "case edit_content no_sha all_order (\<lambda>_. True) (\<lambda>s. s) (str ''q'') sound_io (join [nl] [[97], [98]]) [sample_edit]
      (str ''/f'') [116] empty_disk empty_storage of
    Some (Inr (content', _, _), _, st') \<Rightarrow> content' = join [nl] [[97], [99]]
      \<and> (no_sha (utf8 content') = no_sha (utf8 (join [nl] [[97], [98]]))
         \<or> (case document_in (as_tasks st') [116] (str ''/f'') of
              None \<Rightarrow> MAX_TRACKED_LINES < length (final_lines content')
            | Some doc \<Rightarrow> td_hashes doc = compute_hashes (final_lines content')))
   | _ \<Rightarrow> False"
proof -
  let ?e = "edit_content no_sha all_order (\<lambda>_. True) (\<lambda>s. s) (str ''q'') sound_io (join [nl] [[97], [98]]) [sample_edit]
      (str ''/f'') [116] empty_disk empty_storage"
  have "case ?e of Some (Inr (content', _, _), _, _) \<Rightarrow> content' = join [nl] [[97], [99]] | _ \<Rightarrow> False" by code_simp
  then obtain r d s where "?e = Some (r, d, s)" and r: "case r of Inr (content', _, _) \<Rightarrow> content' = join [nl] [[97], [99]] | _ \<Rightarrow> False"
    by (cases ?e) auto
  moreover obtain c a f where "r = Inr (c, a, f)" using r by (cases r) auto
  ultimately have e: "?e = Some (Inr (c, a, f), d, s)" and c: "c = join [nl] [[97], [99]]" by auto
  have "set (all_order ks) = set ks" for ks by (simp add: all_order_def)
  from edited_content_tracked[OF e this] c show ?thesis unfolding e by (simp only: option.case sum.case prod.case simp_thms)
qed

end
