(* ===== verification/FileLocks.thy ===== *)
theory FileLocks
  imports Prelude IndexMap
begin

text \<open>
  The per-path lock table of \<open>src/core/file_editor.rs\<close>: \<open>FileLockManager\<close>, \<open>PendingFileLock\<close> and
  \<open>FileEditGuard\<close>, as a machine whose steps are the sections that run under the table's mutex and the calls on
  one path's asynchronous mutex, with the clients (tasks and threads) interleaved in any order. An \<open>Arc\<close> is the
  number of its mutex and its strong count is counted over the table and the clients. Tokio's mutex is what its
  documentation says: it hands out a guard only while no other guard of it exists. A future may be polled any
  number of times without getting the lock; that is no step.
\<close>

section \<open>State\<close>

text \<open>What one client has in hand. \<open>Dropping\<close> is a failed \<open>try_lock_owned\<close> that still holds its \<open>Arc\<close>;
  \<open>Releasing\<close> has dropped its lock or future and has yet to call \<open>release\<close>.\<close>

datatype lock_handle =
    PendingLock ustr nat
  | TryingLock ustr nat
  | DroppingLock ustr nat
  | GuardLock ustr nat
  | ReleasingLock ustr

record lock_table =
  lt_locks :: "(ustr, nat) imap"
  lt_clients :: "(nat, lock_handle) imap"
  lt_owners :: "nat list"
  lt_next :: nat

definition empty_locks :: lock_table where
  "empty_locks = \<lparr>lt_locks = [], lt_clients = [], lt_owners = [], lt_next = 0\<rparr>"

text \<open>A pending future owns two references to its mutex, every other handle one.\<close>

fun handle_refs :: "nat \<Rightarrow> lock_handle \<Rightarrow> nat" where
  "handle_refs m (PendingLock _ n) = (if n = m then 2 else 0)"
| "handle_refs m (TryingLock _ n) = (if n = m then 1 else 0)"
| "handle_refs m (DroppingLock _ n) = (if n = m then 1 else 0)"
| "handle_refs m (GuardLock _ n) = (if n = m then 1 else 0)"
| "handle_refs m (ReleasingLock _) = 0"

definition strong_count :: "lock_table \<Rightarrow> nat \<Rightarrow> nat" where
  "strong_count s m = count_list (map snd (lt_locks s)) m + sum_list (map (\<lambda>(_, h). handle_refs m h) (lt_clients s))"

section \<open>Operations\<close>

text \<open>\<open>entry(path).or_insert_with(..).clone()\<close>: the path's mutex, made on demand.\<close>

definition lock_entry :: "ustr \<Rightarrow> lock_table \<Rightarrow> nat \<times> lock_table" where
  "lock_entry path s =
     (case im_get (lt_locks s) path of
        Some m \<Rightarrow> (m, s)
      | None \<Rightarrow> (lt_next s, s\<lparr>lt_locks := im_insert path (lt_next s) (lt_locks s), lt_next := Suc (lt_next s)\<rparr>))"

definition set_client :: "nat \<Rightarrow> lock_handle \<Rightarrow> lock_table \<Rightarrow> lock_table" where
  "set_client c h s = s\<lparr>lt_clients := im_insert c h (lt_clients s)\<rparr>"

definition drop_client :: "nat \<Rightarrow> lock_table \<Rightarrow> lock_table" where
  "drop_client c s = s\<lparr>lt_clients := im_shift_remove c (lt_clients s)\<rparr>"

definition lock_mutex :: "nat \<Rightarrow> lock_table \<Rightarrow> lock_table" where
  "lock_mutex m s = s\<lparr>lt_owners := m # lt_owners s\<rparr>"

definition unlock_mutex :: "nat \<Rightarrow> lock_table \<Rightarrow> lock_table" where
  "unlock_mutex m s = s\<lparr>lt_owners := removeAll m (lt_owners s)\<rparr>"

definition release_lock :: "ustr \<Rightarrow> lock_table \<Rightarrow> lock_table" where
  "release_lock path s =
     (case im_get (lt_locks s) path of
        Some m \<Rightarrow> if strong_count s m \<le> 1 then s\<lparr>lt_locks := im_shift_remove path (lt_locks s)\<rparr> else s
      | None \<Rightarrow> s)"

datatype lock_event =
    AcquireLock nat ustr
  | PollLock nat
  | DropLock nat
  | TryAcquireLock nat ustr
  | TryLock nat
  | DropTried nat
  | ReleaseLock nat

fun lock_step :: "lock_event \<Rightarrow> lock_table \<Rightarrow> lock_table option" where
  "lock_step (AcquireLock c path) s =
     (case im_get (lt_clients s) c of
        Some _ \<Rightarrow> None
      | None \<Rightarrow> (let (m, s') = lock_entry path s in Some (set_client c (PendingLock path m) s')))"
| "lock_step (PollLock c) s =
     (case im_get (lt_clients s) c of
        Some (PendingLock path m) \<Rightarrow>
          if m \<in> set (lt_owners s) then None else Some (set_client c (GuardLock path m) (lock_mutex m s))
      | _ \<Rightarrow> None)"
| "lock_step (DropLock c) s =
     (case im_get (lt_clients s) c of
        Some (PendingLock path m) \<Rightarrow> Some (set_client c (ReleasingLock path) s)
      | Some (GuardLock path m) \<Rightarrow> Some (set_client c (ReleasingLock path) (unlock_mutex m s))
      | _ \<Rightarrow> None)"
| "lock_step (TryAcquireLock c path) s =
     (case im_get (lt_clients s) c of
        Some _ \<Rightarrow> None
      | None \<Rightarrow> (let (m, s') = lock_entry path s in Some (set_client c (TryingLock path m) s')))"
| "lock_step (TryLock c) s =
     (case im_get (lt_clients s) c of
        Some (TryingLock path m) \<Rightarrow>
          if m \<in> set (lt_owners s) then Some (set_client c (DroppingLock path m) s)
          else Some (set_client c (GuardLock path m) (lock_mutex m s))
      | _ \<Rightarrow> None)"
| "lock_step (DropTried c) s =
     (case im_get (lt_clients s) c of
        Some (DroppingLock path m) \<Rightarrow> Some (drop_client c s)
      | _ \<Rightarrow> None)"
| "lock_step (ReleaseLock c) s =
     (case im_get (lt_clients s) c of
        Some (ReleasingLock path) \<Rightarrow> Some (drop_client c (release_lock path s))
      | _ \<Rightarrow> None)"

fun lock_run :: "lock_event list \<Rightarrow> lock_table \<Rightarrow> lock_table option" where
  "lock_run [] s = Some s"
| "lock_run (e # es) s = (case lock_step e s of None \<Rightarrow> None | Some s' \<Rightarrow> lock_run es s')"

inductive reachable_locks :: "lock_table \<Rightarrow> bool" where
  start: "reachable_locks empty_locks"
| step: "reachable_locks s \<Longrightarrow> lock_step e s = Some s' \<Longrightarrow> reachable_locks s'"

lemma lock_run_reachable: "reachable_locks s \<Longrightarrow> lock_run es s = Some s' \<Longrightarrow> reachable_locks s'"
  by (induction es arbitrary: s) (auto intro: reachable_locks.step split: option.splits)

section \<open>The invariant\<close>

fun handle_lock :: "lock_handle \<Rightarrow> (ustr \<times> nat) option" where
  "handle_lock (PendingLock p m) = Some (p, m)"
| "handle_lock (TryingLock p m) = Some (p, m)"
| "handle_lock (DroppingLock p m) = Some (p, m)"
| "handle_lock (GuardLock p m) = Some (p, m)"
| "handle_lock (ReleasingLock p) = None"

text \<open>Mutexes are not shared between paths; every handle refers to the mutex its path has in the table; the owner
  of a locked mutex is the one client with a guard of it.\<close>

definition locks_ok :: "lock_table \<Rightarrow> bool" where
  "locks_ok s \<longleftrightarrow> im_wf (lt_locks s) \<and> im_wf (lt_clients s)
     \<and> (\<forall>p m. im_get (lt_locks s) p = Some m \<longrightarrow> m < lt_next s)
     \<and> (\<forall>p q m. im_get (lt_locks s) p = Some m \<and> im_get (lt_locks s) q = Some m \<longrightarrow> p = q)"

definition handles_ok :: "lock_table \<Rightarrow> bool" where
  "handles_ok s \<longleftrightarrow> (\<forall>c h p m. im_get (lt_clients s) c = Some h \<and> handle_lock h = Some (p, m)
     \<longrightarrow> im_get (lt_locks s) p = Some m)"

fun guard_mutex :: "lock_handle \<Rightarrow> nat option" where
  "guard_mutex (GuardLock p m) = Some m"
| "guard_mutex h = None"

definition guards :: "lock_table \<Rightarrow> nat \<Rightarrow> nat option" where
  "guards s c = (case im_get (lt_clients s) c of None \<Rightarrow> None | Some h \<Rightarrow> guard_mutex h)"

definition owners_ok :: "lock_table \<Rightarrow> bool" where
  "owners_ok s \<longleftrightarrow> (\<forall>m. m \<in> set (lt_owners s) \<longleftrightarrow> (\<exists>c. guards s c = Some m))
     \<and> (\<forall>c c' m. guards s c = Some m \<and> guards s c' = Some m \<longrightarrow> c = c')"

definition lock_inv :: "lock_table \<Rightarrow> bool" where
  "lock_inv s \<longleftrightarrow> locks_ok s \<and> handles_ok s \<and> owners_ok s"

lemma lock_inv_start: "lock_inv empty_locks"
  by (simp add: lock_inv_def locks_ok_def handles_ok_def owners_ok_def guards_def empty_locks_def)

text \<open>The strong count of a path's mutex is 1 only when no handle refers to it.\<close>

lemma im_get_member: "im_get m k = Some v \<Longrightarrow> (k, v) \<in> set m"
  by (simp add: im_get_def map_of_SomeD)

lemma referenced_mutex_counted:
  assumes "im_get (lt_locks s) p = Some m" and "im_get (lt_clients s) c = Some h" and "handle_lock h = Some (p', m)"
  shows "1 < strong_count s m"
proof -
  have "m \<in> set (map snd (lt_locks s))" using im_get_member[OF assms(1)] by force
  then have "count_list (map snd (lt_locks s)) m \<noteq> 0" by (simp add: count_list_0_iff)
  moreover have "handle_refs m h \<le> sum_list (map (\<lambda>(_, h). handle_refs m h) (lt_clients s))"
    using im_get_member[OF assms(2)] by (intro member_le_sum_list) (force intro: rev_image_eqI)+
  moreover have "0 < handle_refs m h" using assms(3) by (cases h) auto
  ultimately show ?thesis by (simp add: strong_count_def)
qed

lemma release_locks:
  "im_get (lt_locks (release_lock path s)) p =
     (if p = path \<and> (\<exists>m. im_get (lt_locks s) path = Some m \<and> strong_count s m \<le> 1) then None else im_get (lt_locks s) p)"
  "lt_clients (release_lock path s) = lt_clients s" "lt_owners (release_lock path s) = lt_owners s"
  "lt_next (release_lock path s) = lt_next s"
  by (auto simp: release_lock_def split: option.splits)

lemma release_keeps_handles: "handles_ok s \<Longrightarrow> handles_ok (release_lock path s)"
  unfolding handles_ok_def
proof (intro allI impI, elim conjE)
  fix c h p m
  assume ok: "\<forall>c h p m. im_get (lt_clients s) c = Some h \<and> handle_lock h = Some (p, m) \<longrightarrow> im_get (lt_locks s) p = Some m"
    and c: "im_get (lt_clients (release_lock path s)) c = Some h" and h: "handle_lock h = Some (p, m)"
  have c': "im_get (lt_clients s) c = Some h" using c by (simp add: release_locks)
  have l: "im_get (lt_locks s) p = Some m" using ok c' h by blast
  show "im_get (lt_locks (release_lock path s)) p = Some m"
    using referenced_mutex_counted[OF l c' h] l by (auto simp: release_locks)
qed

lemma release_keeps_locks: "locks_ok s \<Longrightarrow> locks_ok (release_lock path s)"
  by (auto simp: locks_ok_def release_lock_def split: option.splits if_splits)

lemma guards_simps [simp]:
  "guards (set_client c h s) = (guards s)(c := guard_mutex h)"
  "guards (drop_client c s) = (guards s)(c := None)"
  "guards (lock_mutex m s) = guards s" "guards (unlock_mutex m s) = guards s" "guards (release_lock p s) = guards s"
  "guards (s\<lparr>lt_locks := l, lt_next := n\<rparr>) = guards s"
  by (auto simp: guards_def fun_eq_iff set_client_def drop_client_def lock_mutex_def unlock_mutex_def release_locks)

lemma client_simps [simp]:
  "lt_owners (set_client c h s) = lt_owners s" "lt_owners (drop_client c s) = lt_owners s"
  "lt_owners (lock_mutex m s) = m # lt_owners s" "lt_owners (unlock_mutex m s) = removeAll m (lt_owners s)"
  "lt_locks (set_client c h s) = lt_locks s" "lt_locks (drop_client c s) = lt_locks s"
  "lt_locks (lock_mutex m s) = lt_locks s" "lt_locks (unlock_mutex m s) = lt_locks s"
  "lt_next (set_client c h s) = lt_next s" "lt_next (drop_client c s) = lt_next s"
  "lt_next (lock_mutex m s) = lt_next s" "lt_next (unlock_mutex m s) = lt_next s"
  "lt_clients (set_client c h s) = im_insert c h (lt_clients s)" "lt_clients (drop_client c s) = im_shift_remove c (lt_clients s)"
  "lt_clients (lock_mutex m s) = lt_clients s" "lt_clients (unlock_mutex m s) = lt_clients s"
  by (simp_all add: set_client_def drop_client_def lock_mutex_def unlock_mutex_def)

lemma lock_entry_ok:
  assumes "lock_entry p s = (m, s')" and "lock_inv s"
  shows "lock_inv s' \<and> im_get (lt_locks s') p = Some m \<and> lt_clients s' = lt_clients s"
proof (cases "im_get (lt_locks s) p")
  case None
  have "m = lt_next s" and s': "s' = s\<lparr>lt_locks := im_insert p (lt_next s) (lt_locks s), lt_next := Suc (lt_next s)\<rparr>"
    using assms(1) None by (auto simp: lock_entry_def)
  moreover have "locks_ok s'" using assms(2) unfolding s'
    by (auto simp: lock_inv_def locks_ok_def less_Suc_eq)
  moreover have "handles_ok s'" using assms(2) None unfolding s'
    by (fastforce simp: lock_inv_def handles_ok_def)
  moreover have "owners_ok s'" using assms(2) unfolding s' by (simp add: lock_inv_def owners_ok_def)
  ultimately show ?thesis by (simp add: lock_inv_def)
qed (use assms in \<open>auto simp: lock_entry_def\<close>)

lemma set_handle_ok:
  "locks_ok s \<Longrightarrow> locks_ok (set_client c h s)" "locks_ok s \<Longrightarrow> locks_ok (drop_client c s)"
  "locks_ok (lock_mutex m s) = locks_ok s" "locks_ok (unlock_mutex m s) = locks_ok s"
  "handles_ok s \<Longrightarrow> (\<forall>p m. handle_lock h = Some (p, m) \<longrightarrow> im_get (lt_locks s) p = Some m) \<Longrightarrow> handles_ok (set_client c h s)"
  "handles_ok s \<Longrightarrow> handles_ok (drop_client c s)"
  "handles_ok (lock_mutex m s) = handles_ok s" "handles_ok (unlock_mutex m s) = handles_ok s"
  by (auto simp: locks_ok_def handles_ok_def)

lemma add_handle:
  assumes "lock_inv s" and "im_get (lt_locks s) p = Some m" and "handle_lock h = Some (p, m)"
    and "guard_mutex h = None" and "guards s c = None"
  shows "lock_inv (set_client c h s)"
  using assms by (simp add: lock_inv_def set_handle_ok owners_ok_def fun_upd_idem)

lemma take_guard:
  assumes "lock_inv s" and "im_get (lt_locks s) p = Some m" and "guards s c = None" and "m \<notin> set (lt_owners s)"
  shows "lock_inv (set_client c (GuardLock p m) (lock_mutex m s))"
proof -
  have "owners_ok (set_client c (GuardLock p m) (lock_mutex m s))"
    using assms unfolding lock_inv_def owners_ok_def by (simp add: fun_upd_apply) (metis option.distinct(1))
  then show ?thesis using assms by (simp add: lock_inv_def set_handle_ok)
qed

lemma drop_guard:
  assumes "lock_inv s" and "guards s c = Some m"
  shows "lock_inv (set_client c (ReleasingLock p) (unlock_mutex m s))"
proof -
  have "owners_ok (set_client c (ReleasingLock p) (unlock_mutex m s))"
    using assms unfolding lock_inv_def owners_ok_def by (simp add: fun_upd_apply) (metis option.inject)
  then show ?thesis using assms by (simp add: lock_inv_def set_handle_ok)
qed

lemma drop_other:
  assumes "lock_inv s" and "guards s c = None"
  shows "lock_inv (drop_client c s)" and "lock_inv (set_client c (ReleasingLock p) s)"
  using assms by (simp_all add: lock_inv_def set_handle_ok owners_ok_def fun_upd_idem)

lemma release_inv: "lock_inv s \<Longrightarrow> lock_inv (release_lock p s)"
  by (simp add: lock_inv_def release_keeps_handles release_keeps_locks owners_ok_def release_locks)

lemma handle_entry: "lock_inv s \<Longrightarrow> im_get (lt_clients s) c = Some h \<Longrightarrow> handle_lock h = Some (p, m) \<Longrightarrow> im_get (lt_locks s) p = Some m"
  unfolding lock_inv_def handles_ok_def by blast

lemma guards_at: "im_get (lt_clients s) c = Some h \<Longrightarrow> guards s c = guard_mutex h" "im_get (lt_clients s) c = None \<Longrightarrow> guards s c = None"
  by (simp_all add: guards_def)

lemma lock_step_inv: "lock_step e s = Some s' \<Longrightarrow> lock_inv s \<Longrightarrow> lock_inv s'"
proof (induction e s rule: lock_step.induct)
  case (1 c path s)
  obtain m t where e: "lock_entry path s = (m, t)" by fastforce
  have n: "im_get (lt_clients s) c = None" and s': "s' = set_client c (PendingLock path m) t"
    using "1.prems"(1) e by (auto split: option.splits)
  note t = lock_entry_ok[OF e "1.prems"(2)]
  show ?case unfolding s' using t n by (intro add_handle) (auto simp: guards_def)
next
  case (4 c path s)
  obtain m t where e: "lock_entry path s = (m, t)" by fastforce
  have n: "im_get (lt_clients s) c = None" and s': "s' = set_client c (TryingLock path m) t"
    using "4.prems"(1) e by (auto split: option.splits)
  note t = lock_entry_ok[OF e "4.prems"(2)]
  show ?case unfolding s' using t n by (intro add_handle) (auto simp: guards_def)
next
  case (2 c s)
  then obtain p m where c: "im_get (lt_clients s) c = Some (PendingLock p m)" "m \<notin> set (lt_owners s)"
    and s': "s' = set_client c (GuardLock p m) (lock_mutex m s)"
    by (auto split: option.splits lock_handle.splits if_splits)
  show ?case unfolding s' using "2.prems"(2) c handle_entry[OF "2.prems"(2) c(1)] by (intro take_guard) (auto simp: guards_at)
next
  case (3 c s)
  then show ?case by (auto simp: guards_at split: option.splits lock_handle.splits intro: drop_guard drop_other(2))
next
  case (5 c s)
  then obtain p m where c: "im_get (lt_clients s) c = Some (TryingLock p m)"
    by (auto split: option.splits lock_handle.splits)
  show ?case
    using "5.prems" c handle_entry[OF "5.prems"(2) c]
    by (auto simp: guards_at split: if_splits intro!: take_guard add_handle)
next
  case (6 c s)
  then show ?case by (auto simp: guards_at split: option.splits lock_handle.splits intro!: drop_other)
next
  case (7 c s)
  then show ?case by (auto simp: guards_at split: option.splits lock_handle.splits intro!: drop_other release_inv)
qed

lemma reachable_inv: "reachable_locks s \<Longrightarrow> lock_inv s"
  by (induction rule: reachable_locks.induct) (auto simp: lock_inv_start intro: lock_step_inv)

section \<open>Mutual exclusion and progress\<close>

text \<open>C14. Two clients never hold the lock of one path at the same time, however acquisitions, failed tries, cancelled waits
  and the two halves of a release interleave.\<close>

theorem one_guard_per_path:
  assumes "reachable_locks s"
    and "im_get (lt_clients s) c = Some (GuardLock path m)" and "im_get (lt_clients s) c' = Some (GuardLock path m')"
  shows "c = c'"
proof -
  note inv = reachable_inv[OF assms(1)]
  have "im_get (lt_locks s) path = Some m" "im_get (lt_locks s) path = Some m'"
    using handle_entry[OF inv assms(2)] handle_entry[OF inv assms(3)] by simp_all
  then have "guards s c = Some m" "guards s c' = Some m" using guards_at assms(2,3) by simp_all
  then show ?thesis using inv unfolding lock_inv_def owners_ok_def by blast
qed

definition sample_events :: "lock_event list" where
  "sample_events = [AcquireLock 0 [97], PollLock 0, AcquireLock 1 [97], AcquireLock 2 [98], DropLock 0, PollLock 1, ReleaseLock 0, PollLock 2]"

theorem one_guard_per_path_witness:
  "case lock_run sample_events empty_locks of None \<Rightarrow> False
   | Some s \<Rightarrow> im_get (lt_clients s) 1 = Some (GuardLock [97] 0) \<and> im_get (lt_clients s) 2 = Some (GuardLock [98] 1)
      \<and> (\<forall>c. c = 1 \<or> im_get (lt_clients s) c \<noteq> Some (GuardLock [97] 0))"
proof -
  have "case lock_run sample_events empty_locks of None \<Rightarrow> False
     | Some s \<Rightarrow> im_get (lt_clients s) 1 = Some (GuardLock [97] 0) \<and> im_get (lt_clients s) 2 = Some (GuardLock [98] 1)"
    by code_simp
  then obtain s where s: "lock_run sample_events empty_locks = Some s" "im_get (lt_clients s) 1 = Some (GuardLock [97] 0)"
      "im_get (lt_clients s) 2 = Some (GuardLock [98] 1)"
    by (auto split: option.splits)
  have r: "reachable_locks s" by (rule lock_run_reachable[OF reachable_locks.start s(1)])
  have "\<forall>c. c = 1 \<or> im_get (lt_clients s) c \<noteq> Some (GuardLock [97] 0)"
    using one_guard_per_path[OF r _ s(2)] by blast
  then show ?thesis unfolding s(1) option.case using s(2,3) by blast
qed

text \<open>A waiting client is never stuck behind a free lock: while no client has the guard of its path, its next poll gets it.\<close>

theorem free_lock_granted:
  assumes "reachable_locks s" and "im_get (lt_clients s) c = Some (PendingLock path m)"
    and "\<And>c' m'. im_get (lt_clients s) c' \<noteq> Some (GuardLock path m')"
  shows "\<exists>s'. lock_step (PollLock c) s = Some s' \<and> im_get (lt_clients s') c = Some (GuardLock path m)"
proof -
  note inv = reachable_inv[OF assms(1)]
  have p: "im_get (lt_locks s) path = Some m" using handle_entry[OF inv assms(2)] by simp
  have "m \<notin> set (lt_owners s)"
  proof
    assume "m \<in> set (lt_owners s)"
    then obtain c' where "guards s c' = Some m" using inv unfolding lock_inv_def owners_ok_def by blast
    then obtain p' where c': "im_get (lt_clients s) c' = Some (GuardLock p' m)"
      by (auto simp: guards_def split: option.splits elim: guard_mutex.elims)
    have "im_get (lt_locks s) p' = Some m" using handle_entry[OF inv c'] by simp
    then have "p' = path" using inv p unfolding lock_inv_def locks_ok_def by blast
    then show False using c' assms(3) by blast
  qed
  then show ?thesis using assms(2) by simp
qed

theorem free_lock_granted_witness:
  "case lock_run (take 3 sample_events @ [DropLock 0]) empty_locks of None \<Rightarrow> False
   | Some s \<Rightarrow> (\<exists>s'. lock_step (PollLock 1) s = Some s' \<and> im_get (lt_clients s') 1 = Some (GuardLock [97] 0))"
proof -
  have "case lock_run (take 3 sample_events @ [DropLock 0]) empty_locks of None \<Rightarrow> False
     | Some s \<Rightarrow> lt_clients s = [(0, ReleasingLock [97]), (1, PendingLock [97] 0)]"
    by code_simp
  then obtain s where s: "lock_run (take 3 sample_events @ [DropLock 0]) empty_locks = Some s"
      "lt_clients s = [(0, ReleasingLock [97]), (1, PendingLock [97] 0)]"
    by (auto split: option.splits)
  have r: "reachable_locks s" by (rule lock_run_reachable[OF reachable_locks.start s(1)])
  have "im_get (lt_clients s) 1 = Some (PendingLock [97] 0)" by (simp add: s(2) im_get_def)
  then show ?thesis using free_lock_granted[OF r] s by (simp add: im_get_def)
qed

section \<open>The table does not grow\<close>

fun handle_path :: "lock_handle \<Rightarrow> ustr" where
  "handle_path (PendingLock p _) = p"
| "handle_path (TryingLock p _) = p"
| "handle_path (DroppingLock p _) = p"
| "handle_path (GuardLock p _) = p"
| "handle_path (ReleasingLock p) = p"

definition entries_owned :: "lock_table \<Rightarrow> bool" where
  "entries_owned s \<longleftrightarrow> (\<forall>p m. im_get (lt_locks s) p = Some m \<longrightarrow>
     (\<exists>c h. im_get (lt_clients s) c = Some h \<and> handle_path h = p))"

lemma inj_distinct_values:
  assumes "im_wf l" and "\<And>p q m. im_get l p = Some m \<Longrightarrow> im_get l q = Some m \<Longrightarrow> p = q"
  shows "distinct (map snd l)"
proof -
  have "inj_on snd (set l)"
  proof (rule inj_onI)
    fix x y assume h: "x \<in> set l" "y \<in> set l" "snd x = snd y"
    have "im_get l (fst x) = Some (snd x)" "im_get l (fst y) = Some (snd y)"
      using h(1,2) assms(1) by (simp_all add: im_get_def im_wf_def im_keys_def)
    then show "x = y" using assms(2)[of "fst x" "snd x" "fst y"] h(3) by (simp add: prod_eq_iff)
  qed
  moreover have "distinct l" using assms(1) by (simp add: im_wf_def im_keys_def distinct_map)
  ultimately show ?thesis by (simp add: distinct_map)
qed

lemma count_list_distinct: "distinct xs \<Longrightarrow> count_list xs x \<le> 1"
  by (induction xs) (auto simp: count_list_0_iff)

lemma counted_mutex_referenced:
  assumes "lock_inv s" and "im_get (lt_locks s) p = Some m" and "1 < strong_count s m"
  shows "\<exists>c h. im_get (lt_clients s) c = Some h \<and> handle_lock h = Some (p, m)"
proof -
  have ok: "im_wf (lt_clients s)" "distinct (map snd (lt_locks s))"
    using assms(1) inj_distinct_values[of "lt_locks s"] unfolding lock_inv_def locks_ok_def by blast+
  have "count_list (map snd (lt_locks s)) m \<le> 1" using ok(2) by (rule count_list_distinct)
  then have "sum_list (map (\<lambda>(_, h). handle_refs m h) (lt_clients s)) \<noteq> 0" using assms(3) unfolding strong_count_def by linarith
  then obtain c h where h: "(c, h) \<in> set (lt_clients s)" "handle_refs m h \<noteq> 0" by (auto simp: sum_list_eq_0_iff)
  then obtain p' where l: "handle_lock h = Some (p', m)" by (cases h) (auto split: if_splits)
  have c: "im_get (lt_clients s) c = Some h" using h(1) ok(1) by (simp add: im_get_def im_wf_def im_keys_def)
  have "p' = p"
    using handle_entry[OF assms(1) c l] assms(1,2) unfolding lock_inv_def locks_ok_def by blast
  then show ?thesis using c l by blast
qed

text \<open>The events of a client that waits for its lock; \<open>try_acquire\<close> is the other way in.\<close>

fun waiting_event :: "lock_event \<Rightarrow> bool" where
  "waiting_event (TryAcquireLock _ _) = False"
| "waiting_event _ = True"

fun waiting_handle :: "lock_handle \<Rightarrow> bool" where
  "waiting_handle (TryingLock _ _) = False"
| "waiting_handle (DroppingLock _ _) = False"
| "waiting_handle _ = True"

definition only_waiting :: "lock_table \<Rightarrow> bool" where
  "only_waiting s \<longleftrightarrow> (\<forall>c h. im_get (lt_clients s) c = Some h \<longrightarrow> waiting_handle h)"

lemma release_owned:
  assumes "lock_inv s" and "entries_owned s" and "im_get (lt_clients s) c = Some (ReleasingLock path)"
  shows "entries_owned (drop_client c (release_lock path s))"
  unfolding entries_owned_def
proof (intro allI impI)
  fix p m assume "im_get (lt_locks (drop_client c (release_lock path s))) p = Some m"
  then have l: "im_get (lt_locks s) p = Some m" and big: "p = path \<longrightarrow> 1 < strong_count s m"
    by (auto simp: release_locks split: if_splits)
  have "\<exists>i h. im_get (lt_clients s) i = Some h \<and> handle_path h = p \<and> i \<noteq> c"
  proof (cases "p = path")
    case True
    then obtain i h where i: "im_get (lt_clients s) i = Some h" "handle_lock h = Some (p, m)"
      using counted_mutex_referenced[OF assms(1) l] big by blast
    then have "handle_path h = p" by (cases h) auto
    then show ?thesis using i assms(3) by (metis handle_lock.simps(5) option.distinct(1) option.inject)
  next
    case False
    then show ?thesis using assms(2,3) l unfolding entries_owned_def by (metis handle_path.simps(5) option.inject)
  qed
  then show "\<exists>i h. im_get (lt_clients (drop_client c (release_lock path s))) i = Some h \<and> handle_path h = p"
    by (auto simp: release_locks)
qed

lemma set_client_owned:
  assumes "entries_owned s" and "\<And>h'. im_get (lt_clients s) c = Some h' \<Longrightarrow> handle_path h' = handle_path h"
  shows "entries_owned (set_client c h s)"
  using assms unfolding entries_owned_def by (simp add: fun_upd_apply) metis

lemma acquire_owned:
  assumes "lock_entry path s = (m, t)" and "entries_owned s" and "im_get (lt_clients s) c = None"
  shows "entries_owned (set_client c (PendingLock path m) t)"
  using assms unfolding entries_owned_def lock_entry_def
  by (auto split: option.splits if_splits) (metis option.distinct(1))+

lemma waiting_step:
  assumes "lock_step e s = Some s'" and "waiting_event e" and "lock_inv s" and "entries_owned s" and "only_waiting s"
  shows "entries_owned s' \<and> only_waiting s'"
  using assms
proof (induction e s rule: lock_step.induct)
  case (1 c path s)
  obtain m t where e: "lock_entry path s = (m, t)" by fastforce
  have n: "im_get (lt_clients s) c = None" and s': "s' = set_client c (PendingLock path m) t"
    using "1.prems"(1) e by (auto split: option.splits)
  have "lt_clients t = lt_clients s" using lock_entry_ok[OF e "1.prems"(3)] by simp
  then have "only_waiting s'" using "1.prems"(5) by (auto simp: s' only_waiting_def)
  then show ?case using acquire_owned[OF e "1.prems"(4) n] s' by simp
next
  case (2 c s)
  then obtain p m where c: "im_get (lt_clients s) c = Some (PendingLock p m)"
    and s': "s' = set_client c (GuardLock p m) (lock_mutex m s)"
    by (auto split: option.splits lock_handle.splits if_splits)
  have "entries_owned (lock_mutex m s)" using "2.prems"(4) by (simp add: entries_owned_def)
  then show ?case using "2.prems"(5) c by (auto simp: s' only_waiting_def intro!: set_client_owned)
next
  case (3 c s)
  have "entries_owned (unlock_mutex m s)" for m using "3.prems"(4) by (simp add: entries_owned_def)
  then show ?case using "3.prems"
    by (auto simp: only_waiting_def split: option.splits lock_handle.splits if_splits intro!: set_client_owned)
next
  case (5 c s)
  then show ?case by (force simp: only_waiting_def split: option.splits lock_handle.splits)
next
  case (6 c s)
  then show ?case by (force simp: only_waiting_def split: option.splits lock_handle.splits)
next
  case (7 c s)
  then obtain p where "im_get (lt_clients s) c = Some (ReleasingLock p)" "s' = drop_client c (release_lock p s)"
    by (auto split: option.splits lock_handle.splits)
  then show ?case using "7.prems" release_owned[of s c p] by (auto simp: only_waiting_def release_locks)
qed auto

lemma waiting_run:
  "lock_run es s = Some s' \<Longrightarrow> list_all waiting_event es \<Longrightarrow> lock_inv s \<Longrightarrow> entries_owned s \<Longrightarrow> only_waiting s \<Longrightarrow> entries_owned s'"
proof (induction es arbitrary: s)
  case (Cons e es)
  obtain t where t: "lock_step e s = Some t" using Cons.prems(1) by (auto split: option.splits)
  show ?case
    using Cons.IH[of t] Cons.prems t lock_step_inv[OF t] waiting_step[OF t] by auto
qed simp

text \<open>With waiting clients only, the lock table holds no path without a client: an entry goes with the last client that
  waits for it, holds it or is about to release it.\<close>

theorem waiting_table_bounded:
  assumes "lock_run es empty_locks = Some s" and "list_all waiting_event es" and "im_get (lt_locks s) path \<noteq> None"
  shows "\<exists>c h. im_get (lt_clients s) c = Some h \<and> handle_path h = path"
proof -
  have "entries_owned empty_locks" "only_waiting empty_locks"
    by (simp_all add: entries_owned_def only_waiting_def empty_locks_def)
  then have "entries_owned s" using waiting_run[OF assms(1,2)] lock_inv_start by blast
  then show ?thesis using assms(3) by (auto simp: entries_owned_def)
qed

theorem waiting_table_bounded_witness:
  "case lock_run sample_events empty_locks of None \<Rightarrow> False
   | Some s \<Rightarrow> (\<exists>c h. im_get (lt_clients s) c = Some h \<and> handle_path h = [98])"
proof -
  have "case lock_run sample_events empty_locks of None \<Rightarrow> False | Some s \<Rightarrow> im_get (lt_locks s) [98] = Some 1"
    by code_simp
  then obtain s where s: "lock_run sample_events empty_locks = Some s" "im_get (lt_locks s) [98] = Some 1"
    by (auto split: option.splits)
  have "list_all waiting_event sample_events" by code_simp
  from waiting_table_bounded[OF s(1) this, of "[98]"] show ?thesis by (simp add: s)
qed

text \<open>A failed try can outlive the guard: the entry of \<open>[97]\<close> stays when every client is gone.\<close>

lemma failed_try_leaks_entry:
  "lock_run [AcquireLock 0 [97], PollLock 0, TryAcquireLock 1 [97], TryLock 1, DropLock 0, ReleaseLock 0, DropTried 1] empty_locks
     = Some \<lparr>lt_locks = [([97], 0)], lt_clients = [], lt_owners = [], lt_next = 1\<rparr>"
  by code_simp

end
