(* ===== verification/Messages.thy ===== *)
theory Messages
  imports Prelude
begin

text \<open>
  The message types of \<open>src/providers/mod.rs\<close> that the context management works on. JSON values and floating point
  numbers that are only passed on are kept as their text.
\<close>

record shared_fields =
  call_id :: "ustr option"
  sh_signature :: "ustr option"

definition no_shared :: shared_fields where
  "no_shared = \<lparr>call_id = None, sh_signature = None\<rparr>"

record reasoning_detail =
  rd_type :: ustr
  rd_text :: ustr
  rd_signature :: ustr
  rd_format :: ustr
  rd_index :: int

record text_block =
  tb_text :: ustr
  tb_shared :: shared_fields
  tb_details :: "reasoning_detail list option"

datatype image_source = ImageBase64 ustr ustr | ImageUrl ustr

datatype document_source = DocumentBase64 ustr ustr | DocumentText ustr | DocumentUrl ustr

datatype tool_result_part = PartText ustr | PartImage image_source

datatype tool_result_content = ResultText ustr | ResultParts "tool_result_part list"

record image_block =
  ib_source :: image_source
  ib_shared :: shared_fields

record document_block =
  db_source :: document_source
  db_shared :: shared_fields

record tool_use_block =
  tu_id :: ustr
  tu_name :: ustr
  tu_input :: ustr
  tu_shared :: shared_fields
  tu_details :: "reasoning_detail list option"

record tool_result_block =
  tool_use_id :: ustr
  trb_content :: tool_result_content
  trb_shared :: shared_fields

record thinking_block =
  th_thinking :: ustr
  th_signature :: "ustr option"
  th_shared :: shared_fields
  th_summary :: "reasoning_detail list option"

record redacted_block =
  rb_data :: ustr
  rb_shared :: shared_fields

datatype user_block =
    UserText text_block
  | UserImage image_block
  | UserDocument document_block
  | UserToolResult tool_result_block

datatype assistant_block =
    AsstText text_block
  | AsstImage image_block
  | AsstDocument document_block
  | AsstToolUse tool_use_block
  | AsstThinking thinking_block
  | AsstRedacted redacted_block

datatype message_role = RoleUser | RoleAssistant

record message_metrics =
  input_tokens :: "32 word option"
  output_tokens :: "32 word option"
  cache_write_tokens :: "32 word option"
  cache_read_tokens :: "32 word option"
  cost_usd :: "ustr option"

datatype message_content =
    TextContent ustr
  | UserBlocks "user_block list"
  | AssistantBlocks "assistant_block list"

record storage_message =
  msg_id :: "ustr option"
  msg_role :: message_role
  msg_content :: message_content
  msg_model :: "(ustr \<times> ustr) option"
  msg_metrics :: "message_metrics option"
  msg_ts :: "64 word option"

definition plain_text :: "ustr \<Rightarrow> user_block" where
  "plain_text t = UserText \<lparr>tb_text = t, tb_shared = no_shared, tb_details = None\<rparr>"

definition bare_message :: "message_role \<Rightarrow> message_content \<Rightarrow> storage_message" where
  "bare_message r c = \<lparr>msg_id = None, msg_role = r, msg_content = c, msg_model = None, msg_metrics = None, msg_ts = None\<rparr>"

end
