(* ===== verification/ContextManager.thy ===== *)
theory ContextManager
  imports Messages "HOL-Library.Multiset"
begin

text \<open>
  Truncation and compaction of a conversation, from \<open>src/core/context/context_manager.rs\<close> and
  \<open>src/core/context/context_window.rs\<close>: when the context is full, which messages go, and the repair that keeps
  every tool call next to its results. Loops over message indices are recursions over the message list.
\<close>

section \<open>Floating point\<close>

text \<open>The source multiplies token counts with constants in \<open>f64\<close> and truncates. A positive \<open>f64\<close> is \<open>m / 2 ^ e\<close> with a
  53-bit \<open>m\<close>; a product is rounded to 53 significant bits, ties to even.\<close>

definition round_even :: "nat \<Rightarrow> int \<Rightarrow> int" where
  "round_even k n =
     (let q = n div 2 ^ k; r = n mod 2 ^ k in
      (if 2 * r > 2 ^ k \<or> (2 * r = 2 ^ k \<and> odd q) then q + 1 else q) * 2 ^ k)"

fun bit_length :: "int \<Rightarrow> nat" where
  "bit_length n = (if n \<le> 0 then 0 else Suc (bit_length (n div 2)))"

declare bit_length.simps [simp del]

definition f64_of_int :: "int \<Rightarrow> int" where
  "f64_of_int n = (if bit_length n \<le> 53 then n else round_even (bit_length n - 53) n)"

text \<open>\<open>(n as f64 * (m / 2 ^ e)) as u64\<close>, for a factor below 1\<close>

definition f64_scale :: "int \<times> nat \<Rightarrow> int \<Rightarrow> int" where
  "f64_scale = (\<lambda>(m, e) n. f64_of_int (f64_of_int n * m) div 2 ^ e)"

definition f64_0_7 :: "int \<times> nat" where "f64_0_7 = (3152519739159347, 52)"
definition f64_0_8 :: "int \<times> nat" where "f64_0_8 = (3602879701896397, 52)"

section \<open>When to compact\<close>

record api_req_info =
  ari_tokens_in :: "32 word option"
  ari_tokens_out :: "32 word option"
  ari_cache_writes :: "32 word option"
  ari_cache_reads :: "32 word option"
  ari_context_window :: "64 word option"

datatype cache_token_strategy = InputExcludesCacheReads | InputExcludesAllCache

definition strategy_for :: "ustr \<Rightarrow> cache_token_strategy" where
  "strategy_for provider =
     (if provider \<in> {str ''openai'', str ''minimax'', str ''deepseek'', str ''openrouter'', str ''nvidia''}
      then InputExcludesCacheReads else InputExcludesAllCache)"

definition or_zero :: "32 word option \<Rightarrow> int" where
  "or_zero w = (case w of Some x \<Rightarrow> uint x | None \<Rightarrow> 0)"

text \<open>Sums of at most four 32-bit counts are taken in \<open>u64\<close> and cannot wrap.\<close>

definition effective_cache_tokens :: "api_req_info \<Rightarrow> ustr \<Rightarrow> int" where
  "effective_cache_tokens info provider =
     (case strategy_for provider of
        InputExcludesCacheReads \<Rightarrow> or_zero (ari_cache_reads info)
      | InputExcludesAllCache \<Rightarrow> or_zero (ari_cache_writes info) + or_zero (ari_cache_reads info))"

definition total_tokens :: "api_req_info \<Rightarrow> ustr \<Rightarrow> int" where
  "total_tokens info provider =
     or_zero (ari_tokens_in info) + or_zero (ari_tokens_out info) + effective_cache_tokens info provider"

text \<open>The threshold is a positive \<open>f64\<close> below 1 or absent; zero and negative ones fall back like an absent one.\<close>

definition should_compact_context_window ::
    "api_req_info \<Rightarrow> 64 word \<Rightarrow> 64 word \<Rightarrow> (int \<times> nat) option \<Rightarrow> ustr \<Rightarrow> bool" where
  "should_compact_context_window info window max_allowed threshold provider \<longleftrightarrow>
     min (case threshold of Some pct \<Rightarrow> if fst pct \<le> 0 then uint max_allowed else f64_scale pct (uint window)
          | None \<Rightarrow> uint max_allowed)
         (uint max_allowed) \<le> total_tokens info provider"

text \<open>\<open>min(1_000_000, max(window - 40_000, window * 0.8))\<close>; the maximum is not negative, so the cast truncates.\<close>

definition window_or_default :: "64 word option \<Rightarrow> int" where
  "window_or_default window = (case window of Some n \<Rightarrow> uint n | None \<Rightarrow> 256000)"

definition max_allowed_size :: "64 word option \<Rightarrow> int" where
  "max_allowed_size window =
     (let w = f64_of_int (window_or_default window) in
      min 1000000 (max (f64_of_int (w - 40000)) (f64_scale f64_0_8 w)))"

definition calculate_context_tokens ::
    "32 word \<Rightarrow> 32 word \<Rightarrow> 32 word option \<Rightarrow> 32 word option \<Rightarrow> ustr \<Rightarrow> int" where
  "calculate_context_tokens tokens_in tokens_out writes reads provider =
     uint tokens_in + uint tokens_out
     + (if provider \<in> {str ''openai'', str ''minimax'', str ''deepseek'', str ''openrouter'', str ''nvidia''}
        then or_zero reads else or_zero writes + or_zero reads)"

definition msg_too_large :: "nat \<Rightarrow> nat \<Rightarrow> nat \<Rightarrow> ustr" where
  "msg_too_large estimated window max_allowed =
     str ''Request size ('' @ show_nat estimated @ str '') exceeds provider context limit ('' @ show_nat window
     @ str '' / '' @ show_nat max_allowed @ str '' max_allowed). Use /compact to free context before retrying.''"

definition validate_context_window :: "int \<Rightarrow> 64 word option \<Rightarrow> ustr + unit" where
  "validate_context_window estimated window =
     (let max_allowed = max_allowed_size window in
      if max_allowed < estimated
      then Inl (msg_too_large (nat estimated) (nat (window_or_default window)) (nat max_allowed))
      else Inr ())"

section \<open>Which messages go\<close>

datatype truncation_keep = KeepNone | KeepLastTwo | KeepHalf | KeepLastQuarter

definition messages_to_remove :: "truncation_keep \<Rightarrow> nat \<Rightarrow> nat \<Rightarrow> nat" where
  "messages_to_remove keep len start =
     (case keep of
        KeepNone \<Rightarrow> len - start
      | KeepLastTwo \<Rightarrow> len - (start + 2)
      | KeepHalf \<Rightarrow> (len - start) div 4 * 2
      | KeepLastQuarter \<Rightarrow> (len - start) * 3 div 4 div 2 * 2)"

definition get_next_truncation_range ::
    "storage_message list \<Rightarrow> (nat \<times> nat) option \<Rightarrow> truncation_keep \<Rightarrow> nat \<times> nat" where
  "get_next_truncation_range msgs deleted keep =
     (let start = (case deleted of Some r \<Rightarrow> snd r + 1 | None \<Rightarrow> 2);
          n = messages_to_remove keep (length msgs) start;
          e = (if n = 0 then max (start - 1) 2 else start + (n - 1));
          e' = (if e < length msgs \<and> msg_role (msgs ! e) \<noteq> RoleAssistant then e - 1 else e)
      in (2, max e' 2))"

section \<open>Tool calls and their results\<close>

definition legacy_hook_context_text :: "ustr \<Rightarrow> bool" where
  "legacy_hook_context_text text \<longleftrightarrow>
     starts_with (str ''[Hook context from PreToolUse]: '') text \<or> starts_with (str ''[Hook context from PostToolUse]: '') text"

definition use_ids :: "assistant_block list \<Rightarrow> ustr list" where
  "use_ids blocks = concat (map (\<lambda>b. case b of AsstToolUse t \<Rightarrow> if tu_id t = [] then [] else [tu_id t] | _ \<Rightarrow> []) blocks)"

definition assistant_tool_use_ids :: "storage_message \<Rightarrow> ustr list" where
  "assistant_tool_use_ids m = (case msg_content m of AssistantBlocks blocks \<Rightarrow> use_ids blocks | _ \<Rightarrow> [])"

definition is_tool_result :: "user_block \<Rightarrow> bool" where
  "is_tool_result b = (case b of UserToolResult _ \<Rightarrow> True | _ \<Rightarrow> False)"

definition answers :: "ustr list \<Rightarrow> user_block \<Rightarrow> bool" where
  "answers ids b = (case b of UserToolResult r \<Rightarrow> tool_use_id r \<in> set ids | _ \<Rightarrow> False)"

definition content_answers :: "ustr list \<Rightarrow> message_content \<Rightarrow> bool" where
  "content_answers ids c = (case c of UserBlocks blocks \<Rightarrow> list_ex (answers ids) blocks | _ \<Rightarrow> False)"

definition user_message_has_tool_result_for :: "storage_message \<Rightarrow> ustr list \<Rightarrow> bool" where
  "user_message_has_tool_result_for m ids \<longleftrightarrow> msg_role m = RoleUser \<and> content_answers ids (msg_content m)"

definition hook_text :: "storage_message \<Rightarrow> ustr option" where
  "hook_text m =
     (if msg_role m \<noteq> RoleUser then None
      else (case msg_content m of TextContent t \<Rightarrow> if legacy_hook_context_text t then Some t else None | _ \<Rightarrow> None))"

definition is_hook :: "storage_message \<Rightarrow> bool" where
  "is_hook m \<longleftrightarrow> hook_text m \<noteq> None"

definition extend_blocks :: "user_block list \<Rightarrow> storage_message \<Rightarrow> storage_message" where
  "extend_blocks extra m =
     (case msg_content m of UserBlocks blocks \<Rightarrow> m\<lparr>msg_content := UserBlocks (blocks @ extra)\<rparr> | _ \<Rightarrow> m)"

text \<open>Hook texts between a call and its results move behind the results; the loop then finds none left there.\<close>

function normalize_legacy_hook_messages :: "storage_message list \<Rightarrow> storage_message list" where
  "normalize_legacy_hook_messages [] = []"
| "normalize_legacy_hook_messages (m # rest) =
     (let ids = assistant_tool_use_ids m; hooks = takeWhile is_hook rest; after = dropWhile is_hook rest in
      if ids = [] \<or> hooks = [] \<or> after = [] \<or> \<not> user_message_has_tool_result_for (hd after) ids
      then m # normalize_legacy_hook_messages rest
      else m # normalize_legacy_hook_messages
                 (extend_blocks (map (\<lambda>h. plain_text (case hook_text h of Some t \<Rightarrow> t | None \<Rightarrow> [])) hooks) (hd after) # tl after))"
  by pat_completeness auto
termination
proof (relation "measure length")
  fix m :: storage_message and rest hooks after :: "storage_message list" and ids
  assume "after = dropWhile is_hook rest" and "\<not> (ids = [] \<or> hooks = [] \<or> after = [] \<or> \<not> user_message_has_tool_result_for (hd after) ids)"
  then have "after \<noteq> []" "length after \<le> length rest" by (auto simp: length_dropWhile_le)
  then show "(extend_blocks (map (\<lambda>h. plain_text (case hook_text h of Some t \<Rightarrow> t | None \<Rightarrow> [])) hooks) (hd after) # tl after, m # rest)
      \<in> measure length"
    by (cases after) auto
qed auto

declare normalize_legacy_hook_messages.simps(2) [simp del]

definition missing_result :: "ustr \<Rightarrow> user_block" where
  "missing_result i = UserToolResult \<lparr>tool_use_id = i, trb_content = ResultText (str ''result missing''), trb_shared = no_shared\<rparr>"

text \<open>The last result for an id, as inserting them one after another into a map leaves it.\<close>

definition result_for :: "user_block list \<Rightarrow> ustr \<Rightarrow> user_block option" where
  "result_for blocks i = find (answers [i]) (rev blocks)"

definition result_slot :: "user_block list \<Rightarrow> ustr \<Rightarrow> user_block" where
  "result_slot blocks i = (case result_for blocks i of Some b \<Rightarrow> b | None \<Rightarrow> missing_result i)"

definition blocks_of :: "message_content \<Rightarrow> user_block list" where
  "blocks_of c = (case c of UserBlocks blocks \<Rightarrow> blocks | _ \<Rightarrow> [])"

definition trailing_text :: "message_content \<Rightarrow> user_block list" where
  "trailing_text c = (case c of TextContent t \<Rightarrow> [plain_text t] | _ \<Rightarrow> [])"

text \<open>The calls of an assistant message; a user message makes none.\<close>

definition calls_of :: "storage_message \<Rightarrow> ustr list" where
  "calls_of m = (if msg_role m = RoleAssistant then assistant_tool_use_ids m else [])"

text \<open>The user message after a call: results in the order of the calls, then whatever else it said.\<close>

definition repair_results :: "ustr list \<Rightarrow> storage_message \<Rightarrow> storage_message" where
  "repair_results ids m =
     (let blocks = blocks_of (msg_content m) in
      if list_ex is_tool_result blocks \<or> list_ex (\<lambda>i. result_for blocks i = None) ids
      then m\<lparr>msg_content := UserBlocks (map (result_slot blocks) ids @ filter (\<lambda>b. \<not> is_tool_result b) blocks
                                         @ trailing_text (msg_content m))\<rparr>
      else m)"

text \<open>Without a user message next the results may follow later; otherwise they are made up.\<close>

fun ensure_tool_results_follow_tool_use :: "storage_message list \<Rightarrow> storage_message list" where
  "ensure_tool_results_follow_tool_use [] = []"
| "ensure_tool_results_follow_tool_use [m] =
     (if calls_of m = [] then [m]
      else [m, bare_message RoleUser (UserBlocks (map missing_result (calls_of m)))])"
| "ensure_tool_results_follow_tool_use (m # n # later) =
     (if calls_of m = [] then m # ensure_tool_results_follow_tool_use (n # later)
      else if msg_role n = RoleUser
      then m # repair_results (calls_of m) n # ensure_tool_results_follow_tool_use later
      else if list_ex (\<lambda>x. content_answers (calls_of m) (msg_content x)) (n # later)
      then m # ensure_tool_results_follow_tool_use (n # later)
      else m # bare_message RoleUser (UserBlocks (map missing_result (calls_of m)))
             # ensure_tool_results_follow_tool_use (n # later))"

section \<open>Truncation\<close>

text \<open>The first tool turn stays whole: the summary goes behind its results, past hook texts in between.\<close>

definition summary_insert_index :: "bool \<Rightarrow> storage_message list \<Rightarrow> nat" where
  "summary_insert_index summarised msgs =
     (if summarised \<and> 2 < length msgs
      then (let ids = assistant_tool_use_ids (msgs ! 1) in
            if ids = [] then min 2 (length msgs)
            else (let i = 2 + length (takeWhile is_hook (drop 2 msgs)) in
                  if i < length msgs \<and> user_message_has_tool_result_for (msgs ! i) ids then i + 1 else min 2 (length msgs)))
      else min 2 (length msgs))"

definition msg_truncated :: ustr where "msg_truncated = str ''[context truncated]''"

definition drop_orphan_results :: "storage_message \<Rightarrow> storage_message" where
  "drop_orphan_results m =
     (case (msg_role m, msg_content m) of
        (RoleUser, UserBlocks blocks) \<Rightarrow>
          if list_ex is_tool_result blocks
          then (let kept = filter (\<lambda>b. \<not> is_tool_result b) blocks in
                m\<lparr>msg_content := UserBlocks (if kept = [] then [plain_text msg_truncated] else kept)\<rparr>)
          else m
      | _ \<Rightarrow> m)"

definition apply_context_history_updates ::
    "storage_message list \<Rightarrow> nat \<Rightarrow> ustr option \<Rightarrow> storage_message list" where
  "apply_context_history_updates msgs start summary =
     (let kept = take (min 2 (length msgs)) msgs @ drop start msgs;
          at = summary_insert_index (summary \<noteq> None) kept;
          updated = (case summary of
                       None \<Rightarrow> kept
                     | Some text \<Rightarrow> take at kept @ bare_message RoleAssistant (TextContent text) # drop at kept);
          first_retained = (if summary \<noteq> None then at + 1 else 2)
      in if 2 < start \<and> first_retained < length updated
         then updated[first_retained := drop_orphan_results (updated ! first_retained)] else updated)"

definition get_and_alter_truncated_messages ::
    "storage_message list \<Rightarrow> (nat \<times> nat) option \<Rightarrow> ustr option \<Rightarrow> storage_message list" where
  "get_and_alter_truncated_messages msgs deleted summary =
     (if length msgs \<le> 1 then msgs
      else
        (let needs = deleted \<noteq> None \<or> summary \<noteq> None;
             updated = (if needs
                        then apply_context_history_updates msgs (case deleted of Some r \<Rightarrow> snd r + 1 | None \<Rightarrow> 2) summary
                        else msgs);
             normalized = normalize_legacy_hook_messages updated
         in if needs then ensure_tool_results_follow_tool_use normalized else normalized))"

definition get_truncated_messages ::
    "storage_message list \<Rightarrow> (nat \<times> nat) option \<Rightarrow> ustr option \<Rightarrow> storage_message list" where
  "get_truncated_messages msgs deleted summary = get_and_alter_truncated_messages msgs deleted summary"

record context_update_result =
  cu_deleted_range :: "(nat \<times> nat) option"
  cu_updated :: bool
  cu_messages :: "storage_message list"

definition compaction_threshold :: "bool \<Rightarrow> 64 word option \<Rightarrow> int" where
  "compaction_threshold auto_condense window =
     f64_scale (if auto_condense then f64_0_7 else f64_0_8) (window_or_default window)"

definition get_new_context_messages_and_metadata ::
    "storage_message list \<Rightarrow> api_req_info option \<Rightarrow> (nat \<times> nat) option \<Rightarrow> bool \<Rightarrow> ustr option \<Rightarrow> ustr
       \<Rightarrow> context_update_result" where
  "get_new_context_messages_and_metadata msgs info deleted auto_condense summary provider =
     (let full = (case info of
                    None \<Rightarrow> None
                  | Some i \<Rightarrow>
                      (let total = total_tokens i provider; limit = compaction_threshold auto_condense (ari_context_window i) in
                       if limit \<le> total then Some (if limit < total div 2 then KeepLastQuarter else KeepHalf) else None));
          range = (case full of Some keep \<Rightarrow> Some (get_next_truncation_range msgs deleted keep) | None \<Rightarrow> deleted)
      in \<lparr>cu_deleted_range = range, cu_updated = (full \<noteq> None),
          cu_messages = get_and_alter_truncated_messages msgs range summary\<rparr>)"

section \<open>Calls are answered\<close>

text \<open>The message after a call opens with one result per call, in order, and has no other result.\<close>

definition result_id :: "user_block \<Rightarrow> ustr option" where
  "result_id b = (case b of UserToolResult r \<Rightarrow> Some (tool_use_id r) | _ \<Rightarrow> None)"

definition ordered_results :: "ustr list \<Rightarrow> user_block list \<Rightarrow> bool" where
  "ordered_results ids blocks \<longleftrightarrow> map result_id (take (length ids) blocks) = map Some ids
     \<and> \<not> list_ex is_tool_result (drop (length ids) blocks)"

fun calls_answered :: "storage_message list \<Rightarrow> bool" where
  "calls_answered [] \<longleftrightarrow> True"
| "calls_answered (m # rest) \<longleftrightarrow>
     (calls_of m = [] \<or> (case rest of [] \<Rightarrow> False
        | n # _ \<Rightarrow> msg_role n = RoleAssistant \<or> ordered_results (calls_of m) (blocks_of (msg_content n))))
     \<and> calls_answered rest"

lemma role_cases: "r \<noteq> RoleUser \<longleftrightarrow> r = RoleAssistant"
  by (cases r) auto

lemma result_id_missing [simp]: "result_id (missing_result i) = Some i"
  by (simp add: result_id_def missing_result_def)

lemma find_Some: "find P xs = Some x \<Longrightarrow> P x \<and> x \<in> set xs"
  by (induction xs) (auto split: if_splits)

lemma result_for_id: "result_for blocks i = Some b \<Longrightarrow> result_id b = Some i \<and> b \<in> set blocks"
  using find_Some[of "answers [i]" "rev blocks" b]
  by (auto simp: result_for_def answers_def result_id_def split: user_block.splits)

lemma result_slot_id [simp]: "result_id (result_slot blocks i) = Some i"
  using result_for_id by (auto simp: result_slot_def split: option.splits)

lemma result_id_is: "is_tool_result b \<longleftrightarrow> result_id b \<noteq> None"
  by (auto simp: is_tool_result_def result_id_def split: user_block.splits)

lemma no_result_text: "\<not> list_ex is_tool_result (trailing_text c)"
  by (auto simp: trailing_text_def plain_text_def is_tool_result_def split: message_content.splits)

lemma ordered_slots:
  "\<not> list_ex is_tool_result others \<Longrightarrow> ordered_results ids (map (result_slot blocks) ids @ others)"
  by (simp add: ordered_results_def comp_def)

lemma repair_ordered:
  assumes "ids \<noteq> []"
  shows "ordered_results ids (blocks_of (msg_content (repair_results ids m)))"
proof (cases "list_ex is_tool_result (blocks_of (msg_content m)) \<or> list_ex (\<lambda>i. result_for (blocks_of (msg_content m)) i = None) ids")
  case True
  have "\<not> list_ex is_tool_result (filter (\<lambda>b. \<not> is_tool_result b) (blocks_of (msg_content m)) @ trailing_text (msg_content m))"
    using no_result_text by (auto simp: list_ex_iff)
  then show ?thesis using True ordered_slots
    by (simp add: repair_results_def Let_def blocks_of_def[of "UserBlocks _"])
next
  case False
  then obtain i b where "i \<in> set ids" "result_for (blocks_of (msg_content m)) i = Some b"
    using assms by (cases ids) (auto simp: list_ex_iff)
  then have "b \<in> set (blocks_of (msg_content m))" "is_tool_result b"
    using result_for_id by (auto simp: result_id_is)
  then show ?thesis using False by (auto simp: list_ex_iff)
qed

lemma calls_user: "msg_role m = RoleUser \<Longrightarrow> calls_of m = []"
  by (simp add: calls_of_def)

lemma role_repair [simp]: "msg_role (repair_results ids m) = msg_role m"
  by (simp add: repair_results_def Let_def)

lemma ensure_Cons: "\<exists>l. ensure_tool_results_follow_tool_use (m # rest) = m # l"
  by (cases rest) auto

lemma calls_Cons:
  "calls_of m = [] \<Longrightarrow> calls_answered (m # rest) = calls_answered rest"
  "calls_answered (m # n # rest) \<longleftrightarrow> (calls_of m = [] \<or> msg_role n = RoleAssistant
     \<or> ordered_results (calls_of m) (blocks_of (msg_content n))) \<and> calls_answered (n # rest)"
  by simp_all

lemma fabricated_results:
  "ordered_results ids (blocks_of (msg_content (bare_message RoleUser (UserBlocks (map missing_result ids)))))"
  "msg_role (bare_message r c) = r" "calls_of (bare_message RoleUser c) = []"
  by (simp_all add: ordered_results_def bare_message_def blocks_of_def comp_def calls_of_def)

lemma ensure_answered: "calls_answered (ensure_tool_results_follow_tool_use msgs)"
proof (induction msgs rule: ensure_tool_results_follow_tool_use.induct)
  case (2 m)
  then show ?case by (simp add: fabricated_results)
next
  case (3 m n later)
  obtain l where l: "ensure_tool_results_follow_tool_use (n # later) = n # l" using ensure_Cons by blast
  consider "calls_of m = []" | "calls_of m \<noteq> []" "msg_role n = RoleUser"
    | "calls_of m \<noteq> []" "msg_role n = RoleAssistant" by (cases "msg_role n") auto
  then show ?case
  proof cases
    case 1
    then show ?thesis using "3.IH"(1) by (simp del: calls_answered.simps add: calls_Cons)
  next
    case 2
    then show ?thesis using "3.IH"(2) repair_ordered[of "calls_of m" n] calls_user[of "repair_results (calls_of m) n"]
      by (simp del: calls_answered.simps add: calls_Cons)
  next
    case r: 3
    have ih: "calls_answered (n # l)"
      using "3.IH"(3,4) r l by (cases "list_ex (\<lambda>x. content_answers (calls_of m) (msg_content x)) (n # later)") auto
    show ?thesis using r ih l
      by (simp del: calls_answered.simps add: calls_Cons fabricated_results)
  qed
qed simp

section \<open>Nothing the user said is lost\<close>

text \<open>Everything but tool results in the messages of the user.\<close>

definition said_in :: "storage_message \<Rightarrow> user_block list" where
  "said_in m = (if msg_role m = RoleUser
     then filter (\<lambda>b. \<not> is_tool_result b) (blocks_of (msg_content m)) @ trailing_text (msg_content m) else [])"

definition said :: "storage_message list \<Rightarrow> user_block list" where
  "said msgs = concat (map said_in msgs)"

lemma said_simps [simp]: "said [] = []" "said (m # ms) = said_in m @ said ms" "said (xs @ ys) = said xs @ said ys"
  by (simp_all add: said_def)

lemma said_fabricated [simp]: "said_in (bare_message RoleUser (UserBlocks (map missing_result ids))) = []"
  by (auto simp: said_in_def bare_message_def blocks_of_def trailing_text_def is_tool_result_def missing_result_def)

lemma said_repair: "said_in (repair_results ids m) = said_in m"
proof (cases "repair_results ids m = m")
  case False
  then have r: "repair_results ids m = m\<lparr>msg_content := UserBlocks (map (result_slot (blocks_of (msg_content m))) ids
        @ filter (\<lambda>b. \<not> is_tool_result b) (blocks_of (msg_content m)) @ trailing_text (msg_content m))\<rparr>"
    by (auto simp: repair_results_def Let_def split: if_splits)
  have "filter (\<lambda>b. \<not> is_tool_result b) (map (result_slot bs) ids) = []" for bs
    by (auto simp: filter_empty_conv result_id_is)
  moreover have "filter (\<lambda>b. \<not> is_tool_result b) (trailing_text c) = trailing_text c" for c
    using no_result_text[of c] by (auto simp: list_ex_iff filter_id_conv)
  ultimately show ?thesis by (simp add: r said_in_def blocks_of_def[of "UserBlocks _"] trailing_text_def[of "UserBlocks _"])
qed simp

lemma ensure_said: "said (ensure_tool_results_follow_tool_use msgs) = said msgs"
  by (induction msgs rule: ensure_tool_results_follow_tool_use.induct) (auto simp: said_repair)

lemma hook_said: "hook_text m = Some t \<Longrightarrow> said_in m = [plain_text t]"
  by (auto simp: hook_text_def said_in_def trailing_text_def blocks_of_def split: if_splits message_content.splits)

definition hook_blocks :: "storage_message list \<Rightarrow> user_block list" where
  "hook_blocks hooks = map (\<lambda>h. plain_text (case hook_text h of Some t \<Rightarrow> t | None \<Rightarrow> [])) hooks"

lemma hooks_said: "list_all is_hook hooks \<Longrightarrow> said hooks = hook_blocks hooks"
  by (induction hooks) (auto simp: is_hook_def hook_said hook_blocks_def)

lemma extend_said:
  assumes "user_message_has_tool_result_for m ids"
  shows "said_in (extend_blocks (hook_blocks hooks) m) = said_in m @ hook_blocks hooks"
proof -
  obtain blocks where b: "msg_content m = UserBlocks blocks" "msg_role m = RoleUser"
    using assms by (auto simp: user_message_has_tool_result_for_def content_answers_def split: message_content.splits)
  have "filter (\<lambda>b. \<not> is_tool_result b) (hook_blocks hooks) = hook_blocks hooks"
    by (auto simp: hook_blocks_def filter_id_conv plain_text_def is_tool_result_def)
  then show ?thesis by (simp add: b extend_blocks_def said_in_def blocks_of_def trailing_text_def)
qed

lemma said_split:
  "dropWhile P xs \<noteq> [] \<Longrightarrow> said xs = said (takeWhile P xs) @ said_in (hd (dropWhile P xs)) @ said (tl (dropWhile P xs))"
  by (induction xs) auto

lemma normalize_said: "mset (said (normalize_legacy_hook_messages msgs)) = mset (said msgs)"
proof (induction msgs rule: normalize_legacy_hook_messages.induct)
  case (2 m rest)
  let ?ids = "assistant_tool_use_ids m" and ?h = "takeWhile is_hook rest" and ?a = "dropWhile is_hook rest"
  let ?stay = "?ids = [] \<or> ?h = [] \<or> ?a = [] \<or> \<not> user_message_has_tool_result_for (hd ?a) ?ids"
  show ?case
  proof (cases ?stay)
    case True
    then show ?thesis using "2.IH"(1)[OF refl refl refl] by (subst normalize_legacy_hook_messages.simps) (auto simp: Let_def)
  next
    case False
    then have a: "?a \<noteq> []" "user_message_has_tool_result_for (hd ?a) ?ids" by auto
    have e: "normalize_legacy_hook_messages (m # rest) = m # normalize_legacy_hook_messages (extend_blocks (hook_blocks ?h) (hd ?a) # tl ?a)"
      unfolding normalize_legacy_hook_messages.simps(2)[of m rest] Let_def if_not_P[OF False] hook_blocks_def by (rule refl)
    have "said rest = said ?h @ said_in (hd ?a) @ said (tl ?a)"
      by (rule said_split[OF a(1)])
    moreover have "list_all is_hook ?h" by (auto simp: list_all_iff dest: set_takeWhileD)
    ultimately have "mset (said rest) = mset (said (extend_blocks (hook_blocks ?h) (hd ?a) # tl ?a))"
      by (simp add: hooks_said extend_said[OF a(2)])
    then show ?thesis using "2.IH"(2)[OF refl refl refl False] e by (simp add: hook_blocks_def)
  qed
qed simp

lemma said_summary [simp]: "said_in (bare_message RoleAssistant c) = []"
  by (simp add: said_in_def bare_message_def)

section \<open>Properties\<close>

text \<open>C40. After truncation or compaction every tool call that a user message follows is answered there first: one result per
  call in the order of the calls, no other result in that message; and no call ends the conversation.\<close>

theorem truncated_calls_answered:
  assumes "2 \<le> length msgs" and "deleted \<noteq> None \<or> summary \<noteq> None"
  shows "calls_answered (get_truncated_messages msgs deleted summary)"
  using assms ensure_answered by (simp add: get_truncated_messages_def get_and_alter_truncated_messages_def Let_def)

definition call_message :: "ustr list \<Rightarrow> storage_message" where
  "call_message ids = bare_message RoleAssistant
     (AssistantBlocks (map (\<lambda>i. AsstToolUse \<lparr>tu_id = i, tu_name = [], tu_input = [], tu_shared = no_shared, tu_details = None\<rparr>) ids))"

definition sample_history :: "storage_message list" where
  "sample_history = [bare_message RoleUser (TextContent (str ''go'')), call_message [[97], [98]],
     bare_message RoleUser (UserBlocks [missing_result [98], plain_text (str ''hi'')]), call_message [[99]]]"

theorem truncated_calls_answered_witness:
  "calls_answered (get_truncated_messages sample_history None (Some (str ''s'')))
   \<and> length (get_truncated_messages sample_history None (Some (str ''s''))) = 6"
proof
  show "calls_answered (get_truncated_messages sample_history None (Some (str ''s'')))"
    by (rule truncated_calls_answered) (simp_all add: sample_history_def)
qed code_simp

text \<open>Compacting without dropping a range of messages loses nothing the user said: the texts, images and documents of
  the user's messages are the same before and after, whatever the repair moves, inserts or reorders.\<close>

theorem compaction_keeps_user_input:
  "mset (said (get_truncated_messages msgs None summary)) = mset (said msgs)"
proof -
  let ?i = "summary_insert_index (summary \<noteq> None) msgs"
  have kept: "take (min 2 (length msgs)) msgs @ drop 2 msgs = msgs" by (cases "length msgs \<le> 2") auto
  have "said (apply_context_history_updates msgs 2 summary) = said msgs"
  proof (cases summary)
    case (Some t)
    have "said msgs = said (take ?i msgs) @ said (drop ?i msgs)" by (metis append_take_drop_id said_simps(3))
    then show ?thesis by (simp add: apply_context_history_updates_def Let_def kept Some)
  qed (simp add: apply_context_history_updates_def Let_def kept)
  then show ?thesis
    by (auto simp: get_truncated_messages_def get_and_alter_truncated_messages_def Let_def ensure_said normalize_said)
qed

lemma removed_bounds:
  assumes "keep \<noteq> KeepNone" and "start + 4 \<le> len"
  shows "2 \<le> messages_to_remove keep len start \<and> messages_to_remove keep len start + start + 2 \<le> len"
proof -
  define d where "d = len - start"
  have d: "len = start + d" "4 \<le> d" using assms(2) by (simp_all add: d_def)
  have half: "2 \<le> d div 4 * 2 \<and> d div 4 * 2 + 2 \<le> d" 
  proof -
    define p where "p = d div 4"
    have "1 \<le> p" "4 * p \<le> d" unfolding p_def using d(2) by simp_all
    then show ?thesis unfolding p_def[symmetric] by linarith
  qed
  define q where "q = d * 3 div 4"
  have q: "3 \<le> q" "4 * q \<le> 3 * d" unfolding q_def using d(2) by linarith+
  have "2 \<le> q div 2 * 2" "q div 2 * 2 \<le> q" using q(1) by linarith+
  moreover have "q div 2 * 2 + 2 \<le> d"
  proof (cases "d < 8")
    case True
    then have "d \<in> {4, 5, 6, 7}" using d(2) by auto
    then show ?thesis by (auto simp: q_def)
  next
    case False
    then show ?thesis using q(2) \<open>q div 2 * 2 \<le> q\<close> by linarith
  qed
  ultimately have "2 \<le> d * 3 div 4 div 2 * 2 \<and> d * 3 div 4 div 2 * 2 + 2 \<le> d" by (simp add: q_def)
  note half this
  then show ?thesis using assms(1) d(2) unfolding d(1) by (cases keep) (simp_all add: messages_to_remove_def, linarith+)
qed

text \<open>When at least four messages are left behind the last deleted one, the next truncation makes progress and leaves the
  newest messages alone: it drops messages from index 2 on, at least one that was still there, and never the last two.\<close>

theorem truncation_makes_progress:
  assumes "keep \<noteq> KeepNone" and "start = (case deleted of Some r \<Rightarrow> snd r + 1 | None \<Rightarrow> 2)" and "2 \<le> start"
    and "start + 4 \<le> length msgs"
  shows "case get_next_truncation_range msgs deleted keep of
    (a, b) \<Rightarrow> a = 2 \<and> start \<le> b \<and> b + 2 < length msgs"
proof -
  let ?n = "messages_to_remove keep (length msgs) start"
  have n: "2 \<le> ?n" "?n + start + 2 \<le> length msgs" using removed_bounds[OF assms(1,4)] by auto
  then show ?thesis using assms(3)
    by (auto simp: get_next_truncation_range_def Let_def simp flip: assms(2))
qed

theorem truncation_makes_progress_witness:
  "case get_next_truncation_range (sample_history @ sample_history) (Some (2, 3)) KeepHalf of
    (a, b) \<Rightarrow> a = 2 \<and> 4 \<le> b \<and> b + 2 < length (sample_history @ sample_history)"
  by (rule truncation_makes_progress) (simp_all add: sample_history_def)

text \<open>With three messages nothing is to be removed, and the newest request is dropped all the same.\<close>

lemma short_history_loses_request:
  "messages_to_remove KeepHalf (length (take 3 sample_history)) 2 = 0
   \<and> get_next_truncation_range (take 3 sample_history) None KeepHalf = (2, 2)
   \<and> list_all (\<lambda>m. plain_text (str ''hi'') \<notin> set (said_in m)) (get_truncated_messages (take 3 sample_history) (Some (2, 2)) None)"
  by code_simp

text \<open>A call whose results come later is left alone for their sake, and the repair of the later message drops them.\<close>

definition late_results :: "storage_message list" where
  "late_results = [bare_message RoleUser (TextContent []), call_message [[97]], call_message [[98]],
     bare_message RoleUser (UserBlocks [missing_result [97], missing_result [98]])]"

lemma late_results_dropped:
  "list_ex (\<lambda>m. content_answers [[97]] (msg_content m)) late_results
   \<and> ensure_tool_results_follow_tool_use late_results
       = [late_results ! 0, call_message [[97]], call_message [[98]], bare_message RoleUser (UserBlocks [missing_result [98]])]"
  by code_simp

end
