(* ===== verification/PlanState.thy ===== *)
theory PlanState
  imports Prelude
begin

text \<open>
  The plan of the interactive workflow Plan, Approve, Act (\<open>src/src/core/plan_state.rs\<close>): its steps, every
  operation on it, and the parsing and rendering of plans. A fallible operation changes nothing when it
  fails (each of its error returns stands before the first assignment), so its model is a sum: the error
  message, or the changed plan.
\<close>

section \<open>Steps and state\<close>

datatype plan_step_status = Pending | Running | Done | Failed

fun status_name :: "plan_step_status \<Rightarrow> ustr" where
  "status_name Pending = str ''pending''"
| "status_name Running = str ''running''"
| "status_name Done = str ''done''"
| "status_name Failed = str ''failed''"

record plan_step =
  step_index :: nat
  description :: ustr
  status :: plan_step_status

definition status_icon :: "plan_step \<Rightarrow> ustr" where
  "status_icon s = (case status s of Pending \<Rightarrow> [9675] | Running \<Rightarrow> [8594] | Done \<Rightarrow> [10003] | Failed \<Rightarrow> [10007])"

record plan_state =
  steps :: "plan_step list"
  current_step_index :: nat
  approved :: bool
  paused :: bool
  complete :: bool
  version :: "64 word"

text \<open>Indices are \<open>usize\<close>; \<open>index + 1\<close> wraps in the release profile. The bound is an integer so that it evaluates.\<close>

definition usize_max :: int where
  "usize_max = 18446744073709551615"

definition one_based :: "nat \<Rightarrow> nat" where
  "one_based i = (if int i = usize_max then 0 else i + 1)"

definition saturating_suc :: "64 word \<Rightarrow> 64 word" where
  "saturating_suc v = (if v = - 1 then - 1 else v + 1)"

definition create_plan :: "ustr list \<Rightarrow> plan_state" where
  "create_plan ds =
     \<lparr>steps = map (\<lambda>(i, d). \<lparr>step_index = i, description = d, status = Pending\<rparr>) (enumerate 0 ds),
      current_step_index = 0, approved = False, paused = False, complete = False, version = 0\<rparr>"

definition bump_version :: "plan_state \<Rightarrow> plan_state" where
  "bump_version p = p\<lparr>version := saturating_suc (version p)\<rparr>"

definition set_status :: "nat \<Rightarrow> plan_step_status \<Rightarrow> plan_state \<Rightarrow> plan_state" where
  "set_status i s p = p\<lparr>steps := (steps p)[i := (steps p ! i)\<lparr>status := s\<rparr>]\<rparr>"

definition no_such_step :: "nat \<Rightarrow> ustr" where
  "no_such_step i = str ''Step '' @ show_nat (one_based i) @ str '' does not exist''"

definition approve_at :: "nat \<Rightarrow> plan_state \<Rightarrow> ustr + plan_state" where
  "approve_at i p =
     (if length (steps p) \<le> i then Inl (no_such_step i)
      else if status (steps p ! i) \<noteq> Pending then
        Inl (str ''Step '' @ show_nat (one_based i) @ str '' is not pending'')
      else Inr (bump_version (set_status i Running (p\<lparr>current_step_index := i, approved := True\<rparr>))))"

definition set_paused :: "bool \<Rightarrow> plan_state \<Rightarrow> plan_state" where
  "set_paused b p = (if paused p \<noteq> b then bump_version (p\<lparr>paused := b\<rparr>) else p)"

definition mark_complete :: "plan_state \<Rightarrow> plan_state" where
  "mark_complete p = (if \<not> complete p then bump_version (p\<lparr>complete := True\<rparr>) else p)"

definition replace_steps :: "ustr list \<Rightarrow> plan_state \<Rightarrow> plan_state" where
  "replace_steps ds p = (create_plan ds)\<lparr>version := saturating_suc (version p)\<rparr>"

definition update_step :: "nat \<Rightarrow> ustr \<Rightarrow> plan_state \<Rightarrow> ustr + plan_state" where
  "update_step i d p =
     (if length (steps p) \<le> i then Inl (no_such_step i)
      else Inr (bump_version (p\<lparr>steps := (steps p)[i := (steps p ! i)\<lparr>description := d\<rparr>]\<rparr>)))"

definition renumber :: "plan_state \<Rightarrow> plan_state" where
  "renumber p = p\<lparr>steps := map (\<lambda>(i, s). s\<lparr>step_index := i\<rparr>) (enumerate 0 (steps p))\<rparr>"

text \<open>\<open>Vec::insert\<close> and \<open>Vec::remove\<close> within the bounds the callers check\<close>

definition vec_insert :: "nat \<Rightarrow> 'a \<Rightarrow> 'a list \<Rightarrow> 'a list" where
  "vec_insert i x xs = take i xs @ x # drop i xs"

definition vec_remove :: "nat \<Rightarrow> 'a list \<Rightarrow> 'a list" where
  "vec_remove i xs = take i xs @ drop (Suc i) xs"

definition insert_step_after :: "nat \<Rightarrow> ustr \<Rightarrow> plan_state \<Rightarrow> ustr + plan_state" where
  "insert_step_after after d p =
     (let old_len = length (steps p); old_current = current_step_index p;
          pos = (if int after = usize_max then length (steps p) else after + 1)
      in if length (steps p) < pos then
           Inl (str ''Cannot insert after step '' @ show_nat (after + 1) @ str '' (only ''
             @ show_nat (length (steps p)) @ str '' steps)'')
         else
           let q = renumber (p\<lparr>steps := vec_insert pos \<lparr>step_index = pos, description = d, status = Pending\<rparr> (steps p)\<rparr>);
               q' = (if old_len \<le> old_current then q\<lparr>current_step_index := length (steps q) - 1\<rparr>
                     else if pos \<le> old_current then q\<lparr>current_step_index := old_current + 1\<rparr>
                     else q)
           in Inr (bump_version q'))"

definition insert_step_at_beginning :: "ustr \<Rightarrow> plan_state \<Rightarrow> ustr + plan_state" where
  "insert_step_at_beginning d p =
     (let old_len = length (steps p); old_current = current_step_index p;
          q = renumber (p\<lparr>steps := vec_insert 0 \<lparr>step_index = 0, description = d, status = Pending\<rparr> (steps p)\<rparr>);
          q' = (if old_len \<le> old_current then q\<lparr>current_step_index := 0\<rparr>
                else q\<lparr>current_step_index := old_current + 1\<rparr>)
      in Inr (bump_version q'))"

definition remove_step :: "nat \<Rightarrow> plan_state \<Rightarrow> ustr + plan_state" where
  "remove_step i p =
     (let old_len = length (steps p); old_current = current_step_index p
      in if length (steps p) \<le> i then
           Inl (str ''Step index '' @ show_nat i @ str '' out of range (0-''
             @ show_nat (length (steps p) - 1) @ str '')'')
         else
           let q = renumber (p\<lparr>steps := vec_remove i (steps p)\<rparr>);
               q' = (if steps q = [] then q\<lparr>current_step_index := 0\<rparr>
                     else if old_len \<le> old_current then q\<lparr>current_step_index := length (steps q) - 1\<rparr>
                     else if i < old_current then q\<lparr>current_step_index := old_current - 1\<rparr>
                     else if length (steps q) \<le> current_step_index q then
                       q\<lparr>current_step_index := length (steps q) - 1\<rparr>
                     else q)
           in Inr (bump_version q'))"

definition mark_step :: "nat \<Rightarrow> plan_step_status \<Rightarrow> plan_state \<Rightarrow> ustr + plan_state" where
  "mark_step i s p =
     (if length (steps p) \<le> i then Inl (no_such_step i) else Inr (bump_version (set_status i s p)))"

definition current_step :: "plan_state \<Rightarrow> plan_step option" where
  "current_step p =
     (if current_step_index p < length (steps p) then Some (steps p ! current_step_index p) else None)"

definition is_complete :: "plan_state \<Rightarrow> bool" where
  "is_complete p \<longleftrightarrow> steps p \<noteq> [] \<and> list_all (\<lambda>s. status s = Done) (steps p)"

text \<open>The first pending step of \<open>enumerate().skip(n)\<close>\<close>

definition next_pending :: "nat \<Rightarrow> plan_step list \<Rightarrow> nat option" where
  "next_pending n ss = map_option (\<lambda>i. n + i) (position (\<lambda>s. status s = Pending) (drop n ss))"

definition bump_if :: "bool \<Rightarrow> plan_state \<Rightarrow> plan_state" where
  "bump_if b p = (if b then bump_version p else p)"

definition advance_lost :: "plan_state \<Rightarrow> plan_state \<times> nat option" where
  "advance_lost p =
     (case position (\<lambda>s. status s = Pending) (steps p) of
        Some i \<Rightarrow> (bump_version (set_status i Running (p\<lparr>current_step_index := i\<rparr>)), Some i)
      | None \<Rightarrow> (if is_complete p then mark_complete p else p, None))"

definition advance :: "plan_state \<Rightarrow> plan_state \<times> nat option" where
  "advance p =
     (if length (steps p) \<le> current_step_index p then advance_lost p
      else
        let cur = current_step_index p;
            ran = (status (steps p ! cur) = Running);
            q = (if ran then set_status cur Done p else p)
        in if status (steps q ! cur) = Failed then (bump_if ran q, None)
           else (case next_pending (cur + 1) (steps q) of
                   Some i \<Rightarrow>
                     let moved = (cur \<noteq> i); q' = q\<lparr>current_step_index := i\<rparr>;
                         started = (status (steps q' ! i) \<noteq> Running);
                         q'' = (if started then set_status i Running q' else q')
                     in (bump_if (ran \<or> moved \<or> started) q'', Some (current_step_index q''))
                 | None \<Rightarrow>
                     let fin = (is_complete q \<and> \<not> complete q);
                         q' = (if fin then q\<lparr>complete := True\<rparr> else q)
                     in (bump_if (ran \<or> fin) q', None)))"

section \<open>Parsing\<close>

definition parse_numbered_line :: "ustr \<Rightarrow> ustr option" where
  "parse_numbered_line line =
     (case dropWhile is_ascii_digit line of
        [] \<Rightarrow> None
      | c # rest \<Rightarrow>
          if takeWhile is_ascii_digit line = [] then None
          else if c \<noteq> 46 \<and> c \<noteq> 41 then None
          else if rest = [] \<or> \<not> is_ascii_ws (hd rest) then None
          else let desc = trim (dropWhile is_ascii_ws rest) in if desc = [] then None else Some desc)"

text \<open>Only \<open>S\<close>, \<open>T\<close>, \<open>E\<close> and \<open>P\<close> are lowered to \<open>s\<close>, \<open>t\<close>, \<open>e\<close> and \<open>p\<close>, so the Unicode lower case starts with
  \<open>step\<close> when the ASCII one does, and the first five bytes are five characters.\<close>

definition parse_step_prefix_line :: "ustr \<Rightarrow> ustr option" where
  "parse_step_prefix_line line =
     (if \<not> starts_with (str ''step '') (to_ascii_lower line) then None
      else let rest = drop 5 line in
        (case dropWhile is_ascii_digit rest of
           [] \<Rightarrow> None
         | c # after \<Rightarrow>
             if takeWhile is_ascii_digit rest = [] then None
             else if c \<noteq> 58 \<and> c \<noteq> 46 \<and> c \<noteq> 41 then None
             else let desc = trim (dropWhile is_ascii_ws after) in if desc = [] then None else Some desc))"

definition parse_bullet_line :: "ustr \<Rightarrow> ustr option" where
  "parse_bullet_line line =
     parse_step_prefix_line
       (case strip_prefix (str ''- '') line of
          Some s \<Rightarrow> s
        | None \<Rightarrow> (case strip_prefix (str ''* '') line of Some s \<Rightarrow> s | None \<Rightarrow> line))"

definition parse_plan_line :: "ustr \<Rightarrow> ustr option" where
  "parse_plan_line line =
     (let trimmed = trim line in
      if trimmed = [] then None
      else case parse_numbered_line trimmed of Some d \<Rightarrow> Some d | None \<Rightarrow> parse_bullet_line trimmed)"

definition parse_plan :: "ustr \<Rightarrow> ustr list option" where
  "parse_plan text =
     (let ds = List.map_filter parse_plan_line (str_lines text) in if ds = [] then None else Some ds)"

section \<open>Rendering\<close>

definition show_bool :: "bool \<Rightarrow> ustr" where
  "show_bool b = (if b then str ''true'' else str ''false'')"

definition has_failed :: "plan_state \<Rightarrow> bool" where
  "has_failed p \<longleftrightarrow> list_ex (\<lambda>s. status s = Failed) (steps p)"

definition mode_label :: "plan_state \<Rightarrow> ustr" where
  "mode_label p =
     (if complete p then str ''COMPLETE'' else if has_failed p then str ''FAILED''
      else if paused p then str ''PAUSED'' else if approved p then str ''ACT'' else str ''APPROVAL'')"

definition format_state :: "plan_state \<Rightarrow> ustr" where
  "format_state p =
     str ''Plan state:'' @ [nl]
     @ str ''mode: '' @ mode_label p @ [nl]
     @ str ''approved: '' @ show_bool (approved p) @ [nl]
     @ str ''paused: '' @ show_bool (paused p) @ [nl]
     @ str ''complete: '' @ show_bool (complete p) @ [nl]
     @ str ''current_step_index: '' @ show_nat (current_step_index p) @ [nl]
     @ [nl] @ str ''Steps:'' @ [nl]
     @ concat (map (\<lambda>s. show_nat (one_based (step_index s)) @ str ''. ['' @ status_name (status s) @ str ''] ''
         @ description s @ [nl]) (steps p))
     @ (case current_step p of
          Some s \<Rightarrow> [nl] @ str ''Current step:'' @ [nl] @ show_nat (one_based (step_index s)) @ str ''. ''
            @ description s @ [nl]
        | None \<Rightarrow> [])"

definition format_display :: "plan_state \<Rightarrow> ustr" where
  "format_display p =
     concat (map (\<lambda>s. str ''  '' @ status_icon s @ str '' '' @ show_nat (one_based (step_index s)) @ str ''. ''
       @ description s @ [nl]) (steps p))
     @ [nl] @ str ''  Progress: '' @ show_nat (length (filter (\<lambda>s. status s = Done) (steps p))) @ str ''/''
     @ show_nat (length (steps p)) @ str '' steps complete'' @ [nl]"

definition status_summary :: "plan_state \<Rightarrow> ustr" where
  "status_summary p =
     (let total = show_nat (length (steps p)); cur = show_nat (one_based (current_step_index p)) in
      if complete p then str ''Plan: complete '' @ total @ str ''/'' @ total
      else if paused p then str ''Plan: paused at '' @ cur @ str ''/'' @ total
      else if has_failed p then str ''Plan: failed at '' @ cur @ str ''/'' @ total
      else if approved p then str ''Plan: '' @ cur @ str ''/'' @ total @ str '' running''
      else str ''Plan: awaiting approval'')"

section \<open>Well-formed plans\<close>

text \<open>The steps carry their positions and the current index names a step, or is 0 in an empty plan.\<close>

definition plan_wf :: "plan_state \<Rightarrow> bool" where
  "plan_wf p \<longleftrightarrow> map step_index (steps p) = [0..<length (steps p)]
     \<and> (if steps p = [] then current_step_index p = 0 else current_step_index p < length (steps p))"

text \<open>Only the current step of an approved plan runs.\<close>

definition single_runner :: "plan_state \<Rightarrow> bool" where
  "single_runner p \<longleftrightarrow> (\<forall>i < length (steps p). status (steps p ! i) = Running \<longrightarrow> i = current_step_index p \<and> approved p)"

text \<open>The invariant of the operations, with the claim on the running step or, for plans in which a step was started before the
  approval, without it.\<close>

definition plan_inv :: "bool \<Rightarrow> plan_state \<Rightarrow> bool" where
  "plan_inv one p \<longleftrightarrow> plan_wf p \<and> (one \<longrightarrow> single_runner p)"

lemma bump_version_fields [simp]:
  "steps (bump_version p) = steps p" "current_step_index (bump_version p) = current_step_index p"
  "approved (bump_version p) = approved p" "paused (bump_version p) = paused p"
  "complete (bump_version p) = complete p"
  by (simp_all add: bump_version_def)

lemma bump_if_fields [simp]:
  "steps (bump_if b p) = steps p" "current_step_index (bump_if b p) = current_step_index p"
  "approved (bump_if b p) = approved p" "paused (bump_if b p) = paused p"
  "complete (bump_if b p) = complete p"
  by (simp_all add: bump_if_def)

lemma set_status_fields [simp]:
  "length (steps (set_status i s p)) = length (steps p)"
  "current_step_index (set_status i s p) = current_step_index p"
  "approved (set_status i s p) = approved p" "paused (set_status i s p) = paused p"
  "complete (set_status i s p) = complete p" "version (set_status i s p) = version p"
  "steps (set_status i s p) = [] \<longleftrightarrow> steps p = []"
  by (simp_all add: set_status_def)

lemma same_index: "current_step_index p = c \<Longrightarrow> p\<lparr>current_step_index := c\<rparr> = p"
  by (cases p) simp

lemma enumerate_Nil [simp]: "enumerate n xs = [] \<longleftrightarrow> xs = []"
  by (cases xs) simp_all

lemma set_status_status:
  "j < length (steps p) \<Longrightarrow> status (steps (set_status i s p) ! j) = (if j = i then s else status (steps p ! j))"
  by (simp add: set_status_def nth_list_update)

lemma map_update_same: "f y = f (xs ! i) \<Longrightarrow> map f (xs[i := y]) = map f xs"
  by (cases "i < length xs") (simp_all add: map_update list_update_same_conv list_update_beyond)

lemma set_status_indices [simp]: "map step_index (steps (set_status i s p)) = map step_index (steps p)"
  by (simp add: set_status_def map_update_same)

lemma renumber_fields [simp]:
  "length (steps (renumber p)) = length (steps p)" "current_step_index (renumber p) = current_step_index p"
  "approved (renumber p) = approved p" "paused (renumber p) = paused p" "complete (renumber p) = complete p"
  "version (renumber p) = version p" "steps (renumber p) = [] \<longleftrightarrow> steps p = []"
  by (simp_all add: renumber_def)

lemma renumber_indices [simp]: "map step_index (steps (renumber p)) = [0..<length (steps p)]"
  by (rule nth_equalityI) (simp_all add: renumber_def nth_enumerate_eq split_beta)

lemma renumber_status [simp]: "i < length (steps p) \<Longrightarrow> status (steps (renumber p) ! i) = status (steps p ! i)"
  by (simp add: renumber_def nth_enumerate_eq split_beta)

lemma renumber_description [simp]:
  "i < length (steps p) \<Longrightarrow> description (steps (renumber p) ! i) = description (steps p ! i)"
  by (simp add: renumber_def nth_enumerate_eq split_beta)

lemma length_vec_insert [simp]: "i \<le> length xs \<Longrightarrow> length (vec_insert i x xs) = Suc (length xs)"
  by (simp add: vec_insert_def)

lemma vec_insert_not_Nil [simp]: "vec_insert i x xs \<noteq> []"
  by (simp add: vec_insert_def)

lemma length_vec_remove [simp]: "i < length xs \<Longrightarrow> length (vec_remove i xs) = length xs - 1"
  by (simp add: vec_remove_def)

lemma nth_vec_insert:
  "i \<le> length xs \<Longrightarrow> j \<le> length xs \<Longrightarrow>
     vec_insert i x xs ! j = (if j < i then xs ! j else if j = i then x else xs ! (j - 1))"
  by (auto simp: vec_insert_def nth_append nth_Cons intro!: arg_cong[where f = "nth xs"] split: nat.splits)

lemma nth_vec_remove:
  "i < length xs \<Longrightarrow> j < length xs - 1 \<Longrightarrow> vec_remove i xs ! j = (if j < i then xs ! j else xs ! Suc j)"
  by (auto simp: vec_remove_def nth_append min_def)
subsection \<open>Every operation keeps the invariant\<close>

lemma plan_inv_intro:
  assumes "map step_index (steps p) = [0..<length (steps p)]"
    and "steps p = [] \<Longrightarrow> current_step_index p = 0"
    and "steps p \<noteq> [] \<Longrightarrow> current_step_index p < length (steps p)"
    and "\<And>i. one \<Longrightarrow> i < length (steps p) \<Longrightarrow> status (steps p ! i) = Running \<Longrightarrow> i = current_step_index p \<and> approved p"
  shows "plan_inv one p"
  using assms by (auto simp: plan_inv_def plan_wf_def single_runner_def)

lemma plan_invD:
  assumes "plan_inv one p"
  shows "map step_index (steps p) = [0..<length (steps p)]"
    and "steps p = [] \<Longrightarrow> current_step_index p = 0"
    and "steps p \<noteq> [] \<Longrightarrow> current_step_index p < length (steps p)"
    and "i < length (steps p) \<Longrightarrow> current_step_index p < length (steps p)"
    and "one \<Longrightarrow> i < length (steps p) \<Longrightarrow> status (steps p ! i) = Running \<Longrightarrow> i = current_step_index p \<and> approved p"
  using assms by (auto simp: plan_inv_def plan_wf_def single_runner_def split: if_splits)

lemma plan_inv_bump [simp]: "plan_inv one (bump_version p) = plan_inv one p"
  by (simp add: plan_inv_def plan_wf_def single_runner_def)

lemma plan_inv_bump_if [simp]: "plan_inv one (bump_if b p) = plan_inv one p"
  by (simp add: bump_if_def)

lemma plan_inv_paused [simp]: "plan_inv one (p\<lparr>paused := b\<rparr>) = plan_inv one p"
  by (simp add: plan_inv_def plan_wf_def single_runner_def)

lemma plan_inv_complete [simp]: "plan_inv one (p\<lparr>complete := b\<rparr>) = plan_inv one p"
  by (simp add: plan_inv_def plan_wf_def single_runner_def)

lemma plan_inv_version [simp]: "plan_inv one (p\<lparr>version := b\<rparr>) = plan_inv one p"
  by (simp add: plan_inv_def plan_wf_def single_runner_def)

lemma create_plan_inv [simp]: "plan_inv one (create_plan ds)"
proof (rule plan_inv_intro)
  show "map step_index (steps (create_plan ds)) = [0..<length (steps (create_plan ds))]"
    by (rule nth_equalityI) (simp_all add: create_plan_def nth_enumerate_eq split_beta)
next
  fix i assume "i < length (steps (create_plan ds))" "status (steps (create_plan ds) ! i) = Running"
  then show "i = current_step_index (create_plan ds) \<and> approved (create_plan ds)"
    by (simp add: create_plan_def nth_enumerate_eq split_beta)
qed (simp_all add: create_plan_def)

lemma set_paused_inv [simp]: "plan_inv one (set_paused b p) = plan_inv one p"
  by (simp add: set_paused_def)

lemma mark_complete_inv [simp]: "plan_inv one (mark_complete p) = plan_inv one p"
  by (simp add: mark_complete_def)

lemma replace_steps_inv [simp]: "plan_inv one (replace_steps ds p)"
  by (simp add: replace_steps_def)

lemma update_step_inv:
  assumes "update_step i d p = Inr q" and inv: "plan_inv one p"
  shows "plan_inv one q"
proof -
  have i: "i < length (steps p)"
    and q: "q = bump_version (p\<lparr>steps := (steps p)[i := (steps p ! i)\<lparr>description := d\<rparr>]\<rparr>)"
    using assms(1) by (auto simp: update_step_def split: if_splits)
  have ix: "map step_index ((steps p)[i := (steps p ! i)\<lparr>description := d\<rparr>]) = map step_index (steps p)"
    by (simp add: map_update_same)
  show ?thesis
    unfolding q plan_inv_bump
  proof (rule plan_inv_intro)
    let ?q = "p\<lparr>steps := (steps p)[i := (steps p ! i)\<lparr>description := d\<rparr>]\<rparr>"
    fix j assume one and j: "j < length (steps ?q)" "status (steps ?q ! j) = Running"
    show "j = current_step_index ?q \<and> approved ?q"
      using j i plan_invD(5)[OF inv \<open>one\<close>, of j] by (auto simp: nth_list_update split: if_splits)
  qed (use i ix plan_invD(1-3)[OF inv] in auto)
qed

text \<open>Setting a status keeps the invariant unless it starts a step that is not the current one.\<close>

lemma set_status_inv:
  assumes inv: "plan_inv one p" and s: "one \<Longrightarrow> s = Running \<Longrightarrow> i = current_step_index p \<and> approved p"
  shows "plan_inv one (set_status i s p)"
proof (rule plan_inv_intro)
  fix j assume one and j: "j < length (steps (set_status i s p))" "status (steps (set_status i s p) ! j) = Running"
  show "j = current_step_index (set_status i s p) \<and> approved (set_status i s p)"
    using j s[OF \<open>one\<close>] plan_invD(5)[OF inv \<open>one\<close>, of j] by (auto simp: set_status_status split: if_splits)
qed (use plan_invD(1-3)[OF inv] in simp_all)

text \<open>Moving to another step and starting it keeps the invariant when no other step runs.\<close>

lemma start_step_inv:
  assumes inv: "plan_inv one p" and i: "i < length (steps p)" and ap: "one \<Longrightarrow> approved p"
    and idle: "\<And>j. one \<Longrightarrow> j < length (steps p) \<Longrightarrow> status (steps p ! j) \<noteq> Running"
  shows "plan_inv one (set_status i Running (p\<lparr>current_step_index := i\<rparr>))"
proof (rule plan_inv_intro)
  let ?q = "set_status i Running (p\<lparr>current_step_index := i\<rparr>)"
  fix j assume one and j: "j < length (steps ?q)" "status (steps ?q ! j) = Running"
  show "j = current_step_index ?q \<and> approved ?q"
    using j ap[OF \<open>one\<close>] idle[OF \<open>one\<close>, of j] by (auto simp: set_status_status split: if_splits)
qed (use i plan_invD(1)[OF inv] in auto)

lemma mark_step_inv:
  assumes "mark_step i s p = Inr q" and "plan_inv one p" and "one \<Longrightarrow> s = Running \<Longrightarrow> i = current_step_index p \<and> approved p"
  shows "plan_inv one q"
  using assms set_status_inv[of one p s i] by (auto simp: mark_step_def split: if_splits)

lemma approve_at_inv:
  assumes q: "approve_at i p = Inr q" and inv: "plan_inv one p" and na: "\<not> approved p"
  shows "plan_inv one q"
proof -
  have i: "i < length (steps p)"
    and q: "q = bump_version (set_status i Running (p\<lparr>current_step_index := i, approved := True\<rparr>))"
    using q by (auto simp: approve_at_def split: if_splits)
  show ?thesis
    unfolding q plan_inv_bump
  proof (rule plan_inv_intro)
    let ?q = "set_status i Running (p\<lparr>current_step_index := i, approved := True\<rparr>)"
    fix j assume one and j: "j < length (steps ?q)" "status (steps ?q ! j) = Running"
    show "j = current_step_index ?q \<and> approved ?q"
      using j na plan_invD(5)[OF inv \<open>one\<close>, of j] by (auto simp: set_status_status split: if_splits)
  qed (use i plan_invD(1)[OF inv] in auto)
qed

lemma insert_step_after_inv:
  assumes q: "insert_step_after a d p = Inr q" and inv: "plan_inv one p"
  shows "plan_inv one q"
proof -
  define pos where "pos = (if int a = usize_max then length (steps p) else a + 1)"
  define st where "st = \<lparr>step_index = pos, description = d, status = Pending\<rparr>"
  define r where "r = renumber (p\<lparr>steps := vec_insert pos st (steps p)\<rparr>)"
  have pos: "pos \<le> length (steps p)" and q: "q = bump_version
      (if length (steps p) \<le> current_step_index p then r\<lparr>current_step_index := length (steps r) - 1\<rparr>
       else if pos \<le> current_step_index p then r\<lparr>current_step_index := current_step_index p + 1\<rparr> else r)"
    using q by (auto simp: insert_step_after_def Let_def pos_def[symmetric] st_def[symmetric]
        r_def[symmetric] split: if_splits)
  have len: "length (steps r) = Suc (length (steps p))"
    using pos by (simp add: r_def)
  have st: "status (steps r ! i) = (if i < pos then status (steps p ! i) else if i = pos then Pending
      else status (steps p ! (i - 1)))" if "i \<le> length (steps p)" for i
    using that pos by (simp add: r_def nth_vec_insert st_def)
  have ix: "map step_index (steps r) = [0..<length (steps r)]" "approved r = approved p"
    "current_step_index r = current_step_index p"
    using pos by (simp_all add: r_def)
  note D = plan_invD[OF inv]
  have run: "i = (if pos \<le> current_step_index p then current_step_index p + 1 else current_step_index p)
      \<and> approved p \<and> steps p \<noteq> []"
    if i: "one" "i < length (steps r)" "status (steps r ! i) = Running" for i
  proof (cases "i < pos")
    case True
    then show ?thesis using i pos D(5)[of i] by (auto simp: len st)
  next
    case False
    then have "i \<noteq> pos" using i by (auto simp: len st)
    with False have "pos < i" by simp
    then show ?thesis using i pos D(5)[of "i - 1"] by (auto simp: len st)
  qed
  show ?thesis
  proof (cases "steps p = []")
    case True
    then have "q = bump_version (r\<lparr>current_step_index := length (steps r) - 1\<rparr>)"
      using q by simp
    moreover have "plan_inv one (r\<lparr>current_step_index := length (steps r) - 1\<rparr>)"
      by (rule plan_inv_intro) (use run ix len True in auto)
    ultimately show ?thesis by simp
  next
    case False
    then have cur: "current_step_index p < length (steps p)" by (rule D(3))
    define c where "c = (if pos \<le> current_step_index p then current_step_index p + 1 else current_step_index p)"
    have qc: "q = bump_version (r\<lparr>current_step_index := c\<rparr>)"
      using cur ix(3) unfolding q c_def by (simp add: same_index)
    have c: "c < length (steps r)" using cur len by (simp add: c_def)
    show ?thesis
      unfolding qc plan_inv_bump
    proof (rule plan_inv_intro)
      fix i assume one "i < length (steps (r\<lparr>current_step_index := c\<rparr>))"
        "status (steps (r\<lparr>current_step_index := c\<rparr>) ! i) = Running"
      with run[of i] ix(2) show "i = current_step_index (r\<lparr>current_step_index := c\<rparr>)
          \<and> approved (r\<lparr>current_step_index := c\<rparr>)"
        by (simp add: c_def)
    qed (use c ix(1) in simp_all)
  qed
qed

lemma insert_at_beginning_inv:
  assumes q: "insert_step_at_beginning d p = Inr q" and inv: "plan_inv one p"
  shows "plan_inv one q"
proof -
  define st where "st = \<lparr>step_index = 0, description = d, status = Pending\<rparr>"
  define r where "r = renumber (p\<lparr>steps := vec_insert 0 st (steps p)\<rparr>)"
  note D = plan_invD[OF inv]
  define c where "c = (if steps p = [] then 0 else current_step_index p + 1)"
  have qc: "q = bump_version (r\<lparr>current_step_index := c\<rparr>)"
    using q D(2,3) by (auto simp: insert_step_at_beginning_def Let_def c_def r_def st_def)
  have len: "length (steps r) = Suc (length (steps p))"
    by (simp add: r_def)
  have st: "status (steps r ! i) = (if i = 0 then Pending else status (steps p ! (i - 1)))"
    if "i \<le> length (steps p)" for i
    using that by (simp add: r_def nth_vec_insert st_def)
  show "plan_inv one q"
    unfolding qc plan_inv_bump
  proof (rule plan_inv_intro)
    fix i assume one and i: "i < length (steps (r\<lparr>current_step_index := c\<rparr>))"
      "status (steps (r\<lparr>current_step_index := c\<rparr>) ! i) = Running"
    then have "i \<noteq> 0" "status (steps p ! (i - 1)) = Running" "i - 1 < length (steps p)"
      by (auto simp: len st split: if_splits)
    with D(5)[OF \<open>one\<close>, of "i - 1"] show "i = current_step_index (r\<lparr>current_step_index := c\<rparr>)
        \<and> approved (r\<lparr>current_step_index := c\<rparr>)"
      by (auto simp: c_def r_def)
  qed (use D(2,3) in \<open>simp_all add: r_def c_def\<close>)
qed

lemma remove_step_inv:
  assumes q: "remove_step k p = Inr q" and inv: "plan_inv one p"
  shows "plan_inv one q"
proof -
  define r where "r = renumber (p\<lparr>steps := vec_remove k (steps p)\<rparr>)"
  note D = plan_invD[OF inv]
  define cur where "cur = current_step_index p"
  define n where "n = length (steps p)"
  have k: "k < n"
    using q by (simp add: remove_step_def n_def Let_def split: if_splits)
  have cur: "cur < n"
    using k D(4)[of k] by (simp add: cur_def n_def)
  have len: "length (steps r) = n - 1"
    using k by (simp add: r_def n_def)
  have nil: "steps r = [] \<longleftrightarrow> n = 1"
    using k len length_0_conv[of "steps r"] by auto
  define c where "c = (if k < cur then cur - 1 else if n - 1 \<le> cur then n - 1 - 1 else cur)"
  have qc: "q = bump_version (r\<lparr>current_step_index := c\<rparr>)"
  proof -
    have "current_step_index r = cur" by (simp add: r_def cur_def)
    moreover have "bump_version
       (if steps r = [] then r\<lparr>current_step_index := 0\<rparr>
        else if n \<le> cur then r\<lparr>current_step_index := length (steps r) - 1\<rparr>
        else if k < cur then r\<lparr>current_step_index := cur - 1\<rparr>
        else if length (steps r) \<le> current_step_index r then r\<lparr>current_step_index := length (steps r) - 1\<rparr>
        else r) = q"
      using q k by (simp add: remove_step_def Let_def flip: r_def cur_def n_def)
    ultimately show ?thesis
      using nil k cur len by (auto simp: c_def same_index)
  qed
  have st: "status (steps r ! i) = (if i < k then status (steps p ! i) else status (steps p ! Suc i))"
    if "i < n - 1" for i
    using that k by (simp add: r_def nth_vec_remove n_def)
  show ?thesis
    unfolding qc plan_inv_bump
  proof (rule plan_inv_intro)
    fix i assume one and i: "i < length (steps (r\<lparr>current_step_index := c\<rparr>))"
      "status (steps (r\<lparr>current_step_index := c\<rparr>) ! i) = Running"
    have j: "(if i < k then i else Suc i) = cur \<and> approved p"
      using i k D(5)[OF \<open>one\<close>, of i] D(5)[OF \<open>one\<close>, of "Suc i"] st[of i] len by (auto simp: cur_def n_def split: if_splits)
    have "i = c"
      using j i(1) len cur k by (auto simp: c_def split: if_splits)
    with j show "i = current_step_index (r\<lparr>current_step_index := c\<rparr>) \<and> approved (r\<lparr>current_step_index := c\<rparr>)"
      by (simp add: r_def)
  qed (use k cur len nil in \<open>auto simp: r_def c_def\<close>)
qed
lemma next_pending_Some:
  assumes "next_pending n ss = Some i"
  shows "n \<le> i" "i < length ss" "status (ss ! i) = Pending"
    "n \<le> j \<Longrightarrow> j < i \<Longrightarrow> status (ss ! j) \<noteq> Pending"
proof -
  obtain k where k: "position (\<lambda>s. status s = Pending) (drop n ss) = Some k" and i: "i = n + k"
    using assms by (auto simp: next_pending_def)
  note P = position_Some[OF k]
  show "n \<le> i" "i < length ss" "status (ss ! i) = Pending"
    using P i by auto
  assume "n \<le> j" "j < i"
  then obtain m where "j = n + m" "m < k" using i by (auto simp: le_iff_add)
  moreover have "n \<le> length ss" using conjunct1[OF P, unfolded length_drop] by arith
  ultimately show "status (ss ! j) \<noteq> Pending" using P by (simp add: nth_drop)
qed

lemma next_pending_None:
  assumes "next_pending n ss = None" and "n \<le> j" "j < length ss"
  shows "status (ss ! j) \<noteq> Pending"
proof -
  have "\<forall>s \<in> set (drop n ss). status s \<noteq> Pending"
    using assms(1) by (simp add: next_pending_def position_None)
  moreover have "ss ! j \<in> set (drop n ss)"
    using assms(2,3) nth_mem[of "j - n" "drop n ss"] by (simp add: nth_drop)
  ultimately show ?thesis by blast
qed

lemma same_complete: "complete p \<Longrightarrow> p\<lparr>complete := True\<rparr> = p"
  by (cases p) simp

text \<open>The step reached by \<open>advance\<close> from a current step within range\<close>

definition settled :: "plan_state \<Rightarrow> plan_state" where
  "settled p = (if status (steps p ! current_step_index p) = Running
     then set_status (current_step_index p) Done p else p)"

lemma settled_fields [simp]:
  "length (steps (settled p)) = length (steps p)" "current_step_index (settled p) = current_step_index p"
  "approved (settled p) = approved p" "paused (settled p) = paused p" "complete (settled p) = complete p"
  "version (settled p) = version p" "steps (settled p) = [] \<longleftrightarrow> steps p = []"
  by (simp_all add: settled_def)

lemma settled_status:
  "i < length (steps p) \<Longrightarrow> status (steps (settled p) ! i) =
     (if i = current_step_index p \<and> status (steps p ! i) = Running then Done else status (steps p ! i))"
  by (auto simp: settled_def set_status_status)

lemma settled_inv: "plan_inv one p \<Longrightarrow> plan_inv one (settled p)"
  using set_status_inv[of one p Done "current_step_index p"] by (simp add: settled_def)

lemma settled_idle:
  "plan_inv one p \<Longrightarrow> one \<Longrightarrow> i < length (steps p) \<Longrightarrow> status (steps (settled p) ! i) \<noteq> Running"
  using plan_invD(5)[of one p i] by (auto simp: settled_status)

lemma advance_failed:
  assumes "current_step_index p < length (steps p)" "status (steps p ! current_step_index p) = Failed"
  shows "advance p = (p, None)"
  using assms by (simp add: advance_def bump_if_def)

lemma advance_next:
  assumes c: "current_step_index p < length (steps p)" and nf: "status (steps p ! current_step_index p) \<noteq> Failed"
    and nx: "next_pending (current_step_index p + 1) (steps (settled p)) = Some i"
  shows "advance p = (bump_version (set_status i Running ((settled p)\<lparr>current_step_index := i\<rparr>)), Some i)"
proof -
  have i: "current_step_index p < i" and pend: "status (steps (settled p) ! i) = Pending"
    using next_pending_Some[OF nx] by simp_all
  have nf': "status (steps (settled p) ! current_step_index p) \<noteq> Failed"
    using c nf by (simp add: settled_status)
  show ?thesis
    using c nf' nx i pend
    by (simp add: advance_def Let_def bump_if_def flip: settled_def)
qed

lemma advance_last:
  assumes c: "current_step_index p < length (steps p)" and nf: "status (steps p ! current_step_index p) \<noteq> Failed"
    and nx: "next_pending (current_step_index p + 1) (steps (settled p)) = None"
  shows "advance p = (bump_if (status (steps p ! current_step_index p) = Running
      \<or> is_complete (settled p) \<and> \<not> complete p)
     (if is_complete (settled p) then (settled p)\<lparr>complete := True\<rparr> else settled p), None)"
proof -
  have nf': "status (steps (settled p) ! current_step_index p) \<noteq> Failed"
    using c nf by (simp add: settled_status)
  show ?thesis
    using c nf' nx
    by (auto simp: advance_def Let_def same_complete simp flip: settled_def)
qed

lemma advance_inv:
  assumes inv: "plan_inv one p" and ap: "one \<Longrightarrow> approved p"
  shows "plan_inv one (fst (advance p))"
proof (cases "steps p = []")
  case True
  then have "advance p = (p, None)"
    by (simp add: advance_def advance_lost_def is_complete_def)
  then show ?thesis using inv by simp
next
  case False
  then have c: "current_step_index p < length (steps p)" by (rule plan_invD(3)[OF inv])
  consider "status (steps p ! current_step_index p) = Failed"
    | i where "status (steps p ! current_step_index p) \<noteq> Failed"
        "next_pending (current_step_index p + 1) (steps (settled p)) = Some i"
    | "status (steps p ! current_step_index p) \<noteq> Failed"
        "next_pending (current_step_index p + 1) (steps (settled p)) = None"
    by (cases "next_pending (current_step_index p + 1) (steps (settled p))") auto
  then show ?thesis
  proof cases
    case 1
    then show ?thesis using advance_failed[OF c] inv by simp
  next
    case 2
    have "plan_inv one (set_status i Running ((settled p)\<lparr>current_step_index := i\<rparr>))"
      by (rule start_step_inv[OF settled_inv[OF inv]])
         (use next_pending_Some(2)[OF 2(2)] ap settled_idle[OF inv] in simp_all)
    then show ?thesis using advance_next[OF c 2] by simp
  next
    case 3
    then show ?thesis using advance_last[OF c 3] settled_inv[OF inv] by simp
  qed
qed
subsection \<open>Changes are visible in the version\<close>

text \<open>The panel redraws a plan when its version changed: equal, or a larger version, or a counter at its end.\<close>

definition tracked :: "plan_state \<Rightarrow> plan_state \<Rightarrow> bool" where
  "tracked p q \<longleftrightarrow> q = p \<or> version p < version q \<or> version p = - 1 \<and> version q = - 1"

lemma tracked_refl [simp]: "tracked p p"
  by (simp add: tracked_def)

lemma word_less_minus_one: "(v :: 64 word) < - 1 \<longleftrightarrow> v \<noteq> - 1"
  by (metis word_n1_ge word_order.not_eq_extremum)

lemma saturating_suc_greater: "saturating_suc v = - 1 \<and> v = - 1 \<or> v < saturating_suc v"
proof (cases "v = - 1")
  case False
  then have "1 + v \<noteq> 0" by (simp add: eq_neg_iff_add_eq_0 add.commute)
  then have "unat (1 + v) = Suc (unat v)" by (rule unatSuc)
  then have "v < v + 1" by (simp add: word_less_nat_alt add.commute)
  then show ?thesis using False by (simp add: saturating_suc_def)
qed (simp add: saturating_suc_def)

lemma tracked_trans: "tracked p q \<Longrightarrow> tracked q r \<Longrightarrow> tracked p r"
  unfolding tracked_def by (metis word_less_minus_one order.strict_trans)

lemma tracked_suc: "version q = saturating_suc (version p) \<Longrightarrow> tracked p q"
  using saturating_suc_greater[of "version p"] by (auto simp: tracked_def)

lemma version_bump [simp]: "version (bump_version p) = saturating_suc (version p)"
  by (simp add: bump_version_def)

lemma tracked_bump: "version q = version p \<Longrightarrow> tracked p (bump_version q)"
  by (simp add: tracked_suc)

lemma tracked_operations:
  "tracked p (set_paused b p)" "tracked p (mark_complete p)" "tracked p (replace_steps ds p)"
  "approve_at i p = Inr q \<Longrightarrow> tracked p q" "update_step i d p = Inr q \<Longrightarrow> tracked p q"
  "insert_step_after i d p = Inr q \<Longrightarrow> tracked p q" "insert_step_at_beginning d p = Inr q \<Longrightarrow> tracked p q"
  "remove_step i p = Inr q \<Longrightarrow> tracked p q" "mark_step i s p = Inr q \<Longrightarrow> tracked p q"
  by (auto simp: set_paused_def mark_complete_def replace_steps_def approve_at_def update_step_def
      insert_step_after_def insert_step_at_beginning_def remove_step_def mark_step_def Let_def
      intro!: tracked_bump tracked_suc split: if_splits)

lemma tracked_advance: "tracked p (fst (advance p))"
proof (cases "current_step_index p < length (steps p)")
  case False
  then show ?thesis
    by (auto simp: advance_def advance_lost_def tracked_bump tracked_operations split: option.splits)
next
  case c: True
  show ?thesis
  proof (cases "status (steps p ! current_step_index p) = Failed")
    case True
    then show ?thesis using advance_failed[OF c] by simp
  next
    case nf: False
    show ?thesis
    proof (cases "next_pending (current_step_index p + 1) (steps (settled p))")
      case (Some i)
      then show ?thesis using advance_next[OF c nf Some] by (simp add: tracked_bump)
    next
      case None
      have "settled p = p" if "status (steps p ! current_step_index p) \<noteq> Running"
        using that by (simp add: settled_def)
      then show ?thesis
        using advance_last[OF c nf None] by (auto simp: bump_if_def same_complete intro!: tracked_bump)
    qed
  qed
qed

subsection \<open>Statuses and descriptions\<close>

lemma set_status_descriptions [simp]: "map description (steps (set_status i s p)) = map description (steps p)"
  by (simp add: set_status_def map_update_same)

lemma set_status_statuses [simp]:
  "i < length (steps p) \<Longrightarrow> map status (steps (set_status i s p)) = (map status (steps p))[i := s]"
  by (simp add: set_status_def map_update)

lemma settled_descriptions [simp]: "map description (steps (settled p)) = map description (steps p)"
  by (simp add: settled_def)

lemma settled_statuses:
  assumes "current_step_index p < length (steps p)"
  shows "map status (steps (settled p)) = (if status (steps p ! current_step_index p) = Running
     then (map status (steps p))[current_step_index p := Done] else map status (steps p))"
  using assms by (simp add: settled_def)

lemma create_plan_fields [simp]:
  "map status (steps (create_plan ds)) = replicate (length ds) Pending"
  "map description (steps (create_plan ds)) = ds" "length (steps (create_plan ds)) = length ds"
  "current_step_index (create_plan ds) = 0" "\<not> approved (create_plan ds)" "\<not> paused (create_plan ds)"
  "\<not> complete (create_plan ds)" "version (create_plan ds) = 0"
proof -
  show "map status (steps (create_plan ds)) = replicate (length ds) Pending"
    by (rule nth_equalityI) (simp_all add: create_plan_def nth_enumerate_eq split_beta)
  show "map description (steps (create_plan ds)) = ds"
    by (rule nth_equalityI) (simp_all add: create_plan_def nth_enumerate_eq split_beta)
qed (simp_all add: create_plan_def)

end
