(* ===== verification/PlanCommands.thy ===== *)
theory PlanCommands
  imports PlanState
begin

text \<open>
  The plan workflow around the plan: the slash commands (\<open>slash_commands.rs\<close>, \<open>interactive.rs\<close>), the plan
  the model submits (\<open>plan_mode_respond.rs\<close>), the reaction of a turn to its tools' results, the injection of
  the plan into the history (\<open>agent_loop.rs\<close>) and the cached plan of the panel (\<open>tui/app.rs\<close>). The state is what
  these operations read and change. Styles, tracing and the placeholder text are left out; what is
  printed is kept as the list of its texts.
\<close>

section \<open>Commands\<close>

datatype plan_subcommand =
    Status | Edit nat ustr | Add nat ustr | Remove nat | Replace ustr
  | Approve | Pause | Resume | Abort | Complete | Fail

datatype cli_command =
    Act | Plan plan_subcommand | PlanPrompt ustr
  | PlanApprove | PlanPause | PlanResume | PlanAbort | PlanComplete | PlanFail

text \<open>\<open>splitn(2, char::is_whitespace)\<close>: the text before the first white space and the text after it\<close>

definition split_ws :: "ustr \<Rightarrow> ustr \<times> ustr" where
  "split_ws s = (takeWhile (\<lambda>c. \<not> is_ws c) s, drop 1 (dropWhile (\<lambda>c. \<not> is_ws c) s))"

text \<open>\<open>str::parse::<usize>\<close>: decimal digits after an optional plus sign, below \<open>2^64\<close>\<close>

definition digits_value :: "ustr \<Rightarrow> int" where
  "digits_value ds = foldl (\<lambda>n c. 10 * n + (c - 48)) 0 ds"

definition parse_usize :: "ustr \<Rightarrow> nat option" where
  "parse_usize s =
     (let ds = (case strip_prefix (str ''+'') s of Some r \<Rightarrow> r | None \<Rightarrow> s)
      in if ds = [] \<or> \<not> list_all is_ascii_digit ds \<or> usize_max < digits_value ds then None
         else Some (nat (digits_value ds)))"

definition usize_or_0 :: "ustr \<Rightarrow> nat" where
  "usize_or_0 s = (case parse_usize s of Some n \<Rightarrow> n | None \<Rightarrow> 0)"

definition parse_plan_subcommand :: "ustr \<Rightarrow> plan_subcommand option" where
  "parse_plan_subcommand args0 =
     (let args = trim_start args0 in
      if args = [] then Some Status
      else
        let command = fst (split_ws args); remainder = trim_start (snd (split_ws args)) in
        if command = str ''status'' then Some Status
        else if command = str ''approve'' then Some Approve
        else if command = str ''pause'' then Some Pause
        else if command = str ''resume'' then Some Resume
        else if command = str ''abort'' then Some Abort
        else if command = str ''complete'' then Some Complete
        else if command = str ''fail'' then Some Fail
        else if command = str ''edit'' then
          Some (Edit (usize_or_0 (fst (split_ws remainder))) (trim_start (snd (split_ws remainder))))
        else if command = str ''add'' then
          Some (Add (usize_or_0 (fst (split_ws remainder))) (trim_start (snd (split_ws remainder))))
        else if command = str ''remove'' then Some (Remove (usize_or_0 (fst (split_ws remainder))))
        else if command = str ''replace'' then Some (Replace remainder)
        else None)"

fun routed :: "plan_subcommand \<Rightarrow> cli_command" where
  "routed Approve = PlanApprove"
| "routed Pause = PlanPause"
| "routed Resume = PlanResume"
| "routed Abort = PlanAbort"
| "routed Complete = PlanComplete"
| "routed Fail = PlanFail"
| "routed sub = Plan sub"

definition parse_plan_with_args :: "ustr \<Rightarrow> cli_command" where
  "parse_plan_with_args args =
     (let trimmed = trim args in
      case parse_plan_subcommand trimmed of
        Some sub \<Rightarrow> routed sub
      | None \<Rightarrow> if trimmed = [] then Plan Status else PlanPrompt trimmed)"

section \<open>State\<close>

datatype agent_mode = PlanMode | ActMode

record plan_session =
  plan :: "plan_state option"
  last_injected :: "64 word option"
  strict_plan_mode :: bool
  mistakes :: "32 word"
  mode :: agent_mode
  tool_profile :: "ustr option"
  cached_prompt :: "ustr option"
  history :: "ustr list"
  app_mode :: ustr
  app_busy :: bool
  agent_busy :: bool
  state_available :: bool
  shown :: "ustr list"
  prompts :: "ustr list"

definition say :: "ustr \<Rightarrow> plan_session \<Rightarrow> plan_session" where
  "say t s = s\<lparr>shown := shown s @ [t]\<rparr>"

definition set_mode :: "agent_mode \<Rightarrow> plan_session \<Rightarrow> plan_session" where
  "set_mode m s = (if mode s \<noteq> m then s\<lparr>mode := m, tool_profile := None, cached_prompt := None\<rparr> else s)"

text \<open>Starting the agent on a prompt; the spawned task itself is not part of the model.\<close>

definition spawn_agent_task :: "ustr \<Rightarrow> plan_session \<Rightarrow> plan_session" where
  "spawn_agent_task prompt s = s\<lparr>agent_busy := True, prompts := prompts s @ [prompt]\<rparr>"

section \<open>Editing commands\<close>

abbreviation running_unpaused :: "plan_state \<Rightarrow> bool" where
  "running_unpaused p \<equiv> approved p \<and> \<not> paused p"

definition invalid_step :: "plan_state \<Rightarrow> ustr" where
  "invalid_step p = str ''Invalid step number. Plan has '' @ show_nat (length (steps p)) @ str '' steps (1-''
     @ show_nat (length (steps p)) @ str '').''"

definition report :: "(plan_state \<Rightarrow> ustr) \<Rightarrow> ustr + plan_state \<Rightarrow> plan_state \<Rightarrow> plan_state \<times> ustr list" where
  "report ok r p = (case r of Inr q \<Rightarrow> (q, [ok q]) | Inl e \<Rightarrow> (p, [str ''Error: '' @ e]))"

definition plan_edit :: "nat \<Rightarrow> ustr \<Rightarrow> plan_state \<Rightarrow> plan_state \<times> ustr list" where
  "plan_edit n d p =
     (if running_unpaused p then (p, [str ''Cannot edit while plan is running. Use /plan pause first.''])
      else if n = 0 \<or> length (steps p) < n then (p, [invalid_step p])
      else if trim d = [] then (p, [str ''Step description cannot be empty.''])
      else report (\<lambda>_. str ''Step '' @ show_nat n @ str '' updated.'') (update_step (n - 1) (trim d) p) p)"

definition plan_add :: "nat \<Rightarrow> ustr \<Rightarrow> plan_state \<Rightarrow> plan_state \<times> ustr list" where
  "plan_add after d p =
     (if running_unpaused p then (p, [str ''Cannot add steps while plan is running. Use /plan pause first.''])
      else if trim d = [] then (p, [str ''Usage: /plan add <after_step> <description>''])
      else if after = 0 then
        report (\<lambda>q. str ''Step added at the beginning. ('' @ show_nat (length (steps q)) @ str '' steps total).'')
          (insert_step_at_beginning (trim d) p) p
      else
        report (\<lambda>q. str ''Step added after step '' @ show_nat after @ str ''. ('' @ show_nat (length (steps q))
            @ str '' steps total).'')
          (insert_step_after (after - 1) (trim d) p) p)"

definition plan_remove :: "nat \<Rightarrow> plan_state \<Rightarrow> plan_state \<times> ustr list" where
  "plan_remove n p =
     (if running_unpaused p then (p, [str ''Cannot remove steps while plan is running. Use /plan pause first.''])
      else if n = 0 \<or> length (steps p) < n then (p, [invalid_step p])
      else report (\<lambda>q. str ''Step '' @ show_nat n @ str '' removed. ('' @ show_nat (length (steps q))
            @ str '' steps remaining).'')
          (remove_step (n - 1) p) p)"

text \<open>The last component tells whether the hash of the injected plan is forgotten.\<close>

definition plan_replace :: "ustr \<Rightarrow> plan_state \<Rightarrow> plan_state \<times> ustr list \<times> bool" where
  "plan_replace t p =
     (if running_unpaused p \<and> \<not> complete p then
        (p, [str ''Cannot replace plan while plan is running. Use /plan pause first.''], False)
      else if trim t = [] then (p, [str ''Plan text cannot be empty.''], False)
      else (case parse_plan t of
              Some ds \<Rightarrow>
                if ds \<noteq> [] then
                  let q = replace_steps ds p
                  in (q, [str ''Plan replaced ('' @ show_nat (length (steps q)) @ str '' steps).''], True)
                else (p, [str ''Plan must have at least 1 step.''], False)
            | None \<Rightarrow> (p, [str ''Could not parse plan text. Use numbered format: 1. Step description''], False)))"

text \<open>The subcommands that are routed to commands of their own are \<open>unreachable!\<close> here.\<close>

definition plan_subcommand_effect :: "plan_subcommand \<Rightarrow> plan_state \<Rightarrow> (plan_state \<times> ustr list \<times> bool) option" where
  "plan_subcommand_effect sub p =
     (case sub of
        Status \<Rightarrow> Some (p, [status_summary p, format_display p], False)
      | Edit n d \<Rightarrow> (case plan_edit n d p of (q, ms) \<Rightarrow> Some (q, ms, False))
      | Add n d \<Rightarrow> (case plan_add n d p of (q, ms) \<Rightarrow> Some (q, ms, False))
      | Remove n \<Rightarrow> (case plan_remove n p of (q, ms) \<Rightarrow> Some (q, ms, False))
      | Replace t \<Rightarrow> Some (plan_replace t p)
      | _ \<Rightarrow> None)"

section \<open>Commands of the workflow\<close>

text \<open>The pending step an approval starts from\<close>

definition approval_start :: "plan_state \<Rightarrow> nat option" where
  "approval_start p =
     (if current_step_index p < length (steps p) \<and> status (steps p ! current_step_index p) = Pending
      then Some (current_step_index p)
      else position (\<lambda>s. status s = Pending) (steps p))"

definition step_of :: "nat \<Rightarrow> plan_state \<Rightarrow> ustr" where
  "step_of i p = show_nat (one_based i) @ str ''/'' @ show_nat (length (steps p))"

definition with_plan :: "plan_state \<Rightarrow> plan_session \<Rightarrow> plan_session" where
  "with_plan p s = s\<lparr>plan := Some p\<rparr>"

definition plan_approve :: "plan_state \<Rightarrow> plan_session \<Rightarrow> plan_session" where
  "plan_approve p s =
     (if approved p then say (str ''Plan is already approved and running.'') s
      else if steps p = [] then say (str ''Cannot approve an empty plan.'') s
      else (case approval_start p of
              None \<Rightarrow>
                if is_complete p then say (str ''All steps are complete.'') (with_plan (mark_complete p) s)
                else if list_all (\<lambda>t. status t = Failed) (steps p) then
                  say (str ''No pending step to approve. All steps failed.'') s
                else if list_ex (\<lambda>t. status t = Failed) (steps p) then
                  say (str ''No pending step to approve. Plan contains failed steps.'') s
                else say (str ''No pending step to approve.'') s
            | Some i \<Rightarrow>
                let where_is = step_of i p; desc = description (steps p ! i) in
                (case approve_at i p of
                   Inl e \<Rightarrow> say (str ''Cannot approve plan: '' @ e) s
                 | Inr q \<Rightarrow>
                     let s1 = set_mode ActMode ((with_plan q s)\<lparr>strict_plan_mode := False\<rparr>);
                         s2 = say (str ''Plan approved. Starting from step '' @ where_is @ str '': '' @ desc)
                                (s1\<lparr>app_mode := str ''ACT''\<rparr>);
                         s3 = spawn_agent_task (str ''Execute step '' @ where_is @ str '': '' @ desc) s2
                     in s3\<lparr>app_busy := True\<rparr>)))"

definition plan_pause :: "plan_state \<Rightarrow> plan_session \<Rightarrow> plan_session" where
  "plan_pause p s =
     (if approved p \<and> current_step_index p < length (steps p) then
        say (str ''Plan paused. Use /plan resume to continue.'') (with_plan (set_paused True p) s)
      else say (str ''No active plan to pause.'') s)"

text \<open>\<open>mark_step(..).ok()\<close> ignores an error.\<close>

definition mark_step_ok :: "nat \<Rightarrow> plan_step_status \<Rightarrow> plan_state \<Rightarrow> plan_state" where
  "mark_step_ok i st p = (case mark_step i st p of Inr q \<Rightarrow> q | Inl _ \<Rightarrow> p)"

definition plan_resume :: "plan_state \<Rightarrow> plan_session \<Rightarrow> plan_session" where
  "plan_resume p s =
     (if \<not> approved p then say (str ''Plan is not yet approved. Use /plan approve first.'') s
      else if \<not> paused p then say (str ''Plan is not paused.'') s
      else if complete p then say (str ''Plan is already complete.'') s
      else (case current_step p of
              None \<Rightarrow> say (str ''Cannot resume plan: current step '' @ show_nat (one_based (current_step_index p))
                  @ str '' is out of range (1-'' @ show_nat (length (steps p)) @ str '').'') s
            | Some cur \<Rightarrow>
                let where_is = step_of (current_step_index p) p;
                    q = set_paused False p;
                    q' = (if status cur = Failed then mark_step_ok (current_step_index q) Running q else q);
                    s1 = say (str ''Plan resumed at step '' @ where_is @ str '': '' @ description cur) (with_plan q' s)
                in if \<not> agent_busy s1 then
                     (spawn_agent_task (str ''Execute step '' @ where_is @ str '': '' @ description cur) s1)
                       \<lparr>app_busy := True\<rparr>
                   else s1))"

definition plan_complete :: "plan_state \<Rightarrow> plan_session \<Rightarrow> plan_session" where
  "plan_complete p s =
     (if complete p then say (str ''Plan is already complete.'') s
      else if length (steps p) \<le> current_step_index p then say (str ''No active step to mark complete.'') s
      else
        let (q, nxt) = advance (mark_step_ok (current_step_index p) Done p)
        in if nxt = None \<and> is_complete q then
             say (str ''All steps marked complete. Plan finished.'') (with_plan (mark_complete q) s)
           else say (str ''Step '' @ show_nat (one_based (current_step_index q)) @ str '' marked complete.'')
                  (with_plan q s))"

definition plan_fail :: "plan_state \<Rightarrow> plan_session \<Rightarrow> plan_session" where
  "plan_fail p s =
     (if complete p then say (str ''Plan is already complete.'') s
      else if length (steps p) \<le> current_step_index p then say (str ''No active step to mark as failed.'') s
      else
        let q = set_paused True (mark_step_ok (current_step_index p) Failed p)
        in say (str ''Step '' @ step_of (current_step_index q) q
             @ str '' marked as failed. Execution paused. Use /plan resume to retry.'') (with_plan q s))"

text \<open>\<open>/act\<close> and \<open>/plan abort\<close>\<close>

definition leave_plan :: "bool \<Rightarrow> plan_session \<Rightarrow> plan_session" where
  "leave_plan act s =
     (let paused_plan = (agent_busy s \<and> state_available s
          \<and> (case plan s of Some p \<Rightarrow> approved p \<and> paused p | None \<Rightarrow> False))
      in if agent_busy s \<and> \<not> paused_plan then
           say (str ''Agent is busy. Cancel it before aborting the plan.'') s
         else if \<not> state_available s then say (str ''Plan state is unavailable. Try again.'') s
         else
           let had_plan = (plan s \<noteq> None);
               s1 = set_mode ActMode (s\<lparr>plan := None, last_injected := None, strict_plan_mode := True\<rparr>)
           in say (if act then (if had_plan then str ''Act mode enabled. Pending plan discarded.''
                                else str ''Act mode enabled.'')
                   else if had_plan then str ''Plan aborted. Already-applied changes are kept.''
                   else str ''Exited plan mode. Ready for act mode.'')
                (s1\<lparr>app_mode := str ''ACT''\<rparr>))"

fun changes_plan :: "cli_command \<Rightarrow> bool" where
  "changes_plan (Plan (Edit _ _)) = True"
| "changes_plan (Plan (Add _ _)) = True"
| "changes_plan (Plan (Remove _)) = True"
| "changes_plan (Plan (Replace _)) = True"
| "changes_plan PlanComplete = True"
| "changes_plan _ = False"

text \<open>The handler of the plan commands; \<open>None\<close> is a panic at an \<open>unreachable!\<close>.\<close>

definition with_plan_command :: "cli_command \<Rightarrow> plan_state \<Rightarrow> plan_session \<Rightarrow> plan_session option" where
  "with_plan_command cmd p s =
     (case cmd of
        Plan sub \<Rightarrow>
          map_option (\<lambda>(q, ms, forget).
              let s1 = with_plan q s; s2 = (if forget then s1\<lparr>last_injected := None\<rparr> else s1)
              in fold say ms s2)
            (plan_subcommand_effect sub p)
      | PlanApprove \<Rightarrow> Some (plan_approve p s)
      | PlanPause \<Rightarrow> Some (plan_pause p s)
      | PlanResume \<Rightarrow> Some (plan_resume p s)
      | PlanComplete \<Rightarrow> Some (plan_complete p s)
      | PlanFail \<Rightarrow> Some (plan_fail p s)
      | _ \<Rightarrow> None)"

definition handle_plan_command :: "cli_command \<Rightarrow> plan_session \<Rightarrow> plan_session option" where
  "handle_plan_command cmd s =
     (case cmd of
        PlanPrompt _ \<Rightarrow> Some (say (str ''Plan prompt should be handled by the main loop.'') s)
      | Act \<Rightarrow> Some (leave_plan True s)
      | PlanAbort \<Rightarrow> Some (leave_plan False s)
      | _ \<Rightarrow>
        if cmd = PlanApprove \<and> agent_busy s then
          Some (say (str ''Agent is busy. Wait for it to finish before approving the plan.'') s)
        else if agent_busy s \<and> changes_plan cmd then
          Some (say (str ''Agent is busy. Wait for it to finish or cancel it before changing the plan.'') s)
        else if \<not> state_available s then Some (say (str ''Plan state is unavailable. Try again.'') s)
        else (case plan s of
                Some p \<Rightarrow> with_plan_command cmd p s
              | None \<Rightarrow>
                  if app_mode s = str ''PLAN'' then
                    Some (say (str ''No active plan. You are still in PLAN mode; use /act or /plan abort to leave it.'') s)
                  else Some (say (str ''No active plan.'') s)))"

section \<open>The model's plan and the turns of the agent\<close>

text \<open>\<open>plan_mode_respond\<close> after its parameters have been read: \<open>json\<close> is the output mode. The result is the
  text for the model or an \<open>InvalidInput\<close> error.\<close>

definition plan_mode_respond :: "bool \<Rightarrow> ustr option \<Rightarrow> bool \<Rightarrow> plan_session \<Rightarrow> plan_session \<times> (ustr + ustr)" where
  "plan_mode_respond json response needs_more s =
     (case response of
        None \<Rightarrow> (s, Inl (str ''Missing required parameter: response''))
      | Some r \<Rightarrow>
          let s1 = s\<lparr>mistakes := 0\<rparr> in
          if needs_more then
            (if json then s1 else say r s1,
             Inr (str ''[You have indicated that you need more exploration. Proceed with calling tools to continue the planning process.]''))
          else (case parse_plan r of
                  None \<Rightarrow> (s1, Inl (str ''Could not parse plan into numbered steps. Use format: 1. Step description. If you need more exploration, set needs_more_exploration=true.''))
                | Some ds \<Rightarrow>
                    let s2 = s1\<lparr>plan := Some (create_plan ds), last_injected := None\<rparr>
                    in (if json then s2 else say ([nl, 128203] @ str '' Plan Generated'' @ [nl] @ r @ [nl]) s2,
                        Inr (str ''<user_message>'' @ [nl] @ r @ [nl] @ str ''</user_message>''))))"

text \<open>What a turn does once the results of its tools are in the history: \<open>failures\<close> counts the failed calls,
  \<open>limit\<close> is \<open>max_consecutive_mistakes\<close>. The result is the early return of the turn, if any.\<close>

datatype turn_result = Continue | Error ustr

definition fail_plan_step :: "bool \<Rightarrow> plan_session \<Rightarrow> plan_session \<times> ustr option" where
  "fail_plan_step json s =
     (case plan s of
        Some p \<Rightarrow>
          if approved p \<and> \<not> complete p \<and> current_step_index p < length (steps p)
             \<and> status (steps p ! current_step_index p) \<noteq> Failed then
            let q = set_paused True (mark_step_ok (current_step_index p) Failed p)
            in (with_plan q s,
                if json then None
                else Some (str ''Plan step '' @ step_of (current_step_index q) q
                  @ str '' failed. Use /plan resume to retry or /plan abort to cancel.''))
          else (s, None)
      | None \<Rightarrow> (s, None))"

definition advance_plan_step :: "bool \<Rightarrow> plan_session \<Rightarrow> plan_session" where
  "advance_plan_step json s =
     (case plan s of
        Some p \<Rightarrow>
          if approved p \<and> \<not> complete p then
            let q = fst (advance p); s1 = with_plan q s in
            if complete q then
              set_mode ActMode
                (if json then s1 else say ([10003] @ str '' Plan complete. All steps executed successfully.'') s1)
            else s1
          else s
      | None \<Rightarrow> s)"

definition after_tools :: "bool \<Rightarrow> 32 word option \<Rightarrow> bool \<Rightarrow> nat \<Rightarrow> plan_session \<Rightarrow> plan_session \<times> turn_result option" where
  "after_tools json limit tools_called failures s =
     (if \<not> tools_called then (s\<lparr>mistakes := 0\<rparr>, None)
      else if 0 < failures then
        (let (s1, msg) = fail_plan_step json (s\<lparr>mistakes := mistakes s + 1\<rparr>) in
         case msg of
           Some m \<Rightarrow> (say m s1, Some Continue)
         | None \<Rightarrow>
             (case limit of
                Some l \<Rightarrow>
                  if l \<le> mistakes s1 then
                    (s1, Some (Error (str ''Max consecutive mistakes ('' @ show_nat (unat l)
                        @ str '') reached. The model is repeatedly failing.'')))
                  else (s1, None)
              | None \<Rightarrow> (s1, None)))
      else (advance_plan_step json (s\<lparr>mistakes := 0\<rparr>), None))"

definition plan_execution_active :: "plan_session \<Rightarrow> bool" where
  "plan_execution_active s \<longleftrightarrow>
     (case plan s of Some p \<Rightarrow> approved p \<and> \<not> complete p \<and> \<not> paused p | None \<Rightarrow> False)"

definition plan_blocks_completion :: "plan_session \<Rightarrow> bool" where
  "plan_blocks_completion s \<longleftrightarrow>
     (case plan s of Some p \<Rightarrow> approved p \<and> \<not> complete p \<and> (paused p \<or> has_failed p) | None \<Rightarrow> False)"

text \<open>\<open>hash\<close> is the standard library's \<open>DefaultHasher\<close> on the rendered plan.\<close>

definition inject_plan_state :: "(ustr \<Rightarrow> 64 word) \<Rightarrow> plan_session \<Rightarrow> plan_session" where
  "inject_plan_state hash s =
     (case plan s of
        None \<Rightarrow> s\<lparr>last_injected := None\<rparr>
      | Some p \<Rightarrow>
          let text = format_state p; h = hash text in
          if last_injected s \<noteq> Some h then s\<lparr>history := history s @ [text], last_injected := Some h\<rparr> else s)"

section \<open>The cached plan of the panel\<close>

text \<open>The cache remembers the address and the version of the plan it copied.\<close>

record plan_cache =
  cached_plan :: "plan_state option"
  cache_ptr :: "nat option"
  cache_version :: "64 word"

definition sync_plan_state_cache :: "(nat \<times> plan_state) option \<Rightarrow> plan_cache \<Rightarrow> plan_cache \<times> bool" where
  "sync_plan_state_cache pl c =
     (case pl of
        Some (ptr, p) \<Rightarrow>
          if cache_ptr c = Some ptr \<and> cache_version c = version p \<and> cached_plan c \<noteq> None then (c, False)
          else (\<lparr>cached_plan = Some p, cache_ptr = Some ptr, cache_version = version p\<rparr>, True)
      | None \<Rightarrow>
          if cached_plan c \<noteq> None then (\<lparr>cached_plan = None, cache_ptr = None, cache_version = 0\<rparr>, True)
          else (c, False))"
section \<open>What the handlers do to the plan\<close>

text \<open>
  The changes of a plan by the operations under the conditions the handlers check. With \<open>strict\<close> only an
  approved plan is advanced; every handler but \<open>/plan complete\<close> keeps to that.
\<close>

inductive plan_moves :: "bool \<Rightarrow> plan_state \<Rightarrow> plan_state \<Rightarrow> bool" for strict where
  moves_refl: "plan_moves strict p p"
| moves_paused: "plan_moves strict p q \<Longrightarrow> plan_moves strict p (set_paused b q)"
| moves_complete: "plan_moves strict p q \<Longrightarrow> plan_moves strict p (mark_complete q)"
| moves_replace: "plan_moves strict p q \<Longrightarrow> plan_moves strict p (replace_steps ds q)"
| moves_update: "plan_moves strict p q \<Longrightarrow> update_step i d q = Inr r \<Longrightarrow> plan_moves strict p r"
| moves_insert: "plan_moves strict p q \<Longrightarrow> insert_step_after i d q = Inr r \<Longrightarrow> plan_moves strict p r"
| moves_begin: "plan_moves strict p q \<Longrightarrow> insert_step_at_beginning d q = Inr r \<Longrightarrow> plan_moves strict p r"
| moves_remove: "plan_moves strict p q \<Longrightarrow> remove_step i q = Inr r \<Longrightarrow> plan_moves strict p r"
| moves_approve: "plan_moves strict p q \<Longrightarrow> \<not> approved q \<Longrightarrow> approve_at i q = Inr r \<Longrightarrow> plan_moves strict p r"
| moves_mark: "plan_moves strict p q \<Longrightarrow> (st = Running \<Longrightarrow> i = current_step_index q \<and> approved q)
    \<Longrightarrow> mark_step i st q = Inr r \<Longrightarrow> plan_moves strict p r"
| moves_advance: "plan_moves strict p q \<Longrightarrow> (strict \<Longrightarrow> approved q) \<Longrightarrow> plan_moves strict p (fst (advance q))"

declare moves_refl [simp, intro]

lemma plan_moves_inv: "plan_moves strict p q \<Longrightarrow> plan_inv strict p \<Longrightarrow> plan_inv strict q"
  by (induction rule: plan_moves.induct)
     (auto intro: update_step_inv insert_step_after_inv insert_at_beginning_inv remove_step_inv
        approve_at_inv mark_step_inv advance_inv)

lemma plan_moves_tracked: "plan_moves b p q \<Longrightarrow> tracked p q"
  by (induction rule: plan_moves.induct) (auto intro: tracked_trans tracked_operations tracked_advance)

lemma moves_mark_ok:
  assumes "plan_moves b p q" and "st = Running \<Longrightarrow> i = current_step_index q \<and> approved q"
  shows "plan_moves b p (mark_step_ok i st q)"
proof (cases "mark_step i st q")
  case (Inr r)
  then show ?thesis using moves_mark[OF assms Inr] by (simp add: mark_step_ok_def)
qed (use assms(1) in \<open>simp add: mark_step_ok_def\<close>)

subsection \<open>Frames\<close>

lemma say_plan [simp]: "plan (say t s) = plan s"
  by (simp add: say_def)

lemma fold_say_plan [simp]: "plan (fold say ms s) = plan s"
  by (induction ms arbitrary: s) simp_all

lemma set_mode_plan [simp]: "plan (set_mode m s) = plan s"
  by (simp add: set_mode_def)

lemma spawn_plan [simp]: "plan (spawn_agent_task t s) = plan s"
  by (simp add: spawn_agent_task_def)

lemma with_plan_plan [simp]: "plan (with_plan p s) = Some p"
  by (simp add: with_plan_def)

subsection \<open>Every handler moves the plan\<close>

definition moved :: "bool \<Rightarrow> plan_state \<Rightarrow> plan_session \<Rightarrow> bool" where
  "moved strict p s \<longleftrightarrow> (\<exists>q. plan s = Some q \<and> plan_moves strict p q)"

lemma movedI: "plan s = Some q \<Longrightarrow> plan_moves b p q \<Longrightarrow> moved b p s"
  by (auto simp: moved_def)

lemma report_moves: "(\<And>q. r = Inr q \<Longrightarrow> plan_moves b p q) \<Longrightarrow> plan_moves b p (fst (report ok r p))"
  by (cases r) (simp_all add: report_def)

lemma plan_edit_moves: "plan_moves b p (fst (plan_edit n d p))"
  using moves_update[OF moves_refl] by (auto simp: plan_edit_def intro!: report_moves)

lemma plan_add_moves: "plan_moves b p (fst (plan_add n d p))"
  using moves_insert[OF moves_refl] moves_begin[OF moves_refl] by (auto simp: plan_add_def intro!: report_moves)

lemma plan_remove_moves: "plan_moves b p (fst (plan_remove n p))"
  using moves_remove[OF moves_refl] by (auto simp: plan_remove_def intro!: report_moves)

lemma plan_replace_moves: "plan_moves b p (fst (plan_replace t p))"
  using moves_replace[OF moves_refl] by (auto simp: plan_replace_def Let_def split: option.splits)

lemma plan_subcommand_moves:
  "plan_subcommand_effect sub p = Some (q, ms, f) \<Longrightarrow> plan_moves b p q"
  using plan_edit_moves[of b p] plan_add_moves[of b p] plan_remove_moves[of b p] plan_replace_moves[of b p]
  by (auto simp: plan_subcommand_effect_def split: plan_subcommand.splits prod.splits) (metis fst_conv)+

lemma plan_approve_moves: "plan s = Some p \<Longrightarrow> moved b p (plan_approve p s)"
proof -
  assume s: "plan s = Some p"
  have ap: "plan_moves b p q" if "approve_at i p = Inr q" "\<not> approved p" for i q
    using moves_approve[OF moves_refl that(2,1)] .
  have mc: "plan_moves b p (mark_complete p)"
    by (rule moves_complete) simp
  show ?thesis
    using s ap mc
    by (auto simp: plan_approve_def moved_def Let_def split: option.splits sum.splits)
qed

lemma plan_pause_moves: "plan s = Some p \<Longrightarrow> moved b p (plan_pause p s)"
  using moves_paused[OF moves_refl] by (auto simp: plan_pause_def moved_def)

lemma plan_resume_moves: "plan s = Some p \<Longrightarrow> moved b p (plan_resume p s)"
proof -
  assume s: "plan s = Some p"
  have sp: "plan_moves b p (set_paused False p)"
    by (rule moves_paused) simp
  have mk: "plan_moves b p (mark_step_ok (current_step_index p) Running (set_paused False p))" if "approved p"
    by (rule moves_mark_ok[OF sp]) (use that in \<open>simp add: set_paused_def\<close>)
  have cur: "current_step_index (set_paused False p) = current_step_index p"
    by (simp add: set_paused_def)
  show ?thesis
    using s sp mk unfolding plan_resume_def Let_def cur
    by (auto simp: moved_def split: option.splits)
qed

lemma plan_complete_moves:
  assumes s: "plan s = Some p" and b: "b \<Longrightarrow> approved p"
  shows "moved b p (plan_complete p s)"
proof -
  have m1: "plan_moves b p (mark_step_ok (current_step_index p) Done p)"
    by (rule moves_mark_ok) simp_all
  have ap: "approved (mark_step_ok (current_step_index p) Done p) = approved p"
    by (auto simp: mark_step_ok_def mark_step_def)
  obtain q nxt where adv: "advance (mark_step_ok (current_step_index p) Done p) = (q, nxt)"
    by fastforce
  have m2: "plan_moves b p q"
    using moves_advance[OF m1] ap b adv by (metis fst_conv)
  show ?thesis
    using s m2 moves_complete[OF m2] by (auto simp: plan_complete_def adv moved_def)
qed

lemma plan_fail_moves: "plan s = Some p \<Longrightarrow> moved b p (plan_fail p s)"
proof -
  assume s: "plan s = Some p"
  have "plan_moves b p (set_paused True (mark_step_ok (current_step_index p) Failed p))"
    by (rule moves_paused, rule moves_mark_ok) simp_all
  then show ?thesis
    using s by (auto simp: plan_fail_def moved_def Let_def)
qed
subsection \<open>Events\<close>

text \<open>
  What happens to the state of a session: a command typed after \<open>/plan\<close>, \<open>/act\<close>, the results of a turn, the
  injection before a turn, the end of a run, and a plan submitted by the model.
\<close>

datatype plan_event =
    Typed ustr | ActCommand
  | Turn bool "32 word option" bool nat
  | Inject | AgentIdle
  | Respond bool "ustr option" bool

fun plan_event_step :: "(ustr \<Rightarrow> 64 word) \<Rightarrow> plan_event \<Rightarrow> plan_session \<Rightarrow> plan_session option" where
  "plan_event_step hash (Typed t) s = handle_plan_command (parse_plan_with_args t) s"
| "plan_event_step hash ActCommand s = handle_plan_command Act s"
| "plan_event_step hash (Turn json limit called failures) s = Some (fst (after_tools json limit called failures s))"
| "plan_event_step hash Inject s = Some (inject_plan_state hash s)"
| "plan_event_step hash AgentIdle s = Some (s\<lparr>agent_busy := False, app_busy := False\<rparr>)"
| "plan_event_step hash (Respond json r nm) s = Some (fst (plan_mode_respond json r nm s))"

fun run_events :: "(ustr \<Rightarrow> 64 word) \<Rightarrow> plan_event list \<Rightarrow> plan_session \<Rightarrow> plan_session option" where
  "run_events hash [] s = Some s"
| "run_events hash (e # es) s = (case plan_event_step hash e s of None \<Rightarrow> None | Some s' \<Rightarrow> run_events hash es s')"

text \<open>\<open>/plan complete\<close> is the one command that starts a step of a plan nobody approved.\<close>

fun awaits_approval :: "plan_event \<Rightarrow> plan_session \<Rightarrow> bool" where
  "awaits_approval (Typed t) s \<longleftrightarrow> parse_plan_with_args t = PlanComplete
     \<and> (case plan s of Some p \<Rightarrow> \<not> approved p | None \<Rightarrow> False)"
| "awaits_approval _ s \<longleftrightarrow> False"

text \<open>After an event the plan is gone, or as before up to moves, or new.\<close>

definition plan_after :: "bool \<Rightarrow> plan_session \<Rightarrow> plan_session \<Rightarrow> bool" where
  "plan_after strict s s' \<longleftrightarrow>
     (case plan s' of None \<Rightarrow> True | Some q \<Rightarrow> \<exists>p. plan s = Some p \<and> plan_moves strict p q)"

lemma plan_after_same: "plan s' = plan s \<Longrightarrow> plan_after b s s'"
  by (auto simp: plan_after_def split: option.splits)

lemma plan_after_moved: "plan s = Some p \<Longrightarrow> moved b p s' \<Longrightarrow> plan_after b s s'"
  by (auto simp: plan_after_def moved_def)

lemma with_plan_command_after:
  assumes s: "plan s = Some p" and c: "with_plan_command cmd p s = Some s'"
    and b: "b \<Longrightarrow> cmd = PlanComplete \<Longrightarrow> approved p"
  shows "plan_after b s s'"
proof (rule plan_after_moved[OF s], cases cmd)
  case (Plan sub)
  obtain q ms f where e: "plan_subcommand_effect sub p = Some (q, ms, f)" and q: "plan s' = Some q"
    using c Plan by (auto simp: with_plan_command_def Let_def)
  show "moved b p s'" using q plan_subcommand_moves[OF e] by (rule movedI)
qed (use c b plan_approve_moves[OF s, of b] plan_pause_moves[OF s, of b] plan_resume_moves[OF s, of b]
      plan_complete_moves[OF s, of b] plan_fail_moves[OF s, of b] in \<open>auto simp: with_plan_command_def\<close>)

lemma leave_plan_after: "plan_after b s (leave_plan a s)"
  by (auto simp: leave_plan_def Let_def plan_after_def split: option.splits)

lemma handle_plan_command_after:
  assumes h: "handle_plan_command cmd s = Some s'"
    and b: "b \<Longrightarrow> cmd = PlanComplete \<Longrightarrow> (case plan s of Some p \<Rightarrow> approved p | None \<Rightarrow> True)"
  shows "plan_after b s s'"
proof -
  have main: "plan_after b s s'"
    if "(if cmd = PlanApprove \<and> agent_busy s then
          Some (say (str ''Agent is busy. Wait for it to finish before approving the plan.'') s)
        else if agent_busy s \<and> changes_plan cmd then
          Some (say (str ''Agent is busy. Wait for it to finish or cancel it before changing the plan.'') s)
        else if \<not> state_available s then Some (say (str ''Plan state is unavailable. Try again.'') s)
        else (case plan s of
                Some p \<Rightarrow> with_plan_command cmd p s
              | None \<Rightarrow>
                  if app_mode s = str ''PLAN'' then
                    Some (say (str ''No active plan. You are still in PLAN mode; use /act or /plan abort to leave it.'') s)
                  else Some (say (str ''No active plan.'') s))) = Some s'"
  proof (cases "plan s")
    case None
    then show ?thesis using that by (auto intro!: plan_after_same split: if_splits)
  next
    case (Some p)
    then show ?thesis
      using that b with_plan_command_after[OF Some, of cmd s' b] by (auto intro!: plan_after_same split: if_splits)
  qed
  show ?thesis
  proof (cases "cmd = Act \<or> cmd = PlanAbort \<or> (\<exists>t. cmd = PlanPrompt t)")
    case True
    have "plan_after b s (say t s)" for t
      by (rule plan_after_same) simp
    with True show ?thesis using h leave_plan_after[of b s] by (auto simp: handle_plan_command_def)
  next
    case False
    then show ?thesis using h main by (auto simp: handle_plan_command_def split: cli_command.splits)
  qed
qed

lemma fail_plan_step_after: "plan_after b s (fst (fail_plan_step json s))"
proof (cases "plan s")
  case (Some p)
  have "plan_moves b p (set_paused True (mark_step_ok (current_step_index p) Failed p))"
    by (rule moves_paused, rule moves_mark_ok) simp_all
  then show ?thesis
    using Some by (auto simp: fail_plan_step_def Let_def plan_after_def)
qed (simp add: fail_plan_step_def plan_after_same)

lemma advance_plan_step_after: "plan_after b s (advance_plan_step json s)"
proof (cases "plan s")
  case (Some p)
  have "plan_moves b p (fst (advance p))" if "approved p"
    by (rule moves_advance) (use that in simp_all)
  then show ?thesis
    using Some by (auto simp: advance_plan_step_def Let_def plan_after_def)
qed (simp add: advance_plan_step_def plan_after_same)

lemma plan_after_update: "plan s0 = plan s \<Longrightarrow> plan_after b s0 s' \<Longrightarrow> plan_after b s s'"
  by (cases "plan s'") (simp_all add: plan_after_def)

lemma after_tools_after: "plan_after b s (fst (after_tools json limit called failures s))"
proof -
  have f: "plan_after b s (fst (fail_plan_step json (s\<lparr>mistakes := m\<rparr>)))" for m
    by (rule plan_after_update[OF _ fail_plan_step_after]) simp
  have a: "plan_after b s (advance_plan_step json (s\<lparr>mistakes := m\<rparr>))" for m
    by (rule plan_after_update[OF _ advance_plan_step_after]) simp
  have sy: "plan_after b s (say t s')" if "plan_after b s s'" for t s'
    using that by (simp add: plan_after_def)
  show ?thesis
  proof (cases "fail_plan_step json (s\<lparr>mistakes := mistakes s + 1\<rparr>)")
    case (Pair s1 msg)
    then show ?thesis
      using f[of "mistakes s + 1"] a[of 0] sy
      by (auto simp: after_tools_def intro!: plan_after_same split: option.splits)
  qed
qed

lemma inject_plan [simp]: "plan (inject_plan_state hash s) = plan s"
  by (auto simp: inject_plan_state_def Let_def split: option.splits)

lemma plan_event_after:
  assumes "plan_event_step hash e s = Some s'" and "b \<Longrightarrow> \<not> awaits_approval e s"
    and "\<And>json r nm. e \<noteq> Respond json r nm"
  shows "plan_after b s s'"
proof (cases e)
  case (Typed t)
  then show ?thesis
    using assms(1,2) by (auto intro!: handle_plan_command_after split: option.splits)
next
  case ActCommand
  then show ?thesis using assms(1) by (auto intro!: handle_plan_command_after)
next
  case (Turn json limit called failures)
  then show ?thesis using assms(1) after_tools_after by auto
qed (use assms(1,3) in \<open>auto intro!: plan_after_same\<close>)
section \<open>Reachable plans\<close>

text \<open>The sessions reached from one without a plan by any events; the flag says that no step was started by a \<open>/plan complete\<close>
  before the approval of its plan.\<close>

inductive plan_reachable :: "(ustr \<Rightarrow> 64 word) \<Rightarrow> bool \<Rightarrow> plan_session \<Rightarrow> bool" for hash where
  no_plan: "plan s = None \<Longrightarrow> plan_reachable hash True s"
| plan_event: "plan_reachable hash clean s \<Longrightarrow> plan_event_step hash e s = Some s'
    \<Longrightarrow> plan_reachable hash (clean \<and> \<not> awaits_approval e s) s'"

definition session_inv :: "bool \<Rightarrow> plan_session \<Rightarrow> bool" where
  "session_inv one s \<longleftrightarrow> (case plan s of None \<Rightarrow> True | Some p \<Rightarrow> plan_inv one p)"

lemma session_inv_mono: "session_inv one s \<Longrightarrow> (one' \<Longrightarrow> one) \<Longrightarrow> session_inv one' s"
  by (auto simp: session_inv_def plan_inv_def split: option.splits)

lemma plan_after_inv: "plan_after one s s' \<Longrightarrow> session_inv one s \<Longrightarrow> session_inv one s'"
  using plan_moves_inv by (auto simp: plan_after_def session_inv_def split: option.splits)

lemma respond_inv: "session_inv one s \<Longrightarrow> session_inv one (fst (plan_mode_respond json r nm s))"
  by (auto simp: plan_mode_respond_def session_inv_def Let_def split: option.splits)

lemma plan_reachable_inv: "plan_reachable hash clean s \<Longrightarrow> session_inv clean s"
proof (induction rule: plan_reachable.induct)
  case (no_plan s)
  then show ?case by (simp add: session_inv_def)
next
  case (plan_event clean s e s')
  let ?one = "clean \<and> \<not> awaits_approval e s"
  have inv: "session_inv ?one s" using session_inv_mono[OF plan_event.IH, of ?one] by blast
  show ?case
  proof (cases "\<exists>json r nm. e = Respond json r nm")
    case True
    then show ?thesis using inv plan_event.hyps(2) respond_inv by auto
  next
    case False
    then have "plan_after ?one s s'" by (intro plan_event_after[OF plan_event.hyps(2)]) auto
    then show ?thesis using inv by (rule plan_after_inv)
  qed
qed

subsection \<open>Typed commands do not panic\<close>

lemma typed_not_unreachable:
  "with_plan_command (parse_plan_with_args t) p s \<noteq> None
   \<or> parse_plan_with_args t \<in> {Act, PlanAbort} \<or> (\<exists>u. parse_plan_with_args t = PlanPrompt u)"
proof (cases "parse_plan_subcommand (trim t)")
  case None
  then show ?thesis
    by (auto simp: parse_plan_with_args_def with_plan_command_def plan_subcommand_effect_def Let_def)
next
  case (Some sub)
  then show ?thesis
    by (cases sub)
       (auto simp: parse_plan_with_args_def with_plan_command_def plan_subcommand_effect_def Let_def split: prod.splits)
qed

lemma handled_unless_unreachable:
  assumes "\<And>p. plan s = Some p \<Longrightarrow> with_plan_command cmd p s \<noteq> None \<or> cmd \<in> {Act, PlanAbort} \<or> (\<exists>u. cmd = PlanPrompt u)"
  shows "handle_plan_command cmd s \<noteq> None"
proof (cases "plan s")
  case None
  then show ?thesis by (simp add: handle_plan_command_def split: cli_command.splits)
next
  case (Some p)
  then show ?thesis
    using assms[OF Some] by (auto simp: handle_plan_command_def split: cli_command.splits)
qed

lemma event_not_None: "plan_event_step hash e s \<noteq> None"
proof (cases e)
  case (Typed t)
  then show ?thesis
    using handled_unless_unreachable[OF typed_not_unreachable] by (auto simp del: not_None_eq)
next
  case ActCommand
  have "handle_plan_command Act s \<noteq> None" by (simp add: handle_plan_command_def)
  then show ?thesis using ActCommand by (simp del: not_None_eq)
qed simp_all

lemma run_events_not_None: "run_events hash es s \<noteq> None"
proof (induction es arbitrary: s)
  case (Cons e es)
  obtain s' where "plan_event_step hash e s = Some s'" using event_not_None[of hash e s] by auto
  then show ?case using Cons.IH[of s'] by (simp del: not_None_eq)
qed simp

subsection \<open>The panel\<close>

fun is_respond :: "plan_event \<Rightarrow> bool" where
  "is_respond (Respond _ _ _) = True"
| "is_respond _ = False"

lemma plan_after_None: "plan_after b s s' \<Longrightarrow> plan s = None \<Longrightarrow> plan s' = None"
  by (auto simp: plan_after_def split: option.splits)

lemma run_events_tracked:
  "run_events hash es s = Some s' \<Longrightarrow> \<not> list_ex is_respond es \<Longrightarrow> plan s' = Some q
     \<Longrightarrow> \<exists>p. plan s = Some p \<and> tracked p q"
proof (induction es arbitrary: s)
  case (Cons e es)
  obtain s1 where e: "plan_event_step hash e s = Some s1" and r: "run_events hash es s1 = Some s'"
    using Cons.prems(1) by (auto split: option.splits)
  obtain p1 where p1: "plan s1 = Some p1" "tracked p1 q"
    using Cons.IH[OF r] Cons.prems by auto
  have "plan_after False s s1"
    by (rule plan_event_after[OF e]) (use Cons.prems(2) in auto)
  then obtain p where "plan s = Some p" "plan_moves False p p1"
    using p1(1) by (auto simp: plan_after_def)
  then show ?case using p1(2) plan_moves_tracked tracked_trans by blast
qed auto
section \<open>Execution\<close>

lemma next_pending_statuses:
  "next_pending n ss = map_option (\<lambda>i. n + i) (position (\<lambda>st. st = Pending) (drop n (map status ss)))"
  by (simp add: next_pending_def drop_map position_map)

text \<open>Statuses while step \<open>k\<close> of \<open>n\<close> runs\<close>

definition in_order :: "nat \<Rightarrow> nat \<Rightarrow> plan_step_status \<Rightarrow> plan_step_status list" where
  "in_order n k st = replicate k Done @ st # replicate (n - k - 1) Pending"

lemma in_order_nth [simp]: "in_order n k st ! k = st"
  by (simp add: in_order_def nth_append)

lemma length_in_order: "k < n \<Longrightarrow> length (in_order n k st) = n"
  by (simp add: in_order_def)

lemma in_order_update [simp]: "(in_order n k st)[k := st'] = in_order n k st'"
  by (simp add: in_order_def list_update_append)

lemma in_order_start: "0 < n \<Longrightarrow> (replicate n Pending)[0 := Running] = in_order n 0 Running"
  by (cases n) (simp_all add: in_order_def)

lemma in_order_next: "Suc k < n \<Longrightarrow> (in_order n k Done)[Suc k := st] = in_order n (Suc k) st"
proof -
  assume "Suc k < n"
  then have "n - k - 1 = Suc (n - Suc k - 1)" by simp
  then have "replicate (n - k - 1) Pending = Pending # replicate (n - Suc k - 1) Pending"
    by (simp only: replicate_Suc)
  then show ?thesis
    by (simp add: in_order_def replicate_app_Cons_same list_update_append)
qed

lemma in_order_last: "Suc k = n \<Longrightarrow> in_order n k Done = replicate n Done"
  by (auto simp: in_order_def replicate_append_same)

lemma next_in_order:
  "map status ss = in_order n k Done \<Longrightarrow> k < n
     \<Longrightarrow> next_pending (Suc k) ss = (if Suc k < n then Some (Suc k) else None)"
  by (simp add: next_pending_statuses in_order_def position_replicate)

definition executing :: "ustr list \<Rightarrow> nat \<Rightarrow> plan_step_status \<Rightarrow> plan_state \<Rightarrow> bool" where
  "executing ds k st p \<longleftrightarrow> k < length ds \<and> map status (steps p) = in_order (length ds) k st
     \<and> map description (steps p) = ds \<and> current_step_index p = k \<and> approved p \<and> \<not> complete p"

lemma executing_current:
  assumes "executing ds k st p"
  shows "current_step_index p < length (steps p)" "status (steps p ! current_step_index p) = st"
    "length (steps p) = length ds"
proof -
  have l: "length (steps p) = length ds"
    using assms by (metis executing_def length_map)
  then show "length (steps p) = length ds" "current_step_index p < length (steps p)"
    using assms by (simp_all add: executing_def)
  have "map status (steps p) ! k = status (steps p ! k)"
    using assms l by (intro nth_map) (simp add: executing_def)
  then show "status (steps p ! current_step_index p) = st"
    using assms by (simp add: executing_def)
qed

lemma executing_settled:
  assumes "executing ds k Running p"
  shows "map status (steps (settled p)) = in_order (length ds) k Done"
  using assms executing_current[OF assms] by (simp add: settled_statuses executing_def)

lemma executing_advance:
  assumes e: "executing ds k Running p" and k: "Suc k < length ds"
  obtains q where "advance p = (q, Some (Suc k))" "executing ds (Suc k) Running q" "paused q = paused p"
proof -
  note c = executing_current[OF e]
  have kk: "current_step_index p = k" using e by (simp add: executing_def)
  note st = executing_settled[OF e]
  have nx: "next_pending (current_step_index p + 1) (steps (settled p)) = Some (Suc k)"
    using next_in_order[OF st] k kk by simp
  define q where "q = bump_version (set_status (Suc k) Running ((settled p)\<lparr>current_step_index := Suc k\<rparr>))"
  have "advance p = (q, Some (Suc k))"
    unfolding q_def by (rule advance_next[OF c(1) _ nx]) (simp add: c(2))
  moreover have "executing ds (Suc k) Running q"
    using e k st c by (simp add: executing_def q_def in_order_next)
  ultimately show ?thesis using that by (simp add: q_def)
qed

lemma executing_finish:
  assumes e: "executing ds k Running p" and k: "Suc k = length ds"
  obtains q where "advance p = (q, None)" "complete q" "map status (steps q) = replicate (length ds) Done"
    "map description (steps q) = ds"
proof -
  note c = executing_current[OF e]
  have kk: "current_step_index p = k" using e by (simp add: executing_def)
  have st: "map status (steps (settled p)) = replicate (length ds) Done"
    using executing_settled[OF e] k by (simp add: in_order_last)
  have nx: "next_pending (current_step_index p + 1) (steps (settled p)) = None"
    using next_in_order[OF executing_settled[OF e]] k kk by simp
  have "set (map status (steps (settled p))) = {Done}"
    using st k by (auto simp: set_replicate_conv_if)
  then have "list_all (\<lambda>s. status s = Done) (steps (settled p))"
    by (auto simp: list_all_iff)
  then have fin: "is_complete (settled p)"
    using c k by (auto simp: is_complete_def)
  define q where "q = bump_version ((settled p)\<lparr>complete := True\<rparr>)"
  have "advance p = (q, None)"
    using advance_last[OF c(1) _ nx] c(2) fin by (simp add: q_def bump_if_def)
  then show ?thesis using that st e by (simp add: q_def executing_def)
qed
lemma run_events_append:
  "run_events hash (es @ fs) s = (case run_events hash es s of None \<Rightarrow> None | Some s' \<Rightarrow> run_events hash fs s')"
  by (induction es arbitrary: s) (auto split: option.splits)

text \<open>A round is a turn whose tools succeed, or one that fails and the \<open>/plan resume\<close> that retries it.\<close>

definition round_events :: "bool \<Rightarrow> 32 word option \<Rightarrow> bool \<Rightarrow> plan_event list" where
  "round_events json limit ok =
     (if ok then [Turn json limit True 0] else [Turn json limit True 1, Typed (str ''resume'')])"

definition executing_session :: "ustr list \<Rightarrow> nat \<Rightarrow> plan_session \<Rightarrow> bool" where
  "executing_session ds k s \<longleftrightarrow> state_available s
     \<and> (\<exists>p. plan s = Some p \<and> executing ds k Running p \<and> \<not> paused p)"

definition finished_session :: "ustr list \<Rightarrow> plan_session \<Rightarrow> bool" where
  "finished_session ds s \<longleftrightarrow> mode s = ActMode \<and>
     (\<exists>p. plan s = Some p \<and> complete p \<and> map status (steps p) = replicate (length ds) Done
        \<and> map description (steps p) = ds)"

lemma parse_words:
  "parse_plan_with_args (str ''resume'') = PlanResume" "parse_plan_with_args (str ''approve'') = PlanApprove"
  by code_simp+

lemma say_available [simp]: "state_available (say t s) = state_available s"
  by (simp add: say_def)

lemma set_mode_fields [simp]: "mode (set_mode m s) = m" "state_available (set_mode m s) = state_available s"
  by (simp_all add: set_mode_def)

lemma successful_turn:
  assumes "executing_session ds k s"
  shows "\<exists>s'. plan_event_step hash (Turn json limit True 0) s = Some s'
     \<and> (if Suc k < length ds then executing_session ds (Suc k) s' else finished_session ds s')"
proof -
  obtain p where s: "state_available s" "plan s = Some p" and e: "executing ds k Running p" and np: "\<not> paused p"
    using assms by (auto simp: executing_session_def)
  have ap: "approved p" "\<not> complete p" using e by (simp_all add: executing_def)
  define s1 where "s1 = s\<lparr>mistakes := 0\<rparr>"
  have s1: "plan s1 = Some p" "state_available s1" using s by (simp_all add: s1_def)
  have t: "plan_event_step hash (Turn json limit True 0) s = Some (advance_plan_step json s1)"
    by (simp add: after_tools_def s1_def)
  show ?thesis
  proof (cases "Suc k < length ds")
    case True
    obtain q where q: "advance p = (q, Some (Suc k))" "executing ds (Suc k) Running q" "paused q = paused p"
      by (rule executing_advance[OF e True])
    have "advance_plan_step json s1 = with_plan q s1"
      using s1 ap q by (simp add: advance_plan_step_def executing_def)
    then have "executing_session ds (Suc k) (advance_plan_step json s1)"
      using q np s1 by (simp add: executing_session_def with_plan_def)
    with t True show ?thesis by simp
  next
    case False
    have last_step: "Suc k = length ds" using False e by (simp add: executing_def)
    obtain q where q: "advance p = (q, None)" "complete q" "map status (steps q) = replicate (length ds) Done"
      "map description (steps q) = ds"
      by (rule executing_finish[OF e last_step])
    have "finished_session ds (advance_plan_step json s1)"
      using s1 ap q by (auto simp: advance_plan_step_def finished_session_def Let_def)
    with t False show ?thesis by simp
  qed
qed

lemma executing_set_status:
  assumes "executing ds k st p"
  shows "executing ds k st' (set_status (current_step_index p) st' p)"
  using assms executing_current[OF assms] by (simp add: executing_def)

lemma executing_frame [simp]:
  "executing ds k st (bump_version p) = executing ds k st p"
  "executing ds k st (p\<lparr>paused := b\<rparr>) = executing ds k st p"
  by (simp_all add: executing_def)

lemma executing_paused [simp]: "executing ds k st (set_paused b p) = executing ds k st p"
  by (simp add: set_paused_def)

lemma set_paused_eq [simp]: "paused (set_paused b p) = b"
  by (simp add: set_paused_def)

lemma executing_mark:
  assumes "executing ds k st p"
  shows "executing ds k st' (mark_step_ok (current_step_index p) st' p)"
  using executing_set_status[OF assms] executing_current(1)[OF assms]
  by (simp add: mark_step_ok_def mark_step_def)

lemma failed_turn:
  assumes "executing_session ds k s"
  shows "\<exists>s'. run_events hash (round_events json limit False) s = Some s' \<and> executing_session ds k s'"
proof -
  obtain p where s: "state_available s" "plan s = Some p" and e: "executing ds k Running p" and np: "\<not> paused p"
    using assms by (auto simp: executing_session_def)
  note c = executing_current[OF e]
  have ap: "approved p" "\<not> complete p" using e by (simp_all add: executing_def)
  define q where "q = set_paused True (mark_step_ok (current_step_index p) Failed p)"
  have q: "executing ds k Failed q" "paused q"
    using executing_mark[OF e, of Failed] by (simp_all add: q_def)
  define s1 where "s1 = fst (after_tools json limit True (Suc 0) s)"
  have s1: "plan s1 = Some q" "state_available s1"
    using s ap c by (auto simp: s1_def after_tools_def fail_plan_step_def Let_def with_plan_def simp flip: q_def
        split: option.splits)
  note cq = executing_current[OF q(1)]
  define r where "r = mark_step_ok (current_step_index (set_paused False q)) Running (set_paused False q)"
  have r: "executing ds k Running r" "\<not> paused r"
  proof -
    show "executing ds k Running r"
      using executing_mark[of ds k Failed "set_paused False q" Running] q by (simp add: r_def)
    show "\<not> paused r"
      by (auto simp: r_def mark_step_ok_def mark_step_def)
  qed
  have aq: "approved q" "\<not> complete q" using q by (simp_all add: executing_def)
  have "handle_plan_command PlanResume s1 = Some (plan_resume q s1)"
    using s1 by (simp add: handle_plan_command_def with_plan_command_def)
  moreover have "plan (plan_resume q s1) = Some r \<and> state_available (plan_resume q s1)"
    using aq q(2) cq s1 by (simp add: plan_resume_def Let_def current_step_def r_def with_plan_def
        spawn_agent_task_def)
  ultimately show ?thesis
    using r by (auto simp: round_events_def parse_words executing_session_def simp flip: s1_def)
qed

lemma rounds_finish:
  assumes "executing_session ds k s" and "count_list rounds True = length ds - k" and "last rounds = True"
  shows "\<exists>s'. run_events hash (concat (map (round_events json limit) rounds)) s = Some s' \<and> finished_session ds s'"
  using assms
proof (induction rounds arbitrary: k s)
  case Nil
  then show ?case by (auto simp: executing_session_def executing_def)
next
  case (Cons ok rounds)
  have k: "k < length ds" using Cons.prems(1) by (auto simp: executing_session_def executing_def)
  show ?case
  proof (cases ok)
    case True
    obtain s' where s': "plan_event_step hash (Turn json limit True 0) s = Some s'"
      and after: "if Suc k < length ds then executing_session ds (Suc k) s' else finished_session ds s'"
      using successful_turn[OF Cons.prems(1)] by blast
    show ?thesis
    proof (cases "Suc k < length ds")
      case more_steps: True
      then have "rounds \<noteq> []" using Cons.prems(2) True by auto
      then show ?thesis
        using Cons.IH[of "Suc k" s'] Cons.prems(2,3) True after more_steps s'
        by (auto simp: round_events_def)
    next
      case False
      then have "count_list rounds True = 0" using Cons.prems(2) True k by simp
      then have "True \<notin> set rounds" by (simp add: count_list_0_iff)
      then have "rounds = []" using Cons.prems(3) last_in_set[of rounds] by (auto split: if_splits)
      then show ?thesis using after False s' True by (simp add: round_events_def)
    qed
  next
    case False
    obtain s' where s': "run_events hash (round_events json limit False) s = Some s'" "executing_session ds k s'"
      using failed_turn[OF Cons.prems(1)] by blast
    have "rounds \<noteq> []" using Cons.prems(3) False by auto
    then have "\<exists>t. run_events hash (concat (map (round_events json limit) rounds)) s' = Some t \<and> finished_session ds t"
      using Cons.IH[OF s'(2)] Cons.prems(2,3) False by simp
    then show ?thesis using s'(1) False by (simp add: run_events_append)
  qed
qed

lemma approve_executes:
  assumes "plan s = Some (create_plan ds)" "ds \<noteq> []" "\<not> agent_busy s" "state_available s"
  shows "\<exists>s'. plan_event_step hash (Typed (str ''approve'')) s = Some s' \<and> executing_session ds 0 s'"
proof -
  let ?p = "create_plan ds"
  have n: "0 < length (steps ?p)" "steps ?p \<noteq> []"
    using assms(2) length_0_conv[of "steps ?p"] by auto
  have st: "status (steps ?p ! 0) = Pending"
    using n create_plan_fields(1)[of ds] nth_map[OF n(1), of status] assms(2) by simp
  define q where "q = bump_version (set_status 0 Running (?p\<lparr>current_step_index := 0, approved := True\<rparr>))"
  have start: "approval_start ?p = Some 0" using n st by (simp add: approval_start_def)
  have ap: "approve_at 0 ?p = Inr q" using n st by (simp add: approve_at_def q_def)
  have e: "executing ds 0 Running q" "\<not> paused q"
    using assms(2) in_order_start[of "length ds"] n(1) by (simp_all add: executing_def q_def)
  have "plan_event_step hash (Typed (str ''approve'')) s = Some (plan_approve ?p s)"
    using assms by (simp add: parse_words handle_plan_command_def with_plan_command_def)
  moreover have "plan (plan_approve ?p s) = Some q \<and> state_available (plan_approve ?p s)"
    using n start ap assms(4) by (simp add: plan_approve_def Let_def spawn_agent_task_def with_plan_def)
  ultimately show ?thesis using e by (auto simp: executing_session_def)
qed
section \<open>Properties\<close>

text \<open>A session without a plan, for the examples\<close>

definition idle_session :: plan_session where
  "idle_session = \<lparr>plan = None, last_injected = None, strict_plan_mode = True, mistakes = 0, mode = PlanMode,
     tool_profile = None, cached_prompt = None, history = [], app_mode = str ''PLAN'', app_busy = False,
     agent_busy = False, state_available = True, shown = [], prompts = []\<rparr>"

text \<open>Whatever is typed, the handlers of the plan commands reach none of their \<open>unreachable!\<close> branches, in any
  state and after any sequence of commands, turns and submitted plans.\<close>

theorem plan_commands_never_panic:
  "run_events hash es s \<noteq> None"
  by (rule run_events_not_None)



text \<open>A panel that copied the plan shows its current state again at the next synchronisation, whatever
  commands and turns came in between, unless the version counter is at its end or the model submitted another plan.\<close>

theorem panel_shows_current_plan:
  assumes "plan s = Some p" and "run_events hash es s = Some s'" and "plan s' = Some q"
    and "\<not> list_ex is_respond es" and "version q \<noteq> - 1"
  shows "cached_plan (fst (sync_plan_state_cache (Some (a, q))
           \<lparr>cached_plan = Some p, cache_ptr = Some a, cache_version = version p\<rparr>)) = Some q"
proof -
  have "tracked p q" using run_events_tracked[OF assms(2,4,3)] assms(1) by simp
  then have "q = p \<or> version p < version q" using assms(5) by (auto simp: tracked_def)
  then show ?thesis by (auto simp: sync_plan_state_cache_def)
qed

theorem panel_shows_current_plan_witness:
  "\<exists>s' q. run_events (\<lambda>_. 0) [Typed (str ''edit 1 read'')] (with_plan (create_plan [str ''write'']) idle_session) = Some s'
     \<and> cached_plan (fst (sync_plan_state_cache (Some (7, q))
           \<lparr>cached_plan = Some (create_plan [str ''write'']), cache_ptr = Some 7,
            cache_version = version (create_plan [str ''write''])\<rparr>)) = Some q
     \<and> plan s' = Some q \<and> map description (steps q) = [str ''read'']"
proof -
  let ?h = "\<lambda>_. 0 :: 64 word" and ?es = "[Typed (str ''edit 1 read'')]"
  let ?s = "with_plan (create_plan [str ''write'']) idle_session"
  have "case run_events ?h ?es ?s of None \<Rightarrow> False
     | Some t \<Rightarrow> (case plan t of None \<Rightarrow> False | Some q \<Rightarrow> version q = 1 \<and> map description (steps q) = [str ''read''])"
    by code_simp
  then obtain s' q where r: "run_events ?h ?es ?s = Some s'" "plan s' = Some q" "version q = 1"
    "map description (steps q) = [str ''read'']"
    by (auto split: option.splits)
  have c: "cached_plan (fst (sync_plan_state_cache (Some (7, q))
           \<lparr>cached_plan = Some (create_plan [str ''write'']), cache_ptr = Some 7,
            cache_version = version (create_plan [str ''write''])\<rparr>)) = Some q"
    by (rule panel_shows_current_plan[OF with_plan_plan r(1,2)]) (simp_all add: r(3))
  show ?thesis
    by (intro exI[of _ s'] exI[of _ q] conjI) (fact r c)+
qed

text \<open>C29. An approved fresh plan of \<open>n\<close> steps is finished after \<open>n\<close> successful turns, with any number of failed turns
  retried by \<open>/plan resume\<close> in between: every step is done, the plan is complete and the agent is in act mode.\<close>

theorem plan_runs_to_completion:
  assumes "plan s = Some (create_plan ds)" and "ds \<noteq> []" and "\<not> agent_busy s" and "state_available s"
    and "count_list rounds True = length ds" and "last rounds = True"
  shows "\<exists>s' p. run_events hash (Typed (str ''approve'') # concat (map (round_events json limit) rounds)) s = Some s'
     \<and> mode s' = ActMode \<and> plan s' = Some p \<and> complete p
     \<and> map status (steps p) = replicate (length ds) Done \<and> map description (steps p) = ds"
proof -
  obtain s1 where s1: "plan_event_step hash (Typed (str ''approve'')) s = Some s1" "executing_session ds 0 s1"
    using approve_executes[OF assms(1-4)] by blast
  show ?thesis
    using rounds_finish[OF s1(2), of rounds hash json limit] assms(5,6) s1(1) by (auto simp: finished_session_def)
qed

theorem plan_runs_to_completion_witness:
  "\<exists>s' p. run_events (\<lambda>_. 0) (Typed (str ''approve'')
        # concat (map (round_events False (Some 3)) [True, False, False, True]))
        (with_plan (create_plan [str ''read'', str ''write'']) idle_session) = Some s'
     \<and> mode s' = ActMode \<and> plan s' = Some p \<and> complete p
     \<and> map status (steps p) = replicate (length [str ''read'', str ''write'']) Done
     \<and> map description (steps p) = [str ''read'', str ''write'']"
  by (rule plan_runs_to_completion) (simp_all add: with_plan_def idle_session_def)

subsection \<open>Where the workflow fails\<close>

text \<open>A step completed before the approval leaves the next one running; the approval then starts another one
  and the first is never completed, so the plan never is.\<close>

lemma unapproved_complete_runs_two:
  "case run_events (\<lambda>_. 0) [Typed (str ''complete''), Typed (str ''approve'')]
       (with_plan (create_plan [str ''a'', str ''b'', str ''c'']) idle_session) of
     None \<Rightarrow> False
   | Some s \<Rightarrow> (case plan s of None \<Rightarrow> False | Some p \<Rightarrow> map status (steps p) = [Done, Running, Running])"
  by code_simp

text \<open>Removing the running step of a paused plan makes the next step the current one without starting it; the
  resumed turn is told to execute it, but its success only starts the step after it.\<close>

lemma removed_step_skips_successor:
  "case run_events (\<lambda>_. 0) [Typed (str ''approve''), Typed (str ''pause''), AgentIdle, Typed (str ''remove 1''),
       Typed (str ''resume''), Turn False None True 0, Turn False None True 0]
       (with_plan (create_plan [str ''a'', str ''b'', str ''c'']) idle_session) of
     None \<Rightarrow> False
   | Some s \<Rightarrow> (case plan s of None \<Rightarrow> False
       | Some p \<Rightarrow> map status (steps p) = [Pending, Done] \<and> \<not> complete p)"
  by code_simp

text \<open>A plan the model submits in place of one just created has its address and its version, so the panel keeps
  the old steps.\<close>

lemma revised_plan_not_shown:
  "let s = idle_session\<lparr>plan := Some (create_plan [str ''old''])\<rparr>;
       c = fst (sync_plan_state_cache (Some (7, create_plan [str ''old'']))
             \<lparr>cached_plan = None, cache_ptr = None, cache_version = 0\<rparr>) in
   case plan (fst (plan_mode_respond False (Some (str ''1. new'')) False s)) of None \<Rightarrow> False
   | Some q \<Rightarrow> map description (steps q) = [str ''new'']
       \<and> (case cached_plan (fst (sync_plan_state_cache (Some (7, q)) c)) of None \<Rightarrow> False
          | Some p \<Rightarrow> map description (steps p) = [str ''old''])"
  by code_simp

end
