(* ===== verification/ProviderStream.thy ===== *)
theory ProviderStream
  imports Prelude
begin

text \<open>
  The streaming helpers of \<open>src/src/providers/mod.rs\<close>: the buffer that cuts the bytes of a response into the lines
  of server-sent events, the normalisation of reasoning deltas, and the retryable transport errors.
  The standard library's \<open>String::from_utf8_lossy\<close> is modelled on the values of the bytes.
\<close>

section \<open>Lossy decoding\<close>

definition cont_byte :: "int \<Rightarrow> bool" where
  "cont_byte b \<longleftrightarrow> 128 \<le> b \<and> b \<le> 191"

text \<open>The second byte of a sequence of three or four\<close>

definition second_byte :: "int \<Rightarrow> int \<Rightarrow> bool" where
  "second_byte b0 b1 \<longleftrightarrow>
     (if b0 = 224 then 160 \<le> b1 \<and> b1 \<le> 191
      else if b0 = 237 then 128 \<le> b1 \<and> b1 \<le> 159
      else if b0 = 240 then 144 \<le> b1 \<and> b1 \<le> 191
      else if b0 = 244 then 128 \<le> b1 \<and> b1 \<le> 143
      else cont_byte b1)"

abbreviation replacement :: uchar where "replacement \<equiv> 65533"

text \<open>Each maximal prefix of a sequence that cannot be completed becomes one replacement character.\<close>

fun lossy :: "int list \<Rightarrow> ustr" where
  "lossy [] = []"
| "lossy (b0 # bs) =
     (if b0 < 128 then b0 # lossy bs
      else if 194 \<le> b0 \<and> b0 \<le> 223 then
        (case bs of
           b1 # r1 \<Rightarrow>
             if cont_byte b1 then ((b0 - 192) * 64 + (b1 - 128)) # lossy r1 else replacement # lossy bs
         | [] \<Rightarrow> [replacement])
      else if 224 \<le> b0 \<and> b0 \<le> 239 then
        (case bs of
           b1 # r1 \<Rightarrow>
             if second_byte b0 b1 then
               (case r1 of
                  b2 # r2 \<Rightarrow>
                    if cont_byte b2 then ((b0 - 224) * 4096 + (b1 - 128) * 64 + (b2 - 128)) # lossy r2
                    else replacement # lossy r1
                | [] \<Rightarrow> [replacement])
             else replacement # lossy bs
         | [] \<Rightarrow> [replacement])
      else if 240 \<le> b0 \<and> b0 \<le> 244 then
        (case bs of
           b1 # r1 \<Rightarrow>
             if second_byte b0 b1 then
               (case r1 of
                  b2 # r2 \<Rightarrow>
                    if cont_byte b2 then
                      (case r2 of
                         b3 # r3 \<Rightarrow>
                           if cont_byte b3 then
                             ((b0 - 240) * 262144 + (b1 - 128) * 4096 + (b2 - 128) * 64 + (b3 - 128)) # lossy r3
                           else replacement # lossy r2
                       | [] \<Rightarrow> [replacement])
                    else replacement # lossy r1
                | [] \<Rightarrow> [replacement])
             else replacement # lossy bs
         | [] \<Rightarrow> [replacement])
      else replacement # lossy bs)"

declare lossy.simps(2) [simp del]

definition from_utf8_lossy :: "8 word list \<Rightarrow> ustr" where
  "from_utf8_lossy bs = lossy (map uint bs)"

definition scalar :: "uchar \<Rightarrow> bool" where
  "scalar c \<longleftrightarrow> 0 \<le> c \<and> c < 55296 \<or> 57344 \<le> c \<and> c < 1114112"

lemma uint_byte: "0 \<le> k \<Longrightarrow> k < 256 \<Longrightarrow> uint (word_of_int k :: 8 word) = k"
  by (simp add: uint_word_of_int)

lemma base64_digits:
  "(c :: int) = c div 4096 * 4096 + (c div 64) mod 64 * 64 + c mod 64"
  "c = c div 262144 * 262144 + (c div 4096) mod 64 * 4096 + (c div 64) mod 64 * 64 + c mod 64"
proof -
  have q: "x = x div 64 * 64 + x mod 64" for x :: int by simp
  have d2: "c div 4096 = c div 64 div 64" using zdiv_zmult2_eq[of 64 c 64] by simp
  have d3: "c div 262144 = c div 4096 div 64" using zdiv_zmult2_eq[of 64 c 4096] by simp
  show two: "c = c div 4096 * 4096 + (c div 64) mod 64 * 64 + c mod 64"
    using q[of c] q[of "c div 64"] unfolding d2 by linarith
  show "c = c div 262144 * 262144 + (c div 4096) mod 64 * 4096 + (c div 64) mod 64 * 64 + c mod 64"
    using two q[of "c div 4096"] unfolding d3 by linarith
qed

lemma lossy_char:
  assumes "scalar c"
  shows "lossy (map uint (utf8_char c) @ r) = c # lossy r"
proof -
  consider "0 \<le> c" "c < 128" | "128 \<le> c" "c < 2048" | "2048 \<le> c" "c < 65536" "c < 55296 \<or> 57344 \<le> c"
    | "65536 \<le> c" "c < 1114112"
    using assms by (fastforce simp: scalar_def)
  then show ?thesis
  proof cases
    case 1
    then show ?thesis by (simp add: utf8_char_def uint_byte lossy.simps(2))
  next
    case 2
    define a where "a = c div 64"
    define b where "b = c mod 64"
    have c: "c = a * 64 + b" by (simp add: a_def b_def)
    have r: "2 \<le> a" "a < 32" "0 \<le> b" "b < 64" using 2 by (auto simp: a_def b_def)
    have "map uint (utf8_char c) = [192 + a, 128 + b]"
      using 2 r uint_byte[of "192 + a"] uint_byte[of "128 + b"]
      by (simp add: utf8_char_def flip: a_def b_def)
    then show ?thesis using r c by (simp add: lossy.simps(2) cont_byte_def)
  next
    case 3
    define a where "a = c div 4096"
    define b where "b = (c div 64) mod 64"
    define d where "d = c mod 64"
    have c: "c = a * 4096 + b * 64 + d" unfolding a_def b_def d_def by (rule base64_digits)
    have r: "0 \<le> a" "a < 16" "0 \<le> b" "b < 64" "0 \<le> d" "d < 64" using 3 by (auto simp: a_def b_def d_def)
    have "map uint (utf8_char c) = [224 + a, 128 + b, 128 + d]"
      using 3 r uint_byte[of "224 + a"] uint_byte[of "128 + b"] uint_byte[of "128 + d"]
      by (simp add: utf8_char_def flip: a_def b_def d_def)
    moreover have "second_byte (224 + a) (128 + b)"
      using 3 r c by (auto simp: second_byte_def cont_byte_def)
    ultimately show ?thesis using r c by (simp add: lossy.simps(2) cont_byte_def)
  next
    case 4
    define a where "a = c div 262144"
    define b where "b = (c div 4096) mod 64"
    define d where "d = (c div 64) mod 64"
    define e where "e = c mod 64"
    have c: "c = a * 262144 + b * 4096 + d * 64 + e" unfolding a_def b_def d_def e_def by (rule base64_digits)
    have r: "0 \<le> a" "a < 5" "0 \<le> b" "b < 64" "0 \<le> d" "d < 64" "0 \<le> e" "e < 64"
      using 4 by (auto simp: a_def b_def d_def e_def)
    have "map uint (utf8_char c) = [240 + a, 128 + b, 128 + d, 128 + e]"
      using 4 r uint_byte[of "240 + a"] uint_byte[of "128 + b"] uint_byte[of "128 + d"] uint_byte[of "128 + e"]
      by (simp add: utf8_char_def flip: a_def b_def d_def e_def)
    moreover have "second_byte (240 + a) (128 + b)"
      using 4 r c by (auto simp: second_byte_def cont_byte_def)
    ultimately show ?thesis using r c by (simp add: lossy.simps(2) cont_byte_def)
  qed
qed

lemma lossy_utf8: "list_all scalar s \<Longrightarrow> from_utf8_lossy (utf8 s) = s"
  by (induction s) (simp_all add: from_utf8_lossy_def utf8_def lossy_char)

section \<open>The line buffer\<close>

text \<open>The limit is an integer so that it evaluates; lengths are compared with it as integers.\<close>

record sse_line_buffer =
  pending :: "8 word list"
  max_line_length :: int
  limit_exceeded :: bool
  skip_next_newline :: bool

definition sse_default :: sse_line_buffer where
  "sse_default = \<lparr>pending = [], max_line_length = 1048576, limit_exceeded = False, skip_next_newline = False\<rparr>"

abbreviation newline :: "8 word" where "newline \<equiv> 10"

definition strip_cr_byte :: "8 word list \<Rightarrow> 8 word list" where
  "strip_cr_byte l = (if l \<noteq> [] \<and> last l = 13 then butlast l else l)"

definition decode_lines :: "8 word list list \<Rightarrow> ustr list" where
  "decode_lines ls = map from_utf8_lossy (filter (\<lambda>l. l \<noteq> []) (map strip_cr_byte ls))"

definition take_complete_lines :: "nat \<Rightarrow> sse_line_buffer \<Rightarrow> sse_line_buffer \<times> ustr list" where
  "take_complete_lines split_at b =
     (b\<lparr>pending := drop split_at (pending b)\<rparr>, decode_lines (split_on newline (take split_at (pending b))))"

text \<open>After the skipping of an overlong line; its loop ends after one round, which clears both flags.\<close>

definition push_pending :: "8 word list \<Rightarrow> sse_line_buffer \<Rightarrow> sse_line_buffer \<times> ustr list" where
  "push_pending chunk b0 =
     (let b = b0\<lparr>pending := pending b0 @ chunk\<rparr> in
      if max_line_length b \<le> int (length (pending b)) then
        (case rposition (\<lambda>x. x = newline) (pending b) of
           Some i \<Rightarrow>
             let (b', ls) = take_complete_lines (i + 1) b
             in (if max_line_length b' \<le> int (length (pending b'))
                 then b'\<lparr>pending := [], limit_exceeded := True\<rparr> else b', ls)
         | None \<Rightarrow> (b\<lparr>pending := [], limit_exceeded := True\<rparr>, []))
      else
        (case rposition (\<lambda>x. x = newline) (pending b) of
           Some i \<Rightarrow> take_complete_lines (i + 1) b
         | None \<Rightarrow> (b, [])))"

definition push_chunk :: "8 word list \<Rightarrow> sse_line_buffer \<Rightarrow> sse_line_buffer \<times> ustr list" where
  "push_chunk chunk b =
     (if skip_next_newline b \<or> limit_exceeded b then
        (case position (\<lambda>x. x = newline) chunk of
           None \<Rightarrow> (b, [])
         | Some i \<Rightarrow>
             let b' = b\<lparr>skip_next_newline := False, limit_exceeded := False\<rparr>;
                 rest = drop (i + 1) chunk
             in if rest = [] then (b', []) else push_pending rest b')
      else push_pending chunk b)"

definition finish_buffer :: "sse_line_buffer \<Rightarrow> sse_line_buffer \<times> ustr option" where
  "finish_buffer b =
     (if pending b = [] then (b, None) else (b\<lparr>pending := []\<rparr>, Some (from_utf8_lossy (pending b))))"

definition take_error :: "sse_line_buffer \<Rightarrow> sse_line_buffer \<times> ustr option" where
  "take_error b =
     (if limit_exceeded b then
        (b\<lparr>limit_exceeded := False, skip_next_newline := True\<rparr>,
         Some (str ''SSE line exceeded maximum length of '' @ show_nat (nat (max_line_length b)) @ str '' bytes''))
      else (b, None))"

text \<open>The clients push every chunk, handle the lines and then take the error.\<close>

fun push_all :: "8 word list list \<Rightarrow> sse_line_buffer \<Rightarrow> sse_line_buffer \<times> ustr list \<times> ustr list" where
  "push_all [] b = (b, [], [])"
| "push_all (c # cs) b =
     (let (b1, ls) = push_chunk c b; (b2, err) = take_error b1; (b3, ls', errs) = push_all cs b2
      in (b3, ls @ ls', (case err of Some e \<Rightarrow> e # errs | None \<Rightarrow> errs)))"

section \<open>Reasoning deltas and transport errors\<close>

text \<open>The lengths are byte lengths; two strings agree on a range of bytes at character boundaries when the
  characters of the ranges agree, so the overlap is counted in characters and \<open>reasoning[overlap..]\<close> drops them.\<close>

fun overlap_from :: "nat \<Rightarrow> ustr \<Rightarrow> ustr \<Rightarrow> nat" where
  "overlap_from 0 left right = 0"
| "overlap_from (Suc n) left right =
     (if drop (length left - Suc n) left = take (Suc n) right then Suc n else overlap_from n left right)"

definition longest_suffix_prefix_overlap :: "ustr \<Rightarrow> ustr \<Rightarrow> nat" where
  "longest_suffix_prefix_overlap left right = overlap_from (min (length left) (length right)) left right"

definition normalize_reasoning_delta :: "ustr \<Rightarrow> ustr \<Rightarrow> ustr \<times> ustr option" where
  "normalize_reasoning_delta emitted reasoning =
     (if reasoning = [] then (emitted, None)
      else
        let normalized = drop (longest_suffix_prefix_overlap emitted reasoning) reasoning
        in if normalized = [] then (emitted, None) else (emitted @ normalized, Some normalized))"

definition is_retryable_stream_transport_error :: "ustr \<Rightarrow> bool" where
  "is_retryable_stream_transport_error e \<longleftrightarrow>
     (let error = to_ascii_lower e in
      list_ex (\<lambda>w. str_contains w error)
        [str ''timeout'', str ''connection'', str ''incomplete'', str ''decode'', str ''decoding'', str ''broken pipe'',
         str ''broken_pipe'', str ''stream reset'', str ''reset by peer'', str ''unexpected eof'', str ''early eof'']
      \<or> error = str ''eof'')"

section \<open>Lines and chunks\<close>

lemma split_on_append: "split_on d (a @ d # s) = split_on d a @ split_on d s"
  by (induction a) (auto split: list.splits)

lemma split_on_extend: "split_on d (x @ y) = butlast (split_on d x) @ split_on d (last (split_on d x) @ y)"
proof (cases "d \<in> set x")
  case False
  then show ?thesis by (simp add: split_on_clean)
next
  case True
  then obtain a b where x: "x = a @ d # b" and b: "d \<notin> set b" by (meson split_list_last)
  then show ?thesis by (simp add: split_on_append split_on_clean butlast_append)
qed

lemma last_split_clean: "d \<notin> set (last (split_on d x))"
  using split_on_no_sep[of "last (split_on d x)" d x] by simp

lemma length_last_split:
  "d \<notin> set t \<Longrightarrow> length t \<le> length (hd (split_on d (t @ y)))"
  by (induction t) (auto split: list.splits)

lemma rposition_None: "rposition P xs = None \<longleftrightarrow> (\<forall>x \<in> set xs. \<not> P x)"
  by (simp add: rposition_def position_None)

lemma rposition_last:
  assumes "rposition (\<lambda>x. x = d) xs = Some i"
  obtains a b where "xs = a @ d # b" "d \<notin> set b" "take (i + 1) xs = a @ [d]" "drop (i + 1) xs = b"
proof -
  obtain k where k: "position (\<lambda>x. x = d) (rev xs) = Some k" and i: "i = length xs - 1 - k"
    using assms by (auto simp: rposition_def)
  note P = position_Some[OF k]
  have kl: "k < length xs" using P by simp
  define a where "a = take i xs"
  define b where "b = drop (Suc i) xs"
  have il: "i < length xs" using kl i by simp
  have di: "xs ! i = d" using P kl i by (simp add: rev_nth)
  have xs: "xs = a @ d # b"
    using id_take_nth_drop[OF il] unfolding a_def b_def di .
  have lb: "length b = k" using kl i by (simp add: b_def)
  have "d \<notin> set b"
  proof
    assume "d \<in> set b"
    then obtain j where j: "j < length b" "b ! j = d" by (auto simp: in_set_conv_nth)
    define m where "m = length b - 1 - j"
    have "m < k" using j lb by (simp add: m_def)
    moreover have "rev xs ! m = d"
    proof -
      have "rev xs = rev b @ d # rev a" by (subst xs) simp
      then show ?thesis using j by (simp add: nth_append rev_nth m_def)
    qed
    ultimately show False using P by blast
  qed
  moreover have "take (i + 1) xs = a @ [d]"
    by (simp add: a_def take_Suc_conv_app_nth[OF il] di)
  moreover have "drop (i + 1) xs = b"
    by (simp add: b_def)
  ultimately show ?thesis using that xs by blast
qed

lemma decode_lines_append: "decode_lines (a @ b) = decode_lines a @ decode_lines b"
  by (simp add: decode_lines_def)

lemma decode_lines_Nil [simp]: "decode_lines [[]] = []" "decode_lines [] = []"
  by (simp_all add: decode_lines_def strip_cr_byte_def)

abbreviation flags_clear :: "sse_line_buffer \<Rightarrow> bool" where
  "flags_clear b \<equiv> \<not> limit_exceeded b \<and> \<not> skip_next_newline b"

lemma push_pending_short:
  assumes seg: "\<And>l. l \<in> set (split_on newline (pending b @ chunk)) \<Longrightarrow> int (length l) < max_line_length b"
  shows "push_pending chunk b =
     (b\<lparr>pending := last (split_on newline (pending b @ chunk))\<rparr>,
      decode_lines (butlast (split_on newline (pending b @ chunk))))"
proof (cases "rposition (\<lambda>x. x = newline) (pending b @ chunk)")
  case None
  then have clean: "newline \<notin> set (pending b @ chunk)" by (auto simp: rposition_None)
  then have s: "split_on newline (pending b @ chunk) = [pending b @ chunk]" by (rule split_on_clean)
  then have "int (length (pending b @ chunk)) < max_line_length b" using seg by simp
  then show ?thesis using None s by (simp add: push_pending_def)
next
  case (Some i)
  obtain a t where x: "pending b @ chunk = a @ newline # t" and t: "newline \<notin> set t"
    and tk: "take (i + 1) (pending b @ chunk) = a @ [newline]" "drop (i + 1) (pending b @ chunk) = t"
    by (rule rposition_last[OF Some])
  have s: "split_on newline (pending b @ chunk) = split_on newline a @ [t]"
    using t by (simp add: x split_on_append split_on_clean)
  have "split_on newline (a @ [newline]) = split_on newline a @ [[]]"
    using split_on_append[of newline a "[]"] by simp
  then have tcl: "take_complete_lines (i + 1) (b\<lparr>pending := pending b @ chunk\<rparr>)
      = (b\<lparr>pending := t\<rparr>, decode_lines (split_on newline a))"
    by (simp add: take_complete_lines_def tk[simplified] decode_lines_append)
  have "int (length t) < max_line_length b" using seg s by simp
  then show ?thesis using Some tcl s by (simp add: push_pending_def Let_def)
qed

definition all_short :: "int \<Rightarrow> 8 word list \<Rightarrow> bool" where
  "all_short m bs \<longleftrightarrow> list_all (\<lambda>l. int (length l) < m) (split_on newline bs)"

lemma all_short_prefix:
  assumes "all_short m (x @ y)"
  shows "all_short m x" "all_short m (last (split_on newline x) @ y)"
proof -
  have s: "list_all (\<lambda>l. int (length l) < m) (butlast (split_on newline x)
      @ split_on newline (last (split_on newline x) @ y))"
    using assms split_on_extend[of newline x y] by (simp add: all_short_def)
  then show "all_short m (last (split_on newline x) @ y)" by (simp add: all_short_def)
  have "int (length (hd (split_on newline (last (split_on newline x) @ y)))) < m"
    using s by (auto simp: list_all_iff)
  then have "int (length (last (split_on newline x))) < m"
    using length_last_split[OF last_split_clean, of newline x y] by linarith
  then have "list_all (\<lambda>l. int (length l) < m) (butlast (split_on newline x) @ [last (split_on newline x)])"
    using s by (simp del: append_butlast_last_id)
  then show "all_short m x"
    by (simp only: append_butlast_last_id[OF split_on_neq_Nil] all_short_def)
qed

text \<open>Where the chunks are cut does not matter as long as every line is short.\<close>

lemma push_all_short:
  assumes "flags_clear b" and "all_short (max_line_length b) (pending b @ concat cs)" and "newline \<notin> set (pending b)"
  shows "push_all cs b =
     (b\<lparr>pending := last (split_on newline (pending b @ concat cs))\<rparr>,
      decode_lines (butlast (split_on newline (pending b @ concat cs))), [])"
  using assms
proof (induction cs arbitrary: b)
  case Nil
  then show ?case by (simp add: split_on_clean)
next
  case (Cons c cs)
  define x where "x = pending b @ c"
  define b1 where "b1 = b\<lparr>pending := last (split_on newline x)\<rparr>"
  have short: "all_short (max_line_length b) (x @ concat cs)"
    using Cons.prems(2) by (simp add: x_def)
  have "push_pending c b = (b1, decode_lines (butlast (split_on newline x)))"
    using push_pending_short[of b c] all_short_prefix(1)[OF short]
    by (simp add: all_short_def list_all_iff b1_def x_def)
  then have p: "push_chunk c b = (b1, decode_lines (butlast (split_on newline x)))"
    using Cons.prems(1) by (simp add: push_chunk_def)
  have e: "take_error b1 = (b1, None)" using Cons.prems(1) by (simp add: take_error_def b1_def)
  have s1: "all_short (max_line_length b1) (pending b1 @ concat cs)"
    using all_short_prefix(2)[OF short] by (simp add: b1_def)
  have "push_all cs b1 = (b1\<lparr>pending := last (split_on newline (pending b1 @ concat cs))\<rparr>,
      decode_lines (butlast (split_on newline (pending b1 @ concat cs))), [])"
    by (rule Cons.IH[OF _ s1]) (use Cons.prems(1) in \<open>simp_all add: b1_def last_split_clean\<close>)
  moreover have "split_on newline (pending b @ concat (c # cs))
      = butlast (split_on newline x) @ split_on newline (pending b1 @ concat cs)"
    using split_on_extend[of newline x "concat cs"] by (simp add: x_def b1_def)
  ultimately show ?case
    using p e by (simp add: b1_def butlast_append decode_lines_append)
qed
section \<open>Text on the wire\<close>

lemma utf8_char_high:
  assumes "scalar c" "128 \<le> c"
  shows "list_all (\<lambda>b. 128 \<le> uint b) (utf8_char c) \<and> utf8_char c \<noteq> []"
proof -
  have m: "0 \<le> x mod 64" "x mod 64 < 64" for x :: int by simp_all
  consider "c < 2048" | "2048 \<le> c" "c < 65536" | "65536 \<le> c" by linarith
  then show ?thesis
  proof cases
    case 1
    then have "2 \<le> c div 64" "c div 64 < 32" using assms by auto
    then show ?thesis
      using 1 assms m[of c] uint_byte[of "192 + c div 64"] uint_byte[of "128 + c mod 64"] by (simp add: utf8_char_def)
  next
    case 2
    then have "0 \<le> c div 4096" "c div 4096 < 16" by auto
    then show ?thesis
      using 2 m[of c] m[of "c div 64"] uint_byte[of "224 + c div 4096"] uint_byte[of "128 + c div 64 mod 64"]
        uint_byte[of "128 + c mod 64"] by (simp add: utf8_char_def)
  next
    case 3
    then have "0 \<le> c div 262144" "c div 262144 < 5" using assms by (auto simp: scalar_def)
    then show ?thesis
      using 3 m[of c] m[of "c div 64"] m[of "c div 4096"] uint_byte[of "240 + c div 262144"]
        uint_byte[of "128 + c div 4096 mod 64"] uint_byte[of "128 + c div 64 mod 64"]
        uint_byte[of "128 + c mod 64"] by (simp add: utf8_char_def)
  qed
qed

lemma utf8_char_ascii: "0 \<le> c \<Longrightarrow> c < 128 \<Longrightarrow> utf8_char c = [word_of_int c]"
  by (simp add: utf8_char_def)

lemma utf8_char_member:
  assumes "scalar c" "b \<in> set (utf8_char c)" "uint b < 128"
  shows "uint b = c"
proof (cases "c < 128")
  case True
  then show ?thesis using assms by (simp add: utf8_char_ascii scalar_def uint_byte)
next
  case False
  then show ?thesis using utf8_char_high[OF assms(1)] assms(2,3) by (auto simp: list_all_iff)
qed

lemma utf8_char_not_Nil: "scalar c \<Longrightarrow> utf8_char c \<noteq> []"
  using utf8_char_high[of c] utf8_char_ascii[of c] by (cases "c < 128") (auto simp: scalar_def)

lemma utf8_member: "list_all scalar s \<Longrightarrow> b \<in> set (utf8 s) \<Longrightarrow> uint b < 128 \<Longrightarrow> uint b \<in> set s"
  using utf8_char_member by (fastforce simp: utf8_def list_all_iff)

lemma utf8_last:
  assumes "list_all scalar s" "s \<noteq> []" "uint (last (utf8 s)) < 128"
  shows "last s = uint (last (utf8 s))"
proof -
  obtain a c where s: "s = a @ [c]" using assms(2) by (metis append_butlast_last_id)
  have c: "scalar c" using assms(1) s by simp
  have l: "last (utf8 s) = last (utf8_char c)"
    using utf8_char_not_Nil[OF c] by (simp add: s utf8_def)
  have "last (utf8_char c) \<in> set (utf8_char c)"
    using utf8_char_not_Nil[OF c] by simp
  then have "uint (last (utf8_char c)) = c"
    using utf8_char_member[OF c] assms(3) l by simp
  then show ?thesis using l s by simp
qed

lemma utf8_Nil_iff: "list_all scalar s \<Longrightarrow> utf8 s = [] \<longleftrightarrow> s = []"
  using utf8_char_not_Nil by (cases s) (auto simp: utf8_def)

text \<open>A line of an event and whether the server ends it with a carriage return and a newline\<close>

definition wire :: "(ustr \<times> bool) list \<Rightarrow> ustr" where
  "wire ls = concat (map (\<lambda>(l, crlf). l @ (if crlf then [cr, nl] else [nl])) ls)"

definition event_line :: "int \<Rightarrow> ustr \<times> bool \<Rightarrow> bool" where
  "event_line m lc \<longleftrightarrow> list_all scalar (fst lc) \<and> nl \<notin> set (fst lc) \<and> (fst lc \<noteq> [] \<longrightarrow> last (fst lc) \<noteq> cr)
     \<and> int (byte_len (fst lc)) + (if snd lc then 1 else 0) < m"

definition wire_segment :: "ustr \<times> bool \<Rightarrow> 8 word list" where
  "wire_segment lc = utf8 (fst lc) @ (if snd lc then [13] else [])"

lemma utf8_append: "utf8 (a @ b) = utf8 a @ utf8 b"
  by (simp add: utf8_def)

lemma utf8_wire_Cons: "utf8 (wire (lc # ls)) = wire_segment lc @ newline # utf8 (wire ls)"
proof -
  have "utf8 [cr, nl] = [13, 10]" "utf8 [nl] = [10]" by (simp_all add: utf8_def utf8_char_def)
  then show ?thesis by (simp add: wire_def wire_segment_def utf8_append split_beta)
qed

lemma wire_segment_clean:
  assumes "event_line m lc"
  shows "newline \<notin> set (wire_segment lc)"
proof
  assume "newline \<in> set (wire_segment lc)"
  then have "newline \<in> set (utf8 (fst lc))" by (auto simp: wire_segment_def split: if_splits)
  then show False using utf8_member[of "fst lc" newline] assms by (simp add: event_line_def)
qed

lemma split_wire:
  "list_all (event_line m) ls \<Longrightarrow> split_on newline (utf8 (wire ls)) = map wire_segment ls @ [[]]"
proof (induction ls)
  case Nil
  then show ?case by (simp add: wire_def utf8_def)
next
  case (Cons lc ls)
  then have c: "newline \<notin> set (wire_segment lc)" using wire_segment_clean[of m lc] by simp
  show ?case
    unfolding utf8_wire_Cons split_on_append_sep[OF c] using Cons by simp
qed

lemma strip_wire_segment:
  assumes "event_line m lc"
  shows "strip_cr_byte (wire_segment lc) = utf8 (fst lc)"
proof (cases "fst lc = []")
  case True
  then show ?thesis by (simp add: wire_segment_def strip_cr_byte_def utf8_def)
next
  case False
  then have ne: "utf8 (fst lc) \<noteq> []" using assms by (simp add: event_line_def utf8_Nil_iff)
  have "last (utf8 (fst lc)) \<noteq> 13"
    using utf8_last[of "fst lc"] assms False by (auto simp: event_line_def)
  then show ?thesis
    using ne by (simp add: strip_cr_byte_def wire_segment_def butlast_append)
qed

lemma decode_wire:
  "list_all (event_line m) ls \<Longrightarrow> decode_lines (map wire_segment ls) = filter (\<lambda>l. l \<noteq> []) (map fst ls)"
proof (induction ls)
  case (Cons lc ls)
  then have lc: "event_line m lc" and s: "list_all scalar (fst lc)" by (simp_all add: event_line_def)
  then show ?case
    using Cons strip_wire_segment[OF lc] lossy_utf8[OF s] utf8_Nil_iff[OF s] by (simp add: decode_lines_def)
qed simp

lemma all_short_wire:
  assumes "0 < m" "list_all (event_line m) ls"
  shows "all_short m (utf8 (wire ls))"
  unfolding all_short_def split_wire[OF assms(2)]
  using assms by (auto simp: list_all_iff event_line_def wire_segment_def byte_len_def)

lemma short_lines_delivered:
  assumes "concat chunks = utf8 (wire ls)" and "list_all (event_line 1048576) ls"
  shows "push_all chunks sse_default = (sse_default, filter (\<lambda>l. l \<noteq> []) (map fst ls), [])"
proof -
  have "all_short 1048576 (utf8 (wire ls))" using all_short_wire assms(2) by simp
  then have "push_all chunks sse_default =
      (sse_default\<lparr>pending := last (split_on newline (utf8 (wire ls)))\<rparr>,
       decode_lines (butlast (split_on newline (utf8 (wire ls)))), [])"
    using push_all_short[of sse_default chunks] assms(1) by (simp add: sse_default_def)
  then show ?thesis
    using split_wire[OF assms(2)] decode_wire[OF assms(2)] by (simp add: sse_default_def)
qed

text \<open>C31. The nonempty lines of the server's events arrive whatever the network does to the chunks, cuts inside a
  character or between a carriage return and its newline included, as long as each is shorter than the limit: no
  error, and nothing is kept back.\<close>

theorem events_delivered:
  assumes "concat chunks = utf8 (wire ls)" and "list_all (event_line 1048576) ls"
  shows "push_all chunks sse_default = (sse_default, filter (\<lambda>l. l \<noteq> []) (map fst ls), [])"
  by (rule short_lines_delivered[OF assms])

theorem events_delivered_witness:
  "push_all [[100, 195], [169, 13], [10, 10, 120], [10]] sse_default
     = (sse_default, filter (\<lambda>l. l \<noteq> []) (map fst [([100, 233], True), ([], False), ([120], False)]), [])"
proof (rule events_delivered)
  show "concat [[100, 195], [169, 13], [10, 10, 120], [10]] = utf8 (wire [([100, 233], True), ([], False), ([120], False)])"
    by (simp add: wire_def utf8_def utf8_char_def)
  show "list_all (event_line 1048576) [([100, 233], True), ([], False), ([120], False)]"
    by (simp add: event_line_def scalar_def byte_len_def utf8_def utf8_char_def)
qed

section \<open>Lines over the limit\<close>

text \<open>A line over the limit is delivered when one chunk completes it and an error when a chunk ends inside it.\<close>

definition small_buffer :: sse_line_buffer where
  "small_buffer = sse_default\<lparr>max_line_length := 4\<rparr>"

lemma overlong_depends_on_chunks:
  "push_all [[97, 98, 99, 100, 101, 10]] small_buffer = (small_buffer, [str ''abcde''], [])"
  "fst (snd (push_all [[97, 98, 99, 100], [101, 10]] small_buffer)) = []"
  "snd (snd (push_all [[97, 98, 99, 100], [101, 10]] small_buffer))
     = [str ''SSE line exceeded maximum length of 4 bytes'']"
  by code_simp+

text \<open>After the error of an overlong line its rest is skipped up to the newline, in whatever chunks it comes; from there
  on the buffer works as before.\<close>

lemma skip_rest:
  assumes "skip_next_newline b" and "\<not> limit_exceeded b" and "concat cs = junk @ newline # bs" and "newline \<notin> set junk"
  shows "\<exists>rest cs'. concat (rest # cs') = bs
     \<and> push_all cs b = (if rest = [] then push_all cs' (b\<lparr>skip_next_newline := False\<rparr>)
          else push_all (rest # cs') (b\<lparr>skip_next_newline := False\<rparr>))"
  using assms
proof (induction cs arbitrary: junk)
  case Nil
  then show ?case by simp
next
  case (Cons c cs)
  show ?case
  proof (cases "newline \<in> set c")
    case False
    then have "position (\<lambda>x. x = newline) c = None" by (auto simp: position_None)
    then have p: "push_chunk c b = (b, [])" using Cons.prems(1) by (simp add: push_chunk_def)
    have e: "take_error b = (b, None)" using Cons.prems(2) by (simp add: take_error_def)
    obtain junk' where j: "junk = c @ junk'" "concat cs = junk' @ newline # bs"
    proof -
      have "c @ concat cs = junk @ newline # bs" using Cons.prems(3) by simp
      then obtain us where "c = junk @ us \<and> us @ concat cs = newline # bs \<or> c @ us = junk \<and> concat cs = us @ newline # bs"
        by (auto simp: append_eq_append_conv2)
      then show ?thesis using False that by (cases us) auto
    qed
    have "push_all (c # cs) b = push_all cs b" using p e by simp
    then show ?thesis using Cons.IH[OF Cons.prems(1,2) j(2)] Cons.prems(4) j(1) by simp
  next
    case True
    obtain i where i: "position (\<lambda>x. x = newline) c = Some i"
      using True by (cases "position (\<lambda>x. x = newline) c") (auto simp: position_None)
    note P = position_Some[OF i]
    define rest where "rest = drop (i + 1) c"
    have il: "i < length c" and ni: "c ! i = newline" using P by simp_all
    have ci: "c = take i c @ newline # rest"
      using id_take_nth_drop[OF il] unfolding ni rest_def Suc_eq_plus1 .
    have clean: "newline \<notin> set (take i c)"
      using P by (auto simp: in_set_conv_nth)
    have f1: "split_once newline (take i c @ newline # (rest @ concat cs)) = Some (take i c, rest @ concat cs)"
      by (rule split_once_append[OF clean])
    have f2: "split_once newline (junk @ newline # bs) = Some (junk, bs)"
      by (rule split_once_append[OF Cons.prems(4)])
    have f3: "take i c @ newline # (rest @ concat cs) = junk @ newline # bs"
    proof -
      have "take i c @ newline # (rest @ concat cs) = c @ concat cs"
        using arg_cong[OF ci[symmetric], of "\<lambda>x. x @ concat cs"] by simp
      also have "\<dots> = junk @ newline # bs" using Cons.prems(3) by simp
      finally show ?thesis .
    qed
    have bs: "bs = rest @ concat cs"
      using f1 unfolding f3 f2 by simp
    define b' where "b' = b\<lparr>skip_next_newline := False\<rparr>"
    have b': "b\<lparr>skip_next_newline := False, limit_exceeded := False\<rparr> = b'"
      using Cons.prems(2) by (cases b) (simp add: b'_def)
    have fl: "flags_clear b'" using Cons.prems(2) by (simp add: b'_def)
    have p: "push_chunk c b = (if rest = [] then (b', []) else push_chunk rest b')"
    proof -
      have rd: "drop (Suc i) c = rest" by (simp add: rest_def)
      show ?thesis using Cons.prems(1) i b' fl by (simp add: push_chunk_def Let_def rd del: drop_eq_Nil)
    qed
    have e: "take_error b' = (b', None)" using fl by (simp add: take_error_def)
    have "push_all (c # cs) b = (if rest = [] then push_all cs b' else push_all (rest # cs) b')"
      using p e by simp
    then show ?thesis using bs by (intro exI[of _ rest] exI[of _ cs]) (simp add: b'_def)
  qed
qed

text \<open>A line over the limit is reported once, its rest is skipped up to its newline in whatever chunks it comes, and
  the lines after it are delivered.\<close>

theorem overlong_line_skipped:
  assumes "newline \<notin> set c" and "1048576 \<le> int (length c)"
    and "concat chunks = junk @ newline # utf8 (wire ls)" and "newline \<notin> set junk"
    and "list_all (event_line 1048576) ls"
  shows "push_all (c # chunks) sse_default = (sse_default, filter (\<lambda>l. l \<noteq> []) (map fst ls),
           [str ''SSE line exceeded maximum length of '' @ show_nat 1048576 @ str '' bytes''])"
proof -
  define b where "b = sse_default\<lparr>skip_next_newline := True\<rparr>"
  have none: "rposition (\<lambda>x. x = newline) c = None"
    using assms(1) by (auto simp: rposition_None)
  have p: "push_chunk c sse_default = (sse_default\<lparr>limit_exceeded := True\<rparr>, [])"
    using assms(2) none by (simp add: push_chunk_def push_pending_def sse_default_def)
  have e: "take_error (sse_default\<lparr>limit_exceeded := True\<rparr>)
      = (b, Some (str ''SSE line exceeded maximum length of '' @ show_nat 1048576 @ str '' bytes''))"
    by (simp add: take_error_def b_def sse_default_def)
  obtain rest cs' where r: "concat (rest # cs') = utf8 (wire ls)"
    and q: "push_all chunks b = (if rest = [] then push_all cs' (b\<lparr>skip_next_newline := False\<rparr>)
          else push_all (rest # cs') (b\<lparr>skip_next_newline := False\<rparr>))"
    using skip_rest[of b chunks junk "utf8 (wire ls)"] assms(3,4) by (auto simp: b_def sse_default_def)
  have b0: "b\<lparr>skip_next_newline := False\<rparr> = sse_default" by (simp add: b_def sse_default_def)
  have "push_all chunks b = (sse_default, filter (\<lambda>l. l \<noteq> []) (map fst ls), [])"
  proof (cases "rest = []")
    case True
    then have "concat cs' = utf8 (wire ls)" using r by simp
    then show ?thesis using q True short_lines_delivered[OF _ assms(5), of cs'] by (simp add: b0)
  next
    case False
    then show ?thesis using q short_lines_delivered[OF r assms(5)] by (simp add: b0 del: push_all.simps)
  qed
  then show ?thesis using p e by simp
qed

theorem overlong_line_skipped_witness:
  "push_all [replicate 1048576 97, [98], [98, 10, 120, 10]] sse_default
     = (sse_default, filter (\<lambda>l. l \<noteq> []) (map fst [([120], False)]),
        [str ''SSE line exceeded maximum length of '' @ show_nat 1048576 @ str '' bytes''])"
proof (rule overlong_line_skipped)
  show "newline \<notin> set (replicate 1048576 97)" by simp
  show "1048576 \<le> int (length (replicate 1048576 (97 :: 8 word)))" by simp
  show "concat [[98], [98, 10, 120, 10]] = [98, 98] @ newline # utf8 (wire [([120], False)])"
    by (simp add: wire_def utf8_def utf8_char_def)
  show "newline \<notin> set [98, 98]" by simp
  show "list_all (event_line 1048576) [([120], False)]"
    by (simp add: event_line_def scalar_def byte_len_def utf8_def utf8_char_def)
qed
section \<open>Reasoning deltas\<close>

lemma overlap_from_le: "overlap_from n l r \<le> n"
  by (induction n) (auto intro: le_SucI)

lemma overlap_from_sound:
  "take (overlap_from n l r) r = drop (length l - overlap_from n l r) l"
  by (induction n) auto

text \<open>A provider that sends the whole reasoning so far every time is cut down to what is new.\<close>

lemma cumulative_delta:
  assumes "d \<noteq> []"
  shows "normalize_reasoning_delta e (e @ d) = (e @ d, Some d)"
proof -
  have "longest_suffix_prefix_overlap e (e @ d) = length e"
    by (cases "length e") (simp_all add: longest_suffix_prefix_overlap_def)
  then show ?thesis using assms by (simp add: normalize_reasoning_delta_def)
qed

text \<open>What is emitted grows by exactly the delta that is returned.\<close>

lemma delta_appended:
  "normalize_reasoning_delta e r = (e', out) \<Longrightarrow> e' = e @ (case out of Some d \<Rightarrow> d | None \<Rightarrow> [])"
  by (auto simp: normalize_reasoning_delta_def Let_def split: if_splits)

text \<open>A provider that sends only what is new loses a delta that repeats the end of the text.\<close>

lemma repeated_delta_lost:
  "normalize_reasoning_delta (str ''10'') (str ''0'') = (str ''10'', None)"
  by code_simp

end
