(* ===== verification/JsonRepair.thy ===== *)
theory JsonRepair
  imports Prelude
begin

text \<open>
  The repair of a model's tool call arguments (\<open>validate_tool_call_args\<close> and \<open>repair_json_args\<close> of
  \<open>src/src/providers/mod.rs\<close>). Whether a text is JSON is decided by the crate \<open>serde_json\<close>: a parameter
  \<open>valid\<close> of the definitions, and \<open>reject\<close> is the error object it renders.
\<close>

section \<open>The scanner\<close>

definition is_json_escape :: "uchar \<Rightarrow> bool" where
  "is_json_escape c \<longleftrightarrow> c \<in> set (str ''bfnrt'') \<or> c = 34 \<or> c = 92 \<or> c = 47"

definition is_hex_digit :: "uchar \<Rightarrow> bool" where
  "is_hex_digit c \<longleftrightarrow> is_ascii_digit c \<or> 97 \<le> c \<and> c \<le> 102 \<or> 65 \<le> c \<and> c \<le> 70"

text \<open>\<open>char::is_control\<close>, the category Cc, for characters\<close>

definition is_control :: "uchar \<Rightarrow> bool" where
  "is_control c \<longleftrightarrow> 0 \<le> c \<and> c < 32 \<or> 127 \<le> c \<and> c < 160"

text \<open>\<open>{:04x}\<close> of a code below 65536\<close>

definition hex_digit :: "int \<Rightarrow> uchar" where
  "hex_digit n = (if n < 10 then 48 + n else 87 + n)"

definition hex4 :: "int \<Rightarrow> ustr" where
  "hex4 n = [hex_digit (n div 4096), hex_digit (n div 256 mod 16), hex_digit (n div 16 mod 16), hex_digit (n mod 16)]"

text \<open>Whether the quote before \<open>rest\<close> can end a string: \<open>rest\<close> is the text after it.\<close>

definition quote_ends_json_string :: "ustr \<Rightarrow> bool" where
  "quote_ends_json_string rest =
     (case dropWhile is_ws rest of
        [] \<Rightarrow> True
      | c # after \<Rightarrow>
          if c = 58 \<or> c = 125 \<or> c = 93 then True
          else if c = 44 then
            (case dropWhile is_ws after of
               [] \<Rightarrow> True
             | t # _ \<Rightarrow> t \<in> {34, 123, 91, 93, 125, 116, 102, 110, 45} \<or> is_ascii_digit t)
          else False)"

text \<open>The counters are \<open>i32\<close>; a text long enough to overflow one cannot be held in memory twice.\<close>

record repair_state =
  repaired :: ustr
  brace_count :: int
  bracket_count :: int
  in_string :: bool

definition emit :: "ustr \<Rightarrow> repair_state \<Rightarrow> repair_state" where
  "emit t st = st\<lparr>repaired := repaired st @ t\<rparr>"

definition count_bracket :: "uchar \<Rightarrow> repair_state \<Rightarrow> repair_state" where
  "count_bracket c st =
     (if c = 123 then st\<lparr>brace_count := brace_count st + 1\<rparr>
      else if c = 125 then st\<lparr>brace_count := brace_count st - 1\<rparr>
      else if c = 91 then st\<lparr>bracket_count := bracket_count st + 1\<rparr>
      else if c = 93 then st\<lparr>bracket_count := bracket_count st - 1\<rparr>
      else st)"

text \<open>Inside a string: what one round of the loop emits for \<open>c\<close>, and how many characters after it it consumes.\<close>

definition backslash_escape :: "ustr \<Rightarrow> ustr \<times> nat" where
  "backslash_escape cs =
     (if cs \<noteq> [] \<and> is_json_escape (hd cs) then ([92, hd cs], 1)
      else if cs \<noteq> [] \<and> hd cs = 117 \<and> 4 \<le> length (tl cs) \<and> list_all is_hex_digit (take 4 (tl cs)) then
        ([92, 117] @ take 4 (tl cs), 5)
      else ([92, 92], 0))"

function scan_json :: "ustr \<Rightarrow> repair_state \<Rightarrow> repair_state" where
  "scan_json [] st = st"
| "scan_json (c # cs) st =
     (if in_string st then
        (if c = 92 then
           (case backslash_escape cs of (t, n) \<Rightarrow> scan_json (drop n cs) (emit t st))
         else if c = 34 \<and> quote_ends_json_string cs then scan_json cs (emit [34] (st\<lparr>in_string := False\<rparr>))
         else if c = 34 then scan_json cs (emit [92, 34] st)
         else if is_control c then scan_json cs (emit ([92, 117] @ hex4 c) st)
         else scan_json cs (emit [c] st))
      else if c = 34 then scan_json cs (emit [34] (st\<lparr>in_string := True\<rparr>))
      else scan_json cs (count_bracket c (emit [c] st)))"
  by pat_completeness auto
termination
  by (relation "measure (\<lambda>(cs, st). length cs)") (simp_all add: less_Suc_eq_le)

definition scan_start :: repair_state where
  "scan_start = \<lparr>repaired = [], brace_count = 0, bracket_count = 0, in_string = False\<rparr>"

definition repair_close_braces :: "(ustr \<Rightarrow> bool) \<Rightarrow> ustr \<Rightarrow> ustr" where
  "repair_close_braces valid args =
     (let st = scan_json args scan_start;
          st' = (if in_string st then emit [34] st else st)
      in if in_string st \<and> valid (repaired st') then repaired st'
         else repaired st' @ replicate (nat (bracket_count st')) 93 @ replicate (nat (brace_count st')) 125)"

definition find_json_start :: "ustr \<Rightarrow> ustr option" where
  "find_json_start s =
     (case dropWhile (\<lambda>c. c \<noteq> 123 \<and> c \<noteq> 91) s of [] \<Rightarrow> None | r \<Rightarrow> if r = s then None else Some r)"

definition repair_json_args :: "(ustr \<Rightarrow> bool) \<Rightarrow> ustr \<Rightarrow> ustr" where
  "repair_json_args valid args =
     (let trimmed = trim args in
      case find_json_start trimmed of
        Some stripped \<Rightarrow> if valid stripped then stripped else repair_close_braces valid stripped
      | None \<Rightarrow> repair_close_braces valid trimmed)"

definition validate_tool_call_args :: "(ustr \<Rightarrow> bool) \<Rightarrow> (ustr \<Rightarrow> ustr) \<Rightarrow> ustr \<Rightarrow> ustr" where
  "validate_tool_call_args valid reject args =
     (if args = [] then str ''{}''
      else if valid args then args
      else
        let r = repair_json_args valid args
        in if valid r then r else reject args)"

section \<open>A strict scanner of JSON texts\<close>

text \<open>
  What a JSON lexer accepts of strings: inside one, a backslash starts an escape of the grammar and a character
  below 32 does not occur. \<open>json_scan\<close> reads a text from a state, inside a string or not with the braces and the
  brackets open outside of strings, to the state at its end; it fails at a string that is not well-formed.
\<close>

type_synonym scan_at = "bool \<times> int \<times> int"

fun json_scan :: "scan_at \<Rightarrow> ustr \<Rightarrow> scan_at option" where
  "json_scan p [] = Some p"
| "json_scan (False, a, b) (c # cs) =
     json_scan (c = 34, a + (if c = 123 then 1 else if c = 125 then -1 else 0),
       b + (if c = 91 then 1 else if c = 93 then -1 else 0)) cs"
| "json_scan (True, a, b) (c # cs) =
     (if c = 34 then json_scan (False, a, b) cs
      else if c = 92 then
        (case cs of
           [] \<Rightarrow> None
         | e # r \<Rightarrow>
             if is_json_escape e then json_scan (True, a, b) r
             else if e = 117 \<and> 4 \<le> length r \<and> list_all is_hex_digit (take 4 r) then json_scan (True, a, b) (drop 4 r)
             else None)
      else if 0 \<le> c \<and> c < 32 then None
      else json_scan (True, a, b) cs)"

lemma json_scan_append:
  "json_scan p s = Some q \<Longrightarrow> json_scan p (s @ t) = json_scan q t"
proof (induction p s rule: json_scan.induct)
  case (3 a b c cs)
  show ?case
  proof (cases "c = 92")
    case True
    then show ?thesis using 3 by (cases cs) (auto split: if_splits)
  next
    case False
    then show ?thesis using 3 by (auto split: if_splits)
  qed
qed auto

definition scan_state :: "repair_state \<Rightarrow> scan_at" where
  "scan_state st = (in_string st, brace_count st, bracket_count st)"

text \<open>The text emitted so far is read back to the state of the repair.\<close>

definition repair_inv :: "repair_state \<Rightarrow> bool" where
  "repair_inv st \<longleftrightarrow> json_scan (False, 0, 0) (repaired st) = Some (scan_state st)"

lemma repair_inv_emit:
  assumes "repair_inv st" and "json_scan (scan_state st) t = Some (scan_state st')"
    and "repaired st' = repaired st @ t"
  shows "repair_inv st'"
  using assms json_scan_append[of "(False, 0, 0)" "repaired st" "scan_state st" t] by (simp add: repair_inv_def)

lemma emit_fields [simp]:
  "repaired (emit t st) = repaired st @ t" "scan_state (emit t st) = scan_state st" "in_string (emit t st) = in_string st"
  by (simp_all add: emit_def scan_state_def)

lemma count_bracket_fields [simp]: "repaired (count_bracket c st) = repaired st"
  by (simp add: count_bracket_def)

lemma scan_state_string: "scan_state (st\<lparr>in_string := b\<rparr>) = (b, snd (scan_state st))"
  by (simp add: scan_state_def)

lemma hex4_digits: "0 \<le> c \<Longrightarrow> c < 65536 \<Longrightarrow> list_all is_hex_digit (hex4 c)"
proof -
  assume c: "0 \<le> c" "c < 65536"
  have h: "0 \<le> n \<Longrightarrow> n < 16 \<Longrightarrow> is_hex_digit (hex_digit n)" for n
    by (simp add: hex_digit_def is_hex_digit_def is_ascii_digit_def)
  have "c div 4096 < 16" using c by auto
  then show ?thesis using c by (simp add: hex4_def h)
qed

lemma length_hex4: "length (hex4 c) = 4"
  by (simp add: hex4_def)

lemma backslash_escape_scan:
  "backslash_escape cs = (t, n) \<Longrightarrow> json_scan (True, a, b) t = Some (True, a, b)"
  by (cases cs) (auto simp: backslash_escape_def split: if_splits simp: is_json_escape_def str_def)

lemma scan_json_inv: "repair_inv st \<Longrightarrow> repair_inv (scan_json cs st)"
proof (induction cs st rule: scan_json.induct)
  case (1 st)
  then show ?case by simp
next
  case (2 c cs st)
  obtain a b where at: "scan_state st = (in_string st, a, b)" by (simp add: scan_state_def)
  show ?case
  proof (cases "in_string st")
    case False
    show ?thesis
    proof (cases "c = 34")
      case True
      have "repair_inv (emit [34] (st\<lparr>in_string := True\<rparr>))"
        by (rule repair_inv_emit[OF 2(8), where t = "[34]"]) (use at False in \<open>simp_all add: scan_state_string\<close>)
      then show ?thesis using 2(6) False True by simp
    next
      case c: False
      have "repair_inv (count_bracket c (emit [c] st))"
        by (rule repair_inv_emit[OF 2(8), where t = "[c]"]) (use False c in \<open>auto simp: scan_state_def count_bracket_def emit_def\<close>)
      then show ?thesis using 2(7) False c by simp
    qed
  next
    case True
    have at: "scan_state st = (True, a, b)" using at True by simp
    have keep: "repair_inv (emit t st)" if "json_scan (True, a, b) t = Some (True, a, b)" for t
      by (rule repair_inv_emit[OF 2(8), where t = t]) (use at that in simp_all)
    consider "c = 92" | "c = 34" "quote_ends_json_string cs" | "c = 34" "\<not> quote_ends_json_string cs"
      | "c \<noteq> 92" "c \<noteq> 34" by blast
    then show ?thesis
    proof cases
      case 1
      obtain t n where e: "backslash_escape cs = (t, n)" by fastforce
      have "repair_inv (emit t st)" by (rule keep[OF backslash_escape_scan[OF e]])
      then show ?thesis using 2(1)[OF True 1 e[symmetric]] True 1 e by simp
    next
      case q: 2
      have "repair_inv (emit [34] (st\<lparr>in_string := False\<rparr>))"
        by (rule repair_inv_emit[OF 2(8), where t = "[34]"]) (use at in \<open>simp_all add: scan_state_string\<close>)
      then show ?thesis using 2(2) True q by simp
    next
      case 3
      have "repair_inv (emit [92, 34] st)" by (rule keep) (simp add: is_json_escape_def)
      then show ?thesis using 2(3) True 3 by simp
    next
      case 4
      show ?thesis
      proof (cases "is_control c")
        case ctl: True
        then have "list_all is_hex_digit (hex4 c)" by (intro hex4_digits) (auto simp: is_control_def)
        then have "json_scan (True, a, b) ([92, 117] @ hex4 c) = Some (True, a, b)"
          by (simp add: length_hex4 is_json_escape_def str_def)
        then have "repair_inv (emit ([92, 117] @ hex4 c) st)" by (rule keep)
        then show ?thesis using 2(4) True 4 ctl by simp
      next
        case nc: False
        have "repair_inv (emit [c] st)" by (rule keep) (use 4 nc in \<open>auto simp: is_control_def\<close>)
        then show ?thesis using 2(5) True 4 nc by simp
      qed
    qed
  qed
qed

lemma json_scan_closers:
  "json_scan (False, a, b) (replicate k 93 @ replicate n 125) = Some (False, a - int n, b - int k)"
proof -
  have "json_scan (False, a, b) (replicate n 125) = Some (False, a - int n, b)" for a b
    by (induction n arbitrary: a) simp_all
  then show ?thesis
    by (induction k arbitrary: b) simp_all
qed

lemma repaired_scan:
  "\<exists>a b. json_scan (False, 0, 0) (repair_close_braces valid args) = Some (False, a, b)
     \<and> (valid (repair_close_braces valid args) \<or> a \<le> 0 \<and> b \<le> 0)"
proof -
  define st where "st = scan_json args scan_start"
  define st' where "st' = (if in_string st then emit [34] st else st)"
  have inv: "repair_inv st"
    unfolding st_def by (rule scan_json_inv) (simp add: repair_inv_def scan_start_def scan_state_def)
  have closed: "json_scan (False, 0, 0) (repaired st') = Some (False, brace_count st', bracket_count st')"
    using inv json_scan_append[of "(False, 0, 0)" "repaired st" "scan_state st" "[34]"]
    by (auto simp: st'_def repair_inv_def scan_state_def emit_def)
  define closers :: ustr where "closers = replicate (nat (bracket_count st')) 93 @ replicate (nat (brace_count st')) 125"
  have r: "repair_close_braces valid args =
      (if in_string st \<and> valid (repaired st') then repaired st' else repaired st' @ closers)"
    by (simp add: repair_close_braces_def Let_def closers_def st'_def st_def)
  have e: "json_scan (False, 0, 0) (repaired st' @ closers)
      = Some (False, brace_count st' - int (nat (brace_count st')), bracket_count st' - int (nat (bracket_count st')))"
    using json_scan_append[OF closed, of closers] by (simp add: closers_def json_scan_closers)
  show ?thesis
  proof (cases "in_string st \<and> valid (repaired st')")
    case True
    then show ?thesis using r closed by simp
  next
    case False
    then have "repair_close_braces valid args = repaired st' @ closers" using r by (simp only: if_False)
    then show ?thesis using e by simp
  qed
qed

text \<open>Whatever the model wrote, in the repaired arguments every string is closed and well-formed, with no bad
  escape and no raw control character, and unless the text is valid at once, no brace or bracket is left open.\<close>

theorem repair_closes_everything:
  "\<exists>a b. json_scan (False, 0, 0) (repair_close_braces valid args) = Some (False, a, b)
     \<and> (valid (repair_close_braces valid args) \<or> a \<le> 0 \<and> b \<le> 0)"
  by (rule repaired_scan)

text \<open>Valid arguments are passed on as they are, and with a valid error object the result is always valid.\<close>

lemma validated_arguments:
  assumes "valid (str ''{}'')" and "\<And>t. valid (reject t)"
  shows "valid (validate_tool_call_args valid reject args)"
    and "valid args \<Longrightarrow> args \<noteq> [] \<Longrightarrow> validate_tool_call_args valid reject args = args"
  using assms by (simp_all add: validate_tool_call_args_def Let_def)

text \<open>The closers come brackets first, so an object opened inside a list is not repaired.\<close>

lemma closers_in_fixed_order:
  "repair_close_braces (\<lambda>_. False) [91, 123, 34, 97, 34, 58, 49] = [91, 123, 34, 97, 34, 58, 49, 93, 125]"
  by code_simp

end
