(* ===== verification/ProviderRetry.thy ===== *)
theory ProviderRetry
  imports Prelude "HOL-Library.Word"
begin

text \<open>
  Provider errors (\<open>src/src/providers/mod.rs\<close>) and the retries of a request
  (\<open>src/src/core/provider_retry.rs\<close>). The provider, the random jitter, the time of a cancellation and the reason
  phrases of the status codes are parameters; the text of the retry notice, with its rounded seconds, is kept as its
  values.
\<close>

section \<open>Numbers\<close>

text \<open>\<open>u64::saturating_mul\<close> and \<open>u64::saturating_add\<close>\<close>

definition sat_mul :: "64 word \<Rightarrow> 64 word \<Rightarrow> 64 word" where
  "sat_mul a b = (if uint a * uint b < 18446744073709551616 then a * b else - 1)"

definition sat_add :: "64 word \<Rightarrow> 64 word \<Rightarrow> 64 word" where
  "sat_add a b = (if uint a + uint b < 18446744073709551616 then a + b else - 1)"

text \<open>\<open>parse::<u16>\<close> and \<open>parse::<u64>\<close>: digits after an optional plus sign, up to the largest value\<close>

definition decimal_value :: "ustr \<Rightarrow> int" where
  "decimal_value ds = foldl (\<lambda>n c. 10 * n + (c - 48)) 0 ds"

definition parse_unsigned :: "int \<Rightarrow> ustr \<Rightarrow> int option" where
  "parse_unsigned limit s =
     (let ds = (case strip_prefix (str ''+'') s of Some r \<Rightarrow> r | None \<Rightarrow> s)
      in if ds = [] \<or> \<not> list_all is_ascii_digit ds \<or> limit < decimal_value ds then None
         else Some (decimal_value ds))"

section \<open>Errors\<close>

datatype provider_error =
    NetworkError ustr
  | AuthenticationError ustr
  | RateLimitError ustr "64 word option"
  | InvalidRequest ustr
  | ApiError ustr
  | UnexpectedError ustr

record provider_http_error =
  he_provider :: ustr
  he_url :: ustr
  he_status :: int
  he_body :: ustr
  he_retry_delay :: "64 word option"

text \<open>\<open>status\<close> is the rendering of a status code by the crate \<open>http\<close>: its number, a space and its reason.\<close>

definition http_error_text :: "(int \<Rightarrow> ustr) \<Rightarrow> provider_http_error \<Rightarrow> ustr" where
  "http_error_text reason e =
     he_provider e @ str '' POST '' @ he_url e @ str '' failed: ''
       @ show_nat (nat (he_status e)) @ str '' '' @ reason (he_status e) @ str '' - '' @ he_body e"

definition provider_error_from_http :: "(int \<Rightarrow> ustr) \<Rightarrow> provider_http_error \<Rightarrow> provider_error" where
  "provider_error_from_http reason e =
     (if 400 \<le> he_status e \<and> he_status e < 500 then
        if he_status e = 401 \<or> he_status e = 403 then AuthenticationError (http_error_text reason e)
        else if he_status e = 429 then RateLimitError (http_error_text reason e) (he_retry_delay e)
        else InvalidRequest (http_error_text reason e)
      else ApiError (http_error_text reason e))"

text \<open>The delay of a rate limit from the headers, in milliseconds; the product wraps in the release profile.\<close>

definition u64_max :: int where
  "u64_max = 18446744073709551615"

definition parse_retry_delay_from_headers ::
    "ustr option \<Rightarrow> ustr option \<Rightarrow> ustr option \<Rightarrow> int option \<Rightarrow> 64 word option" where
  "parse_retry_delay_from_headers retry_after x_reset reset now =
     (case (case retry_after of Some v \<Rightarrow> parse_unsigned u64_max v | None \<Rightarrow> None) of
        Some secs \<Rightarrow> Some (word_of_int (secs * 1000))
      | None \<Rightarrow>
          (case (case (case x_reset of Some v \<Rightarrow> Some v | None \<Rightarrow> reset) of
                   Some v \<Rightarrow> parse_unsigned u64_max v | None \<Rightarrow> None) of
             Some epoch_secs \<Rightarrow> map_option (\<lambda>t. word_of_int (max 0 (epoch_secs - t) * 1000)) now
           | None \<Rightarrow> None))"

section \<open>Delays\<close>

record retry_config =
  max_retries :: nat
  base_delay_ms :: "64 word"
  max_delay_ms :: "64 word"

text \<open>\<open>RetryConfig::default\<close> on the values of the three environment variables\<close>

definition env_var_nonzero :: "ustr option \<Rightarrow> int \<Rightarrow> int" where
  "env_var_nonzero value fallback =
     (case value of
        Some v \<Rightarrow> (case parse_unsigned u64_max v of Some n \<Rightarrow> if 0 < n then n else fallback | None \<Rightarrow> fallback)
      | None \<Rightarrow> fallback)"

definition default_retry_config :: "ustr option \<Rightarrow> ustr option \<Rightarrow> ustr option \<Rightarrow> retry_config" where
  "default_retry_config retries base upper =
     \<lparr>max_retries = nat (env_var_nonzero retries 3), base_delay_ms = word_of_int (env_var_nonzero base 1000),
      max_delay_ms = word_of_int (env_var_nonzero upper 10000)\<rparr>"

definition is_retryable_status_code :: "int \<Rightarrow> bool" where
  "is_retryable_status_code status \<longleftrightarrow> status \<in> {408, 429, 500, 502, 503, 504, 529}"

text \<open>\<open>jitter\<close> is \<open>fastrand::u64(0..=bound)\<close>.\<close>

definition exponential_backoff_delay :: "(64 word \<Rightarrow> 64 word) \<Rightarrow> nat \<Rightarrow> retry_config \<Rightarrow> 64 word" where
  "exponential_backoff_delay jitter attempt cfg =
     (let factor = push_bit (min attempt 10) 1;
          delay = min (sat_mul (base_delay_ms cfg) factor) (max_delay_ms cfg)
      in if 4 \<le> delay then min (sat_add delay (jitter (delay div 4))) (max_delay_ms cfg) else delay)"

fun find_sub :: "ustr \<Rightarrow> ustr \<Rightarrow> ustr option" where
  "find_sub p [] = (if p = [] then Some [] else None)"
| "find_sub p (c # cs) = (if starts_with p (c # cs) then Some (c # cs) else find_sub p cs)"

text \<open>\<open>split_whitespace().nth(1)\<close> of a text that does not start with white space\<close>

definition second_word :: "ustr \<Rightarrow> ustr option" where
  "second_word s =
     (let r = takeWhile (\<lambda>c. \<not> is_ws c) (dropWhile is_ws (dropWhile (\<lambda>c. \<not> is_ws c) s))
      in if r = [] then None else Some r)"

definition retry_delay_for_error ::
    "(64 word \<Rightarrow> 64 word) \<Rightarrow> provider_error \<Rightarrow> nat \<Rightarrow> retry_config \<Rightarrow> 64 word option" where
  "retry_delay_for_error jitter e attempt cfg =
     (case e of
        NetworkError _ \<Rightarrow> Some (exponential_backoff_delay jitter attempt cfg)
      | RateLimitError _ (Some ms) \<Rightarrow> Some (min ms (max_delay_ms cfg))
      | RateLimitError _ None \<Rightarrow> Some (exponential_backoff_delay jitter attempt cfg)
      | ApiError msg \<Rightarrow>
          (case find_sub (str ''failed: '') msg of
             None \<Rightarrow> None
           | Some remainder \<Rightarrow>
               (case second_word remainder of
                  None \<Rightarrow> None
                | Some word \<Rightarrow>
                    (case parse_unsigned 65535 word of
                       None \<Rightarrow> None
                     | Some status \<Rightarrow>
                         if is_retryable_status_code status
                         then Some (exponential_backoff_delay jitter attempt cfg) else None)))
      | _ \<Rightarrow> None)"

section \<open>The retry loop\<close>

text \<open>The wait polls the cancellation every 100 ms: whether it was cancelled and the milliseconds slept.\<close>

function poll_sleep :: "(nat \<Rightarrow> bool) \<Rightarrow> nat \<Rightarrow> int \<Rightarrow> int \<Rightarrow> bool \<times> int" where
  "poll_sleep cancelled n delay elapsed =
     (if elapsed < delay then
        if cancelled n then (True, 0)
        else (let (c, ms) = poll_sleep cancelled (Suc n) delay (elapsed + 100)
              in (c, min 100 (delay - elapsed) + ms))
      else (False, 0))"
  by pat_completeness auto
termination
  by (relation "measure (\<lambda>(_, _, delay, elapsed). nat (delay - elapsed))") auto

declare poll_sleep.simps [simp del]

text \<open>What the outside does: the outcome of each call, the jitter of each delay, and, when the caller can cancel,
  the flag at each poll of each delay.\<close>

record 's retry_world =
  call_outcome :: "nat \<Rightarrow> provider_error + 's"
  jitter_of :: "nat \<Rightarrow> 64 word \<Rightarrow> 64 word"
  cancel_flag :: "(nat \<Rightarrow> nat \<Rightarrow> bool) option"

datatype retry_notice = Retrying provider_error nat nat "64 word" | GaveUp ustr

record 's retry_run =
  outcome :: "provider_error + 's"
  calls :: nat
  slept_ms :: int
  notices :: "retry_notice list"
  failures :: "32 word"
  did_retry :: bool

definition sat_succ32 :: "32 word \<Rightarrow> 32 word" where
  "sat_succ32 w = (if w = - 1 then - 1 else w + 1)"

definition gave_up_text :: "nat \<Rightarrow> 32 word \<Rightarrow> ustr" where
  "gave_up_text retries fails =
     [9888] @ str '' Provider failed after '' @ show_nat retries @ str '' retries. ''
     @ (if 3 \<le> fails then
          show_nat (unat fails) @ str '' consecutive provider requests have failed. Use /model <provider/model> to switch or retry after the provider recovers.''
        else str ''Request '' @ show_nat (unat fails)
          @ str ''/3 failed consecutively. Retry or use /model <provider/model> to switch.'')"

definition cancelled_error :: provider_error where
  "cancelled_error = NetworkError (str ''cancelled by user during retry delay'')"

text \<open>One round of the loop for the attempt \<open>k\<close>; the recursion is bounded by \<open>max_retries\<close>.\<close>

function retry_loop :: "'s retry_world \<Rightarrow> retry_config \<Rightarrow> bool \<Rightarrow> nat \<Rightarrow> 's retry_run \<Rightarrow> 's retry_run" where
  "retry_loop w cfg json k r0 =
     (let r = r0\<lparr>calls := calls r0 + 1, outcome := call_outcome w k\<rparr> in
      (case call_outcome w k of
         Inr s \<Rightarrow> r\<lparr>failures := 0\<rparr>
       | Inl e \<Rightarrow>
           (case retry_delay_for_error (jitter_of w k) e k cfg of
              None \<Rightarrow> r
            | Some delay \<Rightarrow>
                if max_retries cfg \<le> k then
                  let n = sat_succ32 (failures r) in
                  r\<lparr>failures := n, notices := notices r @ [GaveUp (gave_up_text (max_retries cfg) n)]\<rparr>
                else
                  let r1 = (if k = 0 then r\<lparr>did_retry := True\<rparr> else r);
                      r2 = (if json then r1 else
                              r1\<lparr>notices := notices r1 @ [Retrying e (k + 1) (max_retries cfg) delay]\<rparr>);
                      (stopped, ms) = (case cancel_flag w of
                          Some flag \<Rightarrow> poll_sleep (flag k) 0 (uint delay) 0
                        | None \<Rightarrow> (False, uint delay));
                      r3 = r2\<lparr>slept_ms := slept_ms r2 + ms\<rparr>
                  in if stopped then r3\<lparr>outcome := Inl cancelled_error\<rparr>
                     else retry_loop w cfg json (k + 1) r3)))"
  by pat_completeness auto
termination
  by (relation "measure (\<lambda>(_, cfg, _, k, _). max_retries cfg - k)") auto

declare retry_loop.simps [simp del]

text \<open>\<open>window\<close> is the verdict of the context window, \<open>fails\<close> and \<open>retried\<close> the state of the task before.\<close>

definition create_message_with_retry ::
    "ustr + unit \<Rightarrow> 's retry_world \<Rightarrow> retry_config \<Rightarrow> bool \<Rightarrow> 32 word \<Rightarrow> bool \<Rightarrow> 's retry_run" where
  "create_message_with_retry window w cfg json fails retried =
     (case window of
        Inl msg \<Rightarrow> \<lparr>outcome = Inl (InvalidRequest msg), calls = 0, slept_ms = 0, notices = [], failures = fails,
                    did_retry = retried\<rparr>
      | Inr _ \<Rightarrow> retry_loop w cfg json 0
                    \<lparr>outcome = Inl cancelled_error, calls = 0, slept_ms = 0, notices = [], failures = fails,
                     did_retry = retried\<rparr>)"

section \<open>Bounds\<close>

lemma backoff_le: "exponential_backoff_delay j k cfg \<le> max_delay_ms cfg"
  by (simp add: exponential_backoff_delay_def Let_def)

lemma retry_delay_le: "retry_delay_for_error j e k cfg = Some d \<Longrightarrow> d \<le> max_delay_ms cfg"
  using backoff_le[of j k cfg]
  by (auto simp: retry_delay_for_error_def split: provider_error.splits option.splits if_splits)

lemma poll_sleep_bounds:
  "snd (poll_sleep c n delay elapsed) \<ge> 0 \<and> snd (poll_sleep c n delay elapsed) \<le> max 0 (delay - elapsed)"
proof (induction c n delay elapsed rule: poll_sleep.induct)
  case (1 c n delay elapsed)
  show ?case
  proof (cases "elapsed < delay \<and> \<not> c n")
    case True
    obtain b ms where r: "poll_sleep c (Suc n) delay (elapsed + 100) = (b, ms)" by fastforce
    have ms: "0 \<le> ms" "ms \<le> max 0 (delay - (elapsed + 100))" using 1 True r by auto
    have "poll_sleep c n delay elapsed = (b, min 100 (delay - elapsed) + ms)"
      using True r by (subst poll_sleep.simps) simp
    then show ?thesis using ms True by auto
  next
    case False
    then show ?thesis by (subst (1 2) poll_sleep.simps) auto
  qed
qed

lemma waiting_bounds:
  assumes "(case cancel of Some flag \<Rightarrow> poll_sleep (flag k) 0 (uint d) 0 | None \<Rightarrow> (False, uint d)) = (stopped, ms)"
  shows "0 \<le> ms" "ms \<le> uint (d :: 64 word)"
  using assms poll_sleep_bounds[of "the cancel k" 0 "uint d" 0] by (cases cancel; auto)+

text \<open>One round after a failure that is to be retried\<close>

lemma retry_loop_step:
  assumes Inl: "call_outcome w k = Inl e" and Some: "retry_delay_for_error (jitter_of w k) e k cfg = Some d"
    and False: "\<not> max_retries cfg \<le> k"
  obtains r3 stopped ms where
    "retry_loop w cfg json k r0 = (if stopped then r3\<lparr>outcome := Inl cancelled_error\<rparr>
       else retry_loop w cfg json (k + 1) r3)"
    "calls r3 = calls r0 + 1" "slept_ms r3 = slept_ms r0 + ms" "failures r3 = failures r0"
    "0 \<le> ms" "ms \<le> uint (max_delay_ms cfg)" "cancel_flag w = None \<longrightarrow> \<not> stopped"
proof -
  define r where "r = r0\<lparr>calls := calls r0 + 1, outcome := call_outcome w k\<rparr>"
  define r1 where "r1 = (if k = 0 then r\<lparr>did_retry := True\<rparr> else r)"
  define r2 where "r2 = (if json then r1 else
     r1\<lparr>notices := notices r1 @ [Retrying e (k + 1) (max_retries cfg) d]\<rparr>)"
  obtain stopped ms where w: "(case cancel_flag w of Some flag \<Rightarrow> poll_sleep (flag k) 0 (uint d) 0
      | None \<Rightarrow> (False, uint d)) = (stopped, ms)" by fastforce
  define r3 where "r3 = r2\<lparr>slept_ms := slept_ms r2 + ms\<rparr>"
  have step: "retry_loop w cfg json k r0 = (if stopped then r3\<lparr>outcome := Inl cancelled_error\<rparr>
      else retry_loop w cfg json (k + 1) r3)"
    unfolding r3_def r2_def r1_def r_def
    by (subst retry_loop.simps) (simp only: Let_def Inl Some False w sum.case option.case if_False prod.case)
  have f: "calls r3 = calls r0 + 1" "slept_ms r3 = slept_ms r0 + ms" "failures r3 = failures r0"
    by (simp_all add: r3_def r2_def r1_def r_def)
  have ms: "0 \<le> ms" "ms \<le> uint (max_delay_ms cfg)"
    using waiting_bounds[OF w] retry_delay_le[OF Some] by (auto simp: word_le_def)
  have nc: "cancel_flag w = None \<longrightarrow> \<not> stopped" using w by (cases "cancel_flag w") simp_all
  show ?thesis by (rule that[OF step f ms nc])
qed

lemma retry_loop_bounds:
  "k \<le> max_retries cfg \<Longrightarrow>
     calls (retry_loop w cfg json k r) \<le> calls r + (max_retries cfg - k) + 1
     \<and> slept_ms r \<le> slept_ms (retry_loop w cfg json k r)
     \<and> slept_ms (retry_loop w cfg json k r) \<le> slept_ms r + int (max_retries cfg - k) * uint (max_delay_ms cfg)"
proof (induction "max_retries cfg - k" arbitrary: k r rule: less_induct)
  case less
  show ?case
  proof (cases "\<exists>e d. call_outcome w k = Inl e \<and> retry_delay_for_error (jitter_of w k) e k cfg = Some d
      \<and> \<not> max_retries cfg \<le> k")
    case False
    then show ?thesis
      by (subst (1 2 3) retry_loop.simps) (auto simp: Let_def split: sum.splits option.splits)
  next
    case True
    then obtain e d where f: "call_outcome w k = Inl e" "retry_delay_for_error (jitter_of w k) e k cfg = Some d"
      "\<not> max_retries cfg \<le> k" by blast
    obtain r3 stopped ms where step: "retry_loop w cfg json k r = (if stopped then r3\<lparr>outcome := Inl cancelled_error\<rparr>
        else retry_loop w cfg json (k + 1) r3)"
      and r3: "calls r3 = calls r + 1" "slept_ms r3 = slept_ms r + ms" "failures r3 = failures r"
      and ms: "0 \<le> ms" "ms \<le> uint (max_delay_ms cfg)" "cancel_flag w = None \<longrightarrow> \<not> stopped"
      using retry_loop_step[OF f, of json r] by metis
    have rest: "int (max_retries cfg - k) * uint (max_delay_ms cfg)
        = uint (max_delay_ms cfg) + int (max_retries cfg - (k + 1)) * uint (max_delay_ms cfg)"
      using f(3) by (simp add: algebra_simps of_nat_diff)
    have "0 \<le> int (max_retries cfg - (k + 1)) * uint (max_delay_ms cfg)" by simp
    then have total: "ms \<le> int (max_retries cfg - k) * uint (max_delay_ms cfg)"
      using ms(2) unfolding rest by linarith
    show ?thesis
    proof (cases stopped)
      case True
      then show ?thesis using step r3 ms(1) total by simp
    next
      case go: False
      have nk: "calls r + 1 + (max_retries cfg - (k + 1)) + 1 = calls r + (max_retries cfg - k) + 1"
        using f(3) by simp
      have step': "retry_loop w cfg json k r = retry_loop w cfg json (k + 1) r3"
        using step go by (simp only: if_False)
      have ih: "calls (retry_loop w cfg json (k + 1) r3) \<le> calls r3 + (max_retries cfg - (k + 1)) + 1
         \<and> slept_ms r3 \<le> slept_ms (retry_loop w cfg json (k + 1) r3)
         \<and> slept_ms (retry_loop w cfg json (k + 1) r3)
             \<le> slept_ms r3 + int (max_retries cfg - (k + 1)) * uint (max_delay_ms cfg)"
        by (rule less) (use f(3) in auto)
      show ?thesis
        unfolding step' using ih r3 ms rest nk by (intro conjI) linarith+
    qed
  qed
qed

text \<open>C36. Whatever the provider answers and whenever the user cancels, a request ends after at most one call more than
  the configured retries, and the waits between the calls never exceed the retries times the largest delay.\<close>

theorem retries_bounded:
  "calls (create_message_with_retry window w cfg json fails retried) \<le> max_retries cfg + 1
   \<and> 0 \<le> slept_ms (create_message_with_retry window w cfg json fails retried)
   \<and> slept_ms (create_message_with_retry window w cfg json fails retried)
       \<le> int (max_retries cfg) * uint (max_delay_ms cfg)"
proof (cases window)
  case (Inl msg)
  then show ?thesis by (simp add: create_message_with_retry_def)
next
  case (Inr u)
  then show ?thesis
    using retry_loop_bounds[of 0 cfg w json "\<lparr>outcome = Inl cancelled_error, calls = 0, slept_ms = 0, notices = [],
        failures = fails, did_retry = retried\<rparr>"]
    by (simp add: create_message_with_retry_def)
qed

section \<open>What is retried\<close>

definition retryable_call :: "'s retry_world \<Rightarrow> retry_config \<Rightarrow> nat \<Rightarrow> bool" where
  "retryable_call w cfg k \<longleftrightarrow>
     (case call_outcome w k of
        Inr _ \<Rightarrow> False
      | Inl e \<Rightarrow> retry_delay_for_error (jitter_of w k) e k cfg \<noteq> None)"

text \<open>The count of failed requests after the last call\<close>

definition failures_after :: "'s retry_world \<Rightarrow> retry_config \<Rightarrow> nat \<Rightarrow> 32 word \<Rightarrow> 32 word" where
  "failures_after w cfg n fails =
     (case call_outcome w n of
        Inr _ \<Rightarrow> 0
      | Inl _ \<Rightarrow> if retryable_call w cfg n then sat_succ32 fails else fails)"

lemma retry_loop_result:
  assumes "cancel_flag w = None" and "k \<le> n" and "n \<le> max_retries cfg"
    and "\<And>j. k \<le> j \<Longrightarrow> j < n \<Longrightarrow> retryable_call w cfg j" and "n = max_retries cfg \<or> \<not> retryable_call w cfg n"
  shows "outcome (retry_loop w cfg json k r) = call_outcome w n
     \<and> calls (retry_loop w cfg json k r) = calls r + (n - k) + 1
     \<and> failures (retry_loop w cfg json k r) = failures_after w cfg n (failures r)"
  using assms
proof (induction "n - k" arbitrary: k r)
  case 0
  then have kn: "k = n" by simp
  show ?case
  proof (cases "call_outcome w n")
    case (Inr s)
    then show ?thesis using kn by (subst (1 2 3) retry_loop.simps) (simp add: Let_def failures_after_def)
  next
    case (Inl e)
    then show ?thesis
      using kn 0 by (subst (1 2 3) retry_loop.simps)
        (auto simp: Let_def failures_after_def retryable_call_def split: option.splits)
  qed
next
  case (Suc m)
  then have "retryable_call w cfg k" by simp
  then obtain e d where e: "call_outcome w k = Inl e" and d: "retry_delay_for_error (jitter_of w k) e k cfg = Some d"
    by (auto simp: retryable_call_def split: sum.splits)
  have k: "\<not> max_retries cfg \<le> k" using Suc by simp
  obtain r3 where step: "retry_loop w cfg json k r = retry_loop w cfg json (k + 1) r3"
    and f: "calls r3 = calls r + 1" "failures r3 = failures r"
  proof (rule retry_loop_step[OF e d k, of json r])
    fix r3 stopped and ms :: int
    assume "retry_loop w cfg json k r = (if stopped then r3\<lparr>outcome := Inl cancelled_error\<rparr>
        else retry_loop w cfg json (k + 1) r3)"
      "calls r3 = calls r + 1" "failures r3 = failures r" "cancel_flag w = None \<longrightarrow> \<not> stopped"
    then show thesis using that Suc.prems(1) by simp
  qed
  have "outcome (retry_loop w cfg json (k + 1) r3) = call_outcome w n
     \<and> calls (retry_loop w cfg json (k + 1) r3) = calls r3 + (n - (k + 1)) + 1
     \<and> failures (retry_loop w cfg json (k + 1) r3) = failures_after w cfg n (failures r3)"
    by (rule Suc.hyps(1)) (use Suc in auto)
  then show ?case using step f Suc by simp
qed

text \<open>Without a cancellation the result is that of the first call that succeeds, fails for good or is the last one
  allowed; a success resets the count of failed requests and an exhausted request raises it.\<close>

theorem first_final_call_decides:
  assumes "cancel_flag w = None" and "n \<le> max_retries cfg" and "list_all (retryable_call w cfg) [0..<n]"
    and "n = max_retries cfg \<or> \<not> retryable_call w cfg n"
  shows "outcome (create_message_with_retry (Inr ()) w cfg json fails retried) = call_outcome w n
     \<and> calls (create_message_with_retry (Inr ()) w cfg json fails retried) = n + 1
     \<and> failures (create_message_with_retry (Inr ()) w cfg json fails retried) = failures_after w cfg n fails"
  using retry_loop_result[of w 0 n cfg json "\<lparr>outcome = Inl cancelled_error, calls = 0, slept_ms = 0, notices = [],
      failures = fails, did_retry = retried\<rparr>"] assms
  by (auto simp: create_message_with_retry_def list_all_iff)

theorem first_final_call_decides_witness:
  "\<exists>w cfg. outcome (create_message_with_retry (Inr ()) w cfg False 7 False) = (Inr ''stream'' :: provider_error + string)
     \<and> calls (create_message_with_retry (Inr ()) w cfg False 7 False) = 2
     \<and> failures (create_message_with_retry (Inr ()) w cfg False 7 False) = 0"
proof -
  define w where "w = \<lparr>call_outcome = (\<lambda>k. if k = 0 then Inl (NetworkError (str ''down'')) else Inr ''stream''),
     jitter_of = (\<lambda>_ _. 0), cancel_flag = None\<rparr>"
  define cfg where "cfg = \<lparr>max_retries = 3, base_delay_ms = 1000, max_delay_ms = 10000\<rparr>"
  have "outcome (create_message_with_retry (Inr ()) w cfg False 7 False) = call_outcome w 1
     \<and> calls (create_message_with_retry (Inr ()) w cfg False 7 False) = 1 + 1
     \<and> failures (create_message_with_retry (Inr ()) w cfg False 7 False) = failures_after w cfg 1 7"
    by (rule first_final_call_decides)
       (simp_all add: w_def cfg_def retryable_call_def retry_delay_for_error_def)
  then have "outcome (create_message_with_retry (Inr ()) w cfg False 7 False) = Inr ''stream''
     \<and> calls (create_message_with_retry (Inr ()) w cfg False 7 False) = 2
     \<and> failures (create_message_with_retry (Inr ()) w cfg False 7 False) = 0"
    by (simp add: w_def failures_after_def)
  then show ?thesis by blast
qed
section \<open>Which HTTP failures are retried\<close>

lemma find_sub_here:
  assumes "p \<noteq> []" and "\<not> str_contains p (a @ butlast p)"
  shows "find_sub p (a @ p @ b) = Some (p @ b)"
  using assms(2)
proof (induction a)
  case Nil
  then show ?case using assms(1) by (cases p) (auto simp: starts_with_iff)
next
  case (Cons x a)
  have "\<not> starts_with p (x # a @ p @ b)"
  proof
    assume "starts_with p (x # a @ p @ b)"
    then obtain r where "x # a @ p @ b = p @ r" by (auto simp: starts_with_iff)
    then have "(x # a @ butlast p) @ last p # b = p @ r"
      using assms(1) append_butlast_last_id[of p] by (metis append.assoc append_Cons append_Nil)
    moreover have "length p \<le> length (x # a @ butlast p)" using assms(1) by (cases p) auto
    ultimately have "take (length p) (x # a @ butlast p) = p"
      by (metis append_eq_append_conv_if)
    then have "x # a @ butlast p = [] @ p @ drop (length p) (x # a @ butlast p)"
      by (metis append_Nil append_take_drop_id)
    then show False using Cons.prems str_contains_iff[of p] by (metis append_Cons)
  qed
  then show ?case using Cons by simp
qed

lemma show_nat_decimal: "decimal_value (show_nat n) = int n \<and> list_all is_ascii_digit (show_nat n) \<and> show_nat n \<noteq> []"
proof (induction n rule: show_nat.induct)
  case (1 n)
  show ?case
  proof (cases "n < 10")
    case True
    then show ?thesis
      by (subst (1 2 3) show_nat.simps) (simp add: decimal_value_def is_ascii_digit_def)
  next
    case False
    have "10 * int (n div 10) + int (n mod 10) = int n" by (simp add: of_nat_div of_nat_mod)
    moreover have "is_ascii_digit (int (48 + n mod 10))" by (simp add: is_ascii_digit_def)
    ultimately show ?thesis
      using False 1[OF False] by (subst (1 2 3) show_nat.simps) (simp add: decimal_value_def)
  qed
qed

lemma parse_show_nat:
  assumes "int n \<le> limit"
  shows "parse_unsigned limit (show_nat n) = Some (int n)"
proof -
  obtain c cs where c: "show_nat n = c # cs" "is_ascii_digit c"
    using show_nat_decimal[of n] by (cases "show_nat n") auto
  then have "strip_prefix (str ''+'') (show_nat n) = None"
    by (auto simp: str_def is_ascii_digit_def)
  then show ?thesis using show_nat_decimal[of n] assms by (simp add: parse_unsigned_def)
qed

lemma digit_not_ws: "is_ascii_digit c \<Longrightarrow> \<not> is_ws c"
  by (auto simp: is_ascii_digit_def is_ws_def)

lemma second_word_status: "second_word (str ''failed: '' @ show_nat n @ str '' '' @ r) = Some (show_nat n)"
proof -
  have d: "\<And>c. c \<in> set (show_nat n) \<Longrightarrow> \<not> is_ws c" and ne: "show_nat n \<noteq> []"
    using show_nat_decimal[of n] digit_not_ws by (auto simp: list_all_iff)
  obtain c cs where c: "show_nat n = c # cs" using ne by (cases "show_nat n") auto
  have "dropWhile (\<lambda>c. \<not> is_ws c) (str ''failed: '' @ show_nat n @ str '' '' @ r) = 32 # show_nat n @ str '' '' @ r"
    by (simp add: str_def is_ws_def)
  moreover have "dropWhile is_ws (32 # show_nat n @ str '' '' @ r) = show_nat n @ str '' '' @ r"
  proof -
    have "is_ws 32" "\<not> is_ws c" using d[of c] c by (simp_all add: is_ws_def)
    then show ?thesis by (simp add: c)
  qed
  moreover have "takeWhile (\<lambda>c. \<not> is_ws c) (show_nat n @ str '' '' @ r) = show_nat n"
    using d by (simp add: takeWhile_append2 str_def is_ws_def)
  ultimately show ?thesis using ne by (simp add: second_word_def)
qed

text \<open>A request the server answered with an error status is retried exactly for 429, 500, 502, 503, 504 and 529,
  unless the name of the provider or the address already contains the marker that precedes the status.\<close>

theorem http_failures_retried_iff:
  assumes "0 \<le> he_status e" and "he_status e < 1000"
    and "\<not> str_contains (str ''failed: '') (he_provider e @ str '' POST '' @ he_url e @ str '' failed:'')"
  shows "retry_delay_for_error jitter (provider_error_from_http reason e) k cfg \<noteq> None
     \<longleftrightarrow> he_status e \<in> {429, 500, 502, 503, 504, 529}"
proof (cases "400 \<le> he_status e \<and> he_status e < 500")
  case True
  then show ?thesis
    by (auto simp: provider_error_from_http_def retry_delay_for_error_def split: option.splits)
next
  case False
  define n where "n = nat (he_status e)"
  have n: "int n = he_status e" using assms(1) by (simp add: n_def)
  have bl: "butlast (str ''failed: '') = str ''failed:''" by (simp add: str_def)
  have "find_sub (str ''failed: '') ((he_provider e @ str '' POST '' @ he_url e @ str '' '') @ str ''failed: ''
      @ (show_nat n @ str '' '' @ reason (he_status e) @ str '' - '' @ he_body e))
    = Some (str ''failed: '' @ show_nat n @ str '' '' @ reason (he_status e) @ str '' - '' @ he_body e)"
    by (rule find_sub_here) (use assms(3) in \<open>simp_all add: bl, simp_all add: str_def\<close>)
  then have f: "find_sub (str ''failed: '') (http_error_text reason e)
      = Some (str ''failed: '' @ show_nat n @ str '' '' @ reason (he_status e) @ str '' - '' @ he_body e)"
    by (simp add: http_error_text_def n_def str_def)
  have p: "parse_unsigned 65535 (show_nat n) = Some (he_status e)"
    using parse_show_nat[of n 65535] n assms(2) by simp
  have "provider_error_from_http reason e = ApiError (http_error_text reason e)"
    using False by (auto simp: provider_error_from_http_def)
  then show ?thesis
    using f p False by (auto simp: retry_delay_for_error_def second_word_status is_retryable_status_code_def)
qed

theorem http_failures_retried_iff_witness:
  "retry_delay_for_error (\<lambda>_. 0) (provider_error_from_http (\<lambda>_. str ''Service Unavailable'')
       \<lparr>he_provider = str ''openai'', he_url = str ''https://x'', he_status = 503, he_body = [], he_retry_delay = None\<rparr>) 0
       \<lparr>max_retries = 3, base_delay_ms = 1000, max_delay_ms = 10000\<rparr> \<noteq> None \<longleftrightarrow> (503 :: int) \<in> {429, 500, 502, 503, 504, 529}"
proof -
  let ?e = "\<lparr>he_provider = str ''openai'', he_url = str ''https://x'', he_status = 503, he_body = [], he_retry_delay = None\<rparr>"
  have c: "\<not> str_contains (str ''failed: '') (he_provider ?e @ str '' POST '' @ he_url ?e @ str '' failed:'')"
    by code_simp
  show ?thesis
    using http_failures_retried_iff[of ?e "\<lambda>_. 0" "\<lambda>_. str ''Service Unavailable''" 0
        "\<lparr>max_retries = 3, base_delay_ms = 1000, max_delay_ms = 10000\<rparr>", OF _ _ c] by simp
qed

text \<open>408 is in the list of retryable codes, but a client error other than 429 is never looked up there.\<close>

lemma request_timeout_not_retried:
  "is_retryable_status_code 408"
  "he_status e = 408 \<Longrightarrow> retry_delay_for_error jitter (provider_error_from_http reason e) k cfg = None"
  by (simp_all add: is_retryable_status_code_def provider_error_from_http_def retry_delay_for_error_def)

text \<open>A rate limit that asks for an absurd delay wraps around to a short one.\<close>

lemma huge_retry_after_wraps:
  "parse_retry_delay_from_headers (Some (str ''18446744073709552'')) None None None = Some 384"
  by code_simp

end
