(* ===== verification/UnicodeCase.thy ===== *)
theory UnicodeCase
  imports Prelude
begin

text \<open>
  The case conversion of Rust's standard library that the command rules call: \<open>str::to_lowercase\<close>
  as a table of runs of the Unicode character database (version 16), \<open>str::to_ascii_lowercase\<close>
  (in the prelude) and the words of a text between whitespace. The final form of a capital sigma at the
  end of a word is not distinguished from its other form.
\<close>

section \<open>Lower case\<close>

text \<open>Every run is its first and last code point, its step and the distance to the lower-case letter.\<close>

definition lower_runs :: "(int \<times> int \<times> int \<times> int) list" where
  "lower_runs =
    [(192, 214, 1, 32), (216, 222, 1, 32), (256, 302, 2, 1), (306, 310, 2, 1), (313, 327, 2, 1),
     (330, 374, 2, 1), (376, 376, 1, - 121), (377, 381, 2, 1), (385, 385, 1, 210),
     (386, 388, 2, 1), (390, 390, 1, 206), (391, 391, 1, 1), (393, 394, 1, 205), (395, 395, 1, 1),
     (398, 398, 1, 79), (399, 399, 1, 202), (400, 400, 1, 203), (401, 401, 1, 1),
     (403, 403, 1, 205), (404, 404, 1, 207), (406, 406, 1, 211), (407, 407, 1, 209),
     (408, 408, 1, 1), (412, 412, 1, 211), (413, 413, 1, 213), (415, 415, 1, 214),
     (416, 420, 2, 1), (422, 422, 1, 218), (423, 423, 1, 1), (425, 425, 1, 218), (428, 428, 1, 1),
     (430, 430, 1, 218), (431, 431, 1, 1), (433, 434, 1, 217), (435, 437, 2, 1),
     (439, 439, 1, 219), (440, 440, 1, 1), (444, 444, 1, 1), (452, 452, 1, 2), (453, 453, 1, 1),
     (455, 455, 1, 2), (456, 456, 1, 1), (458, 458, 1, 2), (459, 475, 2, 1), (478, 494, 2, 1),
     (497, 497, 1, 2), (498, 500, 2, 1), (502, 502, 1, - 97), (503, 503, 1, - 56),
     (504, 542, 2, 1), (544, 544, 1, - 130), (546, 562, 2, 1), (570, 570, 1, 10795),
     (571, 571, 1, 1), (573, 573, 1, - 163), (574, 574, 1, 10792), (577, 577, 1, 1),
     (579, 579, 1, - 195), (580, 580, 1, 69), (581, 581, 1, 71), (582, 590, 2, 1),
     (880, 882, 2, 1), (886, 886, 1, 1), (895, 895, 1, 116), (902, 902, 1, 38), (904, 906, 1, 37),
     (908, 908, 1, 64), (910, 911, 1, 63), (913, 929, 1, 32), (931, 939, 1, 32), (975, 975, 1, 8),
     (984, 1006, 2, 1), (1012, 1012, 1, - 60), (1015, 1015, 1, 1), (1017, 1017, 1, - 7),
     (1018, 1018, 1, 1), (1021, 1023, 1, - 130), (1024, 1039, 1, 80), (1040, 1071, 1, 32),
     (1120, 1152, 2, 1), (1162, 1214, 2, 1), (1216, 1216, 1, 15), (1217, 1229, 2, 1),
     (1232, 1326, 2, 1), (1329, 1366, 1, 48), (4256, 4293, 1, 7264), (4295, 4295, 1, 7264),
     (4301, 4301, 1, 7264), (5024, 5103, 1, 38864), (5104, 5109, 1, 8), (7312, 7354, 1, - 3008),
     (7357, 7359, 1, - 3008), (7680, 7828, 2, 1), (7838, 7838, 1, - 7615), (7840, 7934, 2, 1),
     (7944, 7951, 1, - 8), (7960, 7965, 1, - 8), (7976, 7983, 1, - 8), (7992, 7999, 1, - 8),
     (8008, 8013, 1, - 8), (8025, 8031, 2, - 8), (8040, 8047, 1, - 8), (8072, 8079, 1, - 8),
     (8088, 8095, 1, - 8), (8104, 8111, 1, - 8), (8120, 8121, 1, - 8), (8122, 8123, 1, - 74),
     (8124, 8124, 1, - 9), (8136, 8139, 1, - 86), (8140, 8140, 1, - 9), (8152, 8153, 1, - 8),
     (8154, 8155, 1, - 100), (8168, 8169, 1, - 8), (8170, 8171, 1, - 112), (8172, 8172, 1, - 7),
     (8184, 8185, 1, - 128), (8186, 8187, 1, - 126), (8188, 8188, 1, - 9), (8486, 8486, 1, - 7517),
     (8490, 8490, 1, - 8383), (8491, 8491, 1, - 8262), (8498, 8498, 1, 28), (8544, 8559, 1, 16),
     (8579, 8579, 1, 1), (9398, 9423, 1, 26), (11264, 11311, 1, 48), (11360, 11360, 1, 1),
     (11362, 11362, 1, - 10743), (11363, 11363, 1, - 3814), (11364, 11364, 1, - 10727),
     (11367, 11371, 2, 1), (11373, 11373, 1, - 10780), (11374, 11374, 1, - 10749),
     (11375, 11375, 1, - 10783), (11376, 11376, 1, - 10782), (11378, 11378, 1, 1),
     (11381, 11381, 1, 1), (11390, 11391, 1, - 10815), (11392, 11490, 2, 1), (11499, 11501, 2, 1),
     (11506, 11506, 1, 1), (42560, 42604, 2, 1), (42624, 42650, 2, 1), (42786, 42798, 2, 1),
     (42802, 42862, 2, 1), (42873, 42875, 2, 1), (42877, 42877, 1, - 35332), (42878, 42886, 2, 1),
     (42891, 42891, 1, 1), (42893, 42893, 1, - 42280), (42896, 42898, 2, 1), (42902, 42920, 2, 1),
     (42922, 42922, 1, - 42308), (42923, 42923, 1, - 42319), (42924, 42924, 1, - 42315),
     (42925, 42925, 1, - 42305), (42926, 42926, 1, - 42308), (42928, 42928, 1, - 42258),
     (42929, 42929, 1, - 42282), (42930, 42930, 1, - 42261), (42931, 42931, 1, 928),
     (42932, 42946, 2, 1), (42948, 42948, 1, - 48), (42949, 42949, 1, - 42307),
     (42950, 42950, 1, - 35384), (42951, 42953, 2, 1), (42955, 42955, 1, - 42343),
     (42956, 42956, 1, 1), (42960, 42960, 1, 1), (42966, 42970, 2, 1), (42972, 42972, 1, - 42561),
     (42997, 42997, 1, 1), (65313, 65338, 1, 32), (66560, 66599, 1, 40), (66736, 66771, 1, 40),
     (66928, 66964, 2, 39), (66929, 66937, 2, 39), (66941, 66953, 2, 39), (66957, 66961, 2, 39),
     (66965, 66965, 1, 39), (68736, 68786, 1, 64), (68944, 68965, 1, 32), (71840, 71871, 1, 32),
     (93760, 93791, 1, 32), (125184, 125217, 1, 34)]"

fun lower_lookup :: "(int \<times> int \<times> int \<times> int) list \<Rightarrow> uchar \<Rightarrow> uchar" where
  "lower_lookup [] c = c"
| "lower_lookup ((a, b, s, d) # rs) c =
     (if a \<le> c \<and> c \<le> b \<and> (c - a) mod s = 0 then c + d else lower_lookup rs c)"

definition lower_char :: "uchar \<Rightarrow> ustr" where
  "lower_char c =
     (if c < 128 then [if is_ascii_upper c then c + 32 else c]
      else if c = 304 then [105, 775] else [lower_lookup lower_runs c])"

definition to_lowercase :: "ustr \<Rightarrow> ustr" where
  "to_lowercase s = concat (map lower_char s)"

lemma to_lowercase_Nil [simp]: "to_lowercase [] = []"
  by (simp add: to_lowercase_def)

lemma to_lowercase_append [simp]: "to_lowercase (a @ b) = to_lowercase a @ to_lowercase b"
  by (simp add: to_lowercase_def)

lemma to_lowercase_ascii: "(\<forall>c \<in> set s. c < 128) \<Longrightarrow> to_lowercase s = to_ascii_lower s"
  by (induction s) (simp_all add: to_lowercase_def to_ascii_lower_def lower_char_def)

section \<open>Words\<close>

text \<open>\<open>split_whitespace\<close> and \<open>split_ascii_whitespace\<close>, for the whitespace \<open>P\<close>.\<close>

fun split_pred :: "('a \<Rightarrow> bool) \<Rightarrow> 'a list \<Rightarrow> 'a list list" where
  "split_pred P [] = [[]]"
| "split_pred P (c # cs) =
     (if P c then [] # split_pred P cs
      else (case split_pred P cs of [] \<Rightarrow> [[c]] | l # ls \<Rightarrow> (c # l) # ls))"

definition split_words :: "('a \<Rightarrow> bool) \<Rightarrow> 'a list \<Rightarrow> 'a list list" where
  "split_words P s = filter (\<lambda>w. w \<noteq> []) (split_pred P s)"

abbreviation split_whitespace :: "ustr \<Rightarrow> ustr list" where
  "split_whitespace \<equiv> split_words is_ws"
abbreviation split_ascii_whitespace :: "ustr \<Rightarrow> ustr list" where
  "split_ascii_whitespace \<equiv> split_words is_ascii_ws"

lemma split_pred_neq_Nil [simp]: "split_pred P s \<noteq> []"
  by (induction s) (auto split: list.splits)

lemma split_pred_hd: "hd (split_pred P s) = takeWhile (\<lambda>c. \<not> P c) s"
  by (induction s) (auto split: list.splits)

lemma split_words_Nil [simp]: "split_words P [] = []"
  by (simp add: split_words_def)

lemma split_words_skip: "P c \<Longrightarrow> split_words P (c # cs) = split_words P cs"
  by (simp add: split_words_def)

lemma split_words_dropWhile: "split_words P (dropWhile P s) = split_words P s"
  by (induction s) (auto simp: split_words_skip)

lemma split_pred_tl:
  "filter (\<lambda>w. w \<noteq> []) (tl (split_pred P s)) = split_words P (dropWhile (\<lambda>c. \<not> P c) s)"
proof (induction s)
  case (Cons c cs)
  then show ?case
    by (cases "split_pred P cs") (auto simp: split_words_def)
qed simp

text \<open>The first word is the run without whitespace after the leading whitespace.\<close>

lemma split_words_unfold:
  assumes "\<not> P c"
  shows "split_words P (c # cs) = (c # takeWhile (\<lambda>c. \<not> P c) cs) # split_words P (dropWhile (\<lambda>c. \<not> P c) cs)"
proof -
  obtain l ls where e: "split_pred P cs = l # ls" by (cases "split_pred P cs") auto
  have "l = takeWhile (\<lambda>c. \<not> P c) cs" using split_pred_hd[of P cs] e by simp
  moreover have "filter (\<lambda>w. w \<noteq> []) ls = split_words P (dropWhile (\<lambda>c. \<not> P c) cs)"
    using split_pred_tl[of P cs] e by simp
  ultimately show ?thesis using assms e by (simp add: split_words_def)
qed

lemma split_pred_pieces: "w \<in> set (split_pred P s) \<Longrightarrow> (\<forall>c \<in> set w. \<not> P c) \<and> set w \<subseteq> set s"
proof (induction s arbitrary: w)
  case (Cons c cs)
  obtain l ls where e: "split_pred P cs = l # ls" by (cases "split_pred P cs") auto
  have "(\<forall>c \<in> set l. \<not> P c) \<and> set l \<subseteq> set cs" using Cons.IH[of l] e by simp
  then show ?case using Cons.prems Cons.IH[of w] e by (auto split: if_splits)
qed simp

lemma split_words_no_sep: "w \<in> set (split_words P s) \<Longrightarrow> w \<noteq> [] \<and> (\<forall>c \<in> set w. \<not> P c)"
  using split_pred_pieces[of w P s] by (auto simp: split_words_def)

lemma split_words_chars: "w \<in> set (split_words P s) \<Longrightarrow> set w \<subseteq> set s"
  using split_pred_pieces[of w P s] by (auto simp: split_words_def)

lemma split_words_empty: "split_words P s = [] \<longleftrightarrow> (\<forall>c \<in> set s. P c)"
proof (induction s)
  case (Cons c cs)
  then show ?case by (cases "P c") (simp_all add: split_words_skip split_words_unfold)
qed simp

end
