(* ===== verification/CommandLex.thy ===== *)
theory CommandLex
  imports UnicodeCase
begin

text \<open>
  The lexical side of the command rules of \<open>src/src/core/approval.rs\<close>: how a shell command is cut
  into segments (\<open>split_command_segments\<close>) and into the stages of a read-only pipeline
  (\<open>split_read_only_pipeline\<close>), and the characters that keep a command from being simple. The
  code scans bytes; every byte it looks for is ASCII, so the model scans scalar values. The quotes as
  the checker reads them (single, double and the backslash; no comments, no ANSI-C quotes) are stated as an
  automaton, and both scanners are compared with it. Nothing is said of how a shell reads the text.
\<close>

section \<open>Segments\<close>

definition is_separator :: "uchar \<Rightarrow> bool" where
  "is_separator b \<longleftrightarrow> b = 124 \<or> b = 38 \<or> b = 59 \<or> b = nl \<or> b = cr"

fun segment_scan :: "bool \<Rightarrow> bool \<Rightarrow> ustr \<Rightarrow> ustr \<Rightarrow> ustr list" where
  "segment_scan in_single in_double cur [] = [cur]"
| "segment_scan in_single in_double cur (b # bs) =
     (if \<not> in_single \<and> \<not> in_double \<and> is_separator b then cur # segment_scan in_single in_double [] bs
      else if b = 92 \<and> \<not> in_single then
        (case bs of [] \<Rightarrow> [cur @ [b]] | c # cs \<Rightarrow> segment_scan in_single in_double (cur @ [b, c]) cs)
      else if b = 39 \<and> \<not> in_double then segment_scan (\<not> in_single) in_double (cur @ [b]) bs
      else if b = 34 \<and> \<not> in_single then segment_scan in_single (\<not> in_double) (cur @ [b]) bs
      else segment_scan in_single in_double (cur @ [b]) bs)"

definition split_command_segments :: "ustr \<Rightarrow> ustr list" where
  "split_command_segments s = segment_scan False False [] s"

section \<open>Stages of a read-only pipeline\<close>

definition pipeline_forbidden :: "uchar \<Rightarrow> bool" where
  "pipeline_forbidden b \<longleftrightarrow> b \<in> set (str ''&;<>$`(){}*?'') \<or> b = 92 \<or> b = nl \<or> b = cr"

definition push_stage :: "ustr \<Rightarrow> ustr list \<Rightarrow> ustr list option" where
  "push_stage text stages = (let stage = trim text in if stage = [] then None else Some (stages @ [stage]))"

fun pipeline_scan :: "uchar option \<Rightarrow> ustr list \<Rightarrow> ustr \<Rightarrow> ustr \<Rightarrow> ustr list option" where
  "pipeline_scan quote stages cur [] = (if quote \<noteq> None then None else push_stage cur stages)"
| "pipeline_scan quote stages cur (b # bs) =
     (case quote of
        Some k \<Rightarrow>
          if k = 39 then pipeline_scan (if b = 39 then None else quote) stages (cur @ [b]) bs
          else if k = 34 then
            (if b = 34 then pipeline_scan None stages (cur @ [b]) bs
             else if b = 36 \<or> b = 96 \<or> b = nl \<or> b = cr then None
             else if b = 92 then
               (case bs of [] \<Rightarrow> None
                | c # cs \<Rightarrow> if c = nl \<or> c = cr then None else pipeline_scan quote stages (cur @ [b, c]) cs)
             else pipeline_scan quote stages (cur @ [b]) bs)
          else None
      | None \<Rightarrow>
          if b = 39 \<or> b = 34 then pipeline_scan (Some b) stages (cur @ [b]) bs
          else if b = 124 then
            (case push_stage cur stages of None \<Rightarrow> None | Some stages' \<Rightarrow> pipeline_scan None stages' [] bs)
          else if pipeline_forbidden b then None
          else pipeline_scan None stages (cur @ [b]) bs)"

definition split_read_only_pipeline :: "ustr \<Rightarrow> ustr list option" where
  "split_read_only_pipeline command =
     (let command = trim command in if command = [] then None else pipeline_scan None [] [] command)"

definition scope_metachar :: "uchar \<Rightarrow> bool" where
  "scope_metachar b \<longleftrightarrow> b \<in> set (str ''|&;<>$`(){}*?'') \<or> b = 39 \<or> b = 34 \<or> b = 92 \<or> b = nl \<or> b = cr"

definition is_simple_scope_command :: "ustr \<Rightarrow> bool" where
  "is_simple_scope_command command =
     (let command = trim command in command \<noteq> [] \<and> \<not> list_ex scope_metachar command)"

definition is_bare_command_name :: "ustr \<Rightarrow> bool" where
  "is_bare_command_name command =
     list_all (\<lambda>b. is_ascii_alnum b \<or> b = 46 \<or> b = 95 \<or> b = 43 \<or> b = 45) command"

section \<open>Quotes\<close>

text \<open>
  The reference the splitters are compared with: a character is bare, or inside single quotes where everything up to the
  closing quote is literal, or inside double quotes; outside single quotes a backslash takes the next character with it.
  A shell also has comments, here-documents and other quotes; nothing is claimed about what one would run.
\<close>

datatype quoting = Bare | SingleQ | DoubleQ | BareEsc | DoubleEsc

fun lex_step :: "quoting \<Rightarrow> uchar \<Rightarrow> quoting" where
  "lex_step Bare c = (if c = 92 then BareEsc else if c = 39 then SingleQ else if c = 34 then DoubleQ else Bare)"
| "lex_step SingleQ c = (if c = 39 then Bare else SingleQ)"
| "lex_step DoubleQ c = (if c = 92 then DoubleEsc else if c = 34 then Bare else DoubleQ)"
| "lex_step BareEsc c = Bare"
| "lex_step DoubleEsc c = DoubleQ"

text \<open>The state in front of every character, and the text cut at the bare characters of a class.\<close>

fun lex_marks :: "quoting \<Rightarrow> ustr \<Rightarrow> (quoting \<times> uchar) list" where
  "lex_marks q [] = []"
| "lex_marks q (c # cs) = (q, c) # lex_marks (lex_step q c) cs"

abbreviation marks :: "ustr \<Rightarrow> (quoting \<times> uchar) list" where
  "marks \<equiv> lex_marks Bare"

definition cut_at :: "(uchar \<Rightarrow> bool) \<Rightarrow> (quoting \<times> uchar) list \<Rightarrow> ustr list" where
  "cut_at P ms = map (map snd) (split_pred (\<lambda>(q, c). q = Bare \<and> P c) ms)"

section \<open>The segments are those of the quoting rules\<close>

definition prefix_hd :: "'a list \<Rightarrow> 'a list list \<Rightarrow> 'a list list" where
  "prefix_hd a ls = (a @ hd ls) # tl ls"

lemma prefix_hd_simps [simp]:
  "prefix_hd a (l # ls) = (a @ l) # ls"
  "prefix_hd a (prefix_hd b ls) = prefix_hd (a @ b) ls"
  by (simp_all add: prefix_hd_def)

lemma cut_at_simps [simp]:
  "cut_at P [] = [[]]"
  "cut_at P ((q, c) # ms) = (if q = Bare \<and> P c then [] # cut_at P ms else prefix_hd [c] (cut_at P ms))"
  by (cases "split_pred (\<lambda>(q, c). q = Bare \<and> P c) ms"; simp add: cut_at_def)+

lemma cut_at_neq_Nil [simp]: "cut_at P ms \<noteq> []"
  by (simp add: cut_at_def)

lemma prefix_hd_Nil [simp]: "ls \<noteq> [] \<Longrightarrow> prefix_hd [] ls = ls"
  by (simp add: prefix_hd_def)

lemma segment_scan_cut:
  assumes "\<not> (a \<and> d)"
  shows "segment_scan a d cur s
    = prefix_hd cur (cut_at is_separator (lex_marks (if a then SingleQ else if d then DoubleQ else Bare) s))"
  using assms
proof (induction a d cur s rule: segment_scan.induct)
  case (2 a d cur b bs)
  have [simp]: "\<not> is_separator 92" "\<not> is_separator 39" "\<not> is_separator 34" by (simp_all add: is_separator_def)
  show ?case
  proof (cases "b = 92 \<and> \<not> a")
    case True
    show ?thesis
    proof (cases bs)
      case Nil
      then show ?thesis using True "2.prems" by simp
    next
      case (Cons c cs)
      then show ?thesis using True "2.prems" "2.IH"(2)[of c cs] by (auto split: if_splits)
    qed
  next
    case False
    consider (sep) "\<not> a" "\<not> d" "is_separator b" | (sq) "b = 39" "\<not> d" | (dq) "b = 34" "\<not> a"
      | (other) "b \<noteq> 39 \<or> d" "b \<noteq> 34 \<or> a" "a \<or> d \<or> \<not> is_separator b" by blast
    then show ?thesis
    proof cases
      case sep
      then have "b \<noteq> 92" "b \<noteq> 39" "b \<noteq> 34" by auto
      then show ?thesis using sep "2.prems" "2.IH"(1) by simp
    next
      case sq
      then show ?thesis using "2.prems" "2.IH"(3) False by (cases a) simp_all
    next
      case dq
      then show ?thesis using "2.prems" "2.IH"(4) False by (cases d) simp_all
    next
      case other
      then show ?thesis using "2.prems" "2.IH"(5) False by (cases a; cases d) auto
    qed
  qed
qed (simp add: prefix_hd_def)

definition command_pieces :: "ustr \<Rightarrow> ustr list" where
  "command_pieces s = cut_at is_separator (marks s)"

lemma segments_cut: "split_command_segments s = cut_at is_separator (marks s)"
  using segment_scan_cut[of False False "[]" s]
  by (simp add: split_command_segments_def)

lemma segments_pieces: "split_command_segments s = command_pieces s"
  by (simp add: segments_cut command_pieces_def)

text \<open>The segments joined by the separators they were cut at are the command.\<close>

lemma lex_marks_snd [simp]: "map snd (lex_marks q s) = s"
  by (induction s arbitrary: q) auto

lemma cut_at_chars: "l \<in> set (cut_at P ms) \<Longrightarrow> set l \<subseteq> snd ` set ms"
proof -
  assume "l \<in> set (cut_at P ms)"
  then obtain w where w: "w \<in> set (split_pred (\<lambda>(q, c). q = Bare \<and> P c) ms)" "l = map snd w"
    by (auto simp: cut_at_def)
  have "set w \<subseteq> set ms" using split_pred_pieces[OF w(1)] by simp
  then show "set l \<subseteq> snd ` set ms" using w(2) by auto
qed

lemma segment_chars: "l \<in> set (split_command_segments s) \<Longrightarrow> set l \<subseteq> set s"
proof -
  assume "l \<in> set (split_command_segments s)"
  then have "set l \<subseteq> snd ` set (marks s)" by (simp add: segments_cut cut_at_chars)
  also have "snd ` set (marks s) = set (map snd (marks s))" by (simp only: set_map)
  finally show "set l \<subseteq> set s" by (simp only: lex_marks_snd)
qed

lemma segments_simple: "\<forall>c \<in> set s. \<not> is_separator c \<Longrightarrow> split_command_segments s = [s]"
proof -
  assume a: "\<forall>c \<in> set s. \<not> is_separator c"
  have "\<And>q. cut_at is_separator (lex_marks q s) = [s]"
    using a by (induction s) (auto simp: prefix_hd_def)
  then show ?thesis by (simp add: segments_cut)
qed
section \<open>The stages are the segments of a command without shell features\<close>

fun stage_allows :: "quoting \<Rightarrow> uchar \<Rightarrow> bool" where
  "stage_allows Bare c = (\<not> pipeline_forbidden c)"
| "stage_allows SingleQ c = True"
| "stage_allows DoubleQ c = (\<not> (c = 36 \<or> c = 96 \<or> c = nl \<or> c = cr))"
| "stage_allows DoubleEsc c = (\<not> (c = nl \<or> c = cr))"
| "stage_allows BareEsc c = True"

definition plain_pipeline :: "quoting \<Rightarrow> ustr \<Rightarrow> bool" where
  "plain_pipeline q s \<longleftrightarrow> list_all (\<lambda>(q, c). stage_allows q c) (lex_marks q s) \<and> foldl lex_step q s = Bare"

definition quoting_of :: "uchar option \<Rightarrow> quoting" where
  "quoting_of quote = (case quote of None \<Rightarrow> Bare | Some k \<Rightarrow> if k = 39 then SingleQ else DoubleQ)"

lemma plain_pipeline_simps [simp]:
  "plain_pipeline q [] \<longleftrightarrow> q = Bare"
  "plain_pipeline q (c # cs) \<longleftrightarrow> stage_allows q c \<and> plain_pipeline (lex_step q c) cs"
  by (auto simp: plain_pipeline_def)

lemma pipeline_separator: "is_separator c \<Longrightarrow> \<not> pipeline_forbidden c \<Longrightarrow> c = 124"
  by (auto simp: is_separator_def pipeline_forbidden_def str_def)

lemma pipeline_scan_cut:
  assumes "quote \<in> {None, Some 39, Some 34}"
  shows "pipeline_scan quote stages cur s
    = (let new = map trim (prefix_hd cur (cut_at is_separator (lex_marks (quoting_of quote) s)))
       in if plain_pipeline (quoting_of quote) s \<and> [] \<notin> set new then Some (stages @ new) else None)"
  using assms
proof (induction quote stages cur s rule: pipeline_scan.induct)
  case (1 quote stages cur)
  then show ?case by (auto simp: quoting_of_def push_stage_def Let_def prefix_hd_def)
next
  case (2 quote stages cur b bs)
  have nf: "pipeline_forbidden 92" "\<not> pipeline_forbidden 39" "\<not> pipeline_forbidden 34" "\<not> pipeline_forbidden 124"
    by (simp_all add: pipeline_forbidden_def str_def)
  have ns: "\<not> is_separator 92" "\<not> is_separator 39" "\<not> is_separator 34" "is_separator 124"
    by (simp_all add: is_separator_def)
  consider (bare) "quote = None" | (single) "quote = Some 39" | (double) "quote = Some 34" using "2.prems" by auto
  then show ?case
  proof cases
    case single
    then show ?thesis using "2.IH"(4)[OF single] by (cases "b = 39") (simp_all add: quoting_of_def Let_def)
  next
    case double
    show ?thesis
    proof (cases "b = 92")
      case True
      show ?thesis
      proof (cases bs)
        case Nil
        then show ?thesis using double True by (simp add: quoting_of_def Let_def)
      next
        case (Cons c cs)
        then show ?thesis using double True "2.IH"(6)[of 34 c cs] by (auto simp: quoting_of_def Let_def)
      qed
    next
      case False
      then show ?thesis using double "2.IH"(5)[of 34] "2.IH"(7)[of 34]
        by (cases "b = 34"; cases "b = 36 \<or> b = 96 \<or> b = nl \<or> b = cr") (simp_all add: quoting_of_def Let_def)
    qed
  next
    case bare
    consider (quote) "b = 39 \<or> b = 34" | (pipe) "b = 124" | (bad) "pipeline_forbidden b"
      | (other) "b \<noteq> 39" "b \<noteq> 34" "b \<noteq> 124" "\<not> pipeline_forbidden b" "b \<noteq> 92" "\<not> is_separator b"
      using pipeline_separator nf by blast
    then show ?thesis
    proof cases
      case quote
      then show ?thesis using bare "2.IH"(1) nf ns by (auto simp: quoting_of_def Let_def)
    next
      case pipe
      then show ?thesis using bare "2.IH"(2) nf ns
        by (cases "trim cur = []") (auto simp: quoting_of_def Let_def push_stage_def prefix_hd_def)
    next
      case bad
      then have "b \<noteq> 39" "b \<noteq> 34" "b \<noteq> 124" using nf by auto
      then show ?thesis using bare bad by (simp add: quoting_of_def Let_def)
    next
      case other
      then show ?thesis using bare "2.IH"(3) by (simp add: quoting_of_def Let_def)
    qed
  qed
qed

text \<open>
  A command splits into the stages of a read-only pipeline exactly when it has no shell feature outside
  literal text, its quotes are closed and no stage is empty, and the stages are then its segments.
\<close>

lemma read_only_pipeline_iff:
  "split_read_only_pipeline command = Some stages \<longleftrightarrow>
     plain_pipeline Bare (trim command) \<and> stages = map trim (split_command_segments (trim command))
     \<and> [] \<notin> set stages"
proof (cases "trim command = []")
  case True
  have "trim [] = []" by (simp add: trim_def trim_start_def trim_end_def)
  then show ?thesis using True
    by (auto simp: split_read_only_pipeline_def split_command_segments_def)
next
  case False
  then have "split_read_only_pipeline command = pipeline_scan None [] [] (trim command)"
    by (simp add: split_read_only_pipeline_def Let_def)
  then show ?thesis
    by (auto simp: pipeline_scan_cut segments_cut quoting_of_def Let_def split: if_splits)
qed

end
