(* ===== verification/CommandSafety.thy ===== *)
theory CommandSafety
  imports CommandLex
begin

text \<open>
  The safety checker for shell commands (\<open>CommandSafetyChecker\<close> of \<open>src/src/core/approval.rs\<close>):
  the checks for command substitution, redirection and quoting, the deny list with the rules for git, find
  and sort, the list of safe programs, and the rule for sed. The environment variable with the user's own
  safe commands is an argument. An error carries the reason that is shown.
\<close>

section \<open>Results\<close>

record command_unsafe =
  cu_reason :: ustr

type_synonym safety = "command_unsafe + unit"

definition refuse :: "ustr \<Rightarrow> safety" where
  "refuse reason = Inl \<lparr>cu_reason = reason\<rparr>"

text \<open>The operator \<open>?\<close> between two checks, and a loop over checks.\<close>

definition and_check :: "safety \<Rightarrow> safety \<Rightarrow> safety" where
  "and_check a b = (case a of Inl e \<Rightarrow> Inl e | Inr _ \<Rightarrow> b)"

fun check_each :: "('a \<Rightarrow> safety) \<Rightarrow> 'a list \<Rightarrow> safety" where
  "check_each f [] = Inr ()"
| "check_each f (x # xs) = and_check (f x) (check_each f xs)"

section \<open>The lists\<close>

definition SAFE_BASE_COMMANDS :: "ustr list" where
  "SAFE_BASE_COMMANDS = map str
     [''ls'', ''pwd'', ''date'', ''whoami'', ''uname'', ''cat'', ''grep'', ''find'', ''head'', ''tail'',
      ''cd'', ''clear'', ''echo'', ''hostname'', ''df'', ''du'', ''ps'', ''free'', ''uptime'', ''wc'',
      ''sort'', ''uniq'', ''file'', ''stat'', ''diff'', ''rg'', ''cut'', ''which'', ''type'', ''false'']"

definition SAFE_GIT_SUBCOMMANDS :: "ustr list" where
  "SAFE_GIT_SUBCOMMANDS = map str [''status'', ''log'', ''diff'', ''branch'', ''show'', ''remote'']"

definition DANGEROUS_FIND_FLAGS :: "ustr list" where
  "DANGEROUS_FIND_FLAGS = map str
     [''-delete'', ''-exec'', ''-execdir'', ''-ok'', ''-okdir'', ''-fls'', ''-fprint'', ''-fprintf'']"

definition HARD_CODED_DENY_LIST :: "ustr list" where
  "HARD_CODED_DENY_LIST = map str
     [''rm'', ''dd'', ''mkfs'', ''curl'', ''wget'', ''nc'', ''ncat'', ''netcat'', ''ssh'', ''sudo'',
      ''reboot'', ''shutdown'', ''poweroff'', ''insmod'', ''rmmod'', ''modprobe'', ''apt-get'', ''yum'',
      ''dnf'', ''apt'', ''eval'']"

section \<open>The checker\<close>

record safety_checker =
  sc_yolo_mode :: bool
  sc_user_safe_commands :: "ustr list"

definition load_user_safe_commands :: "ustr option \<Rightarrow> ustr list" where
  "load_user_safe_commands env =
     (case env of None \<Rightarrow> [] | Some s \<Rightarrow> map (\<lambda>cmd. to_lowercase (trim cmd)) (split_on 44 s))"

definition new_checker :: "ustr option \<Rightarrow> safety_checker" where
  "new_checker env = \<lparr>sc_yolo_mode = False, sc_user_safe_commands = load_user_safe_commands env\<rparr>"

definition is_user_safe :: "safety_checker \<Rightarrow> ustr \<Rightarrow> bool" where
  "is_user_safe self command =
     (let base = (case split_whitespace command of [] \<Rightarrow> [] | w # _ \<Rightarrow> to_lowercase w)
      in list_ex (\<lambda>c. c = base \<or> c = dropWhile (\<lambda>b. b = 47) base
           \<or> c = str ''/bin/'' @ base \<or> c = str ''/usr/bin/'' @ base) (sc_user_safe_commands self))"

definition check_common :: "ustr \<Rightarrow> safety" where
  "check_common command =
     (let normalized = trim command
      in if str_contains (str ''$('') normalized \<or> str_contains [96] normalized
         then refuse (str ''Command substitution is not allowed'')
         else if str_contains (str ''${'') normalized
         then refuse (str ''Variable expansion ${...} is not allowed'')
         else Inr ())"

text \<open>The text before and after the first occurrence of a pattern.\<close>

fun find_split :: "ustr \<Rightarrow> ustr \<Rightarrow> (ustr \<times> ustr) option" where
  "find_split p [] = (if p = [] then Some ([], []) else None)"
| "find_split p (c # cs) =
     (case strip_prefix p (c # cs) of
        Some r \<Rightarrow> Some ([], r)
      | None \<Rightarrow> map_option (\<lambda>(a, b). (c # a, b)) (find_split p cs))"

text \<open>The content of an ANSI-C quote and the text after its closing quote.\<close>

fun ansi_content :: "ustr \<Rightarrow> (ustr \<times> ustr) option" where
  "ansi_content [] = None"
| "ansi_content (c # cs) =
     (if c = 92 \<and> cs \<noteq> [] then
        (case cs of [] \<Rightarrow> None | d # ds \<Rightarrow> map_option (\<lambda>(a, b). (c # d # a, b)) (ansi_content ds))
      else if c = 39 then Some ([], cs)
      else map_option (\<lambda>(a, b). (c # a, b)) (ansi_content cs))"

lemma find_split_Some: "find_split p s = Some (a, b) \<Longrightarrow> s = a @ p @ b"
  by (induction s arbitrary: a) (auto simp: strip_prefix_Some split: if_splits option.splits)

lemma ansi_content_Some: "ansi_content s = Some (a, b) \<Longrightarrow> s = a @ 39 # b"
  by (induction s arbitrary: a b rule: ansi_content.induct)
    (auto split: if_splits option.splits list.splits)

text \<open>The loop that blanks the ANSI-C quotes: one space for every byte that is replaced.\<close>

function blank_ansi_quotes :: "ustr \<Rightarrow> command_unsafe + ustr" where
  "blank_ansi_quotes s =
     (case find_split (str ''$'' @ [39]) s of
        None \<Rightarrow> Inr s
      | Some (before, after) \<Rightarrow>
          (case ansi_content after of
             None \<Rightarrow> Inr s
           | Some (content, rest) \<Rightarrow>
               if str_contains (92 # str ''n'') content \<or> str_contains (92 # str ''r'') content
                  \<or> str_contains (92 # str ''0'') content
               then Inl \<lparr>cu_reason = str ''ANSI-C quoting with embedded newlines is not allowed''\<rparr>
               else (case blank_ansi_quotes rest of
                       Inl e \<Rightarrow> Inl e
                     | Inr r \<Rightarrow> Inr (before @ replicate (2 + byte_len content + 1) 32 @ r))))"
  by pat_completeness auto
termination
  by (relation "measure length") (auto dest!: find_split_Some ansi_content_Some simp: str_def)

declare blank_ansi_quotes.simps [simp del]

definition strip_dev_null :: "ustr \<Rightarrow> ustr" where
  "strip_dev_null normalized =
     (case strip_suffix (str ''2>/dev/null'') normalized of None \<Rightarrow> normalized | Some stripped \<Rightarrow> trim stripped)"

definition check_shell_syntax :: "ustr \<Rightarrow> safety" where
  "check_shell_syntax command =
     (let normalized = strip_dev_null (trim command)
      in if str_contains (str ''$('') normalized \<or> str_contains [96] normalized
         then refuse (str ''Command substitution is not allowed'')
         else if str_contains (str ''<('') normalized \<or> str_contains (str ''>('') normalized
         then refuse (str ''Process substitution is not allowed'')
         else if str_contains (str ''<<'') normalized
         then refuse (str ''Heredoc is not allowed'')
         else if str_contains (str ''{'') normalized \<and> str_contains (str ''}'') normalized
                 \<and> str_contains (str '','') normalized
         then refuse (str ''Brace expansion is not allowed'')
         else (case blank_ansi_quotes normalized of
                 Inl e \<Rightarrow> Inl e
               | Inr stripped \<Rightarrow>
                   if str_contains (str ''>'') stripped \<or> str_contains (str ''<'') stripped
                   then refuse (str ''Output redirection to disk is not allowed'') else Inr ()))"

definition allowed_base :: "safety_checker \<Rightarrow> ustr \<Rightarrow> bool" where
  "allowed_base self base \<longleftrightarrow> base = str ''git'' \<or> base \<in> set SAFE_BASE_COMMANDS \<or> is_user_safe self base"

definition check_command_allowlist :: "safety_checker \<Rightarrow> ustr \<Rightarrow> safety" where
  "check_command_allowlist self command =
     check_each (\<lambda>segment.
         case split_whitespace segment of
           [] \<Rightarrow> Inr ()
         | w # _ \<Rightarrow>
             let base_command = to_lowercase w
             in if allowed_base self base_command then Inr ()
                else refuse (str ''command '' @ [39] @ base_command @ [39] @ str '' is not in safe list''))
       (split_command_segments (trim command))"

definition refuse_flag :: "string \<Rightarrow> ustr \<Rightarrow> safety" where
  "refuse_flag program part = refuse (str program @ str '' flag '' @ [39] @ part @ [39] @ str '' is not allowed'')"

definition check_git :: "ustr list \<Rightarrow> safety" where
  "check_git parts =
     (if length parts < 2 then refuse (str ''git requires a subcommand'')
      else let subcommand = to_lowercase (parts ! 1)
        in if subcommand \<notin> set SAFE_GIT_SUBCOMMANDS
           then refuse (str ''git subcommand '' @ [39] @ subcommand @ [39] @ str '' is not allowed'')
           else and_check
             (if subcommand = str ''branch'' \<or> subcommand = str ''remote''
              then check_each (\<lambda>part.
                if part \<in> set (map str [''-a'', ''-r'', ''-v'', ''--list'', ''--get-url''])
                then Inr () else refuse_flag ''git'' part) (drop 2 parts)
              else Inr ())
             (check_each (\<lambda>part.
                if starts_with (str ''--output'') (to_lowercase part) then refuse_flag ''git'' part else Inr ())
               (drop 2 parts)))"

definition check_find :: "ustr list \<Rightarrow> safety" where
  "check_find parts =
     check_each (\<lambda>part. check_each (\<lambda>flag.
         if starts_with flag (to_lowercase part) then refuse_flag ''find'' part else Inr ())
       DANGEROUS_FIND_FLAGS) (drop 1 parts)"

definition check_sort :: "ustr list \<Rightarrow> safety" where
  "check_sort parts =
     check_each (\<lambda>part.
       let lower = to_lowercase part
       in if lower = str ''-o'' \<or> starts_with (str ''-o'') lower \<or> starts_with (str ''--output'') lower
          then refuse (str ''sort -o flag is not allowed'') else Inr ()) (drop 1 parts)"

definition check_deny_segment :: "ustr \<Rightarrow> safety" where
  "check_deny_segment segment =
     (case split_whitespace (trim segment) of
        [] \<Rightarrow> Inr ()
      | w # ws \<Rightarrow>
          let base_command = to_lowercase w; parts = w # ws
          in if base_command \<in> set HARD_CODED_DENY_LIST
             then refuse (str ''command '' @ [39] @ base_command @ [39] @ str '' is permanently denied for safety'')
             else if base_command = str ''git'' then check_git parts
             else if base_command = str ''find'' then check_find parts
             else if base_command = str ''sort'' then check_sort parts
             else Inr ())"

definition check_deny_list :: "ustr \<Rightarrow> safety" where
  "check_deny_list command = check_each check_deny_segment (split_command_segments (trim command))"

definition check_structural_safety :: "ustr \<Rightarrow> safety" where
  "check_structural_safety command =
     and_check (check_common command) (and_check (check_shell_syntax command) (check_deny_list command))"

definition is_safe :: "safety_checker \<Rightarrow> ustr \<Rightarrow> safety" where
  "is_safe self command =
     (if sc_yolo_mode self then Inr ()
      else and_check (check_structural_safety command) (check_command_allowlist self command))"

definition is_safe_non_shell :: "safety_checker \<Rightarrow> ustr \<Rightarrow> safety" where
  "is_safe_non_shell self command =
     (if sc_yolo_mode self then Inr ()
      else and_check (check_common command)
        (and_check (check_deny_list command) (check_command_allowlist self command)))"

definition in_place_flag :: "ustr \<Rightarrow> bool" where
  "in_place_flag part =
     (let lower = to_ascii_lower part
      in lower = str ''-i'' \<or> starts_with (str ''-i'') lower \<or> starts_with (str ''--in-place'') lower)"

definition check_scope_sensitive_operations :: "ustr \<Rightarrow> safety" where
  "check_scope_sensitive_operations command =
     check_each (\<lambda>segment.
         case split_whitespace segment of
           [] \<Rightarrow> Inr ()
         | w # ws \<Rightarrow>
             if to_ascii_lower w = str ''sed'' \<and> list_ex in_place_flag ws
             then refuse (str ''sed in-place editing is not allowed for reusable approval'') else Inr ())
       (split_command_segments (trim command))"

definition is_structurally_safe_for_scope :: "safety_checker \<Rightarrow> ustr \<Rightarrow> safety" where
  "is_structurally_safe_for_scope self command =
     (if sc_yolo_mode self then Inr ()
      else and_check (check_structural_safety command) (check_scope_sensitive_operations command))"

section \<open>What a passed check means\<close>

lemma and_check_ok [simp]: "and_check a b = Inr () \<longleftrightarrow> a = Inr () \<and> b = Inr ()"
  by (cases a) (auto simp: and_check_def)

lemma check_each_ok [simp]: "check_each f xs = Inr () \<longleftrightarrow> (\<forall>x \<in> set xs. f x = Inr ())"
  by (induction xs) auto

lemma refuse_not_ok [simp]: "refuse r \<noteq> Inr ()" "Inr () \<noteq> refuse r"
  by (simp_all add: refuse_def)

text \<open>The rules for the programs with rules of their own, stated on the words after the program.\<close>

definition git_allowed :: "ustr list \<Rightarrow> bool" where
  "git_allowed ws \<longleftrightarrow>
     (\<exists>sub rest. ws = sub # rest \<and> to_lowercase sub \<in> set SAFE_GIT_SUBCOMMANDS
        \<and> (\<forall>p \<in> set rest. \<not> starts_with (str ''--output'') (to_lowercase p))
        \<and> (to_lowercase sub = str ''branch'' \<or> to_lowercase sub = str ''remote''
             \<longrightarrow> set rest \<subseteq> set (map str [''-a'', ''-r'', ''-v'', ''--list'', ''--get-url''])))"

definition find_allowed :: "ustr list \<Rightarrow> bool" where
  "find_allowed ws \<longleftrightarrow> (\<forall>p \<in> set ws. \<forall>flag \<in> set DANGEROUS_FIND_FLAGS. \<not> starts_with flag (to_lowercase p))"

definition sort_allowed :: "ustr list \<Rightarrow> bool" where
  "sort_allowed ws \<longleftrightarrow> (\<forall>p \<in> set ws. \<not> starts_with (str ''-o'') (to_lowercase p)
     \<and> \<not> starts_with (str ''--output'') (to_lowercase p))"

definition program_allowed :: "ustr \<Rightarrow> ustr list \<Rightarrow> bool" where
  "program_allowed base ws \<longleftrightarrow> base \<notin> set HARD_CODED_DENY_LIST
     \<and> (base = str ''git'' \<longrightarrow> git_allowed ws)
     \<and> (base = str ''find'' \<longrightarrow> find_allowed ws) \<and> (base = str ''sort'' \<longrightarrow> sort_allowed ws)"

lemma starts_with_self [simp]: "starts_with p p"
  by (simp add: starts_with_iff)

lemma check_git_ok: "check_git (w # ws) = Inr () \<longleftrightarrow> git_allowed ws"
proof (cases ws)
  case Nil
  then show ?thesis by (simp add: check_git_def git_allowed_def)
next
  case (Cons sub rest)
  then show ?thesis
    by (simp add: check_git_def git_allowed_def Let_def refuse_flag_def subset_iff split: if_split) blast
qed

lemma check_find_ok: "check_find (w # ws) = Inr () \<longleftrightarrow> find_allowed ws"
  by (simp add: check_find_def find_allowed_def refuse_flag_def split: if_split)

lemma check_sort_ok: "check_sort (w # ws) = Inr () \<longleftrightarrow> sort_allowed ws"
  by (auto simp: check_sort_def sort_allowed_def Let_def split: if_splits)

lemma program_names: "str ''git'' \<noteq> str ''find''" "str ''git'' \<noteq> str ''sort''" "str ''find'' \<noteq> str ''sort''"
  by (simp_all add: str_def)

lemma split_words_append_ws:
  assumes "\<forall>c \<in> set t. P c"
  shows "split_words P (s @ t) = split_words P s"
proof -
  have "hd (split_pred P (s @ t)) = hd (split_pred P s)
      \<and> filter (\<lambda>w. w \<noteq> []) (tl (split_pred P (s @ t))) = filter (\<lambda>w. w \<noteq> []) (tl (split_pred P s))"
  proof (induction s)
    case Nil
    have "split_words P (dropWhile (\<lambda>c. \<not> P c) t) = []"
      using assms by (auto simp: split_words_empty dest: set_dropWhileD)
    moreover have "takeWhile (\<lambda>c. \<not> P c) t = []" using assms by (cases t) simp_all
    ultimately show ?case by (simp add: split_pred_hd split_pred_tl)
  next
    case (Cons c cs)
    then show ?case
      by (cases "split_pred P (cs @ t)"; cases "split_pred P cs") auto
  qed
  then show ?thesis
    by (cases "split_pred P (s @ t)"; cases "split_pred P s") (auto simp: split_words_def)
qed

lemma trim_end_words: "split_words is_ws (trim_end s) = split_words is_ws s"
proof -
  have "s = trim_end s @ rev (takeWhile is_ws (rev s))"
    by (metis rev_append rev_rev_ident takeWhile_dropWhile_id trim_end_def)
  moreover have "\<forall>c \<in> set (rev (takeWhile is_ws (rev s))). is_ws c" by (auto dest: set_takeWhileD)
  ultimately show ?thesis by (metis split_words_append_ws)
qed

lemma trim_words [simp]: "split_whitespace (trim s) = split_whitespace s"
  by (simp add: trim_def trim_end_words trim_start_def split_words_dropWhile)

lemma check_deny_segment_ok:
  "check_deny_segment segment = Inr () \<longleftrightarrow>
     (case split_whitespace segment of [] \<Rightarrow> True | w # ws \<Rightarrow> program_allowed (to_lowercase w) ws)"
  using program_names
  by (auto simp: check_deny_segment_def program_allowed_def Let_def check_git_ok check_find_ok check_sort_ok
      split: list.split)

section \<open>The checker on the pieces of a command\<close>

lemma safe_iff:
  assumes "\<not> sc_yolo_mode self"
  shows "is_safe self command = Inr () \<longleftrightarrow>
    check_common command = Inr () \<and> check_shell_syntax command = Inr ()
    \<and> (\<forall>segment \<in> set (split_command_segments (trim command)).
        case split_whitespace segment of [] \<Rightarrow> True
        | w # ws \<Rightarrow> program_allowed (to_lowercase w) ws \<and> allowed_base self (to_lowercase w))"
proof -
  have d: "check_deny_list command = Inr () \<longleftrightarrow> (\<forall>segment \<in> set (split_command_segments (trim command)).
      case split_whitespace segment of [] \<Rightarrow> True | w # ws \<Rightarrow> program_allowed (to_lowercase w) ws)"
    by (simp add: check_deny_list_def check_deny_segment_ok)
  have l: "check_command_allowlist self command = Inr ()
      \<longleftrightarrow> (\<forall>segment \<in> set (split_command_segments (trim command)).
            case split_whitespace segment of [] \<Rightarrow> True | w # ws \<Rightarrow> allowed_base self (to_lowercase w))"
    unfolding check_command_allowlist_def check_each_ok
    by (intro ball_cong refl) (simp add: Let_def split: list.split)
  show ?thesis
    using assms by (simp add: is_safe_def check_structural_safety_def d l split: list.split) blast
qed

text \<open>C23. Outside yolo mode a command passes the checker exactly when it has no substitution, expansion, redirection or
  here-document that the checker looks for, and every piece between two separators that stand outside quotes begins with
  a program that is not on the deny list, is a listed safe program, git or one of the user's own, and has arguments the
  rules for git, find and sort allow.\<close>

theorem safe_commands_listed:
  assumes "\<not> sc_yolo_mode self"
  shows "is_safe self command = Inr () \<longleftrightarrow>
    check_common command = Inr () \<and> check_shell_syntax command = Inr ()
    \<and> (\<forall>piece \<in> set (command_pieces (trim command)).
        case split_whitespace piece of [] \<Rightarrow> True
        | w # ws \<Rightarrow> program_allowed (to_lowercase w) ws \<and> allowed_base self (to_lowercase w))"
  using safe_iff[OF assms, of command] by (simp only: segments_pieces)

lemma safe_commands_listed_witness:
  "program_allowed (to_lowercase (str ''git'')) [str ''log'', str ''-3'']
     \<and> allowed_base (new_checker None) (to_lowercase (str ''git''))"
proof -
  let ?command = "str ''echo '' @ [34] @ str ''a|rm'' @ [34] @ str '' | git log -3''"
  have n: "\<not> sc_yolo_mode (new_checker None)" by (simp add: new_checker_def)
  have "is_safe (new_checker None) ?command = Inr ()" by code_simp
  moreover have "str '' git log -3'' \<in> set (command_pieces (trim ?command))" by code_simp
  moreover have "split_whitespace (str '' git log -3'') = str ''git'' # [str ''log'', str ''-3'']" by code_simp
  ultimately show ?thesis using safe_commands_listed[OF n, of ?command] by fastforce
qed

text \<open>Three commands the checker lets pass. A shell with ANSI-C quotes ends the first quote of the first one later, so that
  the rest is a second command; in a shell with comments the quote of the second one opens nothing, and its middle line
  is a command; and the quotes of the third one are gone when find gets its argument.\<close>

lemma ansi_quote_hides_command:
  "is_safe (new_checker None) (str ''echo $'' @ [39, 92, 39, 39] @ str '' ; rm -rf x '' @ [39, 39]) = Inr ()"
  by code_simp

lemma comment_quote_hides_command:
  "is_safe (new_checker None) (str ''ls # '' @ [39, nl] @ str ''rm -rf x'' @ [nl] @ str ''# '' @ [39]) = Inr ()"
  by code_simp

lemma quoted_option_passes:
  "is_safe (new_checker None) (str ''find . '' @ [34] @ str ''-delete'' @ [34]) = Inr ()"
  by code_simp

text \<open>A dollar sign inside double quotes starts the blanking of a quote that is none, and hides a redirection.\<close>

lemma quoted_dollar_hides_redirect:
  "is_safe (new_checker None) (str ''echo '' @ [34] @ str ''$'' @ [39, 34] @ str '' > out '' @ [34, 39, 34]) = Inr ()"
  by code_simp

text \<open>The rules for options look at the start of an option only: combined short options and abbreviated long
  ones pass.\<close>

lemma combined_sort_option_passes:
  "is_safe (new_checker None) (str ''sort -uo out in'') = Inr ()"
  "is_safe (new_checker None) (str ''sort --out=out in'') = Inr ()"
  by code_simp+

end
