(* ===== verification/Json.thy ===== *)
theory Json
  imports Prelude
begin

text \<open>
  JSON values as the tools read them (\<open>serde_json::Value\<close>): objects keep the order of their keys,
  numbers keep their text. \<open>get\<close>, \<open>as_str\<close> and \<open>as_array\<close> are the accessors the program calls;
  parsing a text into a value is \<open>serde_json\<close>'s and a parameter wherever it is used.
\<close>

datatype json =
    JNull
  | JBool bool
  | JNumber ustr
  | JString ustr
  | JArray "json list"
  | JObject "(ustr \<times> json) list"

fun json_get :: "json \<Rightarrow> ustr \<Rightarrow> json option" where
  "json_get (JObject fields) key = map_of fields key"
| "json_get _ key = None"

fun as_str :: "json \<Rightarrow> ustr option" where
  "as_str (JString s) = Some s"
| "as_str _ = None"

fun as_array :: "json \<Rightarrow> json list option" where
  "as_array (JArray vs) = Some vs"
| "as_array _ = None"

text \<open>\<open>params.get(key).and_then(as_str)\<close> and \<open>params.get(key).and_then(as_array)\<close>\<close>

definition get_str :: "json \<Rightarrow> ustr \<Rightarrow> ustr option" where
  "get_str params key = Option.bind (json_get params key) as_str"

definition get_array :: "json \<Rightarrow> ustr \<Rightarrow> json list option" where
  "get_array params key = Option.bind (json_get params key) as_array"

text \<open>\<open>filter_map\<close> of \<open>as_str\<close>, and the strings of an array that holds nothing else.\<close>

definition json_strings :: "json list \<Rightarrow> ustr list" where
  "json_strings vs = List.map_filter as_str vs"

definition all_strings :: "json list \<Rightarrow> bool" where
  "all_strings vs = list_all (\<lambda>v. as_str v \<noteq> None) vs"

definition string_vec :: "json option \<Rightarrow> ustr list option" where
  "string_vec v = (case v of
      Some (JArray vs) \<Rightarrow> if all_strings vs then Some (json_strings vs) else None
    | _ \<Rightarrow> None)"

lemma json_strings_map [simp]: "json_strings (map JString ss) = ss"
  by (induction ss) (simp_all add: json_strings_def)

end
