(* ===== verification/CommandScope.thy ===== *)
theory CommandScope
  imports CommandSafety Json
begin

text \<open>
  The reusable scopes of command approvals (\<open>command_approval_scopes\<close> of
  \<open>src/src/core/approval.rs\<close>) and the coercion of the \<open>commands\<close> argument of a call
  (\<open>src/src/core/tools/mod.rs\<close>). \<open>parse\<close> stands for \<open>serde_json::from_str\<close>: the value of a
  text that is JSON.
\<close>

section \<open>The commands of a call\<close>

definition parse_unambiguous_stringified_string_array :: "(ustr \<Rightarrow> json option) \<Rightarrow> ustr \<Rightarrow> ustr list option" where
  "parse_unambiguous_stringified_string_array parse s =
     (let trimmed = trim s
      in if trimmed \<noteq> str ''[]'' \<and> \<not> starts_with [91, 34] trimmed then None
         else string_vec (parse trimmed))"

definition json_escape_char :: "uchar \<Rightarrow> bool" where
  "json_escape_char c \<longleftrightarrow> c = 34 \<or> c = 92 \<or> c = 47 \<or> c \<in> set (str ''bfnrtu'')"

text \<open>A backslash that begins no JSON escape is doubled. The character after it is read as any other.\<close>

fun repair_backslashes :: "bool \<Rightarrow> ustr \<Rightarrow> ustr" where
  "repair_backslashes quotes [] = []"
| "repair_backslashes quotes (c # cs) =
     (if c = 92 then
        (case cs of [] \<Rightarrow> [92, 92]
         | next # _ \<Rightarrow> (if json_escape_char next then [92] else [92, 92]) @ repair_backslashes quotes cs)
      else if quotes \<and> c = 34 then [92, 34] @ repair_backslashes quotes cs
      else c # repair_backslashes quotes cs)"

text \<open>The quotes from the third character on that an even number of backslashes precedes.\<close>

definition unescaped_quotes :: "ustr \<Rightarrow> nat list" where
  "unescaped_quotes trimmed =
     filter (\<lambda>i. 2 \<le> i \<and> even (length (takeWhile (\<lambda>c. c = 92) (rev (take i trimmed)))))
       (positions (\<lambda>c. c = 34) trimmed)"

fun ambiguous_quote :: "ustr \<Rightarrow> bool" where
  "ambiguous_quote [] = False"
| "ambiguous_quote (c # cs) =
     (if c = 92 then (case cs of [] \<Rightarrow> False | _ # ds \<Rightarrow> ambiguous_quote ds)
      else c = 34
        \<and> (case strip_prefix (str '','') (trim_start cs) of
             None \<Rightarrow> False | Some after_comma \<Rightarrow> starts_with [34] (trim_start after_comma))
        \<or> ambiguous_quote cs)"

definition parse_relaxed_stringified_string_array :: "(ustr \<Rightarrow> json option) \<Rightarrow> ustr \<Rightarrow> ustr list option" where
  "parse_relaxed_stringified_string_array parse s =
     (let trimmed = trim s
      in if \<not> starts_with [91, 34] trimmed then None
         else (case string_vec (parse (repair_backslashes False trimmed)) of
             Some values \<Rightarrow> Some values
           | None \<Rightarrow>
               let quotes = unescaped_quotes trimmed
               in if quotes = [] then None
                  else let last_quote = List.last quotes; tail = trim (drop (last_quote + 1) trimmed)
                    in if tail \<noteq> [] \<and> tail \<noteq> [93] then None
                       else let interior_end = (if odd (length quotes) then last_quote
                                else (case strip_suffix [93] trimmed of None \<Rightarrow> length trimmed | Some r \<Rightarrow> length r));
                              interior = drop 2 (take interior_end trimmed)
                         in if ambiguous_quote interior then None
                            else string_vec (parse ([91, 34] @ repair_backslashes True interior @ [34, 93]))))"

definition coerce_command_array :: "(ustr \<Rightarrow> json option) \<Rightarrow> json \<Rightarrow> ustr list" where
  "coerce_command_array parse params =
     (case get_array params (str ''commands'') of
        Some values \<Rightarrow> json_strings values
      | None \<Rightarrow>
          (case get_str params (str ''commands'') of
             Some s \<Rightarrow>
               (case parse_unambiguous_stringified_string_array parse s of
                  Some values \<Rightarrow> values
                | None \<Rightarrow> (case parse_relaxed_stringified_string_array parse s of Some values \<Rightarrow> values | None \<Rightarrow> [s]))
           | None \<Rightarrow> (case get_str params (str ''command'') of Some s \<Rightarrow> [s] | None \<Rightarrow> [])))"

section \<open>Scopes\<close>

datatype approval_scope =
    Binary ustr
  | GitSubcommand ustr
  | SedReadOnly
  | FindReadOnly
  | ReadOnlyPipeline "ustr list"

definition authority_label :: "approval_scope \<Rightarrow> ustr" where
  "authority_label sc = (case sc of
      Binary binary \<Rightarrow> binary
    | GitSubcommand subcommand \<Rightarrow> str ''git '' @ subcommand
    | SedReadOnly \<Rightarrow> str ''read-only sed''
    | FindReadOnly \<Rightarrow> str ''read-only find''
    | ReadOnlyPipeline stages \<Rightarrow> str ''read-only '' @ join (str '' | '') stages @ str '' pipeline'')"

definition pipeline_programs :: "ustr list" where
  "pipeline_programs = map str [''cat'', ''grep'', ''head'', ''ls'', ''tail'', ''wc'']"

fun stage_programs :: "ustr list \<Rightarrow> ustr list option" where
  "stage_programs [] = Some []"
| "stage_programs (stage # stages) =
     (case split_ascii_whitespace stage of
        [] \<Rightarrow> None
      | w # _ \<Rightarrow>
          let program = to_ascii_lower w
          in if \<not> is_bare_command_name program \<or> program \<notin> set pipeline_programs then None
             else map_option ((#) program) (stage_programs stages))"

definition read_only_pipeline_scope :: "ustr \<Rightarrow> approval_scope option" where
  "read_only_pipeline_scope command =
     (case split_read_only_pipeline command of
        None \<Rightarrow> None
      | Some stages \<Rightarrow> if length stages < 2 then None else map_option ReadOnlyPipeline (stage_programs stages))"

definition git_diff_exact_flags :: "ustr list" where
  "git_diff_exact_flags = map str
     [''--stat'', ''--name-only'', ''--name-status'', ''--shortstat'', ''--summary'', ''--check'',
      ''--quiet'', ''--exit-code'', ''--no-color'', ''--color'', ''--cached'', ''--staged'',
      ''--no-index'', ''--merge-base'', ''--no-patch'', ''--minimal'', ''--patience'', ''--histogram'',
      ''--raw'', ''--numstat'', ''--dirstat'', ''--binary'', ''--full-index'', ''--no-prefix'',
      ''--no-textconv'', ''--no-renames'', ''--find-renames'', ''--find-copies'',
      ''--find-copies-harder'', ''--break-rewrites'', ''--ignore-all-space'', ''--ignore-blank-lines'',
      ''--ignore-cr-at-eol'', ''--abbrev-commit'', ''-w'', ''-b'', ''-s'']"

definition is_bare_diff_count_flag :: "ustr \<Rightarrow> bool" where
  "is_bare_diff_count_flag part =
     (case part of
        c # kind # rest \<Rightarrow>
          c = 45 \<and> (kind = 85 \<or> kind = 77 \<or> kind = 67)
          \<and> (let digits = (case strip_suffix [37] rest of Some d \<Rightarrow> d | None \<Rightarrow> rest)
             in digits = []
                \<or> \<not> (kind = 85 \<and> strip_suffix [37] rest \<noteq> None) \<and> list_all is_ascii_digit digits)
      | _ \<Rightarrow> False)"

definition diff_valued_prefixes :: "ustr list" where
  "diff_valued_prefixes = map str
     [''--unified='', ''--abbrev='', ''--src-prefix='', ''--dst-prefix='', ''--output-indicator-new='',
      ''--output-indicator-old='', ''--output-indicator-context='', ''--diff-filter='', ''--relative='']"

definition is_diff_valued_option :: "ustr \<Rightarrow> bool" where
  "is_diff_valued_option part = list_ex (\<lambda>prefix. starts_with prefix part) diff_valued_prefixes"

fun diff_parts_reusable :: "bool \<Rightarrow> ustr list \<Rightarrow> bool" where
  "diff_parts_reusable paths_only [] = True"
| "diff_parts_reusable paths_only (part # parts) =
     (if part = str ''--'' then diff_parts_reusable True parts
      else if paths_only \<or> \<not> starts_with [45] part then diff_parts_reusable paths_only parts
      else if part \<in> set git_diff_exact_flags then diff_parts_reusable paths_only parts
      else if is_bare_diff_count_flag part \<or> is_diff_valued_option part then diff_parts_reusable paths_only parts
      else False)"

definition is_reusable_read_only_git_diff :: "ustr list \<Rightarrow> bool" where
  "is_reusable_read_only_git_diff parts = diff_parts_reusable False (drop 2 parts)"

text \<open>The loop over the leading flags: the words from the program on, or None for another flag.\<close>

fun sed_skip_flags :: "ustr list \<Rightarrow> ustr list option" where
  "sed_skip_flags [] = Some []"
| "sed_skip_flags (flag # parts) =
     (if \<not> starts_with [45] flag then Some (flag # parts)
      else if flag \<in> set (map str [''-n'', ''--quiet'', ''--silent'']) then sed_skip_flags parts
      else None)"

definition is_reusable_read_only_sed :: "ustr list \<Rightarrow> bool" where
  "is_reusable_read_only_sed parts =
     (case sed_skip_flags (drop 1 parts) of
        None \<Rightarrow> False
      | Some [] \<Rightarrow> False
      | Some (program # rest) \<Rightarrow>
          rest \<noteq> [] \<and> \<not> list_ex (\<lambda>b. b \<in> set (str ''eEwWrR'')) program)"

definition shell_wrappers :: "ustr list" where
  "shell_wrappers = map str [''sh'', ''bash'', ''zsh'', ''dash'', ''fish'', ''env'', ''command'', ''builtin'']"

definition scope_of_words :: "ustr list \<Rightarrow> approval_scope option" where
  "scope_of_words parts =
     (case parts of
        [] \<Rightarrow> None
      | w # ws \<Rightarrow>
          let base = to_ascii_lower w
          in if \<not> is_bare_command_name base \<or> base \<in> set shell_wrappers then None
             else if base = str ''git'' then
               (case ws of
                  [] \<Rightarrow> None
                | v # _ \<Rightarrow>
                    let subcommand = to_ascii_lower v
                    in if subcommand \<notin> set SAFE_GIT_SUBCOMMANDS then None
                       else if subcommand = str ''diff'' \<and> \<not> is_reusable_read_only_git_diff parts then None
                       else Some (GitSubcommand subcommand))
             else if base = str ''sed'' then (if is_reusable_read_only_sed parts then Some SedReadOnly else None)
             else if base = str ''find'' then Some FindReadOnly
             else Some (Binary base))"

definition command_approval_scope :: "ustr option \<Rightarrow> ustr \<Rightarrow> approval_scope option" where
  "command_approval_scope env command =
     (case read_only_pipeline_scope command of
        Some sc \<Rightarrow> Some sc
      | None \<Rightarrow>
          if \<not> is_simple_scope_command command then None
          else if is_structurally_safe_for_scope (new_checker env) command \<noteq> Inr () then None
          else scope_of_words (split_ascii_whitespace command))"

fun collect_scopes :: "ustr option \<Rightarrow> approval_scope list \<Rightarrow> ustr list \<Rightarrow> approval_scope list option" where
  "collect_scopes env scopes [] = Some scopes"
| "collect_scopes env scopes (command # commands) =
     (case command_approval_scope env command of
        None \<Rightarrow> None
      | Some sc \<Rightarrow> collect_scopes env (if sc \<in> set scopes then scopes else scopes @ [sc]) commands)"

definition command_approval_scopes :: "(ustr \<Rightarrow> json option) \<Rightarrow> ustr option \<Rightarrow> json \<Rightarrow> approval_scope list option" where
  "command_approval_scopes parse env params =
     (if get_str params (str ''script'') \<noteq> None then None
      else let commands = coerce_command_array parse params
        in if commands = [] then None else collect_scopes env [] commands)"

section \<open>Words of two kinds\<close>

text \<open>A first word between ASCII whitespace that holds no other whitespace is the first word altogether.\<close>

lemma split_words_Cons:
  assumes "split_words P s = w # ws"
  shows "\<exists>c cs. dropWhile P s = c # cs \<and> \<not> P c \<and> w = c # takeWhile (\<lambda>c. \<not> P c) cs
    \<and> ws = split_words P (dropWhile (\<lambda>c. \<not> P c) cs)"
proof -
  have "dropWhile P s \<noteq> []"
    using assms split_words_dropWhile[of P s] by (metis list.distinct(1) split_words_Nil)
  then obtain c cs where c: "dropWhile P s = c # cs" by (cases "dropWhile P s") auto
  then have "\<not> P c" by (metis hd_dropWhile list.distinct(1) list.sel(1))
  then show ?thesis using assms c split_words_dropWhile[of P s] by (simp add: split_words_unfold)
qed

lemma takeWhile_glue:
  "\<forall>x \<in> set t. \<not> Q x \<Longrightarrow> d = [] \<or> Q (hd d) \<Longrightarrow>
     takeWhile (\<lambda>c. \<not> Q c) (t @ d) = t \<and> dropWhile (\<lambda>c. \<not> Q c) (t @ d) = d"
  by (induction t) (cases d; simp)+

lemma split_words_finer:
  assumes "split_words P s = w # ws" and "\<And>c. P c \<Longrightarrow> Q c" and "\<forall>c \<in> set w. \<not> Q c"
  shows "\<exists>r. split_words Q s = w # split_words Q r \<and> ws = split_words P r"
proof -
  obtain c cs where c: "dropWhile P s = c # cs" "\<not> P c" "w = c # takeWhile (\<lambda>c. \<not> P c) cs"
      "ws = split_words P (dropWhile (\<lambda>c. \<not> P c) cs)"
    using split_words_Cons[OF assms(1)] by blast
  have q: "split_words Q s = split_words Q (c # cs)"
  proof -
    have e: "s = takeWhile P s @ c # cs" using c(1) takeWhile_dropWhile_id[of P s] by simp
    have "\<forall>x \<in> set (takeWhile P s). Q x" using assms(2) by (auto dest: set_takeWhileD)
    then have "dropWhile Q (takeWhile P s @ c # cs) = dropWhile Q (c # cs)" by (simp add: dropWhile_append)
    then show ?thesis using e by (metis split_words_dropWhile)
  qed
  have n: "\<not> Q c" using assms(3) c(3) by simp
  have "takeWhile (\<lambda>c. \<not> Q c) cs = takeWhile (\<lambda>c. \<not> P c) cs
      \<and> dropWhile (\<lambda>c. \<not> Q c) cs = dropWhile (\<lambda>c. \<not> P c) cs"
  proof -
    let ?t = "takeWhile (\<lambda>c. \<not> P c) cs" and ?d = "dropWhile (\<lambda>c. \<not> P c) cs"
    have t: "\<forall>x \<in> set ?t. \<not> Q x" using assms(3) c(3) by simp
    have d: "?d = [] \<or> Q (hd ?d)" using assms(2) hd_dropWhile[of "\<lambda>c. \<not> P c" cs] by blast
    from takeWhile_glue[OF t d] show ?thesis by (simp only: takeWhile_dropWhile_id)
  qed
  then have "split_words Q s = w # split_words Q (dropWhile (\<lambda>c. \<not> P c) cs)"
    unfolding q split_words_unfold[of Q c, OF n] c(3) by simp
  then show ?thesis using c(4) by blast
qed

lemma ascii_ws: "is_ascii_ws c \<Longrightarrow> is_ws c"
  by (auto simp: is_ascii_ws_def is_ws_def)

lemma lower_ws: "is_ws (if is_ascii_upper c then c + 32 else c) = is_ws c"
  by (auto simp: is_ws_def ascii_defs)

lemma bare_no_ws:
  assumes "is_bare_command_name (to_ascii_lower w)"
  shows "(\<forall>c \<in> set w. \<not> is_ws c) \<and> to_lowercase w = to_ascii_lower w"
proof -
  have "\<forall>c \<in> set w. is_ascii_alnum c \<or> c = 46 \<or> c = 95 \<or> c = 43 \<or> c = 45"
    using assms by (auto simp: is_bare_command_name_def to_ascii_lower_def list_all_iff ascii_defs split: if_splits)
  then have k: "\<forall>c \<in> set w. \<not> is_ws c \<and> c < 128" by (auto simp: ascii_defs is_ws_def)
  then show ?thesis by (simp add: to_lowercase_ascii)
qed

lemma bare_first_word:
  assumes "split_ascii_whitespace s = w # ws" and "is_bare_command_name (to_ascii_lower w)"
  shows "\<exists>r. split_whitespace s = w # split_whitespace r \<and> ws = split_ascii_whitespace r"
  by (rule split_words_finer[OF assms(1)]) (use bare_no_ws[OF assms(2)] in \<open>auto intro: ascii_ws\<close>)

lemma trim_ascii_words:
  assumes "split_ascii_whitespace s = w # ws" and "is_bare_command_name (to_ascii_lower w)"
  shows "\<exists>r. split_whitespace (trim s) = w # split_whitespace r \<and> ws = split_ascii_whitespace r"
  using bare_first_word[OF assms] by simp

section \<open>What a scope covers\<close>

text \<open>The commands a scope admits, by the program and the words after it.\<close>

fun scope_admits :: "approval_scope \<Rightarrow> ustr \<Rightarrow> ustr list \<Rightarrow> bool" where
  "scope_admits (Binary b) base ws = (base = b \<and> b \<notin> set shell_wrappers)"
| "scope_admits (GitSubcommand s) base ws =
     (base = str ''git'' \<and> (\<exists>v vs. ws = v # vs \<and> to_lowercase v = s) \<and> s \<in> set SAFE_GIT_SUBCOMMANDS)"
| "scope_admits SedReadOnly base ws = (base = str ''sed'')"
| "scope_admits FindReadOnly base ws = (base = str ''find'')"
| "scope_admits (ReadOnlyPipeline ps) base ws = (base \<in> set ps \<and> base \<in> set pipeline_programs)"

lemma simple_command_pieces:
  assumes "is_simple_scope_command command"
  shows "command_pieces (trim command) = [trim command]"
proof -
  have "\<forall>c \<in> set (trim command). \<not> is_separator c"
    using assms by (auto simp: is_simple_scope_command_def Let_def list_ex_iff is_separator_def scope_metachar_def str_def)
  then show ?thesis using segments_simple by (simp add: segments_pieces)
qed

lemma stage_programs_sound:
  assumes "stage_programs stages = Some ps" and "stage \<in> set stages"
  shows "\<exists>w ws. split_ascii_whitespace stage = w # ws \<and> to_ascii_lower w \<in> set ps
    \<and> is_bare_command_name (to_ascii_lower w) \<and> to_ascii_lower w \<in> set pipeline_programs"
  using assms
proof (induction stages arbitrary: ps)
  case (Cons s ss)
  then show ?case by (fastforce simp: Let_def split: list.splits if_splits)
qed simp

lemma pipeline_programs_free:
  "b \<in> set pipeline_programs \<Longrightarrow> program_allowed b ws"
  unfolding program_allowed_def pipeline_programs_def HARD_CODED_DENY_LIST_def
  by (auto simp: str_def)

lemma pipeline_scope_covers:
  assumes "read_only_pipeline_scope command = Some sc"
    and "segment \<in> set (command_pieces (trim command))" and "split_whitespace segment = w # ws"
  shows "program_allowed (to_lowercase w) ws \<and> scope_admits sc (to_lowercase w) ws"
proof -
  obtain stages ps where st: "split_read_only_pipeline command = Some stages" "stage_programs stages = Some ps"
      "sc = ReadOnlyPipeline ps"
    using assms(1) by (auto simp: read_only_pipeline_scope_def split: option.splits if_splits)
  then have p: "plain_pipeline Bare (trim command)" "stages = map trim (split_command_segments (trim command))"
    by (simp_all add: read_only_pipeline_iff)
  then have "trim segment \<in> set stages" using assms(2) by (simp add: segments_pieces)
  from stage_programs_sound[OF st(2) this] obtain v vs where
    v: "split_ascii_whitespace (trim segment) = v # vs" "to_ascii_lower v \<in> set ps"
      "is_bare_command_name (to_ascii_lower v)" "to_ascii_lower v \<in> set pipeline_programs" by blast
  obtain r where "split_whitespace segment = v # split_whitespace r"
    using bare_first_word[OF v(1,3)] by auto
  then have "w = v" using assms(3) by simp
  then show ?thesis using v st(3) bare_no_ws[OF v(3)] pipeline_programs_free by simp
qed

lemma scope_of_words_covers:
  assumes "scope_of_words (split_ascii_whitespace command) = Some sc" and "split_whitespace command = w # ws"
  shows "scope_admits sc (to_lowercase w) ws"
proof -
  obtain v vs where v: "split_ascii_whitespace command = v # vs" "is_bare_command_name (to_ascii_lower v)"
      "to_ascii_lower v \<notin> set shell_wrappers"
    using assms(1) by (auto simp: scope_of_words_def Let_def split: list.splits if_splits)
  obtain r where r: "split_whitespace command = v # split_whitespace r" "vs = split_ascii_whitespace r"
    using bare_first_word[OF v(1,2)] by blast
  then have wv: "w = v" "ws = split_whitespace r" using assms(2) by simp_all
  have l: "to_lowercase v = to_ascii_lower v" using bare_no_ws[OF v(2)] by simp
  show ?thesis
  proof (cases "to_ascii_lower v = str ''git''")
    case False
    then show ?thesis using assms(1) v wv l
      by (auto simp: scope_of_words_def Let_def split: list.splits if_splits)
  next
    case True
    then obtain s t where s: "vs = s # t" "to_ascii_lower s \<in> set SAFE_GIT_SUBCOMMANDS" "sc = GitSubcommand (to_ascii_lower s)"
      using assms(1) v by (auto simp: scope_of_words_def Let_def split: list.splits if_splits)
    have "is_bare_command_name (to_ascii_lower s)"
    proof -
      have "list_all is_bare_command_name SAFE_GIT_SUBCOMMANDS" by code_simp
      then show ?thesis using s(2) by (simp add: list_all_iff)
    qed
    then obtain u where "ws = s # split_whitespace u"
      using bare_first_word[of r s t] s(1) r(2) wv(2) by auto
    then show ?thesis
      using s True l wv(1) bare_no_ws[OF \<open>is_bare_command_name (to_ascii_lower s)\<close>] by simp
  qed
qed

lemma scope_covers:
  assumes "command_approval_scope env command = Some sc"
    and "segment \<in> set (command_pieces (trim command))" and "split_whitespace segment = w # ws"
  shows "program_allowed (to_lowercase w) ws \<and> scope_admits sc (to_lowercase w) ws"
proof (cases "read_only_pipeline_scope command")
  case (Some p)
  then show ?thesis using assms pipeline_scope_covers by (auto simp: command_approval_scope_def)
next
  case None
  then have s: "is_simple_scope_command command" "scope_of_words (split_ascii_whitespace command) = Some sc"
    and st: "is_structurally_safe_for_scope (new_checker env) command = Inr ()"
    using assms(1) by (auto simp: command_approval_scope_def split: if_splits)
  have g: "segment = trim command" using assms(2) simple_command_pieces[OF s(1)] by simp
  have "check_deny_list command = Inr ()"
    using st by (simp add: is_structurally_safe_for_scope_def new_checker_def check_structural_safety_def)
  moreover have "split_command_segments (trim command) = [trim command]"
    using s(1) by (intro segments_simple)
      (auto simp: is_simple_scope_command_def Let_def list_ex_iff is_separator_def scope_metachar_def str_def)
  ultimately have "program_allowed (to_lowercase w) ws"
    using assms(3) g by (simp add: check_deny_list_def check_deny_segment_ok)
  moreover have "scope_admits sc (to_lowercase w) ws"
    using scope_of_words_covers[OF s(2)] assms(3) g by simp
  ultimately show ?thesis by simp
qed

text \<open>C24. In a command that has a reusable scope every piece between two separators that stand outside quotes begins with a
  program the scope names, which is not on the deny list, and has arguments the rules for git, find and sort allow: a
  user who grants a scope never approves another program with it.\<close>

theorem scope_covers_programs:
  assumes "command_approval_scope env command = Some sc"
    and "segment \<in> set (command_pieces (trim command))" and "split_whitespace segment = w # ws"
  shows "program_allowed (to_lowercase w) ws \<and> scope_admits sc (to_lowercase w) ws"
  by (rule scope_covers[OF assms])

lemma scope_covers_programs_witness:
  "program_allowed (to_lowercase (str ''Cargo'')) [str ''test'']
     \<and> scope_admits (Binary (str ''cargo'')) (to_lowercase (str ''Cargo'')) [str ''test'']"
  by (rule scope_covers_programs[where env = None and command = "str ''  Cargo test''" and segment = "str ''Cargo test''"];
      code_simp)

text \<open>A command has the scope of a read-only pipeline exactly when all its text outside literal quotes is
  free of shell features, its quotes are closed, it has at least two stages and each begins with one of the
  six programs; its stages are the pieces between its pipes.\<close>

theorem pipeline_scope_iff:
  "read_only_pipeline_scope command = Some (ReadOnlyPipeline ps) \<longleftrightarrow>
     plain_pipeline Bare (trim command)
     \<and> [] \<notin> set (map trim (command_pieces (trim command))) \<and> 2 \<le> length (command_pieces (trim command))
     \<and> stage_programs (map trim (command_pieces (trim command))) = Some ps"
proof (cases "plain_pipeline Bare (trim command)")
  case False
  then have "split_read_only_pipeline command = None"
    using read_only_pipeline_iff[of command] by (cases "split_read_only_pipeline command") auto
  then show ?thesis using False by (simp add: read_only_pipeline_scope_def)
next
  case True
  have b: "command_pieces (trim command) = split_command_segments (trim command)"
    by (simp add: segments_pieces)
  show ?thesis
  proof (cases "split_read_only_pipeline command")
    case None
    then have "[] \<in> set (map trim (split_command_segments (trim command)))"
      using True read_only_pipeline_iff[of command "map trim (split_command_segments (trim command))"] by auto
    then show ?thesis using None b by (simp add: read_only_pipeline_scope_def)
  next
    case (Some stages)
    then have "stages = map trim (split_command_segments (trim command))" "[] \<notin> set stages"
      unfolding read_only_pipeline_iff by blast+
    then show ?thesis using Some True b by (auto simp: read_only_pipeline_scope_def)
  qed
qed

text \<open>A pipe inside a literal argument is not a stage, and a redirection ends the scope.\<close>

lemma pipeline_scope_examples:
  "read_only_pipeline_scope (str ''grep '' @ [34] @ str ''a|b'' @ [34] @ str '' f | head -3'')
     = Some (ReadOnlyPipeline [str ''grep'', str ''head''])"
  "read_only_pipeline_scope (str ''cat f | wc > out'') = None"
  by code_simp+

section \<open>Where the rules fall short\<close>

text \<open>In a shell with comments the quote of this pipeline opens nothing, and its second line is a command.\<close>

lemma comment_quote_hides_stage:
  "command_approval_scope None (str ''ls | head # '' @ [39, nl] @ str ''rm -rf x'' @ [nl] @ str ''# '' @ [39])
     = Some (ReadOnlyPipeline [str ''ls'', str ''head''])"
  by code_simp

text \<open>The rule for sed looks at the start of an option: a combined short option edits in place, and a script
  given with -e after the file operand is not looked at at all. Both commands have the read-only scope.\<close>

lemma read_only_sed_writes:
  "command_approval_scope None (str ''sed p -ni f'') = Some SedReadOnly"
  "command_approval_scope None (str ''sed p -ewout f'') = Some SedReadOnly"
  by code_simp+

text \<open>The options that name an output indicator are listed as read-only forms of git diff and refused as
  output files.\<close>

lemma output_indicator_refused:
  "is_reusable_read_only_git_diff (map str [''git'', ''diff'', ''--output-indicator-new=x'']) \<and>
   command_approval_scope None (str ''git diff --output-indicator-new=x'') = None"
  by code_simp

end
