(* ===== verification/PathPolicy.thy ===== *)
theory PathPolicy
  imports Prelude
begin

text \<open>
  Paths and the functions that keep a tool inside the workspace: \<open>resolve_sanitized_path\<close> and
  \<open>resolve_authorized_path\<close> of \<open>src/src/core/tools/mod.rs\<close>, \<open>is_path_local\<close> and
  \<open>external_directory_for_path\<close> of \<open>src/src/core/approval.rs\<close>. A path is the list of its
  components, as \<open>std::path\<close> of a Unix system parses it; the file system is a record of the calls
  that look at it. A refused path is an error whose constructors stand for the messages.
\<close>

section \<open>Paths\<close>

datatype component = RootDir | CurDir | ParentDir | Normal ustr

type_synonym path = "component list"

definition component_of :: "ustr \<Rightarrow> component" where
  "component_of s = (if s = str ''..'' then ParentDir else Normal s)"

text \<open>\<open>Path::components\<close>: a dot is a component only at the start of a relative path.\<close>

definition parse_path :: "ustr \<Rightarrow> path" where
  "parse_path s =
     (let pieces = filter (\<lambda>p. p \<noteq> []) (split_on 47 s);
          named = map component_of (filter (\<lambda>p. p \<noteq> str ''.'') pieces)
      in if starts_with [47] s then RootDir # named
         else if pieces \<noteq> [] \<and> hd pieces = str ''.'' then CurDir # named
         else named)"

definition is_absolute :: "path \<Rightarrow> bool" where
  "is_absolute p \<longleftrightarrow> (case p of c # _ \<Rightarrow> c = RootDir | [] \<Rightarrow> False)"

fun path_starts_with :: "path \<Rightarrow> path \<Rightarrow> bool" where
  "path_starts_with p [] = True"
| "path_starts_with [] (b # bs) = False"
| "path_starts_with (a # as) (b # bs) = (a = b \<and> path_starts_with as bs)"

definition parent :: "path \<Rightarrow> path option" where
  "parent p = (if p = [] \<or> List.last p = RootDir then None else Some (butlast p))"

definition file_name :: "path \<Rightarrow> ustr option" where
  "file_name p = (if p = [] then None else case List.last p of Normal n \<Rightarrow> Some n | _ \<Rightarrow> None)"

definition pop :: "path \<Rightarrow> path" where
  "pop p = (case parent p of Some q \<Rightarrow> q | None \<Rightarrow> p)"

text \<open>\<open>push\<close> and \<open>join\<close>: an absolute path replaces what is there.\<close>

definition path_join :: "path \<Rightarrow> path \<Rightarrow> path" where
  "path_join r p =
     (if is_absolute p then p else if r = [] then p else r @ filter (\<lambda>c. c \<noteq> CurDir) p)"

text \<open>The loop that both approval and resolution use to drop \<open>.\<close> and resolve \<open>..\<close>\<close>

definition normal_step :: "path \<Rightarrow> component \<Rightarrow> path" where
  "normal_step acc c =
     (case c of ParentDir \<Rightarrow> pop acc | CurDir \<Rightarrow> acc | _ \<Rightarrow> path_join acc [c])"

definition normalize_path :: "path \<Rightarrow> path" where
  "normalize_path p = foldl normal_step [] p"

section \<open>The file system\<close>

datatype lstat = Symlink | NoSymlink | Missing | LstatFailed

record file_system =
  fs_exists :: "path \<Rightarrow> bool"
  fs_canonicalize :: "path \<Rightarrow> path option"
  fs_is_dir :: "path \<Rightarrow> bool"
  fs_lstat :: "path \<Rightarrow> lstat"

section \<open>Resolution under the workspace\<close>

datatype path_error =
    RootNotAbsolute path
  | AbsoluteOutside path path
  | Traversal path
  | EscapesWorkspace path
  | ResolveFailed path
  | SymlinkEscape path path
  | SymlinkUnresolved path
  | InspectFailed path
  | SymlinkParentEscape path path
  | NotAuthorized path

text \<open>The normalising loop of the resolver: after every \<open>..\<close> the path must still be below the root.\<close>

fun sanitize_components :: "path \<Rightarrow> path \<Rightarrow> path \<Rightarrow> path \<Rightarrow> path_error + path" where
  "sanitize_components root original acc [] = Inr acc"
| "sanitize_components root original acc (c # cs) =
     (case c of
        Normal n \<Rightarrow> sanitize_components root original (path_join acc [c]) cs
      | RootDir \<Rightarrow> sanitize_components root original (path_join acc [c]) cs
      | CurDir \<Rightarrow> sanitize_components root original acc cs
      | ParentDir \<Rightarrow>
          let acc' = pop acc
          in if \<not> path_starts_with acc' root then Inl (Traversal original)
             else sanitize_components root original acc' cs)"

text \<open>The walk over the components below the root of a path that does not exist.\<close>

fun check_symlinks :: "file_system \<Rightarrow> path \<Rightarrow> path \<Rightarrow> path \<Rightarrow> path \<Rightarrow> path_error + unit" where
  "check_symlinks fs canonical_root original current [] = Inr ()"
| "check_symlinks fs canonical_root original current (c # cs) =
     (let current' = path_join current [c]
      in case fs_lstat fs current' of
           NoSymlink \<Rightarrow> check_symlinks fs canonical_root original current' cs
         | Symlink \<Rightarrow>
             (case fs_canonicalize fs current' of
                None \<Rightarrow> Inl (SymlinkUnresolved current')
              | Some canonical \<Rightarrow>
                  if \<not> path_starts_with canonical canonical_root then Inl (SymlinkParentEscape original canonical)
                  else check_symlinks fs canonical_root original current' cs)
         | Missing \<Rightarrow> check_symlinks fs canonical_root original current' cs
         | LstatFailed \<Rightarrow> Inl (InspectFailed current'))"

definition canonical_or :: "file_system \<Rightarrow> path \<Rightarrow> path" where
  "canonical_or fs p = (case fs_canonicalize fs p of Some c \<Rightarrow> c | None \<Rightarrow> p)"

definition path_suffix :: "path \<Rightarrow> path \<Rightarrow> path" where
  "path_suffix p root = (if path_starts_with p root then drop (length root) p else p)"

definition resolve_normalized :: "file_system \<Rightarrow> path \<Rightarrow> path \<Rightarrow> path \<Rightarrow> path_error + path" where
  "resolve_normalized fs workspace_root path normalized =
     (if \<not> path_starts_with normalized workspace_root then Inl (EscapesWorkspace path)
      else let canonical_root = canonical_or fs workspace_root
        in if fs_exists fs normalized then
             (case fs_canonicalize fs normalized of
                None \<Rightarrow> Inl (ResolveFailed path)
              | Some canonical \<Rightarrow>
                  if \<not> path_starts_with canonical canonical_root then Inl (SymlinkEscape path canonical)
                  else Inr canonical)
           else (case check_symlinks fs canonical_root path workspace_root (path_suffix normalized workspace_root) of
                   Inl e \<Rightarrow> Inl e
                 | Inr _ \<Rightarrow> Inr normalized))"

definition resolve_sanitized_path :: "file_system \<Rightarrow> path \<Rightarrow> ustr \<Rightarrow> path_error + path" where
  "resolve_sanitized_path fs workspace_root s =
     (if \<not> is_absolute workspace_root then Inl (RootNotAbsolute workspace_root)
      else let path = parse_path s
        in if is_absolute path \<and> \<not> path_starts_with path workspace_root
           then Inl (AbsoluteOutside path workspace_root)
           else let resolved = (if is_absolute path then path else path_join workspace_root path)
             in case sanitize_components workspace_root path [] resolved of
                  Inl e \<Rightarrow> Inl e
                | Inr normalized \<Rightarrow> resolve_normalized fs workspace_root path normalized)"

text \<open>The nearest existing ancestor of a path, canonical, with the missing components put back.\<close>

function existing_parent :: "file_system \<Rightarrow> path \<Rightarrow> path \<Rightarrow> ustr list \<Rightarrow> path_error + (path \<times> ustr list)" where
  "existing_parent fs path cursor missing =
     (if fs_exists fs cursor then Inr (cursor, missing)
      else case fs_lstat fs cursor of
             Symlink \<Rightarrow> Inl (SymlinkUnresolved cursor)
           | LstatFailed \<Rightarrow> Inl (InspectFailed cursor)
           | _ \<Rightarrow>
               (case file_name cursor of
                  None \<Rightarrow> Inl (ResolveFailed path)
                | Some component \<Rightarrow>
                    (case parent cursor of
                       None \<Rightarrow> Inl (ResolveFailed path)
                     | Some up \<Rightarrow> existing_parent fs path up (component # missing))))"
  by pat_completeness auto
termination
  by (relation "measure (\<lambda>(fs, path, cursor, missing). length cursor)")
    (auto simp: parent_def split: if_splits)

declare existing_parent.simps [simp del]

definition canonicalize_existing_parent :: "file_system \<Rightarrow> path \<Rightarrow> path_error + path" where
  "canonicalize_existing_parent fs path =
     (case existing_parent fs path path [] of
        Inl e \<Rightarrow> Inl e
      | Inr (cursor, missing) \<Rightarrow>
          (case fs_canonicalize fs cursor of
             None \<Rightarrow> Inl (ResolveFailed path)
           | Some canonical \<Rightarrow> Inr (foldl (\<lambda>p c. path_join p [Normal c]) canonical missing)))"

definition resolve_authorized_path :: "file_system \<Rightarrow> path \<Rightarrow> path list \<Rightarrow> ustr \<Rightarrow> path_error + path" where
  "resolve_authorized_path fs workspace_root external_roots s =
     (let path_obj = parse_path s
      in if \<not> is_absolute path_obj \<or> path_starts_with path_obj workspace_root
         then resolve_sanitized_path fs workspace_root s
         else (case canonicalize_existing_parent fs (normalize_path path_obj) of
             Inl e \<Rightarrow> Inl e
           | Inr canonical_path \<Rightarrow>
               if (case fs_canonicalize fs workspace_root of
                     Some canonical_root \<Rightarrow> path_starts_with canonical_path canonical_root | None \<Rightarrow> False)
               then Inr canonical_path
               else if list_ex (\<lambda>root. path_starts_with canonical_path root) external_roots
               then Inr canonical_path
               else Inl (NotAuthorized path_obj)))"

section \<open>Local and external paths\<close>

definition is_path_local :: "file_system \<Rightarrow> ustr option \<Rightarrow> ustr \<Rightarrow> bool" where
  "is_path_local fs workspace_root s =
     (case workspace_root of
        None \<Rightarrow> False
      | Some root \<Rightarrow>
          let s' = (case s of c # cs \<Rightarrow> if c = 47 \<and> 47 \<notin> set cs then cs else s | [] \<Rightarrow> s);
              r = parse_path root;
              p = parse_path s';
              workspace_path = (if is_absolute p then p else path_join r p);
              normalized_path = normalize_path workspace_path;
              normalized_root = normalize_path r;
              canonical_path =
                (if fs_exists fs normalized_path then fs_canonicalize fs normalized_path
                 else case parent normalized_path of
                    Some up \<Rightarrow>
                      if fs_exists fs up then
                        map_option (\<lambda>cp. case file_name normalized_path of
                            Some n \<Rightarrow> path_join cp [Normal n] | None \<Rightarrow> cp) (fs_canonicalize fs up)
                      else Some normalized_path
                  | None \<Rightarrow> Some normalized_path)
          in case canonical_path of
               None \<Rightarrow> False
             | Some cp \<Rightarrow> path_starts_with cp (canonical_or fs normalized_root))"

function nearest_directory :: "file_system \<Rightarrow> path \<Rightarrow> path option" where
  "nearest_directory fs directory =
     (case fs_canonicalize fs directory of
        Some canonical \<Rightarrow>
          if fs_is_dir fs canonical then Some canonical
          else (case parent directory of None \<Rightarrow> None | Some up \<Rightarrow> nearest_directory fs up)
      | None \<Rightarrow> (case parent directory of None \<Rightarrow> None | Some up \<Rightarrow> nearest_directory fs up))"
  by pat_completeness auto
termination
  by (relation "measure (\<lambda>(fs, directory). length directory)") (auto simp: parent_def split: if_splits)

declare nearest_directory.simps [simp del]

definition external_directory_for_path :: "file_system \<Rightarrow> ustr \<Rightarrow> path option" where
  "external_directory_for_path fs s =
     (let path = parse_path s
      in if \<not> is_absolute path then None
         else if fs_is_dir fs path then nearest_directory fs path
         else Option.bind (parent path) (nearest_directory fs))"

section \<open>What the resolver returns\<close>

lemma path_starts_with_iff: "path_starts_with p r \<longleftrightarrow> (\<exists>s. p = r @ s)"
  by (induction p r rule: path_starts_with.induct) auto

lemma path_starts_with_refl [simp]: "path_starts_with p p"
  by (simp add: path_starts_with_iff)

lemma path_starts_with_trans:
  "path_starts_with p q \<Longrightarrow> path_starts_with q r \<Longrightarrow> path_starts_with p r"
  by (auto simp: path_starts_with_iff)

lemma path_join_Normal: "p \<noteq> [] \<Longrightarrow> path_join p [Normal n] = p @ [Normal n]"
  by (simp add: path_join_def is_absolute_def)

text \<open>Only the first component of a normalised path can be something else than a name.\<close>

definition named_tail :: "path \<Rightarrow> bool" where
  "named_tail p \<longleftrightarrow> (\<forall>c \<in> set (tl p). \<exists>n. c = Normal n)"

lemma named_tail_join:
  assumes "named_tail p" and "c = RootDir \<or> (\<exists>n. c = Normal n)"
  shows "named_tail (path_join p [c])"
  using assms by (cases p) (auto simp: named_tail_def path_join_def is_absolute_def)

lemma named_tail_pop: "named_tail p \<Longrightarrow> named_tail (pop p)"
  by (cases p) (auto simp: named_tail_def pop_def parent_def butlast_tl split: option.splits if_splits dest: in_set_butlastD)

lemma sanitize_named_tail:
  "sanitize_components root original acc cs = Inr p \<Longrightarrow> named_tail acc \<Longrightarrow> named_tail p"
proof (induction cs arbitrary: acc)
  case (Cons c cs)
  show ?case
  proof (cases c)
    case RootDir
    then show ?thesis using Cons by (simp add: named_tail_join)
  next
    case CurDir
    then show ?thesis using Cons by simp
  next
    case ParentDir
    then show ?thesis using Cons by (simp add: named_tail_pop Let_def split: if_splits)
  next
    case (Normal n)
    then show ?thesis using Cons by (simp add: named_tail_join)
  qed
qed simp

text \<open>
  What the resolver relies on about the calls of the file system: resolving a path resolves its directory
  first, a component that is no link adds its own name, and a component that is not there does not resolve.
\<close>

definition fs_laws :: "file_system \<Rightarrow> bool" where
  "fs_laws fs \<longleftrightarrow>
     (\<forall>q n. q \<noteq> [] \<longrightarrow> (case fs_canonicalize fs (q @ [Normal n]) of
        None \<Rightarrow> True
      | Some d \<Rightarrow> fs_lstat fs (q @ [Normal n]) \<noteq> Missing
          \<and> (case fs_canonicalize fs q of
               None \<Rightarrow> False
             | Some c \<Rightarrow> fs_lstat fs (q @ [Normal n]) = NoSymlink \<longrightarrow> d = c @ [Normal n])))"

text \<open>Every ancestor of the path from the root on that resolves, resolves below the canonical root; below the root every
  component can be inspected, and one that is a link resolves: no link dangles, wherever it would lead.\<close>

definition confined :: "file_system \<Rightarrow> path \<Rightarrow> path \<Rightarrow> path \<Rightarrow> bool" where
  "confined fs root canonical_root p \<longleftrightarrow> path_starts_with p root \<and>
     (\<forall>k c. length root \<le> k \<and> k \<le> length p \<and> fs_canonicalize fs (take k p) = Some c
        \<longrightarrow> path_starts_with c canonical_root) \<and>
     (\<forall>k. length root < k \<and> k \<le> length p \<longrightarrow> fs_lstat fs (take k p) \<noteq> LstatFailed
        \<and> (fs_lstat fs (take k p) = Symlink \<longrightarrow> fs_canonicalize fs (take k p) \<noteq> None))"

lemma check_symlinks_confines:
  assumes "fs_laws fs" and "check_symlinks fs canonical_root original current cs = Inr ()"
    and "current \<noteq> []" and "\<forall>c \<in> set cs. \<exists>n. c = Normal n"
    and "\<And>c. fs_canonicalize fs current = Some c \<Longrightarrow> path_starts_with c canonical_root"
    and "fs_canonicalize fs (current @ take j cs) = Some d"
  shows "path_starts_with d canonical_root"
  using assms(2-6)
proof (induction cs arbitrary: current j)
  case Nil
  then show ?case by simp
next
  case (Cons x xs)
  obtain n where x: "x = Normal n" using Cons.prems(3) by auto
  let ?cur = "current @ [Normal n]"
  have j: "path_join current [x] = ?cur" using x Cons.prems(2) by (simp add: path_join_Normal)
  have rest: "check_symlinks fs canonical_root original ?cur xs = Inr ()"
    using Cons.prems(1) by (simp add: j Let_def split: lstat.splits option.splits if_splits)
  have below: "path_starts_with c canonical_root" if c: "fs_canonicalize fs ?cur = Some c" for c
  proof -
    have l: "fs_lstat fs ?cur \<noteq> Missing" "fs_canonicalize fs current \<noteq> None"
      "fs_lstat fs ?cur = NoSymlink \<longrightarrow> c = the (fs_canonicalize fs current) @ [Normal n]"
      using assms(1)[unfolded fs_laws_def, rule_format, of current n] c Cons.prems(2) by (auto split: option.splits)
    show ?thesis
    proof (cases "fs_lstat fs ?cur")
      case Symlink
      then show ?thesis using Cons.prems(1) c by (simp add: j Let_def split: if_splits)
    next
      case NoSymlink
      then show ?thesis using l Cons.prems(4) by (auto simp: path_starts_with_iff)
    next
      case Missing
      then show ?thesis using l by simp
    next
      case LstatFailed
      then show ?thesis using Cons.prems(1) by (simp add: j Let_def)
    qed
  qed
  show ?case
  proof (cases j)
    case 0
    then show ?thesis using Cons.prems(4,5) by simp
  next
    case (Suc i)
    then have "fs_canonicalize fs (?cur @ take i xs) = Some d" using Cons.prems(5) x by simp
    then show ?thesis using Cons.IH[OF rest _ _ below, of i] Cons.prems(3) by auto
  qed
qed

lemma check_symlinks_inspects:
  assumes "check_symlinks fs canonical_root original current cs = Inr ()" and "current \<noteq> []"
    and "\<forall>c \<in> set cs. \<exists>n. c = Normal n" and "0 < j" and "j \<le> length cs"
  shows "fs_lstat fs (current @ take j cs) \<noteq> LstatFailed
    \<and> (fs_lstat fs (current @ take j cs) = Symlink \<longrightarrow> fs_canonicalize fs (current @ take j cs) \<noteq> None)"
  using assms
proof (induction cs arbitrary: current j)
  case (Cons x xs)
  obtain n where x: "x = Normal n" using Cons.prems(3) by auto
  have p: "path_join current [x] = current @ [x]" using x Cons.prems(2) by (simp add: path_join_Normal)
  have here: "fs_lstat fs (current @ [x]) \<noteq> LstatFailed
      \<and> (fs_lstat fs (current @ [x]) = Symlink \<longrightarrow> fs_canonicalize fs (current @ [x]) \<noteq> None)"
    using Cons.prems(1) by (auto simp: p Let_def split: lstat.splits option.splits)
  have rest: "check_symlinks fs canonical_root original (current @ [x]) xs = Inr ()"
    using Cons.prems(1) by (simp add: p Let_def split: lstat.splits option.splits if_splits)
  show ?case
  proof (cases "j = 1")
    case True
    then show ?thesis using here by simp
  next
    case False
    then obtain i where i: "j = Suc i" "0 < i" using Cons.prems(4) by (cases j) auto
    then show ?thesis using Cons.IH[OF rest, of i] Cons.prems(3,5) by simp
  qed
qed simp

lemma resolve_confined:
  assumes "resolve_sanitized_path fs root s = Inr p" and "fs_laws fs"
  shows "path_starts_with p (canonical_or fs root)
    \<or> \<not> fs_exists fs p \<and> confined fs root (canonical_or fs root) p"
proof -
  let ?q = "parse_path s"
  have abs: "is_absolute root"
    using assms(1) by (auto simp: resolve_sanitized_path_def split: if_splits)
  obtain n where n: "sanitize_components root ?q [] (if is_absolute ?q then ?q else path_join root ?q) = Inr n"
      "resolve_normalized fs root ?q n = Inr p"
    using assms(1) abs unfolding resolve_sanitized_path_def Let_def
    by (simp del: sanitize_components.simps split: if_splits sum.splits)
  have nt: "named_tail n" using sanitize_named_tail[OF n(1)] by (simp add: named_tail_def)
  show ?thesis
  proof (cases "fs_exists fs n")
    case True
    then show ?thesis using n(2)
      by (auto simp: resolve_normalized_def Let_def split: if_splits option.splits)
  next
    case False
    then have p: "p = n" "path_starts_with n root"
      and c: "check_symlinks fs (canonical_or fs root) ?q root (path_suffix n root) = Inr ()"
      using n(2) by (auto simp: resolve_normalized_def Let_def split: if_splits sum.splits)
    obtain t where t: "n = root @ t" using p(2) by (auto simp: path_starts_with_iff)
    have r: "root \<noteq> []" using abs by (auto simp: is_absolute_def)
    have suf: "path_suffix n root = t" using t p(2) by (simp add: path_suffix_def)
    have names: "\<forall>c \<in> set t. \<exists>m. c = Normal m"
      using nt t r by (cases root) (auto simp: named_tail_def)
    moreover have "\<And>c. fs_canonicalize fs root = Some c \<Longrightarrow> path_starts_with c (canonical_or fs root)"
      by (simp add: canonical_or_def)
    ultimately have all: "path_starts_with d (canonical_or fs root)"
      if "fs_canonicalize fs (root @ take j t) = Some d" for j d
      using check_symlinks_confines[OF assms(2) c r, unfolded suf] that by blast
    have "confined fs root (canonical_or fs root) p"
      unfolding confined_def
    proof (intro conjI allI impI)
      show "path_starts_with p root" using p by simp
    next
      fix k d
      assume k: "length root \<le> k \<and> k \<le> length p \<and> fs_canonicalize fs (take k p) = Some d"
      then have "take k p = root @ take (k - length root) t" using p(1) t by simp
      then show "path_starts_with d (canonical_or fs root)"
        using all[of "k - length root" d] k by simp
    next
      fix k
      assume k: "length root < k \<and> k \<le> length p"
      then have e: "take k p = root @ take (k - length root) t" using p(1) t by simp
      have j: "0 < k - length root" "k - length root \<le> length t" using k p(1) t by auto
      have "fs_lstat fs (take k p) \<noteq> LstatFailed \<and> (fs_lstat fs (take k p) = Symlink \<longrightarrow> fs_canonicalize fs (take k p) \<noteq> None)"
        unfolding e by (rule check_symlinks_inspects[OF c[unfolded suf] r names j])
      then show "fs_lstat fs (take k p) \<noteq> LstatFailed" "fs_lstat fs (take k p) = Symlink \<Longrightarrow> fs_canonicalize fs (take k p) \<noteq> None"
        by blast+
    qed
    then show ?thesis using False p(1) by simp
  qed
qed


text \<open>A file system given by its files and directories, without links, for concrete inputs.\<close>

definition plain_fs :: "path list \<Rightarrow> path list \<Rightarrow> file_system" where
  "plain_fs dirs files =
     \<lparr>fs_exists = (\<lambda>p. p \<in> set (dirs @ files)),
      fs_canonicalize = (\<lambda>p. if p \<in> set (dirs @ files) then Some p else None),
      fs_is_dir = (\<lambda>p. p \<in> set dirs),
      fs_lstat = (\<lambda>p. if p \<in> set (dirs @ files) then NoSymlink else Missing)\<rparr>"

lemma plain_fs_laws:
  assumes "list_all (\<lambda>p. length p \<le> 1 \<or> butlast p \<in> set (dirs @ files) \<or> List.last p = RootDir) (dirs @ files)"
  shows "fs_laws (plain_fs dirs files)"
proof -
  have "q \<in> set (dirs @ files)" if "q @ [Normal n] \<in> set (dirs @ files)" "q \<noteq> []" for q n
    using assms[unfolded list_all_iff, rule_format, OF that(1)] that(2) by (cases q) auto
  then show ?thesis unfolding fs_laws_def plain_fs_def by (auto split: option.splits)
qed

abbreviation root_ws :: path where "root_ws \<equiv> [RootDir, Normal (str ''w'')]"


section \<open>Authorised directories\<close>

lemma existing_parent_Inr:
  "existing_parent fs path cursor missing = Inr (c, ms) \<Longrightarrow>
     fs_exists fs c \<and> cursor @ map Normal missing = c @ map Normal ms"
proof (induction fs path cursor missing rule: existing_parent.induct)
  case (1 fs path cursor missing)
  show ?case
  proof (cases "fs_exists fs cursor")
    case True
    then show ?thesis using "1.prems" by (subst (asm) existing_parent.simps) auto
  next
    case False
    obtain n up where nu: "file_name cursor = Some n" "parent cursor = Some up"
        "fs_lstat fs cursor = NoSymlink \<or> fs_lstat fs cursor = Missing"
        "existing_parent fs path up (n # missing) = Inr (c, ms)"
      using "1.prems" False by (subst (asm) existing_parent.simps) (auto split: lstat.splits option.splits)
    have "fs_exists fs c \<and> up @ map Normal (n # missing) = c @ map Normal ms"
      using "1.IH"(1,2) False nu by auto
    moreover have "cursor = up @ [Normal n]"
    proof -
      have ne: "cursor \<noteq> []" "List.last cursor = Normal n"
        using nu(1) by (auto simp: file_name_def split: if_splits component.splits)
      moreover have "up = butlast cursor" using nu(2) by (auto simp: parent_def split: if_splits)
      ultimately show ?thesis using append_butlast_last_id[of cursor] by simp
    qed
    ultimately show ?thesis by simp
  qed
qed

lemma push_names: "c \<noteq> [] \<Longrightarrow> foldl (\<lambda>p n. path_join p [Normal n]) c ms = c @ map Normal ms"
  by (induction ms arbitrary: c) (simp_all add: path_join_Normal)

text \<open>Outside the workspace a path resolves only below a directory the session authorised (or back in
  the workspace), and then to its nearest existing ancestor, resolved, followed by the names that do not
  exist; every other path is confined to the workspace.\<close>

theorem authorized_path_below:
  assumes "resolve_authorized_path fs root external s = Inr p" and "fs_laws fs"
    and "\<And>q c. fs_canonicalize fs q = Some c \<Longrightarrow> c \<noteq> []"
  shows "path_starts_with p (canonical_or fs root)
    \<or> \<not> fs_exists fs p \<and> confined fs root (canonical_or fs root) p
    \<or> (\<exists>dir q c ms. dir \<in> set external \<and> path_starts_with p dir \<and> fs_exists fs q \<and> fs_canonicalize fs q = Some c
         \<and> p = c @ map Normal ms \<and> normalize_path (parse_path s) = q @ map Normal ms)"
proof (cases "\<not> is_absolute (parse_path s) \<or> path_starts_with (parse_path s) root")
  case True
  then have "resolve_sanitized_path fs root s = Inr p"
    using assms(1) by (simp add: resolve_authorized_path_def Let_def)
  then show ?thesis using resolve_confined[OF _ assms(2)] by blast
next
  case False
  then have e: "canonicalize_existing_parent fs (normalize_path (parse_path s)) = Inr p"
    and g: "(case fs_canonicalize fs root of Some wr \<Rightarrow> path_starts_with p wr | None \<Rightarrow> False)
      \<or> list_ex (\<lambda>dir. path_starts_with p dir) external"
    using assms(1) by (auto simp: resolve_authorized_path_def Let_def split: sum.splits if_splits)
  obtain q ms c where q: "existing_parent fs (normalize_path (parse_path s)) (normalize_path (parse_path s)) [] = Inr (q, ms)"
      "fs_canonicalize fs q = Some c" "p = foldl (\<lambda>p n. path_join p [Normal n]) c ms"
    using e by (auto simp: canonicalize_existing_parent_def split: sum.splits option.splits prod.splits)
  have s: "fs_exists fs q" "normalize_path (parse_path s) = q @ map Normal ms"
    using existing_parent_Inr[OF q(1)] by simp_all
  have p: "p = c @ map Normal ms" using q(3) push_names[OF assms(3)[OF q(2)]] by simp
  show ?thesis
  proof (cases "list_ex (\<lambda>dir. path_starts_with p dir) external")
    case True
    then obtain dir where "dir \<in> set external" "path_starts_with p dir" by (auto simp: list_ex_iff)
    then show ?thesis using s q(2) p by blast
  next
    case False
    then show ?thesis using g by (auto simp: canonical_or_def split: option.splits)
  qed
qed

lemma authorized_path_below_witness:
  "let fs = plain_fs [[RootDir], root_ws, [RootDir, Normal (str ''x'')]] []; p = [RootDir, Normal (str ''x''), Normal (str ''f'')]
   in path_starts_with p root_ws \<or> \<not> fs_exists fs p \<and> confined fs root_ws root_ws p
      \<or> (\<exists>dir q c ms. dir \<in> set [[RootDir, Normal (str ''x'')]] \<and> path_starts_with p dir \<and> fs_exists fs q
           \<and> fs_canonicalize fs q = Some c \<and> p = c @ map Normal ms
           \<and> normalize_path (parse_path (str ''/x/f'')) = q @ map Normal ms)"
proof -
  let ?fs = "plain_fs [[RootDir], root_ws, [RootDir, Normal (str ''x'')]] []"
  have "resolve_authorized_path ?fs root_ws [[RootDir, Normal (str ''x'')]] (str ''/x/f'')
      = Inr [RootDir, Normal (str ''x''), Normal (str ''f'')]" by code_simp
  moreover have "fs_laws ?fs" by (rule plain_fs_laws) code_simp
  moreover have "\<And>q c. fs_canonicalize ?fs q = Some c \<Longrightarrow> c \<noteq> []"
    by (auto simp: plain_fs_def split: if_splits)
  moreover have "canonical_or ?fs root_ws = root_ws" by code_simp
  ultimately show ?thesis unfolding Let_def
    using authorized_path_below[of ?fs root_ws "[[RootDir, Normal (str ''x'')]]" "str ''/x/f''"] by auto
qed

section \<open>A new directory behind a link\<close>

text \<open>For a path whose directory does not exist either, the test for a local path looks at the names only: behind
  a link that leads outside it answers local, while the resolver refuses the path.\<close>

definition link_fs :: file_system where
  "link_fs =
     \<lparr>fs_exists = (\<lambda>p. p \<in> set [[RootDir], root_ws, root_ws @ [Normal (str ''l'')], [RootDir, Normal (str ''etc'')]]),
      fs_canonicalize = (\<lambda>p. if p = root_ws @ [Normal (str ''l'')] then Some [RootDir, Normal (str ''etc'')]
        else if p \<in> set [[RootDir], root_ws, [RootDir, Normal (str ''etc'')]] then Some p else None),
      fs_is_dir = (\<lambda>p. p \<in> set [[RootDir], root_ws, root_ws @ [Normal (str ''l'')], [RootDir, Normal (str ''etc'')]]),
      fs_lstat = (\<lambda>p. if p = root_ws @ [Normal (str ''l'')] then Symlink
        else if p \<in> set [[RootDir], root_ws, [RootDir, Normal (str ''etc'')]] then NoSymlink else Missing)\<rparr>"

lemma new_directory_behind_link_local:
  "is_path_local link_fs (Some (str ''/w'')) (str ''l/d/f'') \<and>
   \<not> is_path_local link_fs (Some (str ''/w'')) (str ''l/f'') \<and>
   resolve_sanitized_path link_fs root_ws (str ''l/d/f'')
     = Inl (SymlinkParentEscape (map Normal [str ''l'', str ''d'', str ''f'']) [RootDir, Normal (str ''etc'')])"
  by code_simp

section \<open>The form of resolved paths\<close>

lemma well_formed_append:
  "is_absolute c \<Longrightarrow> named_tail c \<Longrightarrow> is_absolute (c @ map Normal ms) \<and> named_tail (c @ map Normal ms)"
  by (cases c) (auto simp: is_absolute_def named_tail_def)

lemma sanitized_well_formed:
  assumes "resolve_sanitized_path fs root s = Inr p"
    and "\<And>q c. fs_canonicalize fs q = Some c \<Longrightarrow> is_absolute c \<and> named_tail c"
  shows "is_absolute p \<and> named_tail p"
proof -
  let ?q = "parse_path s"
  have abs: "is_absolute root"
    using assms(1) by (auto simp: resolve_sanitized_path_def split: if_splits)
  obtain n where n: "sanitize_components root ?q [] (if is_absolute ?q then ?q else path_join root ?q) = Inr n"
      "resolve_normalized fs root ?q n = Inr p"
    using assms(1) abs unfolding resolve_sanitized_path_def Let_def
    by (simp del: sanitize_components.simps split: if_splits sum.splits)
  have "path_starts_with n root" and r: "p = n \<or> fs_canonicalize fs n = Some p"
    using n(2) by (auto simp: resolve_normalized_def Let_def split: if_splits sum.splits option.splits)
  then have "is_absolute n"
    using abs by (cases root) (auto simp: path_starts_with_iff is_absolute_def)
  moreover have "named_tail n" using sanitize_named_tail[OF n(1)] by (simp add: named_tail_def)
  ultimately show ?thesis using r assms(2) by blast
qed

text \<open>Every path the tools are given is absolute and consists of names only: no dot, no double dot and no second
  root survives the resolution, neither in the workspace nor in an authorised directory.\<close>

theorem resolved_path_well_formed:
  assumes "resolve_authorized_path fs root external s = Inr p"
    and "\<And>q c. fs_canonicalize fs q = Some c \<Longrightarrow> is_absolute c \<and> named_tail c"
  shows "is_absolute p \<and> named_tail p"
proof (cases "\<not> is_absolute (parse_path s) \<or> path_starts_with (parse_path s) root")
  case True
  then have "resolve_sanitized_path fs root s = Inr p"
    using assms(1) by (simp add: resolve_authorized_path_def Let_def)
  then show ?thesis by (rule sanitized_well_formed) (rule assms(2))
next
  case False
  then have e: "canonicalize_existing_parent fs (normalize_path (parse_path s)) = Inr p"
    using assms(1) by (auto simp: resolve_authorized_path_def Let_def split: sum.splits if_splits)
  obtain q ms c where q: "existing_parent fs (normalize_path (parse_path s)) (normalize_path (parse_path s)) [] = Inr (q, ms)"
      "fs_canonicalize fs q = Some c" "p = foldl (\<lambda>p n. path_join p [Normal n]) c ms"
    using e by (auto simp: canonicalize_existing_parent_def split: sum.splits option.splits prod.splits)
  have c: "is_absolute c" "named_tail c" using assms(2)[OF q(2)] by simp_all
  then have "c \<noteq> []" by (auto simp: is_absolute_def)
  then show ?thesis using q(3) push_names well_formed_append[OF c] by simp
qed

lemma resolved_path_well_formed_witness:
  "is_absolute (root_ws @ [Normal (str ''b'')]) \<and> named_tail (root_ws @ [Normal (str ''b'')])"
proof -
  let ?fs = "plain_fs [[RootDir], root_ws] []"
  have r: "resolve_authorized_path ?fs root_ws [] (str ''./a/.././b'') = Inr (root_ws @ [Normal (str ''b'')])"
    by code_simp
  have "is_absolute c \<and> named_tail c" if "fs_canonicalize ?fs q = Some c" for q c
    using that by (auto simp: plain_fs_def is_absolute_def named_tail_def split: if_splits)
  then show ?thesis by (rule resolved_path_well_formed[OF r])
qed

end
