(* ===== verification/ApprovalRules.thy ===== *)
theory ApprovalRules
  imports CommandScope PathPolicy
begin

text \<open>
  The tools with their categories (\<open>src/src/core/tools/mod.rs\<close>) and the approval manager of
  \<open>src/src/core/approval.rs\<close>: the session's approvals, grants and settings, and when a call has to
  prompt. Hash sets are sets. The matcher of the regular expressions in path patterns is a parameter.
\<close>

section \<open>Tools\<close>

datatype sned_tool =
    AskFollowupQuestion | AttemptCompletion | ExecuteCommand | ReadFile | WriteToFile | SearchFiles
  | ListFiles | WebFetch | PlanModeRespond | Condense | UseSkill | ListSkills | UseSubagents | GetFunction
  | GetFileSkeleton | FindSymbolReferences | EditFile | DiagnosticsScan | ReplaceSymbol | RenameSymbol

datatype tool_category =
    CatReadOnly | CatReadFiles | CatEditFiles | CatExecuteCommand | CatWebFetch | CatOther

fun tool_name :: "sned_tool \<Rightarrow> ustr" where
  "tool_name AskFollowupQuestion = str ''ask_followup_question''"
| "tool_name AttemptCompletion = str ''attempt_completion''"
| "tool_name ExecuteCommand = str ''execute_command''"
| "tool_name ReadFile = str ''read_file''"
| "tool_name WriteToFile = str ''write_to_file''"
| "tool_name SearchFiles = str ''search_files''"
| "tool_name ListFiles = str ''list_files''"
| "tool_name WebFetch = str ''web_fetch''"
| "tool_name PlanModeRespond = str ''plan_mode_respond''"
| "tool_name Condense = str ''condense''"
| "tool_name UseSkill = str ''use_skill''"
| "tool_name ListSkills = str ''list_skills''"
| "tool_name UseSubagents = str ''use_subagents''"
| "tool_name GetFunction = str ''get_function''"
| "tool_name GetFileSkeleton = str ''get_file_skeleton''"
| "tool_name FindSymbolReferences = str ''find_symbol_references''"
| "tool_name EditFile = str ''edit_file''"
| "tool_name DiagnosticsScan = str ''diagnostics_scan''"
| "tool_name ReplaceSymbol = str ''replace_symbol''"
| "tool_name RenameSymbol = str ''rename_symbol''"

fun tool_category_of :: "sned_tool \<Rightarrow> tool_category" where
  "tool_category_of ReadFile = CatReadFiles"
| "tool_category_of GetFunction = CatReadFiles"
| "tool_category_of GetFileSkeleton = CatReadFiles"
| "tool_category_of FindSymbolReferences = CatReadFiles"
| "tool_category_of DiagnosticsScan = CatReadFiles"
| "tool_category_of ListFiles = CatReadFiles"
| "tool_category_of SearchFiles = CatReadFiles"
| "tool_category_of UseSkill = CatReadFiles"
| "tool_category_of UseSubagents = CatOther"
| "tool_category_of WriteToFile = CatEditFiles"
| "tool_category_of EditFile = CatEditFiles"
| "tool_category_of ReplaceSymbol = CatEditFiles"
| "tool_category_of RenameSymbol = CatEditFiles"
| "tool_category_of ExecuteCommand = CatExecuteCommand"
| "tool_category_of WebFetch = CatWebFetch"
| "tool_category_of ListSkills = CatReadOnly"
| "tool_category_of AttemptCompletion = CatReadOnly"
| "tool_category_of PlanModeRespond = CatReadOnly"
| "tool_category_of AskFollowupQuestion = CatReadOnly"
| "tool_category_of Condense = CatReadOnly"

definition all_tools :: "sned_tool list" where
  "all_tools = [AskFollowupQuestion, AttemptCompletion, ExecuteCommand, ReadFile, WriteToFile, SearchFiles,
     ListFiles, WebFetch, PlanModeRespond, Condense, UseSkill, ListSkills, UseSubagents, GetFunction,
     GetFileSkeleton, FindSymbolReferences, EditFile, DiagnosticsScan, ReplaceSymbol, RenameSymbol]"

definition tool_from_name :: "ustr \<Rightarrow> sned_tool option" where
  "tool_from_name n = find (\<lambda>t. tool_name t = n) all_tools"

section \<open>Patterns, settings and grants\<close>

datatype path_pattern = External | Workspace | Exact ustr | Regex ustr

definition parse_pattern :: "(ustr \<Rightarrow> ustr option) \<Rightarrow> ustr \<Rightarrow> ustr + path_pattern" where
  "parse_pattern re_error pattern =
     (if pattern = str ''external:*'' then Inr External
      else if pattern = str ''workspace:*'' then Inr Workspace
      else case strip_prefix (str ''regex:'') pattern of
          Some re \<Rightarrow> (case re_error re of Some e \<Rightarrow> Inl e | None \<Rightarrow> Inr (Regex re))
        | None \<Rightarrow> Inr (Exact pattern))"

definition pattern_matches :: "(ustr \<Rightarrow> ustr \<Rightarrow> bool) \<Rightarrow> path_pattern \<Rightarrow> ustr \<Rightarrow> ustr option \<Rightarrow> bool" where
  "pattern_matches re_match pattern path workspace_root =
     (case pattern of
        External \<Rightarrow> (case workspace_root of None \<Rightarrow> True
          | Some root \<Rightarrow> \<not> path_starts_with (parse_path path) (parse_path root))
      | Workspace \<Rightarrow> (case workspace_root of None \<Rightarrow> False
          | Some root \<Rightarrow> path_starts_with (parse_path path) (parse_path root))
      | Exact s \<Rightarrow> path = s
      | Regex re \<Rightarrow> re_match re path)"

record auto_approval_settings =
  read_files :: bool
  read_files_externally :: bool
  edit_files :: bool
  edit_files_externally :: bool
  execute_commands :: bool
  use_browser :: bool

record external_directory_grant =
  gr_root :: path
  gr_category :: tool_category

record approval_manager =
  session_auto_approve :: "ustr set"
  session_auto_approve_commands :: "ustr set"
  session_auto_approve_command_scopes :: "approval_scope set"
  env_auto_approve :: "ustr set"
  yolo_mode :: bool
  auto_approve_all :: bool
  am_workspace_root :: "ustr option"
  settings :: auto_approval_settings
  auto_approve_patterns :: "path_pattern list"
  external_directory_grants :: "external_directory_grant list"
  user_safe_commands :: "ustr list"

definition default_settings :: auto_approval_settings where
  "default_settings = \<lparr>read_files = False, read_files_externally = False, edit_files = False,
     edit_files_externally = False, execute_commands = False, use_browser = False\<rparr>"

definition load_env_auto_approve :: "ustr option \<Rightarrow> ustr set" where
  "load_env_auto_approve env =
     (case env of None \<Rightarrow> {}
      | Some v \<Rightarrow> set (filter (\<lambda>s. s \<noteq> []) (map (\<lambda>s. to_lowercase (trim s)) (split_on 44 v))))"

definition new_manager :: "ustr option \<Rightarrow> approval_manager" where
  "new_manager env = \<lparr>session_auto_approve = {}, session_auto_approve_commands = {},
     session_auto_approve_command_scopes = {}, env_auto_approve = load_env_auto_approve env,
     yolo_mode = False, auto_approve_all = False, am_workspace_root = None, settings = default_settings,
     auto_approve_patterns = [], external_directory_grants = [], user_safe_commands = []\<rparr>"

datatype grant_error =
    GrantCategory | GrantNotAbsolute path | GrantCannot path | GrantNotDirectory path | GrantInside path

definition grant_external_directory ::
  "file_system \<Rightarrow> path \<Rightarrow> tool_category \<Rightarrow> approval_manager \<Rightarrow> (grant_error + unit) \<times> approval_manager" where
  "grant_external_directory fs directory category mgr =
     (if category \<noteq> CatReadFiles \<and> category \<noteq> CatEditFiles then (Inl GrantCategory, mgr)
      else if \<not> is_absolute directory then (Inl (GrantNotAbsolute directory), mgr)
      else case fs_canonicalize fs directory of
          None \<Rightarrow> (Inl (GrantCannot directory), mgr)
        | Some root \<Rightarrow>
            if \<not> fs_is_dir fs root then (Inl (GrantNotDirectory root), mgr)
            else if (case am_workspace_root mgr of None \<Rightarrow> False
                     | Some w \<Rightarrow> path_starts_with root (canonical_or fs (parse_path w)))
            then (Inl (GrantInside root), mgr)
            else let grant = \<lparr>gr_root = root, gr_category = category\<rparr>
              in (Inr (), if grant \<in> set (external_directory_grants mgr) then mgr
                   else mgr\<lparr>external_directory_grants := external_directory_grants mgr @ [grant]\<rparr>))"

definition external_directory_grants_for :: "approval_manager \<Rightarrow> tool_category \<Rightarrow> path list \<Rightarrow> path list" where
  "external_directory_grants_for mgr category directories =
     (if yolo_mode mgr then directories
      else map gr_root (filter (\<lambda>grant. list_ex (\<lambda>dir. path_starts_with dir (gr_root grant)) directories)
        (filter (\<lambda>grant. gr_category grant = category) (external_directory_grants mgr))))"

definition external_directories_are_granted :: "approval_manager \<Rightarrow> tool_category \<Rightarrow> path list \<Rightarrow> bool" where
  "external_directories_are_granted mgr category directories =
     (if yolo_mode mgr then True
      else list_all (\<lambda>directory. list_ex (\<lambda>grant. gr_category grant = category
        \<and> path_starts_with directory (gr_root grant)) (external_directory_grants mgr)) directories)"

section \<open>When a call prompts\<close>

definition is_tool_name_auto_approved :: "approval_manager \<Rightarrow> ustr \<Rightarrow> bool" where
  "is_tool_name_auto_approved mgr name \<longleftrightarrow> name \<in> session_auto_approve mgr \<or> name \<in> env_auto_approve mgr"

definition is_auto_approved :: "approval_manager \<Rightarrow> ustr \<Rightarrow> ustr option \<Rightarrow> bool" where
  "is_auto_approved mgr name fingerprint =
     (case fingerprint of
        Some fp \<Rightarrow> if name = str ''execute_command'' then fp \<in> session_auto_approve_commands mgr
          else is_tool_name_auto_approved mgr name
      | None \<Rightarrow> is_tool_name_auto_approved mgr name)"

definition should_prompt :: "approval_manager \<Rightarrow> sned_tool \<Rightarrow> ustr option \<Rightarrow> bool" where
  "should_prompt mgr tool fingerprint =
     (let category = tool_category_of tool
      in if category = CatReadOnly \<or> category = CatReadFiles then False
         else if yolo_mode mgr then False
         else if category = CatExecuteCommand \<and> auto_approve_all mgr then True
         else if auto_approve_all mgr then False
         else \<not> is_auto_approved mgr (tool_name tool) fingerprint)"

definition auto_approve_for_category :: "approval_manager \<Rightarrow> tool_category \<Rightarrow> bool \<times> bool" where
  "auto_approve_for_category mgr category =
     (let s = settings mgr in case category of
        CatReadFiles \<Rightarrow> (read_files s, read_files_externally s)
      | CatEditFiles \<Rightarrow> (edit_files s, edit_files_externally s)
      | CatExecuteCommand \<Rightarrow> (execute_commands s, False)
      | CatWebFetch \<Rightarrow> (use_browser s, False)
      | CatReadOnly \<Rightarrow> (False, False)
      | CatOther \<Rightarrow> (False, False))"

text \<open>The last part of the decision, from the per-action settings.\<close>

definition prompt_by_settings :: "approval_manager \<Rightarrow> tool_category \<Rightarrow> ustr option \<Rightarrow> bool \<Rightarrow> bool" where
  "prompt_by_settings mgr category action_path is_local =
     (let (auto_local, auto_external) = auto_approve_for_category mgr category
      in if category = CatReadFiles then
           (if action_path \<noteq> None then
              (if is_local \<and> auto_local then False
               else if \<not> is_local \<and> auto_external then False else True)
            else False)
         else if category = CatEditFiles then
           (if action_path \<noteq> None then
              (if is_local \<and> auto_local then False
               else if \<not> is_local \<and> auto_local \<and> auto_external then False else True)
            else if auto_local then False else True)
         else if auto_local then False
         else if category = CatReadOnly then False
         else True)"

definition should_prompt_with_path ::
  "file_system \<Rightarrow> (ustr \<Rightarrow> ustr \<Rightarrow> bool) \<Rightarrow> approval_manager \<Rightarrow> sned_tool \<Rightarrow> ustr option \<Rightarrow> bool" where
  "should_prompt_with_path fs re_match mgr tool action_path =
     (let category = tool_category_of tool;
          is_local = (case action_path of None \<Rightarrow> False | Some p \<Rightarrow> is_path_local fs (am_workspace_root mgr) p)
      in if yolo_mode mgr then False
         else if category = CatExecuteCommand \<and> auto_approve_all mgr then True
         else if auto_approve_all mgr \<and> is_local then False
         else if action_path \<noteq> None \<and> \<not> is_local \<and> (category = CatEditFiles \<or> category = CatReadFiles) then
           (case Option.bind action_path (external_directory_for_path fs) of
              Some directory \<Rightarrow> \<not> external_directories_are_granted mgr category [directory]
            | None \<Rightarrow> True)
         else if category = CatReadFiles \<and> is_local then False
         else if auto_approve_all mgr then False
         else if is_tool_name_auto_approved mgr (tool_name tool) then False
         else if (case action_path of None \<Rightarrow> False
                  | Some path \<Rightarrow> list_ex (\<lambda>pattern. pattern_matches re_match pattern path (am_workspace_root mgr))
                      (auto_approve_patterns mgr)) then False
         else prompt_by_settings mgr category action_path is_local)"

section \<open>What the user's answers leave behind\<close>

definition auto_approve :: "sned_tool \<Rightarrow> ustr option \<Rightarrow> approval_manager \<Rightarrow> approval_manager" where
  "auto_approve tool fingerprint mgr =
     (case fingerprint of
        Some fp \<Rightarrow>
          if tool_name tool = str ''execute_command''
          then mgr\<lparr>session_auto_approve_commands := insert fp (session_auto_approve_commands mgr)\<rparr>
          else mgr\<lparr>session_auto_approve := insert (tool_name tool) (session_auto_approve mgr)\<rparr>
      | None \<Rightarrow> mgr\<lparr>session_auto_approve := insert (tool_name tool) (session_auto_approve mgr)\<rparr>)"

definition auto_approve_command :: "ustr \<Rightarrow> approval_scope list option \<Rightarrow> approval_manager \<Rightarrow> approval_manager" where
  "auto_approve_command fingerprint scopes mgr =
     (case scopes of
        Some (sc # scs) \<Rightarrow>
          mgr\<lparr>session_auto_approve_command_scopes := session_auto_approve_command_scopes mgr \<union> set (sc # scs)\<rparr>
      | _ \<Rightarrow> mgr\<lparr>session_auto_approve_commands := insert fingerprint (session_auto_approve_commands mgr)\<rparr>)"

definition command_scopes_are_approved :: "approval_manager \<Rightarrow> approval_scope list \<Rightarrow> bool" where
  "command_scopes_are_approved mgr scopes \<longleftrightarrow>
     \<not> auto_approve_all mgr \<and> scopes \<noteq> []
     \<and> list_all (\<lambda>sc. sc \<in> session_auto_approve_command_scopes mgr) scopes"

section \<open>The names of tools\<close>

lemma all_tools_complete: "t \<in> set all_tools"
  by (cases t) (simp_all add: all_tools_def)

lemma tool_names_distinct: "distinct (map tool_name all_tools)"
  by code_simp

lemma tool_name_inj: "tool_name s = tool_name t \<longleftrightarrow> s = t"
  using tool_names_distinct all_tools_complete[of s] all_tools_complete[of t]
  by (auto simp: distinct_map dest: inj_onD)

lemma from_name_iff: "tool_from_name n = Some t \<longleftrightarrow> n = tool_name t"
proof
  assume "tool_from_name n = Some t"
  then show "n = tool_name t" unfolding tool_from_name_def by (auto simp: find_Some_iff)
next
  assume n: "n = tool_name t"
  have "find (\<lambda>s. tool_name s = n) all_tools \<noteq> None"
    using all_tools_complete[of t] n by (auto simp: find_None_iff)
  then obtain s where s: "find (\<lambda>s. tool_name s = n) all_tools = Some s" by blast
  then have "tool_name s = n" by (auto simp: find_Some_iff)
  then show "tool_from_name n = Some t" using s n by (simp add: tool_from_name_def tool_name_inj)
qed

text \<open>The name of a tool reads back as that tool and no other name names a tool, so a call of the model reaches
  at most one tool.\<close>

theorem tool_names_roundtrip: "tool_from_name n = Some t \<longleftrightarrow> n = tool_name t"
  by (rule from_name_iff)

lemma execute_command_name: "tool_name t = str ''execute_command'' \<longleftrightarrow> t = ExecuteCommand"
  using tool_name_inj[of t ExecuteCommand] by simp

section \<open>Reads and writes outside the workspace\<close>

lemma prompt_external_file_tool:
  assumes "\<not> yolo_mode mgr" and "tool_category_of tool \<in> {CatReadFiles, CatEditFiles}"
    and "\<not> is_path_local fs (am_workspace_root mgr) p"
  shows "should_prompt_with_path fs re mgr tool (Some p) \<longleftrightarrow>
    \<not> (\<exists>d grant. external_directory_for_path fs p = Some d \<and> grant \<in> set (external_directory_grants mgr)
        \<and> gr_category grant = tool_category_of tool \<and> path_starts_with d (gr_root grant))"
  using assms
  by (auto simp: should_prompt_with_path_def external_directories_are_granted_def list_ex_iff Let_def
      split: option.splits)

lemma prompt_local_file_tool:
  assumes "\<not> yolo_mode mgr" and "is_path_local fs (am_workspace_root mgr) p"
    and "tool_category_of tool = CatReadFiles"
  shows "\<not> should_prompt_with_path fs re mgr tool (Some p)"
  using assms by (simp add: should_prompt_with_path_def Let_def)

text \<open>The two settings that are meant to auto-approve files outside the workspace never change whether a
  call with a path prompts: such a path prompts unless its directory was granted for the kind of access.\<close>

theorem external_settings_ignored:
  "should_prompt_with_path fs re
     (mgr\<lparr>settings := (settings mgr)\<lparr>read_files_externally := a, edit_files_externally := b\<rparr>\<rparr>) tool (Some p)
   = should_prompt_with_path fs re mgr tool (Some p)"
proof (cases "is_path_local fs (am_workspace_root mgr) p \<or> yolo_mode mgr \<or> tool_category_of tool \<notin> {CatReadFiles, CatEditFiles}")
  case False
  then have "\<not> yolo_mode mgr" "tool_category_of tool \<in> {CatReadFiles, CatEditFiles}"
    "\<not> is_path_local fs (am_workspace_root mgr) p" by simp_all
  note e = prompt_external_file_tool[OF _ this(2)]
  show ?thesis using \<open>\<not> yolo_mode mgr\<close> \<open>\<not> is_path_local fs (am_workspace_root mgr) p\<close> by (simp add: e)
next
  case True
  then show ?thesis
    by (cases "tool_category_of tool")
      (auto simp: should_prompt_with_path_def prompt_by_settings_def auto_approve_for_category_def
        external_directories_are_granted_def is_tool_name_auto_approved_def Let_def)
qed

text \<open>A pattern for external paths has no effect on a file tool either.\<close>

lemma external_pattern_ignored:
  assumes "\<not> yolo_mode mgr" and "tool_category_of tool \<in> {CatReadFiles, CatEditFiles}"
    and "\<not> is_path_local fs (am_workspace_root mgr) p"
  shows "should_prompt_with_path fs re (mgr\<lparr>auto_approve_patterns := ps\<rparr>) tool (Some p)
    = should_prompt_with_path fs re mgr tool (Some p)"
  using prompt_external_file_tool[of mgr tool fs p re]
    prompt_external_file_tool[of "mgr\<lparr>auto_approve_patterns := ps\<rparr>" tool fs p re] assms by simp

section \<open>Grants\<close>

text \<open>A grant is the canonical path of a directory outside the workspace, for a kind of file access.\<close>

definition grant_ok :: "file_system \<Rightarrow> ustr option \<Rightarrow> external_directory_grant \<Rightarrow> bool" where
  "grant_ok fs workspace grant \<longleftrightarrow> gr_category grant \<in> {CatReadFiles, CatEditFiles} \<and> fs_is_dir fs (gr_root grant)
     \<and> (\<exists>d. is_absolute d \<and> fs_canonicalize fs d = Some (gr_root grant))
     \<and> (\<forall>w. workspace = Some w \<longrightarrow> \<not> path_starts_with (gr_root grant) (canonical_or fs (parse_path w)))"

lemma grant_external_cases:
  assumes "grant_external_directory fs d category mgr = (r, mgr')" and "mgr' \<noteq> mgr"
  obtains grant where "r = Inr ()" "fs_canonicalize fs d = Some (gr_root grant)" "gr_category grant = category"
    "mgr' = mgr\<lparr>external_directory_grants := external_directory_grants mgr @ [grant]\<rparr>"
    "grant_ok fs (am_workspace_root mgr) grant" "grant \<notin> set (external_directory_grants mgr)"
proof -
  let ?inside = "\<lambda>root. case am_workspace_root mgr of None \<Rightarrow> False
    | Some w \<Rightarrow> path_starts_with root (canonical_or fs (parse_path w))"
  have c: "category = CatReadFiles \<or> category = CatEditFiles" "is_absolute d"
    using assms by (auto simp: grant_external_directory_def split: if_splits)
  obtain root where r: "fs_canonicalize fs d = Some root"
    using assms c by (cases "fs_canonicalize fs d") (auto simp: grant_external_directory_def)
  let ?g = "\<lparr>gr_root = root, gr_category = category\<rparr>"
  have e: "grant_external_directory fs d category mgr =
    (if \<not> fs_is_dir fs root then (Inl (GrantNotDirectory root), mgr)
     else if ?inside root then (Inl (GrantInside root), mgr)
     else (Inr (), if ?g \<in> set (external_directory_grants mgr) then mgr
       else mgr\<lparr>external_directory_grants := external_directory_grants mgr @ [?g]\<rparr>))"
    using c r by (simp add: grant_external_directory_def Let_def)
  have k: "fs_is_dir fs root" "\<not> ?inside root" "?g \<notin> set (external_directory_grants mgr)"
    using assms unfolding e by (auto split: if_splits)
  then have root: "r = Inr ()" "mgr' = mgr\<lparr>external_directory_grants := external_directory_grants mgr @ [?g]\<rparr>"
    using assms(1) unfolding e by simp_all
  show thesis
    by (rule that[of ?g]) (use root c r k in \<open>auto simp: grant_ok_def split: option.splits\<close>)
qed

end
