(* ===== verification/Preflight.thy ===== *)
theory Preflight
  imports ApprovalRules "HOL-Library.List_Lexorder"
begin

text \<open>
  Whether a tool call may run: \<open>resolve_preflight\<close> and \<open>external_action_directories\<close> of
  \<open>src/src/core/tools/execution.rs\<close>, with the denied actions of the task
  (\<open>src/src/core/agent_types.rs\<close>) and the prompts of \<open>src/src/core/approval.rs\<close>. The user is the
  argument \<open>ask\<close>, which answers an ordinary prompt or one for external directories; the calls of a batch
  are prepared one after the other, so the manager does not change while a prompt is open. A refusal is a
  constructor for each message the call is answered with.
\<close>

section \<open>The order of paths\<close>

text \<open>Paths are sorted by their components, a name after every other component and names by their bytes.\<close>

fun component_rank :: "component \<Rightarrow> nat" where
  "component_rank RootDir = 0"
| "component_rank CurDir = 1"
| "component_rank ParentDir = 2"
| "component_rank (Normal n) = 3"

instantiation component :: linorder
begin

fun less_eq_component :: "component \<Rightarrow> component \<Rightarrow> bool" where
  "less_eq_component (Normal a) (Normal b) = (a \<le> b)"
| "less_eq_component a b = (component_rank a \<le> component_rank b)"

definition less_component :: "component \<Rightarrow> component \<Rightarrow> bool" where
  "less_component a b \<longleftrightarrow> a \<le> b \<and> \<not> b \<le> a"

instance
proof
  fix x y z :: component
  show "x < y \<longleftrightarrow> x \<le> y \<and> \<not> y \<le> x" by (rule less_component_def)
  show "x \<le> x" by (cases x) simp_all
  show "x \<le> y \<Longrightarrow> y \<le> z \<Longrightarrow> x \<le> z" by (cases x; cases y; cases z) simp_all
  show "x \<le> y \<Longrightarrow> y \<le> x \<Longrightarrow> x = y" by (cases x; cases y) simp_all
  show "x \<le> y \<or> y \<le> x" by (cases x; cases y) auto
qed

end

definition external_action_directories :: "file_system \<Rightarrow> sned_tool \<Rightarrow> path \<Rightarrow> ustr list \<Rightarrow> path list" where
  "external_action_directories fs tool workspace_root action_paths =
     (if tool_category_of tool \<noteq> CatReadFiles \<and> tool_category_of tool \<noteq> CatEditFiles then []
      else remdups_adj (sort (List.map_filter (external_directory_for_path fs)
        (filter (\<lambda>s. is_absolute (parse_path s) \<and> \<not> path_starts_with (parse_path s) workspace_root) action_paths))))"

section \<open>Prompts and answers\<close>

datatype approval_result = Approved | Denied | Always | AllowExternalDirectory

record approval_choice =
  ch_shortcut :: uchar
  ch_label :: ustr
  ch_result :: approval_result

definition standard_approval_choices :: "approval_choice list" where
  "standard_approval_choices =
     [\<lparr>ch_shortcut = 121, ch_label = str ''Approve'', ch_result = Approved\<rparr>,
      \<lparr>ch_shortcut = 110, ch_label = str ''Deny'', ch_result = Denied\<rparr>,
      \<lparr>ch_shortcut = 97, ch_label = str ''Always'', ch_result = Always\<rparr>]"

definition approval_choices_for_tool ::
  "(ustr \<Rightarrow> json option) \<Rightarrow> ustr option \<Rightarrow> ustr \<Rightarrow> json \<Rightarrow> approval_choice list" where
  "approval_choices_for_tool parse env name params =
     (if name \<noteq> str ''execute_command'' then standard_approval_choices
      else let always_label = (case command_approval_scopes parse env params of
              None \<Rightarrow> str ''Always approve this exact command this session''
            | Some scopes \<Rightarrow> str ''Always approve safe '' @ join (str '' and '') (map authority_label scopes)
                @ str '' commands this session'')
        in [\<lparr>ch_shortcut = 121, ch_label = str ''Approve'', ch_result = Approved\<rparr>,
            \<lparr>ch_shortcut = 110, ch_label = str ''Deny'', ch_result = Denied\<rparr>,
            \<lparr>ch_shortcut = 97, ch_label = always_label, ch_result = Always\<rparr>])"

definition eq_ignore_ascii_case :: "uchar \<Rightarrow> uchar \<Rightarrow> bool" where
  "eq_ignore_ascii_case a b \<longleftrightarrow> to_ascii_lower [a] = to_ascii_lower [b]"

definition result_for_shortcut :: "approval_choice list \<Rightarrow> uchar \<Rightarrow> approval_result option" where
  "result_for_shortcut choices shortcut =
     map_option ch_result (find (\<lambda>c. eq_ignore_ascii_case (ch_shortcut c) shortcut) choices)"

text \<open>An answer is a result or the text of an error: no answer in time, no terminal, another prompt.\<close>

type_synonym answer = "ustr + approval_result"

section \<open>The task's denied actions\<close>

record denied_tool_action =
  da_tool_name :: ustr
  da_action_paths :: "ustr list"
  da_fingerprint :: ustr

record task_approval =
  is_subagent_execution :: bool
  denied_tool_actions :: "denied_tool_action list"

definition record_denied_tool_action :: "denied_tool_action \<Rightarrow> task_approval \<Rightarrow> task_approval" where
  "record_denied_tool_action action st =
     (if action \<in> set (denied_tool_actions st) then st
      else st\<lparr>denied_tool_actions := denied_tool_actions st @ [action]\<rparr>)"

definition is_denied_tool_action :: "task_approval \<Rightarrow> ustr \<Rightarrow> ustr \<Rightarrow> bool" where
  "is_denied_tool_action st name fingerprint =
     list_ex (\<lambda>a. da_tool_name a = name \<and> da_fingerprint a = fingerprint) (denied_tool_actions st)"

definition clear_denied_tool_actions :: "task_approval \<Rightarrow> task_approval" where
  "clear_denied_tool_actions st = st\<lparr>denied_tool_actions := []\<rparr>"

section \<open>The decision\<close>

datatype refusal =
    DeniedByUser bool
  | AlreadyDenied
  | GrantRefused grant_error
  | ExternalUnavailable
  | ExternalNotForCommands
  | ApprovalFailed ustr

record execution =
  explicitly_approved :: bool
  allowed_external_roots :: "path list"
  session_command_scope_approved :: bool

type_synonym preflight = "refusal + execution"

record tool_call =
  tc_tool :: sned_tool
  tc_params :: json
  tc_action_paths :: "ustr list"
  tc_external_directories :: "path list"
  tc_fingerprint :: ustr

record approval_world =
  aw_parse :: "ustr \<Rightarrow> json option"
  aw_safe_commands_env :: "ustr option"
  aw_fs :: file_system
  aw_re_match :: "ustr \<Rightarrow> ustr \<Rightarrow> bool"
  aw_interactive :: bool

text \<open>What the session keeps between calls: the manager, if there is one, and the task's denials.\<close>

type_synonym approval_session = "approval_manager option \<times> task_approval"

definition denied_action :: "tool_call \<Rightarrow> denied_tool_action" where
  "denied_action c = \<lparr>da_tool_name = tool_name (tc_tool c), da_action_paths = tc_action_paths c,
     da_fingerprint = tc_fingerprint c\<rparr>"

definition deny :: "tool_call \<Rightarrow> approval_session \<Rightarrow> preflight \<times> approval_session" where
  "deny c s = (Inl (DeniedByUser (is_subagent_execution (snd s))),
     (fst s, record_denied_tool_action (denied_action c) (snd s)))"

definition proceed :: "bool \<Rightarrow> path list \<Rightarrow> bool \<Rightarrow> preflight" where
  "proceed prompted roots scoped =
     Inr \<lparr>explicitly_approved = prompted, allowed_external_roots = roots, session_command_scope_approved = scoped\<rparr>"

definition call_scopes :: "approval_world \<Rightarrow> tool_call \<Rightarrow> approval_scope list option" where
  "call_scopes w c =
     (if tc_tool c = ExecuteCommand
      then command_approval_scopes (aw_parse w) (aw_safe_commands_env w) (tc_params c) else None)"

text \<open>The grants of the directories one after the other, up to the first error.\<close>

fun grant_all :: "file_system \<Rightarrow> path list \<Rightarrow> tool_category \<Rightarrow> approval_manager \<Rightarrow> (grant_error + unit) \<times> approval_manager" where
  "grant_all fs [] category mgr = (Inr (), mgr)"
| "grant_all fs (d # ds) category mgr =
     (case grant_external_directory fs d category mgr of
        (Inl e, mgr') \<Rightarrow> (Inl e, mgr')
      | (Inr _, mgr') \<Rightarrow> grant_all fs ds category mgr')"

definition answered :: "approval_world \<Rightarrow> tool_call \<Rightarrow> approval_manager \<Rightarrow> task_approval \<Rightarrow> answer \<Rightarrow> preflight \<times> approval_session" where
  "answered w c mgr st ans =
     (let roots = external_directory_grants_for mgr (tool_category_of (tc_tool c)) (tc_external_directories c)
      in case ans of
           Inl e \<Rightarrow> (Inl (ApprovalFailed e), (Some mgr, st))
         | Inr Denied \<Rightarrow> deny c (Some mgr, st)
         | Inr Always \<Rightarrow>
             (proceed True roots False,
              (Some (if tc_tool c = ExecuteCommand then auto_approve_command (tc_fingerprint c) (call_scopes w c) mgr
                     else auto_approve (tc_tool c) None mgr), st))
         | Inr AllowExternalDirectory \<Rightarrow>
             (case grant_all (aw_fs w) (tc_external_directories c) (tool_category_of (tc_tool c)) mgr of
                (Inl e, mgr') \<Rightarrow> (Inl (GrantRefused e), (Some mgr', st))
              | (Inr _, mgr') \<Rightarrow>
                  (proceed True (external_directory_grants_for mgr' (tool_category_of (tc_tool c))
                     (tc_external_directories c)) False, (Some mgr', st)))
         | Inr Approved \<Rightarrow> (proceed True (tc_external_directories c) False, (Some mgr, st)))"

text \<open>An auto-approved command that the checker refuses is denied or asked about.\<close>

definition call_unsafe :: "approval_world \<Rightarrow> tool_call \<Rightarrow> approval_manager \<Rightarrow> bool \<Rightarrow> bool" where
  "call_unsafe w c mgr scoped =
     (let commands = coerce_command_array (aw_parse w) (tc_params c);
          script = get_str (tc_params c) (str ''script'');
          checker = \<lparr>sc_yolo_mode = yolo_mode mgr, sc_user_safe_commands = user_safe_commands mgr\<rparr>;
          check = (if scoped then is_structurally_safe_for_scope checker else is_safe checker)
      in list_ex (\<lambda>cmd. cmd \<noteq> [] \<and> check cmd \<noteq> Inr ()) commands
         \<or> (case script of None \<Rightarrow> False | Some s \<Rightarrow> check s \<noteq> Inr ()))"

definition unsafe_command :: "approval_world \<Rightarrow> (bool \<Rightarrow> answer) \<Rightarrow> tool_call \<Rightarrow> approval_manager \<Rightarrow> task_approval \<Rightarrow> path list \<Rightarrow> bool
    \<Rightarrow> preflight \<times> approval_session" where
  "unsafe_command w ask c mgr st roots scoped =
     (if \<not> aw_interactive w then deny c (Some mgr, st)
      else case ask False of
          Inl e \<Rightarrow> (Inl (ApprovalFailed e), (Some mgr, st))
        | Inr Denied \<Rightarrow> deny c (Some mgr, st)
        | Inr Always \<Rightarrow>
            (proceed True roots scoped, (Some (auto_approve_command (tc_fingerprint c) (call_scopes w c) mgr), st))
        | Inr AllowExternalDirectory \<Rightarrow> (Inl ExternalNotForCommands, (Some mgr, st))
        | Inr Approved \<Rightarrow> (proceed True roots scoped, (Some mgr, st)))"

definition needs_prompt :: "approval_world \<Rightarrow> tool_call \<Rightarrow> approval_manager \<Rightarrow> bool" where
  "needs_prompt w c mgr =
     (let external = tc_external_directories c; category = tool_category_of (tc_tool c)
      in if external \<noteq> [] \<and> \<not> external_directories_are_granted mgr category external then True
         else if tc_action_paths c = [] then
           (if tc_tool c = ExecuteCommand then
              \<not> (case call_scopes w c of None \<Rightarrow> False | Some scopes \<Rightarrow> command_scopes_are_approved mgr scopes)
              \<and> should_prompt mgr (tc_tool c) (Some (tc_fingerprint c))
            else should_prompt mgr (tc_tool c) None)
         else list_ex (\<lambda>p. should_prompt_with_path (aw_fs w) (aw_re_match w) mgr (tc_tool c) (Some p)) (tc_action_paths c))"

definition scope_approved :: "approval_world \<Rightarrow> tool_call \<Rightarrow> approval_manager \<Rightarrow> bool" where
  "scope_approved w c mgr \<longleftrightarrow>
     (tc_external_directories c = [] \<or> external_directories_are_granted mgr (tool_category_of (tc_tool c)) (tc_external_directories c))
     \<and> tc_action_paths c = [] \<and> tc_tool c = ExecuteCommand
     \<and> (case call_scopes w c of None \<Rightarrow> False | Some scopes \<Rightarrow> command_scopes_are_approved mgr scopes)"

definition resolve_preflight :: "approval_world \<Rightarrow> (bool \<Rightarrow> answer) \<Rightarrow> tool_call \<Rightarrow> approval_session \<Rightarrow> preflight \<times> approval_session" where
  "resolve_preflight w ask c s =
     (case s of (mgr_opt, st) \<Rightarrow>
        if tc_tool c = ExecuteCommand \<and> is_subagent_execution st
           \<and> \<not> (case mgr_opt of Some mgr \<Rightarrow> yolo_mode mgr | None \<Rightarrow> False)
        then (Inl (DeniedByUser True), (mgr_opt, record_denied_tool_action (denied_action c) st))
        else case mgr_opt of
            None \<Rightarrow> (proceed False [] False, (None, st))
          | Some mgr \<Rightarrow>
              let category = tool_category_of (tc_tool c); external = tc_external_directories c;
                  roots = external_directory_grants_for mgr category external
              in if needs_prompt w c mgr then
                   answered w c mgr st
                     (ask (external \<noteq> [] \<and> \<not> external_directories_are_granted mgr category external))
                 else if tc_tool c = ExecuteCommand \<and> call_unsafe w c mgr (scope_approved w c mgr)
                 then unsafe_command w ask c mgr st roots (scope_approved w c mgr)
                 else (proceed False roots (scope_approved w c mgr), (Some mgr, st)))"

text \<open>A call that was denied before is not even looked at again.\<close>

definition preflight_call :: "approval_world \<Rightarrow> (bool \<Rightarrow> answer) \<Rightarrow> tool_call \<Rightarrow> approval_session \<Rightarrow> preflight \<times> approval_session" where
  "preflight_call w ask c s =
     (if is_denied_tool_action (snd s) (tool_name (tc_tool c)) (tc_fingerprint c)
      then (Inl AlreadyDenied, s) else resolve_preflight w ask c s)"

section \<open>Commands that run without a prompt\<close>

lemma collect_scopes_sound:
  "collect_scopes env acc cmds = Some scopes \<Longrightarrow>
     set acc \<subseteq> set scopes \<and> (\<forall>cmd \<in> set cmds. \<exists>sc \<in> set scopes. command_approval_scope env cmd = Some sc)"
proof (induction cmds arbitrary: acc)
  case (Cons cmd cmds)
  then obtain sc where sc: "command_approval_scope env cmd = Some sc"
      "collect_scopes env (if sc \<in> set acc then acc else acc @ [sc]) cmds = Some scopes"
    by (auto split: option.splits)
  from Cons.IH[OF sc(2)] sc(1) show ?case by (auto split: if_splits)
qed simp

text \<open>The texts of a call that a shell runs: its commands and its script.\<close>

definition call_texts :: "approval_world \<Rightarrow> tool_call \<Rightarrow> ustr list" where
  "call_texts w c = coerce_command_array (aw_parse w) (tc_params c)
     @ (case get_str (tc_params c) (str ''script'') of None \<Rightarrow> [] | Some s \<Rightarrow> [s])"

lemma call_scopes_sound:
  assumes "call_scopes w c = Some scopes" and "cmd \<in> set (call_texts w c)"
  shows "\<exists>sc \<in> set scopes. command_approval_scope (aw_safe_commands_env w) cmd = Some sc"
  using assms collect_scopes_sound[of "aw_safe_commands_env w" "[]" _ scopes]
  by (auto simp: call_scopes_def command_approval_scopes_def call_texts_def Let_def split: if_splits option.splits)

lemma answered_prompted: "answered w c mgr st ans = (Inr ex, s') \<Longrightarrow> explicitly_approved ex"
  by (auto simp: answered_def proceed_def deny_def Let_def
      split: sum.splits approval_result.splits prod.splits)

lemma unsafe_prompted: "unsafe_command w ask c mgr st roots scoped = (Inr ex, s') \<Longrightarrow> explicitly_approved ex"
  by (auto simp: unsafe_command_def proceed_def deny_def split: if_splits sum.splits approval_result.splits)

lemma unprompted_cases:
  assumes "resolve_preflight w ask c (Some mgr, st) = (Inr ex, s')" and "\<not> explicitly_approved ex"
  shows "\<not> needs_prompt w c mgr" and "s' = (Some mgr, st)"
    and "tc_tool c = ExecuteCommand \<Longrightarrow> \<not> call_unsafe w c mgr (scope_approved w c mgr)"
    and "allowed_external_roots ex
      = external_directory_grants_for mgr (tool_category_of (tc_tool c)) (tc_external_directories c)"
  using assms by (auto simp: resolve_preflight_def proceed_def Let_def
      dest: answered_prompted unsafe_prompted split: if_splits)

lemma unprompted_command:
  assumes "resolve_preflight w ask c (Some mgr, st) = (Inr ex, s')" and "\<not> explicitly_approved ex"
    and "tc_tool c = ExecuteCommand" and "\<not> yolo_mode mgr"
    and "cmd \<in> set (call_texts w c)" and "cmd \<noteq> []"
    and "segment \<in> set (command_pieces (trim cmd))" and "split_whitespace segment = v # vs"
  shows "program_allowed (to_lowercase v) vs
    \<and> (allowed_base \<lparr>sc_yolo_mode = False, sc_user_safe_commands = user_safe_commands mgr\<rparr> (to_lowercase v)
       \<or> (\<exists>sc \<in> session_auto_approve_command_scopes mgr. scope_admits sc (to_lowercase v) vs))"
proof (cases "scope_approved w c mgr")
  case True
  then obtain scopes where sc: "call_scopes w c = Some scopes" "command_scopes_are_approved mgr scopes"
    by (auto simp: scope_approved_def split: option.splits)
  then obtain s where s: "s \<in> set scopes" "command_approval_scope (aw_safe_commands_env w) cmd = Some s"
    using call_scopes_sound[OF sc(1) assms(5)] by blast
  have "s \<in> session_auto_approve_command_scopes mgr"
    using sc(2) s(1) by (simp add: command_scopes_are_approved_def list_all_iff)
  then show ?thesis using scope_covers[OF s(2) assms(7,8)] by blast
next
  case False
  let ?chk = "\<lparr>sc_yolo_mode = False, sc_user_safe_commands = user_safe_commands mgr\<rparr>"
  have "\<not> call_unsafe w c mgr False" using unprompted_cases(3)[OF assms(1-3)] False by simp
  then have "is_safe ?chk cmd = Inr ()"
    using assms(4-6) by (auto simp: call_unsafe_def call_texts_def list_ex_iff Let_def split: option.splits)
  then have "case split_whitespace segment of [] \<Rightarrow> True
      | w # ws \<Rightarrow> program_allowed (to_lowercase w) ws \<and> allowed_base ?chk (to_lowercase w)"
    using safe_iff[of ?chk cmd] assms(7) by (simp add: segments_pieces)
  then show ?thesis using assms(8) by simp
qed

text \<open>C9. In a session with an approval manager and outside yolo mode, every command that runs without a prompt, a script
  included, has only pieces between unquoted separators that begin with a program not on the deny list, with arguments the
  rules for git, find and sort allow; each program is a safe one, one of the user's own, or admitted by a scope that the
  session holds.\<close>

theorem unprompted_command_checked:
  assumes "resolve_preflight w ask c (Some mgr, st) = (Inr ex, s')" and "\<not> explicitly_approved ex"
    and "tc_tool c = ExecuteCommand" and "\<not> yolo_mode mgr"
    and "cmd \<in> set (call_texts w c)" and "cmd \<noteq> []"
    and "segment \<in> set (command_pieces (trim cmd))" and "split_whitespace segment = v # vs"
  shows "program_allowed (to_lowercase v) vs
    \<and> (allowed_base \<lparr>sc_yolo_mode = False, sc_user_safe_commands = user_safe_commands mgr\<rparr> (to_lowercase v)
       \<or> (\<exists>sc \<in> session_auto_approve_command_scopes mgr. scope_admits sc (to_lowercase v) vs))"
  by (rule unprompted_command[OF assms])

definition sample_world :: approval_world where
  "sample_world = \<lparr>aw_parse = (\<lambda>_. None), aw_safe_commands_env = None, aw_fs = plain_fs [[RootDir], root_ws] [],
     aw_re_match = (\<lambda>_ _. False), aw_interactive = True\<rparr>"

definition command_call :: "ustr \<Rightarrow> tool_call" where
  "command_call cmd = \<lparr>tc_tool = ExecuteCommand, tc_params = JObject [(str ''command'', JString cmd)],
     tc_action_paths = [], tc_external_directories = [], tc_fingerprint = cmd\<rparr>"

text \<open>A session whose user answered Always to one command.\<close>

definition cargo_manager :: approval_manager where
  "cargo_manager = (case resolve_preflight sample_world (\<lambda>_. Inr Always) (command_call (str ''cargo build''))
       (Some (new_manager None), \<lparr>is_subagent_execution = False, denied_tool_actions = []\<rparr>) of
     (_, (Some mgr, _)) \<Rightarrow> mgr | _ \<Rightarrow> new_manager None)"

lemma unprompted_command_checked_witness:
  "program_allowed (to_lowercase (str ''cargo'')) [str ''test'']
    \<and> (allowed_base \<lparr>sc_yolo_mode = False, sc_user_safe_commands = user_safe_commands cargo_manager\<rparr> (to_lowercase (str ''cargo''))
       \<or> (\<exists>sc \<in> session_auto_approve_command_scopes cargo_manager. scope_admits sc (to_lowercase (str ''cargo'')) [str ''test'']))"
proof -
  let ?c = "command_call (str ''cargo test'')"
  let ?s = "(Some cargo_manager, \<lparr>is_subagent_execution = False, denied_tool_actions = []\<rparr> :: task_approval)"
  let ?ex = "\<lparr>explicitly_approved = False, allowed_external_roots = [], session_command_scope_approved = True\<rparr>"
  have r: "resolve_preflight sample_world (\<lambda>_. Inl []) ?c ?s = (Inr ?ex, ?s)" by code_simp
  have t: "str ''cargo test'' \<in> set (call_texts sample_world ?c)" by code_simp
  have y: "\<not> yolo_mode cargo_manager" by code_simp
  show ?thesis
    by (rule unprompted_command_checked[OF r _ _ y t, where segment = "str ''cargo test''"]; code_simp)
qed

text \<open>Neither list of the environment lets a command run unasked, and an exact command the user always
  approved is asked about again unless it is safe.\<close>

abbreviation fresh_task :: task_approval where
  "fresh_task \<equiv> \<lparr>is_subagent_execution = False, denied_tool_actions = []\<rparr>"

lemma environment_lists_still_prompt:
  "fst (resolve_preflight (sample_world\<lparr>aw_safe_commands_env := Some (str ''ls'')\<rparr>) (\<lambda>_. Inl (str ''asked''))
     (command_call (str ''ls'')) (Some (new_manager (Some (str ''execute_command''))), fresh_task))
   = Inl (ApprovalFailed (str ''asked''))"
  by code_simp

lemma exact_approval_asks_again:
  "let c = command_call (str ''npm test && npm pack''); r = resolve_preflight sample_world (\<lambda>_. Inr Always) c (Some (new_manager None), fresh_task)
   in fst r = proceed True [] False \<and> fst (resolve_preflight sample_world (\<lambda>_. Inl (str ''asked'')) c (snd r)) = Inl (ApprovalFailed (str ''asked''))"
  by code_simp

section \<open>Where approvals come from\<close>

text \<open>A session is the calls it prepares, each with the user that is asked.\<close>

definition run_session :: "approval_world \<Rightarrow> (tool_call \<times> (bool \<Rightarrow> answer)) list \<Rightarrow> approval_session \<Rightarrow> approval_session" where
  "run_session w evs s = foldl (\<lambda>s (c, ask). snd (preflight_call w ask c s)) s evs"

definition said :: "(bool \<Rightarrow> answer) \<Rightarrow> approval_result \<Rightarrow> bool" where
  "said ask r \<longleftrightarrow> ask True = Inr r \<or> ask False = Inr r"

text \<open>What one call can add to the manager, and only with the user's word.\<close>

definition adds :: "approval_world \<Rightarrow> tool_call \<Rightarrow> (bool \<Rightarrow> answer) \<Rightarrow> approval_manager \<Rightarrow> approval_manager \<Rightarrow> bool" where
  "adds w c ask m m' \<longleftrightarrow>
     yolo_mode m' = yolo_mode m \<and> auto_approve_all m' = auto_approve_all m \<and> am_workspace_root m' = am_workspace_root m
     \<and> (\<forall>sc \<in> session_auto_approve_command_scopes m'. sc \<in> session_auto_approve_command_scopes m
          \<or> said ask Always \<and> (\<exists>scopes. call_scopes w c = Some scopes \<and> sc \<in> set scopes))
     \<and> (\<forall>fp \<in> session_auto_approve_commands m'. fp \<in> session_auto_approve_commands m
          \<or> said ask Always \<and> tc_tool c = ExecuteCommand \<and> fp = tc_fingerprint c)
     \<and> (\<forall>g \<in> set (external_directory_grants m'). g \<in> set (external_directory_grants m)
          \<or> said ask AllowExternalDirectory \<and> gr_category g = tool_category_of (tc_tool c)
            \<and> (\<exists>d \<in> set (tc_external_directories c). fs_canonicalize (aw_fs w) d = Some (gr_root g)))"

lemma adds_refl [simp]: "adds w c ask m m"
  by (simp add: adds_def)

lemma adds_command:
  "said ask Always \<Longrightarrow> tc_tool c = ExecuteCommand \<Longrightarrow> adds w c ask m (auto_approve_command (tc_fingerprint c) (call_scopes w c) m)"
  by (auto simp: adds_def auto_approve_command_def split: option.splits list.splits)

lemma adds_tool: "tc_tool c \<noteq> ExecuteCommand \<Longrightarrow> adds w c ask m (auto_approve (tc_tool c) None m)"
  by (simp add: adds_def auto_approve_def)

lemma grant_all_adds:
  assumes "grant_all fs ds category m = (r, m')"
  shows "yolo_mode m' = yolo_mode m \<and> auto_approve_all m' = auto_approve_all m \<and> am_workspace_root m' = am_workspace_root m
    \<and> session_auto_approve_command_scopes m' = session_auto_approve_command_scopes m
    \<and> session_auto_approve_commands m' = session_auto_approve_commands m
    \<and> (\<forall>g \<in> set (external_directory_grants m'). g \<in> set (external_directory_grants m)
         \<or> gr_category g = category \<and> (\<exists>d \<in> set ds. fs_canonicalize fs d = Some (gr_root g)))"
  using assms
proof (induction ds arbitrary: m)
  case (Cons d ds)
  obtain r1 m1 where s: "grant_external_directory fs d category m = (r1, m1)" by fastforce
  have one: "yolo_mode m1 = yolo_mode m \<and> auto_approve_all m1 = auto_approve_all m \<and> am_workspace_root m1 = am_workspace_root m
    \<and> session_auto_approve_command_scopes m1 = session_auto_approve_command_scopes m
    \<and> session_auto_approve_commands m1 = session_auto_approve_commands m
    \<and> (\<forall>g \<in> set (external_directory_grants m1). g \<in> set (external_directory_grants m)
         \<or> gr_category g = category \<and> fs_canonicalize fs d = Some (gr_root g))"
  proof (cases "m1 = m")
    case False
    from grant_external_cases[OF s False] obtain grant where
      "fs_canonicalize fs d = Some (gr_root grant)" "gr_category grant = category"
      "m1 = m\<lparr>external_directory_grants := external_directory_grants m @ [grant]\<rparr>" by metis
    then show ?thesis by simp
  qed simp
  show ?case
  proof (cases r1)
    case (Inl e)
    then have "m' = m1" using Cons.prems s by simp
    then show ?thesis using one by auto
  next
    case (Inr u)
    then have "grant_all fs ds category m1 = (r, m')" using Cons.prems s by simp
    from Cons.IH[OF this] show ?thesis using one by auto
  qed
qed simp

lemma answered_adds:
  assumes "answered w c m st ans = (r, (mo, st'))" and "\<And>a. ans = Inr a \<Longrightarrow> said ask a"
  shows "\<exists>m'. mo = Some m' \<and> adds w c ask m m'"
proof (cases ans)
  case (Inl e)
  then show ?thesis using assms by (auto simp: answered_def Let_def)
next
  case (Inr a)
  then have y: "said ask a" using assms(2) by simp
  show ?thesis
  proof (cases a)
    case Always
    then show ?thesis using assms(1) Inr y adds_command[of ask c w m] adds_tool[of c w ask m]
      by (auto simp: answered_def Let_def split: if_splits)
  next
    case AllowExternalDirectory
    obtain r1 m1 where g: "grant_all (aw_fs w) (tc_external_directories c) (tool_category_of (tc_tool c)) m = (r1, m1)"
      by fastforce
    have "mo = Some m1" using assms(1) Inr AllowExternalDirectory g by (cases r1) (auto simp: answered_def Let_def)
    moreover have "adds w c ask m m1" using grant_all_adds[OF g] y AllowExternalDirectory by (auto simp: adds_def)
    ultimately show ?thesis by blast
  qed (use assms(1) Inr in \<open>auto simp: answered_def deny_def Let_def\<close>)
qed

lemma preflight_adds:
  assumes "preflight_call w ask c (Some m, st) = (r, (mo, st'))"
  shows "\<exists>m'. mo = Some m' \<and> adds w c ask m m'"
proof (cases "is_denied_tool_action st (tool_name (tc_tool c)) (tc_fingerprint c)
    \<or> tc_tool c = ExecuteCommand \<and> is_subagent_execution st \<and> \<not> yolo_mode m")
  case True
  then show ?thesis using assms by (auto simp: preflight_call_def resolve_preflight_def split: if_splits)
next
  case False
  let ?e = "tc_external_directories c \<noteq> [] \<and> \<not> external_directories_are_granted m (tool_category_of (tc_tool c)) (tc_external_directories c)"
  let ?roots = "external_directory_grants_for m (tool_category_of (tc_tool c)) (tc_external_directories c)"
  have r: "(if needs_prompt w c m then answered w c m st (ask ?e)
      else if tc_tool c = ExecuteCommand \<and> call_unsafe w c m (scope_approved w c m)
      then unsafe_command w ask c m st ?roots (scope_approved w c m)
      else (proceed False ?roots (scope_approved w c m), (Some m, st))) = (r, (mo, st'))"
  proof -
    have k: "(tc_tool c = ExecuteCommand \<and> is_subagent_execution st \<and> \<not> yolo_mode m) = False" using False by simp
    have "resolve_preflight w ask c (Some m, st) = (r, (mo, st'))" using False assms by (simp add: preflight_call_def)
    then show ?thesis by (simp only: resolve_preflight_def prod.case option.case Let_def k if_False)
  qed
  show ?thesis
  proof (cases "needs_prompt w c m")
    case True
    then have a: "answered w c m st (ask ?e) = (r, (mo, st'))" using r by simp
    show ?thesis by (rule answered_adds[OF a]) (cases ?e; simp add: said_def)
  next
    case np: False
    show ?thesis
    proof (cases "tc_tool c = ExecuteCommand \<and> call_unsafe w c m (scope_approved w c m)")
      case True
      then have "unsafe_command w ask c m st ?roots (scope_approved w c m) = (r, (mo, st'))" using r np by simp
      then show ?thesis using True adds_command[of ask c w m]
        by (auto simp: unsafe_command_def deny_def said_def split: if_splits sum.splits approval_result.splits)
    next
      case False
      then show ?thesis using r np by (auto split: if_splits)
    qed
  qed
qed

text \<open>What holds of the manager after any calls of a session that began with a new one.\<close>

definition earned :: "approval_world \<Rightarrow> (tool_call \<times> (bool \<Rightarrow> answer)) list \<Rightarrow> approval_manager \<Rightarrow> bool" where
  "earned w evs m \<longleftrightarrow> \<not> yolo_mode m \<and> \<not> auto_approve_all m
     \<and> (\<forall>sc \<in> session_auto_approve_command_scopes m.
          \<exists>(c, ask) \<in> set evs. said ask Always \<and> (\<exists>scopes. call_scopes w c = Some scopes \<and> sc \<in> set scopes))
     \<and> (\<forall>fp \<in> session_auto_approve_commands m.
          \<exists>(c, ask) \<in> set evs. said ask Always \<and> tc_tool c = ExecuteCommand \<and> tc_fingerprint c = fp)
     \<and> (\<forall>g \<in> set (external_directory_grants m).
          \<exists>(c, ask) \<in> set evs. said ask AllowExternalDirectory \<and> gr_category g = tool_category_of (tc_tool c)
            \<and> (\<exists>d \<in> set (tc_external_directories c). fs_canonicalize (aw_fs w) d = Some (gr_root g)))"

lemma earned_step:
  assumes "earned w evs m" and "adds w c ask m m'"
  shows "earned w (evs @ [(c, ask)]) m'"
  using assms unfolding earned_def adds_def by (simp add: Bex_def) blast

lemma run_session_snoc:
  "run_session w (evs @ [(c, ask)]) s = snd (preflight_call w ask c (run_session w evs s))"
  by (simp add: run_session_def)

lemma run_session_earned:
  "\<exists>m st'. run_session w evs (Some (new_manager env), st) = (Some m, st') \<and> earned w evs m"
proof (induction evs rule: rev_induct)
  case Nil
  then show ?case by (simp add: run_session_def earned_def new_manager_def)
next
  case (snoc ev evs)
  obtain c ask where ev: "ev = (c, ask)" by fastforce
  obtain m st' where m: "run_session w evs (Some (new_manager env), st) = (Some m, st')" "earned w evs m"
    using snoc by blast
  obtain r mo st'' where p: "preflight_call w ask c (Some m, st') = (r, (mo, st''))" by (metis prod.exhaust)
  from preflight_adds[OF p] obtain m' where "mo = Some m'" "adds w c ask m m'" by blast
  then show ?case using ev m p earned_step[OF m(2)] by (simp add: run_session_snoc)
qed



text \<open>In a session without yolo mode the directories of an unprompted call were allowed, and so was every root it may use.\<close>

lemma granted_earned:
  assumes "earned w evs m" and "g \<in> set (external_directory_grants m)" and "gr_category g = category"
  shows "\<exists>(e, ask') \<in> set evs. said ask' AllowExternalDirectory \<and> tool_category_of (tc_tool e) = category
    \<and> (\<exists>given \<in> set (tc_external_directories e). fs_canonicalize (aw_fs w) given = Some (gr_root g))"
  using assms unfolding earned_def by force

lemma directory_access_earned:
  assumes "run_session w evs (Some (new_manager env), st) = (Some m, st')"
    and "resolve_preflight w ask c (Some m, st') = (Inr ex, s'')" and "\<not> explicitly_approved ex"
  shows "d \<in> set (tc_external_directories c) \<Longrightarrow> \<exists>root. path_starts_with d root \<and> (\<exists>(e, ask') \<in> set evs. said ask' AllowExternalDirectory
      \<and> tool_category_of (tc_tool e) = tool_category_of (tc_tool c)
      \<and> (\<exists>given \<in> set (tc_external_directories e). fs_canonicalize (aw_fs w) given = Some root))"
    and "root \<in> set (allowed_external_roots ex) \<Longrightarrow> \<exists>(e, ask') \<in> set evs. said ask' AllowExternalDirectory
      \<and> tool_category_of (tc_tool e) = tool_category_of (tc_tool c)
      \<and> (\<exists>given \<in> set (tc_external_directories e). fs_canonicalize (aw_fs w) given = Some root)"
proof -
  have e: "earned w evs m" using run_session_earned[of w evs env st] assms(1) by auto
  have y: "\<not> yolo_mode m" using e by (simp add: earned_def)
  show "\<exists>root. path_starts_with d root \<and> (\<exists>(e, ask') \<in> set evs. said ask' AllowExternalDirectory
      \<and> tool_category_of (tc_tool e) = tool_category_of (tc_tool c)
      \<and> (\<exists>given \<in> set (tc_external_directories e). fs_canonicalize (aw_fs w) given = Some root))"
    if d: "d \<in> set (tc_external_directories c)"
  proof -
    have "external_directories_are_granted m (tool_category_of (tc_tool c)) (tc_external_directories c)"
      using unprompted_cases(1)[OF assms(2,3)] d by (auto simp: needs_prompt_def Let_def split: if_splits)
    then obtain g where "g \<in> set (external_directory_grants m)" "gr_category g = tool_category_of (tc_tool c)"
        "path_starts_with d (gr_root g)"
      using y d by (auto simp: external_directories_are_granted_def list_all_iff list_ex_iff)
    then show ?thesis using granted_earned[OF e] by blast
  qed
  show "\<exists>(e, ask') \<in> set evs. said ask' AllowExternalDirectory \<and> tool_category_of (tc_tool e) = tool_category_of (tc_tool c)
      \<and> (\<exists>given \<in> set (tc_external_directories e). fs_canonicalize (aw_fs w) given = Some root)"
    if r: "root \<in> set (allowed_external_roots ex)"
  proof -
    obtain g where "g \<in> set (external_directory_grants m)" "gr_category g = tool_category_of (tc_tool c)" "root = gr_root g"
      using r y unprompted_cases(4)[OF assms(2,3)] by (auto simp: external_directory_grants_for_def)
    then show ?thesis using granted_earned[OF e] by blast
  qed
qed

definition external_world :: approval_world where
  "external_world = sample_world\<lparr>aw_fs := plain_fs [[RootDir], root_ws, [RootDir, Normal (str ''x'')]] []\<rparr>"

definition read_call :: "ustr \<Rightarrow> tool_call" where
  "read_call p = \<lparr>tc_tool = ReadFile, tc_params = JObject [(str ''path'', JString p)], tc_action_paths = [p],
     tc_external_directories = external_action_directories (aw_fs external_world) ReadFile root_ws [p],
     tc_fingerprint = p\<rparr>"

text \<open>A call that was prompted for runs only with the user's word: a denial, no answer in time or a prompt that
  could not be shown refuses it.\<close>

theorem prompted_call_needs_consent:
  assumes "resolve_preflight w ask c s = (Inr ex, s')" and "explicitly_approved ex"
  shows "said ask Approved \<or> said ask Always \<or> said ask AllowExternalDirectory"
proof -
  obtain mo st where s: "s = (mo, st)" by fastforce
  obtain m where m: "mo = Some m"
    using assms s by (cases mo) (auto simp: resolve_preflight_def proceed_def split: if_splits)
  have "\<exists>b a. ask b = Inr a \<and> a \<noteq> Denied"
  proof (cases "needs_prompt w c m")
    case True
    then obtain b where "answered w c m st (ask b) = (Inr ex, s')"
      using assms(1) s m by (auto simp: resolve_preflight_def Let_def split: if_splits)
    then show ?thesis
      by (cases "ask b"; cases "projr (ask b)") (auto simp: answered_def deny_def Let_def)
  next
    case False
    then obtain roots scoped where "unsafe_command w ask c m st roots scoped = (Inr ex, s')"
      using assms s m by (auto simp: resolve_preflight_def proceed_def Let_def split: if_splits)
    then show ?thesis
      by (cases "ask False"; cases "projr (ask False)") (auto simp: unsafe_command_def deny_def split: if_splits)
  qed
  then obtain b a where a: "ask b = Inr a" "a \<noteq> Denied" by blast
  then show ?thesis by (cases a; cases b) (auto simp: said_def)
qed

lemma prompted_call_needs_consent_witness:
  "said (\<lambda>_. Inr Approved) Approved \<or> said (\<lambda>_. Inr Approved) Always \<or> said (\<lambda>_. Inr Approved) AllowExternalDirectory"
proof -
  let ?ex = "\<lparr>explicitly_approved = True, allowed_external_roots = [], session_command_scope_approved = False\<rparr>"
  have a: "resolve_preflight sample_world (\<lambda>_. Inr Approved) (command_call (str ''rm x'')) (Some (new_manager None), fresh_task)
      = (Inr ?ex, (Some (new_manager None), fresh_task))" by code_simp
  show ?thesis by (rule prompted_call_needs_consent[OF a]) simp
qed

lemma denials_kept:
  assumes "a \<in> set (denied_tool_actions (snd s))"
  shows "a \<in> set (denied_tool_actions (snd (snd (preflight_call w ask c s))))"
proof -
  obtain mo st where s: "s = (mo, st)" by fastforce
  have d: "a \<in> set (denied_tool_actions (snd (snd (deny c (x, st)))))" for x
    using assms s by (simp add: deny_def record_denied_tool_action_def)
  have an: "a \<in> set (denied_tool_actions (snd (snd (answered w c m st ans))))" for m ans
    using assms s d by (auto simp: answered_def Let_def split: sum.splits approval_result.splits prod.splits)
  have un: "a \<in> set (denied_tool_actions (snd (snd (unsafe_command w ask c m st roots scoped))))" for m roots scoped
    using assms s d by (auto simp: unsafe_command_def split: sum.splits approval_result.splits)
  show ?thesis using assms s an un
    by (auto simp: preflight_call_def resolve_preflight_def record_denied_tool_action_def Let_def split: option.splits)
qed

lemma run_session_denials:
  "a \<in> set (denied_tool_actions (snd s)) \<Longrightarrow> a \<in> set (denied_tool_actions (snd (run_session w evs s)))"
proof (induction evs rule: rev_induct)
  case (snoc ev evs)
  then show ?case by (cases ev) (simp add: run_session_snoc denials_kept)
qed (simp add: run_session_def)

lemma denied_recorded:
  assumes "preflight_call w ask c s = (Inl (DeniedByUser b), s')"
  shows "denied_action c \<in> set (denied_tool_actions (snd s'))"
proof -
  obtain mo st where s: "s = (mo, st)" by fastforce
  have rec: "denied_action c \<in> set (denied_tool_actions (record_denied_tool_action (denied_action c) st))"
    by (simp add: record_denied_tool_action_def)
  have an: "answered w c m st ans = (Inl (DeniedByUser b), s') \<Longrightarrow> denied_action c \<in> set (denied_tool_actions (snd s'))" for m ans
    using rec by (auto simp: answered_def deny_def proceed_def Let_def split: sum.splits approval_result.splits prod.splits)
  have un: "unsafe_command w ask c m st roots scoped = (Inl (DeniedByUser b), s') \<Longrightarrow> denied_action c \<in> set (denied_tool_actions (snd s'))"
    for m roots scoped
    using rec by (auto simp: unsafe_command_def deny_def proceed_def split: if_splits sum.splits approval_result.splits)
  show ?thesis using assms s an un rec
    by (auto simp: preflight_call_def resolve_preflight_def proceed_def Let_def split: if_splits option.splits)
qed

text \<open>A request the user denied stays refused without another prompt for the rest of the turn, whatever other
  calls come in between.\<close>

theorem denied_request_stays_denied:
  assumes "preflight_call w ask c s = (Inl (DeniedByUser b), s')"
    and "tc_tool d = tc_tool c" and "tc_fingerprint d = tc_fingerprint c"
  shows "preflight_call w ask' d (run_session w evs s') = (Inl AlreadyDenied, run_session w evs s')"
proof -
  have "denied_action c \<in> set (denied_tool_actions (snd (run_session w evs s')))"
    using denied_recorded[OF assms(1)] by (rule run_session_denials)
  then have "is_denied_tool_action (snd (run_session w evs s')) (tool_name (tc_tool d)) (tc_fingerprint d)"
    unfolding is_denied_tool_action_def list_ex_iff
    by (rule bexI[rotated]) (simp add: denied_action_def assms(2,3))
  then show ?thesis by (simp add: preflight_call_def)
qed

lemma denied_request_stays_denied_witness:
  "let s' = snd (preflight_call sample_world (\<lambda>_. Inr Denied) (command_call (str ''rm x'')) (Some (new_manager None), fresh_task))
   in preflight_call sample_world (\<lambda>_. Inr Always) (command_call (str ''rm x''))
        (run_session sample_world [(command_call (str ''ls''), \<lambda>_. Inr Always)] s')
      = (Inl AlreadyDenied, run_session sample_world [(command_call (str ''ls''), \<lambda>_. Inr Always)] s')"
proof -
  let ?r = "preflight_call sample_world (\<lambda>_. Inr Denied) (command_call (str ''rm x'')) (Some (new_manager None), fresh_task)"
  have "fst ?r = Inl (DeniedByUser False)" by code_simp
  then have "?r = (Inl (DeniedByUser False), snd ?r)" by (metis prod.collapse)
  then show ?thesis unfolding Let_def by (rule denied_request_stays_denied) simp_all
qed

end
