(* ===== verification/ToolBatch.thy ===== *)
theory ToolBatch
  imports Preflight PlanCommands
begin

text \<open>
  A batch of tool calls (\<open>src/src/core/tools/execution.rs\<close>): the gate in front of a call
  (\<open>prepare_tool_tasks\<close> with the profiles of \<open>src/src/core/tools/definitions.rs\<close>), the order in which
  the prepared calls run (\<open>execute_tool_batch\<close>) and the pairing of their results
  (\<open>collect_ordered_outcomes\<close>). A handler's run is a pair of events, its start and its end, or one for a call
  that is skipped because the task was cancelled before; what it does in between is not looked at. An output
  is its error flag and its text.
\<close>

section \<open>Profiles\<close>

datatype tool_profile =
    LeanAct | DirectAnswer | AnswerOnly | WriteOnly | CoreEdit | Validate | SymbolProfile | PlanProfile | FullProfile

fun escalate :: "tool_profile \<Rightarrow> tool_profile option" where
  "escalate DirectAnswer = Some AnswerOnly"
| "escalate AnswerOnly = Some WriteOnly"
| "escalate WriteOnly = Some CoreEdit"
| "escalate _ = None"

fun profile_tools :: "tool_profile \<Rightarrow> sned_tool list" where
  "profile_tools LeanAct =
     [ReadFile, WriteToFile, ListFiles, SearchFiles, EditFile, ExecuteCommand, AskFollowupQuestion,
      AttemptCompletion, ReplaceSymbol, RenameSymbol, UseSubagents, UseSkill, ListSkills, DiagnosticsScan,
      Condense, WebFetch]"
| "profile_tools DirectAnswer = []"
| "profile_tools AnswerOnly = [AttemptCompletion, AskFollowupQuestion]"
| "profile_tools WriteOnly = [WriteToFile, AttemptCompletion, AskFollowupQuestion]"
| "profile_tools CoreEdit =
     [ReadFile, EditFile, WriteToFile, ListFiles, SearchFiles, GetFunction, GetFileSkeleton,
      AttemptCompletion, AskFollowupQuestion]"
| "profile_tools Validate =
     [ReadFile, EditFile, WriteToFile, ListFiles, SearchFiles, ExecuteCommand, DiagnosticsScan, GetFunction,
      GetFileSkeleton, AttemptCompletion, AskFollowupQuestion]"
| "profile_tools SymbolProfile =
     [ReadFile, EditFile, WriteToFile, ListFiles, SearchFiles, GetFunction, GetFileSkeleton,
      FindSymbolReferences, RenameSymbol, ReplaceSymbol, AttemptCompletion, AskFollowupQuestion]"
| "profile_tools PlanProfile =
     [ReadFile, ListFiles, SearchFiles, ExecuteCommand, AskFollowupQuestion, PlanModeRespond, GetFunction,
      GetFileSkeleton, FindSymbolReferences, UseSubagents, UseSkill, ListSkills, DiagnosticsScan, Condense,
      WebFetch]"
| "profile_tools FullProfile =
     [ReadFile, WriteToFile, ListFiles, SearchFiles, EditFile, ExecuteCommand, AskFollowupQuestion,
      AttemptCompletion, GetFunction, GetFileSkeleton, FindSymbolReferences, ReplaceSymbol, RenameSymbol,
      UseSubagents, UseSkill, ListSkills, DiagnosticsScan, Condense, WebFetch]"

section \<open>The gate in front of a call\<close>

definition is_plan_mode_restricted :: "sned_tool \<Rightarrow> bool" where
  "is_plan_mode_restricted tool \<longleftrightarrow> tool_category_of tool = CatEditFiles"

definition is_mutating_file_tool :: "ustr \<Rightarrow> bool" where
  "is_mutating_file_tool name \<longleftrightarrow>
     tool_from_name name \<in> {Some WriteToFile, Some EditFile, Some ReplaceSymbol, Some RenameSymbol}"

definition tool_is_schedulable_read :: "ustr \<Rightarrow> bool" where
  "tool_is_schedulable_read name =
     (case tool_from_name name of
        None \<Rightarrow> False
      | Some tool \<Rightarrow> tool \<noteq> DiagnosticsScan \<and> tool \<noteq> Condense
          \<and> (tool_category_of tool = CatReadOnly \<or> tool_category_of tool = CatReadFiles))"

datatype gate_error =
    Malformed ustr | ScopedRulesLoaded | OnlyInPlanMode | OnlyInActMode | NotInProfile | RestrictedInPlan
  | NoHandler | UnknownTool ustr "sned_tool list" | GateRefused refusal

record gate_inputs =
  gi_mode :: agent_mode
  gi_strict_plan :: bool
  gi_profile :: "tool_profile option"
  gi_handlers :: "sned_tool set"
  gi_scoped_rules_added :: bool

text \<open>A prepared call: its name, its arguments or why they do not parse, and the call for the approval.\<close>

record prepared_call =
  pc_name :: ustr
  pc_error :: "ustr option"
  pc_call :: tool_call

text \<open>The tool of the call for the approval is the one its name names.\<close>

definition gate ::
  "gate_inputs \<Rightarrow> approval_world \<Rightarrow> (bool \<Rightarrow> answer) \<Rightarrow> prepared_call \<Rightarrow> approval_session
     \<Rightarrow> (gate_error + execution) \<times> approval_session" where
  "gate g w ask pc s =
     (case pc_error pc of
        Some e \<Rightarrow> (Inl (Malformed e), s)
      | None \<Rightarrow>
          if gi_scoped_rules_added g \<and> is_mutating_file_tool (pc_name pc) then (Inl ScopedRulesLoaded, s)
          else case tool_from_name (pc_name pc) of
              None \<Rightarrow> (Inl (UnknownTool (pc_name pc)
                (profile_tools (case gi_profile g of Some p \<Rightarrow> p | None \<Rightarrow> FullProfile))), s)
            | Some tool \<Rightarrow>
                if gi_mode g = ActMode \<and> tool = PlanModeRespond then (Inl OnlyInPlanMode, s)
                else if gi_mode g = PlanMode \<and> tool = AttemptCompletion then (Inl OnlyInActMode, s)
                else if (case gi_profile g of Some p \<Rightarrow> tool \<notin> set (profile_tools p) | None \<Rightarrow> False)
                then (Inl NotInProfile, s)
                else if gi_mode g = PlanMode \<and> gi_strict_plan g \<and> is_plan_mode_restricted tool
                then (Inl RestrictedInPlan, s)
                else if tool \<notin> gi_handlers g then (Inl NoHandler, s)
                else (case preflight_call w ask ((pc_call pc)\<lparr>tc_tool := tool\<rparr>) s of
                        (Inl e, s') \<Rightarrow> (Inl (GateRefused e), s')
                      | (Inr ex, s') \<Rightarrow> (Inr ex, s')))"

record tool_task =
  tt_name :: ustr
  tt_immediate :: "gate_error option"

text \<open>The tasks of a batch in the order of the calls; a call without a name is left out.\<close>

fun prepare_tool_tasks ::
  "gate_inputs \<Rightarrow> approval_world \<Rightarrow> (prepared_call \<times> (bool \<Rightarrow> answer)) list \<Rightarrow> approval_session
     \<Rightarrow> tool_task list \<times> approval_session" where
  "prepare_tool_tasks g w [] s = ([], s)"
| "prepare_tool_tasks g w ((pc, ask) # pcs) s =
     (if pc_name pc = [] then prepare_tool_tasks g w pcs s
      else let (r, s1) = gate g w ask pc s; (tasks, s2) = prepare_tool_tasks g w pcs s1
        in (\<lparr>tt_name = pc_name pc, tt_immediate = (case r of Inl e \<Rightarrow> Some e | Inr _ \<Rightarrow> None)\<rparr> # tasks, s2))"

section \<open>The order of execution\<close>

text \<open>A group is a set of reads that run at the same time, or one call that runs alone.\<close>

datatype group = Reads "nat list" | Barrier nat

definition flush_reads :: "nat list \<Rightarrow> group list" where
  "flush_reads batch = (if batch = [] then [] else [Reads batch])"

fun schedule :: "bool \<Rightarrow> nat \<Rightarrow> nat list \<Rightarrow> tool_task list \<Rightarrow> group list" where
  "schedule parallel i batch [] = flush_reads batch"
| "schedule parallel i batch (t # ts) =
     (if tt_immediate t \<noteq> None then schedule parallel (i + 1) batch ts
      else if parallel \<and> tool_is_schedulable_read (tt_name t) then schedule parallel (i + 1) (batch @ [i]) ts
      else flush_reads batch @ Barrier i # schedule parallel (i + 1) [] ts)"

definition batch_schedule :: "bool \<Rightarrow> tool_task list \<Rightarrow> group list" where
  "batch_schedule parallel tasks = schedule parallel 0 [] tasks"

fun group_members :: "group \<Rightarrow> nat list" where
  "group_members (Reads js) = js"
| "group_members (Barrier j) = [j]"

section \<open>The run of a batch\<close>

text \<open>An output of a call; the second is fabricated for a call that has none, the other for one that was cancelled before it started.\<close>

record tool_output =
  to_text :: ustr
  to_is_error :: bool

definition execution_failed :: tool_output where
  "execution_failed = \<lparr>to_text = str ''Tool execution failed'', to_is_error = True\<rparr>"

definition cancelled_before_start :: tool_output where
  "cancelled_before_start = \<lparr>to_text = str ''Tool execution skipped: task was cancelled before the tool started'', to_is_error = True\<rparr>"

text \<open>The runs go group after group. Of the calls of a group at most \<open>DEFAULT_TOOL_CONCURRENCY\<close> are in the window of
  \<open>buffered\<close>, in the order of the calls; a call in the window starts when it is polled for the first time, unless the task has
  been cancelled by then (\<open>run_tool_unless_cancelled\<close>), ends with some output, and leaves the window with it when all before
  it have. The task may be cancelled at any time; a running call is not disturbed by it.\<close>

abbreviation DEFAULT_TOOL_CONCURRENCY :: nat where "DEFAULT_TOOL_CONCURRENCY \<equiv> 12"

datatype run_event = Start nat | End nat | Skip nat | Cancel

datatype progress = Unpolled | InProgress | Ended tool_output

record batch_run =
  ru_groups :: "group list"
  ru_waiting :: "nat list"
  ru_window :: "nat list"
  ru_progress :: "nat \<Rightarrow> progress"
  ru_cancelled :: bool
  ru_results :: "nat \<Rightarrow> tool_output option"
  ru_events :: "run_event list"

datatype batch_move = CancelTask | Admit | Poll nat | Finish nat tool_output | Yield | NextGroup

definition start_run :: "group list \<Rightarrow> batch_run" where
  "start_run gs =
     \<lparr>ru_groups = gs, ru_waiting = [], ru_window = [], ru_progress = (\<lambda>_. Unpolled), ru_cancelled = False, ru_results = (\<lambda>_. None),
      ru_events = []\<rparr>"

definition run_tool_unless_cancelled :: "nat \<Rightarrow> batch_run \<Rightarrow> batch_run" where
  "run_tool_unless_cancelled i r =
     (if ru_cancelled r
      then r\<lparr>ru_progress := (ru_progress r)(i := Ended cancelled_before_start), ru_events := ru_events r @ [Skip i]\<rparr>
      else r\<lparr>ru_progress := (ru_progress r)(i := InProgress), ru_events := ru_events r @ [Start i]\<rparr>)"

fun batch_step :: "batch_move \<Rightarrow> batch_run \<Rightarrow> batch_run option" where
  "batch_step CancelTask r = (if ru_cancelled r then None else Some (r\<lparr>ru_cancelled := True, ru_events := ru_events r @ [Cancel]\<rparr>))"
| "batch_step Admit r =
     (case ru_waiting r of
        [] \<Rightarrow> None
      | i # rest \<Rightarrow>
          if DEFAULT_TOOL_CONCURRENCY \<le> length (ru_window r) then None
          else Some (r\<lparr>ru_waiting := rest, ru_window := ru_window r @ [i]\<rparr>))"
| "batch_step (Poll i) r =
     (if i \<in> set (ru_window r) \<and> ru_progress r i = Unpolled then Some (run_tool_unless_cancelled i r) else None)"
| "batch_step (Finish i out) r =
     (if i \<in> set (ru_window r) \<and> ru_progress r i = InProgress
      then Some (r\<lparr>ru_progress := (ru_progress r)(i := Ended out), ru_events := ru_events r @ [End i]\<rparr>) else None)"
| "batch_step Yield r =
     (case ru_window r of
        [] \<Rightarrow> None
      | i # rest \<Rightarrow> (case ru_progress r i of
          Ended out \<Rightarrow> Some (r\<lparr>ru_window := rest, ru_results := (ru_results r)(i \<mapsto> out)\<rparr>)
        | _ \<Rightarrow> None))"
| "batch_step NextGroup r =
     (case ru_groups r of
        [] \<Rightarrow> None
      | g # gs \<Rightarrow>
          if ru_waiting r = [] \<and> ru_window r = [] then Some (r\<lparr>ru_groups := gs, ru_waiting := group_members g\<rparr>) else None)"

fun run_moves :: "batch_move list \<Rightarrow> batch_run \<Rightarrow> batch_run option" where
  "run_moves [] r = Some r"
| "run_moves (m # ms) r = (case batch_step m r of None \<Rightarrow> None | Some r' \<Rightarrow> run_moves ms r')"

definition run_over :: "batch_run \<Rightarrow> bool" where
  "run_over r \<longleftrightarrow> ru_groups r = [] \<and> ru_waiting r = [] \<and> ru_window r = []"

section \<open>Results in order\<close>

text \<open>\<open>immediate\<close> gives the output of a call that was answered at once.\<close>

definition count_failures :: "(nat \<Rightarrow> tool_output option) \<Rightarrow> (nat \<Rightarrow> tool_output option) \<Rightarrow> nat \<Rightarrow> bool \<times> nat" where
  "count_failures immediate results n =
     (0 < n, length (filter (\<lambda>i. case immediate i of Some out \<Rightarrow> to_is_error out
        | None \<Rightarrow> (case results i of Some out \<Rightarrow> to_is_error out | None \<Rightarrow> True)) [0..<n]))"

fun pair_outcomes :: "tool_output option list \<Rightarrow> tool_output list \<Rightarrow> tool_output list" where
  "pair_outcomes [] rs = []"
| "pair_outcomes (Some out # imms) rs = out # pair_outcomes imms rs"
| "pair_outcomes (None # imms) rs =
     (case rs of [] \<Rightarrow> execution_failed # pair_outcomes imms []
      | r # rs' \<Rightarrow> r # pair_outcomes imms rs')"

definition collect_ordered_outcomes ::
  "(nat \<Rightarrow> tool_output option) \<Rightarrow> (nat \<Rightarrow> tool_output option) \<Rightarrow> nat \<Rightarrow> tool_output list \<times> bool \<times> nat" where
  "collect_ordered_outcomes immediate results n =
     (pair_outcomes (map immediate [0..<n]) (List.map_filter results [0..<n]), count_failures immediate results n)"

section \<open>The gate\<close>

text \<open>A call gets through the gate exactly when its arguments parse, its name names a tool of the active profile
  with a handler that the mode allows, no rules for its file were just loaded, and the approval lets it
  run.\<close>

theorem gate_open_iff:
  "fst (gate g w ask pc s) = Inr ex \<longleftrightarrow>
     pc_error pc = None \<and> (\<exists>tool. pc_name pc = tool_name tool
       \<and> (gi_scoped_rules_added g \<longrightarrow> tool \<notin> {WriteToFile, EditFile, ReplaceSymbol, RenameSymbol})
       \<and> (tool = PlanModeRespond \<longrightarrow> gi_mode g = PlanMode) \<and> (tool = AttemptCompletion \<longrightarrow> gi_mode g = ActMode)
       \<and> (\<forall>p. gi_profile g = Some p \<longrightarrow> tool \<in> set (profile_tools p))
       \<and> (gi_mode g = PlanMode \<and> gi_strict_plan g \<longrightarrow> tool_category_of tool \<noteq> CatEditFiles)
       \<and> tool \<in> gi_handlers g
       \<and> fst (preflight_call w ask ((pc_call pc)\<lparr>tc_tool := tool\<rparr>) s) = Inr ex)"
proof (cases "pc_error pc = None \<and> tool_from_name (pc_name pc) \<noteq> None")
  case False
  then show ?thesis
    by (cases "pc_error pc") (auto simp: gate_def from_name_iff[symmetric] split: if_splits)
next
  case True
  then obtain tool where t: "tool_from_name (pc_name pc) = Some tool" and e: "pc_error pc = None" by blast
  then have n: "pc_name pc = tool_name tool" by (simp add: from_name_iff)
  have u: "(\<exists>u. pc_name pc = tool_name u \<and> P u) \<longleftrightarrow> P tool" for P
    using n by (auto simp: tool_name_inj)
  have m: "gi_mode g = PlanMode \<longleftrightarrow> gi_mode g \<noteq> ActMode" by (cases "gi_mode g") simp_all
  obtain r s' where p: "preflight_call w ask ((pc_call pc)\<lparr>tc_tool := tool\<rparr>) s = (r, s')"
    by (cases "preflight_call w ask ((pc_call pc)\<lparr>tc_tool := tool\<rparr>) s") blast
  have "fst (gate g w ask pc s) = Inr ex \<longleftrightarrow>
     \<not> (gi_scoped_rules_added g \<and> tool \<in> {WriteToFile, EditFile, ReplaceSymbol, RenameSymbol})
     \<and> \<not> (gi_mode g = ActMode \<and> tool = PlanModeRespond) \<and> \<not> (gi_mode g = PlanMode \<and> tool = AttemptCompletion)
     \<and> \<not> (case gi_profile g of Some p \<Rightarrow> tool \<notin> set (profile_tools p) | None \<Rightarrow> False)
     \<and> \<not> (gi_mode g = PlanMode \<and> gi_strict_plan g \<and> tool_category_of tool = CatEditFiles)
     \<and> tool \<in> gi_handlers g \<and> r = Inr ex"
    by (simp add: gate_def e t p is_mutating_file_tool_def is_plan_mode_restricted_def split: sum.split) blast
  then show ?thesis unfolding u by (auto simp: e p m split: option.splits)
qed

definition sample_gate :: gate_inputs where
  "sample_gate = \<lparr>gi_mode = PlanMode, gi_strict_plan = True, gi_profile = Some PlanProfile, gi_handlers = {ReadFile},
     gi_scoped_rules_added = True\<rparr>"

definition read_prepared :: prepared_call where
  "read_prepared = \<lparr>pc_name = str ''read_file'', pc_error = None, pc_call = read_call (str ''a'')\<rparr>"

lemma gate_open_iff_witness:
  "fst (gate sample_gate sample_world (\<lambda>_. Inl []) read_prepared (Some ((new_manager None)\<lparr>am_workspace_root := Some (str ''/w'')\<rparr>), fresh_task))
     = Inr \<lparr>explicitly_approved = False, allowed_external_roots = [], session_command_scope_approved = False\<rparr>"
proof -
  let ?c = "(pc_call read_prepared)\<lparr>tc_tool := ReadFile\<rparr>"
  have p: "fst (preflight_call sample_world (\<lambda>_. Inl []) ?c (Some ((new_manager None)\<lparr>am_workspace_root := Some (str ''/w'')\<rparr>), fresh_task))
    = Inr \<lparr>explicitly_approved = False, allowed_external_roots = [], session_command_scope_approved = False\<rparr>" by code_simp
  show ?thesis
    by (rule gate_open_iff[THEN iffD2])
      (use p in \<open>auto simp: sample_gate_def read_prepared_def intro!: exI[of _ ReadFile]\<close>)
qed

text \<open>A profile's tools are distinct, and a profile that is escalated keeps its tools.\<close>

lemma profile_tools_grow:
  "distinct (profile_tools p) \<and> (\<forall>q. escalate p = Some q \<longrightarrow> set (profile_tools p) \<subseteq> set (profile_tools q))"
  by (cases p) auto

section \<open>Barriers keep the order\<close>

definition before :: "group list \<Rightarrow> nat \<Rightarrow> nat \<Rightarrow> bool" where
  "before gs i j \<longleftrightarrow> (\<exists>xs g ys h. gs = xs @ g # ys \<and> i \<in> set (group_members g) \<and> h \<in> set ys \<and> j \<in> set (group_members h))"

lemma before_Cons: "before gs i j \<Longrightarrow> before (g # gs) i j"
  unfolding before_def by (metis append_Cons)

lemma before_append: "before gs i j \<Longrightarrow> before (hs @ gs) i j"
  by (induction hs) (simp_all add: before_Cons)

lemma before_head: "i \<in> set (group_members g) \<Longrightarrow> h \<in> set gs \<Longrightarrow> j \<in> set (group_members h) \<Longrightarrow> before (g # gs) i j"
  unfolding before_def by (metis append_Nil)

definition executed :: "tool_task list \<Rightarrow> nat \<Rightarrow> bool" where
  "executed ts i \<longleftrightarrow> i < length ts \<and> tt_immediate (ts ! i) = None"

definition runs_alone :: "bool \<Rightarrow> tool_task \<Rightarrow> bool" where
  "runs_alone parallel t \<longleftrightarrow> \<not> (parallel \<and> tool_is_schedulable_read (tt_name t))"

lemma executed_Cons: "executed (t # ts) (Suc m) = executed ts m" "executed (t # ts) 0 = (tt_immediate t = None)"
  by (simp_all add: executed_def)

definition flat :: "group list \<Rightarrow> nat list" where
  "flat gs = concat (map group_members gs)"

lemma flat_simps [simp]:
  "flat [] = []" "flat (g # gs) = group_members g @ flat gs" "flat (gs @ hs) = flat gs @ flat hs" "flat (flush_reads batch) = batch"
  by (auto simp: flat_def flush_reads_def)

text \<open>The schedule holds the calls that are not answered yet, each once and in their order.\<close>

lemma schedule_flat: "flat (schedule parallel k batch ts) = batch @ map ((+) k) (filter (executed ts) [0..<length ts])"
proof (induction ts arbitrary: k batch)
  case (Cons t ts)
  have "filter (executed (t # ts)) [0..<length (t # ts)]
      = (if tt_immediate t = None then [0] else []) @ map Suc (filter (executed ts) [0..<length ts])"
    by (simp add: upt_conv_Cons map_Suc_upt[symmetric] filter_map o_def executed_Cons del: upt_Suc)
  moreover have "map ((+) k) (map Suc xs) = map ((+) (k + 1)) xs" for xs :: "nat list" by simp
  ultimately show ?case using Cons.IH[of "k + 1"] by (cases parallel) (auto simp del: map_map)
qed (simp add: executed_def)

lemma batch_schedule_flat: "flat (batch_schedule parallel ts) = filter (executed ts) [0..<length ts]"
  using schedule_flat[of parallel 0 "[]" ts] by (simp add: batch_schedule_def map_idI)

lemma schedule_before:
  assumes "i \<in> set batch \<or> k \<le> i \<and> executed ts (i - k)" and "k \<le> j" and "executed ts (j - k)"
    and "i < j" and "\<forall>b \<in> set batch. b < k"
    and "runs_alone parallel (ts ! (j - k)) \<or> i \<notin> set batch \<and> runs_alone parallel (ts ! (i - k))"
  shows "before (schedule parallel k batch ts) i j"
  using assms
proof (induction ts arbitrary: k batch)
  case Nil
  then show ?case by (simp add: executed_def)
next
  case (Cons t ts)
  consider (later) "k < j" "executed ts (j - (k + 1))" "(t # ts) ! (j - k) = ts ! (j - (k + 1))"
    | (now) "j = k" "tt_immediate t = None"
  proof (cases "j = k")
    case False
    then have "j - k = Suc (j - (k + 1))" using Cons.prems(2) by simp
    then show ?thesis using that(1) False Cons.prems(2,3) by (simp add: executed_Cons)
  qed (use that Cons.prems(3) in \<open>simp add: executed_Cons\<close>)
  then show ?case
  proof cases
    case now
    then have b: "i \<in> set batch" "runs_alone parallel t" using Cons.prems by auto
    then have "schedule parallel k batch (t # ts) = Reads batch # Barrier k # schedule parallel (k + 1) [] ts"
      using now by (auto simp: flush_reads_def runs_alone_def)
    then show ?thesis using b(1) now(1) by (simp only:) (rule before_head[where h = "Barrier k"], simp_all)
  next
    case later
    have bk: "\<forall>b \<in> set batch. b < k + 1" using Cons.prems(5) by auto
    have ic: "i \<in> set batch \<or> i = k \<and> tt_immediate t = None \<or> k + 1 \<le> i \<and> executed ts (i - (k + 1))
        \<and> (t # ts) ! (i - k) = ts ! (i - (k + 1))"
    proof (cases "i \<in> set batch \<or> i = k")
      case True
      then show ?thesis using Cons.prems(1,5) by (auto simp: executed_Cons)
    next
      case False
      then have "k + 1 \<le> i" "executed (t # ts) (i - k)" "i - k = Suc (i - (k + 1))" using Cons.prems(1) by auto
      then show ?thesis by (simp add: executed_Cons)
    qed
    show ?thesis
    proof (cases "tt_immediate t \<noteq> None")
      case True
      have "before (schedule parallel (k + 1) batch ts) i j"
        by (rule Cons.IH) (use ic later True bk Cons.prems in auto)
      then show ?thesis using True by simp
    next
      case False
      show ?thesis
      proof (cases "runs_alone parallel t")
        case True
        then have s: "schedule parallel k batch (t # ts) = flush_reads batch @ Barrier k # schedule parallel (k + 1) [] ts"
          using False by (cases parallel) (simp_all add: runs_alone_def)
        have jm: "\<exists>h \<in> set (schedule parallel (k + 1) [] ts). j \<in> set (group_members h)"
        proof -
          have "j \<in> (+) (k + 1) ` {m. executed ts m}" using later by (intro image_eqI[of _ _ "j - (k + 1)"]) simp_all
          then have "j \<in> set (flat (schedule parallel (k + 1) [] ts))"
            unfolding schedule_flat by (auto simp: executed_def)
          then show ?thesis by (auto simp: flat_def)
        qed
        consider (batch) "i \<in> set batch" | (here) "i = k" | (rest) "k + 1 \<le> i" "executed ts (i - (k + 1))"
            "(t # ts) ! (i - k) = ts ! (i - (k + 1))" "i \<notin> set batch" using ic by blast
        then show ?thesis
        proof cases
          case batch
          then have "flush_reads batch = [Reads batch]" by (auto simp: flush_reads_def)
          then show ?thesis using s jm batch by (auto intro!: before_head)
        next
          case here
          then show ?thesis using s jm by (auto intro!: before_append before_head)
        next
          case rest
          have "before (schedule parallel (k + 1) [] ts) i j"
            by (rule Cons.IH) (use rest later Cons.prems in auto)
          then show ?thesis unfolding s by (intro before_append before_Cons)
        qed
      next
        case read: False
        then have s: "schedule parallel k batch (t # ts) = schedule parallel (k + 1) (batch @ [k]) ts"
          using False by (simp add: runs_alone_def)
        have "before (schedule parallel (k + 1) (batch @ [k]) ts) i j"
          by (rule Cons.IH) (use ic later read Cons.prems in auto)
        then show ?thesis unfolding s .
      qed
    qed
  qed
qed

section \<open>What a run has done\<close>

fun event_call :: "run_event \<Rightarrow> nat option" where
  "event_call (Start i) = Some i"
| "event_call (End i) = Some i"
| "event_call (Skip i) = Some i"
| "event_call Cancel = None"

definition events_of :: "nat \<Rightarrow> run_event list \<Rightarrow> run_event list" where
  "events_of i evs = filter (\<lambda>e. event_call e = Some i) evs"

lemma events_of_simps [simp]:
  "events_of i [] = []" "events_of i (e # evs) = (if event_call e = Some i then e # events_of i evs else events_of i evs)"
  "events_of i (evs @ evs') = events_of i evs @ events_of i evs'"
  by (simp_all add: events_of_def)

text \<open>All events of \<open>i\<close> come before all events of \<open>j\<close>.\<close>

definition precedes :: "nat \<Rightarrow> nat \<Rightarrow> run_event list \<Rightarrow> bool" where
  "precedes i j evs \<longleftrightarrow> (\<exists>a b. evs = a @ b \<and> events_of j a = [] \<and> events_of i b = [])"

text \<open>Nothing starts after the task was cancelled, and nothing is skipped before.\<close>

definition cancellation_respected :: "run_event list \<Rightarrow> bool" where
  "cancellation_respected evs \<longleftrightarrow>
     (\<forall>a e b. evs = a @ e # b \<longrightarrow> (\<forall>i. e = Start i \<longrightarrow> Cancel \<notin> set a) \<and> (\<forall>i. e = Skip i \<longrightarrow> Cancel \<in> set a))"

lemma precedes_snoc:
  assumes "precedes i j evs" and "event_call e \<noteq> Some i \<or> events_of j evs = [] \<and> i \<noteq> j"
  shows "precedes i j (evs @ [e])"
proof (cases "event_call e = Some i")
  case True
  then show ?thesis using assms(2) unfolding precedes_def by (intro exI[of _ "evs @ [e]"] exI[of _ "[]"]) simp
next
  case False
  obtain a b where "evs = a @ b" "events_of j a = []" "events_of i b = []" using assms(1) by (auto simp: precedes_def)
  then show ?thesis using False unfolding precedes_def by (intro exI[of _ a] exI[of _ "b @ [e]"]) simp
qed

lemma cancellation_snoc:
  assumes "cancellation_respected evs" and "\<And>i. e = Start i \<Longrightarrow> Cancel \<notin> set evs" and "\<And>i. e = Skip i \<Longrightarrow> Cancel \<in> set evs"
  shows "cancellation_respected (evs @ [e])"
  unfolding cancellation_respected_def
proof (intro allI impI)
  fix a f b
  assume eq: "evs @ [e] = a @ f # b"
  show "(\<forall>i. f = Start i \<longrightarrow> Cancel \<notin> set a) \<and> (\<forall>i. f = Skip i \<longrightarrow> Cancel \<in> set a)"
  proof (cases b rule: rev_cases)
    case Nil
    then show ?thesis using eq assms(2,3) by auto
  next
    case (snoc b' x)
    then have "evs = a @ f # b'" using eq by auto
    then show ?thesis using assms(1) unfolding cancellation_respected_def by blast
  qed
qed

fun fits_progress :: "nat \<Rightarrow> progress \<Rightarrow> run_event list \<Rightarrow> bool" where
  "fits_progress i Unpolled evs \<longleftrightarrow> evs = []"
| "fits_progress i InProgress evs \<longleftrightarrow> evs = [Start i]"
| "fits_progress i (Ended out) evs \<longleftrightarrow> evs = [Start i, End i] \<or> evs = [Skip i] \<and> out = cancelled_before_start"

text \<open>The events say how far each call is, respect the cancellation and keep the order of the groups.\<close>

definition events_inv :: "group list \<Rightarrow> batch_run \<Rightarrow> bool" where
  "events_inv gs r \<longleftrightarrow>
     (\<forall>i. fits_progress i (ru_progress r i) (events_of i (ru_events r)))
     \<and> (\<forall>i j. before gs i j \<longrightarrow> precedes i j (ru_events r))
     \<and> (ru_cancelled r \<longleftrightarrow> Cancel \<in> set (ru_events r)) \<and> cancellation_respected (ru_events r)"

text \<open>The groups \<open>prev\<close> are over; of the group \<open>g\<close> the calls \<open>got\<close> have left the window. The empty group stands for the time before the first.\<close>

definition place_inv :: "group list \<Rightarrow> group list \<Rightarrow> group \<Rightarrow> nat list \<Rightarrow> batch_run \<Rightarrow> bool" where
  "place_inv gs prev g got r \<longleftrightarrow>
     Reads [] # gs = prev @ g # ru_groups r \<and> group_members g = got @ ru_window r @ ru_waiting r
     \<and> (\<forall>i \<in> set (flat prev @ got). \<exists>out. ru_progress r i = Ended out \<and> ru_results r i = Some out)
     \<and> (\<forall>i. i \<notin> set (flat prev @ got) \<longrightarrow> ru_results r i = None)
     \<and> (\<forall>i. i \<notin> set (flat prev @ got @ ru_window r) \<longrightarrow> ru_progress r i = Unpolled)"

lemma before_later:
  assumes "distinct (flat gs)" and "gs = prev @ g # rest" and "i \<in> set (group_members g)" and "before gs i j"
  shows "j \<in> set (flat rest)"
proof -
  obtain xs g' ys h where d: "gs = xs @ g' # ys" "i \<in> set (group_members g')" "h \<in> set ys" "j \<in> set (group_members h)"
    using assms(4) by (auto simp: before_def)
  have "prev @ g # rest = xs @ g' # ys" using d(1) assms(2) by simp
  then consider us where "prev = xs @ us" "us @ g # rest = g' # ys" | us where "prev @ us = xs" "g # rest = us @ g' # ys"
    by (auto simp: append_eq_append_conv2)
  then have "ys = rest"
  proof cases
    case 1
    show ?thesis
    proof (cases us)
      case (Cons u us')
      then have "i \<in> set (flat prev)" using 1 d(2) by simp
      then show ?thesis using assms(1-3) by auto
    qed (use 1 in simp)
  next
    case 2
    show ?thesis
    proof (cases us)
      case (Cons u us')
      then have "i \<in> set (flat rest)" using 2 d(2) by auto
      then show ?thesis using assms(1-3) by auto
    qed (use 2 in simp)
  qed
  then show ?thesis using d(3,4) by (auto simp: flat_def)
qed

text \<open>An event of a call in the window.\<close>

lemma window_event:
  assumes inv: "events_inv gs r" and place: "place_inv gs prev g got r" and d: "distinct (flat gs)"
    and i: "i \<in> set (ru_window r)" and e: "event_call e = Some i"
    and r': "r' = r\<lparr>ru_progress := (ru_progress r)(i := p), ru_events := ru_events r @ [e]\<rparr>"
    and fits: "fits_progress i p (events_of i (ru_events r) @ [e])"
    and cancel: "\<And>k. e = Start k \<Longrightarrow> \<not> ru_cancelled r" "\<And>k. e = Skip k \<Longrightarrow> ru_cancelled r"
  shows "events_inv gs r' \<and> place_inv gs prev g got r'"
proof -
  have dg: "distinct (flat (Reads [] # gs))" using d by simp
  have eq: "Reads [] # gs = prev @ g # ru_groups r" and mem: "group_members g = got @ ru_window r @ ru_waiting r"
    using place by (simp_all add: place_inv_def)
  have dd: "distinct (flat prev @ (got @ ru_window r @ ru_waiting r) @ flat (ru_groups r))"
    using dg unfolding eq by (simp only: flat_simps mem)
  have fresh: "i \<notin> set (flat prev @ got)" using dd i by auto
  have later: "events_of j (ru_events r) = [] \<and> i \<noteq> j" if "before gs i j" for j
  proof -
    have "j \<in> set (flat (ru_groups r))" using before_later[OF dg eq, of i j] mem i before_Cons[OF that, of "Reads []"] by simp
    then have "j \<notin> set (flat prev @ got @ ru_window r)" "i \<noteq> j" using dd i by auto
    then have "ru_progress r j = Unpolled" using place unfolding place_inv_def by blast
    then show ?thesis using inv \<open>i \<noteq> j\<close> unfolding events_inv_def by (metis fits_progress.simps(1))
  qed
  have prec: "precedes a b (ru_events r @ [e])" if ab: "before gs a b" for a b
  proof (rule precedes_snoc)
    show "precedes a b (ru_events r)" using inv ab by (simp add: events_inv_def)
    show "event_call e \<noteq> Some a \<or> events_of b (ru_events r) = [] \<and> a \<noteq> b" using later[of b] ab e by (cases "a = i") auto
  qed
  have "fits_progress k (ru_progress r' k) (events_of k (ru_events r'))" for k
    using inv fits e by (simp add: events_inv_def r')
  moreover have "cancellation_respected (ru_events r @ [e])"
    using inv cancel by (intro cancellation_snoc) (auto simp: events_inv_def)
  moreover have "Cancel \<in> set (ru_events r @ [e]) \<longleftrightarrow> ru_cancelled r" using inv e by (auto simp: events_inv_def)
  ultimately have "events_inv gs r'" using prec by (simp add: events_inv_def r')
  moreover have "place_inv gs prev g got r'" using place i fresh by (auto simp: place_inv_def r')
  ultimately show ?thesis by blast
qed

definition run_inv :: "group list \<Rightarrow> batch_run \<Rightarrow> bool" where
  "run_inv gs r \<longleftrightarrow> events_inv gs r \<and> (\<exists>prev g got. place_inv gs prev g got r)"

lemma start_run_inv: "run_inv gs (start_run gs)"
proof -
  have "events_inv gs (start_run gs)"
    by (auto simp: events_inv_def start_run_def precedes_def cancellation_respected_def)
  moreover have "place_inv gs [] (Reads []) [] (start_run gs)" by (simp add: place_inv_def start_run_def)
  ultimately show ?thesis unfolding run_inv_def by blast
qed

lemma batch_step_inv:
  assumes inv: "run_inv gs r" and d: "distinct (flat gs)" and step: "batch_step m r = Some r'"
  shows "run_inv gs r'"
proof -
  obtain prev g got where ev: "events_inv gs r" and pl: "place_inv gs prev g got r" using inv by (auto simp: run_inv_def)
  have fit: "fits_progress i (ru_progress r i) (events_of i (ru_events r))" for i using ev by (simp add: events_inv_def)
  show ?thesis
  proof (cases m)
    case CancelTask
    then have r': "r' = r\<lparr>ru_cancelled := True, ru_events := ru_events r @ [Cancel]\<rparr>" using step by (auto split: if_splits)
    have "precedes a b (ru_events r @ [Cancel])" if "before gs a b" for a b
      using ev that by (intro precedes_snoc) (simp_all add: events_inv_def)
    moreover have "cancellation_respected (ru_events r @ [Cancel])" using ev by (intro cancellation_snoc) (simp_all add: events_inv_def)
    ultimately have "events_inv gs r'" using ev by (simp add: events_inv_def r')
    moreover have "place_inv gs prev g got r'" using pl by (simp add: place_inv_def r')
    ultimately show ?thesis unfolding run_inv_def by blast
  next
    case Admit
    then obtain i rest where w: "ru_waiting r = i # rest" and r': "r' = r\<lparr>ru_waiting := rest, ru_window := ru_window r @ [i]\<rparr>"
      using step by (auto split: list.splits if_splits)
    have "place_inv gs prev g got r'" using pl w by (auto simp: place_inv_def r')
    moreover have "events_inv gs r'" using ev by (simp add: events_inv_def r')
    ultimately show ?thesis unfolding run_inv_def by blast
  next
    case (Poll i)
    then have i: "i \<in> set (ru_window r)" "ru_progress r i = Unpolled" and r': "r' = run_tool_unless_cancelled i r"
      using step by (auto split: if_splits)
    have "events_of i (ru_events r) = []" using fit[of i] i(2) by simp
    then have "events_inv gs r' \<and> place_inv gs prev g got r'"
      using window_event[OF ev pl d i(1), of "Skip i" r' "Ended cancelled_before_start"] window_event[OF ev pl d i(1), of "Start i" r' InProgress]
      by (cases "ru_cancelled r") (simp_all add: r' run_tool_unless_cancelled_def)
    then show ?thesis unfolding run_inv_def by blast
  next
    case (Finish i out)
    then have i: "i \<in> set (ru_window r)" "ru_progress r i = InProgress"
      and r': "r' = r\<lparr>ru_progress := (ru_progress r)(i := Ended out), ru_events := ru_events r @ [End i]\<rparr>"
      using step by (auto split: if_splits)
    have "events_of i (ru_events r) = [Start i]" using fit[of i] i(2) by simp
    then have "events_inv gs r' \<and> place_inv gs prev g got r'"
      using window_event[OF ev pl d i(1), of "End i" r' "Ended out"] r' by simp
    then show ?thesis unfolding run_inv_def by blast
  next
    case Yield
    then obtain i rest out where w: "ru_window r = i # rest" "ru_progress r i = Ended out"
      and r': "r' = r\<lparr>ru_window := rest, ru_results := (ru_results r)(i \<mapsto> out)\<rparr>"
      using step by (auto split: list.splits progress.splits)
    have "place_inv gs prev g (got @ [i]) r'" using pl w by (auto simp: place_inv_def r')
    moreover have "events_inv gs r'" using ev by (simp add: events_inv_def r')
    ultimately show ?thesis unfolding run_inv_def by blast
  next
    case NextGroup
    then obtain h hs where w: "ru_groups r = h # hs" "ru_waiting r = []" "ru_window r = []"
      and r': "r' = r\<lparr>ru_groups := hs, ru_waiting := group_members h\<rparr>"
      using step by (auto split: list.splits if_splits)
    have "place_inv gs (prev @ [g]) h [] r'" using pl w by (auto simp: place_inv_def r')
    moreover have "events_inv gs r'" using ev by (simp add: events_inv_def r')
    ultimately show ?thesis unfolding run_inv_def by blast
  qed
qed

lemma run_moves_inv: "run_moves ms r = Some r' \<Longrightarrow> run_inv gs r \<Longrightarrow> distinct (flat gs) \<Longrightarrow> run_inv gs r'"
proof (induction ms arbitrary: r)
  case (Cons m ms)
  then show ?case using batch_step_inv by (auto split: option.splits)
qed simp

text \<open>When the run is over every call of the groups has its outcome, and no other call has run.\<close>

lemma run_over_outcomes:
  assumes "run_inv gs r" and "run_over r"
  shows "(i \<in> set (flat gs) \<longrightarrow> (\<exists>out. ru_results r i = Some out \<and> fits_progress i (Ended out) (events_of i (ru_events r))))
    \<and> (i \<notin> set (flat gs) \<longrightarrow> ru_results r i = None \<and> events_of i (ru_events r) = [])"
proof -
  obtain prev g got where ev: "events_inv gs r" and pl: "place_inv gs prev g got r" using assms(1) by (auto simp: run_inv_def)
  have w: "ru_groups r = []" "ru_waiting r = []" "ru_window r = []" using assms(2) by (simp_all add: run_over_def)
  have "flat (Reads [] # gs) = flat (prev @ [g])" using pl w by (simp add: place_inv_def del: flat_simps)
  then have all: "flat gs = flat prev @ got" using pl w by (simp add: place_inv_def)
  have fit: "fits_progress i (ru_progress r i) (events_of i (ru_events r))" using ev by (simp add: events_inv_def)
  show ?thesis
  proof (cases "i \<in> set (flat gs)")
    case True
    then obtain out where "ru_progress r i = Ended out" "ru_results r i = Some out"
      using pl unfolding place_inv_def all by blast
    then show ?thesis using fit True by auto
  next
    case False
    then have "ru_progress r i = Unpolled" "ru_results r i = None" using pl w(3) unfolding place_inv_def all by auto
    then show ?thesis using fit False by simp
  qed
qed

text \<open>C25. However the calls of a batch run and whenever the task is cancelled: when the batch is over, every prepared call that
  was not answered at once has either run exactly once or, because the task was cancelled before it could start, been
  skipped exactly once with the output that says so; no other call has run; nothing starts after the cancellation and
  nothing is skipped before; and of two calls of which one is not a plain read the earlier is over before anything happens
  to the later.\<close>

theorem barriers_keep_order:
  assumes "run_moves ms (start_run (batch_schedule parallel tasks)) = Some r" and "run_over r"
  shows "(\<forall>i. executed tasks i \<longrightarrow> (\<exists>out. ru_results r i = Some out
            \<and> (events_of i (ru_events r) = [Start i, End i]
               \<or> events_of i (ru_events r) = [Skip i] \<and> out = cancelled_before_start)))
    \<and> (\<forall>i. \<not> executed tasks i \<longrightarrow> ru_results r i = None \<and> events_of i (ru_events r) = [])
    \<and> cancellation_respected (ru_events r)
    \<and> (\<forall>i j. i < j \<and> executed tasks i \<and> executed tasks j \<and> (runs_alone parallel (tasks ! i) \<or> runs_alone parallel (tasks ! j)) \<longrightarrow>
         precedes i j (ru_events r))"
proof -
  let ?gs = "batch_schedule parallel tasks"
  have d: "distinct (flat ?gs)" by (simp add: batch_schedule_flat)
  have mem: "i \<in> set (flat ?gs) \<longleftrightarrow> executed tasks i" for i by (auto simp: batch_schedule_flat executed_def)
  have inv: "run_inv ?gs r" using run_moves_inv[OF assms(1) start_run_inv d] .
  then have ev: "events_inv ?gs r" by (simp add: run_inv_def)
  have "precedes i j (ru_events r)" if "i < j" "executed tasks i" "executed tasks j"
    "runs_alone parallel (tasks ! i) \<or> runs_alone parallel (tasks ! j)" for i j
  proof -
    have "before ?gs i j" unfolding batch_schedule_def by (rule schedule_before) (use that in auto)
    then show ?thesis using ev by (simp add: events_inv_def)
  qed
  moreover have "cancellation_respected (ru_events r)" using ev by (simp add: events_inv_def)
  ultimately show ?thesis using run_over_outcomes[OF inv assms(2)] unfolding mem by simp
qed

text \<open>A read, a cancellation while it runs, and an edit behind it that is skipped.\<close>

definition read_then_edit :: "tool_task list" where
  "read_then_edit = [\<lparr>tt_name = str ''read_file'', tt_immediate = None\<rparr>, \<lparr>tt_name = str ''edit_file'', tt_immediate = None\<rparr>]"

definition cancelled_moves :: "batch_move list" where
  "cancelled_moves = [NextGroup, Admit, Poll 0, CancelTask, Finish 0 execution_failed, Yield, NextGroup, Admit, Poll 1, Yield]"

lemma barriers_keep_order_witness:
  "case run_moves cancelled_moves (start_run (batch_schedule True read_then_edit)) of
     None \<Rightarrow> False
   | Some r \<Rightarrow> ru_events r = [Start 0, Cancel, End 0, Skip 1] \<and> ru_results r 1 = Some cancelled_before_start \<and> precedes 0 1 (ru_events r)"
proof -
  have c: "case run_moves cancelled_moves (start_run (batch_schedule True read_then_edit)) of
     None \<Rightarrow> False | Some r \<Rightarrow> run_over r \<and> ru_events r = [Start 0, Cancel, End 0, Skip 1]" by code_simp
  then obtain r where r: "run_moves cancelled_moves (start_run (batch_schedule True read_then_edit)) = Some r" "run_over r"
    "ru_events r = [Start 0, Cancel, End 0, Skip 1]" by (auto split: option.splits)
  have a: "runs_alone True (read_then_edit ! 1)" by code_simp
  note run = barriers_keep_order[OF r(1,2)]
  have e: "executed read_then_edit 0" "executed read_then_edit 1" by (simp_all add: executed_def read_then_edit_def)
  have "precedes 0 1 (ru_events r)" using conjunct2[OF conjunct2[OF conjunct2[OF run]], rule_format, of 0 1] a e by simp
  moreover have "ru_results r 1 = Some cancelled_before_start" using conjunct1[OF run, rule_format, OF e(2)] r(3) by auto
  ultimately show ?thesis using r(1,3) by simp
qed

subsection \<open>Runs end\<close>

text \<open>What is left to do: for a call at most four moves, for a group one.\<close>

fun moves_left :: "progress \<Rightarrow> nat" where
  "moves_left Unpolled = 3"
| "moves_left InProgress = 2"
| "moves_left (Ended _) = 1"

definition work_left :: "batch_run \<Rightarrow> nat" where
  "work_left r = (if ru_cancelled r then 0 else 1) + (\<Sum>g \<leftarrow> ru_groups r. 4 * length (group_members g) + 1)
     + 4 * length (ru_waiting r) + (\<Sum>i \<leftarrow> ru_window r. moves_left (ru_progress r i))"

lemma sum_moved:
  assumes "distinct xs" and "i \<in> set xs" and "moves_left q < moves_left (f i)"
  shows "(\<Sum>j \<leftarrow> xs. moves_left ((f(i := q)) j)) < (\<Sum>j \<leftarrow> xs. moves_left (f j))"
proof -
  obtain ys zs where x: "xs = ys @ i # zs" using split_list[OF assms(2)] by blast
  then have "i \<notin> set ys" "i \<notin> set zs" using assms(1) by auto
  then have "(\<Sum>j \<leftarrow> ys. moves_left ((f(i := q)) j)) = (\<Sum>j \<leftarrow> ys. moves_left (f j))"
    "(\<Sum>j \<leftarrow> zs. moves_left ((f(i := q)) j)) = (\<Sum>j \<leftarrow> zs. moves_left (f j))"
    by (auto intro!: arg_cong[where f = sum_list] map_cong)
  then show ?thesis using assms(3) unfolding x by (simp del: fun_upd_apply) simp
qed

lemma window_calls:
  assumes "run_inv gs r" and "distinct (flat gs)"
  shows "distinct (ru_window r) \<and> (\<forall>i \<in> set (ru_waiting r). ru_progress r i = Unpolled)"
proof -
  obtain prev g got where pl: "place_inv gs prev g got r" using assms(1) by (auto simp: run_inv_def)
  then have eq: "Reads [] # gs = prev @ g # ru_groups r" and mem: "group_members g = got @ ru_window r @ ru_waiting r"
    by (simp_all add: place_inv_def)
  have "distinct (flat (Reads [] # gs))" using assms(2) by simp
  then have d: "distinct (flat prev @ (got @ ru_window r @ ru_waiting r) @ flat (ru_groups r))"
    unfolding eq by (simp only: flat_simps mem)
  have "i \<notin> set (flat prev @ got @ ru_window r)" if "i \<in> set (ru_waiting r)" for i using d that by auto
  then show ?thesis using pl d unfolding place_inv_def by auto
qed

lemma batch_step_works:
  assumes inv: "run_inv gs r" and d: "distinct (flat gs)" and step: "batch_step m r = Some r'"
  shows "work_left r' < work_left r"
proof -
  note w = window_calls[OF inv d]
  show ?thesis
  proof (cases m)
    case (Poll i)
    then have i: "i \<in> set (ru_window r)" "ru_progress r i = Unpolled" and r': "r' = run_tool_unless_cancelled i r"
      using step by (auto split: if_splits)
    have "(\<Sum>j \<leftarrow> ru_window r. moves_left (((ru_progress r)(i := q)) j)) < (\<Sum>j \<leftarrow> ru_window r. moves_left (ru_progress r j))"
      if "moves_left q < 3" for q using sum_moved[of "ru_window r" i q "ru_progress r"] w i that by simp
    from this[of InProgress] this[of "Ended cancelled_before_start"] show ?thesis
      by (simp add: r' run_tool_unless_cancelled_def work_left_def del: fun_upd_apply)
  next
    case (Finish i out)
    then have i: "i \<in> set (ru_window r)" "ru_progress r i = InProgress"
      and r': "r' = r\<lparr>ru_progress := (ru_progress r)(i := Ended out), ru_events := ru_events r @ [End i]\<rparr>"
      using step by (auto split: if_splits)
    then show ?thesis using sum_moved[of "ru_window r" i "Ended out" "ru_progress r"] w
      by (simp add: work_left_def del: fun_upd_apply)
  next
    case Admit
    then obtain i rest where a: "ru_waiting r = i # rest" "r' = r\<lparr>ru_waiting := rest, ru_window := ru_window r @ [i]\<rparr>"
      using step by (auto split: list.splits if_splits)
    then show ?thesis using w by (simp add: work_left_def)
  qed (use step in \<open>auto simp: work_left_def split: list.splits progress.splits if_splits\<close>)
qed

text \<open>A run that is not over can move without a cancellation: a call that runs may end, with whatever output.\<close>

lemma batch_step_possible:
  assumes "\<not> run_over r"
  shows "\<exists>m r'. m \<noteq> CancelTask \<and> batch_step m r = Some r'"
proof (cases "ru_window r")
  case Nil
  show ?thesis
  proof (cases "ru_waiting r")
    case waiting: Nil
    then obtain g gs where "ru_groups r = g # gs" using assms Nil by (cases "ru_groups r") (auto simp: run_over_def)
    then have "batch_step NextGroup r \<noteq> None" using Nil waiting by simp
    then show ?thesis by (metis batch_move.distinct(9) option.exhaust)
  next
    case (Cons i rest)
    then have "batch_step Admit r \<noteq> None" using Nil by simp
    then show ?thesis by (metis batch_move.distinct(1) option.exhaust)
  qed
next
  case (Cons i rest)
  have "batch_step (Poll i) r \<noteq> None \<or> batch_step (Finish i execution_failed) r \<noteq> None \<or> batch_step Yield r \<noteq> None"
    using Cons by (cases "ru_progress r i") auto
  then show ?thesis by (metis batch_move.distinct(3,5,7) option.exhaust)
qed

text \<open>A batch always comes to its end: a run makes at most five moves for each of its tasks and one for a cancellation, at
  most \<open>DEFAULT_TOOL_CONCURRENCY\<close> calls are in flight at any time, and as long as the batch is not over something other than a
  cancellation can happen.\<close>

theorem batch_runs_end:
  assumes "run_moves ms (start_run (batch_schedule parallel tasks)) = Some r"
  shows "length ms \<le> 5 * length tasks + 1 \<and> length (ru_window r) \<le> DEFAULT_TOOL_CONCURRENCY
    \<and> (\<not> run_over r \<longrightarrow> (\<exists>m r'. m \<noteq> CancelTask \<and> batch_step m r = Some r'))"
proof -
  let ?gs = "batch_schedule parallel tasks"
  have d: "distinct (flat ?gs)" by (simp add: batch_schedule_flat)
  have "length ms + work_left r \<le> work_left s \<and> length (ru_window r) \<le> 12"
    if "run_moves ms s = Some r" "run_inv ?gs s" "length (ru_window s) \<le> 12" for s
    using that
  proof (induction ms arbitrary: s)
    case (Cons m ms)
    obtain s' where s': "batch_step m s = Some s'" "run_moves ms s' = Some r" using Cons.prems(1) by (auto split: option.splits)
    have "length (ru_window s') \<le> 12" using s'(1) Cons.prems(3)
      by (cases m) (auto simp: run_tool_unless_cancelled_def split: if_splits list.splits progress.splits)
    from Cons.IH[OF s'(2) batch_step_inv[OF Cons.prems(2) d s'(1)] this] batch_step_works[OF Cons.prems(2) d s'(1)] show ?case by simp
  qed simp
  from this[OF assms start_run_inv] have b: "length ms \<le> work_left (start_run ?gs) \<and> length (ru_window r) \<le> 12"
    by (simp add: start_run_def)
  have groups: "group_members g \<noteq> []" if "g \<in> set (schedule parallel k batch ts)" for g k batch ts
    using that by (induction ts arbitrary: k batch) (auto simp: flush_reads_def split: if_splits)
  have "(\<Sum>g \<leftarrow> gs. 4 * length (group_members g) + 1) \<le> 5 * length (flat gs)" if "\<forall>g \<in> set gs. group_members g \<noteq> []" for gs
    using that
  proof (induction gs)
    case (Cons g gs)
    then have "1 \<le> length (group_members g)" by (cases "group_members g") auto
    then show ?case using Cons by simp
  qed simp
  then have "(\<Sum>g \<leftarrow> ?gs. 4 * length (group_members g) + 1) \<le> 5 * length (flat ?gs)" using groups by (simp add: batch_schedule_def)
  moreover have "length (flat ?gs) \<le> length tasks"
    unfolding batch_schedule_flat using length_filter_le[of "executed tasks" "[0..<length tasks]"] by simp
  ultimately have "work_left (start_run ?gs) \<le> 5 * length tasks + 1" by (simp add: work_left_def start_run_def)
  then show ?thesis using b batch_step_possible by auto
qed

lemma batch_runs_end_witness:
  "length cancelled_moves \<le> 11 \<and> run_moves cancelled_moves (start_run (batch_schedule True read_then_edit)) \<noteq> None"
proof -
  have "run_moves cancelled_moves (start_run (batch_schedule True read_then_edit)) \<noteq> None" by code_simp
  then obtain r where r: "run_moves cancelled_moves (start_run (batch_schedule True read_then_edit)) = Some r" by auto
  from batch_runs_end[OF r] show ?thesis using r by (simp add: read_then_edit_def)
qed

section \<open>Results\<close>

lemma pair_outcomes_aligned:
  assumes "\<And>i. i \<in> set is \<Longrightarrow> (immediate i = None) = (results i \<noteq> None)"
  shows "pair_outcomes (map immediate is) (List.map_filter results is)
    = map (\<lambda>i. case immediate i of Some out \<Rightarrow> out | None \<Rightarrow> the (results i)) is"
  using assms
proof (induction "is")
  case (Cons i "is")
  have "(immediate i = None) = (results i \<noteq> None)" using Cons.prems[of i] by simp
  moreover have "pair_outcomes (map immediate is) (List.map_filter results is)
      = map (\<lambda>i. case immediate i of Some out \<Rightarrow> out | None \<Rightarrow> the (results i)) is"
    using Cons by simp
  ultimately show ?case by (cases "immediate i"; cases "results i") (simp_all add: map_filter_simps)
qed simp

text \<open>When every call that was not answered at once has run, each call gets its own result, in the order of the
  calls, and the failures counted are those of the results.\<close>

theorem results_paired:
  assumes "\<forall>i < n. (immediate i = None) = (results i \<noteq> None)"
  shows "fst (collect_ordered_outcomes immediate results n)
      = map (\<lambda>i. case immediate i of Some out \<Rightarrow> out | None \<Rightarrow> the (results i)) [0..<n]
    \<and> snd (snd (collect_ordered_outcomes immediate results n))
      = length (filter to_is_error (fst (collect_ordered_outcomes immediate results n)))"
proof -
  let ?f = "\<lambda>i. case immediate i of Some out \<Rightarrow> out | None \<Rightarrow> the (results i)"
  have p: "fst (collect_ordered_outcomes immediate results n) = map ?f [0..<n]"
    using pair_outcomes_aligned[of "[0..<n]" immediate results] assms by (simp add: collect_ordered_outcomes_def)
  have "filter (\<lambda>i. case immediate i of Some out \<Rightarrow> to_is_error out
      | None \<Rightarrow> (case results i of Some out \<Rightarrow> to_is_error out | None \<Rightarrow> True)) [0..<n]
    = filter (\<lambda>i. to_is_error (?f i)) [0..<n]"
    using assms by (intro filter_cong refl) (auto split: option.split)
  then have "snd (snd (collect_ordered_outcomes immediate results n)) = length (filter to_is_error (map ?f [0..<n]))"
    by (simp add: collect_ordered_outcomes_def count_failures_def filter_map o_def)
  then show ?thesis using p by simp
qed

lemma results_paired_witness:
  "let imm = (\<lambda>i::nat. if i = 0 then Some execution_failed else None); res = (\<lambda>i::nat. if i = 0 then None else Some \<lparr>to_text = [], to_is_error = False\<rparr>) in
   fst (collect_ordered_outcomes imm res 2) = map (\<lambda>i. case imm i of Some out \<Rightarrow> out | None \<Rightarrow> the (res i)) [0..<2]
   \<and> snd (snd (collect_ordered_outcomes imm res 2)) = length (filter to_is_error (fst (collect_ordered_outcomes imm res 2)))"
  unfolding Let_def by (rule results_paired) (simp add: less_2_cases_iff)

text \<open>Were a result missing, the next one would be taken for it and its own call would fail.\<close>

lemma missing_result_shifts:
  "fst (collect_ordered_outcomes (\<lambda>_. None) (\<lambda>i. if i = 1 then Some \<lparr>to_text = str ''b'', to_is_error = False\<rparr> else None) 2)
   = [\<lparr>to_text = str ''b'', to_is_error = False\<rparr>, execution_failed]"
  by code_simp

end
