(* ===== verification/EditBatch.thy ===== *)
theory EditBatch
  imports EditApply
begin

text \<open>
  Batches of edits, \<open>src/core/edit_batch.rs\<close>: grouping of edits by file, validation, preparation, application and
  the report to the model, with the recovery guidance of \<open>core/tools/handlers/error_guidance.rs\<close>. A report is
  \<open>None\<close> where the source indexes or slices out of range. The text is the one without colours, which the
  handler produces when the output is no terminal. \<open>dbg\<close> is the escaping of \<open>{:?}\<close>, \<open>alnum\<close> the class of
  \<open>char::is_alphanumeric\<close> and \<open>sha_hex\<close> the hexadecimal SHA-256 of a text.
\<close>

section \<open>Batches and results\<close>

record file_edit_batch =
  fb_absolute_path :: ustr
  fb_display_path :: ustr
  fb_edits :: "edit list"

definition is_pure_block :: "file_edit_batch \<Rightarrow> bool" where
  "is_pure_block b \<longleftrightarrow> fb_edits b \<noteq> [] \<and> list_all (\<lambda>e. ed_old_text e \<noteq> None) (fb_edits b)"

record prepared_edits =
  pe_provenance :: splice_provenance
  pe_content :: ustr
  pe_final_content :: ustr
  pe_diff :: ustr
  pe_resolved :: "resolved_edit list"
  pe_failed :: "failed_edit list"
  pe_applied :: "applied_edit list"
  pe_lines :: "ustr list"
  pe_line_hashes :: "ustr list"
  pe_final_lines :: "ustr list"

record diagnostics_result =
  fixed_count :: nat
  new_problems_message :: ustr

record batch_result =
  br_success :: bool
  br_final_content :: "ustr option"
  br_resolved_count :: nat
  br_failed_count :: nat
  br_withheld_count :: nat
  br_overlap :: bool
  br_lines_added :: "32 word"
  br_lines_removed :: "32 word"
  br_unchanged_sites :: "unchanged_site list"
  br_glued_anchor_lines :: "nat list"
  br_duplicate_insertions :: "failed_edit list"

datatype diff_mode = Full | AdditionsOnly

section \<open>Grouping by file\<close>

text \<open>\<open>resolve\<close> resolves a path of the model; the map holds the index of the batch of every absolute path.\<close>

fun group_entries ::
  "(ustr \<Rightarrow> ustr option) \<Rightarrow> file_edit_batch list \<Rightarrow> (ustr \<Rightarrow> nat option) \<Rightarrow> (ustr \<times> edit list) list \<Rightarrow> file_edit_batch list" where
  "group_entries resolve batches seen [] = batches"
| "group_entries resolve batches seen ((display, edits) # entries) =
     (case resolve display of
        None \<Rightarrow> group_entries resolve batches seen entries
      | Some path \<Rightarrow>
          (case seen path of
             Some i \<Rightarrow>
               group_entries resolve
                 (batches[i := (batches ! i)\<lparr>fb_edits := fb_edits (batches ! i) @ edits\<rparr>]) seen entries
           | None \<Rightarrow>
               group_entries resolve
                 (batches @ [\<lparr>fb_absolute_path = path, fb_display_path = display, fb_edits = edits\<rparr>])
                 (seen(path \<mapsto> length batches)) entries))"

definition group_edits_by_path :: "(ustr \<Rightarrow> ustr option) \<Rightarrow> (ustr \<times> edit list) list \<Rightarrow> file_edit_batch list" where
  "group_edits_by_path resolve entries = group_entries resolve [] Map.empty entries"

section \<open>Validation and preparation\<close>

abbreviation MAX_FINGERPRINT_CONTENT_LINES :: nat where "MAX_FINGERPRINT_CONTENT_LINES \<equiv> 4096"
abbreviation MAX_FINGERPRINT_CONTENT_BYTES :: nat where "MAX_FINGERPRINT_CONTENT_BYTES \<equiv> 1048576"

text \<open>The sum of the lengths is checked in the source and becomes the largest number on overflow, which is
  beyond the limit like the true sum.\<close>

definition validate_edit :: "edit \<Rightarrow> file_editor_error + unit" where
  "validate_edit e =
     (let has_end_anchor = ed_end_anchor e \<noteq> None;
          is_replace = (ed_edit_type e = str ''replace'' \<or> ed_edit_type e = [])
      in if ed_old_text e = None \<and> ed_anchor e = []
         then Inl (ValidationError (str ''Each edit must contain '' @ [39] @ str ''anchor'' @ [39] @ str '' or ''
           @ [39] @ str ''old_text'' @ [39] @ str ''.''))
         else if ed_content e \<noteq> None \<and> \<not> (is_replace \<and> has_end_anchor)
         then Inl (ValidationError (str ''The '' @ [39] @ str ''content'' @ [39]
           @ str '' field is only valid for replace edits with an '' @ [39] @ str ''end_anchor'' @ [39]
           @ str '' (multi-line fingerprint shape). Remove '' @ [39] @ str ''content'' @ [39] @ str '', or add ''
           @ [39] @ str ''end_anchor'' @ [39] @ str '' to make it a multi-line replace.''))
         else case ed_content e of
             None \<Rightarrow> Inr ()
           | Some content \<Rightarrow>
               if MAX_FINGERPRINT_CONTENT_LINES < length content
               then Inl (ValidationError (str ''The '' @ [39] @ str ''content'' @ [39] @ str '' fingerprint is limited to ''
                 @ show_nat MAX_FINGERPRINT_CONTENT_LINES
                 @ str '' lines; use a narrower anchor range or write_to_file for a broad rewrite.''))
               else if MAX_FINGERPRINT_CONTENT_BYTES < sum_list (map byte_len content)
               then Inl (ValidationError (str ''The '' @ [39] @ str ''content'' @ [39] @ str '' fingerprint is limited to ''
                 @ show_nat MAX_FINGERPRINT_CONTENT_BYTES
                 @ str '' bytes; use a narrower anchor range or write_to_file for a broad rewrite.''))
               else Inr ())"

text \<open>The message of the only error the validation gives.\<close>

definition error_text :: "file_editor_error \<Rightarrow> ustr" where
  "error_text e = (case e of ValidationError m \<Rightarrow> str ''Edit validation failed: '' @ m | _ \<Rightarrow> [])"

fun validation_failures :: "(ustr \<Rightarrow> ustr) \<Rightarrow> edit list \<Rightarrow> ustr list" where
  "validation_failures dbg [] = []"
| "validation_failures dbg (e # es) =
     (case validate_edit e of
        Inl err \<Rightarrow> format_failure_message dbg e (Some (error_text err)) # validation_failures dbg es
      | Inr _ \<Rightarrow> validation_failures dbg es)"

definition paragraphs :: "ustr list \<Rightarrow> ustr" where
  "paragraphs ms = join [nl, nl] ms"

definition prepare_edits ::
  "(ustr \<Rightarrow> ustr) \<Rightarrow> ustr \<Rightarrow> edit list \<Rightarrow> ustr list \<Rightarrow> (file_editor_error + prepared_edits) option" where
  "prepare_edits dbg content edits line_hashes =
     (let ls = split_content_lines content; failures = validation_failures dbg edits
      in if failures \<noteq> []
         then Some (Inl (validation_batch_rejected (paragraphs failures) (length failures) (length edits - length failures)))
         else case resolve_edits dbg edits ls line_hashes of
             None \<Rightarrow> None
           | Some (resolved, failed) \<Rightarrow>
               if failed \<noteq> [] \<and> resolved = []
               then Some (Inl (atomic_batch_rejected
                 (paragraphs (map (\<lambda>f. format_failure_message dbg (fe_edit f) (Some (fe_error f))) failed))
                 (length failed) 0))
               else Some (Inr
                 \<lparr>pe_provenance = \<lparr>origins = [], edit_ranges = []\<rparr>, pe_content = content, pe_final_content = content,
                  pe_diff = [], pe_resolved = resolved, pe_failed = failed, pe_applied = [], pe_lines = ls,
                  pe_line_hashes = line_hashes, pe_final_lines = []\<rparr>))"

section \<open>The diff of a batch\<close>

definition diff_addition :: "ustr \<Rightarrow> ustr" where
  "diff_addition s = str ''+ '' @ s"

definition diff_removal :: "ustr \<Rightarrow> ustr" where
  "diff_removal s = str ''- '' @ s"

definition diff_context :: "ustr \<Rightarrow> ustr" where
  "diff_context s = str ''  '' @ s"

definition clean_lines :: "edit \<Rightarrow> ustr list" where
  "clean_lines e = (let clean_text = strip_hashes (ed_text e) in if clean_text = [] then [] else split_content_lines clean_text)"

text \<open>The lines an entry searches and those it puts in their place.\<close>

definition search_and_replace :: "ustr list \<Rightarrow> nat \<Rightarrow> nat \<Rightarrow> edit \<Rightarrow> ustr list \<times> ustr list" where
  "search_and_replace ls start_i end_i e =
     (if ed_edit_type e = str ''insert_after'' then ([ls ! start_i], ls ! start_i # clean_lines e)
      else if ed_edit_type e = str ''insert_before'' then ([ls ! start_i], clean_lines e @ [ls ! start_i])
      else (slice start_i (end_i + 1 - start_i) ls, clean_lines e))"

definition diff_entry :: "ustr list \<Rightarrow> nat \<times> nat \<times> edit \<Rightarrow> ustr" where
  "diff_entry ls entry =
     (case entry of (start_i, end_i, e) \<Rightarrow>
        if length ls \<le> start_i \<or> end_i < start_i \<or> length ls \<le> end_i then []
        else case search_and_replace ls start_i end_i e of (search_lines, replace_lines) \<Rightarrow>
          str ''<<<<<<< SEARCH'' @ [nl]
          @ concat (map (\<lambda>l. diff_removal l @ [nl]) search_lines)
          @ str ''======='' @ [nl]
          @ concat (map (\<lambda>l. diff_addition l @ [nl]) replace_lines)
          @ str ''>>>>>>> REPLACE'' @ [nl, nl])"

definition generate_diff_for_entries :: "ustr \<Rightarrow> ustr list \<Rightarrow> (nat \<times> nat \<times> edit) list \<Rightarrow> ustr" where
  "generate_diff_for_entries display_path ls entries =
     str ''Update File: '' @ display_path @ [nl, nl] @ concat (map (diff_entry ls) entries)"

definition generate_diff :: "ustr \<Rightarrow> prepared_edits \<Rightarrow> ustr" where
  "generate_diff display_path p =
     generate_diff_for_entries display_path (pe_lines p)
       (map (\<lambda>a. (original_start_idx a, original_end_idx a, ae_edit a)) (pe_applied p))"

definition generate_diff_preview :: "ustr \<Rightarrow> prepared_edits \<Rightarrow> ustr" where
  "generate_diff_preview display_path p =
     generate_diff_for_entries display_path (pe_lines p)
       (map (\<lambda>r. (line_idx r, end_idx r, re_edit r)) (pe_resolved p))"

section \<open>Application\<close>

definition rejected_result :: "nat \<Rightarrow> nat \<Rightarrow> nat \<Rightarrow> batch_result" where
  "rejected_result resolved failed withheld =
     \<lparr>br_success = False, br_final_content = None, br_resolved_count = resolved, br_failed_count = failed,
      br_withheld_count = withheld, br_overlap = False, br_lines_added = 0, br_lines_removed = 0,
      br_unchanged_sites = [], br_glued_anchor_lines = [], br_duplicate_insertions = []\<rparr>"

definition apply_batch ::
  "(uchar \<Rightarrow> bool) \<Rightarrow> (ustr \<Rightarrow> ustr) \<Rightarrow> ustr \<Rightarrow> prepared_edits \<Rightarrow> (batch_result \<times> prepared_edits) option" where
  "apply_batch alnum dbg display_path batch =
     (let n = length (pe_resolved batch) in
      case apply_edits_with_provenance alnum dbg (pe_lines batch) (pe_resolved batch) of
        None \<Rightarrow> None
      | Some (outcome, provenance) \<Rightarrow>
          (case outcome of
             Overlap \<Rightarrow> Some ((rejected_result n n 0)\<lparr>br_overlap := True\<rparr>, batch)
           | GluedAnchor glued \<Rightarrow> Some ((rejected_result n n 0)\<lparr>br_glued_anchor_lines := glued\<rparr>, batch)
           | DuplicateInsertion failed \<Rightarrow>
               Some ((rejected_result n (length failed) (n - length failed))\<lparr>br_duplicate_insertions := failed\<rparr>, batch)
           | Applied final_lines added_count removed_count applied sites \<Rightarrow>
               let assembled = batch\<lparr>pe_provenance := provenance, pe_final_lines := final_lines,
                     pe_final_content := join [nl] final_lines, pe_applied := applied\<rparr>;
                   finished = assembled\<lparr>pe_diff := generate_diff display_path assembled\<rparr>
               in Some (\<lparr>br_success = True, br_final_content = Some (pe_final_content finished),
                         br_resolved_count = length applied, br_failed_count = length (pe_failed batch),
                         br_withheld_count = 0, br_overlap = False, br_lines_added = word_of_nat added_count,
                         br_lines_removed = word_of_nat removed_count, br_unchanged_sites = sites,
                         br_glued_anchor_lines = [], br_duplicate_insertions = []\<rparr>, finished)))"

section \<open>Recovery guidance\<close>

definition with_attempts :: "ustr \<Rightarrow> ustr \<Rightarrow> ustr \<Rightarrow> nat \<Rightarrow> ustr" where
  "with_attempts base second later consecutive_failures =
     (if consecutive_failures \<le> 1 then base
      else if consecutive_failures = 2 then base @ str '' This is the second failed attempt. '' @ second
      else base @ str '' This has failed '' @ show_nat consecutive_failures @ str '' times in a row. '' @ later)"

definition edit_failure_base :: "edit_failure_reason \<Rightarrow> ustr" where
  "edit_failure_base reason = (case reason of
     InvalidEditInput \<Rightarrow> str ''Correct the edit parameters described in the validation error and retry. This is not a stale-anchor failure; re-reading is not required for this validation error.''
   | MissingAnchor \<Rightarrow> str ''The edit anchor is missing or malformed. Use a complete single-line anchor copied from the latest read_file output (form `<id>'' @ [delim] @ str ''<source>`).''
   | UnknownAnchor \<Rightarrow> str ''The anchor is unknown or stale. Re-read the target file and copy fresh anchors; do not reuse the failed anchor.''
   | DuplicateContent \<Rightarrow> str ''The anchor content is duplicated. For a replace, provide unique anchor and end_anchor values plus the exact interior lines in the content array; use write_to_file for a broad rewrite.''
   | WhitespaceMismatch \<Rightarrow> str ''The anchor differs only in whitespace. Copy the line exactly, preserving every leading and trailing space; re-reading is not required for this specific error.''
   | RangeOverlap \<Rightarrow> str ''The requested edit ranges overlap. Split them into separate tool calls or make every range non-overlapping.''
   | ReasonGluedAnchor \<Rightarrow> str ''The assembled replacement joined anchored lines together. Re-read the file and preserve each physical line break; do not paste multiple anchors into one line.''
   | ReasonDuplicateInsertion \<Rightarrow> str ''The insertion would duplicate content already beside its anchor or repeat the anchored line. Do not re-read or retry the same insertion; use replace with anchor and end_anchor when wrapping existing code.'')"

definition edit_failure :: "edit_failure_reason \<Rightarrow> nat \<Rightarrow> ustr" where
  "edit_failure reason consecutive_failures =
     with_attempts (edit_failure_base reason)
       (str ''Stop retrying the same arguments and follow that recovery step before trying again.'')
       (str ''Stop retrying the same edit arguments; switch to the stated alternative or ask the user for clarification.'')
       consecutive_failures"

definition edit_failure_for_diagnostic :: "ustr \<Rightarrow> nat \<Rightarrow> ustr" where
  "edit_failure_for_diagnostic diagnostic consecutive_failures =
     (case from_diagnostics diagnostic of
        [reason] \<Rightarrow> edit_failure reason consecutive_failures
      | reasons \<Rightarrow>
          with_attempts
            (str ''Multiple edit failure types were detected ('' @ join (str '', '') (map label reasons)
             @ str ''). Correct each individual diagnostic with its matching recovery strategy; do not retry the whole batch unchanged.'')
            (str ''Split the corrections into focused edits and follow each diagnostic'' @ [39] @ str ''s recovery instructions before retrying.'')
            (str ''Stop retrying the same edit arguments; switch to the stated alternatives or ask the user for clarification.'')
            consecutive_failures)"

section \<open>The report\<close>

text \<open>The numbers of added and removed anchors; the order of the hash table does not matter for the sums.\<close>

definition hash_count :: "ustr list \<Rightarrow> ustr list \<Rightarrow> ustr \<Rightarrow> int" where
  "hash_count original final h = int (count_list original h) - int (count_list final h)"

definition add_change :: "nat \<times> nat \<Rightarrow> int \<Rightarrow> nat \<times> nat" where
  "add_change acc c = (case acc of (added, removed) \<Rightarrow>
     if c < 0 then (added + nat (- c), removed) else (added, removed + nat c))"

definition count_line_hash_changes :: "ustr list \<Rightarrow> ustr list \<Rightarrow> nat \<times> nat" where
  "count_line_hash_changes original final =
     foldl add_change (0, 0) (map (hash_count original final) (remdups (original @ final)))"

text \<open>Indexing and slicing that may leave the list.\<close>

definition nth_opt :: "'a list \<Rightarrow> nat \<Rightarrow> 'a option" where
  "nth_opt xs i = (if i < length xs then Some (xs ! i) else None)"

definition slice_opt :: "'a list \<Rightarrow> nat \<Rightarrow> nat \<Rightarrow> 'a list option" where
  "slice_opt xs i j = (if i \<le> j \<and> j \<le> length xs then Some (slice i (j - i) xs) else None)"

definition anchored :: "ustr list \<Rightarrow> ustr list \<Rightarrow> nat \<Rightarrow> ustr option" where
  "anchored ls hashes i =
     (case nth_opt ls i of
        None \<Rightarrow> None
      | Some l \<Rightarrow> (case nth_opt hashes i of None \<Rightarrow> None | Some h \<Rightarrow> Some (format_line_with_hash l h)))"

text \<open>The last new line of an edit, when it added one inside the file.\<close>

definition final_range_end :: "ustr list \<Rightarrow> applied_edit \<Rightarrow> nat option" where
  "final_range_end final_lines a =
     (if 0 < lines_added a \<and> start_idx a < length final_lines
      then Some (min (ae_end_idx a) (length final_lines - 1)) else None)"

definition new_hashes :: "ustr list \<Rightarrow> ustr list \<Rightarrow> applied_edit \<Rightarrow> ustr list option" where
  "new_hashes final_lines final_hashes a =
     (case final_range_end final_lines a of
        None \<Rightarrow> Some []
      | Some e \<Rightarrow> slice_opt final_hashes (start_idx a) (e + 1))"

definition old_hashes :: "prepared_edits \<Rightarrow> applied_edit \<Rightarrow> ustr list option" where
  "old_hashes p a = slice_opt (pe_line_hashes p) (original_start_idx a) (original_start_idx a + lines_deleted a)"

definition after_range :: "ustr list \<Rightarrow> applied_edit \<Rightarrow> nat list" where
  "after_range final_lines a =
     (if final_lines = [] then []
      else [start_idx a + lines_added a..<min (length final_lines - 1) (start_idx a + lines_added a + 2) + 1])"

text \<open>The lines of a block: context before, removed lines, new lines, context after. The two styles differ in
  how they write them.\<close>

definition context_lines :: "(ustr \<Rightarrow> ustr) \<Rightarrow> ustr list \<Rightarrow> ustr list \<Rightarrow> nat list \<Rightarrow> ustr list option" where
  "context_lines style final_lines final_hashes is = those (map (\<lambda>i. map_option style (anchored final_lines final_hashes i)) is)"

definition removed_lines :: "prepared_edits \<Rightarrow> ustr list \<Rightarrow> applied_edit \<Rightarrow> ustr list option" where
  "removed_lines p news a =
     map_option concat (those (map (\<lambda>i. case nth_opt (pe_line_hashes p) i of
          None \<Rightarrow> None
        | Some h \<Rightarrow> if h \<in> set news then Some []
            else map_option (\<lambda>l. [diff_removal l]) (anchored (pe_lines p) (pe_line_hashes p) i))
       [original_start_idx a..<original_start_idx a + lines_deleted a]))"

definition new_lines :: "(ustr \<Rightarrow> ustr) \<Rightarrow> (ustr \<Rightarrow> ustr) \<Rightarrow> ustr list \<Rightarrow> ustr list \<Rightarrow> ustr list \<Rightarrow> applied_edit \<Rightarrow> ustr list option" where
  "new_lines kept added final_lines final_hashes olds a =
     (case final_range_end final_lines a of
        None \<Rightarrow> Some []
      | Some e \<Rightarrow>
          those (map (\<lambda>i. case nth_opt final_hashes i of
              None \<Rightarrow> None
            | Some h \<Rightarrow> map_option (if h \<in> set olds then kept else added) (anchored final_lines final_hashes i))
          [start_idx a..<e + 1]))"

definition joined_parts :: "ustr list option list \<Rightarrow> ustr option" where
  "joined_parts parts = map_option (\<lambda>ps. join [nl] (concat ps)) (those parts)"

definition get_diff_block :: "prepared_edits \<Rightarrow> ustr list \<Rightarrow> ustr list \<Rightarrow> applied_edit \<Rightarrow> ustr option" where
  "get_diff_block p final_lines final_hashes a =
     (case new_hashes final_lines final_hashes a of
        None \<Rightarrow> None
      | Some news \<Rightarrow>
          (case old_hashes p a of
             None \<Rightarrow> None
           | Some olds \<Rightarrow>
               joined_parts
                 [context_lines diff_context final_lines final_hashes [start_idx a - 3..<start_idx a],
                  removed_lines p news a,
                  new_lines diff_context diff_addition final_lines final_hashes olds a,
                  context_lines diff_context final_lines final_hashes (after_range final_lines a)]))"

definition anchor_name_of :: "ustr \<Rightarrow> ustr" where
  "anchor_name_of s = takeWhile (\<lambda>c. c \<noteq> delim) s"

definition deletion_summary :: "prepared_edits \<Rightarrow> ustr list \<Rightarrow> applied_edit \<Rightarrow> ustr list option" where
  "deletion_summary p news a =
     map_option (\<lambda>hs. let n = length (filter (\<lambda>h. h \<notin> set news) hs) in
          if n = 0 then []
          else [show_nat n @ str '' lines between '' @ anchor_name_of (ed_anchor (ae_edit a)) @ str '' and ''
                @ anchor_name_of (case ed_end_anchor (ae_edit a) of Some s \<Rightarrow> s | None \<Rightarrow> []) @ str '' have been deleted''])
       (those (map (nth_opt (pe_line_hashes p)) [original_start_idx a..<original_start_idx a + lines_deleted a]))"

definition get_addition_only_diff_block :: "prepared_edits \<Rightarrow> ustr list \<Rightarrow> ustr list \<Rightarrow> applied_edit \<Rightarrow> ustr option" where
  "get_addition_only_diff_block p final_lines final_hashes a =
     (case new_hashes final_lines final_hashes a of
        None \<Rightarrow> None
      | Some news \<Rightarrow>
          (case old_hashes p a of
             None \<Rightarrow> None
           | Some olds \<Rightarrow>
               joined_parts
                 [context_lines (\<lambda>l. 32 # l) final_lines final_hashes [start_idx a - 3..<start_idx a],
                  deletion_summary p news a,
                  new_lines (\<lambda>l. 32 # l) (\<lambda>l. 43 # l) final_lines final_hashes olds a,
                  context_lines (\<lambda>l. 32 # l) final_lines final_hashes (after_range final_lines a)]))"

text \<open>The report on one applied edit with its anchors counted, and on all of them.\<close>

definition applied_report ::
  "(ustr \<Rightarrow> ustr) \<Rightarrow> diff_mode \<Rightarrow> prepared_edits \<Rightarrow> ustr list \<Rightarrow> ustr list \<Rightarrow> applied_edit \<Rightarrow> ((nat \<times> nat) \<times> ustr) option" where
  "applied_report dbg mode p final_lines final_hashes a =
     (case (old_hashes p a, slice_opt final_hashes (start_idx a) (start_idx a + lines_added a)) of
        (Some old, Some new) \<Rightarrow>
          (case (if mode = AdditionsOnly then get_addition_only_diff_block p final_lines final_hashes a
                 else get_diff_block p final_lines final_hashes a) of
             None \<Rightarrow> None
           | Some block \<Rightarrow> Some (count_line_hash_changes old new, describe_edit dbg (ae_edit a) @ str '' applied:'' @ [nl] @ block))
      | _ \<Rightarrow> None)"

definition failure_report :: "(ustr \<Rightarrow> ustr) \<Rightarrow> nat \<Rightarrow> failed_edit \<Rightarrow> ustr" where
  "failure_report dbg consecutive_failures f =
     format_failure_message dbg (fe_edit f) (Some (fe_error f)) @ [nl] @ str ''Recovery: ''
     @ edit_failure_for_diagnostic (fe_error f) consecutive_failures"

definition anchor_note :: "ustr list \<Rightarrow> ustr list \<Rightarrow> ustr" where
  "anchor_note old_lines final_lines =
     (if 5000 < length final_lines
      then str ''All previous anchors expired. The new large-file snapshot anchors expire after any edit, including anchors for untouched lines; use newly returned anchors or read_file again.''
      else if 5000 < length old_lines
      then str ''All previous large-file snapshot anchors expired. This file now has new tracked anchors; use the anchors shown or read_file for lines not shown.''
      else str ''Untouched lines retain their anchors; inserted or replaced lines have new anchors. Deleted or replaced anchors are retired. Use the shown anchors for changed lines.'')"

definition counted_note :: "nat \<Rightarrow> string \<Rightarrow> ustr" where
  "counted_note n tail_text = (if n = 0 then [] else 32 # show_nat n @ str tail_text)"

definition summary :: "(ustr \<Rightarrow> ustr) \<Rightarrow> prepared_edits \<Rightarrow> ustr list \<Rightarrow> nat \<times> nat \<Rightarrow> ustr" where
  "summary sha_hex p final_lines totals =
     (let unchanged_note = counted_note (length (pe_resolved p) - length (pe_applied p)) '' edit(s) already matched the file.'';
          failure_note = counted_note (length (pe_failed p)) '' edit(s) failed.''
      in if pe_applied p = [] then str ''No changes applied.'' @ unchanged_note @ failure_note
         else str ''Applied '' @ show_nat (length (pe_applied p)) @ str '' edit(s) successfully (+'' @ show_nat (fst totals)
           @ str '', -'' @ show_nat (snd totals) @ str '' lines). [Revision: sha256:'' @ sha_hex (pe_final_content p)
           @ str ''] '' @ anchor_note (pe_lines p) final_lines @ unchanged_note @ failure_note)"

definition diagnostics_notes :: "diagnostics_result option \<Rightarrow> ustr list" where
  "diagnostics_notes diagnostics =
     (case diagnostics of
        None \<Rightarrow> []
      | Some d \<Rightarrow>
          (if 0 < fixed_count d then [str ''Fixed '' @ show_nat (fixed_count d) @ str '' linter error(s).''] else [])
          @ (if new_problems_message d \<noteq> []
             then [str ''New problems detected after saving the file:'' @ [nl] @ trim (new_problems_message d)] else []))"

definition full_file :: "ustr list \<Rightarrow> ustr list \<Rightarrow> ustr" where
  "full_file final_lines final_hashes =
     str ''Because the changes were extensive, the full updated file content with anchors is provided below to ensure clarity:''
     @ [nl, nl] @ join [nl] (map (\<lambda>(l, h). format_line_with_hash l h) (zip final_lines final_hashes))"

definition format_result_with_failures ::
  "(ustr \<Rightarrow> ustr) \<Rightarrow> (ustr \<Rightarrow> ustr) \<Rightarrow> diff_mode \<Rightarrow> prepared_edits \<Rightarrow> ustr list \<Rightarrow> ustr list
     \<Rightarrow> diagnostics_result option \<Rightarrow> nat \<Rightarrow> ustr option" where
  "format_result_with_failures dbg sha_hex mode p final_lines final_hashes diagnostics consecutive_failures =
     (case those (map (applied_report dbg mode p final_lines final_hashes) (pe_applied p)) of
        None \<Rightarrow> None
      | Some reports \<Rightarrow>
          let totals = (sum_list (map (fst \<circ> fst) reports), sum_list (map (snd \<circ> fst) reports));
              applied_diffs = map snd reports;
              total_diff_lines = sum_list (map (length \<circ> str_lines) applied_diffs);
              use_full_file = (length final_lines * 7 div 10 < total_diff_lines \<and> final_lines \<noteq> []);
              results = (if mode = Full \<and> use_full_file then [full_file final_lines final_hashes] else applied_diffs)
                @ map (failure_report dbg consecutive_failures) (pe_failed p)
                @ diagnostics_notes diagnostics
          in Some (summary sha_hex p final_lines totals @ [nl, nl] @ join ([nl, nl] @ str ''---'' @ [nl, nl]) results))"

definition format_result ::
  "(ustr \<Rightarrow> ustr) \<Rightarrow> (ustr \<Rightarrow> ustr) \<Rightarrow> diff_mode \<Rightarrow> prepared_edits \<Rightarrow> ustr list \<Rightarrow> ustr list
     \<Rightarrow> diagnostics_result option \<Rightarrow> ustr option" where
  "format_result dbg sha_hex mode p final_lines final_hashes diagnostics =
     format_result_with_failures dbg sha_hex mode p final_lines final_hashes diagnostics 0"

section \<open>Grouping, as a whole\<close>

definition entry_paths :: "(ustr \<Rightarrow> ustr option) \<Rightarrow> (ustr \<times> edit list) list \<Rightarrow> ustr list" where
  "entry_paths resolve entries = rev (remdups (rev (List.map_filter (resolve \<circ> fst) entries)))"

definition entries_of :: "(ustr \<Rightarrow> ustr option) \<Rightarrow> (ustr \<times> edit list) list \<Rightarrow> ustr \<Rightarrow> (ustr \<times> edit list) list" where
  "entries_of resolve entries path = filter (\<lambda>e. resolve (fst e) = Some path) entries"

definition batch_of :: "(ustr \<Rightarrow> ustr option) \<Rightarrow> (ustr \<times> edit list) list \<Rightarrow> ustr \<Rightarrow> file_edit_batch" where
  "batch_of resolve entries path =
     \<lparr>fb_absolute_path = path, fb_display_path = fst (hd (entries_of resolve entries path)),
      fb_edits = concat (map snd (entries_of resolve entries path))\<rparr>"

lemma distinct_entry_paths [simp]: "distinct (entry_paths resolve entries)"
  by (simp add: entry_paths_def)

lemma entry_paths_snoc:
  "entry_paths resolve (entries @ [e]) =
     (case resolve (fst e) of
        None \<Rightarrow> entry_paths resolve entries
      | Some p \<Rightarrow> entry_paths resolve entries @ (if p \<in> set (entry_paths resolve entries) then [] else [p]))"
  by (auto simp: entry_paths_def map_filter_simps List.map_filter_def split: option.splits)

lemma in_entry_paths: "p \<in> set (entry_paths resolve entries) \<longleftrightarrow> entries_of resolve entries p \<noteq> []"
  by (force simp: entry_paths_def entries_of_def List.map_filter_def filter_empty_conv)

lemma batch_of_snoc:
  "resolve (fst e) \<noteq> Some p \<Longrightarrow> batch_of resolve (entries @ [e]) p = batch_of resolve entries p"
  "resolve (fst e) = Some p \<Longrightarrow> p \<in> set (entry_paths resolve entries) \<Longrightarrow>
     batch_of resolve (entries @ [e]) p
       = (batch_of resolve entries p)\<lparr>fb_edits := fb_edits (batch_of resolve entries p) @ snd e\<rparr>"
  "resolve (fst e) = Some p \<Longrightarrow> p \<notin> set (entry_paths resolve entries) \<Longrightarrow>
     batch_of resolve (entries @ [e]) p = \<lparr>fb_absolute_path = p, fb_display_path = fst e, fb_edits = snd e\<rparr>"
  by (simp_all add: batch_of_def in_entry_paths) (simp_all add: entries_of_def)

lemma group_entries_spec:
  assumes "\<And>p i. seen p = Some i \<longleftrightarrow> i < length (entry_paths resolve before) \<and> entry_paths resolve before ! i = p"
  shows "group_entries resolve (map (batch_of resolve before) (entry_paths resolve before)) seen entries
    = map (batch_of resolve (before @ entries)) (entry_paths resolve (before @ entries))"
  using assms
proof (induction entries arbitrary: before seen)
  case (Cons e entries)
  obtain display edits where e: "e = (display, edits)" by fastforce
  let ?ps = "entry_paths resolve before"
  show ?case
  proof (cases "resolve display")
    case None
    then have ps: "entry_paths resolve (before @ [e]) = ?ps" using e by (simp add: entry_paths_snoc)
    have m: "map (batch_of resolve (before @ [e])) ?ps = map (batch_of resolve before) ?ps"
      using None e by (simp add: batch_of_snoc(1))
    have "group_entries resolve (map (batch_of resolve before) ?ps) seen entries
        = map (batch_of resolve (before @ [e] @ entries)) (entry_paths resolve (before @ [e] @ entries))"
      using Cons.IH[of seen "before @ [e]"] Cons.prems unfolding ps m by simp
    then show ?thesis using None e by simp
  next
    case (Some path)
    show ?thesis
    proof (cases "seen path")
      case None
      then have n: "path \<notin> set ?ps" using Cons.prems by (metis in_set_conv_nth option.distinct(1))
      have ps: "entry_paths resolve (before @ [e]) = ?ps @ [path]" using Some n e by (simp add: entry_paths_snoc)
      have b: "map (batch_of resolve (before @ [e])) (?ps @ [path])
          = map (batch_of resolve before) ?ps @ [\<lparr>fb_absolute_path = path, fb_display_path = display, fb_edits = edits\<rparr>]"
      proof -
        have "batch_of resolve (before @ [e]) q = batch_of resolve before q" if "q \<in> set ?ps" for q
        proof (rule batch_of_snoc(1))
          show "resolve (fst e) \<noteq> Some q" using that n Some e by auto
        qed
        then show ?thesis using Some n e batch_of_snoc(3)[of resolve e path before] by simp
      qed
      define seen' where "seen' = seen(path \<mapsto> length ?ps)"
      have sn: "seen' p = Some i \<longleftrightarrow> i < length (?ps @ [path]) \<and> (?ps @ [path]) ! i = p" for p i
        using Cons.prems[of p i] n by (auto simp: seen'_def nth_append less_Suc_eq)
      have "group_entries resolve (map (batch_of resolve (before @ [e])) (?ps @ [path])) seen' entries
          = map (batch_of resolve (before @ [e] @ entries)) (entry_paths resolve (before @ [e] @ entries))"
        using Cons.IH[of seen' "before @ [e]"] sn unfolding ps by simp
      then show ?thesis using Some None e unfolding b seen'_def by simp
    next
      case (Some i)
      then have i: "i < length ?ps" "?ps ! i = path" using Cons.prems by blast+
      have r: "resolve display = Some path" by fact
      have mem: "path \<in> set ?ps" using i by auto
      have ps: "entry_paths resolve (before @ [e]) = ?ps" using r e mem by (simp add: entry_paths_snoc)
      have "map (batch_of resolve (before @ [e])) ?ps ! j
          = (map (batch_of resolve before) ?ps)[i := (batch_of resolve before path)
              \<lparr>fb_edits := fb_edits (batch_of resolve before path) @ edits\<rparr>] ! j" if "j < length ?ps" for j
      proof (cases "j = i")
        case True
        then show ?thesis using i e r mem batch_of_snoc(2)[of resolve e path before] by simp
      next
        case False
        then have "?ps ! j \<noteq> path" using i that nth_eq_iff_index_eq[OF distinct_entry_paths] by metis
        then show ?thesis using False that e r batch_of_snoc(1)[of resolve e "?ps ! j" before] by simp
      qed
      then have m: "map (batch_of resolve (before @ [e])) ?ps
          = (map (batch_of resolve before) ?ps)[i := (batch_of resolve before path)
              \<lparr>fb_edits := fb_edits (batch_of resolve before path) @ edits\<rparr>]"
        by (intro nth_equalityI) simp_all
      have "group_entries resolve (map (batch_of resolve (before @ [e])) ?ps) seen entries
          = map (batch_of resolve (before @ [e] @ entries)) (entry_paths resolve (before @ [e] @ entries))"
        using Cons.IH[of seen "before @ [e]"] Cons.prems unfolding ps by simp
      moreover have "group_entries resolve (map (batch_of resolve before) ?ps) seen (e # entries)
          = group_entries resolve (map (batch_of resolve (before @ [e])) ?ps) seen entries"
        unfolding m by (simp add: e r Some i del: fun_upd_apply)
      ultimately show ?thesis by simp
    qed
  qed
qed simp

text \<open>Grouping gives one batch for every file named, in the order of first mention, with the edits of all its
  entries in their order; entries whose path does not resolve are left out.\<close>

theorem batches_by_file:
  "group_edits_by_path resolve entries = map (batch_of resolve entries) (entry_paths resolve entries)"
  using group_entries_spec[of Map.empty resolve "[]" entries]
  by (simp add: group_edits_by_path_def entry_paths_def List.map_filter_def)

section \<open>Counting anchors\<close>

lemma foldl_add_change:
  "foldl add_change (a, r) cs = (a + sum_list (map (\<lambda>c. nat (- c)) cs), r + sum_list (map nat cs))"
  by (induction cs arbitrary: a r) (auto simp: add_change_def)

lemma size_diff_remdups:
  assumes "set ys \<subseteq> set zs"
  shows "sum_list (map (\<lambda>h. count_list ys h - count_list xs h) (remdups zs)) = size (mset ys - mset xs)"
proof -
  have "sum_list (map (\<lambda>h. count_list ys h - count_list xs h) (remdups zs)) = (\<Sum>h\<in>set zs. count_list ys h - count_list xs h)"
    using sum.distinct_set_conv_list[OF distinct_remdups[of zs], of "\<lambda>h. count_list ys h - count_list xs h"] by simp
  also have "\<dots> = (\<Sum>h\<in>set zs. count (mset ys - mset xs) h)" by (simp add: count_mset count_list_eq_length_filter)
  also have "\<dots> = (\<Sum>h\<in>set_mset (mset ys - mset xs). count (mset ys - mset xs) h)"
  proof (rule sum.mono_neutral_right)
    show "set_mset (mset ys - mset xs) \<subseteq> set zs"
      using assms in_diffD[of _ "mset ys" "mset xs"] by auto
  qed (auto simp: not_in_iff)
  finally show ?thesis by (simp add: size_multiset_overloaded_eq)
qed

text \<open>The counts of added and removed anchors are the sizes of the differences of the two multisets of anchors.\<close>

theorem hash_changes_multiset:
  "count_line_hash_changes original final = (size (mset final - mset original), size (mset original - mset final))"
proof -
  have n: "nat (- hash_count original final h) = count_list final h - count_list original h"
    "nat (hash_count original final h) = count_list original h - count_list final h" for h
    by (simp_all add: hash_count_def)
  show ?thesis
    unfolding count_line_hash_changes_def foldl_add_change
    using size_diff_remdups[of final "original @ final" original] size_diff_remdups[of original "original @ final" final]
    by (simp add: comp_def n)
qed
section \<open>What a report shows\<close>

lemma those_map_Some: "(\<And>x. x \<in> set xs \<Longrightarrow> f x = Some (g x)) \<Longrightarrow> those (map f xs) = Some (map g xs)"
  by (induction xs) simp_all

lemma those_map_total: "(\<And>x. x \<in> set xs \<Longrightarrow> f x \<noteq> None) \<Longrightarrow> those (map f xs) \<noteq> None"
  using those_map_Some[of xs f "\<lambda>x. the (f x)"] by fastforce

text \<open>The ranges of an applied edit lie in the two files, whose anchors are known line by line.\<close>

definition reportable :: "prepared_edits \<Rightarrow> ustr list \<Rightarrow> ustr list \<Rightarrow> applied_edit \<Rightarrow> bool" where
  "reportable p final_lines final_hashes a \<longleftrightarrow>
     length (pe_line_hashes p) = length (pe_lines p) \<and> length final_hashes = length final_lines
     \<and> start_idx a + lines_added a \<le> length final_lines \<and> original_start_idx a + lines_deleted a \<le> length (pe_lines p)
     \<and> final_lines \<noteq> []
     \<and> ae_end_idx a = (if lines_added a = 0 then start_idx a else start_idx a + lines_added a - 1)"

abbreviation shown :: "ustr list \<Rightarrow> ustr list \<Rightarrow> nat \<Rightarrow> ustr" where
  "shown ls hashes i \<equiv> format_line_with_hash (ls ! i) (hashes ! i)"

lemma anchored_Some: "i < length ls \<Longrightarrow> i < length hashes \<Longrightarrow> anchored ls hashes i = Some (shown ls hashes i)"
  by (simp add: anchored_def nth_opt_def)

lemma slice_opt_Some: "i + n \<le> length xs \<Longrightarrow> slice_opt xs i (i + n) = Some (slice i n xs)"
  by (simp add: slice_opt_def)

lemma report_hashes:
  assumes "reportable p final_lines final_hashes a"
  shows "new_hashes final_lines final_hashes a = Some (slice (start_idx a) (lines_added a) final_hashes)"
    and "old_hashes p a = Some (slice (original_start_idx a) (lines_deleted a) (pe_line_hashes p))"
proof -
  have "slice_opt final_hashes (start_idx a) (start_idx a + lines_added a - 1 + 1)
      = Some (slice (start_idx a) (lines_added a) final_hashes)" if "0 < lines_added a"
    using slice_opt_Some[of "start_idx a" "lines_added a" final_hashes] assms that by (simp add: reportable_def)
  then show "new_hashes final_lines final_hashes a = Some (slice (start_idx a) (lines_added a) final_hashes)"
    using assms by (auto simp: new_hashes_def final_range_end_def reportable_def min_def slice_def)
  show "old_hashes p a = Some (slice (original_start_idx a) (lines_deleted a) (pe_line_hashes p))"
    using assms slice_opt_Some[of "original_start_idx a" "lines_deleted a" "pe_line_hashes p"]
    by (simp add: old_hashes_def reportable_def)
qed

lemma report_context:
  "reportable p final_lines final_hashes a \<Longrightarrow>
     context_lines style final_lines final_hashes [start_idx a - 3..<start_idx a]
       = Some (map (\<lambda>i. style (shown final_lines final_hashes i)) [start_idx a - 3..<start_idx a])"
  "reportable p final_lines final_hashes a \<Longrightarrow>
     context_lines style final_lines final_hashes (after_range final_lines a)
       = Some (map (\<lambda>i. style (shown final_lines final_hashes i))
           [start_idx a + lines_added a..<min (length final_lines) (start_idx a + lines_added a + 3)])"
proof -
  assume r: "reportable p final_lines final_hashes a"
  show "context_lines style final_lines final_hashes [start_idx a - 3..<start_idx a]
       = Some (map (\<lambda>i. style (shown final_lines final_hashes i)) [start_idx a - 3..<start_idx a])"
    unfolding context_lines_def using r by (intro those_map_Some) (auto simp: anchored_Some reportable_def)
  have "after_range final_lines a = [start_idx a + lines_added a..<min (length final_lines) (start_idx a + lines_added a + 3)]"
  proof -
    have "min (length final_lines - 1) (start_idx a + lines_added a + 2) + 1 = min (length final_lines) (start_idx a + lines_added a + 3)"
      using r by (cases final_lines) (auto simp: reportable_def)
    then show ?thesis using r by (simp only: after_range_def reportable_def if_False simp_thms)
  qed
  then show "context_lines style final_lines final_hashes (after_range final_lines a)
       = Some (map (\<lambda>i. style (shown final_lines final_hashes i))
           [start_idx a + lines_added a..<min (length final_lines) (start_idx a + lines_added a + 3)])"
    unfolding context_lines_def using r by (simp only:) (intro those_map_Some, auto simp: anchored_Some reportable_def)
qed

lemma concat_singletons: "concat (map (\<lambda>i. if P i then [] else [f i]) xs) = map f (filter (\<lambda>i. \<not> P i) xs)"
  by (induction xs) simp_all

lemma report_removed:
  assumes "reportable p final_lines final_hashes a"
  shows "removed_lines p news a
    = Some (map (\<lambda>i. diff_removal (shown (pe_lines p) (pe_line_hashes p) i))
        (filter (\<lambda>i. pe_line_hashes p ! i \<notin> set news) [original_start_idx a..<original_start_idx a + lines_deleted a]))"
proof -
  have "those (map (\<lambda>i. case nth_opt (pe_line_hashes p) i of
          None \<Rightarrow> None
        | Some h \<Rightarrow> if h \<in> set news then Some []
            else map_option (\<lambda>l. [diff_removal l]) (anchored (pe_lines p) (pe_line_hashes p) i))
       [original_start_idx a..<original_start_idx a + lines_deleted a])
    = Some (map (\<lambda>i. if pe_line_hashes p ! i \<in> set news then [] else [diff_removal (shown (pe_lines p) (pe_line_hashes p) i)])
       [original_start_idx a..<original_start_idx a + lines_deleted a])"
    using assms by (intro those_map_Some) (auto simp: reportable_def nth_opt_def anchored_Some)
  then show ?thesis unfolding removed_lines_def by (simp add: concat_singletons)
qed

lemma report_new:
  assumes "reportable p final_lines final_hashes a"
  shows "new_lines kept added final_lines final_hashes olds a
    = Some (map (\<lambda>i. (if final_hashes ! i \<in> set olds then kept else added) (shown final_lines final_hashes i))
        [start_idx a..<start_idx a + lines_added a])"
proof (cases "lines_added a = 0")
  case True
  then show ?thesis by (simp add: new_lines_def final_range_end_def)
next
  case False
  then have e: "final_range_end final_lines a = Some (start_idx a + lines_added a - 1)"
    using assms by (auto simp: final_range_end_def reportable_def min_def)
  have i: "start_idx a + lines_added a - 1 + 1 = start_idx a + lines_added a" using False by simp
  show ?thesis unfolding new_lines_def e option.case i
    using assms by (intro those_map_Some) (auto simp: reportable_def nth_opt_def anchored_Some)
qed

text \<open>The block of an applied edit, written out.\<close>

definition edit_block :: "prepared_edits \<Rightarrow> ustr list \<Rightarrow> ustr list \<Rightarrow> applied_edit \<Rightarrow> ustr list" where
  "edit_block p final_lines final_hashes a =
     (let start_i = start_idx a; stop_i = start_idx a + lines_added a;
          old_start = original_start_idx a; old_stop = original_start_idx a + lines_deleted a
      in map (\<lambda>i. diff_context (shown final_lines final_hashes i)) [start_i - 3..<start_i]
         @ map (\<lambda>i. diff_removal (shown (pe_lines p) (pe_line_hashes p) i))
             (filter (\<lambda>i. pe_line_hashes p ! i \<notin> set (slice start_i (lines_added a) final_hashes)) [old_start..<old_stop])
         @ map (\<lambda>i. (if final_hashes ! i \<in> set (slice old_start (lines_deleted a) (pe_line_hashes p))
               then diff_context else diff_addition) (shown final_lines final_hashes i)) [start_i..<stop_i]
         @ map (\<lambda>i. diff_context (shown final_lines final_hashes i)) [stop_i..<min (length final_lines) (stop_i + 3)])"

lemma diff_block_written:
  assumes "reportable p final_lines final_hashes a"
  shows "get_diff_block p final_lines final_hashes a = Some (join [nl] (edit_block p final_lines final_hashes a))"
  unfolding get_diff_block_def report_hashes[OF assms] option.case
  by (simp add: report_context[OF assms] report_removed[OF assms] report_new[OF assms] joined_parts_def edit_block_def Let_def)

lemma addition_block_total:
  assumes "reportable p final_lines final_hashes a"
  shows "get_addition_only_diff_block p final_lines final_hashes a \<noteq> None"
proof -
  have "those (map (nth_opt (pe_line_hashes p)) [original_start_idx a..<original_start_idx a + lines_deleted a])
      = Some (map ((!) (pe_line_hashes p)) [original_start_idx a..<original_start_idx a + lines_deleted a])"
    using assms by (intro those_map_Some) (auto simp: reportable_def nth_opt_def)
  then have "\<exists>d. deletion_summary p news a = Some d" for news by (simp add: deletion_summary_def)
  then obtain d where "deletion_summary p (slice (start_idx a) (lines_added a) final_hashes) a = Some d" by blast
  then show ?thesis
    unfolding get_addition_only_diff_block_def report_hashes[OF assms] option.case
    by (simp add: report_context[OF assms] report_new[OF assms] joined_parts_def)
qed

lemma applied_report_total:
  assumes "reportable p final_lines final_hashes a"
  shows "applied_report dbg mode p final_lines final_hashes a \<noteq> None"
proof -
  have "slice_opt final_hashes (start_idx a) (start_idx a + lines_added a) = Some (slice (start_idx a) (lines_added a) final_hashes)"
    using assms by (intro slice_opt_Some) (simp add: reportable_def)
  moreover obtain b where "get_addition_only_diff_block p final_lines final_hashes a = Some b"
    using addition_block_total[OF assms] by blast
  ultimately show ?thesis
    unfolding applied_report_def report_hashes[OF assms] diff_block_written[OF assms] by (cases mode) simp_all
qed

lemma format_result_total:
  assumes "\<And>a. a \<in> set (pe_applied p) \<Longrightarrow> reportable p final_lines final_hashes a"
  shows "format_result_with_failures dbg sha_hex mode p final_lines final_hashes diagnostics n \<noteq> None"
  unfolding format_result_with_failures_def
  using those_map_total[of "pe_applied p" "applied_report dbg mode p final_lines final_hashes"] applied_report_total assms
  by (auto simp: Let_def split: option.splits)
section \<open>A batch from preparation to report\<close>

lemma prepared:
  assumes "prepare_edits dbg content edits hashes = Some (Inr p)"
  obtains failed where "resolve_edits dbg edits (split_content_lines content) hashes = Some (pe_resolved p, failed)"
    and "pe_failed p = failed" and "pe_lines p = split_content_lines content" and "pe_line_hashes p = hashes"
    and "pe_applied p = []" and "validation_failures dbg edits = []"
  using assms by (auto simp: prepare_edits_def Let_def split: if_splits option.splits)

lemma prepared_in_bounds:
  assumes "prepare_edits dbg content edits hashes = Some (Inr p)" and "length hashes = length (split_content_lines content)"
  shows "\<forall>r \<in> set (pe_resolved p). in_bounds (pe_lines p) r"
  by (rule prepared[OF assms(1)]) (metis resolved_in_bounds assms(2))

lemma apply_batch_cases:
  assumes "apply_batch alnum dbg display p = Some (res, p')"
  shows "pe_applied p = [] \<longrightarrow> \<not> br_success res \<longrightarrow> pe_applied p' = []"
    and "br_success res \<Longrightarrow> \<exists>added removed prov. apply_edits_with_provenance alnum dbg (pe_lines p) (pe_resolved p)
         = Some (Applied (pe_final_lines p') added removed (pe_applied p') (br_unchanged_sites res), prov)
       \<and> pe_final_content p' = join [nl] (pe_final_lines p')"
    and "pe_lines p' = pe_lines p \<and> pe_line_hashes p' = pe_line_hashes p \<and> pe_resolved p' = pe_resolved p \<and> pe_failed p' = pe_failed p"
  using assms by (auto simp: apply_batch_def rejected_result_def Let_def split: option.splits prod.splits apply_outcome.splits)

lemma batch_reportable:
  assumes "prepare_edits dbg content edits hashes = Some (Inr p)" and "length hashes = length (split_content_lines content)"
    and "apply_batch alnum dbg display p = Some (res, p')" and "length final_hashes = length (pe_final_lines p')"
    and "a \<in> set (pe_applied p')"
  shows "reportable p' (pe_final_lines p') final_hashes a"
    and "slice (start_idx a) (lines_added a) (pe_final_lines p') = replacement_lines (ae_edit a)"
proof -
  obtain failed where p: "pe_lines p = split_content_lines content" "pe_line_hashes p = hashes" "pe_applied p = []"
    using assms(1) by (rule prepared)
  have "br_success res" using apply_batch_cases(1)[OF assms(3)] p(3) assms(5) by auto
  then obtain added removed prov where ap: "apply_edits_with_provenance alnum dbg (pe_lines p) (pe_resolved p)
      = Some (Applied (pe_final_lines p') added removed (pe_applied p') (br_unchanged_sites res), prov)"
    using apply_batch_cases(2)[OF assms(3)] by blast
  note b = prepared_in_bounds[OF assms(1,2)]
  show "reportable p' (pe_final_lines p') final_hashes a"
    using Applied_ranges[OF ap b assms(5)] p assms(2,4) apply_batch_cases(3)[OF assms(3)] by (simp add: reportable_def)
  show "slice (start_idx a) (lines_added a) (pe_final_lines p') = replacement_lines (ae_edit a)"
    using Applied_positions[OF ap b] assms(5) by blast
qed

text \<open>The report of an applied edit shows up to three lines before it, the removed lines whose anchors are gone,
  exactly the lines it wrote, and up to three lines after, each new or kept line with the anchor it has now, and
  marks a written line as added exactly when its anchor is not one of the replaced lines' anchors.\<close>

theorem report_shows_current_anchors:
  assumes "prepare_edits dbg content edits hashes = Some (Inr p)" and "length hashes = length (split_content_lines content)"
    and "apply_batch alnum dbg display p = Some (res, p')" and "length final_hashes = length (pe_final_lines p')"
    and "a \<in> set (pe_applied p')"
  shows "get_diff_block p' (pe_final_lines p') final_hashes a = Some (join [nl] (edit_block p' (pe_final_lines p') final_hashes a))
    \<and> slice (start_idx a) (lines_added a) (pe_final_lines p') = replacement_lines (ae_edit a)"
  using batch_reportable[OF assms] diff_block_written by blast

text \<open>Whatever edits the model sends for a file and whatever the executor makes of them, preparing, applying and
  reporting the batch never panics, in either style of report.\<close>

theorem batch_never_panics:
  assumes "length hashes = length (split_content_lines content)"
  shows "\<exists>prepared. prepare_edits dbg content edits hashes = Some prepared
    \<and> (\<forall>p. prepared = Inr p \<longrightarrow>
        (\<exists>res p'. apply_batch alnum dbg display p = Some (res, p')
          \<and> (\<forall>final_hashes. length final_hashes = length (pe_final_lines p') \<longrightarrow>
              format_result_with_failures dbg sha_hex mode p' (pe_final_lines p') final_hashes diagnostics n \<noteq> None)))"
proof -
  obtain rs fs where "resolve_edits dbg edits (split_content_lines content) hashes = Some (rs, fs)"
    using batch_resolution_total[OF assms] by blast
  then obtain r where r: "prepare_edits dbg content edits hashes = Some r"
    by (cases "prepare_edits dbg content edits hashes") (auto simp: prepare_edits_def Let_def split: if_splits)
  have "\<exists>res p'. apply_batch alnum dbg display p = Some (res, p')
      \<and> (\<forall>final_hashes. length final_hashes = length (pe_final_lines p') \<longrightarrow>
          format_result_with_failures dbg sha_hex mode p' (pe_final_lines p') final_hashes diagnostics n \<noteq> None)"
    if "r = Inr p" for p
  proof -
    have p: "prepare_edits dbg content edits hashes = Some (Inr p)" using r that by simp
    obtain outcome prov where "apply_edits_with_provenance alnum dbg (pe_lines p) (pe_resolved p) = Some (outcome, prov)"
      using apply_edits_total[OF prepared_in_bounds[OF p assms]] by fastforce
    then obtain res p' where a: "apply_batch alnum dbg display p = Some (res, p')"
      by (cases outcome) (auto simp: apply_batch_def Let_def)
    then show ?thesis using format_result_total batch_reportable(1)[OF p assms a] by blast
  qed
  then show ?thesis using r by blast
qed

text \<open>A batch of one edit on a file of three lines, for concrete inputs.\<close>

definition sample_content :: ustr where
  "sample_content = str ''a'' @ [nl] @ str ''b'' @ [nl] @ str ''f''"

definition sample_prepared :: prepared_edits where
  "sample_prepared =
     \<lparr>pe_provenance = \<lparr>origins = [], edit_ranges = []\<rparr>, pe_content = sample_content, pe_final_content = sample_content,
      pe_diff = [], pe_resolved = sample_resolved, pe_failed = [], pe_applied = [], pe_lines = sample_lines,
      pe_line_hashes = sample_hashes, pe_final_lines = []\<rparr>"

definition sample_finished :: prepared_edits where
  "sample_finished =
     sample_prepared\<lparr>pe_provenance := sample_provenance, pe_final_lines := [[99], [100], [98], [101], [102]],
       pe_final_content := join [nl] [[99], [100], [98], [101], [102]], pe_applied := sample_applied,
       pe_diff := generate_diff [] (sample_prepared\<lparr>pe_applied := sample_applied\<rparr>)\<rparr>"

lemma sample_prepares:
  "prepare_edits (\<lambda>s. s) sample_content [sample_edit, sample_insert] sample_hashes = Some (Inr sample_prepared)"
proof -
  have l: "split_content_lines sample_content = sample_lines" by code_simp
  have v: "validation_failures (\<lambda>s. s) [sample_edit, sample_insert] = []" by code_simp
  show ?thesis by (simp only: prepare_edits_def l v sample_resolves Let_def sample_prepared_def) simp
qed

lemma report_shows_current_anchors_witness:
  "get_diff_block sample_finished (pe_final_lines sample_finished) (map str [''Gh'', ''Ij'', ''Cd'', ''Kl'', ''Ef'']) (hd sample_applied)
      = Some (join [nl] (edit_block sample_finished (pe_final_lines sample_finished)
          (map str [''Gh'', ''Ij'', ''Cd'', ''Kl'', ''Ef'']) (hd sample_applied)))
    \<and> slice (start_idx (hd sample_applied)) (lines_added (hd sample_applied)) (pe_final_lines sample_finished)
      = replacement_lines (ae_edit (hd sample_applied))"
proof (rule report_shows_current_anchors[OF sample_prepares])
  show "apply_batch (\<lambda>_. True) (\<lambda>s. s) [] sample_prepared
      = Some (fst (the (apply_batch (\<lambda>_. True) (\<lambda>s. s) [] sample_prepared)), sample_finished)"
    by (simp add: apply_batch_def sample_prepared_def sample_applies sample_finished_def generate_diff_def Let_def)
qed (code_simp, simp add: sample_finished_def, simp add: sample_finished_def sample_applied_def)

lemma batch_never_panics_witness:
  "\<exists>prepared. prepare_edits (\<lambda>s. s) sample_content [sample_edit, sample_insert] sample_hashes = Some prepared
    \<and> (\<forall>p. prepared = Inr p \<longrightarrow>
        (\<exists>res p'. apply_batch (\<lambda>_. True) (\<lambda>s. s) [] p = Some (res, p')
          \<and> (\<forall>final_hashes. length final_hashes = length (pe_final_lines p') \<longrightarrow>
              format_result_with_failures (\<lambda>s. s) (\<lambda>s. s) Full p' (pe_final_lines p') final_hashes None 0 \<noteq> None)))"
  by (rule batch_never_panics) code_simp

section \<open>The preview of a block edit\<close>

text \<open>The diff drops no final newline of a block replacement, the executor does: the preview that the user approves shows
  an empty line that is never written.\<close>

lemma block_preview_shows_extra_line:
  "let e = Edit_block (str ''b'') (str ''c'' @ [nl])
   in search_and_replace (map str [''a'', ''b'']) 1 1 e = ([str ''b''], [str ''c'', []]) \<and> replacement_lines e = [str ''c'']"
  by code_simp

end
