(* ===== verification/EditParams.thy ===== *)
theory EditParams
  imports EditBatch IndexMap Json JsonRepair
begin

text \<open>
  The parameters of the tool \<open>edit_file\<close>, \<open>src/core/tools/handlers/edit_file.rs\<close>: the shapes the handler accepts
  and brings into one, the repair of the nested texts, the selectors of an edit, and the paths that are locked and
  shown to the approval. Messages are constructors of an error type. \<open>read_values\<close> is \<open>serde_json::from_str\<close> of an array
  of values and \<open>valid\<close> tells whether a text is JSON; of an error only the category "end of input" matters.
\<close>

section \<open>Errors\<close>

record json_error =
  je_eof :: bool
  je_message :: ustr

datatype param_error =
    PathNotString | PathMissing | NestedPathNotString | ConflictingPaths ustr ustr
  | MultiLineSelector string ustr | EmptySelector string ustr
  | BlockTooLarge ustr | BlockLineCount ustr | SelectorTooLarge string ustr
  | FlatAndFiles | FilesUnparsable json_error | FlatNeedsPath | FlatNeedsSource | FlatNeedsReplacement
  | FlatAndPaths | FlatAndEdits | InvalidPath | PathsAndEdits | EditsUnparsable json_error | EditsNotArray
  | EditsNotObjects | NotAnObject | PathsUnparsable json_error | PathsNotFiles
  | FileTextAndEdits ustr | FieldsOutsideEdits ustr | EditsMissing ustr
  | BlockAndAnchor nat ustr | ReplacementMissing nat ustr | AnchorMissing nat ustr | UnknownEditType ustr
  | BlockNotReplace ustr | PlainBlockAndEnd ustr | TextMissing ustr | TextNotString ustr
  | ContentNotArray ustr | ContentTooLong ustr | ContentNotString ustr nat | ContentTooLarge ustr

section \<open>Values\<close>

text \<open>Objects keep the order of their keys: \<open>insert\<close> keeps the place of a key, \<open>remove\<close> puts the last member in the gap.\<close>

definition json_remove :: "ustr \<Rightarrow> (ustr \<times> json) list \<Rightarrow> (ustr \<times> json) list" where
  "json_remove key members =
     (let pre = takeWhile (\<lambda>f. fst f \<noteq> key) members; rest = drop (length pre + 1) members
      in if length pre = length members \<or> rest = [] then pre else pre @ List.last rest # butlast rest)"

definition json_insert :: "ustr \<Rightarrow> json \<Rightarrow> (ustr \<times> json) list \<Rightarrow> (ustr \<times> json) list" where
  "json_insert key v members = im_insert key v members"

lemma map_of_json_insert [simp]: "map_of (json_insert key v members) k = (if k = key then Some v else map_of members k)"
  using im_get_insert[of key v members k] by (simp add: json_insert_def im_get_def)

definition json_members :: "json \<Rightarrow> (ustr \<times> json) list option" where
  "json_members v = (case v of JObject members \<Rightarrow> Some members | _ \<Rightarrow> None)"

text \<open>\<open>get(a).or_else(|| get(b))\<close> and so on: the first key that is there, whatever its value.\<close>

definition first_field :: "string list \<Rightarrow> json \<Rightarrow> json option" where
  "first_field keys v = (case List.map_filter (\<lambda>k. json_get v (str k)) keys of [] \<Rightarrow> None | x # _ \<Rightarrow> Some x)"

definition has_field :: "string \<Rightarrow> json \<Rightarrow> bool" where
  "has_field key v \<longleftrightarrow> json_get v (str key) \<noteq> None"

abbreviation old_text_keys :: "string list" where "old_text_keys \<equiv> [''old_text'', ''old_str'', ''search'']"
abbreviation new_text_keys :: "string list" where "new_text_keys \<equiv> [''new_text'', ''new_str'', ''text'', ''replace'']"

section \<open>The path of a file entry\<close>

definition first_edit_path :: "json \<Rightarrow> ustr option" where
  "first_edit_path file =
     (case get_array file (str ''edits'') of
        Some (e # _) \<Rightarrow> get_str e (str ''path'')
      | _ \<Rightarrow> None)"

fun nested_paths_agree :: "ustr \<Rightarrow> json list \<Rightarrow> param_error + unit" where
  "nested_paths_agree path [] = Inr ()"
| "nested_paths_agree path (e # es) =
     (case json_get e (str ''path'') of
        None \<Rightarrow> nested_paths_agree path es
      | Some v \<Rightarrow>
          (case as_str v of
             None \<Rightarrow> Inl NestedPathNotString
           | Some nested \<Rightarrow> if nested \<noteq> path then Inl (ConflictingPaths path nested) else nested_paths_agree path es))"

definition file_entry_path :: "json \<Rightarrow> param_error + ustr" where
  "file_entry_path file =
     (case (case json_get file (str ''path'') of
              Some v \<Rightarrow> (case as_str v of Some p \<Rightarrow> Inr p | None \<Rightarrow> Inl PathNotString)
            | None \<Rightarrow> (case first_edit_path file of Some p \<Rightarrow> Inr p | None \<Rightarrow> Inl PathMissing)) of
        Inl e \<Rightarrow> Inl e
      | Inr path \<Rightarrow>
          (case get_array file (str ''edits'') of
             None \<Rightarrow> Inr path
           | Some edits \<Rightarrow> (case nested_paths_agree path edits of Inl e \<Rightarrow> Inl e | Inr _ \<Rightarrow> Inr path)))"

section \<open>Selectors\<close>

definition is_blank :: "uchar \<Rightarrow> bool" where
  "is_blank c \<longleftrightarrow> c = 32 \<or> c = 9"

definition is_break :: "uchar \<Rightarrow> bool" where
  "is_break c \<longleftrightarrow> c = nl \<or> c = cr"

definition trim_blanks :: "ustr \<Rightarrow> ustr" where
  "trim_blanks s = rev (dropWhile is_blank (rev (dropWhile is_blank s)))"

definition trim_end_breaks :: "ustr \<Rightarrow> ustr" where
  "trim_end_breaks s = rev (dropWhile is_break (rev s))"

text \<open>The line number that other tools print in front of a line, with a colon or a bar.\<close>

definition strip_line_prefix :: "ustr \<Rightarrow> ustr" where
  "strip_line_prefix s =
     (let prefix = takeWhile (\<lambda>c. c \<noteq> 58 \<and> c \<noteq> 124) s; number = trim_blanks prefix
      in if prefix \<noteq> s \<and> number \<noteq> [] \<and> list_all is_ascii_digit number
         then dropWhile is_blank (drop (Suc (length prefix)) s) else s)"

definition normalized_anchor :: "string \<Rightarrow> ustr \<Rightarrow> ustr \<Rightarrow> param_error + ustr" where
  "normalized_anchor field path raw =
     (let without_diff_marker = dropWhile is_blank (dropWhile (\<lambda>c. c = 43 \<or> c = 45) (dropWhile is_blank raw));
          without_line_prefix = strip_line_prefix without_diff_marker;
          anchor = trim_end_breaks without_line_prefix
      in if (without_line_prefix \<noteq> [] \<and> is_break (hd without_line_prefix)) \<or> list_ex is_break anchor
         then Inl (MultiLineSelector field path)
         else if anchor = [] then Inl (EmptySelector field path)
         else Inr anchor)"

definition strip_line_end :: "ustr \<Rightarrow> ustr option" where
  "strip_line_end raw = (case strip_suffix [cr, nl] raw of Some s \<Rightarrow> Some s | None \<Rightarrow> strip_suffix [nl] raw)"

definition names_anchor :: "ustr \<Rightarrow> bool" where
  "names_anchor anchor \<longleftrightarrow> delim \<in> set anchor \<and> ANCHOR_NAME_REGEX (fst (split_anchor anchor))"

text \<open>The lines after the first of an anchored block: all with anchors, or all plain. The inner \<open>None\<close> stands for a
  line with a bad anchor, after which the whole text is read as one anchor.\<close>

fun block_continuations :: "bool \<Rightarrow> ustr \<Rightarrow> ustr list \<Rightarrow> param_error + ustr list option" where
  "block_continuations is_anchored path [] = Inr (Some [])"
| "block_continuations is_anchored path (l # ls) =
     (if is_anchored then
        (case normalized_anchor ''anchor'' path l of
           Inl e \<Rightarrow> Inl e
         | Inr anchor \<Rightarrow>
             if \<not> names_anchor anchor then Inr None
             else case block_continuations is_anchored path ls of
                 Inl e \<Rightarrow> Inl e | Inr None \<Rightarrow> Inr None | Inr (Some rest) \<Rightarrow> Inr (Some (anchor # rest)))
      else case block_continuations is_anchored path ls of
          Inl e \<Rightarrow> Inl e | Inr None \<Rightarrow> Inr None | Inr (Some rest) \<Rightarrow> Inr (Some (strip_cr l # rest)))"

definition normalized_edit_anchor :: "ustr \<Rightarrow> ustr \<Rightarrow> param_error + ustr" where
  "normalized_edit_anchor path raw =
     (let without_trailing_newline = strip_line_end raw
      in if \<not> list_ex is_break raw
            \<or> (case without_trailing_newline of None \<Rightarrow> False | Some v \<Rightarrow> \<not> list_ex is_break v)
         then normalized_anchor ''anchor'' path raw
         else if MAX_FINGERPRINT_CONTENT_BYTES < byte_len raw then Inl (BlockTooLarge path)
         else let block = (case without_trailing_newline of Some v \<Rightarrow> v | None \<Rightarrow> raw); ls = split_on nl block
           in if length ls < 2 \<or> MAX_FINGERPRINT_CONTENT_LINES + 2 < length ls then Inl (BlockLineCount path)
              else case normalized_anchor ''anchor'' path (hd ls) of
                  Inl e \<Rightarrow> Inl e
                | Inr first_line \<Rightarrow>
                    if \<not> names_anchor first_line then normalized_anchor ''anchor'' path raw
                    else case block_continuations (list_ex (\<lambda>l. delim \<in> set l) (tl ls)) path (tl ls) of
                        Inl e \<Rightarrow> Inl e
                      | Inr None \<Rightarrow> normalized_anchor ''anchor'' path raw
                      | Inr (Some rest) \<Rightarrow> Inr (join [nl] (first_line # rest)))"

fun all_right :: "('e + 'a) list \<Rightarrow> 'e + 'a list" where
  "all_right [] = Inr []"
| "all_right (r # rs) =
     (case r of Inl e \<Rightarrow> Inl e | Inr x \<Rightarrow> (case all_right rs of Inl e \<Rightarrow> Inl e | Inr xs \<Rightarrow> Inr (x # xs)))"

definition normalized_selector_block :: "string \<Rightarrow> ustr \<Rightarrow> ustr \<Rightarrow> param_error + ustr list" where
  "normalized_selector_block field path raw =
     (if field = ''anchor'' then
        (case normalized_edit_anchor path raw of Inl e \<Rightarrow> Inl e | Inr block \<Rightarrow> Inr (split_on nl block))
      else
        let block = (case strip_line_end raw of Some v \<Rightarrow> v | None \<Rightarrow> raw); ls = split_on nl block
        in if length ls = 1 then
             (case normalized_anchor field path (hd ls) of Inl e \<Rightarrow> Inl e | Inr a \<Rightarrow> Inr [a])
           else if MAX_FINGERPRINT_CONTENT_BYTES < byte_len block \<or> MAX_FINGERPRINT_CONTENT_LINES + 2 < length ls
           then Inl (SelectorTooLarge field path)
           else all_right (map (normalized_anchor field path) ls))"

section \<open>Repair of nested texts\<close>

text \<open>The brackets left open, innermost first, with whether the text ends in a string; \<open>None\<close> at a bracket that closes
  nothing or another kind.\<close>

fun truncated_scan :: "ustr \<Rightarrow> bool \<Rightarrow> bool \<Rightarrow> ustr \<Rightarrow> (ustr \<times> bool) option" where
  "truncated_scan stack in_str escape [] = Some (stack, in_str)"
| "truncated_scan stack in_str escape (c # cs) =
     (if in_str then
        (if escape then truncated_scan stack True False cs
         else if c = 92 then truncated_scan stack True True cs
         else if c = 34 then truncated_scan stack False False cs
         else truncated_scan stack True False cs)
      else if c = 34 then truncated_scan stack True escape cs
      else if c = 123 \<or> c = 91 then truncated_scan (c # stack) False escape cs
      else if c = 125 then
        (case stack of o1 # rest \<Rightarrow> if o1 = 123 then truncated_scan rest False escape cs else None | [] \<Rightarrow> None)
      else if c = 93 then
        (case stack of o1 # rest \<Rightarrow> if o1 = 91 then truncated_scan rest False escape cs else None | [] \<Rightarrow> None)
      else truncated_scan stack False escape cs)"

definition closer :: "uchar \<Rightarrow> uchar" where
  "closer c = (if c = 123 then 125 else 93)"

definition repair_truncated_files_json :: "ustr \<Rightarrow> ustr option" where
  "repair_truncated_files_json raw =
     (case truncated_scan [] False False raw of
        None \<Rightarrow> None
      | Some (stack, in_str) \<Rightarrow> if in_str \<or> stack = [] then None else Some (raw @ map closer stack))"

text \<open>The scan for a \<open>path\<close> key that follows a closed edit inside the array \<open>edits\<close>. The source works on bytes; every byte
  it looks for is ASCII, so positions of characters serve as well.\<close>

record misplaced_state =
  ms_stack :: ustr
  ms_in_string :: bool
  ms_escaped :: bool
  ms_string_start :: nat
  ms_edits_depth :: "nat option"
  ms_candidates :: "nat list"

definition at :: "ustr \<Rightarrow> nat \<Rightarrow> uchar option" where
  "at raw i = (if i < length raw then Some (raw ! i) else None)"

text \<open>Skipping white space forwards and, down to the first position, backwards.\<close>

definition skip_ws :: "ustr \<Rightarrow> nat \<Rightarrow> nat" where
  "skip_ws raw i = i + length (takeWhile is_ascii_ws (drop i raw))"

fun skip_ws_back :: "ustr \<Rightarrow> nat \<Rightarrow> nat" where
  "skip_ws_back raw 0 = 0"
| "skip_ws_back raw (Suc i) = (if is_ascii_ws (raw ! Suc i) then skip_ws_back raw i else Suc i)"

definition misplaced_token :: "ustr \<Rightarrow> nat \<Rightarrow> misplaced_state \<Rightarrow> misplaced_state" where
  "misplaced_token raw index st =
     (let token = slice (ms_string_start st) (index - ms_string_start st) raw; next_i = skip_ws raw (index + 1)
      in if token = str ''edits'' \<and> at raw next_i = Some 58 then
           (if at raw (skip_ws raw (next_i + 1)) = Some 91
            then st\<lparr>ms_edits_depth := Some (length (ms_stack st) + 1)\<rparr> else st)
         else if token = str ''path'' \<and> at raw next_i = Some 58 \<and> ms_edits_depth st = Some (length (ms_stack st))
              \<and> ms_stack st \<noteq> [] \<and> hd (ms_stack st) = 91 then
           (let comma = skip_ws_back raw (ms_string_start st - 2)
            in if at raw comma = Some 44 \<and> at raw (skip_ws_back raw (comma - 1)) = Some 125
               then st\<lparr>ms_candidates := ms_candidates st @ [comma]\<rparr> else st)
         else st)"

fun misplaced_scan :: "ustr \<Rightarrow> nat \<Rightarrow> ustr \<Rightarrow> misplaced_state \<Rightarrow> nat list option" where
  "misplaced_scan raw index [] st = Some (ms_candidates st)"
| "misplaced_scan raw index (b # bs) st =
     (if ms_in_string st then
        (if ms_escaped st then misplaced_scan raw (index + 1) bs (st\<lparr>ms_escaped := False\<rparr>)
         else if b = 92 then misplaced_scan raw (index + 1) bs (st\<lparr>ms_escaped := True\<rparr>)
         else if b = 34 then misplaced_scan raw (index + 1) bs (misplaced_token raw index (st\<lparr>ms_in_string := False\<rparr>))
         else misplaced_scan raw (index + 1) bs st)
      else if b = 34 then misplaced_scan raw (index + 1) bs (st\<lparr>ms_in_string := True, ms_string_start := index + 1\<rparr>)
      else if b = 123 \<or> b = 91 then misplaced_scan raw (index + 1) bs (st\<lparr>ms_stack := b # ms_stack st\<rparr>)
      else if b = 125 then
        (if ms_stack st \<noteq> [] \<and> hd (ms_stack st) = 123
         then misplaced_scan raw (index + 1) bs (st\<lparr>ms_stack := tl (ms_stack st)\<rparr>)
         else if ms_candidates st \<noteq> [] then Some (ms_candidates st) else None)
      else if b = 93 then
        (if ms_stack st \<noteq> [] \<and> hd (ms_stack st) = 91
         then misplaced_scan raw (index + 1) bs (st\<lparr>ms_stack := tl (ms_stack st),
           ms_edits_depth := (if ms_edits_depth st = Some (length (ms_stack st)) then None else ms_edits_depth st)\<rparr>)
         else None)
      else misplaced_scan raw (index + 1) bs st)"

definition repair_path_misplaced_in_edits :: "ustr \<Rightarrow> ustr option" where
  "repair_path_misplaced_in_edits raw =
     (case misplaced_scan raw 0 raw \<lparr>ms_stack = [], ms_in_string = False, ms_escaped = False, ms_string_start = 0,
          ms_edits_depth = None, ms_candidates = []\<rparr> of
        Some [insertion] \<Rightarrow> Some (take insertion raw @ [93] @ drop insertion raw)
      | _ \<Rightarrow> None)"

definition parsed :: "(ustr \<Rightarrow> json_error + json list) \<Rightarrow> ustr option \<Rightarrow> json list option" where
  "parsed read_values text_opt =
     (case text_opt of None \<Rightarrow> None | Some s \<Rightarrow> (case read_values s of Inr vs \<Rightarrow> Some vs | Inl _ \<Rightarrow> None))"

definition parse_stringified_files_array ::
  "(ustr \<Rightarrow> json_error + json list) \<Rightarrow> (ustr \<Rightarrow> bool) \<Rightarrow> ustr \<Rightarrow> json_error + json list" where
  "parse_stringified_files_array read_values valid raw =
     (case read_values raw of
        Inr files \<Rightarrow> Inr files
      | Inl err \<Rightarrow>
          let repaired = repair_json_args valid raw
          in case parsed read_values (if repaired \<noteq> raw then Some repaired else None) of
               Some files \<Rightarrow> Inr files
             | None \<Rightarrow>
                 (case parsed read_values (map_option (repair_json_args valid) (repair_path_misplaced_in_edits raw)) of
                    Some files \<Rightarrow> Inr files
                  | None \<Rightarrow>
                      (case parsed read_values (if je_eof err then repair_truncated_files_json raw else None) of
                         Some files \<Rightarrow> Inr files
                       | None \<Rightarrow> Inl err)))"

definition parse_stringified_edits_array ::
  "(ustr \<Rightarrow> json_error + json list) \<Rightarrow> (ustr \<Rightarrow> bool) \<Rightarrow> ustr \<Rightarrow> json_error + json list" where
  "parse_stringified_edits_array read_values valid raw =
     (case read_values raw of
        Inr edits \<Rightarrow> Inr edits
      | Inl err \<Rightarrow>
          let repaired = repair_json_args valid raw
          in case parsed read_values (if repaired \<noteq> raw then Some repaired else None) of
               Some edits \<Rightarrow> Inr edits | None \<Rightarrow> Inl err)"

section \<open>One shape for the parameters\<close>

definition one_file :: "ustr \<Rightarrow> json \<Rightarrow> json" where
  "one_file path edits = JArray [JObject [(str ''path'', JString path), (str ''edits'', edits)]]"

definition nonempty_path :: "json \<Rightarrow> ustr option" where
  "nonempty_path params = (case get_str params (str ''path'') of Some p \<Rightarrow> if p = [] then None else Some p | None \<Rightarrow> None)"

definition replace_members :: "string list \<Rightarrow> json \<Rightarrow> json \<Rightarrow> param_error + bool \<times> json" where
  "replace_members keys files params =
     (case json_members params of
        None \<Rightarrow> Inl NotAnObject
      | Some members \<Rightarrow>
          Inr (True, JObject (json_insert (str ''files'') files (fold (\<lambda>k. json_remove (str k)) keys members))))"

definition normalize_flat :: "json \<Rightarrow> param_error + bool \<times> json" where
  "normalize_flat params =
     (if \<not> has_field ''path'' params then Inl FlatNeedsPath
      else if first_field old_text_keys params = None then Inl FlatNeedsSource
      else if first_field new_text_keys params = None then Inl FlatNeedsReplacement
      else if has_field ''paths'' params then Inl FlatAndPaths
      else if has_field ''edits'' params then Inl FlatAndEdits
      else case nonempty_path params of
          None \<Rightarrow> Inl InvalidPath
        | Some path \<Rightarrow>
            replace_members (''path'' # old_text_keys @ new_text_keys)
              (one_file path (JArray [JObject [(str ''old_text'', the (first_field old_text_keys params)),
                 (str ''new_text'', the (first_field new_text_keys params))]])) params)"

definition normalize_path_edits ::
  "(ustr \<Rightarrow> json_error + json list) \<Rightarrow> (ustr \<Rightarrow> bool) \<Rightarrow> json \<Rightarrow> param_error + bool \<times> json" where
  "normalize_path_edits read_values valid params =
     (if has_field ''paths'' params then Inl PathsAndEdits
      else case nonempty_path params of
          None \<Rightarrow> Inl InvalidPath
        | Some path \<Rightarrow>
            (case (case json_get params (str ''edits'') of
                     Some (JArray edits) \<Rightarrow> Inr edits
                   | Some (JString raw) \<Rightarrow>
                       (case parse_stringified_edits_array read_values valid raw of
                          Inl e \<Rightarrow> Inl (EditsUnparsable e) | Inr edits \<Rightarrow> Inr edits)
                   | _ \<Rightarrow> Inl EditsNotArray) of
               Inl e \<Rightarrow> Inl e
             | Inr edits \<Rightarrow>
                 if edits = [] \<or> list_ex (\<lambda>e. json_members e = None) edits then Inl EditsNotObjects
                 else replace_members [''path'', ''edits''] (one_file path (JArray edits)) params))"

definition names_file :: "json \<Rightarrow> bool" where
  "names_file file \<longleftrightarrow> (case get_str file (str ''path'') of Some p \<Rightarrow> p \<noteq> [] | None \<Rightarrow> False)
     \<and> (case get_array file (str ''edits'') of Some es \<Rightarrow> es \<noteq> [] | None \<Rightarrow> False)"

definition normalize_paths :: "(ustr \<Rightarrow> json_error + json list) \<Rightarrow> json \<Rightarrow> param_error + bool \<times> json" where
  "normalize_paths read_values params =
     (case (case json_get params (str ''paths'') of
              Some (JArray files) \<Rightarrow> Inr (Some files)
            | Some (JString raw) \<Rightarrow> (case read_values raw of Inl e \<Rightarrow> Inl (PathsUnparsable e) | Inr files \<Rightarrow> Inr (Some files))
            | _ \<Rightarrow> Inr None) of
        Inl e \<Rightarrow> Inl e
      | Inr None \<Rightarrow> Inr (False, params)
      | Inr (Some files) \<Rightarrow>
          if files = [] \<or> list_ex (\<lambda>f. \<not> names_file f) files then Inl PathsNotFiles
          else replace_members [''paths''] (JArray files) params)"

definition normalize_stringified_files_param ::
  "(ustr \<Rightarrow> json_error + json list) \<Rightarrow> (ustr \<Rightarrow> bool) \<Rightarrow> json \<Rightarrow> param_error + bool \<times> json" where
  "normalize_stringified_files_param read_values valid params =
     (let flat = (first_field old_text_keys params \<noteq> None \<or> first_field new_text_keys params \<noteq> None)
      in if has_field ''files'' params \<and> (flat \<or> has_field ''edits'' params \<or> has_field ''paths'' params)
         then Inl FlatAndFiles
         else case get_str params (str ''files'') of
             Some raw \<Rightarrow>
               (case parse_stringified_files_array read_values valid raw of
                  Inl e \<Rightarrow> Inl (FilesUnparsable e)
                | Inr files \<Rightarrow> replace_members [] (JArray files) params)
           | None \<Rightarrow>
               if has_field ''files'' params then Inr (False, params)
               else if flat then normalize_flat params
               else if has_field ''path'' params \<and> has_field ''edits'' params then normalize_path_edits read_values valid params
               else normalize_paths read_values params)"

section \<open>Paths of a request\<close>

definition lacks_path :: "json \<Rightarrow> bool" where
  "lacks_path file \<longleftrightarrow> \<not> has_field ''path'' file \<and> has_field ''edits'' file"

definition apply_top_level_path_fallback :: "ustr option \<Rightarrow> json list \<Rightarrow> json list" where
  "apply_top_level_path_fallback fallback files =
     (case fallback of
        None \<Rightarrow> files
      | Some path \<Rightarrow>
          let missing_path_count = length (filter lacks_path files)
          in if missing_path_count = 0 \<or> missing_path_count \<noteq> length files then files
             else map (\<lambda>file. case json_members file of
                 None \<Rightarrow> file
               | Some members \<Rightarrow> JObject (json_insert (str ''path'') (JString path) members)) files)"

definition request_files :: "(ustr \<Rightarrow> json_error + json list) \<Rightarrow> (ustr \<Rightarrow> bool) \<Rightarrow> json \<Rightarrow> json list option" where
  "request_files read_values valid params =
     (case get_array params (str ''files'') of
        Some files \<Rightarrow> Some files
      | None \<Rightarrow>
          (case get_str params (str ''files'') of
             None \<Rightarrow> None
           | Some raw \<Rightarrow> (case parse_stringified_files_array read_values valid raw of Inr files \<Rightarrow> Some files | Inl _ \<Rightarrow> None)))"

definition requested_path :: "json \<Rightarrow> ustr option" where
  "requested_path file =
     (case get_str file (str ''path'') of Some p \<Rightarrow> Some p | None \<Rightarrow> first_edit_path file)"

definition requested_paths_for_locking :: "(ustr \<Rightarrow> json_error + json list) \<Rightarrow> (ustr \<Rightarrow> bool) \<Rightarrow> json \<Rightarrow> ustr list" where
  "requested_paths_for_locking read_values valid params =
     (let requested = List.map_filter requested_path
            (case request_files read_values valid params of Some files \<Rightarrow> files | None \<Rightarrow> [])
      in if requested = [] then (case get_str params (str ''path'') of Some p \<Rightarrow> [p] | None \<Rightarrow> []) else requested)"

section \<open>Edits\<close>

text \<open>\<open>get(..)\<close> over the accepted names \<open>.and_then(as_str)\<close>\<close>

definition text_field :: "string list \<Rightarrow> json \<Rightarrow> ustr option" where
  "text_field keys v = Option.bind (first_field keys v) as_str"

definition validate_edit_type :: "ustr \<Rightarrow> param_error + unit" where
  "validate_edit_type edit_type =
     (if edit_type \<in> {str ''replace'', str ''insert_before'', str ''insert_after''} then Inr ()
      else Inl (UnknownEditType edit_type))"

text \<open>The fingerprint lines; \<open>bytes\<close> counts those before, and a sum that does not fit is beyond the limit.\<close>

fun fingerprint_lines :: "ustr \<Rightarrow> nat \<Rightarrow> nat \<Rightarrow> json list \<Rightarrow> param_error + ustr list" where
  "fingerprint_lines path index bytes [] = Inr []"
| "fingerprint_lines path index bytes (v # vs) =
     (case as_str v of
        None \<Rightarrow> Inl (ContentNotString path (index + 1))
      | Some line \<Rightarrow>
          let bytes' = bytes + byte_len line
          in if MAX_FINGERPRINT_CONTENT_BYTES < bytes' then Inl (ContentTooLarge path)
             else case fingerprint_lines path (index + 1) bytes' vs of
                 Inl e \<Rightarrow> Inl e | Inr ls \<Rightarrow> Inr (strip_hashes line # ls))"

definition parse_fingerprint :: "ustr \<Rightarrow> json option \<Rightarrow> param_error + ustr list option" where
  "parse_fingerprint path content =
     (case content of
        None \<Rightarrow> Inr None
      | Some v \<Rightarrow>
          (case as_array v of
             None \<Rightarrow> Inl (ContentNotArray path)
           | Some arr \<Rightarrow>
               if MAX_FINGERPRINT_CONTENT_LINES < length arr then Inl (ContentTooLong path)
               else case fingerprint_lines path 0 0 arr of
                   Inl e \<Rightarrow> Inl e | Inr ls \<Rightarrow> Inr (if ls = [] then None else Some ls)))"

definition parse_block_edit :: "ustr \<Rightarrow> nat \<Rightarrow> ustr \<Rightarrow> json \<Rightarrow> param_error + edit" where
  "parse_block_edit path number old_text v =
     (if has_field ''anchor'' v \<or> has_field ''end_anchor'' v \<or> has_field ''edit_type'' v \<or> has_field ''content'' v
      then Inl (BlockAndAnchor number path)
      else case text_field new_text_keys v of
          None \<Rightarrow> Inl (ReplacementMissing number path)
        | Some new_text \<Rightarrow>
            Inr \<lparr>ed_anchor = [], ed_end_anchor = None, ed_edit_type = str ''replace'', ed_text = strip_hashes new_text,
                 ed_content = None, ed_old_text = Some (strip_hashes old_text)\<rparr>)"

definition parse_end_block :: "ustr \<Rightarrow> json \<Rightarrow> param_error + ustr list" where
  "parse_end_block path v =
     (case get_str v (str ''end_anchor'') of
        None \<Rightarrow> Inr [] | Some raw \<Rightarrow> normalized_selector_block ''end_anchor'' path raw)"

text \<open>The text and the fingerprint, after the selectors have been read.\<close>

definition parse_replacement :: "ustr \<Rightarrow> json \<Rightarrow> ustr \<Rightarrow> ustr option \<Rightarrow> ustr \<Rightarrow> param_error + edit" where
  "parse_replacement path v anchor end_anchor edit_type =
     (case json_get v (str ''text'') of
        None \<Rightarrow> Inl (TextMissing path)
      | Some text_value \<Rightarrow>
          (case as_str text_value of
             None \<Rightarrow> Inl (TextNotString path)
           | Some text_raw \<Rightarrow>
               (case parse_fingerprint path (json_get v (str ''content'')) of
                  Inl e \<Rightarrow> Inl e
                | Inr content \<Rightarrow>
                    Inr \<lparr>ed_anchor = anchor, ed_end_anchor = end_anchor, ed_edit_type = edit_type,
                         ed_text = strip_hashes text_raw, ed_content = content, ed_old_text = None\<rparr>)))"

definition parse_anchored_edit :: "ustr \<Rightarrow> nat \<Rightarrow> json \<Rightarrow> param_error + edit" where
  "parse_anchored_edit path number v =
     (case get_str v (str ''anchor'') of
        None \<Rightarrow> Inl (AnchorMissing number path)
      | Some anchor_raw \<Rightarrow>
          (case normalized_selector_block ''anchor'' path anchor_raw of
             Inl e \<Rightarrow> Inl e
           | Inr anchor_block \<Rightarrow>
               let all_anchored = (1 < length anchor_block \<and> list_all (\<lambda>l. delim \<in> set l) anchor_block);
                   anchor = join [nl] anchor_block;
                   edit_type = (case get_str v (str ''edit_type'') of Some t \<Rightarrow> t | None \<Rightarrow> str ''replace'')
               in case validate_edit_type edit_type of
                    Inl e \<Rightarrow> Inl e
                  | Inr _ \<Rightarrow>
                      (case parse_end_block path v of
                         Inl e \<Rightarrow> Inl e
                       | Inr end_block \<Rightarrow>
                           let end_anchor = (if end_block = [] then None else Some (join [nl] end_block))
                           in if (nl \<in> set anchor \<or> 1 < length end_block) \<and> edit_type \<noteq> str ''replace''
                              then Inl (BlockNotReplace path)
                              else if nl \<in> set anchor \<and> end_anchor \<noteq> None \<and> \<not> all_anchored
                              then Inl (PlainBlockAndEnd path)
                              else parse_replacement path v anchor end_anchor edit_type)))"

definition parse_edit :: "ustr \<Rightarrow> nat \<Rightarrow> json \<Rightarrow> param_error + edit" where
  "parse_edit path number v =
     (case text_field old_text_keys v of
        Some old_text \<Rightarrow> parse_block_edit path number old_text v
      | None \<Rightarrow> parse_anchored_edit path number v)"

text \<open>The edits of a file entry before they are read.\<close>

definition edits_of_file ::
  "(ustr \<Rightarrow> json_error + json list) \<Rightarrow> (ustr \<Rightarrow> bool) \<Rightarrow> ustr \<Rightarrow> json \<Rightarrow> param_error + json list" where
  "edits_of_file read_values valid path file =
     (case text_field old_text_keys file of
        Some old_text \<Rightarrow>
          if has_field ''edits'' file then Inl (FileTextAndEdits path)
          else Inr [JObject [(str ''old_text'', JString old_text), (str ''new_text'',
            JString (case text_field new_text_keys file of Some t \<Rightarrow> t | None \<Rightarrow> []))]]
      | None \<Rightarrow>
          (case json_get file (str ''edits'') of
             Some (JArray edits) \<Rightarrow> Inr edits
           | Some (JString raw) \<Rightarrow>
               (case parse_stringified_edits_array read_values valid raw of
                  Inl e \<Rightarrow> Inl (EditsUnparsable e) | Inr edits \<Rightarrow> Inr edits)
           | _ \<Rightarrow>
               if get_str file (str ''anchor'') \<noteq> None \<or> get_str file (str ''edit_type'') \<noteq> None
                  \<or> get_str file (str ''text'') \<noteq> None
               then Inl (FieldsOutsideEdits path) else Inl (EditsMissing path)))"

definition parse_file ::
  "(ustr \<Rightarrow> json_error + json list) \<Rightarrow> (ustr \<Rightarrow> bool) \<Rightarrow> json \<Rightarrow> param_error + ustr \<times> edit list" where
  "parse_file read_values valid file =
     (case file_entry_path file of
        Inl e \<Rightarrow> Inl e
      | Inr path \<Rightarrow>
          (case edits_of_file read_values valid path file of
             Inl e \<Rightarrow> Inl e
           | Inr raws \<Rightarrow>
               (case all_right (map (\<lambda>(i, v). parse_edit path (i + 1) v) (enumerate 0 raws)) of
                  Inl e \<Rightarrow> Inl e | Inr edits \<Rightarrow> Inr (path, edits))))"

definition parse_edits ::
  "(ustr \<Rightarrow> json_error + json list) \<Rightarrow> (ustr \<Rightarrow> bool) \<Rightarrow> json list \<Rightarrow> param_error + (ustr \<times> edit list) list" where
  "parse_edits read_values valid files = all_right (map (parse_file read_values valid) files)"

section \<open>What the reader of edits guarantees\<close>

text \<open>An edit is in one of two forms: a block without anchors, or an anchored edit of a known type whose anchors are not
  empty, whose fingerprint is bounded, and which spans several quoted lines only to replace them.\<close>

definition well_formed_edit :: "edit \<Rightarrow> bool" where
  "well_formed_edit e \<longleftrightarrow>
     (case ed_old_text e of
        Some _ \<Rightarrow> ed_anchor e = [] \<and> ed_end_anchor e = None \<and> ed_content e = None \<and> ed_edit_type e = str ''replace''
      | None \<Rightarrow>
          ed_anchor e \<noteq> [] \<and> ed_end_anchor e \<noteq> Some []
          \<and> ed_edit_type e \<in> {str ''replace'', str ''insert_before'', str ''insert_after''}
          \<and> (case ed_content e of None \<Rightarrow> True | Some ls \<Rightarrow> ls \<noteq> [] \<and> length ls \<le> MAX_FINGERPRINT_CONTENT_LINES)
          \<and> (nl \<notin> set (ed_anchor e) \<and> (case ed_end_anchor e of None \<Rightarrow> True | Some a \<Rightarrow> nl \<notin> set a)
             \<or> ed_edit_type e = str ''replace''))"

lemma all_right_map [simp]: "all_right (map Inr xs) = Inr xs"
  by (induction xs) simp_all

lemma all_right_Inr: "all_right rs = Inr xs \<longleftrightarrow> rs = map Inr xs"
proof
  show "all_right rs = Inr xs \<Longrightarrow> rs = map Inr xs"
    by (induction rs arbitrary: xs) (auto split: sum.splits)
qed simp

lemma normalized_anchor_Inr:
  "normalized_anchor field path raw = Inr a \<Longrightarrow> a \<noteq> [] \<and> \<not> list_ex is_break a"
  by (auto simp: normalized_anchor_def Let_def split: if_splits)

lemma join_neq_Nil: "ls \<noteq> [] \<Longrightarrow> hd ls \<noteq> [] \<Longrightarrow> join sep ls \<noteq> []"
  by (cases ls; cases "tl ls") (auto simp: join_Cons)

lemma edit_anchor_nonempty: "normalized_edit_anchor path raw = Inr a \<Longrightarrow> a \<noteq> []"
  by (auto simp: normalized_edit_anchor_def Let_def join_neq_Nil
      split: if_splits sum.splits option.splits dest!: normalized_anchor_Inr)

lemma split_on_hd: "s \<noteq> [] \<Longrightarrow> split_on d s \<noteq> [[]]"
  by (metis join.simps(2) join_split)

lemma selector_block:
  assumes "normalized_selector_block field path raw = Inr block"
  shows "block \<noteq> [] \<and> join [nl] block \<noteq> [] \<and> (length block \<le> 1 \<longrightarrow> nl \<notin> set (join [nl] block))"
proof (cases "field = ''anchor''")
  case True
  then obtain a where a: "normalized_edit_anchor path raw = Inr a" "block = split_on nl a"
    using assms by (auto simp: normalized_selector_block_def split: sum.splits)
  have "nl \<notin> set a" if "length (split_on nl a) \<le> 1"
    using that by (metis One_nat_def Suc_le_mono count_list_0_iff length_split_on le_zero_eq)
  then show ?thesis using a edit_anchor_nonempty by simp
next
  case False
  let ?b = "case strip_line_end raw of None \<Rightarrow> raw | Some v \<Rightarrow> v"
  show ?thesis
  proof (cases "length (split_on nl ?b) = 1")
    case True
    then obtain a where "normalized_anchor field path (hd (split_on nl ?b)) = Inr a" "block = [a]"
      using assms False by (auto simp: normalized_selector_block_def Let_def split: sum.splits)
    then show ?thesis using normalized_anchor_Inr[of field path _ a] by (auto simp: list_ex_iff is_break_def)
  next
    case n: False
    then have m: "map (normalized_anchor field path) (split_on nl ?b) = map Inr block"
      using assms False by (auto simp: normalized_selector_block_def Let_def all_right_Inr split: if_splits)
    then have l: "length block = length (split_on nl ?b)" by (metis length_map)
    then have "block \<noteq> []" "1 < length block" using n by (metis length_0_conv split_on_neq_Nil, metis length_0_conv linorder_neqE_nat less_one split_on_neq_Nil)
    moreover have "normalized_anchor field path (hd (split_on nl ?b)) = Inr (hd block)"
      using m calculation(1) by (cases block; cases "split_on nl ?b") auto
    ultimately show ?thesis using normalized_anchor_Inr join_neq_Nil by fastforce
  qed
qed

lemma fingerprint_lines_length: "fingerprint_lines path i n vs = Inr ls \<Longrightarrow> length ls = length vs"
  by (induction path i n vs arbitrary: ls rule: fingerprint_lines.induct) (auto simp: Let_def split: option.splits if_splits sum.splits)

lemma fingerprint_bounded:
  "parse_fingerprint path content = Inr (Some ls) \<Longrightarrow> ls \<noteq> [] \<and> length ls \<le> MAX_FINGERPRINT_CONTENT_LINES"
  by (auto simp: parse_fingerprint_def split: option.splits if_splits sum.splits dest: fingerprint_lines_length)

lemma parse_replacement_Inr:
  assumes "parse_replacement path v anchor end_anchor edit_type = Inr e"
  shows "ed_anchor e = anchor \<and> ed_end_anchor e = end_anchor \<and> ed_edit_type e = edit_type \<and> ed_old_text e = None
    \<and> (case ed_content e of None \<Rightarrow> True | Some ls \<Rightarrow> ls \<noteq> [] \<and> length ls \<le> MAX_FINGERPRINT_CONTENT_LINES)"
  using assms by (auto simp: parse_replacement_def split: option.splits sum.splits dest: fingerprint_bounded)

lemma parse_anchored_well_formed:
  assumes "parse_anchored_edit path number v = Inr e"
  shows "well_formed_edit e"
proof -
  obtain raw block where b: "get_str v (str ''anchor'') = Some raw" "normalized_selector_block ''anchor'' path raw = Inr block"
    using assms by (auto simp: parse_anchored_edit_def split: option.splits sum.splits)
  let ?t = "case get_str v (str ''edit_type'') of Some t \<Rightarrow> t | None \<Rightarrow> str ''replace''"
  obtain eb where t: "validate_edit_type ?t = Inr ()" and eb: "parse_end_block path v = Inr eb"
    using assms b by (auto simp: parse_anchored_edit_def Let_def split: sum.splits)
  have r: "\<not> ((nl \<in> set (join [nl] block) \<or> 1 < length eb) \<and> ?t \<noteq> str ''replace'')"
    and p: "parse_replacement path v (join [nl] block) (if eb = [] then None else Some (join [nl] eb)) ?t = Inr e"
    using assms b t eb by (auto simp: parse_anchored_edit_def Let_def split: if_splits)
  note s = selector_block[OF b(2)]
  have e: "eb \<noteq> [] \<longrightarrow> join [nl] eb \<noteq> [] \<and> (length eb \<le> 1 \<longrightarrow> nl \<notin> set (join [nl] eb))"
    using eb selector_block by (auto simp: parse_end_block_def split: option.splits)
  have "?t \<in> {str ''replace'', str ''insert_before'', str ''insert_after''}"
    using t by (simp add: validate_edit_type_def split: if_splits)
  moreover have "?t = str ''replace'' \<or> nl \<notin> set (join [nl] block) \<and> length eb \<le> 1" using r by auto
  ultimately show ?thesis
    using parse_replacement_Inr[OF p] s e unfolding well_formed_edit_def by (auto split: if_splits)
qed

lemma parse_edit_well_formed:
  assumes "parse_edit path number v = Inr e"
  shows "well_formed_edit e"
proof (cases "text_field old_text_keys v")
  case None
  then show ?thesis using assms parse_anchored_well_formed by (simp add: parse_edit_def)
next
  case (Some t)
  then have "parse_block_edit path number t v = Inr e" using assms by (simp add: parse_edit_def)
  then show ?thesis
    by (auto simp: parse_block_edit_def well_formed_edit_def split: option.splits if_splits)
qed

text \<open>C30. Every edit the handler reads from the model's parameters is in one of the two forms the engine knows: a block
  replacement with nothing else, or an anchored edit of a known type with anchors that are not empty and a bounded
  fingerprint, quoting several lines only to replace them.\<close>

theorem parsed_edits_well_formed:
  assumes "parse_edits read_values valid files = Inr parsed_files" and "(path, edits) \<in> set parsed_files" and "e \<in> set edits"
  shows "well_formed_edit e"
proof -
  have "map (parse_file read_values valid) files = map Inr parsed_files"
    using assms(1) by (simp add: parse_edits_def all_right_Inr)
  then obtain entry where "parse_file read_values valid entry = Inr (path, edits)"
    using assms(2) by (metis (no_types, lifting) image_iff image_set list.set_map)
  then obtain raws where "map (\<lambda>(i, v). parse_edit path (i + 1) v) (enumerate 0 raws) = map Inr edits"
    by (auto simp: parse_file_def all_right_Inr split: sum.splits)
  then have "Inr e \<in> set (map (\<lambda>(i, v). parse_edit path (i + 1) v) (enumerate 0 raws))"
    using assms(3) by simp
  then obtain i v where "parse_edit path (i + 1) v = Inr e" by auto
  then show ?thesis by (rule parse_edit_well_formed)
qed

text \<open>A file entry with one replacement, for concrete inputs.\<close>

definition edit_entry :: "(ustr \<times> json) list \<Rightarrow> ustr \<Rightarrow> json" where
  "edit_entry more_fields anchor =
     JObject (more_fields @ [(str ''edits'', JArray [JObject [(str ''anchor'', JString anchor), (str ''text'', JString (str ''x''))]])])"

definition no_values :: "ustr \<Rightarrow> json_error + json list" where
  "no_values s = Inl \<lparr>je_eof = False, je_message = []\<rparr>"

lemma parsed_edits_well_formed_witness:
  "well_formed_edit \<lparr>ed_anchor = str ''Ab'' @ [delim] @ str ''old'', ed_end_anchor = None, ed_edit_type = str ''replace'',
     ed_text = str ''x'', ed_content = None, ed_old_text = None\<rparr>"
  by (rule parsed_edits_well_formed[where read_values = no_values and valid = "\<lambda>_. False" and path = "str ''f''"
      and files = "[edit_entry [(str ''path'', JString (str ''f''))] (str ''+12: Ab'' @ [delim] @ str ''old'')]"
      and edits = "[\<lparr>ed_anchor = str ''Ab'' @ [delim] @ str ''old'', ed_end_anchor = None, ed_edit_type = str ''replace'',
        ed_text = str ''x'', ed_content = None, ed_old_text = None\<rparr>]"
      and parsed_files = "[(str ''f'', [\<lparr>ed_anchor = str ''Ab'' @ [delim] @ str ''old'', ed_end_anchor = None,
        ed_edit_type = str ''replace'', ed_text = str ''x'', ed_content = None, ed_old_text = None\<rparr>])]"])
    (code_simp, simp, simp)

section \<open>Locks and approval cover what is edited\<close>

lemma entry_path_requested:
  "file_entry_path entry = Inr path \<Longrightarrow> requested_path entry = Some path"
  by (auto simp: file_entry_path_def requested_path_def get_str_def split: option.splits sum.splits)

lemma in_map_filter: "x \<in> set xs \<Longrightarrow> f x = Some y \<Longrightarrow> y \<in> set (List.map_filter f xs)"
  by (force simp: List.map_filter_def)

lemma map_filter_Nil: "List.map_filter f xs = [] \<longleftrightarrow> (\<forall>x \<in> set xs. f x = None)"
  by (auto simp: List.map_filter_def filter_empty_conv)

lemma requested_direct:
  assumes "request_files read_values valid params = Some files" and "entry \<in> set files" and "file_entry_path entry = Inr path"
  shows "path \<in> set (requested_paths_for_locking read_values valid params)"
proof -
  have "path \<in> set (List.map_filter requested_path files)"
    using in_map_filter[where f = requested_path, OF assms(2) entry_path_requested[OF assms(3)]] .
  then show ?thesis using assms(1) by (auto simp: requested_paths_for_locking_def Let_def)
qed

lemma fallback_entries:
  assumes "entry \<in> set (apply_top_level_path_fallback fallback files)"
  shows "entry \<in> set files \<and> (fallback = None \<or> files = [] \<or> \<not> list_all lacks_path files)
    \<or> (\<exists>p ms. fallback = Some p \<and> files \<noteq> [] \<and> list_all lacks_path files
        \<and> entry = JObject (json_insert (str ''path'') (JString p) ms))"
proof (cases fallback)
  case None
  then show ?thesis using assms by (simp add: apply_top_level_path_fallback_def)
next
  case (Some p)
  have l: "length (filter lacks_path files) = length files \<longleftrightarrow> list_all lacks_path files"
    by (metis filter_id_conv length_filter_less less_irrefl list_all_iff)
  show ?thesis
  proof (cases "files \<noteq> [] \<and> list_all lacks_path files")
    case True
    then have n: "length (filter lacks_path files) = length files" "length (filter lacks_path files) \<noteq> 0" using l by auto
    obtain f where f: "f \<in> set files" "entry = (case json_members f of None \<Rightarrow> f
        | Some ms \<Rightarrow> JObject (json_insert (str ''path'') (JString p) ms))"
      using assms Some n by (auto simp: apply_top_level_path_fallback_def Let_def)
    have "lacks_path f" using True f(1) by (simp add: list_all_iff)
    then obtain ms where "json_members f = Some ms" by (cases f) (auto simp: lacks_path_def has_field_def json_members_def)
    then show ?thesis using True Some f(2) by auto
  next
    case False
    then show ?thesis using assms Some l by (auto simp: apply_top_level_path_fallback_def Let_def split: if_splits)
  qed
qed

lemma inserted_entry_path:
  "file_entry_path (JObject (json_insert (str ''path'') (JString p) ms)) = Inr path \<Longrightarrow> path = p"
  by (auto simp: file_entry_path_def split: option.splits sum.splits)

text \<open>Every file the handler edits is among the paths it locks and shows to the approval, unless the request mixes a
  path at its top with paths inside edits.\<close>

lemma edited_paths_requested:
  assumes "request_files read_values valid params = Some files"
    and "entry \<in> set (apply_top_level_path_fallback (get_str params (str ''path'')) files)"
    and "parse_file read_values valid entry = Inr (path, edits)"
    and "get_str params (str ''path'') = None \<or> List.map_filter first_edit_path files = []"
  shows "path \<in> set (requested_paths_for_locking read_values valid params)"
proof -
  have p: "file_entry_path entry = Inr path"
    using assms(3) by (auto simp: parse_file_def split: sum.splits)
  show ?thesis
  proof (cases "entry \<in> set files")
    case True
    then show ?thesis using requested_direct[OF assms(1)] p by blast
  next
    case False
    then obtain q ms where q: "get_str params (str ''path'') = Some q" "list_all lacks_path files"
      and e: "entry = JObject (json_insert (str ''path'') (JString q) ms)"
      using fallback_entries[OF assms(2)] by blast
    have "requested_path f = None" if "f \<in> set files" for f
      using q that assms(4) by (auto simp: requested_path_def lacks_path_def has_field_def get_str_def map_filter_Nil list_all_iff)
    then have "requested_paths_for_locking read_values valid params = [q]"
      using assms(1) q by (simp add: requested_paths_for_locking_def map_filter_Nil[THEN iffD2])
    then show ?thesis using inserted_entry_path p e by auto
  qed
qed

text \<open>With both, the entry without a path of its own is edited at the top path, which is neither locked nor shown.\<close>

lemma mixed_paths_unrequested:
  "let params = JObject [(str ''path'', JString (str ''b'')),
         (str ''files'', JArray [JObject [(str ''edits'', JArray [JObject [(str ''path'', JString (str ''a''))]])],
            edit_entry [] (str ''Ab'' @ [delim] @ str ''old'')])]
   in requested_paths_for_locking no_values (\<lambda>_. False) params = [str ''a'']
      \<and> (case request_files no_values (\<lambda>_. False) params of None \<Rightarrow> False
         | Some files \<Rightarrow> file_entry_path (apply_top_level_path_fallback (get_str params (str ''path'')) files ! 1) = Inr (str ''b''))"
  by code_simp

end
