(* ===== verification/ToolCalls.thy ===== *)
theory ToolCalls
  imports ToolBatch EditParams
begin

text \<open>
  From the text a model sends to a call that can be decided on: the arguments (\<open>parse_tool_arguments\<close>), the identity of
  a call (\<open>prepare_tool_calls\<close>), the files it names (\<open>extract_action_path\<close>, \<open>extract_file_action_path\<close> of
  \<open>src/core/tools/execution.rs\<close>, \<open>coerce_string_array\<close> of \<open>src/core/tools/mod.rs\<close>, \<open>read_replacements\<close> of
  \<open>handlers/replace_symbol.rs\<close>) and its fingerprint. \<open>parse\<close> and \<open>read_values\<close> are \<open>serde_json::from_str\<close> of a value and of an array of
  values, \<open>render\<close> is \<open>serde_json::to_string\<close>, \<open>ulid\<close> the supply of new identifiers.
\<close>

section \<open>Lists of strings\<close>

definition coerce_string_array :: "(ustr \<Rightarrow> json option) \<Rightarrow> json \<Rightarrow> string \<Rightarrow> string \<Rightarrow> ustr list" where
  "coerce_string_array parse params plural_key singular_key =
     (case get_array params (str plural_key) of
        Some values \<Rightarrow> json_strings values
      | None \<Rightarrow>
          (case get_str params (str plural_key) of
             Some s \<Rightarrow> (case string_vec (parse s) of Some values \<Rightarrow> values | None \<Rightarrow> [s])
           | None \<Rightarrow> (case get_str params (str singular_key) of Some s \<Rightarrow> [s] | None \<Rightarrow> [])))"

section \<open>Replacements of symbols\<close>

record symbol_replacement =
  rp_path :: ustr
  rp_symbol :: ustr
  rp_text :: ustr
  rp_symbol_type :: "ustr option"

definition read_replacement :: "json \<Rightarrow> symbol_replacement option" where
  "read_replacement item =
     (case text_field [''symbol'', ''old_name''] item of
        None \<Rightarrow> None
      | Some symbol \<Rightarrow>
          (case text_field [''text'', ''replacement'', ''new_name''] item of
             None \<Rightarrow> None
           | Some new \<Rightarrow>
               (case get_str item (str ''path'') of
                  None \<Rightarrow> None
                | Some path \<Rightarrow>
                    Some \<lparr>rp_path = path, rp_symbol = symbol, rp_text = new, rp_symbol_type = get_str item (str ''type'')\<rparr>)))"

definition str_or_empty :: "ustr option \<Rightarrow> ustr" where
  "str_or_empty s = (case s of Some t \<Rightarrow> t | None \<Rightarrow> [])"

definition read_replacements :: "json \<Rightarrow> symbol_replacement list" where
  "read_replacements params =
     (case get_array params (str ''replacements'') of
        Some items \<Rightarrow> List.map_filter read_replacement items
      | None \<Rightarrow>
          let path = str_or_empty (get_str params (str ''path''));
              symbol = str_or_empty (text_field [''symbol'', ''old_name''] params);
              new = str_or_empty (text_field [''text'', ''replacement'', ''new_name''] params)
          in if path = [] \<or> symbol = [] \<or> new = [] then []
             else [\<lparr>rp_path = path, rp_symbol = symbol, rp_text = new, rp_symbol_type = get_str params (str ''type'')\<rparr>])"

section \<open>The paths of a call\<close>

definition path_argument :: "json \<Rightarrow> ustr list" where
  "path_argument params = (case get_str params (str ''path'') of Some p \<Rightarrow> [p] | None \<Rightarrow> [])"

definition extract_action_path ::
  "(ustr \<Rightarrow> json option) \<Rightarrow> (ustr \<Rightarrow> json_error + json list) \<Rightarrow> (ustr \<Rightarrow> bool) \<Rightarrow> sned_tool \<Rightarrow> json \<Rightarrow> ustr list" where
  "extract_action_path parse read_values valid tool params =
     (if tool \<in> {ReadFile, GetFileSkeleton, FindSymbolReferences, DiagnosticsScan, RenameSymbol}
      then coerce_string_array parse params ''paths'' ''path''
      else if tool \<in> {WriteToFile, SearchFiles, ListFiles, GetFunction} then path_argument params
      else if tool = EditFile then requested_paths_for_locking read_values valid params
      else if tool = ReplaceSymbol
      then (case get_str params (str ''path'') of
          Some p \<Rightarrow> [p]
        | None \<Rightarrow>
            (case get_array params (str ''replacements'') of
               Some items \<Rightarrow> List.map_filter (\<lambda>r. get_str r (str ''path'')) items
             | None \<Rightarrow> []))
      else [])"

record file_action_path =
  fa_normalized :: path
  fa_display :: ustr

text \<open>Every resolved path once, with the first name it was given.\<close>

fun resolved_once :: "file_system \<Rightarrow> path \<Rightarrow> path set \<Rightarrow> ustr list \<Rightarrow> file_action_path list" where
  "resolved_once fs workspace_root seen [] = []"
| "resolved_once fs workspace_root seen (display # ds) =
     (case resolve_sanitized_path fs workspace_root display of
        Inl _ \<Rightarrow> resolved_once fs workspace_root seen ds
      | Inr normalized \<Rightarrow>
          if normalized \<in> seen then resolved_once fs workspace_root seen ds
          else \<lparr>fa_normalized = normalized, fa_display = display\<rparr>
            # resolved_once fs workspace_root (insert normalized seen) ds)"

definition edit_entry_path :: "ustr option \<Rightarrow> json \<Rightarrow> ustr option" where
  "edit_entry_path fallback file =
     (case fallback of
        Some p \<Rightarrow> Some p
      | None \<Rightarrow> (case json_get file (str ''path'') of Some v \<Rightarrow> as_str v | None \<Rightarrow> first_edit_path file))"

definition file_action_requests :: "ustr \<Rightarrow> json \<Rightarrow> ustr list" where
  "file_action_requests name params =
     (if name = str ''edit_file''
      then (case get_array params (str ''files'') of
          None \<Rightarrow> []
        | Some files \<Rightarrow>
            let fallback = get_str params (str ''path'');
                use_fallback = (fallback \<noteq> None \<and> files \<noteq> [] \<and> list_all lacks_path files)
            in List.map_filter (edit_entry_path (if use_fallback then fallback else None)) files)
      else if name = str ''write_to_file'' then path_argument params else [])"

definition extract_file_action_path :: "file_system \<Rightarrow> path \<Rightarrow> ustr \<Rightarrow> json \<Rightarrow> file_action_path list" where
  "extract_file_action_path fs workspace_root name params =
     resolved_once fs workspace_root {} (file_action_requests name params)"

section \<open>Arguments\<close>

abbreviation MAX_TOOL_ARGUMENT_SIZE :: int where "MAX_TOOL_ARGUMENT_SIZE \<equiv> 131072"

abbreviation arguments_error_field :: ustr where "arguments_error_field \<equiv> str ''__sned_tool_arguments_error''"

definition tool_arguments_error :: "json \<Rightarrow> ustr option" where
  "tool_arguments_error v = get_str v arguments_error_field"

datatype arguments_error =
    ArgumentsTooLarge nat | ArgumentsRejected ustr | AmbiguousCommands | ArgumentsNotNormalized param_error
  | ArgumentsInvalid

text \<open>A list of commands that arrived as one text.\<close>

definition normalize_commands :: "(ustr \<Rightarrow> json option) \<Rightarrow> json \<Rightarrow> arguments_error + json" where
  "normalize_commands parse params =
     (case get_str params (str ''commands'') of
        None \<Rightarrow> Inr params
      | Some raw \<Rightarrow>
          if \<not> starts_with [91, 34] (trim raw) then Inr params
          else (case (case parse_unambiguous_stringified_string_array parse raw of
                        Some commands \<Rightarrow> Some commands
                      | None \<Rightarrow> parse_relaxed_stringified_string_array parse raw) of
                  None \<Rightarrow> Inl AmbiguousCommands
                | Some commands \<Rightarrow>
                    (case json_members params of
                       None \<Rightarrow> Inr params
                     | Some ms \<Rightarrow>
                         Inr (JObject (json_insert (str ''commands'') (JArray (map JString commands)) ms)))))"

definition parse_tool_arguments ::
  "(ustr \<Rightarrow> json option) \<Rightarrow> (ustr \<Rightarrow> json_error + json list) \<Rightarrow> (ustr \<Rightarrow> bool) \<Rightarrow> ustr \<Rightarrow> ustr option
     \<Rightarrow> arguments_error + json" where
  "parse_tool_arguments parse read_values valid name raw_arguments =
     (case raw_arguments of
        None \<Rightarrow> Inr (JObject [])
      | Some raw \<Rightarrow>
          if MAX_TOOL_ARGUMENT_SIZE < int (byte_len raw) then Inl (ArgumentsTooLarge (byte_len raw))
          else if trim raw = [] then Inr (JObject [])
          else (case parse raw of
                  None \<Rightarrow> Inl ArgumentsInvalid
                | Some params \<Rightarrow>
                    (case tool_arguments_error params of
                       Some e \<Rightarrow> Inl (ArgumentsRejected e)
                     | None \<Rightarrow>
                         if name = str ''execute_command'' then normalize_commands parse params
                         else if name = str ''edit_file''
                         then (case normalize_stringified_files_param read_values valid params of
                             Inl e \<Rightarrow> Inl (ArgumentsNotNormalized e) | Inr (_, params') \<Rightarrow> Inr params')
                         else Inr params)))"

section \<open>Calls\<close>

record api_tool_call =
  at_call_id :: "ustr option"
  at_id :: "ustr option"
  at_name :: "ustr option"
  at_arguments :: "ustr option"
  at_signature :: "ustr option"

record prepared_tool_call =
  ptc_call :: api_tool_call
  ptc_id :: ustr
  ptc_name :: ustr
  ptc_args :: "arguments_error + json"

text \<open>A call without an identifier is given one, also in the table. The clone in the result has neither identifier nor name.\<close>

fun prepare_tool_calls ::
  "(ustr option \<Rightarrow> ustr \<Rightarrow> arguments_error + json) \<Rightarrow> (nat \<Rightarrow> ustr) \<Rightarrow> nat \<Rightarrow> ustr list \<Rightarrow> (ustr \<Rightarrow> api_tool_call option)
     \<Rightarrow> prepared_tool_call list \<times> nat \<times> (ustr \<Rightarrow> api_tool_call option)" where
  "prepare_tool_calls args_of ulid n [] calls = ([], n, calls)"
| "prepare_tool_calls args_of ulid n (key # keys) calls =
     (case calls key of
        None \<Rightarrow> prepare_tool_calls args_of ulid n keys calls
      | Some call \<Rightarrow>
          let fresh = (case at_id call of None \<Rightarrow> True | Some i \<Rightarrow> i = []);
              call' = (if fresh then call\<lparr>at_id := Some (ulid n)\<rparr> else call);
              n' = (if fresh then Suc n else n);
              name = (case at_name call' of Some m \<Rightarrow> m | None \<Rightarrow> str ''unknown_tool'');
              prepared = \<lparr>ptc_call = call'\<lparr>at_id := None, at_name := None\<rparr>, ptc_id = the (at_id call'), ptc_name = name,
                ptc_args = args_of (at_arguments call') name\<rparr>;
              (rest, n'', calls') = prepare_tool_calls args_of ulid n' keys (calls(key \<mapsto> call'))
          in (prepared # rest, n'', calls'))"

section \<open>Fingerprints\<close>

text \<open>The keys of every object in the order of a \<open>BTreeMap\<close>: that of their bytes, which is that of their characters.\<close>

function canonicalize_tool_params :: "json \<Rightarrow> json" where
  "canonicalize_tool_params (JObject ms) =
     JObject (sort_key fst (map (\<lambda>m. (fst m, canonicalize_tool_params (snd m))) ms))"
| "canonicalize_tool_params (JArray items) = JArray (map canonicalize_tool_params items)"
| "canonicalize_tool_params JNull = JNull"
| "canonicalize_tool_params (JBool b) = JBool b"
| "canonicalize_tool_params (JNumber n) = JNumber n"
| "canonicalize_tool_params (JString s) = JString s"
  by pat_completeness auto

lemma member_smaller: "m \<in> set ms \<Longrightarrow> size (snd m) < Suc (size_list (size_prod (\<lambda>x. 0) size) ms)"
  by (induction ms) (auto simp: size_prod_def)

termination canonicalize_tool_params
  by (relation "measure size") (auto simp: member_smaller less_Suc_eq_le size_list_estimation')

definition tool_params_fingerprint :: "(json \<Rightarrow> ustr) \<Rightarrow> json \<Rightarrow> ustr" where
  "tool_params_fingerprint render params = render (canonicalize_tool_params params)"

definition call_signature :: "(json \<Rightarrow> ustr) \<Rightarrow> prepared_tool_call \<Rightarrow> ustr" where
  "call_signature render prepared =
     (case ptc_args prepared of
        Inr args \<Rightarrow> ptc_name prepared @ str '':'' @ render args
      | Inl _ \<Rightarrow> ptc_name prepared @ str '':<malformed:'' @ str_or_empty (at_arguments (ptc_call prepared)) @ str ''>'')"

definition tool_batch_signature :: "(json \<Rightarrow> ustr) \<Rightarrow> prepared_tool_call list \<Rightarrow> ustr" where
  "tool_batch_signature render calls = join [nl] (map (call_signature render) calls)"

section \<open>The call for the approval\<close>

definition approval_call ::
  "approval_world \<Rightarrow> (ustr \<Rightarrow> json_error + json list) \<Rightarrow> (ustr \<Rightarrow> bool) \<Rightarrow> (json \<Rightarrow> ustr) \<Rightarrow> path \<Rightarrow> sned_tool \<Rightarrow> json
     \<Rightarrow> tool_call" where
  "approval_call w read_values valid render workspace_root tool params =
     (let action_paths = extract_action_path (aw_parse w) read_values valid tool params
      in \<lparr>tc_tool = tool, tc_params = params, tc_action_paths = action_paths,
          tc_external_directories = external_action_directories (aw_fs w) tool workspace_root action_paths,
          tc_fingerprint = tool_params_fingerprint render params\<rparr>)"

section \<open>The order of keys does not matter\<close>

text \<open>Equal values up to the order of the members of their objects, whose keys are distinct.\<close>

function distinct_keys :: "json \<Rightarrow> bool" where
  "distinct_keys (JObject ms) \<longleftrightarrow> distinct (map fst ms) \<and> (\<forall>m \<in> set ms. distinct_keys (snd m))"
| "distinct_keys (JArray items) \<longleftrightarrow> (\<forall>v \<in> set items. distinct_keys v)"
| "distinct_keys JNull \<longleftrightarrow> True"
| "distinct_keys (JBool b) \<longleftrightarrow> True"
| "distinct_keys (JNumber n) \<longleftrightarrow> True"
| "distinct_keys (JString s) \<longleftrightarrow> True"
  by pat_completeness auto

termination distinct_keys
  by (relation "measure size") (auto simp: member_smaller less_Suc_eq_le size_list_estimation')

function same_json :: "json \<Rightarrow> json \<Rightarrow> bool" where
  "same_json (JObject ms) w \<longleftrightarrow>
     (case w of
        JObject ns \<Rightarrow> length ms = length ns
          \<and> (\<forall>m \<in> set ms. case map_of ns (fst m) of Some u \<Rightarrow> same_json (snd m) u | None \<Rightarrow> False)
      | _ \<Rightarrow> False)"
| "same_json (JArray items) w \<longleftrightarrow>
     (case w of
        JArray others \<Rightarrow> length items = length others \<and> (\<forall>p \<in> set (zip items others). same_json (fst p) (snd p))
      | _ \<Rightarrow> False)"
| "same_json JNull w \<longleftrightarrow> w = JNull"
| "same_json (JBool b) w \<longleftrightarrow> w = JBool b"
| "same_json (JNumber n) w \<longleftrightarrow> w = JNumber n"
| "same_json (JString s) w \<longleftrightarrow> w = JString s"
  by pat_completeness auto

termination same_json
  by (relation "measure (size \<circ> fst)")
    (auto simp: member_smaller less_Suc_eq_le size_list_estimation' dest!: set_zip_leftD)

lemma map_of_members: "map_of (map (\<lambda>m. (fst m, f (snd m))) ms) k = map_option f (map_of ms k)"
  by (induction ms) auto

lemma distinct_keys_set_eq:
  assumes "distinct (map fst ms)" and "distinct (map fst ns)"
  shows "set ms = set ns \<longleftrightarrow> length ms = length ns \<and> (\<forall>m \<in> set ms. map_of ns (fst m) = Some (snd m))"
proof
  have d: "distinct ms" "distinct ns" using assms by (simp_all add: distinct_map)
  show "set ms = set ns \<Longrightarrow> length ms = length ns \<and> (\<forall>m \<in> set ms. map_of ns (fst m) = Some (snd m))"
    using d assms(2) by (metis distinct_card map_of_is_SomeI surjective_pairing)
  assume r: "length ms = length ns \<and> (\<forall>m \<in> set ms. map_of ns (fst m) = Some (snd m))"
  then have "set ms \<subseteq> set ns" by (metis map_of_SomeD subsetI surjective_pairing)
  then show "set ms = set ns" using d r by (metis List.finite_set card_subset_eq distinct_card)
qed

lemma sort_by_key_eq:
  fixes xs ys :: "('k::linorder \<times> 'v) list"
  assumes "distinct (map fst xs)" and "distinct (map fst ys)"
  shows "sort_key fst xs = sort_key fst ys \<longleftrightarrow> set xs = set ys"
proof
  assume e: "set xs = set ys"
  have k: "distinct (map fst (sort_key fst zs))" if "distinct (map fst zs)" for zs :: "('k \<times> 'v) list"
    using that by (metis distinct_sort distinct_map set_sort)
  have "inj_on fst (set xs)" using assms(1) by (simp add: distinct_map)
  then show "sort_key fst xs = sort_key fst ys"
    using e assms k by (intro map_sorted_distinct_set_unique[where f = fst]) simp_all
qed (metis set_sort)

lemma canonical_members:
  assumes "distinct (map fst ms)" and "distinct (map fst ns)"
  shows "canonicalize_tool_params (JObject ms) = canonicalize_tool_params (JObject ns) \<longleftrightarrow>
    length ms = length ns \<and> (\<forall>m \<in> set ms. \<exists>u. map_of ns (fst m) = Some u
      \<and> canonicalize_tool_params (snd m) = canonicalize_tool_params u)"
proof -
  let ?c = "map (\<lambda>m. (fst m, canonicalize_tool_params (snd m)))"
  have k: "map fst (?c zs) = map fst zs" for zs :: "(ustr \<times> json) list" by (simp add: comp_def)
  have "sort_key fst (?c ms) = sort_key fst (?c ns) \<longleftrightarrow> set (?c ms) = set (?c ns)"
    using assms by (intro sort_by_key_eq) (simp_all only: k)
  also have "\<dots> \<longleftrightarrow> length (?c ms) = length (?c ns) \<and> (\<forall>m \<in> set (?c ms). map_of (?c ns) (fst m) = Some (snd m))"
    using assms by (intro distinct_keys_set_eq) (simp_all only: k)
  finally show ?thesis by (auto simp: map_of_members)
qed

lemma canonical_eq_iff:
  "distinct_keys v \<Longrightarrow> distinct_keys w \<Longrightarrow>
     canonicalize_tool_params v = canonicalize_tool_params w \<longleftrightarrow> same_json v w"
proof (induction v w rule: same_json.induct)
  case (1 ms w)
  show ?case
  proof (cases w)
    case (JObject ns)
    have "canonicalize_tool_params (snd m) = canonicalize_tool_params u \<longleftrightarrow> same_json (snd m) u"
      if "m \<in> set ms" "map_of ns (fst m) = Some u" for m u
    proof (rule "1.IH"[OF JObject that])
      show "distinct_keys (snd m)" using "1.prems"(1) that(1) by simp
      show "distinct_keys u" using "1.prems"(2) JObject map_of_SomeD[OF that(2)] by force
    qed
    then show ?thesis
      using canonical_members[of ms ns] "1.prems" JObject
      by (simp del: canonicalize_tool_params.simps) (fastforce split: option.splits)
  qed simp_all
next
  case (2 items w)
  show ?case
  proof (cases w)
    case (JArray others)
    have "canonicalize_tool_params (fst p) = canonicalize_tool_params (snd p) \<longleftrightarrow> same_json (fst p) (snd p)"
      if "p \<in> set (zip items others)" for p
      using "2.IH"[OF JArray that] "2.prems" JArray that by (cases p) (auto dest: set_zip_leftD set_zip_rightD)
    moreover have "map canonicalize_tool_params items = map canonicalize_tool_params others \<longleftrightarrow>
        length items = length others \<and> (\<forall>p \<in> set (zip items others). canonicalize_tool_params (fst p) = canonicalize_tool_params (snd p))"
      by (fastforce simp: list_eq_iff_nth_eq set_zip)
    ultimately show ?thesis using JArray by auto
  qed simp_all
qed (rename_tac w, case_tac w; auto)+

text \<open>C26. Two requests have the same fingerprint exactly when they are equal up to the order of the keys of their objects,
  as long as the rendering tells their canonical forms apart.\<close>

theorem fingerprint_ignores_key_order:
  assumes "distinct_keys v" and "distinct_keys w"
    and "inj_on render {canonicalize_tool_params v, canonicalize_tool_params w}"
  shows "tool_params_fingerprint render v = tool_params_fingerprint render w \<longleftrightarrow> same_json v w"
proof -
  have "tool_params_fingerprint render v = tool_params_fingerprint render w
      \<longleftrightarrow> canonicalize_tool_params v = canonicalize_tool_params w"
    unfolding tool_params_fingerprint_def using assms(3) by (auto dest: inj_onD)
  then show ?thesis using canonical_eq_iff[OF assms(1,2)] by simp
qed

definition string_members :: "(string \<times> string) list \<Rightarrow> json" where
  "string_members ms = JObject (map (\<lambda>m. (str (fst m), JString (str (snd m)))) ms)"

text \<open>A rendering that is enough for one value.\<close>

definition render_one :: "json \<Rightarrow> json \<Rightarrow> ustr" where
  "render_one a j = (if j = a then [1] else [])"

definition sample_request :: "bool \<Rightarrow> json" where
  "sample_request swapped = string_members
     (if swapped then [(''content'', ''x''), (''path'', ''a'')] else [(''path'', ''a''), (''content'', ''x'')])"

lemma fingerprint_ignores_key_order_witness:
  "tool_params_fingerprint (render_one JNull) (sample_request False) = tool_params_fingerprint (render_one JNull) (sample_request True)
     \<longleftrightarrow> same_json (sample_request False) (sample_request True)"
proof (rule fingerprint_ignores_key_order)
  have "canonicalize_tool_params (sample_request False) = canonicalize_tool_params (sample_request True)" by code_simp
  then show "inj_on (render_one JNull) {canonicalize_tool_params (sample_request False), canonicalize_tool_params (sample_request True)}"
    by simp
qed code_simp+

section \<open>Every file a handler touches is shown to the approval\<close>

text \<open>The paths the handlers of the file tools read from their parameters.\<close>

definition edit_targets :: "(ustr \<Rightarrow> json_error + json list) \<Rightarrow> (ustr \<Rightarrow> bool) \<Rightarrow> json \<Rightarrow> ustr list" where
  "edit_targets read_values valid params =
     (case request_files read_values valid params of
        None \<Rightarrow> []
      | Some files \<Rightarrow>
          (case parse_edits read_values valid (apply_top_level_path_fallback (get_str params (str ''path'')) files) of
             Inl _ \<Rightarrow> [] | Inr file_edits \<Rightarrow> map fst file_edits))"

definition handler_targets ::
  "(ustr \<Rightarrow> json option) \<Rightarrow> (ustr \<Rightarrow> json_error + json list) \<Rightarrow> (ustr \<Rightarrow> bool) \<Rightarrow> sned_tool \<Rightarrow> json \<Rightarrow> ustr list" where
  "handler_targets parse read_values valid tool params =
     (case tool of
        EditFile \<Rightarrow> edit_targets read_values valid params
      | ReplaceSymbol \<Rightarrow> map rp_path (read_replacements params)
      | ReadFile \<Rightarrow> coerce_string_array parse params ''paths'' ''path''
      | GetFileSkeleton \<Rightarrow> coerce_string_array parse params ''paths'' ''path''
      | FindSymbolReferences \<Rightarrow> coerce_string_array parse params ''paths'' ''path''
      | DiagnosticsScan \<Rightarrow> coerce_string_array parse params ''paths'' ''path''
      | RenameSymbol \<Rightarrow> coerce_string_array parse params ''paths'' ''path''
      | WriteToFile \<Rightarrow> path_argument params
      | SearchFiles \<Rightarrow> path_argument params
      | ListFiles \<Rightarrow> path_argument params
      | GetFunction \<Rightarrow> path_argument params
      | _ \<Rightarrow> [])"

text \<open>A path at the top together with paths inside.\<close>

definition mixes_paths ::
  "(ustr \<Rightarrow> json_error + json list) \<Rightarrow> (ustr \<Rightarrow> bool) \<Rightarrow> sned_tool \<Rightarrow> json \<Rightarrow> bool" where
  "mixes_paths read_values valid tool params \<longleftrightarrow>
     get_str params (str ''path'') \<noteq> None
     \<and> (tool = EditFile \<and> (case request_files read_values valid params of
           Some files \<Rightarrow> List.map_filter first_edit_path files \<noteq> [] | None \<Rightarrow> False)
       \<or> tool = ReplaceSymbol \<and> get_array params (str ''replacements'') \<noteq> None)"

lemma parse_edits_entry:
  assumes "parse_edits read_values valid files = Inr file_edits" and "(path, edits) \<in> set file_edits"
  shows "\<exists>entry \<in> set files. parse_file read_values valid entry = Inr (path, edits)"
proof -
  have "map (parse_file read_values valid) files = map Inr file_edits"
    using assms(1) by (simp add: parse_edits_def all_right_Inr)
  then show ?thesis using assms(2) by (metis (no_types, lifting) image_iff image_set list.set_map)
qed

lemma edit_targets_requested:
  assumes "path \<in> set (edit_targets read_values valid params)" and "\<not> mixes_paths read_values valid EditFile params"
  shows "path \<in> set (requested_paths_for_locking read_values valid params)"
proof -
  obtain files where f: "request_files read_values valid params = Some files"
    using assms(1) by (cases "request_files read_values valid params") (simp_all add: edit_targets_def)
  then obtain file_edits edits
    where e: "parse_edits read_values valid (apply_top_level_path_fallback (get_str params (str ''path'')) files) = Inr file_edits"
      and "(path, edits) \<in> set file_edits"
    using assms(1) by (cases "parse_edits read_values valid (apply_top_level_path_fallback (get_str params (str ''path'')) files)")
      (auto simp: edit_targets_def)
  from parse_edits_entry[OF e this(2)] obtain entry
    where "entry \<in> set (apply_top_level_path_fallback (get_str params (str ''path'')) files)"
      "parse_file read_values valid entry = Inr (path, edits)" by blast
  then show ?thesis using edited_paths_requested[OF f] assms(2) f by (auto simp: mixes_paths_def)
qed

lemma replacement_targets_shown:
  assumes "path \<in> rp_path ` set (read_replacements params)" and "\<not> mixes_paths read_values valid ReplaceSymbol params"
  shows "path \<in> set (extract_action_path parse read_values valid ReplaceSymbol params)"
proof (cases "get_array params (str ''replacements'')")
  case None
  then show ?thesis using assms(1)
    by (auto simp: read_replacements_def extract_action_path_def Let_def str_or_empty_def split: if_splits option.splits)
next
  case (Some items)
  then have n: "get_str params (str ''path'') = None" using assms(2) by (auto simp: mixes_paths_def)
  obtain item r where "item \<in> set items" "read_replacement item = Some r" "path = rp_path r"
    using assms(1) Some by (auto simp: read_replacements_def List.map_filter_def)
  moreover from this have "get_str item (str ''path'') = Some path"
    by (auto simp: read_replacement_def split: option.splits)
  ultimately show ?thesis
    using n Some in_map_filter[of item items "\<lambda>r. get_str r (str ''path'')" path] by (simp add: extract_action_path_def)
qed

text \<open>C8. Every path a handler of the file tools takes from its parameters is among the paths shown to the approval and
  tested for lying outside the workspace, unless the request mixes a path at its top with paths inside.\<close>

theorem action_paths_cover_targets:
  assumes "path \<in> set (handler_targets parse read_values valid tool params)"
    and "\<not> mixes_paths read_values valid tool params"
  shows "path \<in> set (extract_action_path parse read_values valid tool params)"
proof (cases "tool = EditFile \<or> tool = ReplaceSymbol")
  case True
  then show ?thesis
    using assms edit_targets_requested replacement_targets_shown[of path params]
    by (auto simp: handler_targets_def extract_action_path_def)
next
  case False
  then show ?thesis using assms(1) by (cases tool) (simp_all add: handler_targets_def extract_action_path_def)
qed

lemma action_paths_cover_targets_witness:
  "str ''b'' \<in> set (extract_action_path (\<lambda>_. None) no_values (\<lambda>_. False) EditFile
     (JObject [(str ''path'', JString (str ''b'')), (str ''files'', JArray [edit_entry [] (str ''Ab'' @ [delim] @ str ''old'')])]))"
  by (rule action_paths_cover_targets; code_simp)

text \<open>With both, the replacements name another file than the one shown: a top-level \<open>path\<close> hides the paths in \<open>replacements\<close>,
  which the handler prefers.\<close>

lemma replacement_paths_hidden:
  "let params = JObject [(str ''path'', JString (str ''a'')),
         (str ''replacements'', JArray [string_members [(''path'', ''b''), (''symbol'', ''f''), (''text'', ''x'')]])]
   in extract_action_path (\<lambda>_. None) no_values (\<lambda>_. False) ReplaceSymbol params = [str ''a'']
      \<and> map rp_path (read_replacements params) = [str ''b'']"
  by code_simp

section \<open>The files an edit is counted for\<close>

lemma resolved_once_set:
  "fa_normalized ` set (resolved_once fs ws seen ds) = {p. \<exists>d \<in> set ds. resolve_sanitized_path fs ws d = Inr p} - seen"
  by (induction ds arbitrary: seen) (auto split: sum.splits)

lemma resolved_once_distinct: "distinct (map fa_normalized (resolved_once fs ws seen ds))"
proof (induction ds arbitrary: seen)
  case (Cons d ds)
  then show ?case
    using resolved_once_set[of fs ws "insert _ seen" ds] by (auto split: sum.splits simp: image_iff)
qed simp

lemma edit_requests_cover:
  assumes "get_array params (str ''files'') = Some files"
    and "entry \<in> set (apply_top_level_path_fallback (get_str params (str ''path'')) files)"
    and "file_entry_path entry = Inr path"
  shows "path \<in> set (file_action_requests (str ''edit_file'') params)"
proof (cases "get_str params (str ''path'') \<noteq> None \<and> files \<noteq> [] \<and> list_all lacks_path files")
  case True
  then obtain q where q: "get_str params (str ''path'') = Some q" by auto
  obtain f fs where "files = f # fs" using True by (cases files) auto
  moreover have "path = q"
  proof (cases "entry \<in> set files")
    case True
    then show ?thesis using fallback_entries[OF assms(2)] inserted_entry_path assms(3) q
        \<open>get_str params (str ''path'') \<noteq> None \<and> files \<noteq> [] \<and> list_all lacks_path files\<close> by auto
  next
    case False
    then show ?thesis using fallback_entries[OF assms(2)] inserted_entry_path assms(3) q by auto
  qed
  ultimately show ?thesis using assms(1) True q
    by (auto simp: file_action_requests_def edit_entry_path_def List.map_filter_def Let_def)
next
  case False
  then have e: "entry \<in> set files" using fallback_entries[OF assms(2)] by auto
  moreover have "edit_entry_path None entry = Some path"
    using assms(3) by (auto simp: edit_entry_path_def file_entry_path_def split: option.splits sum.splits)
  moreover have "file_action_requests (str ''edit_file'') params = List.map_filter (edit_entry_path None) files"
    using assms(1) False by (auto simp: file_action_requests_def Let_def)
  ultimately show ?thesis using in_map_filter[of entry files "edit_entry_path None" path] by simp
qed

text \<open>The files an edit is counted for in the turn's summary are distinct, and every file of the workspace the handler
  edits is among them, also with a path given at the top or inside an edit.\<close>

theorem file_actions_cover_edits:
  assumes "get_array params (str ''files'') = Some files"
    and "entry \<in> set (apply_top_level_path_fallback (get_str params (str ''path'')) files)"
    and "parse_file read_values valid entry = Inr (path, edits)"
    and "resolve_sanitized_path fs workspace_root path = Inr p"
  shows "p \<in> fa_normalized ` set (extract_file_action_path fs workspace_root (str ''edit_file'') params)
    \<and> distinct (map fa_normalized (extract_file_action_path fs workspace_root (str ''edit_file'') params))"
proof -
  have "file_entry_path entry = Inr path" using assms(3) by (auto simp: parse_file_def split: sum.splits)
  then have "path \<in> set (file_action_requests (str ''edit_file'') params)" using edit_requests_cover assms(1,2) by blast
  then show ?thesis using assms(4) by (auto simp: extract_file_action_path_def resolved_once_set resolved_once_distinct)
qed

lemma file_actions_cover_edits_witness:
  "root_ws @ [Normal (str ''b'')] \<in> fa_normalized ` set (extract_file_action_path (plain_fs [[RootDir], root_ws] []) root_ws (str ''edit_file'')
     (JObject [(str ''path'', JString (str ''b'')), (str ''files'', JArray [edit_entry [] (str ''Ab'' @ [delim] @ str ''old'')])]))
   \<and> distinct (map fa_normalized (extract_file_action_path (plain_fs [[RootDir], root_ws] []) root_ws (str ''edit_file'')
     (JObject [(str ''path'', JString (str ''b'')), (str ''files'', JArray [edit_entry [] (str ''Ab'' @ [delim] @ str ''old'')])])))"
  by (rule file_actions_cover_edits[where files = "[edit_entry [] (str ''Ab'' @ [delim] @ str ''old'')]"
      and read_values = no_values and valid = "\<lambda>_. False" and path = "str ''b''"
      and entry = "JObject (json_insert (str ''path'') (JString (str ''b''))
         [(str ''edits'', JArray [JObject [(str ''anchor'', JString (str ''Ab'' @ [delim] @ str ''old'')), (str ''text'', JString (str ''x''))]])])"
      and edits = "[\<lparr>ed_anchor = str ''Ab'' @ [delim] @ str ''old'', ed_end_anchor = None, ed_edit_type = str ''replace'',
         ed_text = str ''x'', ed_content = None, ed_old_text = None\<rparr>]"]) code_simp+

section \<open>What an accepted argument text means\<close>

lemma json_get_insert:
  "json_get (JObject (json_insert key v ms)) k = (if k = key then Some v else json_get (JObject ms) k)"
  by simp

lemma command_not_edit [simp]: "str ''execute_command'' \<noteq> str ''edit_file''" "str ''edit_file'' \<noteq> str ''execute_command''"
  by code_simp+

lemma normalize_commands_keeps:
  assumes "normalize_commands parse params = Inr params'"
  shows "coerce_command_array parse params' = coerce_command_array parse params
    \<and> (\<forall>k. k \<noteq> str ''commands'' \<longrightarrow> json_get params' k = json_get params k)"
proof (cases "get_str params (str ''commands'')")
  case None
  then show ?thesis using assms by (simp add: normalize_commands_def)
next
  case (Some raw)
  then obtain ms where m: "params = JObject ms" "map_of ms (str ''commands'') = Some (JString raw)"
    by (cases params) (auto simp: get_str_def bind_eq_Some_conv elim!: as_str.elims)
  show ?thesis
  proof (cases "starts_with [91, 34] (trim raw)")
    case False
    then show ?thesis using assms Some by (simp add: normalize_commands_def)
  next
    case True
    obtain commands where c: "(case parse_unambiguous_stringified_string_array parse raw of Some cs \<Rightarrow> Some cs
        | None \<Rightarrow> parse_relaxed_stringified_string_array parse raw) = Some commands"
      and p: "params' = JObject (json_insert (str ''commands'') (JArray (map JString commands)) ms)"
      using assms Some True m(1) by (auto simp: normalize_commands_def json_members_def split: option.splits)
    have "coerce_command_array parse params' = commands"
      by (simp add: p coerce_command_array_def get_array_def)
    moreover have "coerce_command_array parse params = commands"
      using c m by (auto simp: coerce_command_array_def get_array_def get_str_def split: option.splits)
    ultimately show ?thesis using m(1) p by simp
  qed
qed

text \<open>Arguments that are accepted fit the limit and carry no rejection of the provider; bringing the commands of a call
  into shape changes neither the commands that run nor any other argument, and other tools get the arguments as they were sent.\<close>

theorem accepted_arguments:
  assumes "parse_tool_arguments parse read_values valid name (Some raw) = Inr v" and "trim raw \<noteq> []"
  shows "int (byte_len raw) \<le> MAX_TOOL_ARGUMENT_SIZE
    \<and> (\<exists>params. parse raw = Some params \<and> tool_arguments_error params = None
        \<and> (name = str ''execute_command'' \<longrightarrow> coerce_command_array parse v = coerce_command_array parse params
             \<and> (\<forall>k. k \<noteq> str ''commands'' \<longrightarrow> json_get v k = json_get params k))
        \<and> (name = str ''edit_file'' \<longrightarrow> (\<exists>b. normalize_stringified_files_param read_values valid params = Inr (b, v)))
        \<and> (name \<noteq> str ''execute_command'' \<and> name \<noteq> str ''edit_file'' \<longrightarrow> v = params))"
proof -
  obtain params where p: "parse raw = Some params" and l: "int (byte_len raw) \<le> MAX_TOOL_ARGUMENT_SIZE"
    using assms by (auto simp: parse_tool_arguments_def not_less split: if_splits option.splits)
  have n: "tool_arguments_error params = None"
    using assms p l by (cases "tool_arguments_error params") (simp_all add: parse_tool_arguments_def)
  show ?thesis
    using assms p l n normalize_commands_keeps[of parse params v]
    by (auto simp: parse_tool_arguments_def split: if_splits sum.splits)
qed

definition sample_parse :: "ustr \<Rightarrow> json option" where
  "sample_parse s =
     (if s = [91, 34] @ str ''ls'' @ [34, 93] then Some (JArray [JString (str ''ls'')])
      else if s = str ''{}'' then Some (JObject [(str ''commands'', JString ([91, 34] @ str ''ls'' @ [34, 93]))]) else None)"

lemma accepted_arguments_witness:
  "\<exists>params. sample_parse (str ''{}'') = Some params
     \<and> coerce_command_array sample_parse (JObject [(str ''commands'', JArray [JString (str ''ls'')])])
         = coerce_command_array sample_parse params"
proof -
  have "parse_tool_arguments sample_parse no_values (\<lambda>_. False) (str ''execute_command'') (Some (str ''{}''))
      = Inr (JObject [(str ''commands'', JArray [JString (str ''ls'')])])" by code_simp
  moreover have "trim (str ''{}'') \<noteq> []" by code_simp
  ultimately show ?thesis
    using accepted_arguments[of sample_parse no_values "\<lambda>_. False" "str ''execute_command''" "str ''{}''"] by blast
qed

section \<open>Access outside the workspace\<close>

lemma external_directory_listed:
  assumes "p \<in> set paths" and "is_absolute (parse_path p)" and "\<not> path_starts_with (parse_path p) root"
    and "external_directory_for_path fs p = Some d" and "tool_category_of tool = CatReadFiles \<or> tool_category_of tool = CatEditFiles"
  shows "d \<in> set (external_action_directories fs tool root paths)"
  using assms by (force simp: external_action_directories_def List.map_filter_def)


definition read_request :: "ustr \<Rightarrow> tool_call" where
  "read_request p = approval_call external_world (\<lambda>_. Inr []) (\<lambda>_. True) (\<lambda>_. p) root_ws ReadFile (JObject [(str ''path'', JString p)])"


end
