(* ===== verification/StreamParsing.thy ===== *)
theory StreamParsing
  imports Prelude
begin

text \<open>
  Thinking sections in the text of a model (\<open>src/src/core/stream_parsing.rs\<close>): the fences and tags that
  open and close them, the filter that hides them while the text arrives in chunks
  (\<open>ThinkingTagStreamFilter\<close>), and the functions that take a finished text apart. Every byte the code
  looks for is ASCII, so the model scans scalar values; lengths that are byte counts in the code are byte
  counts here.
\<close>

section \<open>Fences and tags\<close>

datatype think_open_kind = CodeFenceThink | TagOrUnicode

record fence_delimiter =
  fd_marker :: uchar
  fd_run_length :: nat

definition is_fence_char :: "uchar \<Rightarrow> bool" where
  "is_fence_char c \<longleftrightarrow> c = 96 \<or> c = 126"

definition parse_fence_start :: "ustr \<Rightarrow> (fence_delimiter \<times> ustr) option" where
  "parse_fence_start line0 =
     (let line = strip_cr line0;
          indent = length (takeWhile (\<lambda>c. c = 32) line);
          rest = drop indent line
      in if indent > 3 \<or> rest = [] then None
         else let marker = hd rest in
           if \<not> is_fence_char marker then None
           else let run_length = length (takeWhile (\<lambda>c. c = marker) rest) in
             if run_length < 3 then None
             else Some (\<lparr>fd_marker = marker, fd_run_length = run_length\<rparr>, drop run_length rest))"

definition is_fence_closer :: "ustr \<Rightarrow> fence_delimiter \<Rightarrow> bool" where
  "is_fence_closer line opener =
     (case parse_fence_start line of
        None \<Rightarrow> False
      | Some (candidate, suffix) \<Rightarrow> fd_marker candidate = fd_marker opener
          \<and> fd_run_length opener \<le> fd_run_length candidate \<and> trim suffix = [])"

definition is_think_fence :: "ustr \<Rightarrow> bool" where
  "is_think_fence line =
     (case parse_fence_start line of
        None \<Rightarrow> False
      | Some (fence, suffix) \<Rightarrow> fd_marker fence = 96 \<and> fd_run_length fence = 3 \<and> trim suffix = str ''think'')"

definition classify_think_start :: "ustr \<Rightarrow> think_open_kind option" where
  "classify_think_start line =
     (if is_think_fence line then Some CodeFenceThink
      else if starts_with (str ''<think>'') (trim line) \<or> starts_with (str ''<!-- think -->'') (trim line)
      then Some TagOrUnicode else None)"

definition fence3 :: ustr where "fence3 = [96, 96, 96]"

definition is_think_end :: "ustr \<Rightarrow> bool" where
  "is_think_end line \<longleftrightarrow> trim line = str ''</think>'' \<or> trim line = str ''<!-- /think -->'' \<or> trim line = fence3"

definition THINKING_OPEN_TAGS :: "ustr list" where
  "THINKING_OPEN_TAGS = [str ''<think>'', str ''<!-- think -->'']"
definition THINKING_CLOSE_TAGS :: "ustr list" where
  "THINKING_CLOSE_TAGS = [str ''</think>'', str ''<!-- /think -->'']"

section \<open>The stream filter\<close>

record think_filter =
  tf_pending :: ustr
  tf_hidden :: ustr
  tf_kind :: "think_open_kind option"
  tf_fence :: "fence_delimiter option"
  tf_line_start :: bool

definition new_filter :: think_filter where
  "new_filter = \<lparr>tf_pending = [], tf_hidden = [], tf_kind = None, tf_fence = None, tf_line_start = True\<rparr>"

definition complete_stream_line :: "ustr \<Rightarrow> (ustr \<times> ustr) option" where
  "complete_stream_line input = map_option (\<lambda>(line, rest). (strip_cr line, rest)) (split_once nl input)"

definition could_be_fenced_think_line :: "ustr \<Rightarrow> ustr \<Rightarrow> bool" where
  "could_be_fenced_think_line input marker =
     (let trimmed = dropWhile (\<lambda>c. c = 32) input; indent = length input - length trimmed
      in indent \<le> 3 \<and> (starts_with trimmed marker
           \<or> (case strip_prefix marker trimmed of None \<Rightarrow> False | Some rest \<Rightarrow> trim rest = [])))"

datatype fence_prefix_result = Complete fence_delimiter | Partial | NotFence

text \<open>The rest of the input after the first tag that it starts with.\<close>

fun complete_prefix :: "ustr \<Rightarrow> ustr list \<Rightarrow> ustr option" where
  "complete_prefix input [] = None"
| "complete_prefix input (tag # tags) =
     (case strip_prefix tag input of Some rest \<Rightarrow> Some rest | None \<Rightarrow> complete_prefix input tags)"

definition has_partial_prefix :: "ustr \<Rightarrow> ustr list \<Rightarrow> bool" where
  "has_partial_prefix input tags = list_ex (\<lambda>tag. starts_with input tag) tags"

definition fence_prefix :: "ustr \<Rightarrow> fence_delimiter option \<Rightarrow> fence_prefix_result" where
  "fence_prefix input active =
     (let (line, ended) = (case split_once nl input of Some (l, _) \<Rightarrow> (l, True) | None \<Rightarrow> (input, False))
      in case parse_fence_start line of
           Some (candidate, suffix) \<Rightarrow>
             (case active of
                Some opener \<Rightarrow>
                  if fd_marker candidate \<noteq> fd_marker opener then NotFence
                  else if fd_run_length opener \<le> fd_run_length candidate \<and> trim suffix = [] \<and> (ended \<or> suffix \<noteq> [])
                  then Complete candidate
                  else if \<not> ended \<and> suffix = [] then Partial
                  else NotFence
              | None \<Rightarrow> if \<not> ended \<and> suffix = [] then Partial else Complete candidate)
         | None \<Rightarrow>
             let indent = length (takeWhile (\<lambda>c. c = 32) line)
             in if indent > 3 \<or> indent = length line then (if indent \<le> 3 then Partial else NotFence)
                else let rest = drop indent line; marker = hd rest
                  in if \<not> is_fence_char marker \<or> (case active of Some f \<Rightarrow> fd_marker f \<noteq> marker | None \<Rightarrow> False)
                        \<or> \<not> list_all (\<lambda>c. c = marker) rest
                     then NotFence else Partial)"

text \<open>One round of the loop: it waits for more input, or goes on with some text shown and the rest.\<close>

datatype step_result = Wait think_filter | Go think_filter ustr ustr

definition hide_char :: "think_filter \<Rightarrow> ustr \<Rightarrow> step_result" where
  "hide_char st r = Go (st\<lparr>tf_hidden := tf_hidden st @ [hd r], tf_line_start := (hd r = nl)\<rparr>) [] (tl r)"

definition step_fenced :: "think_filter \<Rightarrow> ustr \<Rightarrow> step_result" where
  "step_fenced st r =
     (if tf_line_start st then
        (case complete_stream_line r of
           Some (line, rest) \<Rightarrow>
             if is_think_end line then Go (st\<lparr>tf_kind := None, tf_line_start := True\<rparr>) [] rest else hide_char st r
         | None \<Rightarrow> if could_be_fenced_think_line r fence3 then Wait st else hide_char st r)
      else hide_char st r)"

definition step_tag :: "think_filter \<Rightarrow> ustr \<Rightarrow> step_result" where
  "step_tag st r =
     (case complete_prefix r THINKING_CLOSE_TAGS of
        Some rest \<Rightarrow> Go (st\<lparr>tf_kind := None\<rparr>) [] rest
      | None \<Rightarrow>
          if has_partial_prefix r THINKING_CLOSE_TAGS then Wait st
          else Go (st\<lparr>tf_hidden := tf_hidden st @ [hd r]\<rparr>) [] (tl r))"

text \<open>The end of the round for text that is not hidden: an opening tag or one character.\<close>

definition step_text :: "think_filter \<Rightarrow> ustr \<Rightarrow> step_result" where
  "step_text st r =
     (let show_char = Go (if hd r = nl then st\<lparr>tf_line_start := True\<rparr> else st) [hd r] (tl r)
      in if tf_fence st = None then
           (case complete_prefix r THINKING_OPEN_TAGS of
              Some rest \<Rightarrow> Go (st\<lparr>tf_kind := Some TagOrUnicode\<rparr>) [] rest
            | None \<Rightarrow> if has_partial_prefix r THINKING_OPEN_TAGS then Wait st else show_char)
         else show_char)"

definition step_fence :: "think_filter \<Rightarrow> ustr \<Rightarrow> step_result" where
  "step_fence st r =
     (case fence_prefix r (tf_fence st) of
        Complete fence \<Rightarrow>
          step_text (st\<lparr>tf_fence := (case tf_fence st of Some _ \<Rightarrow> None | None \<Rightarrow> Some fence), tf_line_start := False\<rparr>) r
      | Partial \<Rightarrow> Wait st
      | NotFence \<Rightarrow> step_text (st\<lparr>tf_line_start := False\<rparr>) r)"

definition step_visible :: "think_filter \<Rightarrow> ustr \<Rightarrow> step_result" where
  "step_visible st r =
     (if tf_line_start st then
        (if tf_fence st = None then
           (case complete_stream_line r of
              Some (line, rest) \<Rightarrow>
                if classify_think_start line = Some CodeFenceThink
                then Go (st\<lparr>tf_kind := Some CodeFenceThink, tf_line_start := True\<rparr>) [] rest
                else step_fence st r
            | None \<Rightarrow> if could_be_fenced_think_line r (fence3 @ str ''think'') then Wait st else step_fence st r)
         else step_fence st r)
      else step_text st r)"

definition filter_step :: "think_filter \<Rightarrow> ustr \<Rightarrow> step_result" where
  "filter_step st r =
     (case tf_kind st of
        Some CodeFenceThink \<Rightarrow> step_fenced st r
      | Some TagOrUnicode \<Rightarrow> step_tag st r
      | None \<Rightarrow> step_visible st r)"

lemma complete_prefix_shorter:
  "complete_prefix r tags = Some rest \<Longrightarrow> [] \<notin> set tags \<Longrightarrow> length rest < length r"
  by (induction tags) (auto simp: strip_prefix_Some split: option.splits)

lemma complete_line_shorter: "complete_stream_line r = Some (line, rest) \<Longrightarrow> length rest < length r"
  by (auto simp: complete_stream_line_def dest!: split_once_Some)

lemma tags_nonempty: "[] \<notin> set THINKING_OPEN_TAGS" "[] \<notin> set THINKING_CLOSE_TAGS"
  by (simp_all add: THINKING_OPEN_TAGS_def THINKING_CLOSE_TAGS_def str_def)

lemma filter_step_shorter:
  assumes "filter_step st r = Go st' vis rest" and "r \<noteq> []"
  shows "length rest < length r"
proof -
  have tx: "step_text s r = Go st' vis rest \<Longrightarrow> length rest < length r" for s
    using assms(2) by (auto simp: step_text_def Let_def dest: complete_prefix_shorter[OF _ tags_nonempty(1)] split: if_splits option.splits)
  have fence: "step_fence s r = Go st' vis rest \<Longrightarrow> length rest < length r" for s
    using tx by (auto simp: step_fence_def split: fence_prefix_result.splits)
  have "step_visible s r = Go st' vis rest \<Longrightarrow> length rest < length r" for s
    using tx fence by (auto simp: step_visible_def dest: complete_line_shorter split: if_splits option.splits prod.splits)
  moreover have "step_tag s r = Go st' vis rest \<Longrightarrow> length rest < length r" for s
    using assms(2) by (auto simp: step_tag_def dest: complete_prefix_shorter[OF _ tags_nonempty(2)] split: if_splits option.splits)
  moreover have "step_fenced s r = Go st' vis rest \<Longrightarrow> length rest < length r" for s
    using assms(2) by (auto simp: step_fenced_def hide_char_def dest: complete_line_shorter split: if_splits option.splits)
  ultimately show ?thesis
    using assms(1) by (auto simp: filter_step_def split: option.splits think_open_kind.splits)
qed

text \<open>The loop: the text shown, and the state with the input it waits on.\<close>

function filter_loop :: "think_filter \<Rightarrow> ustr \<Rightarrow> ustr \<times> think_filter" where
  "filter_loop st r =
     (if r = [] then ([], st\<lparr>tf_pending := []\<rparr>)
      else case filter_step st r of
          Wait st' \<Rightarrow> ([], st'\<lparr>tf_pending := r\<rparr>)
        | Go st' vis rest \<Rightarrow> (let (v, s) = filter_loop st' rest in (vis @ v, s)))"
  by pat_completeness auto
termination
  by (relation "measure (\<lambda>(st, r). length r)") (auto dest: filter_step_shorter)

declare filter_loop.simps [simp del]

definition filter_push :: "think_filter \<Rightarrow> ustr \<Rightarrow> ustr \<times> think_filter" where
  "filter_push st chunk = filter_loop (st\<lparr>tf_pending := []\<rparr>) (tf_pending st @ chunk)"

definition filter_finish :: "think_filter \<Rightarrow> ustr \<times> think_filter" where
  "filter_finish st =
     (case tf_kind st of
        Some CodeFenceThink \<Rightarrow>
          if is_think_end (tf_pending st) then ([], st\<lparr>tf_pending := [], tf_kind := None\<rparr>)
          else ([], st\<lparr>tf_hidden := tf_hidden st @ tf_pending st, tf_pending := []\<rparr>)
      | Some TagOrUnicode \<Rightarrow> ([], st\<lparr>tf_hidden := tf_hidden st @ tf_pending st, tf_pending := []\<rparr>)
      | None \<Rightarrow>
          if classify_think_start (tf_pending st) = Some CodeFenceThink
          then ([], st\<lparr>tf_pending := [], tf_kind := Some CodeFenceThink\<rparr>)
          else (tf_pending st, st\<lparr>tf_pending := []\<rparr>))"

definition take_hidden :: "think_filter \<Rightarrow> ustr option \<times> think_filter" where
  "take_hidden st = (if tf_hidden st = [] then (None, st) else (Some (tf_hidden st), st\<lparr>tf_hidden := []\<rparr>))"

text \<open>A whole stream: the chunks, then the end; what is shown and what is hidden.\<close>

fun push_chunks :: "think_filter \<Rightarrow> ustr list \<Rightarrow> ustr \<times> think_filter" where
  "push_chunks st [] = ([], st)"
| "push_chunks st (c # cs) = (let (v, s) = filter_push st c; (w, t) = push_chunks s cs in (v @ w, t))"

definition filter_stream :: "ustr list \<Rightarrow> ustr \<times> ustr" where
  "filter_stream chunks =
     (let (v, s) = push_chunks new_filter chunks; (w, t) = filter_finish s in (v @ w, tf_hidden t))"

section \<open>Text without fences\<close>

definition fence_free :: "ustr \<Rightarrow> bool" where
  "fence_free s \<longleftrightarrow> list_all (\<lambda>c. \<not> is_fence_char c) s"

lemma fence_free_simps [simp]:
  "fence_free []" "fence_free (c # cs) \<longleftrightarrow> \<not> is_fence_char c \<and> fence_free cs"
  "fence_free (a @ b) \<longleftrightarrow> fence_free a \<and> fence_free b"
  by (auto simp: fence_free_def)

lemma fence_free_sub: "fence_free s \<Longrightarrow> set t \<subseteq> set s \<Longrightarrow> fence_free t"
  by (auto simp: fence_free_def list_all_iff)

lemma strip_cr_sub: "set (strip_cr l) \<subseteq> set l"
  by (auto simp: strip_cr_def strip_suffix_Some split: option.splits)

lemma fence_free_parse: "fence_free line \<Longrightarrow> parse_fence_start line = None"
proof -
  assume f: "fence_free line"
  let ?l = "strip_cr line"
  let ?r = "drop (length (takeWhile (\<lambda>c. c = 32) ?l)) ?l"
  have h: "\<not> is_fence_char (hd ?r)" if "?r \<noteq> []"
  proof -
    have "hd ?r \<in> set ?l" using hd_in_set[OF that] set_drop_subset by (rule rev_subsetD)
    then have "hd ?r \<in> set line" using strip_cr_sub by (rule rev_subsetD)
    then show ?thesis using f by (auto simp: fence_free_def list_all_iff)
  qed
  show ?thesis
  proof (cases "?r = []")
    case True
    then show ?thesis unfolding parse_fence_start_def Let_def by (simp only: simp_thms if_True)
  next
    case False
    show ?thesis unfolding parse_fence_start_def Let_def
      by (simp only: h[OF False] not_False_eq_True if_True if_cancel)
  qed
qed

lemma fence_free_classify: "fence_free line \<Longrightarrow> classify_think_start line \<noteq> Some CodeFenceThink"
  by (simp add: classify_think_start_def is_think_fence_def fence_free_parse)

text \<open>The line at the start of the text is at most three spaces.\<close>

definition blank_start :: "ustr \<Rightarrow> bool" where
  "blank_start r \<longleftrightarrow> (let line = takeWhile (\<lambda>c. c \<noteq> nl) r in length line \<le> 3 \<and> list_all (\<lambda>c. c = 32) line)"

lemma split_once_line:
  "(case split_once nl r of Some (l, _) \<Rightarrow> (l, True) | None \<Rightarrow> (r, False)) = (takeWhile (\<lambda>c. c \<noteq> nl) r, nl \<in> set r)"
  by (induction r) (auto split: option.splits)

lemma all_spaces_indent:
  "length (takeWhile (\<lambda>c. c = 32) line) = length line \<longleftrightarrow> list_all (\<lambda>c. c = 32) (line :: ustr)"
  by (induction line) auto

lemma fence_prefix_free:
  assumes "fence_free r"
  shows "fence_prefix r None = (if blank_start r then Partial else NotFence)"
proof -
  let ?l = "takeWhile (\<lambda>c. c \<noteq> nl) r"
  let ?i = "length (takeWhile (\<lambda>c. c = 32) ?l)"
  have f: "fence_free ?l" using assms by (rule fence_free_sub) (auto dest: set_takeWhileD)
  have m: "\<not> is_fence_char (hd (drop ?i ?l))" if "?i \<noteq> length ?l"
  proof -
    have "?i < length ?l" using that length_takeWhile_le[of "\<lambda>c. c = 32" ?l] by simp
    then have "hd (drop ?i ?l) \<in> set ?l" by (simp add: hd_drop_conv_nth)
    then show ?thesis using f by (auto simp: fence_free_def list_all_iff)
  qed
  have "blank_start r \<longleftrightarrow> ?i = length ?l \<and> ?i \<le> 3"
    unfolding blank_start_def Let_def all_spaces_indent[symmetric] by auto
  then show ?thesis
    using m unfolding fence_prefix_def split_once_line
    by (auto simp: fence_free_parse[OF f] Let_def)
qed

lemma could_be_free:
  assumes "fence_free r" and "nl \<notin> set r"
  shows "could_be_fenced_think_line r (fence3 @ s) \<longleftrightarrow> blank_start r"
proof -
  let ?t = "dropWhile (\<lambda>c. c = 32) r"
  have l: "takeWhile (\<lambda>c. c \<noteq> nl) r = r" using assms(2) by (simp add: takeWhile_eq_all_conv) metis
  have bs: "blank_start r \<longleftrightarrow> length r \<le> 3 \<and> list_all (\<lambda>c. c = 32) r"
    unfolding blank_start_def Let_def l ..
  have e: "?t = [] \<longleftrightarrow> list_all (\<lambda>c. c = 32) r" by (simp add: list_all_iff dropWhile_eq_Nil_conv)
  show ?thesis
  proof (cases ?t)
    case Nil
    have "blank_start r \<longleftrightarrow> length r \<le> 3" unfolding bs using e Nil by simp
    then show ?thesis unfolding could_be_fenced_think_line_def Let_def Nil by (simp add: starts_with_def)
  next
    case (Cons c cs)
    then have "c \<in> set r" by (metis list.set_intros(1) set_dropWhileD)
    then have "c \<noteq> 96" using assms(1) by (auto simp: fence_free_def list_all_iff is_fence_char_def)
    then have "\<not> starts_with ?t (fence3 @ s)" "strip_prefix (fence3 @ s) ?t = None"
      using Cons by (auto simp: starts_with_def fence3_def)
    moreover have "\<not> blank_start r" unfolding bs using e Cons by simp
    ultimately show ?thesis by (simp add: could_be_fenced_think_line_def Let_def)
  qed
qed

lemma step_visible_free:
  assumes "fence_free r" and "tf_fence st = None" and "tf_line_start st"
  shows "step_visible st r = (if blank_start r then Wait st else step_text (st\<lparr>tf_line_start := False\<rparr>) r)"
proof -
  have f: "step_fence st r = (if blank_start r then Wait st else step_text (st\<lparr>tf_line_start := False\<rparr>) r)"
    using assms(2) by (simp add: step_fence_def fence_prefix_free[OF assms(1)])
  show ?thesis
  proof (cases "split_once nl r")
    case None
    then have "nl \<notin> set r" by (simp add: split_once_None)
    then show ?thesis using assms None f
      by (simp add: step_visible_def complete_stream_line_def could_be_free)
  next
    case (Some p)
    obtain l rest where p: "p = (l, rest)" by fastforce
    then have "set (strip_cr l) \<subseteq> set r" using Some strip_cr_sub[of l] by (auto dest!: split_once_Some)
    then have "classify_think_start (strip_cr l) \<noteq> Some CodeFenceThink"
      using assms(1) fence_free_classify fence_free_sub by blast
    then show ?thesis using assms Some p f by (simp add: step_visible_def complete_stream_line_def)
  qed
qed

lemma blank_start_more: "\<not> blank_start r \<Longrightarrow> \<not> blank_start (r @ m)"
proof -
  assume n: "\<not> blank_start r"
  have "\<exists>t. takeWhile (\<lambda>c. c \<noteq> nl) (r @ m) = takeWhile (\<lambda>c. c \<noteq> nl) r @ t"
  proof (cases "nl \<in> set r")
    case True
    then have "takeWhile (\<lambda>c. c \<noteq> nl) (r @ m) = takeWhile (\<lambda>c. c \<noteq> nl) r" by (simp add: takeWhile_append1)
    then show ?thesis by simp
  next
    case False
    then have k: "\<forall>x \<in> set r. x \<noteq> nl" by metis
    then have tw: "takeWhile (\<lambda>c. c \<noteq> nl) r = r" by (simp add: takeWhile_eq_all_conv)
    have ta: "takeWhile (\<lambda>c. c \<noteq> nl) (r @ m) = r @ takeWhile (\<lambda>c. c \<noteq> nl) m"
      using k by (simp add: takeWhile_append2)
    show ?thesis unfolding ta tw by blast
  qed
  then obtain t where t: "takeWhile (\<lambda>c. c \<noteq> nl) (r @ m) = takeWhile (\<lambda>c. c \<noteq> nl) r @ t" by blast
  show ?thesis using n unfolding blank_start_def Let_def t by auto
qed

section \<open>Tags at the edge of a chunk\<close>

text \<open>Neither of two tags is the beginning of the other.\<close>

definition apart :: "ustr \<Rightarrow> ustr \<Rightarrow> bool" where
  "apart s t \<longleftrightarrow> \<not> starts_with s t \<and> \<not> starts_with t s"

lemma starts_with_append: "starts_with p (s @ m) \<longleftrightarrow> starts_with p s \<or> (\<exists>q. p = s @ q \<and> starts_with q m)"
  by (auto simp: starts_with_iff append_eq_append_conv2)

lemma strip_prefix_more: "strip_prefix p s = Some r \<Longrightarrow> strip_prefix p (s @ m) = Some (r @ m)"
  by (simp add: strip_prefix_Some)

lemma strip_prefix_None_more:
  "\<not> starts_with p s \<Longrightarrow> \<not> starts_with s p \<Longrightarrow> strip_prefix p (s @ m) = None"
  using starts_with_append[of p s m]
  by (cases "strip_prefix p (s @ m)") (auto simp: starts_with_iff strip_prefix_Some)

lemma tags_settled:
  assumes "apart t u" and "\<not> has_partial_prefix r [t, u] \<or> complete_prefix r [t, u] \<noteq> None"
  shows "complete_prefix (r @ m) [t, u] = map_option (\<lambda>rest. rest @ m) (complete_prefix r [t, u])"
proof (cases "strip_prefix t r")
  case (Some rest)
  then show ?thesis by (simp add: strip_prefix_more)
next
  case None
  then have nt: "\<not> starts_with t r" by (simp add: starts_with_def)
  show ?thesis
  proof (cases "strip_prefix u r")
    case (Some rest)
    then have "r = u @ rest" by (simp add: strip_prefix_Some)
    then have "\<not> starts_with r t" using assms(1) by (auto simp: apart_def starts_with_iff)
    then have "strip_prefix t (r @ m) = None" using nt strip_prefix_None_more by blast
    then show ?thesis using None Some by (simp add: strip_prefix_more)
  next
    case N: None
    then have "\<not> starts_with u r" by (simp add: starts_with_def)
    moreover have "\<not> starts_with r t" "\<not> starts_with r u"
      using assms(2) None N by (auto simp: has_partial_prefix_def)
    ultimately show ?thesis using None N nt by (simp add: strip_prefix_None_more)
  qed
qed

lemma partial_shrinks: "has_partial_prefix (r @ m) tags \<Longrightarrow> has_partial_prefix r tags"
  by (auto simp: has_partial_prefix_def list_ex_iff starts_with_iff)

lemma open_apart: "apart (str ''<think>'') (str ''<!-- think -->'')"
  by (simp add: apart_def starts_with_def str_def)

lemma close_apart: "apart (str ''</think>'') (str ''<!-- /think -->'')"
  by (simp add: apart_def starts_with_def str_def)

text \<open>A round that went on goes on the same way with more input.\<close>

lemma step_text_more:
  assumes "step_text st r = Go st' vis rest" and "r \<noteq> []"
  shows "step_text st (r @ m) = Go st' vis (rest @ m)"
proof (cases "tf_fence st")
  case (Some f)
  then show ?thesis using assms by (simp add: step_text_def Let_def)
next
  case None
  have s: "\<not> has_partial_prefix r THINKING_OPEN_TAGS \<or> complete_prefix r THINKING_OPEN_TAGS \<noteq> None"
    using assms None by (auto simp: step_text_def Let_def split: option.splits if_splits)
  have c: "complete_prefix (r @ m) THINKING_OPEN_TAGS = map_option (\<lambda>rest. rest @ m) (complete_prefix r THINKING_OPEN_TAGS)"
    using tags_settled[OF open_apart] s unfolding THINKING_OPEN_TAGS_def by blast
  show ?thesis
  proof (cases "complete_prefix r THINKING_OPEN_TAGS")
    case (Some x)
    then show ?thesis using assms None c by (simp add: step_text_def Let_def)
  next
    case N: None
    then have "\<not> has_partial_prefix (r @ m) THINKING_OPEN_TAGS" using s partial_shrinks by blast
    then show ?thesis using assms None c N s by (simp add: step_text_def Let_def)
  qed
qed

lemma step_tag_more:
  assumes "step_tag st r = Go st' vis rest" and "r \<noteq> []"
  shows "step_tag st (r @ m) = Go st' vis (rest @ m)"
proof -
  have s: "\<not> has_partial_prefix r THINKING_CLOSE_TAGS \<or> complete_prefix r THINKING_CLOSE_TAGS \<noteq> None"
    using assms by (auto simp: step_tag_def split: option.splits if_splits)
  have c: "complete_prefix (r @ m) THINKING_CLOSE_TAGS = map_option (\<lambda>rest. rest @ m) (complete_prefix r THINKING_CLOSE_TAGS)"
    using tags_settled[OF close_apart] s unfolding THINKING_CLOSE_TAGS_def by blast
  show ?thesis
  proof (cases "complete_prefix r THINKING_CLOSE_TAGS")
    case (Some x)
    then show ?thesis using assms c by (simp add: step_tag_def)
  next
    case N: None
    then have "\<not> has_partial_prefix (r @ m) THINKING_CLOSE_TAGS" using s partial_shrinks by blast
    then show ?thesis using assms c N s by (simp add: step_tag_def)
  qed
qed
section \<open>Chunk boundaries do not matter\<close>

definition tag_state :: "think_filter \<Rightarrow> bool" where
  "tag_state st \<longleftrightarrow> tf_fence st = None \<and> tf_kind st \<noteq> Some CodeFenceThink"

lemma step_text_keeps:
  "step_text st r = Go st' vis rest \<Longrightarrow> tag_state st \<Longrightarrow>
     tag_state st' \<and> tf_pending st' = tf_pending st \<and> (r = [] \<or> (\<exists>a. r = a @ rest))"
proof -
  have "complete_prefix r THINKING_OPEN_TAGS = Some x \<Longrightarrow> \<exists>a. r = a @ x" for x
    by (auto simp: THINKING_OPEN_TAGS_def strip_prefix_Some split: option.splits)
  moreover have "r \<noteq> [] \<Longrightarrow> \<exists>a. r = a @ tl r" by (intro exI[of _ "[hd r]"]) simp
  ultimately show "step_text st r = Go st' vis rest \<Longrightarrow> tag_state st \<Longrightarrow>
     tag_state st' \<and> tf_pending st' = tf_pending st \<and> (r = [] \<or> (\<exists>a. r = a @ rest))"
    by (auto simp: step_text_def tag_state_def Let_def split: option.splits if_splits)
qed

lemma step_tag_keeps:
  "step_tag st r = Go st' vis rest \<Longrightarrow> tag_state st \<Longrightarrow>
     tag_state st' \<and> tf_pending st' = tf_pending st \<and> (r = [] \<or> (\<exists>a. r = a @ rest))"
proof -
  have "complete_prefix r THINKING_CLOSE_TAGS = Some x \<Longrightarrow> \<exists>a. r = a @ x" for x
    by (auto simp: THINKING_CLOSE_TAGS_def strip_prefix_Some split: option.splits)
  moreover have "r \<noteq> [] \<Longrightarrow> \<exists>a. r = a @ tl r" by (intro exI[of _ "[hd r]"]) simp
  ultimately show "step_tag st r = Go st' vis rest \<Longrightarrow> tag_state st \<Longrightarrow>
     tag_state st' \<and> tf_pending st' = tf_pending st \<and> (r = [] \<or> (\<exists>a. r = a @ rest))"
    by (auto simp: step_tag_def tag_state_def split: option.splits if_splits)
qed

text \<open>The rounds of a filter that has met no fence.\<close>

lemma filter_step_free:
  assumes "tag_state st" and "fence_free r"
  shows "filter_step st r =
    (if tf_kind st = Some TagOrUnicode then step_tag st r
     else if tf_line_start st then (if blank_start r then Wait st else step_text (st\<lparr>tf_line_start := False\<rparr>) r)
     else step_text st r)"
  using assms
  by (cases "tf_kind st"; cases "the (tf_kind st)")
    (auto simp: filter_step_def tag_state_def step_visible_free, simp_all add: step_visible_def)

lemma filter_step_go:
  assumes "filter_step st r = Go st' vis rest" and "tag_state st" and "fence_free (r @ m)" and "r \<noteq> []"
  shows "filter_step st (r @ m) = Go st' vis (rest @ m)"
    and "tag_state st'" and "tf_pending st' = tf_pending st" and "fence_free rest"
proof -
  have fr: "fence_free r" using assms(3) by simp
  have t: "tag_state (st\<lparr>tf_line_start := False\<rparr>)" using assms(2) by (simp add: tag_state_def)
  show "filter_step st (r @ m) = Go st' vis (rest @ m)"
    using assms(1) blank_start_more[of r m]
    by (auto simp: filter_step_free[OF assms(2) fr] filter_step_free[OF assms(2,3)]
        intro: step_tag_more[OF _ assms(4)] step_text_more[OF _ assms(4)] split: if_splits)
  have k: "tag_state st' \<and> tf_pending st' = tf_pending st \<and> (\<exists>a. r = a @ rest)"
    using assms(1,4) step_tag_keeps[OF _ assms(2)] step_text_keeps[OF _ assms(2)] step_text_keeps[OF _ t]
    unfolding filter_step_free[OF assms(2) fr] by (fastforce split: if_splits)
  then show "tag_state st'" "tf_pending st' = tf_pending st" "fence_free rest" using fr by auto
qed

lemma step_text_wait: "step_text st r = Wait st' \<Longrightarrow> st' = st"
  by (auto simp: step_text_def Let_def split: option.splits if_splits)

lemma step_tag_wait: "step_tag st r = Wait st' \<Longrightarrow> st' = st"
  by (auto simp: step_tag_def split: option.splits if_splits)

lemma filter_step_wait:
  assumes "filter_step st r = Wait st'" and "tag_state st" and "fence_free (r @ m)"
  shows "filter_step st' (r @ m) = filter_step st (r @ m)"
    and "tag_state st'" and "tf_pending st' = tf_pending st" and "tf_kind st' = tf_kind st" and "tf_hidden st' = tf_hidden st"
proof -
  have fr: "fence_free r" using assms(3) by simp
  consider (same) "st' = st" | (started) "st' = st\<lparr>tf_line_start := False\<rparr>" "tf_line_start st" "\<not> blank_start r"
      "tf_kind st \<noteq> Some TagOrUnicode"
    using assms(1) unfolding filter_step_free[OF assms(2) fr]
    by (auto dest: step_text_wait step_tag_wait split: if_splits)
  then have "filter_step st' (r @ m) = filter_step st (r @ m) \<and> tag_state st' \<and> tf_pending st' = tf_pending st
      \<and> tf_kind st' = tf_kind st \<and> tf_hidden st' = tf_hidden st"
  proof cases
    case started
    have t: "tag_state st'" using assms(2) started(1) by (simp add: tag_state_def)
    have "filter_step st' (r @ m) = step_text st' (r @ m)"
      unfolding filter_step_free[OF t assms(3)] using started by simp
    moreover have "filter_step st (r @ m) = step_text st' (r @ m)"
      unfolding filter_step_free[OF assms(2,3)] using started blank_start_more[OF started(3), of m] by simp
    ultimately show ?thesis using t started(1) by simp
  qed (use assms(2) in simp)
  then show "filter_step st' (r @ m) = filter_step st (r @ m)" "tag_state st'" "tf_pending st' = tf_pending st"
    "tf_kind st' = tf_kind st" "tf_hidden st' = tf_hidden st" by simp_all
qed

lemma filter_loop_step: "filter_step s r = filter_step t r \<Longrightarrow> r \<noteq> [] \<Longrightarrow> filter_loop s r = filter_loop t r"
  by (subst (1 2) filter_loop.simps) simp

lemma filter_loop_append:
  assumes "tag_state st" and "fence_free (r @ m)" and "tf_pending st = []"
  shows "filter_loop st (r @ m) = (let (v, s) = filter_loop st r; (w, t) = filter_push s m in (v @ w, t))"
  using assms
proof (induction st r rule: filter_loop.induct)
  case (1 st r)
  show ?case
  proof (cases "r = []")
    case True
    have e: "st\<lparr>tf_pending := []\<rparr> = st" using "1.prems"(3) by simp
    have "filter_loop st [] = ([], st)" by (subst filter_loop.simps) (simp only: e if_True simp_thms)
    then show ?thesis using True "1.prems"(3) by (simp add: filter_push_def e split: prod.split)
  next
    case r: False
    show ?thesis
    proof (cases "filter_step st r")
      case (Wait st')
      note w = filter_step_wait[OF Wait "1.prems"(1,2)]
      have "filter_loop st r = ([], st'\<lparr>tf_pending := r\<rparr>)" using r Wait by (subst filter_loop.simps) simp
      moreover have "st'\<lparr>tf_pending := r\<rparr>\<lparr>tf_pending := []\<rparr> = st'" using w(3) "1.prems"(3) by simp
      ultimately have "(let (v, s) = filter_loop st r; (w, t) = filter_push s m in (v @ w, t)) = filter_loop st' (r @ m)"
        by (simp add: filter_push_def split: prod.split)
      also have "\<dots> = filter_loop st (r @ m)" by (rule filter_loop_step[OF w(1)]) (use r in simp)
      finally show ?thesis by simp
    next
      case (Go st' vis rest)
      note g = filter_step_go[OF Go "1.prems"(1,2) r]
      have l: "filter_loop st r = (let (v, s) = filter_loop st' rest in (vis @ v, s))"
        using r Go by (subst filter_loop.simps) simp
      have lm: "filter_loop st (r @ m) = (let (v, s) = filter_loop st' (rest @ m) in (vis @ v, s))"
        using r g(1) by (subst filter_loop.simps) simp
      have ih: "filter_loop st' (rest @ m) = (let (v, s) = filter_loop st' rest; (w, t) = filter_push s m in (v @ w, t))"
        using "1.IH"[OF r Go] g(2,3,4) "1.prems"(2,3) by simp
      show ?thesis unfolding l lm ih by (simp add: Let_def split: prod.split)
    qed
  qed
qed

lemma filter_loop_keeps:
  assumes "tag_state st" and "fence_free r" and "tf_pending st = []"
  shows "tag_state (snd (filter_loop st r)) \<and> fence_free (tf_pending (snd (filter_loop st r)))"
  using assms
proof (induction st r rule: filter_loop.induct)
  case (1 st r)
  show ?case
  proof (cases "r = []")
    case True
    then show ?thesis using "1.prems" by (simp add: filter_loop.simps tag_state_def)
  next
    case r: False
    have f: "fence_free (r @ [])" using "1.prems"(2) by simp
    show ?thesis
    proof (cases "filter_step st r")
      case (Wait st')
      have "filter_loop st r = ([], st'\<lparr>tf_pending := r\<rparr>)" using r Wait by (subst filter_loop.simps) simp
      then show ?thesis using filter_step_wait(2)[OF Wait "1.prems"(1) f] "1.prems"(2) by (simp add: tag_state_def)
    next
      case (Go st' vis rest)
      note g = filter_step_go[OF Go "1.prems"(1) f r]
      have "filter_loop st r = (let (v, s) = filter_loop st' rest in (vis @ v, s))"
        using r Go by (subst filter_loop.simps) simp
      then show ?thesis using "1.IH"[OF r Go] g(2,3,4) "1.prems"(3) by (simp split: prod.splits)
    qed
  qed
qed

lemma push_chunks_concat:
  assumes "tag_state st" and "fence_free (tf_pending st @ concat (c # cs))"
  shows "push_chunks st (c # cs) = filter_push st (concat (c # cs))"
  using assms
proof (induction cs arbitrary: st c)
  case Nil
  then show ?case by (simp split: prod.split)
next
  case (Cons d ds)
  let ?st = "st\<lparr>tf_pending := []\<rparr>"
  have t: "tag_state ?st" using Cons.prems(1) by (simp add: tag_state_def)
  obtain v s where p: "filter_push st c = (v, s)" by fastforce
  then have l: "filter_loop ?st (tf_pending st @ c) = (v, s)" by (simp add: filter_push_def)
  have k: "tag_state s \<and> fence_free (tf_pending s)"
    using filter_loop_keeps[OF t, of "tf_pending st @ c"] Cons.prems(2) l by simp
  have "push_chunks st (c # d # ds) = (let (w, t) = push_chunks s (d # ds) in (v @ w, t))"
    by (subst push_chunks.simps) (simp add: p)
  also have "push_chunks s (d # ds) = filter_push s (concat (d # ds))"
    by (rule Cons.IH) (use k Cons.prems(2) in simp_all)
  also have "(let (w, t) = filter_push s (concat (d # ds)) in (v @ w, t)) = filter_push st (concat (c # d # ds))"
    using filter_loop_append[OF t, of "tf_pending st @ c" "concat (d # ds)"] Cons.prems(2) l
    by (simp add: filter_push_def)
  finally show ?case .
qed

lemma stream_concat:
  assumes "fence_free (concat chunks)"
  shows "filter_stream chunks = filter_stream [concat chunks]"
proof (cases chunks)
  case Nil
  have "filter_push new_filter [] = ([], new_filter)"
    by (simp add: filter_push_def filter_loop.simps new_filter_def)
  then show ?thesis using Nil by (simp add: filter_stream_def)
next
  case (Cons c cs)
  have t: "tag_state new_filter" "tf_pending new_filter = []" by (simp_all add: tag_state_def new_filter_def)
  have "push_chunks new_filter chunks = filter_push new_filter (concat chunks)"
    using push_chunks_concat[OF t(1), of c cs] assms Cons t(2) by simp
  moreover have "push_chunks new_filter [concat chunks] = filter_push new_filter (concat chunks)"
    by (simp split: prod.split)
  ultimately show ?thesis by (simp only: filter_stream_def)
qed

section \<open>What the filter computes\<close>

text \<open>The reference: the visible and the hidden text when only the tags count, of the whole text at once.\<close>

function strip_thinking :: "bool \<Rightarrow> ustr \<Rightarrow> ustr \<times> ustr" where
  "strip_thinking hid r =
     (if r = [] then ([], [])
      else case complete_prefix r (if hid then THINKING_CLOSE_TAGS else THINKING_OPEN_TAGS) of
          Some rest \<Rightarrow> strip_thinking (\<not> hid) rest
        | None \<Rightarrow> (let (v, h) = strip_thinking hid (tl r)
            in if hid then (v, hd r # h) else (hd r # v, h)))"
  by pat_completeness auto
termination
  by (relation "measure (\<lambda>(hid, r). length r)")
    (auto dest!: complete_prefix_shorter simp: tags_nonempty split: if_splits)

declare strip_thinking.simps [simp del]

lemma no_tag_prefix:
  "hd r \<noteq> 60 \<Longrightarrow> r \<noteq> [] \<Longrightarrow> complete_prefix r THINKING_OPEN_TAGS = None \<and> complete_prefix r THINKING_CLOSE_TAGS = None"
  by (cases r) (auto simp: THINKING_OPEN_TAGS_def THINKING_CLOSE_TAGS_def str_def)

lemma strip_no_tag: "60 \<notin> set r \<Longrightarrow> strip_thinking hid r = (if hid then ([], r) else (r, []))"
proof (induction r)
  case Nil
  then show ?case by (simp add: strip_thinking.simps)
next
  case (Cons c cs)
  then have "complete_prefix (c # cs) (if hid then THINKING_CLOSE_TAGS else THINKING_OPEN_TAGS) = None"
    using no_tag_prefix[of "c # cs"] by auto
  then show ?case using Cons by (subst strip_thinking.simps) simp
qed

lemma partial_tag_tail:
  assumes "has_partial_prefix r THINKING_OPEN_TAGS \<or> has_partial_prefix r THINKING_CLOSE_TAGS" and "r \<noteq> []"
  shows "60 \<notin> set (tl r)"
proof -
  obtain tag q where t: "tag \<in> set (THINKING_OPEN_TAGS @ THINKING_CLOSE_TAGS)" "tag = r @ q"
    using assms(1) by (auto simp: has_partial_prefix_def list_ex_iff starts_with_iff)
  have "60 \<notin> set (tl tag)" using t(1) by (auto simp: THINKING_OPEN_TAGS_def THINKING_CLOSE_TAGS_def str_def)
  then show ?thesis using t(2) assms(2) by auto
qed

lemma strip_partial:
  assumes "has_partial_prefix r (if hid then THINKING_CLOSE_TAGS else THINKING_OPEN_TAGS)" and "r \<noteq> []"
    and "complete_prefix r (if hid then THINKING_CLOSE_TAGS else THINKING_OPEN_TAGS) = None"
  shows "strip_thinking hid r = (if hid then ([], r) else (r, []))"
proof -
  have "60 \<notin> set (tl r)" using partial_tag_tail assms(1,2) by (cases hid) auto
  then show ?thesis using assms(2,3) by (subst strip_thinking.simps) (simp add: strip_no_tag)
qed

text \<open>No complete line of the text is blank, that is made of at most three spaces; \<open>ls\<close> tells whether the text
  begins a line.\<close>

definition blank_line :: "ustr \<Rightarrow> bool" where
  "blank_line l \<longleftrightarrow> length l \<le> 3 \<and> list_all (\<lambda>c. c = 32) l"

definition no_blank :: "bool \<Rightarrow> ustr \<Rightarrow> bool" where
  "no_blank ls r \<longleftrightarrow> (\<forall>l \<in> set (butlast (if ls then split_on nl r else tl (split_on nl r))). \<not> blank_line l)"

lemma no_blank_False: "no_blank ls r \<Longrightarrow> no_blank False r"
  unfolding no_blank_def by (cases "split_on nl r") (auto simp: butlast_tl split: if_splits dest: in_set_butlastD)

lemma no_blank_Cons: "no_blank False (c # cs) = no_blank (c = nl) cs"
  by (cases "split_on nl cs") (simp_all add: no_blank_def)

lemma no_blank_tl: "no_blank ls r \<Longrightarrow> r \<noteq> [] \<Longrightarrow> no_blank (hd r = nl) (tl r)"
  using no_blank_False[of ls r] no_blank_Cons[of "hd r" "tl r"] by simp

lemma no_blank_drop: "no_blank ls (a @ rest) \<Longrightarrow> nl \<notin> set a \<Longrightarrow> no_blank False rest"
proof (induction a arbitrary: ls)
  case Nil
  then show ?case by (simp add: no_blank_False)
next
  case (Cons c a)
  have "no_blank (c = nl) (a @ rest)" using no_blank_tl[OF Cons.prems(1)] by simp
  then show ?case using Cons by auto
qed

lemma blank_start_no_newline:
  assumes "no_blank True r" and "blank_start r"
  shows "60 \<notin> set r"
proof (cases "nl \<in> set r")
  case True
  then obtain a b where ab: "r = a @ nl # b" "nl \<notin> set a" by (meson split_list_first)
  then have "takeWhile (\<lambda>c. c \<noteq> nl) r = a" by (metis (mono_tags, lifting) takeWhile_tail takeWhile_eq_all_conv)
  then have "blank_line a" using assms(2) by (simp add: blank_start_def blank_line_def)
  moreover have "a \<in> set (butlast (split_on nl r))" using ab by (simp add: split_on_append_sep)
  ultimately show ?thesis using assms(1) by (auto simp: no_blank_def)
next
  case False
  then have "\<forall>x \<in> set r. x \<noteq> nl" by metis
  then have tw: "takeWhile (\<lambda>c. c \<noteq> nl) r = r" by (simp add: takeWhile_eq_all_conv)
  have "\<forall>c \<in> set r. c = 32" using assms(2) unfolding blank_start_def Let_def tw by (simp add: list_all_iff)
  then show ?thesis by auto
qed

definition run_rest :: "think_filter \<Rightarrow> ustr \<Rightarrow> ustr \<times> ustr" where
  "run_rest st r = (let (v, s) = filter_loop st r; (w, t) = filter_finish s in (v @ w, tf_hidden t))"

lemma run_rest_go:
  assumes "filter_step st r = Go st' vis rest" and "r \<noteq> []"
  shows "run_rest st r = (vis @ fst (run_rest st' rest), snd (run_rest st' rest))"
  using assms by (subst run_rest_def, subst filter_loop.simps) (simp add: run_rest_def split: prod.split)

lemma run_rest_wait:
  assumes "filter_step st r = Wait st'" and "r \<noteq> []" and "tag_state st" and "fence_free r"
  shows "run_rest st r = (if tf_kind st = Some TagOrUnicode then ([], tf_hidden st @ r) else (r, tf_hidden st))"
proof -
  have f: "fence_free (r @ [])" using assms(4) by simp
  note w = filter_step_wait[OF assms(1,3) f]
  have l: "filter_loop st r = ([], st'\<lparr>tf_pending := r\<rparr>)" using assms(1,2) by (subst filter_loop.simps) simp
  show ?thesis
    using w(2,4,5) assms(3) fence_free_classify[OF assms(4)]
    by (cases "tf_kind st"; cases "the (tf_kind st)") (auto simp: run_rest_def l filter_finish_def tag_state_def)
qed

lemma tags_no_newline: "tag \<in> set (THINKING_OPEN_TAGS @ THINKING_CLOSE_TAGS) \<Longrightarrow> nl \<notin> set tag"
  by (auto simp: THINKING_OPEN_TAGS_def THINKING_CLOSE_TAGS_def str_def)

lemma complete_prefix_tag: "complete_prefix r tags = Some rest \<Longrightarrow> \<exists>tag \<in> set tags. r = tag @ rest"
  by (induction tags) (auto simp: strip_prefix_Some split: option.splits)

lemma run_strips:
  assumes "tag_state st" and "fence_free r" and "no_blank (tf_line_start st) r"
    and "tf_kind st = Some TagOrUnicode \<Longrightarrow> \<not> tf_line_start st"
  shows "run_rest st r = (let (v, h) = strip_thinking (tf_kind st = Some TagOrUnicode) r in (v, tf_hidden st @ h))"
  using assms
proof (induction "length r" arbitrary: st r rule: less_induct)
  case less
  let ?hid = "tf_kind st = Some TagOrUnicode"
  let ?tags = "if ?hid then THINKING_CLOSE_TAGS else THINKING_OPEN_TAGS"
  show ?case
  proof (cases "r = []")
    case True
    have "filter_loop st [] = ([], st\<lparr>tf_pending := []\<rparr>)" by (subst filter_loop.simps) simp
    moreover have "\<not> is_think_fence []" by (simp add: is_think_fence_def fence_free_parse)
    ultimately show ?thesis using True less.prems(1)
      by (cases "tf_kind st"; cases "the (tf_kind st)")
        (auto simp: run_rest_def filter_finish_def strip_thinking.simps classify_think_start_def tag_state_def)
  next
    case r: False
    note step = filter_step_free[OF less.prems(1,2)]
    have f: "fence_free (r @ [])" using less.prems(2) by simp
    show ?thesis
    proof (cases "filter_step st r")
      case (Wait st')
      have ref: "strip_thinking ?hid r = (if ?hid then ([], r) else (r, []))"
      proof (cases "tf_line_start st \<and> blank_start r")
        case True
        then show ?thesis using strip_no_tag[OF blank_start_no_newline] less.prems(3) by simp
      next
        case False
        then have "has_partial_prefix r ?tags" "complete_prefix r ?tags = None"
          using Wait less.prems(1,4) unfolding step
          by (auto simp: step_tag_def step_text_def tag_state_def Let_def split: if_splits option.splits)
        then show ?thesis using strip_partial r by blast
      qed
      show ?thesis unfolding run_rest_wait[OF Wait r less.prems(1,2)] ref by simp
    next
      case (Go st' vis rest)
      note g = filter_step_go[OF Go less.prems(1) f r]
      have sh: "length rest < length r" using filter_step_shorter[OF Go r] .
      have nb: "\<not> (tf_line_start st \<and> blank_start r)" using Go less.prems(4) unfolding step by (auto split: if_splits)
      show ?thesis
      proof (cases "complete_prefix r ?tags")
        case (Some x)
        have e: "rest = x" "vis = []" "\<not> tf_line_start st'" "tf_hidden st' = tf_hidden st"
            "(tf_kind st' = Some TagOrUnicode) = (\<not> ?hid)"
          using Go Some less.prems(1,4) nb unfolding step
          by (auto simp: step_tag_def step_text_def tag_state_def Let_def split: if_splits)
        obtain tag where "tag \<in> set (THINKING_OPEN_TAGS @ THINKING_CLOSE_TAGS)" "r = tag @ rest"
          using complete_prefix_tag[OF Some] e(1) by (cases ?hid) auto
        then have "no_blank False rest" using less.prems(3) tags_no_newline no_blank_drop by blast
        then have "run_rest st' rest = (let (v, h) = strip_thinking (\<not> ?hid) rest in (v, tf_hidden st @ h))"
          using less.hyps[OF sh g(2) g(4)] e(3-5) by simp
        then show ?thesis
          unfolding run_rest_go[OF Go r] e(2)
          using Some r e(1) by (subst strip_thinking.simps) (simp split: prod.split)
      next
        case None
        have e: "rest = tl r" "vis = (if ?hid then [] else [hd r])"
            "tf_hidden st' = tf_hidden st @ (if ?hid then [hd r] else [])"
            "tf_kind st' = tf_kind st" "tf_line_start st' = (if ?hid then tf_line_start st else hd r = nl)"
          using Go None less.prems(1,4) nb unfolding step
          by (auto simp: step_tag_def step_text_def tag_state_def Let_def split: if_splits)
        have "no_blank (hd r = nl) rest" using no_blank_tl[OF less.prems(3) r] e(1) by simp
        then have "no_blank (tf_line_start st') rest"
          using e(5) less.prems(4) no_blank_False by (auto split: if_splits)
        then have "run_rest st' rest = (let (v, h) = strip_thinking ?hid rest in (v, tf_hidden st' @ h))"
          using less.hyps[OF sh g(2) g(4)] e(4,5) less.prems(4) by auto
        then show ?thesis
          unfolding run_rest_go[OF Go r] e(2)
          using None r e(1,3) by (subst strip_thinking.simps) (simp split: prod.split)
      qed
    qed
  qed
qed

text \<open>C20. In a text without any backtick or tilde (the characters fences are made of) and without blank lines the filter shows and hides exactly what the
  tags say, wherever the text is cut into chunks, inside a tag included.\<close>

theorem filter_strips_thinking:
  assumes "fence_free (concat chunks)" and "no_blank True (concat chunks)"
  shows "filter_stream chunks = strip_thinking False (concat chunks)"
proof -
  let ?s = "concat chunks"
  have "filter_stream chunks = filter_stream [?s]" by (rule stream_concat[OF assms(1)])
  also have "\<dots> = run_rest new_filter ?s"
    unfolding filter_stream_def run_rest_def
    by (simp add: filter_push_def new_filter_def split: prod.split)
  finally have "filter_stream chunks = run_rest new_filter ?s" .
  moreover have "run_rest new_filter ?s = strip_thinking False ?s"
    using run_strips[of new_filter ?s] assms by (simp add: tag_state_def new_filter_def split: prod.splits)
  ultimately show ?thesis by simp
qed

lemma filter_strips_thinking_witness:
  "filter_stream [str ''a<th'', str ''ink>b</think'', str ''>c'' @ [nl] @ str ''d'']
     = strip_thinking False (concat [str ''a<th'', str ''ink>b</think'', str ''>c'' @ [nl] @ str ''d''])"
  by (rule filter_strips_thinking; code_simp)

text \<open>Without fence characters the chunk boundaries never matter, blank lines or not.\<close>

theorem chunk_boundaries_irrelevant:
  assumes "fence_free (concat chunks)" and "concat chunks = concat chunks'"
  shows "filter_stream chunks = filter_stream chunks'"
  using stream_concat[of chunks] stream_concat[of chunks'] assms by simp

lemma chunk_boundaries_irrelevant_witness:
  "filter_stream [str ''a<th'', [], str ''ink>b'' @ [nl], [nl]] = filter_stream [str ''a<think>'', str ''b'' @ [nl, nl]]"
  by (rule chunk_boundaries_irrelevant; code_simp)

section \<open>Where the filter falls short\<close>

text \<open>After a blank line nothing more is shown before the end of the stream, and then the tags are shown too.\<close>

lemma blank_line_stalls:
  "fst (push_chunks new_filter [str ''a'' @ [nl, nl] @ str ''b'', str ''c'']) = str ''a'' @ [nl]"
  "filter_stream [str ''a'' @ [nl, nl] @ str ''<think>x</think>b''] = (str ''a'' @ [nl, nl] @ str ''<think>x</think>b'', [])"
  by code_simp+

text \<open>A closing tag on its own line ends fenced thinking only if the whole line arrives in one chunk.\<close>

lemma split_close_tag_missed:
  "filter_stream [fence3 @ str ''think'' @ [nl] @ str ''x'' @ [nl] @ str ''</think>'' @ [nl] @ str ''b'']
     = (str ''b'', str ''x'' @ [nl])"
  "fst (filter_stream [fence3 @ str ''think'' @ [nl] @ str ''x'' @ [nl] @ str ''</th'', str ''ink>'' @ [nl] @ str ''b'']) = []"
  by code_simp+

end
