(* ===== verification/AgentStream.thy ===== *)
theory AgentStream
  imports ToolCalls StreamParsing ContextManager
begin

text \<open>
  One attempt of a provider's stream, \<open>src/core/agent_stream.rs\<close>: \<open>StreamAccumulator\<close> interprets the chunks (text through the
  filter of thinking sections, reasoning, fragments of tool calls, usage, errors) and \<open>finish\<close> gives its outcome; then the
  decision of \<open>src/core/agent_loop.rs\<close> what becomes of the attempt. \<open>ulid\<close> is the supply of new identifiers. Logging, the record
  of the timing chunks and the percentage of the window are left out; a cost is only passed on.
\<close>

section \<open>Chunks and events\<close>

record text_chunk =
  xt_text :: ustr
  xt_signature :: "ustr option"

record reasoning_chunk =
  xr_reasoning :: ustr
  xr_signature :: "ustr option"
  xr_redacted_data :: "ustr option"

record usage_chunk =
  xu_input_tokens :: "32 word"
  xu_output_tokens :: "32 word"
  xu_cache_write_tokens :: "32 word option"
  xu_cache_read_tokens :: "32 word option"
  xu_reasoning_tokens :: "32 word option"
  xu_thoughts_token_count :: "32 word option"
  xu_total_cost :: "ustr option"
  xu_id :: "ustr option"

datatype stream_chunk =
    ChunkText text_chunk
  | ChunkReasoning reasoning_chunk
  | ChunkToolCallStarted ustr ustr
  | ChunkToolCalls api_tool_call
  | ChunkUsage usage_chunk
  | ChunkTiming
  | ChunkError ustr

text \<open>\<open>ApiReqInfo\<close> with the fields the context manager does not read.\<close>

record stream_usage = api_req_info +
  su_reasoning_tokens :: "32 word option"
  su_context_tokens :: int
  su_cost :: "ustr option"

record usage_deltas =
  ud_tokens_in :: "32 word"
  ud_tokens_out :: "32 word"
  ud_cache_writes :: "32 word"
  ud_cache_reads :: "32 word"
  ud_reasoning_tokens :: "32 word"
  ud_cost :: "ustr option"

datatype stream_event =
    VisibleText ustr
  | ReasoningText ustr
  | PrepareToolCall ustr ustr
  | ToolCallReceived
  | UsageUpdated stream_usage usage_deltas
  | StreamError ustr bool bool bool

section \<open>The accumulator\<close>

record accumulator =
  sa_filter :: think_filter
  sa_text :: ustr
  sa_filtered_text :: ustr
  sa_reasoning :: ustr
  sa_signature :: "ustr option"
  sa_text_signature :: "ustr option"
  sa_redacted_data :: "ustr list"
  sa_tool_calls :: "ustr \<Rightarrow> api_tool_call option"
  sa_tool_call_order :: "ustr list"
  sa_announced :: "ustr set"
  sa_substantive :: bool
  sa_visible :: bool
  sa_errored :: bool
  sa_error_before_output :: "ustr option"
  sa_error_before_visible :: "ustr option"
  sa_non_retryable :: "ustr option"
  sa_usage :: "stream_usage option"
  sa_ulids :: nat

record stream_setting =
  ss_json_output :: bool
  ss_provider :: ustr
  ss_context_window :: "64 word"
  ss_ulid :: "nat \<Rightarrow> ustr"

definition new_accumulator :: "nat \<Rightarrow> accumulator" where
  "new_accumulator n =
     \<lparr>sa_filter = new_filter, sa_text = [], sa_filtered_text = [], sa_reasoning = [], sa_signature = None,
      sa_text_signature = None, sa_redacted_data = [], sa_tool_calls = Map.empty, sa_tool_call_order = [],
      sa_announced = {}, sa_substantive = False, sa_visible = False, sa_errored = False,
      sa_error_before_output = None, sa_error_before_visible = None, sa_non_retryable = None, sa_usage = None,
      sa_ulids = n\<rparr>"

definition note_preoutput_failure :: "ustr \<Rightarrow> accumulator \<Rightarrow> accumulator" where
  "note_preoutput_failure message a = a\<lparr>sa_error_before_output := Some message, sa_error_before_visible := Some message\<rparr>"

definition or_else :: "'a option \<Rightarrow> 'a option \<Rightarrow> 'a option" where
  "or_else x y = (case x of Some v \<Rightarrow> Some v | None \<Rightarrow> y)"

definition push_text :: "stream_setting \<Rightarrow> text_chunk \<Rightarrow> accumulator \<Rightarrow> stream_event list \<times> accumulator" where
  "push_text ss c a =
     (let (processed, f) = filter_push (sa_filter a) (xt_text c);
          shown = (if ss_json_output ss then xt_text c \<noteq> [] else processed \<noteq> [])
      in ([VisibleText processed],
          a\<lparr>sa_filter := f, sa_filtered_text := sa_filtered_text a @ processed,
            sa_substantive := sa_substantive a \<or> shown, sa_visible := sa_visible a \<or> shown,
            sa_text_signature := or_else (xt_signature c) (sa_text_signature a),
            sa_text := sa_text a @ xt_text c\<rparr>))"

definition push_reasoning :: "reasoning_chunk \<Rightarrow> accumulator \<Rightarrow> stream_event list \<times> accumulator" where
  "push_reasoning c a =
     ([ReasoningText (xr_reasoning c)],
      a\<lparr>sa_substantive := sa_substantive a \<or> xr_reasoning c \<noteq> [],
        sa_reasoning := sa_reasoning a @ xr_reasoning c,
        sa_signature := or_else (xr_signature c) (sa_signature a),
        sa_redacted_data := sa_redacted_data a @ (case xr_redacted_data c of Some d \<Rightarrow> [d] | None \<Rightarrow> [])\<rparr>)"

definition push_tool_call_started :: "ustr \<Rightarrow> ustr \<Rightarrow> accumulator \<Rightarrow> stream_event list \<times> accumulator" where
  "push_tool_call_started cid name a =
     (if cid \<in> sa_announced a then ([], a)
      else ([PrepareToolCall cid name], a\<lparr>sa_announced := insert cid (sa_announced a)\<rparr>))"

text \<open>A fragment belongs to the call of its identifier; one without any gets a new one.\<close>

definition call_key :: "api_tool_call \<Rightarrow> ustr" where
  "call_key tc = (case at_call_id tc of Some k \<Rightarrow> k | None \<Rightarrow> str_or_empty (at_id tc))"

definition none_or_empty :: "ustr option \<Rightarrow> bool" where
  "none_or_empty s \<longleftrightarrow> (case s of None \<Rightarrow> True | Some t \<Rightarrow> t = [])"

definition merge_call :: "api_tool_call \<Rightarrow> api_tool_call \<Rightarrow> api_tool_call" where
  "merge_call existing tc =
     existing\<lparr>at_arguments := (if none_or_empty (at_arguments tc) then at_arguments existing
         else Some (str_or_empty (at_arguments existing) @ str_or_empty (at_arguments tc))),
       at_name := or_else (at_name tc) (at_name existing),
       at_call_id := or_else (at_call_id tc) (at_call_id existing)\<rparr>"

definition push_tool_calls :: "stream_setting \<Rightarrow> api_tool_call \<Rightarrow> accumulator \<Rightarrow> stream_event list \<times> accumulator" where
  "push_tool_calls ss tc a =
     (let no_key = (call_key tc = []);
          key = (if no_key then ss_ulid ss (sa_ulids a) else call_key tc);
          a' = a\<lparr>sa_substantive := True, sa_visible := True, sa_ulids := (if no_key then Suc (sa_ulids a) else sa_ulids a)\<rparr>
      in if none_or_empty (at_name tc) \<and> none_or_empty (at_arguments tc) then ([], a')
         else ([ToolCallReceived],
           case sa_tool_calls a' key of
             Some existing \<Rightarrow> a'\<lparr>sa_tool_calls := (sa_tool_calls a')(key \<mapsto> merge_call existing tc)\<rparr>
           | None \<Rightarrow> a'\<lparr>sa_tool_call_order := sa_tool_call_order a' @ [key],
               sa_tool_calls := (sa_tool_calls a')(key \<mapsto> tc)\<rparr>))"

definition saturating_add32 :: "32 word \<Rightarrow> 32 word \<Rightarrow> 32 word" where
  "saturating_add32 x y = (if uint x + uint y < 2 ^ 32 then x + y else -1)"

definition count_or :: "32 word option \<Rightarrow> 32 word" where
  "count_or w = (case w of Some x \<Rightarrow> x | None \<Rightarrow> 0)"

definition is_synthetic_empty_usage :: "usage_chunk \<Rightarrow> bool" where
  "is_synthetic_empty_usage c \<longleftrightarrow>
     xu_input_tokens c = 0 \<and> xu_output_tokens c = 0 \<and> xu_cache_write_tokens c = Some 0 \<and> xu_cache_read_tokens c = None
     \<and> xu_reasoning_tokens c = None \<and> xu_total_cost c = None \<and> xu_id c = None"

definition updated_usage :: "stream_setting \<Rightarrow> usage_chunk \<Rightarrow> stream_usage option \<Rightarrow> stream_usage" where
  "updated_usage ss c prev =
     (let previous = (\<lambda>field. Option.bind prev field);
          tokens_in = (if 0 < xu_input_tokens c then xu_input_tokens c else count_or (previous ari_tokens_in));
          tokens_out = (if 0 < xu_output_tokens c then xu_output_tokens c else count_or (previous ari_tokens_out));
          cache_writes = or_else (xu_cache_write_tokens c) (previous ari_cache_writes);
          cache_reads = or_else (xu_cache_read_tokens c) (previous ari_cache_reads);
          reasoning_tokens = or_else (xu_reasoning_tokens c) (previous su_reasoning_tokens);
          context_output_tokens = (if xu_thoughts_token_count c \<noteq> None
            then saturating_add32 tokens_out (count_or reasoning_tokens) else tokens_out)
      in \<lparr>ari_tokens_in = Some tokens_in, ari_tokens_out = Some tokens_out, ari_cache_writes = cache_writes,
          ari_cache_reads = cache_reads, ari_context_window = Some (ss_context_window ss),
          su_reasoning_tokens = reasoning_tokens,
          su_context_tokens = calculate_context_tokens tokens_in context_output_tokens cache_writes cache_reads (ss_provider ss),
          su_cost = or_else (xu_total_cost c) (Option.bind prev su_cost)\<rparr>)"

definition usage_delta :: "usage_chunk \<Rightarrow> usage_deltas" where
  "usage_delta c =
     \<lparr>ud_tokens_in = xu_input_tokens c, ud_tokens_out = xu_output_tokens c,
      ud_cache_writes = count_or (xu_cache_write_tokens c), ud_cache_reads = count_or (xu_cache_read_tokens c),
      ud_reasoning_tokens = count_or (xu_reasoning_tokens c), ud_cost = xu_total_cost c\<rparr>"

definition push_usage :: "stream_setting \<Rightarrow> usage_chunk \<Rightarrow> accumulator \<Rightarrow> stream_event list \<times> accumulator" where
  "push_usage ss c a =
     (if is_synthetic_empty_usage c then ([], a)
      else let usage = updated_usage ss c (sa_usage a)
        in ([UsageUpdated usage (usage_delta c)], a\<lparr>sa_usage := Some usage\<rparr>))"

definition stream_error_is_retryable :: "ustr \<Rightarrow> bool" where
  "stream_error_is_retryable err \<longleftrightarrow> str_contains (str ''(retryable)'') err"

definition push_error :: "ustr \<Rightarrow> accumulator \<Rightarrow> stream_event list \<times> accumulator" where
  "push_error err a =
     (if \<not> stream_error_is_retryable err
      then ([StreamError err False (sa_substantive a) (sa_visible a)],
        a\<lparr>sa_errored := True, sa_non_retryable := or_else (sa_non_retryable a) (Some err)\<rparr>)
      else if sa_non_retryable a \<noteq> None then ([], a)
      else if \<not> sa_substantive a
      then ([], a\<lparr>sa_error_before_output := Some err, sa_error_before_visible := Some err\<rparr>)
      else ([StreamError err True (sa_substantive a) (sa_visible a)],
        a\<lparr>sa_errored := True,
          sa_error_before_visible := (if sa_visible a then sa_error_before_visible a else Some err)\<rparr>))"

definition push_chunk_event :: "stream_setting \<Rightarrow> stream_chunk \<Rightarrow> accumulator \<Rightarrow> stream_event list \<times> accumulator" where
  "push_chunk_event ss chunk a =
     (case chunk of
        ChunkText c \<Rightarrow> push_text ss c a
      | ChunkReasoning c \<Rightarrow> push_reasoning c a
      | ChunkToolCallStarted cid name \<Rightarrow> push_tool_call_started cid name a
      | ChunkToolCalls tc \<Rightarrow> push_tool_calls ss tc a
      | ChunkUsage c \<Rightarrow> push_usage ss c a
      | ChunkTiming \<Rightarrow> ([], a)
      | ChunkError err \<Rightarrow> push_error err a)"

section \<open>The outcome of an attempt\<close>

record stream_outcome =
  so_text :: ustr
  so_filtered_text :: ustr
  so_filtered_tail :: ustr
  so_leaked_thinking :: "ustr option"
  so_reasoning :: ustr
  so_signature :: "ustr option"
  so_text_signature :: "ustr option"
  so_redacted_data :: "ustr list"
  so_tool_call_order :: "ustr list"
  so_tool_calls :: "ustr \<Rightarrow> api_tool_call option"
  so_usage :: "stream_usage option"
  so_substantive :: bool
  so_errored :: bool
  so_error_before_output :: "ustr option"
  so_error_before_visible :: "ustr option"
  so_non_retryable :: "ustr option"

definition finish_stream :: "accumulator \<Rightarrow> stream_outcome" where
  "finish_stream a =
     (let (filtered_tail, f) = filter_finish (sa_filter a); (leaked, _) = take_hidden f
      in \<lparr>so_text = sa_text a, so_filtered_text = sa_filtered_text a @ filtered_tail, so_filtered_tail = filtered_tail,
          so_leaked_thinking = leaked, so_reasoning = sa_reasoning a, so_signature = sa_signature a,
          so_text_signature = sa_text_signature a, so_redacted_data = sa_redacted_data a,
          so_tool_call_order = sa_tool_call_order a, so_tool_calls = sa_tool_calls a, so_usage = sa_usage a,
          so_substantive = sa_substantive a, so_errored = sa_errored a, so_error_before_output = sa_error_before_output a,
          so_error_before_visible = sa_error_before_visible a, so_non_retryable = sa_non_retryable a\<rparr>)"

fun push_all :: "stream_setting \<Rightarrow> stream_chunk list \<Rightarrow> accumulator \<Rightarrow> stream_event list \<times> accumulator" where
  "push_all ss [] a = ([], a)"
| "push_all ss (c # cs) a =
     (let (evs, a1) = push_chunk_event ss c a; (evs', a2) = push_all ss cs a1 in (evs @ evs', a2))"

text \<open>An attempt whose deadline passes before the first output is noted as failed, with a message.\<close>

definition run_attempt ::
  "stream_setting \<Rightarrow> nat \<Rightarrow> stream_chunk list \<Rightarrow> ustr option \<Rightarrow> stream_event list \<times> accumulator" where
  "run_attempt ss n chunks deadline =
     (let (evs, a) = push_all ss chunks (new_accumulator n)
      in (evs, case deadline of None \<Rightarrow> a | Some message \<Rightarrow> note_preoutput_failure message a))"

abbreviation MAX_STREAM_RETRY_ATTEMPTS :: nat where "MAX_STREAM_RETRY_ATTEMPTS \<equiv> 3"

definition stream_retry_delay :: "nat \<Rightarrow> nat" where
  "stream_retry_delay retry_attempt = 2 ^ min (retry_attempt - 1) 2"

datatype stream_verdict =
    VerdictError ustr
  | VerdictCapReached ustr
  | VerdictRetry ustr
  | VerdictBroken nat nat
  | VerdictAccepted

definition stream_verdict_of :: "bool \<Rightarrow> bool \<Rightarrow> nat \<Rightarrow> stream_outcome \<Rightarrow> stream_verdict" where
  "stream_verdict_of tui_retry_mode deadline_exceeded attempt out =
     (case so_non_retryable out of
        Some err \<Rightarrow> VerdictError err
      | None \<Rightarrow>
          (case (if tui_retry_mode then so_error_before_visible out else so_error_before_output out) of
             Some err \<Rightarrow>
               if deadline_exceeded \<or> MAX_STREAM_RETRY_ATTEMPTS \<le> attempt then VerdictCapReached err else VerdictRetry err
           | None \<Rightarrow>
               if so_errored out then VerdictBroken (byte_len (so_text out)) (byte_len (so_reasoning out)) else VerdictAccepted))"

text \<open>What comes of an attempt: no stream, the chunks that arrive before the user cancels, those before the task that
  receives them fails, or a stream that ends or misses its deadline. A turn collects the events of its attempts; \<open>wait_ok\<close>
  tells whether the wait before an attempt ends without a cancellation.\<close>

datatype provider_answer =
    NoStream ustr
  | AnswerCancelled "stream_chunk list"
  | AnswerFailed "stream_chunk list" ustr
  | AnswerStream "stream_chunk list" "ustr option"

datatype stream_turn = TurnCancelled | TurnError ustr | TurnFailedAfter nat ustr | TurnBroken nat nat | TurnOutcome stream_outcome

function stream_turn_from ::
  "stream_setting \<Rightarrow> bool \<Rightarrow> (nat \<Rightarrow> bool) \<Rightarrow> (nat \<Rightarrow> provider_answer) \<Rightarrow> nat \<Rightarrow> nat \<Rightarrow> stream_turn \<times> stream_event list list" where
  "stream_turn_from ss tui wait_ok provider attempt n =
     (case provider attempt of
        NoStream message \<Rightarrow> (TurnError message, [[]])
      | AnswerCancelled chunks \<Rightarrow> (TurnCancelled, [fst (run_attempt ss n chunks None)])
      | AnswerFailed chunks message \<Rightarrow> (TurnError message, [fst (run_attempt ss n chunks None)])
      | AnswerStream chunks deadline \<Rightarrow>
          let (evs, a) = run_attempt ss n chunks deadline; out = finish_stream a
          in case stream_verdict_of tui (deadline \<noteq> None) attempt out of
               VerdictError err \<Rightarrow> (TurnError err, [evs])
             | VerdictCapReached err \<Rightarrow> (TurnFailedAfter (attempt + 1) err, [evs])
             | VerdictBroken t r \<Rightarrow> (TurnBroken t r, [evs])
             | VerdictAccepted \<Rightarrow> (TurnOutcome out, [evs])
             | VerdictRetry err \<Rightarrow>
                 if \<not> wait_ok (attempt + 1) then (TurnCancelled, [evs])
                 else let (r, rest) = stream_turn_from ss tui wait_ok provider (attempt + 1) (sa_ulids a) in (r, evs # rest))"
  by pat_completeness auto

lemma verdict_retry:
  "stream_verdict_of tui deadline attempt out = VerdictRetry err \<Longrightarrow>
     attempt < MAX_STREAM_RETRY_ATTEMPTS \<and> \<not> deadline \<and> so_non_retryable out = None
     \<and> (if tui then so_error_before_visible out else so_error_before_output out) = Some err"
  by (auto simp: stream_verdict_of_def split: option.splits if_splits)

termination stream_turn_from
  by (relation "measure (\<lambda>(ss, tui, wait_ok, provider, attempt, n). 4 - attempt)") (auto dest!: verdict_retry)

section \<open>Runs of chunks\<close>

lemma push_all_append:
  "push_all ss (xs @ ys) a =
     (let (e1, a1) = push_all ss xs a; (e2, a2) = push_all ss ys a1 in (e1 @ e2, a2))"
  by (induction xs arbitrary: a) (simp_all add: Let_def split: prod.splits)

lemma snd_push_all_append: "snd (push_all ss (xs @ ys) a) = snd (push_all ss ys (snd (push_all ss xs a)))"
  by (simp add: push_all_append Let_def split: prod.splits)

lemma snd_push_all_Cons: "snd (push_all ss (c # cs) a) = snd (push_all ss cs (snd (push_chunk_event ss c a)))"
  by (simp add: Let_def split: prod.splits)

text \<open>The fields each kind of chunk leaves alone.\<close>

lemmas push_defs = push_chunk_event_def push_text_def push_reasoning_def push_tool_call_started_def push_usage_def
  push_error_def Let_def

section \<open>The assembly of calls\<close>

text \<open>The fragments of a stream with the call they belong to; those with neither name nor arguments do not count.\<close>

fun keyed_calls :: "(nat \<Rightarrow> ustr) \<Rightarrow> nat \<Rightarrow> stream_chunk list \<Rightarrow> (ustr \<times> api_tool_call) list" where
  "keyed_calls ulid n [] = []"
| "keyed_calls ulid n (ChunkToolCalls tc # cs) =
     (let no_key = (call_key tc = []);
          rest = keyed_calls ulid (if no_key then Suc n else n) cs
      in if none_or_empty (at_name tc) \<and> none_or_empty (at_arguments tc) then rest
         else (if no_key then ulid n else call_key tc, tc) # rest)"
| "keyed_calls ulid n (c # cs) = keyed_calls ulid n cs"

definition first_occurrences :: "'a list \<Rightarrow> 'a list" where
  "first_occurrences xs = rev (remdups (rev xs))"

text \<open>A call from its fragments: the texts of the arguments in order, the last name and call identifier, the first identifier
  and signature.\<close>

definition last_given :: "'a option list \<Rightarrow> 'a option" where
  "last_given xs = fold or_else xs None"

definition assembled_call :: "api_tool_call list \<Rightarrow> api_tool_call" where
  "assembled_call tcs =
     (hd tcs)\<lparr>at_arguments := (if list_all (none_or_empty \<circ> at_arguments) tcs then at_arguments (hd tcs)
         else Some (concat (map (str_or_empty \<circ> at_arguments) tcs))),
       at_name := last_given (map at_name tcs), at_call_id := last_given (map at_call_id tcs)\<rparr>"

definition add_call ::
  "(ustr \<Rightarrow> api_tool_call option) \<times> ustr list \<Rightarrow> ustr \<times> api_tool_call \<Rightarrow> (ustr \<Rightarrow> api_tool_call option) \<times> ustr list" where
  "add_call table kc =
     (case fst table (fst kc) of
        Some existing \<Rightarrow> ((fst table)(fst kc \<mapsto> merge_call existing (snd kc)), snd table)
      | None \<Rightarrow> ((fst table)(fst kc \<mapsto> snd kc), snd table @ [fst kc]))"

lemma or_else_None [simp]: "or_else x None = x" "or_else None y = y" "or_else (Some v) y = Some v"
  by (simp_all add: or_else_def split: option.splits)

lemma none_or_empty_iff: "none_or_empty s \<longleftrightarrow> str_or_empty s = []"
  by (simp add: none_or_empty_def str_or_empty_def split: option.splits)

lemma assembled_single: "assembled_call [tc] = tc"
  by (cases tc) (auto simp: assembled_call_def last_given_def none_or_empty_def str_or_empty_def split: option.splits)

lemma assembled_snoc:
  assumes "tcs \<noteq> []"
  shows "assembled_call (tcs @ [tc]) = merge_call (assembled_call tcs) tc"
proof (cases "list_all (none_or_empty \<circ> at_arguments) tcs")
  case True
  then have "concat (map (str_or_empty \<circ> at_arguments) tcs) = []" "str_or_empty (at_arguments (hd tcs)) = []"
    using assms by (simp_all add: list_all_iff none_or_empty_iff)
  then show ?thesis using assms True
    by (simp add: assembled_call_def merge_call_def last_given_def none_or_empty_iff)
next
  case False
  then show ?thesis using assms
    by (auto simp: assembled_call_def merge_call_def last_given_def none_or_empty_iff str_or_empty_def)
qed

lemma first_occurrences_snoc:
  "first_occurrences (xs @ [x]) = (if x \<in> set xs then first_occurrences xs else first_occurrences xs @ [x])"
  by (simp add: first_occurrences_def)

lemma add_call_pair:
  "add_call (m, ks) (k, tc) = (case m k of Some existing \<Rightarrow> (m(k \<mapsto> merge_call existing tc), ks) | None \<Rightarrow> (m(k \<mapsto> tc), ks @ [k]))"
  by (simp add: add_call_def split: option.splits)

lemma add_calls:
  "foldl add_call (Map.empty, []) kcs =
     (\<lambda>k. case map snd (filter (\<lambda>kc. fst kc = k) kcs) of [] \<Rightarrow> None | tcs \<Rightarrow> Some (assembled_call tcs),
      first_occurrences (map fst kcs))"
proof (induction kcs rule: rev_induct)
  case Nil
  then show ?case by (simp add: first_occurrences_def)
next
  case (snoc kc kcs)
  obtain k tc where kc: "kc = (k, tc)" by (cases kc)
  let ?of = "\<lambda>j ks. map snd (filter (\<lambda>kc. fst kc = j) ks)"
  have m: "k \<in> set (map fst kcs) \<longleftrightarrow> ?of k kcs \<noteq> []" by (auto simp: filter_empty_conv)
  have f: "foldl add_call (Map.empty, []) (kcs @ [kc])
      = add_call (\<lambda>j. case ?of j kcs of [] \<Rightarrow> None | tcs \<Rightarrow> Some (assembled_call tcs), first_occurrences (map fst kcs)) (k, tc)"
    by (simp add: snoc.IH kc)
  show ?case
  proof (cases "?of k kcs")
    case Nil
    then have "k \<notin> set (map fst kcs)" using m by simp
    then show ?thesis unfolding f using Nil
      by (auto simp: kc add_call_pair first_occurrences_snoc assembled_single fun_eq_iff)
  next
    case (Cons t ts)
    then have "k \<in> set (map fst kcs)" using m by simp
    then show ?thesis unfolding f using Cons assembled_snoc[of "t # ts" tc]
      by (auto simp: kc add_call_pair first_occurrences_snoc fun_eq_iff)
  qed
qed

lemma push_other_calls:
  assumes "\<And>tc. c \<noteq> ChunkToolCalls tc"
  shows "sa_tool_calls (snd (push_chunk_event ss c a)) = sa_tool_calls a
    \<and> sa_tool_call_order (snd (push_chunk_event ss c a)) = sa_tool_call_order a
    \<and> sa_ulids (snd (push_chunk_event ss c a)) = sa_ulids a"
  using assms by (cases c) (auto simp: push_defs split: prod.splits)

lemma push_all_calls:
  "(sa_tool_calls (snd (push_all ss cs a)), sa_tool_call_order (snd (push_all ss cs a)))
     = foldl add_call (sa_tool_calls a, sa_tool_call_order a) (keyed_calls (ss_ulid ss) (sa_ulids a) cs)"
proof (induction cs arbitrary: a)
  case (Cons c cs)
  show ?case
  proof (cases "\<exists>tc. c = ChunkToolCalls tc")
    case True
    then obtain tc where c: "c = ChunkToolCalls tc" by blast
    show ?thesis
      unfolding snd_push_all_Cons Cons.IH
      by (cases "call_key tc = []"; cases "none_or_empty (at_name tc) \<and> none_or_empty (at_arguments tc)")
        (auto simp: c push_chunk_event_def push_tool_calls_def Let_def add_call_pair split: option.splits)
  next
    case False
    then have "keyed_calls (ss_ulid ss) (sa_ulids a) (c # cs) = keyed_calls (ss_ulid ss) (sa_ulids a) cs" by (cases c) auto
    then show ?thesis
      unfolding snd_push_all_Cons Cons.IH using push_other_calls[of c ss a] False by auto
  qed
qed simp

lemma attempt_calls:
  "sa_tool_calls (snd (run_attempt ss n chunks deadline)) =
     (\<lambda>k. case map snd (filter (\<lambda>kc. fst kc = k) (keyed_calls (ss_ulid ss) n chunks)) of [] \<Rightarrow> None | tcs \<Rightarrow> Some (assembled_call tcs))"
  "sa_tool_call_order (snd (run_attempt ss n chunks deadline)) = first_occurrences (map fst (keyed_calls (ss_ulid ss) n chunks))"
proof -
  have "(sa_tool_calls (snd (run_attempt ss n chunks deadline)), sa_tool_call_order (snd (run_attempt ss n chunks deadline)))
      = foldl add_call (Map.empty, []) (keyed_calls (ss_ulid ss) n chunks)"
    using push_all_calls[of ss chunks "new_accumulator n"]
    by (auto simp: run_attempt_def note_preoutput_failure_def new_accumulator_def split: prod.splits option.splits)
  then show "sa_tool_calls (snd (run_attempt ss n chunks deadline)) =
     (\<lambda>k. case map snd (filter (\<lambda>kc. fst kc = k) (keyed_calls (ss_ulid ss) n chunks)) of [] \<Rightarrow> None | tcs \<Rightarrow> Some (assembled_call tcs))"
    "sa_tool_call_order (snd (run_attempt ss n chunks deadline)) = first_occurrences (map fst (keyed_calls (ss_ulid ss) n chunks))"
    by (simp_all add: add_calls)
qed

text \<open>The call a list of fragments makes for one identifier.\<close>

definition streamed_call :: "(ustr \<times> api_tool_call) list \<Rightarrow> ustr \<Rightarrow> api_tool_call" where
  "streamed_call kcs k = assembled_call (map snd (filter (\<lambda>kc. fst kc = k) kcs))"

definition name_or_unknown :: "api_tool_call \<Rightarrow> ustr" where
  "name_or_unknown c = (case at_name c of Some m \<Rightarrow> m | None \<Rightarrow> str ''unknown_tool'')"

lemma prepared_in_order:
  assumes "distinct ks" and "\<And>k. k \<in> set ks \<Longrightarrow> calls k = Some (c k)"
  shows "map (\<lambda>p. (ptc_name p, ptc_args p)) (fst (prepare_tool_calls args_of ulid n ks calls))
    = map (\<lambda>k. (name_or_unknown (c k), args_of (at_arguments (c k)) (name_or_unknown (c k)))) ks"
  using assms
proof (induction ks arbitrary: n calls)
  case (Cons k ks)
  have ih: "map (\<lambda>p. (ptc_name p, ptc_args p)) (fst (prepare_tool_calls args_of ulid m ks (calls(k \<mapsto> c'))))
      = map (\<lambda>k. (name_or_unknown (c k), args_of (at_arguments (c k)) (name_or_unknown (c k)))) ks" for m c'
    using Cons.prems by (intro Cons.IH) auto
  then show ?case
    using Cons.prems(2)[of k] ih by (simp add: Let_def case_prod_unfold name_or_unknown_def)
qed simp

lemma distinct_first_occurrences [simp]: "distinct (first_occurrences xs)" "set (first_occurrences xs) = set xs"
  by (simp_all add: first_occurrences_def)

text \<open>C21. The calls prepared after a stream are those the fragments name, in the order of their first fragments: each with the
  last name given, and with the arguments that come from joining the texts of all its fragments in order.\<close>

theorem streamed_calls_prepared:
  "let kcs = keyed_calls (ss_ulid ss) n chunks; a = snd (run_attempt ss n chunks deadline); c = streamed_call kcs
   in map (\<lambda>p. (ptc_name p, ptc_args p)) (fst (prepare_tool_calls args_of ulid m (sa_tool_call_order a) (sa_tool_calls a)))
      = map (\<lambda>k. (name_or_unknown (c k), args_of (at_arguments (c k)) (name_or_unknown (c k)))) (first_occurrences (map fst kcs))"
proof -
  let ?kcs = "keyed_calls (ss_ulid ss) n chunks"
  have "sa_tool_calls (snd (run_attempt ss n chunks deadline)) k = Some (streamed_call ?kcs k)"
    if "k \<in> set (first_occurrences (map fst ?kcs))" for k
    using that unfolding attempt_calls streamed_call_def
    by (auto split: list.splits simp: filter_empty_conv)
  then show ?thesis unfolding Let_def attempt_calls(2) by (intro prepared_in_order) simp_all
qed

text \<open>A later fragment with an empty name erases the name, and the batch passes over a call without one.\<close>

lemma empty_name_erases:
  "let fragment = (\<lambda>name arguments. \<lparr>at_call_id = Some (str ''c1''), at_id = None, at_name = Some (str name),
         at_arguments = Some (str arguments), at_signature = None\<rparr>)
   in at_name (assembled_call [fragment ''read_file'' ''{'', fragment '''' ''}'']) = Some []
      \<and> at_arguments (assembled_call [fragment ''read_file'' ''{'', fragment '''' ''}'']) = Some (str ''{}'')"
  by code_simp

section \<open>The text of an attempt\<close>

definition texts_of :: "stream_chunk list \<Rightarrow> ustr list" where
  "texts_of chunks = concat (map (\<lambda>c. case c of ChunkText t \<Rightarrow> [xt_text t] | _ \<Rightarrow> []) chunks)"

definition reasoning_of :: "stream_chunk list \<Rightarrow> ustr list" where
  "reasoning_of chunks = concat (map (\<lambda>c. case c of ChunkReasoning t \<Rightarrow> [xr_reasoning t] | _ \<Rightarrow> []) chunks)"

lemma push_texts:
  "sa_text (snd (push_chunk_event ss c a)) = sa_text a @ concat (texts_of [c])
   \<and> sa_reasoning (snd (push_chunk_event ss c a)) = sa_reasoning a @ concat (reasoning_of [c])
   \<and> sa_filtered_text (snd (push_chunk_event ss c a)) = sa_filtered_text a @ fst (push_chunks (sa_filter a) (texts_of [c]))
   \<and> sa_filter (snd (push_chunk_event ss c a)) = snd (push_chunks (sa_filter a) (texts_of [c]))"
  by (cases c) (simp_all add: push_defs push_tool_calls_def texts_of_def reasoning_of_def case_prod_unfold split: option.splits)

lemma push_all_texts:
  "sa_text (snd (push_all ss cs a)) = sa_text a @ concat (texts_of cs)
   \<and> sa_reasoning (snd (push_all ss cs a)) = sa_reasoning a @ concat (reasoning_of cs)
   \<and> sa_filtered_text (snd (push_all ss cs a)) = sa_filtered_text a @ fst (push_chunks (sa_filter a) (texts_of cs))
   \<and> sa_filter (snd (push_all ss cs a)) = snd (push_chunks (sa_filter a) (texts_of cs))"
proof (induction cs arbitrary: a)
  case (Cons c cs)
  show ?case
    using push_texts[of ss c a] Cons.IH[of "snd (push_chunk_event ss c a)"]
    by (cases c) (simp_all del: push_all.simps add: snd_push_all_Cons texts_of_def reasoning_of_def case_prod_unfold Let_def)
qed (simp add: texts_of_def reasoning_of_def)

text \<open>After an attempt the stored text and reasoning are those of the chunks, and what was shown of the text and what was kept
  back as thinking is what the filter makes of the whole sequence of text chunks, whatever comes between them.\<close>

theorem attempt_text_filtered:
  "let out = finish_stream (snd (run_attempt ss n chunks deadline)); (visible, hidden) = filter_stream (texts_of chunks)
   in so_text out = concat (texts_of chunks) \<and> so_reasoning out = concat (reasoning_of chunks)
      \<and> so_filtered_text out = visible \<and> so_leaked_thinking out = (if hidden = [] then None else Some hidden)"
  using push_all_texts[of ss chunks "new_accumulator n"]
  by (auto simp: run_attempt_def finish_stream_def note_preoutput_failure_def new_accumulator_def filter_stream_def take_hidden_def
      split: prod.splits option.splits)

section \<open>Retries\<close>

declare stream_turn_from.simps [simp del]

text \<open>The events of which something reaches the output: texts, reasoning (kept back until its line is complete, at the latest to the
  end of the attempt), announcements of calls, and the notice of an error.\<close>

definition event_shown :: "bool \<Rightarrow> stream_event \<Rightarrow> bool" where
  "event_shown tui e =
     (case e of
        VisibleText v \<Rightarrow> v \<noteq> []
      | ReasoningText r \<Rightarrow> r \<noteq> []
      | PrepareToolCall _ _ \<Rightarrow> True
      | StreamError _ retryable substantive visible \<Rightarrow> retryable \<and> (if tui then visible else substantive)
      | _ \<Rightarrow> False)"

text \<open>What a broken attempt may have sent before its error: announcements of calls, and with the user interface reasoning.\<close>

definition before_output :: "bool \<Rightarrow> stream_event \<Rightarrow> bool" where
  "before_output tui e \<longleftrightarrow>
     e \<noteq> ToolCallReceived
     \<and> (event_shown tui e \<longrightarrow> (\<exists>cid name. e = PrepareToolCall cid name) \<or> tui \<and> (\<exists>r. e = ReasoningText r))"

definition sent_inv :: "stream_event list \<Rightarrow> accumulator \<Rightarrow> bool" where
  "sent_inv evs a \<longleftrightarrow> (sa_visible a \<longrightarrow> sa_substantive a)
     \<and> (\<not> sa_visible a \<longrightarrow> list_all (before_output True) evs) \<and> (\<not> sa_substantive a \<longrightarrow> list_all (before_output False) evs)"

lemma push_keeps_sent:
  assumes "\<not> ss_json_output ss" and "sent_inv evs a"
  shows "sent_inv (evs @ fst (push_chunk_event ss c a)) (snd (push_chunk_event ss c a))"
  using assms by (cases c)
    (auto simp: push_defs push_tool_calls_def sent_inv_def before_output_def event_shown_def case_prod_unfold split: option.splits)

lemma push_all_sent:
  assumes "\<not> ss_json_output ss" and "sent_inv evs a"
  shows "sent_inv (evs @ fst (push_all ss cs a)) (snd (push_all ss cs a))"
  using assms(2)
proof (induction cs arbitrary: evs a)
  case (Cons c cs)
  from Cons.IH[OF push_keeps_sent[OF assms(1) Cons.prems, of c]] show ?case by (simp add: Let_def case_prod_unfold)
qed simp

text \<open>An error noted as one before output belongs to an error chunk before which nothing had been sent.\<close>

lemma push_noted:
  assumes "sa_error_before_visible (snd (push_chunk_event ss c a)) = Some err"
  shows "sa_error_before_visible a = Some err
    \<or> c = ChunkError err \<and> stream_error_is_retryable err \<and> (\<not> sa_visible a \<or> \<not> sa_substantive a)"
  using assms by (cases c) (auto simp: push_defs push_tool_calls_def case_prod_unfold split: option.splits if_splits)

lemma push_noted_output:
  assumes "sa_error_before_output (snd (push_chunk_event ss c a)) = Some err"
  shows "sa_error_before_output a = Some err \<or> c = ChunkError err \<and> stream_error_is_retryable err \<and> \<not> sa_substantive a"
  using assms by (cases c) (auto simp: push_defs push_tool_calls_def case_prod_unfold split: option.splits if_splits)

lemma push_all_noted:
  assumes "\<not> ss_json_output ss"
    and "(if tui then sa_error_before_visible (snd (push_all ss cs (new_accumulator n))) else sa_error_before_output (snd (push_all ss cs (new_accumulator n)))) = Some err"
  shows "\<exists>pre post. cs = pre @ ChunkError err # post \<and> stream_error_is_retryable err
    \<and> list_all (before_output tui) (fst (push_all ss pre (new_accumulator n)))"
  using assms(2)
proof (induction cs rule: rev_induct)
  case Nil
  then show ?case by (simp add: new_accumulator_def split: if_splits)
next
  case (snoc c cs)
  let ?a = "snd (push_all ss cs (new_accumulator n))"
  have inv: "sent_inv (fst (push_all ss cs (new_accumulator n))) ?a"
    using push_all_sent[OF assms(1), of "[]" "new_accumulator n" cs] by (simp add: sent_inv_def new_accumulator_def)
  have last: "snd (push_all ss (cs @ [c]) (new_accumulator n)) = snd (push_chunk_event ss c ?a)"
    by (simp add: snd_push_all_append snd_push_all_Cons del: push_all.simps) (simp add: Let_def case_prod_unfold)
  consider "(if tui then sa_error_before_visible ?a else sa_error_before_output ?a) = Some err"
    | "c = ChunkError err" "stream_error_is_retryable err" "tui \<and> \<not> sa_visible ?a \<or> \<not> sa_substantive ?a"
    using snoc.prems push_noted[of ss c ?a err] push_noted_output[of ss c ?a err] unfolding last by (cases tui) auto
  then show ?case
  proof cases
    case 1
    from snoc.IH[OF this] obtain pre post where "cs = pre @ ChunkError err # post" "stream_error_is_retryable err"
      "list_all (before_output tui) (fst (push_all ss pre (new_accumulator n)))" by blast
    then show ?thesis by (intro exI[of _ pre] exI[of _ "post @ [c]"]) simp
  next
    case 2
    then have "list_all (before_output tui) (fst (push_all ss cs (new_accumulator n)))" using inv by (cases tui) (auto simp: sent_inv_def)
    then show ?thesis using 2(1,2) by (intro exI[of _ cs] exI[of _ "[]"]) simp
  qed
qed

lemma finish_errors [simp]:
  "so_error_before_visible (finish_stream a) = sa_error_before_visible a"
  "so_error_before_output (finish_stream a) = sa_error_before_output a"
  "so_non_retryable (finish_stream a) = sa_non_retryable a"
  by (simp_all add: finish_stream_def Let_def case_prod_unfold)

lemma retried_attempt_noted:
  assumes "\<not> ss_json_output ss"
    and "stream_verdict_of tui False attempt (finish_stream (snd (run_attempt ss n chunks None))) = VerdictRetry err"
  shows "\<exists>pre post. chunks = pre @ ChunkError err # post \<and> stream_error_is_retryable err
    \<and> list_all (before_output tui) (fst (push_all ss pre (new_accumulator n)))"
  using verdict_retry[OF assms(2)] by (intro push_all_noted[OF assms(1)]) (cases tui; simp add: run_attempt_def case_prod_unfold)

text \<open>The attempts of a turn: the one at hand, and after a retry those that follow.\<close>

lemma stream_turn_cases:
  assumes "stream_turn_from ss tui wait_ok provider attempt n = (result, attempts)"
  obtains (one) evs where "attempts = [evs]"
  | (retry) chunks err n' rest where "provider attempt = AnswerStream chunks None"
      "stream_verdict_of tui False attempt (finish_stream (snd (run_attempt ss n chunks None))) = VerdictRetry err"
      "stream_turn_from ss tui wait_ok provider (attempt + 1) n' = (result, rest)"
      "attempts = fst (run_attempt ss n chunks None) # rest"
proof (cases "provider attempt")
  case (AnswerStream chunks deadline)
  let ?v = "stream_verdict_of tui (deadline \<noteq> None) attempt (finish_stream (snd (run_attempt ss n chunks deadline)))"
  show ?thesis
  proof (cases "\<exists>err. ?v = VerdictRetry err \<and> wait_ok (attempt + 1)")
    case True
    then obtain err where v: "?v = VerdictRetry err" "wait_ok (attempt + 1)" by blast
    then have d: "deadline = None" using verdict_retry[OF v(1)] by simp
    let ?next = "stream_turn_from ss tui wait_ok provider (attempt + 1) (sa_ulids (snd (run_attempt ss n chunks deadline)))"
    have "?next = (result, snd ?next) \<and> attempts = fst (run_attempt ss n chunks deadline) # snd ?next"
      using assms unfolding stream_turn_from.simps[of ss tui wait_ok provider attempt n]
      using v AnswerStream by (auto simp: Let_def case_prod_unfold)
    then show ?thesis
      using retry[of chunks err "sa_ulids (snd (run_attempt ss n chunks None))" "snd ?next"] AnswerStream v(1) unfolding d by simp
  next
    case False
    then have "attempts = [fst (run_attempt ss n chunks deadline)]"
      using assms unfolding stream_turn_from.simps[of ss tui wait_ok provider attempt n]
      using AnswerStream by (auto simp: Let_def case_prod_unfold split: stream_verdict.splits if_splits)
    then show ?thesis by (rule one)
  qed
qed (use assms one in \<open>auto simp: stream_turn_from.simps\<close>)

text \<open>C22. A turn's request is sent again only because of a retryable error that came before any output: outside the JSON mode, in
  every attempt that is followed by another one the chunks before this error showed no text and no notice and held no
  fragment of a call. All they can have shown are announcements of calls and, with the user interface, reasoning. (Chunks
  after the error are still processed, and the end of a text that the filter kept back is printed before the retry.)\<close>

theorem retries_only_before_output:
  assumes "\<not> ss_json_output ss" and "k + 1 < length (snd (stream_turn_from ss tui wait_ok provider attempt n))"
  shows "\<exists>pre err post m. provider (attempt + k) = AnswerStream (pre @ ChunkError err # post) None
    \<and> snd (stream_turn_from ss tui wait_ok provider attempt n) ! k = fst (run_attempt ss m (pre @ ChunkError err # post) None)
    \<and> stream_error_is_retryable err \<and> list_all (before_output tui) (fst (push_all ss pre (new_accumulator m)))"
proof -
  obtain result attempts where "stream_turn_from ss tui wait_ok provider attempt n = (result, attempts)" by fastforce
  moreover from this have "k + 1 < length attempts" using assms(2) by simp
  ultimately show ?thesis
  proof (induction k arbitrary: attempt n attempts)
    case 0
    from 0(1) show ?case
    proof (cases rule: stream_turn_cases)
      case (retry chunks err n' rest)
      from retried_attempt_noted[OF assms(1) retry(2)] obtain pre post where "chunks = pre @ ChunkError err # post"
        "stream_error_is_retryable err" "list_all (before_output tui) (fst (push_all ss pre (new_accumulator n)))" by blast
      then show ?thesis using 0(1) retry(1,4) by (intro exI[of _ pre] exI[of _ err] exI[of _ post] exI[of _ n]) simp
    qed (use 0(2) in simp)
  next
    case (Suc k)
    from Suc.prems(1) show ?case
    proof (cases rule: stream_turn_cases)
      case (retry chunks err n' rest)
      then show ?thesis using Suc.IH[OF retry(3)] Suc.prems by simp
    qed (use Suc.prems(2) in simp)
  qed
qed

definition broken_then_fine :: "nat \<Rightarrow> provider_answer" where
  "broken_then_fine k =
     (if k = 0 then AnswerStream [ChunkReasoning \<lparr>xr_reasoning = str ''hm'', xr_signature = None, xr_redacted_data = None\<rparr>,
          ChunkError (str ''reset (retryable)''), ChunkTiming] None
      else AnswerStream [ChunkText \<lparr>xt_text = str ''done'', xt_signature = None\<rparr>] None)"

definition plain_setting :: stream_setting where
  "plain_setting = \<lparr>ss_json_output = False, ss_provider = str ''openai'', ss_context_window = 1000, ss_ulid = (\<lambda>n. show_nat n)\<rparr>"

lemma retries_only_before_output_witness:
  "\<exists>pre err post m. broken_then_fine 0 = AnswerStream (pre @ ChunkError err # post) None
    \<and> snd (stream_turn_from plain_setting True (\<lambda>_. True) broken_then_fine 0 0) ! 0 = fst (run_attempt plain_setting m (pre @ ChunkError err # post) None)
    \<and> stream_error_is_retryable err \<and> list_all (before_output True) (fst (push_all plain_setting pre (new_accumulator m)))"
proof -
  have "\<not> ss_json_output plain_setting" "0 + 1 < length (snd (stream_turn_from plain_setting True (\<lambda>_. True) broken_then_fine 0 0))"
    by code_simp+
  from retries_only_before_output[OF this] show ?thesis by simp
qed

text \<open>A text that ends like a thinking tag is kept back, counts as no output, is printed at the end of the attempt and sent again.\<close>

lemma held_back_text_shown_twice:
  "let chunks = [ChunkText \<lparr>xt_text = str ''<thi'', xt_signature = None\<rparr>, ChunkError (str ''reset (retryable)'')];
       out = finish_stream (snd (run_attempt plain_setting 0 chunks None))
   in so_filtered_tail out = str ''<thi'' \<and> stream_verdict_of False False 0 out = VerdictRetry (str ''reset (retryable)'')"
  by code_simp

text \<open>What comes after the error is shown and sent again too.\<close>

lemma text_after_error_retried:
  "let chunks = [ChunkError (str ''reset (retryable)''), ChunkText \<lparr>xt_text = str ''done'', xt_signature = None\<rparr>];
       (evs, a) = run_attempt plain_setting 0 chunks None
   in evs = [VisibleText (str ''done'')] \<and> stream_verdict_of False False 0 (finish_stream a) = VerdictRetry (str ''reset (retryable)'')"
  by code_simp

text \<open>A turn makes at most four attempts at its stream, and all the waits between them take at most seven seconds.\<close>

theorem stream_attempts_bounded:
  "length (snd (stream_turn_from ss tui wait_ok provider 0 n)) \<le> MAX_STREAM_RETRY_ATTEMPTS + 1
   \<and> sum_list (map stream_retry_delay [1..<length (snd (stream_turn_from ss tui wait_ok provider 0 n))]) \<le> 7"
proof -
  have l: "attempt + length attempts \<le> 4 \<or> length attempts \<le> 1"
    if "stream_turn_from ss tui wait_ok provider attempt n = (result, attempts)" for attempt n result attempts
    using that
  proof (induction "4 - attempt" arbitrary: attempt n attempts rule: less_induct)
    case less
    from less.prems show ?case
    proof (cases rule: stream_turn_cases)
      case (retry chunks err n' rest)
      have a: "attempt < 3" using verdict_retry[OF retry(2)] by simp
      then have "4 - (attempt + 1) < 4 - attempt" by linarith
      from less.hyps[OF this retry(3)] a retry(4) show ?thesis by auto
    qed simp_all
  qed
  let ?k = "length (snd (stream_turn_from ss tui wait_ok provider 0 n))"
  have k: "?k \<le> 4" using l[of 0 n] by (cases "stream_turn_from ss tui wait_ok provider 0 n") auto
  have "m \<in> {0, 1, 2, 3, 4}" if "m \<le> 4" for m :: nat using that by auto
  from this[OF k] have m: "?k \<in> {0, 1, 2, 3, 4}" .
  have "\<forall>m \<in> {0, 1, 2, 3, 4}. sum_list (map stream_retry_delay [1..<m]) \<le> 7" by code_simp
  from bspec[OF this m] show ?thesis using k by simp
qed

end
