(* ===== verification/LockOrder.thy ===== *)
theory LockOrder
  imports FileLocks PathPolicy "HOL-Library.List_Lexorder"
begin

text \<open>
  Locks of several files at once: \<open>ToolContext::lock_file_paths\<close> of \<open>src/core/tools/mod.rs\<close> takes the locks of a call's files in the
  order of their names. Tasks that do so run interleaved on the lock table of \<open>FileLocks\<close>: each takes its locks one after
  the other, works, and drops its guards in order. Because all follow one order, no state is a deadlock.
\<close>

section \<open>The keys\<close>

text \<open>\<open>to_string_lossy\<close> of a path of valid names.\<close>

fun component_text :: "component \<Rightarrow> ustr" where
  "component_text RootDir = []"
| "component_text CurDir = str ''.''"
| "component_text ParentDir = str ''..''"
| "component_text (Normal n) = n"

definition path_text :: "path \<Rightarrow> ustr" where
  "path_text p = (if p = [RootDir] then str ''/'' else join (str ''/'') (map component_text p))"

definition lock_keys :: "file_system \<Rightarrow> path list \<Rightarrow> ustr list" where
  "lock_keys fs paths =
     remdups_adj (sort (map (\<lambda>p. path_text (case canonicalize_existing_parent fs p of Inr c \<Rightarrow> c | Inl _ \<Rightarrow> p)) paths))"

section \<open>Tasks\<close>

text \<open>A task is locking its \<open>i\<close>-th key, working under its guards, dropping its \<open>i\<close>-th guard, or done.\<close>

datatype task_phase = Locking nat | Working | Unlocking nat | Done

type_synonym lock_system = "task_phase list \<times> lock_table"

text \<open>The handles of different tasks and keys are different clients of the lock table.\<close>

definition task_client :: "ustr list list \<Rightarrow> nat \<Rightarrow> nat \<Rightarrow> nat" where
  "task_client keys t i = t + i * length keys"

definition start_system :: "ustr list list \<Rightarrow> lock_system" where
  "start_system keys = (map (\<lambda>_. Locking 0) keys, empty_locks)"

text \<open>The next step of a task, if it can take one: \<open>acquire\<close> and its polls, the work, \<open>drop\<close> of the guard and \<open>release\<close>.\<close>

definition task_step :: "ustr list list \<Rightarrow> nat \<Rightarrow> lock_system \<Rightarrow> lock_system option" where
  "task_step keys t sys =
     (let (phases, s) = sys; ks = keys ! t; move = (\<lambda>ph. map_option (\<lambda>s'. (phases[t := ph], s')))
      in case phases ! t of
           Locking i \<Rightarrow>
             if i = length ks then Some (phases[t := Working], s)
             else (case im_get (lt_clients s) (task_client keys t i) of
                 None \<Rightarrow> move (Locking i) (lock_step (AcquireLock (task_client keys t i) (ks ! i)) s)
               | Some _ \<Rightarrow> move (Locking (i + 1)) (lock_step (PollLock (task_client keys t i)) s))
         | Working \<Rightarrow> Some (phases[t := Unlocking 0], s)
         | Unlocking i \<Rightarrow>
             if i = length ks then Some (phases[t := Done], s)
             else (case im_get (lt_clients s) (task_client keys t i) of
                 Some (ReleasingLock _) \<Rightarrow> move (Unlocking (i + 1)) (lock_step (ReleaseLock (task_client keys t i)) s)
               | _ \<Rightarrow> move (Unlocking i) (lock_step (DropLock (task_client keys t i)) s))
         | Done \<Rightarrow> None)"

inductive reachable_system :: "ustr list list \<Rightarrow> lock_system \<Rightarrow> bool" for keys where
  start: "reachable_system keys (start_system keys)"
| step: "reachable_system keys sys \<Longrightarrow> t < length keys \<Longrightarrow> task_step keys t sys = Some sys' \<Longrightarrow> reachable_system keys sys'"

fun system_run :: "ustr list list \<Rightarrow> nat list \<Rightarrow> lock_system \<Rightarrow> lock_system option" where
  "system_run keys [] sys = Some sys"
| "system_run keys (t # ts) sys = (case task_step keys t sys of None \<Rightarrow> None | Some sys' \<Rightarrow> system_run keys ts sys')"

section \<open>The invariant\<close>

text \<open>What the phase of a task says of its \<open>j\<close>-th handle.\<close>

fun handle_fits :: "task_phase \<Rightarrow> nat \<Rightarrow> ustr \<Rightarrow> lock_handle option \<Rightarrow> bool" where
  "handle_fits (Locking i) j key h \<longleftrightarrow>
     (if j < i then \<exists>m. h = Some (GuardLock key m)
      else if j = i then h = None \<or> (\<exists>m. h = Some (PendingLock key m)) else h = None)"
| "handle_fits Working j key h \<longleftrightarrow> (\<exists>m. h = Some (GuardLock key m))"
| "handle_fits (Unlocking i) j key h \<longleftrightarrow>
     (if j < i then h = None
      else if j = i then (\<exists>m. h = Some (GuardLock key m)) \<or> h = Some (ReleasingLock key)
      else \<exists>m. h = Some (GuardLock key m))"
| "handle_fits Done j key h \<longleftrightarrow> h = None"

fun phase_bound :: "nat \<Rightarrow> task_phase \<Rightarrow> bool" where
  "phase_bound k (Locking i) \<longleftrightarrow> i \<le> k"
| "phase_bound k (Unlocking i) \<longleftrightarrow> i \<le> k"
| "phase_bound k _ \<longleftrightarrow> True"

definition system_inv :: "ustr list list \<Rightarrow> lock_system \<Rightarrow> bool" where
  "system_inv keys sys \<longleftrightarrow>
     reachable_locks (snd sys) \<and> length (fst sys) = length keys
     \<and> (\<forall>t < length keys. phase_bound (length (keys ! t)) (fst sys ! t)
          \<and> (\<forall>j < length (keys ! t). handle_fits (fst sys ! t) j (keys ! t ! j) (im_get (lt_clients (snd sys)) (task_client keys t j))))
     \<and> (\<forall>c h. im_get (lt_clients (snd sys)) c = Some h \<longrightarrow> (\<exists>t < length keys. \<exists>j < length (keys ! t). c = task_client keys t j))"

lemma task_client_eq:
  assumes "t < length keys" and "t' < length keys"
  shows "task_client keys t i = task_client keys t' j \<longleftrightarrow> t = t' \<and> i = j"
proof
  assume e: "task_client keys t i = task_client keys t' j"
  have "t = t'" using arg_cong[OF e, of "\<lambda>x. x mod length keys"] assms by (simp add: task_client_def)
  moreover from this have "i = j" using e assms by (auto simp: task_client_def)
  ultimately show "t = t' \<and> i = j" by simp
qed simp

fun event_client :: "lock_event \<Rightarrow> nat" where
  "event_client (AcquireLock c _) = c"
| "event_client (PollLock c) = c"
| "event_client (DropLock c) = c"
| "event_client (TryAcquireLock c _) = c"
| "event_client (TryLock c) = c"
| "event_client (DropTried c) = c"
| "event_client (ReleaseLock c) = c"

lemma lock_entry_clients: "lock_entry p s = (m, s') \<Longrightarrow> lt_clients s' = lt_clients s"
  by (auto simp: lock_entry_def split: option.splits)

lemma lock_step_other:
  assumes "lock_step e s = Some s'" and "c \<noteq> event_client e"
  shows "im_get (lt_clients s') c = im_get (lt_clients s) c"
  using assms by (cases e)
    (auto simp: release_locks dest: lock_entry_clients split: option.splits lock_handle.splits if_splits prod.splits)

lemma step_handle:
  "im_get (lt_clients s) c = None \<Longrightarrow> lock_step (AcquireLock c key) s = Some s' \<Longrightarrow>
     \<exists>m. im_get (lt_clients s') c = Some (PendingLock key m)"
  "im_get (lt_clients s) c = Some (PendingLock key m) \<Longrightarrow> lock_step (PollLock c) s = Some s' \<Longrightarrow>
     im_get (lt_clients s') c = Some (GuardLock key m)"
  "im_get (lt_clients s) c = Some (GuardLock key m) \<Longrightarrow> lock_step (DropLock c) s = Some s' \<Longrightarrow>
     im_get (lt_clients s') c = Some (ReleasingLock key)"
  "im_get (lt_clients s) c = Some (ReleasingLock key) \<Longrightarrow> lock_step (ReleaseLock c) s = Some s' \<Longrightarrow>
     im_get (lt_clients s') c = None"
  by (auto simp: release_locks split: prod.splits if_splits)

lemma system_inv_start: "system_inv keys (start_system keys)"
  by (auto simp: system_inv_def start_system_def empty_locks_def intro: reachable_locks.start[unfolded empty_locks_def])

text \<open>One task moves to a new phase, with a step of the lock table for one of its handles or without.\<close>

lemma system_inv_move:
  assumes inv: "system_inv keys (phases, s)" and t: "t < length keys" and p: "phase_bound (length (keys ! t)) ph"
    and s': "s' = s \<or> (\<exists>e i. lock_step e s = Some s' \<and> event_client e = task_client keys t i \<and> i < length (keys ! t))"
    and fits: "\<And>j. j < length (keys ! t) \<Longrightarrow>
      handle_fits ph j (keys ! t ! j) (im_get (lt_clients s') (task_client keys t j))"
  shows "system_inv keys (phases[t := ph], s')"
proof -
  have r: "reachable_locks s" "length phases = length keys" using inv by (auto simp: system_inv_def)
  have "reachable_locks s'" using s' r(1) by (auto intro: reachable_locks.step)
  moreover have "phase_bound (length (keys ! u)) (phases[t := ph] ! u)
      \<and> (\<forall>j < length (keys ! u). handle_fits (phases[t := ph] ! u) j (keys ! u ! j) (im_get (lt_clients s') (task_client keys u j)))"
    if u: "u < length keys" for u
  proof (cases "u = t")
    case False
    then have "im_get (lt_clients s') (task_client keys u j) = im_get (lt_clients s) (task_client keys u j)" for j
      using s' lock_step_other task_client_eq[OF u t] by metis
    then show ?thesis using inv u False by (simp add: system_inv_def)
  qed (use p fits r(2) t in simp)
  moreover have "\<exists>u < length keys. \<exists>j < length (keys ! u). c = task_client keys u j"
    if "im_get (lt_clients s') c = Some h" for c h
  proof (cases "im_get (lt_clients s) c")
    case None
    then have "s' \<noteq> s" using that by auto
    then obtain e i where "lock_step e s = Some s'" "event_client e = task_client keys t i" "i < length (keys ! t)"
      using s' that by auto
    then show ?thesis using None that lock_step_other[of e s s' c] t by auto
  next
    case (Some h')
    then show ?thesis using inv by (auto simp: system_inv_def)
  qed
  ultimately show ?thesis using r(2) by (simp add: system_inv_def)
qed

lemma handle_of:
  "system_inv keys (phases, s) \<Longrightarrow> t < length keys \<Longrightarrow> phases ! t = ph \<Longrightarrow> j < length (keys ! t) \<Longrightarrow>
     handle_fits ph j (keys ! t ! j) (im_get (lt_clients s) (task_client keys t j))"
  by (auto simp: system_inv_def)

text \<open>A task takes a step with its \<open>i\<close>-th handle.\<close>

lemma system_inv_event:
  assumes inv: "system_inv keys (phases, s)" and t: "t < length keys" and i: "i < length (keys ! t)"
    and e: "lock_step e s = Some s'" "event_client e = task_client keys t i" and b: "phase_bound (length (keys ! t)) ph'"
    and others: "\<And>j key h. j \<noteq> i \<Longrightarrow> handle_fits (phases ! t) j key h \<Longrightarrow> handle_fits ph' j key h"
    and this_one: "handle_fits ph' i (keys ! t ! i) (im_get (lt_clients s') (task_client keys t i))"
  shows "system_inv keys (phases[t := ph'], s')"
proof (rule system_inv_move[OF inv t b])
  show "handle_fits ph' j (keys ! t ! j) (im_get (lt_clients s') (task_client keys t j))" if "j < length (keys ! t)" for j
  proof (cases "j = i")
    case False
    then have "im_get (lt_clients s') (task_client keys t j) = im_get (lt_clients s) (task_client keys t j)"
      using lock_step_other[OF e(1)] e(2) task_client_eq[OF t t] by simp
    then show ?thesis using others[OF False handle_of[OF inv t refl that]] by simp
  qed (use this_one in simp)
qed (use e i in blast)

lemma locking_step_inv:
  assumes inv: "system_inv keys (phases, s)" and t: "t < length keys" and i: "i < length (keys ! t)"
    and ph: "phases ! t = Locking i" and step: "task_step keys t (phases, s) = Some sys'"
  shows "system_inv keys sys'"
proof (cases "im_get (lt_clients s) (task_client keys t i)")
  case None
  then obtain s' where s': "lock_step (AcquireLock (task_client keys t i) (keys ! t ! i)) s = Some s'"
      "sys' = (phases[t := Locking i], s')"
    using step ph i by (auto simp: task_step_def)
  show ?thesis
    unfolding s'(2) using i ph step_handle(1)[OF None s'(1)] by (intro system_inv_event[OF inv t i s'(1)]) auto
next
  case (Some h)
  then obtain m where h: "im_get (lt_clients s) (task_client keys t i) = Some (PendingLock (keys ! t ! i) m)"
    using handle_of[OF inv t ph i] by auto
  then obtain s' where s': "lock_step (PollLock (task_client keys t i)) s = Some s'" "sys' = (phases[t := Locking (i + 1)], s')"
    using step ph i by (auto simp: task_step_def)
  show ?thesis
    unfolding s'(2) using i ph step_handle(2)[OF h s'(1)] by (intro system_inv_event[OF inv t i s'(1)]) auto
qed

lemma unlocking_step_inv:
  assumes inv: "system_inv keys (phases, s)" and t: "t < length keys" and i: "i < length (keys ! t)"
    and ph: "phases ! t = Unlocking i" and step: "task_step keys t (phases, s) = Some sys'"
  shows "system_inv keys sys'"
proof -
  consider (guard) m where "im_get (lt_clients s) (task_client keys t i) = Some (GuardLock (keys ! t ! i) m)"
    | (releasing) "im_get (lt_clients s) (task_client keys t i) = Some (ReleasingLock (keys ! t ! i))"
    using handle_of[OF inv t ph i] by auto
  then show ?thesis
  proof cases
    case guard
    then obtain s' where s': "lock_step (DropLock (task_client keys t i)) s = Some s'" "sys' = (phases[t := Unlocking i], s')"
      using step ph i by (auto simp: task_step_def)
    show ?thesis
      unfolding s'(2) using i ph step_handle(3)[OF guard s'(1)] by (intro system_inv_event[OF inv t i s'(1)]) auto
  next
    case releasing
    then obtain s' where s': "lock_step (ReleaseLock (task_client keys t i)) s = Some s'" "sys' = (phases[t := Unlocking (i + 1)], s')"
      using step ph i by (auto simp: task_step_def)
    show ?thesis
      unfolding s'(2) using i ph step_handle(4)[OF releasing s'(1)] by (intro system_inv_event[OF inv t i s'(1)]) auto
  qed
qed

lemma task_step_inv:
  assumes inv: "system_inv keys sys" and t: "t < length keys" and step: "task_step keys t sys = Some sys'"
  shows "system_inv keys sys'"
proof -
  obtain phases s where sys: "sys = (phases, s)" by fastforce
  have b: "phase_bound (length (keys ! t)) (phases ! t)"
    and f: "\<And>j. j < length (keys ! t) \<Longrightarrow> handle_fits (phases ! t) j (keys ! t ! j) (im_get (lt_clients s) (task_client keys t j))"
    using inv t by (auto simp: system_inv_def sys)
  show ?thesis
  proof (cases "phases ! t")
    case (Locking i)
    show ?thesis
    proof (cases "i = length (keys ! t)")
      case True
      then have "sys' = (phases[t := Working], s)" using step Locking by (simp add: task_step_def sys)
      moreover have "system_inv keys (phases[t := Working], s)"
        using f Locking True by (intro system_inv_move[OF inv[unfolded sys] t]) simp_all
      ultimately show ?thesis by simp
    qed (use locking_step_inv[OF inv[unfolded sys] t _ Locking step[unfolded sys]] b Locking in simp)
  next
    case Working
    then have "sys' = (phases[t := Unlocking 0], s)" using step by (simp add: task_step_def sys)
    moreover have "system_inv keys (phases[t := Unlocking 0], s)"
      using f Working by (intro system_inv_move[OF inv[unfolded sys] t]) auto
    ultimately show ?thesis by simp
  next
    case (Unlocking i)
    show ?thesis
    proof (cases "i = length (keys ! t)")
      case True
      then have "sys' = (phases[t := Done], s)" using step Unlocking by (simp add: task_step_def sys)
      moreover have "system_inv keys (phases[t := Done], s)"
        using f Unlocking True by (intro system_inv_move[OF inv[unfolded sys] t]) simp_all
      ultimately show ?thesis by simp
    qed (use unlocking_step_inv[OF inv[unfolded sys] t _ Unlocking step[unfolded sys]] b Unlocking in simp)
  next
    case Done
    then show ?thesis using step by (simp add: task_step_def sys)
  qed
qed

lemma reachable_system_inv: "reachable_system keys sys \<Longrightarrow> system_inv keys sys"
  by (induction rule: reachable_system.induct) (auto intro: system_inv_start task_step_inv)

section \<open>No deadlock\<close>

lemma distinct_remdups_adj_sorted: "sorted (xs :: 'a::linorder list) \<Longrightarrow> distinct (remdups_adj xs)"
  by (induction xs rule: remdups_adj.induct) (auto dest: order.antisym)

lemma strictly_sorted_keys: "sorted_wrt (<) (lock_keys fs paths)"
  by (simp add: lock_keys_def strict_sorted_iff distinct_remdups_adj_sorted)

text \<open>A task that cannot step waits for a key that another task holds, which waits for a greater one itself.\<close>

lemma blocked_waits:
  assumes inv: "system_inv keys (phases, s)" and t: "t < length keys" and not_done: "phases ! t \<noteq> Done"
    and blocked: "task_step keys t (phases, s) = None"
  obtains i m where "i < length (keys ! t)" "phases ! t = Locking i"
    "im_get (lt_clients s) (task_client keys t i) = Some (PendingLock (keys ! t ! i) m)"
    "lock_step (PollLock (task_client keys t i)) s = None"
proof (cases "phases ! t")
  case (Locking i)
  have b: "i \<le> length (keys ! t)" using inv t Locking by (auto simp: system_inv_def)
  then have i: "i < length (keys ! t)" using blocked Locking by (auto simp: task_step_def Let_def split: if_splits)
  show ?thesis
  proof (cases "im_get (lt_clients s) (task_client keys t i)")
    case None
    then have "lock_step (AcquireLock (task_client keys t i) (keys ! t ! i)) s \<noteq> None" by (simp add: case_prod_unfold Let_def)
    then show ?thesis using blocked Locking None i by (simp add: task_step_def)
  next
    case (Some h)
    then obtain m where "im_get (lt_clients s) (task_client keys t i) = Some (PendingLock (keys ! t ! i) m)"
      using handle_of[OF inv t Locking i] by auto
    then show ?thesis using that[OF i Locking] blocked Locking i by (simp add: task_step_def)
  qed
next
  case (Unlocking i)
  have "i \<le> length (keys ! t)" using inv t Unlocking by (auto simp: system_inv_def)
  then have i: "i < length (keys ! t)" using blocked Unlocking by (auto simp: task_step_def Let_def split: if_splits)
  then show ?thesis using handle_of[OF inv t Unlocking i] blocked Unlocking by (auto simp: task_step_def Let_def)
qed (use blocked not_done in \<open>auto simp: task_step_def\<close>)

lemma poll_blocked:
  assumes r: "reachable_locks s" and c: "im_get (lt_clients s) c = Some (PendingLock key m)"
    and blocked: "lock_step (PollLock c) s = None"
  obtains c' m' where "im_get (lt_clients s) c' = Some (GuardLock key m')"
  using free_lock_granted[OF r c] blocked by fastforce

lemma holder_waits_higher:
  assumes inv: "system_inv keys (phases, s)" and sorted: "\<And>t. t < length keys \<Longrightarrow> sorted_wrt (<) (keys ! t)"
    and stuck: "\<And>t. t < length keys \<Longrightarrow> task_step keys t (phases, s) = None"
    and t: "t < length keys" "i < length (keys ! t)" "phases ! t = Locking i"
      "im_get (lt_clients s) (task_client keys t i) = Some (PendingLock (keys ! t ! i) m)"
      "lock_step (PollLock (task_client keys t i)) s = None"
  obtains t' i' m' where "t' < length keys" "i' < length (keys ! t')" "phases ! t' = Locking i'"
    "im_get (lt_clients s) (task_client keys t' i') = Some (PendingLock (keys ! t' ! i') m')"
    "lock_step (PollLock (task_client keys t' i')) s = None" "keys ! t ! i < keys ! t' ! i'"
proof -
  have r: "reachable_locks s" using inv by (simp add: system_inv_def)
  obtain c' m' where c': "im_get (lt_clients s) c' = Some (GuardLock (keys ! t ! i) m')" using poll_blocked[OF r t(4,5)] .
  then obtain t' j where t': "t' < length keys" "j < length (keys ! t')" "c' = task_client keys t' j"
    using inv unfolding system_inv_def snd_conv by blast
  have f: "handle_fits (phases ! t') j (keys ! t' ! j) (Some (GuardLock (keys ! t ! i) m'))"
    using handle_of[OF inv t'(1) refl t'(2)] c' t'(3) by simp
  then have "phases ! t' \<noteq> Done" by auto
  from blocked_waits[OF inv t'(1) this stuck[OF t'(1)]] obtain i' m'' where i': "i' < length (keys ! t')" "phases ! t' = Locking i'"
      "im_get (lt_clients s) (task_client keys t' i') = Some (PendingLock (keys ! t' ! i') m'')"
      "lock_step (PollLock (task_client keys t' i')) s = None" .
  have "j < i'" "keys ! t' ! j = keys ! t ! i" using f i'(2) by (auto split: if_splits)
  then have "keys ! t ! i < keys ! t' ! i'" using sorted_wrt_nth_less[OF sorted[OF t'(1)] _ i'(1), of j] by simp
  then show ?thesis using that t'(1) i' by blast
qed

lemma sorted_tasks_move:
  assumes inv: "system_inv keys (phases, s)" and sorted: "\<And>u. u < length keys \<Longrightarrow> sorted_wrt (<) (keys ! u)"
    and t: "t < length keys" "phases ! t \<noteq> Done"
  shows "\<exists>u < length keys. task_step keys u (phases, s) \<noteq> None"
proof (rule ccontr)
  assume "\<not> (\<exists>u < length keys. task_step keys u (phases, s) \<noteq> None)"
  then have stuck: "u < length keys \<Longrightarrow> task_step keys u (phases, s) = None" for u by blast
  define waits where "waits k u i \<longleftrightarrow> u < length keys \<and> i < length (keys ! u) \<and> phases ! u = Locking i \<and> k = keys ! u ! i
      \<and> (\<exists>m. im_get (lt_clients s) (task_client keys u i) = Some (PendingLock k m))
      \<and> lock_step (PollLock (task_client keys u i)) s = None" for k u i
  from blocked_waits[OF inv t stuck[OF t(1)]] obtain i0 m0 where "i0 < length (keys ! t)" "phases ! t = Locking i0"
    "im_get (lt_clients s) (task_client keys t i0) = Some (PendingLock (keys ! t ! i0) m0)"
    "lock_step (PollLock (task_client keys t i0)) s = None" .
  then have k0: "waits (keys ! t ! i0) t i0" using t(1) unfolding waits_def by blast
  have up: "\<exists>k' u' i'. waits k' u' i' \<and> k < k'" if w: "waits k u i" for k u i
  proof -
    obtain m where m: "im_get (lt_clients s) (task_client keys u i) = Some (PendingLock (keys ! u ! i) m)"
      using w unfolding waits_def by blast
    have h: "u < length keys" "i < length (keys ! u)" "phases ! u = Locking i" "k = keys ! u ! i"
      "lock_step (PollLock (task_client keys u i)) s = None" using w unfolding waits_def by blast+
    obtain u' i' m' where n: "u' < length keys" "i' < length (keys ! u')" "phases ! u' = Locking i'"
        "im_get (lt_clients s) (task_client keys u' i') = Some (PendingLock (keys ! u' ! i') m')"
        "lock_step (PollLock (task_client keys u' i')) s = None" "keys ! u ! i < keys ! u' ! i'"
      by (rule holder_waits_higher[OF inv sorted stuck h(1-3) m h(5)])
    have "waits (keys ! u' ! i') u' i'" unfolding waits_def using n by blast
    then show ?thesis using n(6) h(4) by blast
  qed
  let ?W = "{k. \<exists>u i. waits k u i}"
  have "?W \<subseteq> (\<Union>ks \<in> set keys. set ks)"
  proof
    fix k assume "k \<in> ?W"
    then obtain u i where "u < length keys" "i < length (keys ! u)" "k = keys ! u ! i" unfolding waits_def by blast
    then show "k \<in> (\<Union>ks \<in> set keys. set ks)" by (metis UN_I nth_mem)
  qed
  then have fin: "finite ?W" by (rule finite_subset) simp
  have "Max ?W \<in> ?W" using fin k0 by (intro Max_in) auto
  then obtain u i where "waits (Max ?W) u i" by blast
  then obtain k' where "k' \<in> ?W" "Max ?W < k'" using up by blast
  then show False using Max_ge[OF fin] by (meson leD)
qed

lemma system_run_reachable:
  "reachable_system keys sys \<Longrightarrow> system_run keys ts sys = Some sys' \<Longrightarrow> set ts \<subseteq> {..<length keys} \<Longrightarrow> reachable_system keys sys'"
  by (induction ts arbitrary: sys) (auto intro: reachable_system.step split: option.splits)

text \<open>However tools that work on several files at once interleave, as long as one of them is not done some of them can take a
  step: taking the locks in the order of the keys excludes deadlocks.\<close>

theorem ordered_locks_never_deadlock:
  assumes "reachable_system (map (lock_keys fs) requests) sys" and "t < length requests" and "fst sys ! t \<noteq> Done"
  shows "\<exists>u < length requests. task_step (map (lock_keys fs) requests) u sys \<noteq> None"
  using sorted_tasks_move[of "map (lock_keys fs) requests" "fst sys" "snd sys" t]
    reachable_system_inv[OF assms(1)] assms(2,3) by (simp add: strictly_sorted_keys)

text \<open>Two tasks that name the same two files in opposite orders: the second waits for the first key, which the first task holds.\<close>

definition crossed_requests :: "path list list" where
  "crossed_requests =
     [[[RootDir, Normal (str ''a'')], [RootDir, Normal (str ''b'')]], [[RootDir, Normal (str ''b'')], [RootDir, Normal (str ''a'')]]]"

lemma ordered_locks_never_deadlock_witness:
  "let keys = map (lock_keys (plain_fs [[RootDir]] [])) crossed_requests; sys = the (system_run keys [0, 0, 1] (start_system keys))
   in task_step keys 1 sys = None \<and> (\<exists>u < 2. task_step keys u sys \<noteq> None)"
proof -
  define keys where "keys = map (lock_keys (plain_fs [[RootDir]] [])) crossed_requests"
  define sys where "sys = the (system_run keys [0, 0, 1] (start_system keys))"
  have "system_run keys [0, 0, 1] (start_system keys) = Some sys" unfolding sys_def keys_def by code_simp
  then have "reachable_system keys sys"
    by (rule system_run_reachable[OF reachable_system.start]) (simp add: keys_def crossed_requests_def)
  moreover have "fst sys ! 1 \<noteq> Done" unfolding sys_def keys_def by code_simp
  ultimately have "\<exists>u < length crossed_requests. task_step keys u sys \<noteq> None"
    unfolding keys_def by (intro ordered_locks_never_deadlock[where t = 1]) (simp_all add: crossed_requests_def)
  moreover have "task_step keys 1 sys = None" unfolding sys_def keys_def by code_simp
  ultimately show ?thesis unfolding Let_def keys_def[symmetric] sys_def[symmetric] by (simp add: crossed_requests_def numeral_2_eq_2)
qed

text \<open>Without the order the two tasks block each other.\<close>

lemma unordered_locks_deadlock:
  "let keys = [[str ''a'', str ''b''], [str ''b'', str ''a'']]; sys = the (system_run keys [0, 0, 1, 1, 0, 1] (start_system keys))
   in fst sys = [Locking 1, Locking 1] \<and> task_step keys 0 sys = None \<and> task_step keys 1 sys = None"
  by code_simp

section \<open>All tasks finish\<close>

text \<open>The steps a task still takes: two for each lock to take, one to go to work, one to stop, two for each lock to drop, and one more.\<close>

fun phase_work :: "nat \<Rightarrow> task_phase \<Rightarrow> (nat \<Rightarrow> lock_handle option) \<Rightarrow> nat" where
  "phase_work k (Locking i) h = 2 * k + 3 + (if i < k then 2 * (k - i) - (if h i = None then 0 else 1) else 0)"
| "phase_work k Working h = 2 * k + 2"
| "phase_work k (Unlocking i) h =
     1 + (if i < k then 2 * (k - i) - (case h i of Some (ReleasingLock _) \<Rightarrow> 1 | _ \<Rightarrow> 0) else 0)"
| "phase_work k Done h = 0"

definition task_work :: "ustr list list \<Rightarrow> lock_system \<Rightarrow> nat \<Rightarrow> nat" where
  "task_work keys sys t =
     phase_work (length (keys ! t)) (fst sys ! t) (\<lambda>i. im_get (lt_clients (snd sys)) (task_client keys t i))"

lemma phase_work_zero: "phase_work k ph h = 0 \<longleftrightarrow> ph = Done"
  by (cases ph) simp_all

text \<open>What a step of a task leaves: the other tasks, and its own other handles.\<close>

lemma task_step_frame:
  assumes "task_step keys t (phases, s) = Some (phases', s')" and "t < length keys"
  obtains ph where "phases' = phases[t := ph]"
    "\<And>u j. u < length keys \<Longrightarrow> u \<noteq> t \<or> (\<forall>i. (phases ! t = Locking i \<or> phases ! t = Unlocking i) \<longrightarrow> j \<noteq> i) \<Longrightarrow>
       im_get (lt_clients s') (task_client keys u j) = im_get (lt_clients s) (task_client keys u j)"
proof -
  have o: "im_get (lt_clients s') (task_client keys u j) = im_get (lt_clients s) (task_client keys u j)"
    if "lock_step e s = Some s'" "event_client e = task_client keys t i" "u < length keys" "u \<noteq> t \<or> j \<noteq> i" for e u i j
    using lock_step_other[OF that(1)] that(2-4) task_client_eq[OF that(3) assms(2)] by auto
  obtain ph where "phases' = phases[t := ph]"
    using assms(1) by (auto simp: task_step_def Let_def split: task_phase.splits option.splits lock_handle.splits if_splits)
  moreover have "s' = s \<or> (\<exists>e i. lock_step e s = Some s' \<and> event_client e = task_client keys t i
      \<and> (phases ! t = Locking i \<or> phases ! t = Unlocking i))"
    using assms(1) unfolding task_step_def Let_def
    by (auto simp del: lock_step.simps split: task_phase.splits option.splits lock_handle.splits if_splits
        intro: exI[of _ "AcquireLock _ _"] exI[of _ "PollLock _"] exI[of _ "DropLock _"] exI[of _ "ReleaseLock _"])
  ultimately show ?thesis using that o by blast
qed
lemma task_work_own:
  assumes inv: "system_inv keys (phases, s)" and t: "t < length keys" and step: "task_step keys t (phases, s) = Some (phases', s')"
  shows "task_work keys (phases, s) t = Suc (task_work keys (phases', s') t)"
proof -
  let ?h = "\<lambda>i. im_get (lt_clients s) (task_client keys t i)" and ?h' = "\<lambda>i. im_get (lt_clients s') (task_client keys t i)"
  have len: "t < length phases" using inv t by (simp add: system_inv_def)
  have b: "phase_bound (length (keys ! t)) (phases ! t)" using inv t by (auto simp: system_inv_def)
  have f: "j < length (keys ! t) \<Longrightarrow> handle_fits (phases ! t) j (keys ! t ! j) (?h j)" for j
    using handle_of[OF inv t refl] by simp
  obtain ph where ph: "phases' = phases[t := ph]"
    and o: "\<And>u j. u < length keys \<Longrightarrow> u \<noteq> t \<or> (\<forall>i. (phases ! t = Locking i \<or> phases ! t = Unlocking i) \<longrightarrow> j \<noteq> i) \<Longrightarrow>
       im_get (lt_clients s') (task_client keys u j) = im_get (lt_clients s) (task_client keys u j)"
    using task_step_frame[OF step t] by blast
  show ?thesis
  proof (cases "phases ! t")
    case (Locking i)
    then have same: "j \<noteq> i \<Longrightarrow> ?h' j = ?h j" for j using o[OF t] by auto
    show ?thesis
    proof (cases "i = length (keys ! t)")
      case False
      then have i: "i < length (keys ! t)" using b Locking by simp
      have free: "i + 1 < length (keys ! t) \<Longrightarrow> ?h' (i + 1) = None" using f[of "i + 1"] same[of "i + 1"] Locking by simp
      show ?thesis
      proof (cases "?h i")
        case None
        then have s': "lock_step (AcquireLock (task_client keys t i) (keys ! t ! i)) s = Some s'" "phases' = phases[t := Locking i]"
          using step Locking i by (auto simp: task_step_def)
        show ?thesis using step_handle(1)[OF None s'(1)] None i len Locking by (auto simp: task_work_def s'(2))
      next
        case (Some h)
        then have "phases' = phases[t := Locking (i + 1)]" using step Locking i by (auto simp: task_step_def)
        then show ?thesis using Some i len Locking free by (auto simp: task_work_def)
      qed
    qed (use step Locking len in \<open>auto simp: task_step_def task_work_def\<close>)
  next
    case (Unlocking i)
    then have same: "j \<noteq> i \<Longrightarrow> ?h' j = ?h j" for j using o[OF t] by auto
    show ?thesis
    proof (cases "i = length (keys ! t)")
      case False
      then have i: "i < length (keys ! t)" using b Unlocking by simp
      have held: "i + 1 < length (keys ! t) \<Longrightarrow> \<exists>m. ?h' (i + 1) = Some (GuardLock (keys ! t ! (i + 1)) m)"
        using f[of "i + 1"] same[of "i + 1"] Unlocking by simp
      consider (guard) m where "?h i = Some (GuardLock (keys ! t ! i) m)" | (releasing) "?h i = Some (ReleasingLock (keys ! t ! i))"
        using f[OF i] Unlocking by auto
      then show ?thesis
      proof cases
        case guard
        then have s': "lock_step (DropLock (task_client keys t i)) s = Some s'" "phases' = phases[t := Unlocking i]"
          using step Unlocking i by (auto simp: task_step_def)
        show ?thesis using step_handle(3)[OF guard s'(1)] guard i len Unlocking by (auto simp: task_work_def s'(2))
      next
        case releasing
        then have "phases' = phases[t := Unlocking (i + 1)]" using step Unlocking i by (auto simp: task_step_def)
        then show ?thesis using releasing i len Unlocking held by (auto simp: task_work_def)
      qed
    qed (use step Unlocking len in \<open>auto simp: task_step_def task_work_def\<close>)
  next
    case Working
    then show ?thesis using step len f[of 0] by (auto simp: task_step_def task_work_def)
  qed (use step in \<open>auto simp: task_step_def\<close>)
qed

lemma task_work_other:
  assumes "t < length keys" and "task_step keys t (phases, s) = Some (phases', s')" and "u < length keys" and "u \<noteq> t"
  shows "task_work keys (phases', s') u = task_work keys (phases, s) u"
proof (rule task_step_frame[OF assms(2,1)])
  fix ph
  assume "phases' = phases[t := ph]"
    and "\<And>u j. u < length keys \<Longrightarrow> u \<noteq> t \<or> (\<forall>i. (phases ! t = Locking i \<or> phases ! t = Unlocking i) \<longrightarrow> j \<noteq> i) \<Longrightarrow>
       im_get (lt_clients s') (task_client keys u j) = im_get (lt_clients s) (task_client keys u j)"
  then show ?thesis using assms(3,4) by (simp add: task_work_def)
qed

definition system_work :: "ustr list list \<Rightarrow> lock_system \<Rightarrow> nat" where
  "system_work keys sys = (\<Sum>t < length keys. task_work keys sys t)"

lemma system_work_step:
  assumes "system_inv keys sys" and t: "t < length keys" and step: "task_step keys t sys = Some sys'"
  shows "system_work keys sys = Suc (system_work keys sys')"
proof -
  obtain phases s phases' s' where e: "sys = (phases, s)" "sys' = (phases', s')" by fastforce
  have "(\<Sum>u \<in> {..<length keys} - {t}. task_work keys sys u) = (\<Sum>u \<in> {..<length keys} - {t}. task_work keys sys' u)"
    using task_work_other[OF t step[unfolded e]] by (intro sum.cong) (auto simp: e)
  moreover have "task_work keys sys t = Suc (task_work keys sys' t)"
    using task_work_own[OF assms(1)[unfolded e] t step[unfolded e]] by (simp add: e)
  ultimately show ?thesis using t by (simp add: system_work_def sum.remove[of "{..<length keys}" t])
qed

lemma system_run_work:
  assumes "reachable_system keys sys" and "system_run keys ts sys = Some sys'" and "set ts \<subseteq> {..<length keys}"
  shows "system_work keys sys = length ts + system_work keys sys'"
  using assms
proof (induction ts arbitrary: sys)
  case (Cons t ts)
  then obtain sys1 where s: "task_step keys t sys = Some sys1" "system_run keys ts sys1 = Some sys'"
    by (auto split: option.splits)
  have t: "t < length keys" using Cons.prems(3) by simp
  have "reachable_system keys sys1" using Cons.prems(1) t s(1) by (rule reachable_system.step)
  then show ?case
    using Cons.IH[OF _ s(2)] Cons.prems(3) system_work_step[OF reachable_system_inv[OF Cons.prems(1)] t s(1)] by simp
qed simp

lemma start_work: "system_work keys (start_system keys) = (\<Sum>ks \<leftarrow> keys. 4 * length ks + 3)"
proof -
  have "task_work keys (start_system keys) t = 4 * length (keys ! t) + 3" if "t < length keys" for t
    using that by (simp add: task_work_def start_system_def empty_locks_def)
  then show ?thesis by (simp add: system_work_def sum_list_sum_nth atLeast0LessThan)
qed

lemma no_work_done:
  "system_inv keys sys \<Longrightarrow> system_work keys sys = 0 \<longleftrightarrow> (\<forall>t < length keys. fst sys ! t = Done)"
  by (auto simp: system_work_def task_work_def phase_work_zero)

text \<open>C19. Every run of tools that lock several files ends: it has at most four steps for each lock and three for each task, and a
  run that cannot be extended has taken exactly these, with every tool done and its locks dropped.\<close>

theorem locking_completes:
  assumes "system_run (map (lock_keys fs) requests) ts (start_system (map (lock_keys fs) requests)) = Some sys"
    and "set ts \<subseteq> {..<length requests}"
  shows "length ts \<le> (\<Sum>paths \<leftarrow> requests. 4 * length (lock_keys fs paths) + 3)
    \<and> ((\<forall>t < length requests. task_step (map (lock_keys fs) requests) t sys = None) \<longrightarrow>
         length ts = (\<Sum>paths \<leftarrow> requests. 4 * length (lock_keys fs paths) + 3)
         \<and> (\<forall>t < length requests. fst sys ! t = Done) \<and> lt_clients (snd sys) = [])"
proof -
  let ?keys = "map (lock_keys fs) requests"
  have r: "reachable_system ?keys sys" using system_run_reachable[OF reachable_system.start assms(1)] assms(2) by simp
  have inv: "system_inv ?keys (fst sys, snd sys)" using reachable_system_inv[OF r] by simp
  have w: "(\<Sum>paths \<leftarrow> requests. 4 * length (lock_keys fs paths) + 3) = length ts + system_work ?keys sys"
    using system_run_work[OF reachable_system.start assms(1)] assms(2) start_work[of ?keys] by (simp add: o_def)
  moreover have "system_work ?keys sys = 0 \<and> (\<forall>t < length requests. fst sys ! t = Done) \<and> lt_clients (snd sys) = []"
    if stuck: "\<forall>t < length requests. task_step ?keys t sys = None"
  proof -
    have d: "fst sys ! t = Done" if "t < length requests" for t
      using sorted_tasks_move[OF inv, of t] stuck that by (fastforce simp: strictly_sorted_keys)
    have "im_get (lt_clients (snd sys)) c = None" for c
    proof (rule ccontr)
      assume "im_get (lt_clients (snd sys)) c \<noteq> None"
      then obtain t j where "t < length ?keys" "j < length (?keys ! t)" "c = task_client ?keys t j"
        "im_get (lt_clients (snd sys)) c \<noteq> None"
        using inv unfolding system_inv_def snd_conv by blast
      then show False using handle_of[OF inv _ refl, of t j] d by simp
    qed
    then have "map_of (lt_clients (snd sys)) = Map.empty" by (intro ext) (simp add: im_get_def)
    then have "lt_clients (snd sys) = []" by simp
    then show ?thesis using no_work_done[of ?keys sys] inv d by simp
  qed
  ultimately show ?thesis by simp
qed

lemma locking_completes_witness:
  "let keys = map (lock_keys (plain_fs [[RootDir]] [])) crossed_requests; ts = replicate 11 0 @ replicate 11 1;
     sys = the (system_run keys ts (start_system keys))
   in length ts = (\<Sum>paths \<leftarrow> crossed_requests. 4 * length (lock_keys (plain_fs [[RootDir]] []) paths) + 3)
      \<and> lt_clients (snd sys) = []"
proof -
  define keys where "keys = map (lock_keys (plain_fs [[RootDir]] [])) crossed_requests"
  define ts :: "nat list" where "ts = replicate 11 0 @ replicate 11 1"
  define sys where "sys = the (system_run keys ts (start_system keys))"
  have "system_run keys ts (start_system keys) = Some sys" unfolding sys_def keys_def ts_def by code_simp
  moreover have "set ts \<subseteq> {..<length crossed_requests}" by (auto simp: ts_def crossed_requests_def)
  moreover have "\<forall>t < length crossed_requests. task_step keys t sys = None" unfolding sys_def keys_def ts_def by code_simp
  ultimately show ?thesis
    using locking_completes[of "plain_fs [[RootDir]] []" crossed_requests ts sys]
    unfolding Let_def keys_def[symmetric] ts_def[symmetric] sys_def[symmetric] by simp
qed

end
