(* ===== verification/FileTracking.thy ===== *)
theory FileTracking
  imports LockOrder IndexMap
begin

text \<open>
  What a task remembers of the files it has read: \<open>FileContextTracker\<close> and \<open>FileWatcher\<close> of \<open>src/core/context/trackers.rs\<close>, the
  keys of paths of \<open>src/core/tools/mod.rs\<close>, and the cache of file contents of \<open>src/core/agent_types.rs\<close>. The calls of \<open>std::fs\<close> are
  a record of their answers at the time of the call; times are numbers. Persistence of the entries is left out.
\<close>

section \<open>Paths and their keys\<close>

record file_world =
  fw_canonical :: "ustr \<Rightarrow> ustr option"
  fw_mtime :: "ustr \<Rightarrow> nat option"
  fw_is_dir :: "ustr \<Rightarrow> bool"

definition canonical_path_key :: "file_world \<Rightarrow> ustr \<Rightarrow> ustr" where
  "canonical_path_key fw p = (case fw_canonical fw p of Some c \<Rightarrow> c | None \<Rightarrow> p)"

definition path_key_matches :: "file_world \<Rightarrow> ustr \<Rightarrow> ustr \<Rightarrow> bool" where
  "path_key_matches fw key p \<longleftrightarrow>
     parse_path key = parse_path p
     \<or> (case (fw_canonical fw key, fw_canonical fw p) of (Some a, Some b) \<Rightarrow> a = b | _ \<Rightarrow> False)"

section \<open>The watcher\<close>

text \<open>The set of paths reported as modified is a list in the order a hash set is iterated, \<open>order\<close>, which the source does not
  rely on.\<close>

record file_watcher =
  wt_watched :: "ustr set"
  wt_targets :: "ustr \<Rightarrow> ustr option"
  wt_mtimes :: "ustr \<Rightarrow> nat option"
  wt_modified :: "ustr list"

abbreviation MAX_EXTERNALLY_MODIFIED_PATHS :: nat where "MAX_EXTERNALLY_MODIFIED_PATHS \<equiv> 1024"

definition record_modified_path :: "(ustr list \<Rightarrow> ustr list) \<Rightarrow> ustr \<Rightarrow> ustr list \<Rightarrow> ustr list" where
  "record_modified_path order p modified =
     (let s = order (List.insert p modified)
      in if MAX_EXTERNALLY_MODIFIED_PATHS < length s then take (max (MAX_EXTERNALLY_MODIFIED_PATHS div 2) 1) s else s)"

definition new_watcher :: file_watcher where
  "new_watcher = \<lparr>wt_watched = {}, wt_targets = Map.empty, wt_mtimes = Map.empty, wt_modified = []\<rparr>"

definition parent_text :: "ustr \<Rightarrow> ustr option" where
  "parent_text p = map_option path_text (parent (parse_path p))"

text \<open>\<open>ok\<close> tells whether the system accepts a watch. A failed watch changes nothing.\<close>

definition watch :: "file_world \<Rightarrow> (ustr \<Rightarrow> bool) \<Rightarrow> ustr \<Rightarrow> file_watcher \<Rightarrow> bool \<times> file_watcher" where
  "watch fw ok p w =
     (if wt_targets w p \<noteq> None then (True, w)
      else let watch_path = (if fw_is_dir fw p then p else case parent_text p of Some d \<Rightarrow> d | None \<Rightarrow> p)
        in if watch_path \<notin> wt_watched w \<and> \<not> ok watch_path then (False, w)
           else (True, w\<lparr>wt_watched := insert watch_path (wt_watched w),
                wt_targets := (wt_targets w)(p \<mapsto> watch_path),
                wt_mtimes := (case fw_mtime fw p of Some m \<Rightarrow> (wt_mtimes w)(p \<mapsto> m) | None \<Rightarrow> wt_mtimes w)\<rparr>))"

definition same_canonical :: "file_world \<Rightarrow> ustr \<Rightarrow> ustr \<Rightarrow> bool" where
  "same_canonical fw p recorded \<longleftrightarrow> fw_canonical fw p \<noteq> None \<and> fw_canonical fw recorded = fw_canonical fw p"

definition take_modified :: "file_world \<Rightarrow> ustr \<Rightarrow> file_watcher \<Rightarrow> bool \<times> file_watcher" where
  "take_modified fw p w =
     (if wt_targets w p = None then (False, w)
      else if p \<in> set (wt_modified w) then (True, w\<lparr>wt_modified := removeAll p (wt_modified w)\<rparr>)
      else (case List.find (same_canonical fw p) (wt_modified w) of
              Some recorded \<Rightarrow> (True, w\<lparr>wt_modified := removeAll recorded (wt_modified w)\<rparr>)
            | None \<Rightarrow>
                (case fw_mtime fw p of
                   None \<Rightarrow> (False, w)
                 | Some current \<Rightarrow>
                     if wt_mtimes w p = Some current then (False, w)
                     else (True, w\<lparr>wt_mtimes := (wt_mtimes w)(p \<mapsto> current)\<rparr>))))"

definition stop_watching_all :: "file_watcher \<Rightarrow> file_watcher" where
  "stop_watching_all w = w\<lparr>wt_watched := {}, wt_targets := Map.empty\<rparr>"

section \<open>The tracker\<close>

datatype record_state = Active | Stale

datatype record_source = ReadTool | UserEdited | SnedEdited | FileMentioned

record file_metadata_entry =
  fm_path :: ustr
  fm_state :: record_state
  fm_source :: record_source
  fm_sned_read :: "64 word option"
  fm_sned_edit :: "64 word option"
  fm_user_edit :: "64 word option"

record file_tracker =
  tk_files :: "ustr \<Rightarrow> nat option"
  tk_edited :: "ustr set"
  tk_watcher :: "file_watcher option"
  tk_entries :: "file_metadata_entry list"

definition new_tracker :: "file_watcher option \<Rightarrow> file_tracker" where
  "new_tracker w = \<lparr>tk_files = Map.empty, tk_edited = {}, tk_watcher = w, tk_entries = []\<rparr>"

definition was_read_this_session :: "file_world \<Rightarrow> ustr \<Rightarrow> file_tracker \<Rightarrow> bool" where
  "was_read_this_session fw p t \<longleftrightarrow>
     tk_files t (canonical_path_key fw p) \<noteq> None
     \<or> list_ex (\<lambda>e. canonical_path_key fw (fm_path e) = canonical_path_key fw p \<and> fm_sned_read e \<noteq> None) (tk_entries t)"

definition track_file_read :: "file_world \<Rightarrow> ustr \<Rightarrow> file_tracker \<Rightarrow> file_tracker" where
  "track_file_read fw p t =
     (let key = canonical_path_key fw p
      in case fw_mtime fw key of Some m \<Rightarrow> t\<lparr>tk_files := (tk_files t)(key \<mapsto> m)\<rparr> | None \<Rightarrow> t)"

definition track_file :: "file_world \<Rightarrow> (ustr \<Rightarrow> bool) \<Rightarrow> ustr \<Rightarrow> file_tracker \<Rightarrow> file_tracker" where
  "track_file fw ok p t =
     (let t1 = track_file_read fw p t
      in t1\<lparr>tk_watcher := map_option (\<lambda>w. snd (watch fw ok p w)) (tk_watcher t1)\<rparr>)"

text \<open>The latest date of a field over the entries of a path.\<close>

definition latest_date :: "(file_metadata_entry \<Rightarrow> 64 word option) \<Rightarrow> ustr \<Rightarrow> file_metadata_entry list \<Rightarrow> 64 word option" where
  "latest_date field p es =
     (let dates = List.map_filter field (filter (\<lambda>e. fm_path e = p) es)
      in if dates = [] then None else Some (fold max (tl dates) (hd dates)))"

definition mark_stale :: "ustr \<Rightarrow> file_metadata_entry \<Rightarrow> file_metadata_entry" where
  "mark_stale p e = (if fm_path e = p \<and> fm_state e = Active then e\<lparr>fm_state := Stale\<rparr> else e)"

definition add_file_to_tracker :: "64 word \<Rightarrow> ustr \<Rightarrow> record_source \<Rightarrow> file_tracker \<Rightarrow> file_tracker" where
  "add_file_to_tracker now p source t =
     (let es = map (mark_stale p) (tk_entries t);
          entry = \<lparr>fm_path = p, fm_state = Active, fm_source = source,
            fm_sned_read = (if source \<in> {SnedEdited, ReadTool, FileMentioned} then Some now else latest_date fm_sned_read p es),
            fm_sned_edit = (if source = SnedEdited then Some now else latest_date fm_sned_edit p es),
            fm_user_edit = (if source = UserEdited then Some now else latest_date fm_user_edit p es)\<rparr>
      in t\<lparr>tk_entries := es @ [entry]\<rparr>)"

definition track_file_context :: "file_world \<Rightarrow> (ustr \<Rightarrow> bool) \<Rightarrow> 64 word \<Rightarrow> ustr \<Rightarrow> record_source \<Rightarrow> file_tracker \<Rightarrow> file_tracker" where
  "track_file_context fw ok now p source t = track_file fw ok (canonical_path_key fw p) (add_file_to_tracker now p source t)"

definition edited_after :: "64 word \<Rightarrow> file_metadata_entry \<Rightarrow> bool" where
  "edited_after message_ts e \<longleftrightarrow>
     (case fm_sned_edit e of Some ts \<Rightarrow> message_ts < ts | None \<Rightarrow> False)
     \<or> (case fm_user_edit e of Some ts \<Rightarrow> message_ts < ts | None \<Rightarrow> False)"

fun collect_paths :: "(file_metadata_entry \<Rightarrow> bool) \<Rightarrow> ustr list \<Rightarrow> file_metadata_entry list \<Rightarrow> ustr list" where
  "collect_paths P found [] = found"
| "collect_paths P found (e # es) =
     collect_paths P (if P e \<and> fm_path e \<notin> set found then found @ [fm_path e] else found) es"

definition detect_files_edited_after_message :: "64 word \<Rightarrow> file_tracker \<Rightarrow> ustr list" where
  "detect_files_edited_after_message message_ts t = collect_paths (edited_after message_ts) [] (tk_entries t)"

definition mark_file_as_edited_by_sned :: "file_world \<Rightarrow> ustr \<Rightarrow> file_tracker \<Rightarrow> file_tracker" where
  "mark_file_as_edited_by_sned fw p t = t\<lparr>tk_edited := insert (canonical_path_key fw p) (tk_edited t)\<rparr>"

section \<open>The check for outside changes\<close>

datatype stale_check = RecentlyEdited | WatcherModified | Mtime nat

definition begin_stale_check :: "file_world \<Rightarrow> ustr \<Rightarrow> file_tracker \<Rightarrow> stale_check option \<times> file_tracker" where
  "begin_stale_check fw p t =
     (let key = canonical_path_key fw p
      in if key \<in> tk_edited t then (Some RecentlyEdited, t\<lparr>tk_edited := tk_edited t - {key}\<rparr>)
         else let (hit, t1) = (case tk_watcher t of
                  None \<Rightarrow> (False, t)
                | Some w \<Rightarrow> (let (b, w') = take_modified fw key w in (b, t\<lparr>tk_watcher := Some w'\<rparr>)))
           in if hit then (Some WatcherModified, t1) else (map_option Mtime (tk_files t1 key), t1))"

definition set_mtime :: "ustr \<Rightarrow> nat option \<Rightarrow> file_tracker \<Rightarrow> file_tracker" where
  "set_mtime key mtime t = (case mtime of Some m \<Rightarrow> t\<lparr>tk_files := (tk_files t)(key \<mapsto> m)\<rparr> | None \<Rightarrow> t)"

text \<open>The result tells whether a warning is given.\<close>

definition finish_stale_check :: "file_world \<Rightarrow> ustr \<Rightarrow> stale_check \<Rightarrow> nat option \<Rightarrow> file_tracker \<Rightarrow> bool \<times> file_tracker" where
  "finish_stale_check fw p check current t =
     (let key = canonical_path_key fw p
      in case check of
           RecentlyEdited \<Rightarrow>
             (let t1 = set_mtime key current t
              in (False, t1\<lparr>tk_watcher := map_option (\<lambda>w. snd (take_modified fw key w)) (tk_watcher t1)\<rparr>))
         | WatcherModified \<Rightarrow> (True, set_mtime key current t)
         | Mtime last_tracked \<Rightarrow> (case current of Some m \<Rightarrow> last_tracked < m | None \<Rightarrow> False, t))"

text \<open>The metadata is read in between, when the system may be in another state.\<close>

definition check_stale :: "file_world \<Rightarrow> file_world \<Rightarrow> ustr \<Rightarrow> file_tracker \<Rightarrow> bool \<times> file_tracker" where
  "check_stale fw fw' p t =
     (case begin_stale_check fw p t of
        (None, t1) \<Rightarrow> (False, t1)
      | (Some check, t1) \<Rightarrow> finish_stale_check fw' p check (fw_mtime fw' p) t1)"

section \<open>The cache of contents\<close>

text \<open>The \<open>LruCache\<close> of the crate \<open>lru\<close> by its documentation, with its most recently used entry first.\<close>

type_synonym content_cache = "(ustr \<times> ustr) list"

abbreviation MAX_FILE_CONTENT_CACHE_SIZE :: int where "MAX_FILE_CONTENT_CACHE_SIZE \<equiv> 10485760"
abbreviation MAX_FILE_CONTENT_CACHE_ENTRIES :: nat where "MAX_FILE_CONTENT_CACHE_ENTRIES \<equiv> 50"

definition lru_pop :: "ustr \<Rightarrow> content_cache \<Rightarrow> content_cache" where
  "lru_pop k c = filter (\<lambda>e. fst e \<noteq> k) c"

definition lru_get :: "ustr \<Rightarrow> content_cache \<Rightarrow> ustr option \<times> content_cache" where
  "lru_get k c = (case map_of c k of None \<Rightarrow> (None, c) | Some v \<Rightarrow> (Some v, (k, v) # lru_pop k c))"

definition lru_put :: "ustr \<Rightarrow> ustr \<Rightarrow> content_cache \<Rightarrow> content_cache" where
  "lru_put k v c =
     (if map_of c k \<noteq> None then (k, v) # lru_pop k c
      else (k, v) # (if length c < MAX_FILE_CONTENT_CACHE_ENTRIES then c else butlast c))"

definition cache_size :: "content_cache \<Rightarrow> int" where
  "cache_size c = (\<Sum>e \<leftarrow> c. int (byte_len (snd e)))"

function evict_for :: "int \<Rightarrow> content_cache \<Rightarrow> content_cache" where
  "evict_for need c =
     (if c \<noteq> [] \<and> MAX_FILE_CONTENT_CACHE_SIZE < cache_size c + need then evict_for need (butlast c) else c)"
  by pat_completeness auto
termination by (relation "measure (\<lambda>(need, c). length c)") auto

definition insert_file_content :: "ustr \<Rightarrow> ustr \<Rightarrow> content_cache \<Rightarrow> content_cache" where
  "insert_file_content p content c =
     (let need = int (byte_len content)
      in if MAX_FILE_CONTENT_CACHE_SIZE < need then c else lru_put p content (evict_for need (lru_pop p c)))"

section \<open>The entries of a task\<close>

text \<open>The records of a task: the time, the path and the source of each.\<close>

type_synonym file_record = "64 word \<times> ustr \<times> record_source"

definition tracked_entries :: "file_record list \<Rightarrow> file_metadata_entry list" where
  "tracked_entries rs = tk_entries (foldl (\<lambda>t (now, p, source). add_file_to_tracker now p source t) (new_tracker None) rs)"

definition last_time :: "(record_source \<Rightarrow> bool) \<Rightarrow> ustr \<Rightarrow> file_record list \<Rightarrow> 64 word option" where
  "last_time P p rs = (case rev (filter (\<lambda>(now, q, source). q = p \<and> P source) rs) of [] \<Rightarrow> None | (now, _) # _ \<Rightarrow> Some now)"

definition active_entries :: "ustr \<Rightarrow> file_metadata_entry list \<Rightarrow> file_metadata_entry list" where
  "active_entries p es = filter (\<lambda>e. fm_path e = p \<and> fm_state e = Active) es"

lemma tracked_entries_empty [simp]: "tracked_entries [] = []"
  by (simp add: tracked_entries_def new_tracker_def)

lemma tracked_entries_snoc:
  "tracked_entries (rs @ [(now, p, source)]) =
     (let es = map (mark_stale p) (tracked_entries rs)
      in es @ [\<lparr>fm_path = p, fm_state = Active, fm_source = source,
            fm_sned_read = (if source \<in> {SnedEdited, ReadTool, FileMentioned} then Some now else latest_date fm_sned_read p es),
            fm_sned_edit = (if source = SnedEdited then Some now else latest_date fm_sned_edit p es),
            fm_user_edit = (if source = UserEdited then Some now else latest_date fm_user_edit p es)\<rparr>])"
  by (simp add: tracked_entries_def add_file_to_tracker_def Let_def)

lemma mark_stale_simps [simp]:
  "fm_path (mark_stale p e) = fm_path e" "fm_source (mark_stale p e) = fm_source e"
  "fm_sned_read (mark_stale p e) = fm_sned_read e" "fm_sned_edit (mark_stale p e) = fm_sned_edit e"
  "fm_user_edit (mark_stale p e) = fm_user_edit e"
  by (simp_all add: mark_stale_def)

lemma fold_max: "fold max xs (a :: 64 word) = Max (insert a (set xs))"
proof (induction xs arbitrary: a)
  case (Cons x xs)
  then show ?case by (cases "xs = []") (simp_all add: max.left_commute max.commute)
qed simp

lemma latest_date_Max:
  "latest_date f p es = (let D = {d. \<exists>e \<in> set es. fm_path e = p \<and> f e = Some d} in if D = {} then None else Some (Max D))"
proof -
  let ?ds = "List.map_filter f (filter (\<lambda>e. fm_path e = p) es)"
  have s: "set ?ds = {d. \<exists>e \<in> set es. fm_path e = p \<and> f e = Some d}"
    by (auto simp: List.map_filter_def intro: rev_image_eqI)
  show ?thesis
  proof (cases ?ds)
    case Nil
    then show ?thesis unfolding latest_date_def Let_def s[symmetric] by simp
  next
    case (Cons d ds)
    then have "Max (set ?ds) = fold max ds d" by (simp only: fold_max list.set)
    then show ?thesis unfolding latest_date_def Let_def s[symmetric] using Cons by simp
  qed
qed

lemma latest_date_snoc:
  assumes "\<And>e. e \<in> set es \<Longrightarrow> fm_path (g e) = fm_path e \<and> f (g e) = f e"
    and "\<And>e d. e \<in> set es \<Longrightarrow> fm_path e = p \<Longrightarrow> f e = Some d \<Longrightarrow> fm_path x = p \<Longrightarrow> \<exists>d'. f x = Some d' \<and> d \<le> d'"
  shows "latest_date f p (map g es @ [x]) = (if fm_path x = p \<and> f x \<noteq> None then f x else latest_date f p es)"
proof -
  let ?D = "{d. \<exists>e \<in> set es. fm_path e = p \<and> f e = Some d}"
  have D: "{d. \<exists>e \<in> set (map g es @ [x]). fm_path e = p \<and> f e = Some d} = ?D \<union> {d. fm_path x = p \<and> f x = Some d}"
    using assms(1) by force
  have fin: "finite ?D" by (rule finite_subset[of _ "(the \<circ> f) ` set es"]) (auto simp: image_iff, metis option.sel)
  show ?thesis
  proof (cases "fm_path x = p \<and> f x \<noteq> None")
    case True
    then obtain d where d: "f x = Some d" by auto
    have "Max (insert d ?D) = d"
      using fin assms(2) True d by (intro Max_eqI) force+
    then show ?thesis unfolding latest_date_Max D Let_def using True d by (simp add: insert_commute)
  next
    case False
    then have "?D \<union> {d. fm_path x = p \<and> f x = Some d} = ?D" by auto
    then show ?thesis unfolding latest_date_Max D Let_def using False by auto
  qed
qed
lemma last_time_snoc:
  "last_time P p (rs @ [(now, q, source)]) = (if q = p \<and> P source then Some now else last_time P p rs)"
  by (simp add: last_time_def)

text \<open>One more record of a path, seen through one of the dates: \<open>P\<close> says which sources set it.\<close>

lemma date_step:
  assumes old: "\<And>q. latest_date f q es = last_time P q rs"
    and bound: "\<And>e d. e \<in> set es \<Longrightarrow> f e = Some d \<Longrightarrow> d \<le> now"
    and g: "\<And>e. e \<in> set es \<Longrightarrow> fm_path (g e) = fm_path e \<and> f (g e) = f e"
    and x: "fm_path x = q" "f x = (if P source then Some now else latest_date f q (map g es))"
  shows "latest_date f p (map g es @ [x]) = last_time P p (rs @ [(now, q, source)])"
    and "\<And>e d. e \<in> set (map g es @ [x]) \<Longrightarrow> f e = Some d \<Longrightarrow> d \<le> now"
proof -
  have D: "{d. \<exists>e \<in> set (map g es). fm_path e = r \<and> f e = Some d} = {d. \<exists>e \<in> set es. fm_path e = r \<and> f e = Some d}" for r
    using g by force
  have same: "latest_date f r (map g es) = latest_date f r es" for r
    unfolding latest_date_Max D ..
  have fin: "finite {d. \<exists>e \<in> set es. fm_path e = r \<and> f e = Some d}" for r
    by (rule finite_subset[of _ "(the \<circ> f) ` set es"]) (auto simp: image_iff, metis option.sel)
  have above: "\<exists>d'. f x = Some d' \<and> d \<le> d'" if "e \<in> set es" "fm_path e = r" "f e = Some d" "fm_path x = r" for e d r
  proof (cases "P source")
    case True
    then show ?thesis using bound[OF that(1,3)] x(2) by simp
  next
    case False
    have "d \<in> {d. \<exists>e \<in> set es. fm_path e = q \<and> f e = Some d}" using that x(1) by auto
    then show ?thesis using False x(2) fin same by (auto simp: latest_date_Max Let_def intro!: Max_ge)
  qed
  show "latest_date f p (map g es @ [x]) = last_time P p (rs @ [(now, q, source)])"
  proof -
    have "latest_date f p (map g es @ [x]) = (if fm_path x = p \<and> f x \<noteq> None then f x else latest_date f p es)"
      by (rule latest_date_snoc) (use g above in blast)+
    then show ?thesis unfolding last_time_snoc using x old same by auto
  qed
  show "d \<le> now" if m: "e \<in> set (map g es @ [x])" "f e = Some d" for e d
  proof (cases "e = x")
    case True
    show ?thesis
    proof (cases "P source")
      case False
      let ?D = "{d. \<exists>e \<in> set es. fm_path e = q \<and> f e = Some d}"
      have "Some d = latest_date f q es" using True False m(2) x(2) same by simp
      then have "d \<in> ?D" using fin Max_in[of ?D] by (auto simp: latest_date_Max Let_def split: if_splits)
      then show ?thesis using bound by blast
    qed (use True m(2) x(2) in simp)
  next
    case False
    then obtain e' where "e' \<in> set es" "e = g e'" using m(1) by auto
    then show ?thesis using bound g m(2) by auto
  qed
qed

definition reads_file :: "record_source \<Rightarrow> bool" where
  "reads_file source \<longleftrightarrow> source \<noteq> UserEdited"

lemma mark_stale_active:
  "fm_state (mark_stale q e) = Active \<longleftrightarrow> fm_state e = Active \<and> fm_path e \<noteq> q"
  "fm_path e \<noteq> q \<Longrightarrow> mark_stale q e = e"
  by (auto simp: mark_stale_def)

lemma active_marked: "active_entries p (map (mark_stale q) es) = (if p = q then [] else active_entries p es)"
proof (induction es)
  case (Cons e es)
  then show ?case by (cases "fm_path e = q") (auto simp: active_entries_def mark_stale_active simp del: not_Cons_self)
qed (simp add: active_entries_def)

lemma active_snoc:
  assumes "fm_path x = q" and "fm_state x = Active"
  shows "active_entries p (map (mark_stale q) es @ [x]) = (if p = q then [x] else active_entries p es)"
proof -
  have "active_entries p (map (mark_stale q) es @ [x]) = active_entries p (map (mark_stale q) es) @ (if p = q then [x] else [])"
    using assms by (simp add: active_entries_def)
  then show ?thesis by (simp add: active_marked)
qed

text \<open>One of the dates after the records of a task, when its clock does not run backwards.\<close>

definition dates_fit :: "(file_metadata_entry \<Rightarrow> 64 word option) \<Rightarrow> (record_source \<Rightarrow> bool) \<Rightarrow> file_record list \<Rightarrow> bool" where
  "dates_fit f P rs \<longleftrightarrow> (\<forall>q. latest_date f q (tracked_entries rs) = last_time P q rs)
     \<and> (\<forall>e \<in> set (tracked_entries rs). \<forall>d. f e = Some d \<longrightarrow> (rs \<noteq> [] \<longrightarrow> d \<le> fst (last rs)))"

lemma dates_of_records:
  assumes "sorted (map fst rs)"
    and keep: "\<And>q e. f (mark_stale q e) = f e"
    and new: "\<And>rs now q source. f (last (tracked_entries (rs @ [(now, q, source)])))
        = (if P source then Some now else latest_date f q (map (mark_stale q) (tracked_entries rs)))"
  shows "dates_fit f P rs"
  using assms(1)
proof (induction rs rule: rev_induct)
  case Nil
  then show ?case by (simp add: dates_fit_def latest_date_def last_time_def map_filter_simps)
next
  case (snoc r rs)
  obtain now q source where r: "r = (now, q, source)" by (cases r) auto
  let ?x = "last (tracked_entries (rs @ [(now, q, source)]))"
  have so: "sorted (map fst rs)" "rs \<noteq> [] \<Longrightarrow> fst (last rs) \<le> now"
    using snoc.prems r by (auto simp: sorted_append)
  have e: "tracked_entries (rs @ [r]) = map (mark_stale q) (tracked_entries rs) @ [?x]" and p: "fm_path ?x = q"
    by (simp_all add: r tracked_entries_snoc Let_def)
  have old: "\<And>q. latest_date f q (tracked_entries rs) = last_time P q rs" using snoc.IH[OF so(1)] by (simp add: dates_fit_def)
  have bound: "d \<le> now" if "e \<in> set (tracked_entries rs)" "f e = Some d" for e d
  proof -
    have "rs \<noteq> []" using that(1) by auto
    then show ?thesis using snoc.IH[OF so(1)] that so(2) by (auto simp: dates_fit_def intro: order_trans)
  qed
  note step = date_step[where f = f and es = "tracked_entries rs" and P = P and rs = rs and now = now and g = "mark_stale q" and x = ?x
      and q = q and source = source, OF old bound _ p new]
  have "latest_date f p (tracked_entries (rs @ [r])) = last_time P p (rs @ [r])" for p
    unfolding e unfolding r by (rule step(1)) (simp_all add: keep)
  moreover have "d \<le> now" if "e \<in> set (tracked_entries (rs @ [r]))" "f e = Some d" for e d
    by (rule step(2)[OF _ _ _ that[unfolded e]]) (simp_all add: keep)
  ultimately show ?case by (simp add: dates_fit_def r)
qed

lemma reads_source: "reads_file source \<longleftrightarrow> source = SnedEdited \<or> source = ReadTool \<or> source = FileMentioned"
  by (cases source) (simp_all add: reads_file_def)

lemma latest_date_marked:
  "(\<And>e. f (mark_stale q e) = f e) \<Longrightarrow> latest_date f p (map (mark_stale q) es) = latest_date f p es"
  unfolding latest_date_Max by simp

text \<open>C33. After any records, when the clock does not run backwards, each path a task has seen has exactly one active entry: it
  carries the source of the path's last record and the times of its last read, of its last edit by the agent and of its
  last edit by the user; a path never seen has none.\<close>

theorem active_entry_of_records:
  assumes "sorted (map fst rs)"
  shows "map (\<lambda>e. (fm_source e, fm_sned_read e, fm_sned_edit e, fm_user_edit e)) (active_entries p (tracked_entries rs))
       = (case rev (filter (\<lambda>r. fst (snd r) = p) rs) of
            [] \<Rightarrow> []
          | (now, q, source) # _ \<Rightarrow> [(source, last_time reads_file p rs, last_time ((=) SnedEdited) p rs, last_time ((=) UserEdited) p rs)])"
  using assms
proof (induction rs rule: rev_induct)
  case Nil
  then show ?case by (simp add: active_entries_def)
next
  case (snoc r rs)
  obtain now q source where r: "r = (now, q, source)" by (cases r) auto
  have so: "sorted (map fst rs)" using snoc.prems by (simp add: sorted_append)
  note fits = dates_of_records[OF so]
  have d: "latest_date fm_sned_read q (tracked_entries rs) = last_time reads_file q rs"
    "latest_date fm_sned_edit q (tracked_entries rs) = last_time ((=) SnedEdited) q rs"
    "latest_date fm_user_edit q (tracked_entries rs) = last_time ((=) UserEdited) q rs"
    using fits[of fm_sned_read reads_file] fits[of fm_sned_edit "(=) SnedEdited"] fits[of fm_user_edit "(=) UserEdited"]
    by (simp_all add: dates_fit_def tracked_entries_snoc Let_def reads_source eq_commute[of SnedEdited] eq_commute[of UserEdited])
  show ?case
  proof (cases "p = q")
    case True
    then show ?thesis
      using d by (cases source)
        (simp_all add: r tracked_entries_snoc Let_def active_snoc last_time_snoc latest_date_marked reads_file_def)
  next
    case False
    then have lt: "last_time P p (rs @ [r]) = last_time P p rs" for P by (simp add: r last_time_snoc)
    show ?thesis
      unfolding lt using False snoc.IH[OF so] by (simp add: r tracked_entries_snoc Let_def active_snoc)
  qed
qed

lemma active_entry_of_records_witness:
  "map (\<lambda>e. (fm_source e, fm_sned_read e, fm_sned_edit e, fm_user_edit e))
     (active_entries (str ''/f'') (tracked_entries [(1, str ''/f'', ReadTool), (2, str ''/f'', SnedEdited), (3, str ''/f'', UserEdited)]))
   = [(UserEdited, Some 2, Some 2, Some 3)]"
  using active_entry_of_records[of "[(1, str ''/f'', ReadTool), (2, str ''/f'', SnedEdited), (3, str ''/f'', UserEdited)]" "str ''/f''"]
  by (simp add: last_time_def reads_file_def)

section \<open>The cache stays small\<close>

definition cache_ok :: "content_cache \<Rightarrow> bool" where
  "cache_ok c \<longleftrightarrow> distinct (map fst c) \<and> length c \<le> MAX_FILE_CONTENT_CACHE_ENTRIES \<and> cache_size c \<le> MAX_FILE_CONTENT_CACHE_SIZE"

lemma cache_size_append [simp]: "cache_size (a @ b) = cache_size a + cache_size b" "cache_size [] = 0"
  "cache_size (e # c) = int (byte_len (snd e)) + cache_size c"
  by (simp_all add: cache_size_def)

lemma cache_size_nonneg: "0 \<le> cache_size c"
  by (induction c) simp_all

text \<open>What removal and eviction keep: a part of the entries, in order.\<close>

lemma evict_for_part: "\<exists>d. c = evict_for need c @ d"
proof (induction need c rule: evict_for.induct)
  case (1 need c)
  show ?case
  proof (cases "c \<noteq> [] \<and> MAX_FILE_CONTENT_CACHE_SIZE < cache_size c + need")
    case True
    then obtain d where "butlast c = evict_for need (butlast c) @ d" using 1 by blast
    then have "c = evict_for need c @ d @ [last c]"
      using True evict_for.simps[of need c] by (metis append_assoc append_butlast_last_id)
    then show ?thesis by blast
  next
    case False
    then have "evict_for need c = c" by (subst evict_for.simps) (simp only: if_False)
    then show ?thesis by simp
  qed
qed

lemma evict_for_fits: "need \<le> MAX_FILE_CONTENT_CACHE_SIZE \<Longrightarrow> cache_size (evict_for need c) + need \<le> MAX_FILE_CONTENT_CACHE_SIZE"
proof (induction need c rule: evict_for.induct)
  case (1 need c)
  then show ?case by (subst evict_for.simps) (auto simp del: evict_for.simps)
qed

declare evict_for.simps [simp del]

lemma cache_size_filter: "cache_size (filter P c) \<le> cache_size c"
  by (induction c) auto

lemma cache_size_butlast: "cache_size (butlast c) \<le> cache_size c"
  by (cases c rule: rev_cases) simp_all

text \<open>C37. Storing a content keeps the cache within ten megabytes and fifty entries of different files; a content that fits is
  found afterwards, and of another file the cache holds what it held or nothing.\<close>

theorem content_cache_bounded:
  assumes "cache_ok c"
  shows "cache_ok (insert_file_content p content c)
    \<and> (int (byte_len content) \<le> MAX_FILE_CONTENT_CACHE_SIZE \<longrightarrow> map_of (insert_file_content p content c) p = Some content)
    \<and> (q \<noteq> p \<longrightarrow> map_of (insert_file_content p content c) q \<in> {None, map_of c q})"
proof (cases "MAX_FILE_CONTENT_CACHE_SIZE < int (byte_len content)")
  case False
  let ?need = "int (byte_len content)" and ?popped = "lru_pop p c"
  let ?kept = "evict_for ?need ?popped"
  obtain d where d: "?popped = ?kept @ d" using evict_for_part by blast
  let ?rest = "if length ?kept < MAX_FILE_CONTENT_CACHE_ENTRIES then ?kept else butlast ?kept"
  have popped: "distinct (map fst ?popped)" "length ?popped \<le> MAX_FILE_CONTENT_CACHE_ENTRIES" "p \<notin> fst ` set ?popped"
    using assms by (auto simp: cache_ok_def lru_pop_def distinct_map inj_on_def intro: le_trans[OF length_filter_le])
  have kept: "distinct (map fst ?kept)" "length ?kept \<le> MAX_FILE_CONTENT_CACHE_ENTRIES" "p \<notin> fst ` set ?kept"
    using popped by (simp_all add: arg_cong[OF d, of "map fst"] arg_cong[OF d, of length] arg_cong[OF d, of set] image_Un)
  have ins: "insert_file_content p content c = (p, content) # ?rest"
    using False kept(3) by (simp add: insert_file_content_def Let_def lru_put_def map_of_eq_None_iff)
  have "cache_size ?rest \<le> cache_size ?kept" by (simp add: cache_size_butlast)
  then have "cache_size (insert_file_content p content c) \<le> MAX_FILE_CONTENT_CACHE_SIZE"
    using evict_for_fits[of ?need ?popped] False unfolding ins by simp
  moreover have "distinct (map fst (insert_file_content p content c))"
    unfolding ins using kept by (auto simp: map_butlast distinct_butlast dest: in_set_butlastD)
  moreover have "length (insert_file_content p content c) \<le> MAX_FILE_CONTENT_CACHE_ENTRIES"
    unfolding ins using kept(2) by auto
  moreover have "map_of (insert_file_content p content c) q \<in> {None, map_of c q}" if "q \<noteq> p"
  proof (cases "map_of ?rest q")
    case (Some v)
    then have "(q, v) \<in> set ?rest" by (rule map_of_SomeD)
    then have "(q, v) \<in> set ?kept" by (auto split: if_splits dest: in_set_butlastD)
    then have "(q, v) \<in> set ?popped" using d by (metis Un_iff set_append)
    then have "map_of c q = Some v" using assms by (auto simp: lru_pop_def cache_ok_def)
    then show ?thesis using Some that unfolding ins by simp
  qed (use that ins in simp)
  moreover have "map_of (insert_file_content p content c) p = Some content" unfolding ins by simp
  ultimately show ?thesis by (simp add: cache_ok_def)
qed (use assms in \<open>simp add: insert_file_content_def\<close>)

lemma content_cache_bounded_witness:
  "cache_ok (insert_file_content (str ''/f'') (str ''new'') [(str ''/g'', str ''x''), (str ''/f'', str ''old'')])
   \<and> map_of (insert_file_content (str ''/f'') (str ''new'') [(str ''/g'', str ''x''), (str ''/f'', str ''old'')]) (str ''/f'') = Some (str ''new'')"
proof -
  have "cache_ok [(str ''/g'', str ''x''), (str ''/f'', str ''old'')]" by (simp add: cache_ok_def) code_simp
  moreover have "int (byte_len (str ''new'')) \<le> MAX_FILE_CONTENT_CACHE_SIZE" by code_simp
  ultimately show ?thesis using content_cache_bounded by blast
qed

text \<open>A content that is too large for the cache leaves the previous content of its file there.\<close>

lemma oversized_insert_keeps_old:
  "MAX_FILE_CONTENT_CACHE_SIZE < int (byte_len content) \<Longrightarrow> map_of (insert_file_content p content c) p = map_of c p"
  by (simp add: insert_file_content_def)

end
