(* ===== verification/EditWrites.thy ===== *)
theory EditWrites
  imports AnchorStore FileTracking ProviderStream
begin

text \<open>
  The write phase of the edit tool, \<open>src/core/tools/handlers/edit_file.rs\<close>: the files are written one after the other, verified,
  and written back when one of them fails. Other programs may change files at any time: before every call of the file
  system, and between the comparison that allows a write and the calls of the write itself. Files are kept under the
  canonical path, so links to one file are one file; links themselves do not change during the edit. A file that is
  restored is remembered with the times at the end of the rollback.
\<close>

section \<open>The file system during a call\<close>

record file_node =
  fn_bytes :: "8 word list"
  fn_mtime :: "nat option"

record edit_world =
  ew_nodes :: "ustr \<Rightarrow> file_node option"
  ew_calls :: nat
  ew_writes :: "(ustr \<times> 8 word list option \<times> 8 word list) list"

text \<open>What others do: \<open>ox_change\<close> before a call, \<open>ox_window\<close> before a call of a replacement; which calls fail by themselves;
  the name of a temporary file beside a target, and what has reached it when its file is dropped; and the answers that do
  not change during the edit. The calls are numbered.\<close>

record outside =
  ox_change :: "nat \<Rightarrow> (ustr \<Rightarrow> file_node option) \<Rightarrow> ustr \<Rightarrow> file_node option"
  ox_window :: "nat \<Rightarrow> (ustr \<Rightarrow> file_node option) \<Rightarrow> ustr \<Rightarrow> file_node option"
  ox_fails :: "nat \<Rightarrow> bool"
  ox_stamp :: "nat \<Rightarrow> nat option"
  ox_temp :: "nat \<Rightarrow> ustr \<Rightarrow> ustr"
  ox_arrives :: "nat \<Rightarrow> 8 word list \<Rightarrow> 8 word list"
  ox_fsync :: bool
  ox_link :: "ustr \<Rightarrow> bool"
  ox_canonical :: "ustr \<Rightarrow> ustr option"
  ox_regular :: "ustr \<Rightarrow> bool option"
  ox_is_dir :: "ustr \<Rightarrow> bool"

definition tick :: "outside \<Rightarrow> edit_world \<Rightarrow> edit_world" where
  "tick ox w = w\<lparr>ew_nodes := ox_change ox (ew_calls w) (ew_nodes w), ew_calls := Suc (ew_calls w)\<rparr>"

definition file_key :: "outside \<Rightarrow> ustr \<Rightarrow> ustr" where
  "file_key ox p = (case ox_canonical ox p of Some c \<Rightarrow> c | None \<Rightarrow> p)"

definition look :: "outside \<Rightarrow> ustr \<Rightarrow> edit_world \<Rightarrow> file_node option \<times> edit_world" where
  "look ox p w = (let w1 = tick ox w in (if ox_fails ox (ew_calls w) then None else ew_nodes w1 (file_key ox p), w1))"

definition try_lock_file :: "outside \<Rightarrow> edit_world \<Rightarrow> bool \<times> edit_world" where
  "try_lock_file ox w = (\<not> ox_fails ox (ew_calls w), tick ox w)"

subsection \<open>Replacing a file\<close>

text \<open>\<open>atomic_write_file_async\<close>: the content goes to a new temporary file beside the target, which is renamed to it. A link is
  resolved, so that its target is replaced. When a call fails before the renaming the temporary file stays; it is removed
  only after a renaming that failed. The file is dropped without a flush, so a write that was accepted may not have arrived
  when the file is renamed; what arrives later is a change of \<open>ox_change\<close>. A dangling link has no file.\<close>

definition own_call :: "outside \<Rightarrow> edit_world \<Rightarrow> bool \<times> edit_world" where
  "own_call ox w =
     (\<not> ox_fails ox (ew_calls w), w\<lparr>ew_nodes := ox_window ox (ew_calls w) (ew_nodes w), ew_calls := Suc (ew_calls w)\<rparr>)"

text \<open>A path that is not there is its own target; any other error of \<open>symlink_metadata\<close> fails.\<close>

definition atomic_write_target :: "outside \<Rightarrow> ustr \<Rightarrow> edit_world \<Rightarrow> ustr option \<times> edit_world" where
  "atomic_write_target ox p w =
     (let (ok, w1) = own_call ox w
      in if \<not> ok then (None, w1)
         else if ox_link ox p then (let (resolved, w2) = own_call ox w1 in (if resolved then ox_canonical ox p else None, w2))
         else (Some (file_key ox p), w1))"

text \<open>Writing through an open file: its bytes, as long as it is still there.\<close>

definition put_bytes :: "outside \<Rightarrow> ustr \<Rightarrow> 8 word list \<Rightarrow> edit_world \<Rightarrow> edit_world" where
  "put_bytes ox l bytes w =
     w\<lparr>ew_nodes := (ew_nodes w)(l := map_option (\<lambda>f. f\<lparr>fn_bytes := bytes, fn_mtime := ox_stamp ox (ew_calls w)\<rparr>) (ew_nodes w l))\<rparr>"

text \<open>The permissions of an existing target, the content, and the synchronisation where it is configured.\<close>

definition fill_temp :: "outside \<Rightarrow> bool \<Rightarrow> ustr \<Rightarrow> 8 word list \<Rightarrow> edit_world \<Rightarrow> bool \<times> edit_world" where
  "fill_temp ox permissions temp bytes w =
     (let (ok, w1) = (if permissions then own_call ox w else (True, w))
      in if \<not> ok then (False, w1)
         else let (written, w2) = own_call ox w1; w3 = put_bytes ox temp (ox_arrives ox (ew_calls w1) bytes) w2
           in if \<not> written then (False, w3)
              else if \<not> ox_fsync ox then (True, w3)
              else let (synced, w4) = own_call ox w3 in (synced, if synced then put_bytes ox temp bytes w4 else w4))"

definition rename_temp :: "outside \<Rightarrow> ustr \<Rightarrow> ustr \<Rightarrow> ustr \<Rightarrow> 8 word list \<Rightarrow> edit_world \<Rightarrow> bool \<times> edit_world" where
  "rename_temp ox p temp dest bytes w =
     (let (ok, w1) = own_call ox w; nodes = ew_nodes w1
      in if ok \<and> nodes temp \<noteq> None
         then (True, w1\<lparr>ew_nodes := nodes(temp := None, dest := nodes temp),
                 ew_writes := ew_writes w @ [(p, map_option fn_bytes (nodes dest), bytes)]\<rparr>)
         else let (removed, w2) = own_call ox w1
           in (False, if removed then w2\<lparr>ew_nodes := (ew_nodes w2)(temp := None)\<rparr> else w2))"

text \<open>\<open>create_new\<close> fails when the name is taken; the clock that goes into the name is read in the same call.\<close>

definition replace_file :: "outside \<Rightarrow> ustr \<Rightarrow> ustr \<Rightarrow> edit_world \<Rightarrow> bool \<times> edit_world" where
  "replace_file ox p content w =
     (case atomic_write_target ox p w of
        (None, w1) \<Rightarrow> (False, w1)
      | (Some dest, w1) \<Rightarrow>
          (let (asked, w2) = own_call ox w1
           in if \<not> asked then (False, w2)
              else let permissions = (ew_nodes w2 dest \<noteq> None); temp = ox_temp ox (ew_calls w2) dest;
                       (created, w3) = own_call ox w2
                in if \<not> created \<or> ew_nodes w3 temp \<noteq> None then (False, w3)
                   else let w4 = w3\<lparr>ew_nodes := (ew_nodes w3)(temp \<mapsto> \<lparr>fn_bytes = [], fn_mtime = ox_stamp ox (ew_calls w3)\<rparr>)\<rparr>;
                            (filled, w5) = fill_temp ox permissions temp (utf8 content) w4
                     in if \<not> filled then (False, w5) else rename_temp ox p temp dest (utf8 content) w5))"

section \<open>What the edit sees\<close>

definition world_now :: "outside \<Rightarrow> edit_world \<Rightarrow> file_world" where
  "world_now ox w =
     \<lparr>fw_canonical = ox_canonical ox, fw_mtime = (\<lambda>p. Option.bind (ew_nodes w (file_key ox p)) fn_mtime), fw_is_dir = ox_is_dir ox\<rparr>"

text \<open>\<open>read_to_string\<close> fails on bytes that are no UTF-8.\<close>

definition read_string :: "8 word list \<Rightarrow> ustr option" where
  "read_string bytes = (let s = from_utf8_lossy bytes in if utf8 s = bytes then Some s else None)"

section \<open>Writing the files\<close>

record write_item =
  wi_path :: ustr
  wi_final :: ustr
  wi_original :: ustr
  wi_mtime :: "nat option"

datatype write_abort =
    AbortTransitions anchor_transition_error
  | AbortOpen ustr
  | AbortLocked ustr
  | AbortChanged ustr
  | AbortWrite ustr
  | AbortOutput ustr

text \<open>The file a model has to read again after the abort, if any.\<close>

definition abort_reread :: "write_abort \<Rightarrow> ustr option" where
  "abort_reread a =
     (case a of
        AbortTransitions (StaleGeneration p) \<Rightarrow> Some p
      | AbortLocked p \<Rightarrow> Some p
      | AbortChanged p \<Rightarrow> Some p
      | AbortOutput p \<Rightarrow> Some p
      | _ \<Rightarrow> None)"

definition mtime_unchanged :: "outside \<Rightarrow> write_item \<Rightarrow> edit_world \<Rightarrow> bool \<times> edit_world" where
  "mtime_unchanged ox item w =
     (case wi_mtime item of
        None \<Rightarrow> (True, w)
      | Some initial \<Rightarrow>
          (let (node, w1) = look ox (wi_path item) w
           in (case Option.bind node fn_mtime of Some current \<Rightarrow> current = initial | None \<Rightarrow> True, w1)))"

definition write_one :: "outside \<Rightarrow> write_item \<Rightarrow> edit_world \<Rightarrow> write_abort option \<times> edit_world" where
  "write_one ox item w =
     (let p = wi_path item; (opened, w1) = look ox p w
      in if opened = None then (Some (AbortOpen p), w1)
         else let (locked, w2) = try_lock_file ox w1
           in if \<not> locked then (Some (AbortLocked p), w2)
              else let (same_mtime, w3) = mtime_unchanged ox item w2; (current, w4) = look ox p w3
                in if \<not> same_mtime \<or> map_option fn_bytes current \<noteq> Some (utf8 (wi_original item))
                   then (Some (AbortChanged p), w4)
                   else let (ok, w5) = replace_file ox p (wi_final item) w4
                     in (if ok then None else Some (AbortWrite p), w5))"

fun write_items :: "outside \<Rightarrow> write_item list \<Rightarrow> edit_world \<Rightarrow> write_abort option \<times> ustr list \<times> edit_world" where
  "write_items ox [] w = (None, [], w)"
| "write_items ox (item # items) w =
     (case write_one ox item w of
        (Some a, w1) \<Rightarrow> (Some a, [], w1)
      | (None, w1) \<Rightarrow> (let (a, written, w2) = write_items ox items w1 in (a, wi_path item # written, w2)))"

fun verify_outputs :: "outside \<Rightarrow> write_item list \<Rightarrow> edit_world \<Rightarrow> write_abort option \<times> edit_world" where
  "verify_outputs ox [] w = (None, w)"
| "verify_outputs ox (item # items) w =
     (let (current, w1) = look ox (wi_path item) w
      in if map_option fn_bytes current = Some (utf8 (wi_final item)) then verify_outputs ox items w1
         else (Some (AbortOutput (wi_path item)), w1))"

definition write_phase :: "outside \<Rightarrow> write_item list \<Rightarrow> edit_world \<Rightarrow> write_abort option \<times> ustr list \<times> edit_world" where
  "write_phase ox items w =
     (case write_items ox items w of
        (Some a, written, w1) \<Rightarrow> (Some a, written, w1)
      | (None, written, w1) \<Rightarrow> (let (a, w2) = verify_outputs ox items w1 in (a, written, w2)))"

text \<open>Rolling back, from the last file written to the first: the paths that could not be restored, and those that were. After a
  file that does not hold what was written, or cannot be read or written, nothing more is restored.\<close>

fun roll_back ::
  "outside \<Rightarrow> (ustr \<Rightarrow> ustr option) \<Rightarrow> (ustr \<Rightarrow> ustr option) \<Rightarrow> ustr list \<Rightarrow> edit_world
     \<Rightarrow> ustr list \<times> ustr list \<times> edit_world" where
  "roll_back ox originals finals [] w = ([], [], w)"
| "roll_back ox originals finals (p # ps) w =
     (case (originals p, finals p) of
        (Some original, Some expected) \<Rightarrow>
          (let (current, w1) = look ox p w
           in if map_option fn_bytes current \<noteq> Some (utf8 expected) then ([p], [], w1)
              else let (ok, w2) = replace_file ox p original w1
                in if \<not> ok then ([p], [], w2)
                   else let (failed, restored, w3) = roll_back ox originals finals ps w2 in (failed, p # restored, w3))
      | _ \<Rightarrow> (let (failed, restored, w1) = roll_back ox originals finals ps w in (p # failed, restored, w1)))"

text \<open>The maps are collected from the items; a later item replaces an earlier one of the same path.\<close>

definition item_map :: "(write_item \<Rightarrow> ustr) \<Rightarrow> write_item list \<Rightarrow> ustr \<Rightarrow> ustr option" where
  "item_map f items = map_of (rev (map (\<lambda>i. (wi_path i, f i)) items))"

definition roll_back_items :: "outside \<Rightarrow> write_item list \<Rightarrow> ustr list \<Rightarrow> edit_world \<Rightarrow> ustr list \<times> ustr list \<times> edit_world" where
  "roll_back_items ox items written w =
     roll_back ox (item_map wi_original items) (item_map wi_final items) (rev written) w"

section \<open>The task's memory of its reads\<close>

text \<open>Of the maps that follow reads only the keys matter here.\<close>

record edit_state =
  es_must_reread :: "ustr set"
  es_cache :: content_cache
  es_tracker :: file_tracker
  es_consecutive_reads :: "ustr set"
  es_last_read_turn :: "ustr set"
  es_recent_windows :: "ustr set"
  es_snapshots :: "ustr set"
  es_coverage :: "ustr set"
  es_pending :: "ustr list"
  es_changes :: "ustr \<Rightarrow> (32 word \<times> 32 word) option"

definition mark_must_reread :: "outside \<Rightarrow> ustr \<Rightarrow> edit_state \<Rightarrow> edit_state" where
  "mark_must_reread ox p s =
     (let key = file_key ox p
      in s\<lparr>es_must_reread := insert key (es_must_reread s), es_cache := lru_pop key (es_cache s),
           es_consecutive_reads := es_consecutive_reads s - {key}, es_last_read_turn := es_last_read_turn s - {key},
           es_recent_windows := es_recent_windows s - {key}, es_snapshots := es_snapshots s - {key},
           es_coverage := es_coverage s - {key}, es_pending := filter (\<lambda>q. q \<noteq> key) (es_pending s)\<rparr>)"

definition remember_content :: "outside \<Rightarrow> edit_world \<Rightarrow> ustr \<Rightarrow> ustr \<Rightarrow> ustr \<Rightarrow> edit_state \<Rightarrow> edit_state" where
  "remember_content ox w p key content s =
     s\<lparr>es_cache := insert_file_content key content (es_cache s),
       es_tracker := mark_file_as_edited_by_sned (world_now ox w) p (es_tracker s)\<rparr>"

definition forget_reads :: "outside \<Rightarrow> ustr \<Rightarrow> edit_state \<Rightarrow> edit_state" where
  "forget_reads ox p s =
     (let key = file_key ox p
      in s\<lparr>es_consecutive_reads := es_consecutive_reads s - {key}, es_last_read_turn := es_last_read_turn s - {key},
           es_recent_windows := es_recent_windows s - {key}, es_snapshots := es_snapshots s - {key}\<rparr>)"

definition count_change :: "ustr \<Rightarrow> 32 word \<Rightarrow> 32 word \<Rightarrow> edit_state \<Rightarrow> edit_state" where
  "count_change p added removed s =
     (let (a, r) = (case es_changes s p of Some c \<Rightarrow> c | None \<Rightarrow> (0, 0));
          plus = (\<lambda>x y :: 32 word. if uint x + uint y < 2 ^ 32 then x + y else -1)
      in s\<lparr>es_changes := (es_changes s)(p \<mapsto> (plus a added, plus r removed))\<rparr>)"

text \<open>The write phase with what follows its abort.\<close>

definition write_or_restore ::
  "outside \<Rightarrow> write_item list \<Rightarrow> edit_world \<Rightarrow> write_abort option \<times> ustr list \<times> ustr list \<times> edit_world" where
  "write_or_restore ox items w =
     (case write_phase ox items w of
        (None, written, w1) \<Rightarrow> (None, [], [], w1)
      | (Some a, written, w1) \<Rightarrow>
          (let (failed, restored, w2) = roll_back_items ox items written w1 in (Some a, failed, restored, w2)))"

section \<open>Every write replaces what it expects\<close>

definition expected_write :: "write_item list \<Rightarrow> ustr \<times> 8 word list option \<times> 8 word list \<Rightarrow> bool" where
  "expected_write items entry \<longleftrightarrow>
     (case entry of (p, old, new) \<Rightarrow> \<exists>item \<in> set items. wi_path item = p
        \<and> (old = Some (utf8 (wi_original item)) \<and> new = utf8 (wi_final item)
           \<or> old = Some (utf8 (wi_final item)) \<and> new = utf8 (wi_original item)))"

definition writes_since :: "edit_world \<Rightarrow> edit_world \<Rightarrow> (ustr \<times> 8 word list option \<times> 8 word list \<Rightarrow> bool) \<Rightarrow> bool" where
  "writes_since w w' P \<longleftrightarrow> (\<exists>log. ew_writes w' = ew_writes w @ log \<and> (\<forall>entry \<in> set log. P entry))"

lemma writes_since_refl: "ew_writes w' = ew_writes w \<Longrightarrow> writes_since w w' P"
  by (auto simp: writes_since_def)

lemma writes_since_trans: "writes_since w w1 P \<Longrightarrow> writes_since w1 w2 P \<Longrightarrow> writes_since w w2 P"
proof -
  assume "writes_since w w1 P" "writes_since w1 w2 P"
  then obtain log log' where "ew_writes w1 = ew_writes w @ log" "\<forall>entry \<in> set log. P entry"
    "ew_writes w2 = ew_writes w1 @ log'" "\<forall>entry \<in> set log'. P entry" unfolding writes_since_def by blast
  then show ?thesis unfolding writes_since_def by (intro exI[of _ "log @ log'"]) auto
qed

lemma look_writes [simp]: "ew_writes (snd (look ox p w)) = ew_writes w" "ew_writes (tick ox w) = ew_writes w"
  "ew_writes (snd (try_lock_file ox w)) = ew_writes w" "ew_writes (snd (mtime_unchanged ox item w)) = ew_writes w"
  by (simp_all add: look_def tick_def try_lock_file_def mtime_unchanged_def Let_def split: option.splits prod.splits)

subsection \<open>What a replacement leaves\<close>

lemma own_call_writes [simp]: "ew_writes (snd (own_call ox w)) = ew_writes w" "ew_writes (put_bytes ox l b w) = ew_writes w"
  by (simp_all add: own_call_def put_bytes_def)

lemma own_call_calm:
  assumes "\<And>n nodes. ox_window ox n nodes = nodes"
  shows "ew_nodes (snd (own_call ox w)) = ew_nodes w"
  using assms by (simp add: own_call_def)

lemma own_call_kept:
  assumes "\<And>n nodes. ox_window ox n nodes = nodes" and "own_call ox w = (a, w1)"
  shows "ew_nodes w1 = ew_nodes w \<and> ew_writes w1 = ew_writes w"
  using assms by (auto simp: own_call_def)

lemma put_bytes_other: "q \<noteq> l \<Longrightarrow> ew_nodes (put_bytes ox l b w) q = ew_nodes w q"
  by (simp add: put_bytes_def)

lemma put_bytes_at: "ew_nodes w l = Some f \<Longrightarrow> \<exists>f'. ew_nodes (put_bytes ox l b w) l = Some f' \<and> fn_bytes f' = b"
  by (simp add: put_bytes_def)

lemma target_calm:
  assumes "\<And>n nodes. ox_window ox n nodes = nodes" and "atomic_write_target ox p w = (t, w')"
  shows "ew_nodes w' = ew_nodes w \<and> ew_writes w' = ew_writes w \<and> (t = None \<or> t = Some (file_key ox p))"
  using assms by (auto simp: atomic_write_target_def own_call_def file_key_def Let_def split: if_splits option.splits)

text \<open>Only the temporary file changes until the renaming; the bytes that arrive are in it.\<close>

lemma fill_calm:
  assumes w: "\<And>n nodes. ox_window ox n nodes = nodes" and "fill_temp ox permissions temp bytes w = (ok, w')"
    and "ew_nodes w temp = Some f"
  shows "(\<forall>q. q \<noteq> temp \<longrightarrow> ew_nodes w' q = ew_nodes w q) \<and> ew_writes w' = ew_writes w
    \<and> (ok \<longrightarrow> (\<exists>f'. ew_nodes w' temp = Some f' \<and> ((\<forall>n bs. ox_arrives ox n bs = bs) \<longrightarrow> fn_bytes f' = bytes)))"
proof -
  obtain a w1 where a: "(if permissions then own_call ox w else (True, w)) = (a, w1)" by fastforce
  obtain b w2 where b: "own_call ox w1 = (b, w2)" by fastforce
  obtain c w4 where c: "own_call ox (put_bytes ox temp (ox_arrives ox (ew_calls w1) bytes) w2) = (c, w4)" by fastforce
  have n: "ew_nodes w1 = ew_nodes w" "ew_writes w1 = ew_writes w" "ew_nodes w2 = ew_nodes w" "ew_writes w2 = ew_writes w"
    "ew_nodes w4 = ew_nodes (put_bytes ox temp (ox_arrives ox (ew_calls w1) bytes) w2)" "ew_writes w4 = ew_writes w"
    using a own_call_kept[OF w, of w a w1] own_call_kept[OF w b] own_call_kept[OF w c] by (auto split: if_splits)
  obtain f1 where f1: "ew_nodes w4 temp = Some f1" "fn_bytes f1 = ox_arrives ox (ew_calls w1) bytes"
    using put_bytes_at[of w2 temp f] n assms(3) by auto
  obtain f2 where f2: "ew_nodes (put_bytes ox temp bytes w4) temp = Some f2" "fn_bytes f2 = bytes" using put_bytes_at[OF f1(1)] by blast
  show ?thesis using assms(2) a b c n f1 f2
    by (auto simp: fill_temp_def Let_def put_bytes_other split: if_splits)
qed

lemma rename_calm:
  assumes w: "\<And>n nodes. ox_window ox n nodes = nodes" and "rename_temp ox p temp dest bytes w = (ok, w')" and "ew_nodes w temp = Some f"
  shows "(ok \<longrightarrow> ew_nodes w' = (ew_nodes w)(temp := None, dest \<mapsto> f)
            \<and> ew_writes w' = ew_writes w @ [(p, map_option fn_bytes (ew_nodes w dest), bytes)])
    \<and> (\<not> ok \<longrightarrow> ew_writes w' = ew_writes w \<and> (\<forall>q. q \<noteq> temp \<longrightarrow> ew_nodes w' q = ew_nodes w q))"
  using assms by (auto simp: rename_temp_def own_call_def Let_def split: if_splits)

text \<open>A replacement exchanges the file of the path; one that fails leaves every file there is, and at most a new temporary one.\<close>

lemma replace_calm:
  assumes w: "\<And>n nodes. ox_window ox n nodes = nodes" and r: "replace_file ox p content w = (ok, w')"
  shows "(ok \<longrightarrow> (\<exists>f. ew_nodes w' = (ew_nodes w)(file_key ox p \<mapsto> f) \<and> ((\<forall>n bs. ox_arrives ox n bs = bs) \<longrightarrow> fn_bytes f = utf8 content)))
    \<and> (\<not> ok \<longrightarrow> ew_writes w' = ew_writes w
          \<and> (\<exists>n. \<forall>q. ew_nodes w' q = ew_nodes w q \<or> q = ox_temp ox n (file_key ox p) \<and> ew_nodes w q = None))
    \<and> (ok \<and> ew_nodes w (file_key ox p) = Some g \<longrightarrow> ew_writes w' = ew_writes w @ [(p, Some (fn_bytes g), utf8 content)])"
proof -
  obtain t w1 where t: "atomic_write_target ox p w = (t, w1)" by fastforce
  note tc = target_calm[OF w t]
  show ?thesis
  proof (cases t)
    case None
    then show ?thesis using r t tc by (auto simp: replace_file_def)
  next
    case (Some dest)
    then have tk: "dest = file_key ox p" using tc by simp
    obtain a w2 where a: "own_call ox w1 = (a, w2)" by fastforce
    obtain b w3 where b: "own_call ox w2 = (b, w3)" by fastforce
    have n: "ew_nodes w2 = ew_nodes w" "ew_nodes w3 = ew_nodes w" "ew_writes w2 = ew_writes w" "ew_writes w3 = ew_writes w"
      using own_call_calm[OF w, of w1] own_call_calm[OF w, of w2] own_call_writes(1)[of ox w1] own_call_writes(1)[of ox w2] a b tc by simp_all
    define temp where "temp = ox_temp ox (ew_calls w2) dest"
    show ?thesis
    proof (cases "a \<and> b \<and> ew_nodes w temp = None")
      case False
      then show ?thesis using r t Some a b n temp_def by (auto simp: replace_file_def Let_def split: if_splits)
    next
      case True
      define w4 where "w4 = w3\<lparr>ew_nodes := (ew_nodes w3)(temp \<mapsto> \<lparr>fn_bytes = [], fn_mtime = ox_stamp ox (ew_calls w3)\<rparr>)\<rparr>"
      obtain c w5 where c: "fill_temp ox (ew_nodes w2 dest \<noteq> None) temp (utf8 content) w4 = (c, w5)" by fastforce
      have w4: "ew_nodes w4 temp = Some \<lparr>fn_bytes = [], fn_mtime = ox_stamp ox (ew_calls w3)\<rparr>" "ew_writes w4 = ew_writes w"
        "\<And>q. q \<noteq> temp \<Longrightarrow> ew_nodes w4 q = ew_nodes w q" using n by (simp_all add: w4_def)
      note fc = fill_calm[OF w c w4(1)]
      have lost: "\<exists>n. \<forall>q. ew_nodes v q = ew_nodes w q \<or> q = ox_temp ox n (file_key ox p) \<and> ew_nodes w q = None"
        if "\<And>q. q \<noteq> temp \<Longrightarrow> ew_nodes v q = ew_nodes w q" for v
        using that True tk unfolding temp_def by (intro exI[of _ "ew_calls w2"] allI) (metis (no_types))
      have e: "(ok, w') = (if \<not> c then (False, w5) else rename_temp ox p temp dest (utf8 content) w5)"
        using r t Some a b True n c unfolding replace_file_def temp_def w4_def by (simp add: Let_def)
      show ?thesis
      proof (cases c)
        case False
        have "\<And>q. q \<noteq> temp \<Longrightarrow> ew_nodes w5 q = ew_nodes w q" using fc w4(3) by simp
        then show ?thesis using e fc w4(2) False lost by auto
      next
        case c: True
        then obtain f where f: "ew_nodes w5 temp = Some f" "(\<forall>n bs. ox_arrives ox n bs = bs) \<longrightarrow> fn_bytes f = utf8 content" using fc by blast
        have rn: "rename_temp ox p temp dest (utf8 content) w5 = (ok, w')" using e c by simp
        note rc = rename_calm[OF w rn f(1)]
        have "(ew_nodes w5)(temp := None, dest \<mapsto> f) = (ew_nodes w)(dest \<mapsto> f)" using fc w4 True by (auto simp: fun_eq_iff)
        moreover have "ew_nodes w dest = Some g \<Longrightarrow> ew_nodes w5 dest = Some g" using fc w4 True by (metis option.distinct(1))
        moreover have "\<And>q. \<not> ok \<Longrightarrow> q \<noteq> temp \<Longrightarrow> ew_nodes w' q = ew_nodes w q" using rc fc w4(3) by simp
        ultimately show ?thesis using rc f(2) fc w4(2) tk lost[of w'] by (cases ok) auto
      qed
    qed
  qed
qed

text \<open>A comparison and the replacement after it.\<close>

lemma replace_after_look:
  assumes w: "\<And>n nodes. ox_window ox n nodes = nodes" and "map_option fn_bytes (fst (look ox p w)) = Some b"
  shows "writes_since (snd (look ox p w)) (snd (replace_file ox p content (snd (look ox p w)))) (\<lambda>e. e = (p, Some b, utf8 content))"
proof -
  obtain g where g: "ew_nodes (snd (look ox p w)) (file_key ox p) = Some g" "fn_bytes g = b"
    using assms(2) by (auto simp: look_def Let_def split: if_splits)
  obtain ok w' where r: "replace_file ox p content (snd (look ox p w)) = (ok, w')" by fastforce
  show ?thesis using replace_calm[OF w r, of g] g r by (cases ok) (auto simp: writes_since_def)
qed

lemma writes_since_mono: "writes_since w w' P \<Longrightarrow> (\<And>e. P e \<Longrightarrow> Q e) \<Longrightarrow> writes_since w w' Q"
  by (auto simp: writes_since_def)

lemma write_one_expected:
  assumes "\<And>n nodes. ox_window ox n nodes = nodes" and "item \<in> set items"
  shows "writes_since w (snd (write_one ox item w)) (expected_write items)"
proof -
  let ?p = "wi_path item"
  obtain opened w1 where o: "look ox ?p w = (opened, w1)" by fastforce
  obtain locked w2 where l: "try_lock_file ox w1 = (locked, w2)" by fastforce
  obtain same w3 where m: "mtime_unchanged ox item w2 = (same, w3)" by fastforce
  obtain current w4 where c: "look ox ?p w3 = (current, w4)" by fastforce
  obtain ok w5 where r: "replace_file ox ?p (wi_final item) w4 = (ok, w5)" by fastforce
  have e: "ew_writes w1 = ew_writes w" "ew_writes w2 = ew_writes w1" "ew_writes w3 = ew_writes w2" "ew_writes w4 = ew_writes w3"
    using look_writes(1)[of ox ?p w] look_writes(3)[of ox w1] look_writes(4)[of ox item w2] look_writes(1)[of ox ?p w3] o l m c by simp_all
  show ?thesis
  proof (cases "opened = None \<or> \<not> locked \<or> \<not> same \<or> map_option fn_bytes current \<noteq> Some (utf8 (wi_original item))")
    case True
    then show ?thesis using o l m c e by (intro writes_since_refl) (auto simp: write_one_def Let_def)
  next
    case False
    then have "writes_since w4 w5 (\<lambda>en. en = (?p, Some (utf8 (wi_original item)), utf8 (wi_final item)))"
      using replace_after_look[of ox ?p w3 "utf8 (wi_original item)" "wi_final item"] assms(1) c r by simp
    then have "writes_since w4 w5 (expected_write items)"
      by (rule writes_since_mono) (use assms(2) in \<open>auto simp: expected_write_def\<close>)
    moreover have "snd (write_one ox item w) = w5" using False o l m c r by (auto simp: write_one_def Let_def)
    ultimately show ?thesis using e by (auto intro: writes_since_trans writes_since_refl)
  qed
qed

lemma write_items_expected:
  assumes "\<And>n nodes. ox_window ox n nodes = nodes" and "set items \<subseteq> set all" and "write_items ox items w = (a, written, w')"
  shows "writes_since w w' (expected_write all)"
  using assms(2,3)
proof (induction items arbitrary: w written)
  case (Cons item items)
  obtain r w1 where o: "write_one ox item w = (r, w1)" by fastforce
  have one: "writes_since w w1 (expected_write all)" using write_one_expected[of ox item all w] assms(1) Cons.prems(1) o by simp
  show ?case
  proof (cases r)
    case None
    obtain a' written' w2 where "write_items ox items w1 = (a', written', w2)" by (metis prod_cases3)
    then show ?thesis using Cons.IH[of w1 written'] Cons.prems one o None by (auto intro: writes_since_trans)
  qed (use Cons.prems(2) one o in simp)
qed (simp add: writes_since_refl)

lemma verify_outputs_writes: "ew_writes (snd (verify_outputs ox items w)) = ew_writes w"
proof (induction items arbitrary: w)
  case (Cons item items)
  then show ?case using look_writes(1)[of ox "wi_path item" w] by (simp add: case_prod_unfold Let_def)
qed simp

lemma item_map_Some:
  assumes "item_map f items p = Some v"
  obtains item where "item \<in> set items" "wi_path item = p" "\<forall>g. item_map g items p = Some (g item)"
proof -
  have "\<exists>item \<in> set items. wi_path item = p \<and> (\<forall>g. item_map g items p = Some (g item))"
    using assms
  proof (induction items rule: rev_induct)
    case (snoc i items)
    show ?case
    proof (cases "wi_path i = p")
      case False
      then show ?thesis using snoc by (fastforce simp: item_map_def)
    qed (auto simp: item_map_def)
  qed (simp add: item_map_def)
  then show ?thesis using that by blast
qed

lemma roll_back_expected:
  assumes "\<And>n nodes. ox_window ox n nodes = nodes"
    and "roll_back ox (item_map wi_original items) (item_map wi_final items) ps w = (failed, restored, w')"
  shows "writes_since w w' (expected_write items)"
  using assms(2)
proof (induction ps arbitrary: w failed restored w')
  case (Cons p ps)
  show ?case
  proof (cases "item_map wi_original items p = None \<or> item_map wi_final items p = None")
    case True
    then show ?thesis
      using Cons.prems Cons.IH by (auto split: option.splits prod.splits)
  next
    case False
    then obtain v where "item_map wi_original items p = Some v" by auto
    then obtain item where item: "item \<in> set items" "wi_path item = p" "\<forall>g. item_map g items p = Some (g item)"
      by (rule item_map_Some)
    obtain current w1 where c: "look ox p w = (current, w1)" by fastforce
    have e: "ew_writes w1 = ew_writes w" using look_writes(1)[of ox p w] c by simp
    show ?thesis
    proof (cases "map_option fn_bytes current = Some (utf8 (wi_final item))")
      case True
      obtain ok w2 where r: "replace_file ox p (wi_original item) w1 = (ok, w2)" by fastforce
      have "writes_since w1 w2 (\<lambda>en. en = (p, Some (utf8 (wi_final item)), utf8 (wi_original item)))"
        using replace_after_look[of ox p w "utf8 (wi_final item)" "wi_original item"] assms(1) True c r by simp
      then have "writes_since w1 w2 (expected_write items)"
        by (rule writes_since_mono) (use item in \<open>auto simp: expected_write_def\<close>)
      then have one: "writes_since w w2 (expected_write items)" using e by (auto intro: writes_since_trans writes_since_refl)
      obtain f r' w3 where rest: "roll_back ox (item_map wi_original items) (item_map wi_final items) ps w2 = (f, r', w3)" by (metis prod_cases3)
      show ?thesis
        using Cons.prems item(3) c True r rest one Cons.IH[OF rest] by (auto split: if_splits intro: writes_since_trans)
    next
      case False
      then show ?thesis using Cons.prems item(3) c e by (auto intro: writes_since_refl)
    qed
  qed
qed (simp add: writes_since_refl)

text \<open>C7. Whatever other programs do to the files, as long as no change falls between a comparison and the replacement it allows:
  every write of the edit replaces exactly the content the edit was made for by its result, and every write of a rollback
  replaces exactly that result by the content before; nothing anyone else wrote is overwritten.\<close>

theorem writes_replace_expected:
  assumes "\<And>n nodes. ox_window ox n nodes = nodes" and "write_or_restore ox items w = (a, failed, restored, w')"
  shows "\<exists>log. ew_writes w' = ew_writes w @ log \<and> (\<forall>entry \<in> set log. expected_write items entry)"
proof -
  obtain r written w1 where p: "write_phase ox items w = (r, written, w1)" by (metis prod_cases3)
  obtain r' written' v where i: "write_items ox items w = (r', written', v)" by (metis prod_cases3)
  have wv: "writes_since w v (expected_write items)" using write_items_expected[OF assms(1) _ i] by simp
  have "ew_writes w1 = ew_writes v"
    using p i verify_outputs_writes[of ox items v] by (auto simp: write_phase_def split: option.splits prod.splits)
  then have w1: "writes_since w w1 (expected_write items)" using wv by (auto intro: writes_since_trans writes_since_refl)
  have "writes_since w w' (expected_write items)"
  proof (cases r)
    case None
    then show ?thesis using assms(2) p w1 by (simp add: write_or_restore_def)
  next
    case (Some x)
    obtain f re w2 where b: "roll_back_items ox items written w1 = (f, re, w2)" by (metis prod_cases3)
    have "writes_since w1 w2 (expected_write items)"
      using roll_back_expected[OF assms(1)] b unfolding roll_back_items_def by blast
    then show ?thesis using assms(2) p Some b w1 by (auto simp: write_or_restore_def intro: writes_since_trans)
  qed
  then show ?thesis by (simp add: writes_since_def)
qed

section \<open>All files or none\<close>

definition quiet :: "outside \<Rightarrow> bool" where
  "quiet ox \<longleftrightarrow> (\<forall>n nodes. ox_change ox n nodes = nodes \<and> ox_window ox n nodes = nodes)"

definition arriving :: "outside \<Rightarrow> bool" where
  "arriving ox \<longleftrightarrow> (\<forall>n bytes. ox_arrives ox n bytes = bytes)"

definition bytes_at :: "outside \<Rightarrow> edit_world \<Rightarrow> ustr \<Rightarrow> 8 word list option" where
  "bytes_at ox w p = map_option fn_bytes (ew_nodes w (file_key ox p))"

text \<open>The file at a place is the same, or it is new and a temporary one beside one of the targets \<open>L\<close>.\<close>

definition kept :: "outside \<Rightarrow> ustr set \<Rightarrow> edit_world \<Rightarrow> edit_world \<Rightarrow> ustr \<Rightarrow> bool" where
  "kept ox L w w' l \<longleftrightarrow> ew_nodes w' l = ew_nodes w l \<or> ew_nodes w l = None \<and> (\<exists>n. \<exists>target \<in> L. l = ox_temp ox n target)"

lemma kept_refl: "ew_nodes w' = ew_nodes w \<Longrightarrow> kept ox L w w' l"
  by (simp add: kept_def)

lemma kept_trans: "kept ox L w w1 l \<Longrightarrow> kept ox L' w1 w2 l \<Longrightarrow> kept ox (L \<union> L') w w2 l"
  unfolding kept_def by (metis UnCI)

lemma kept_mono: "kept ox L w w' l \<Longrightarrow> L \<subseteq> L' \<Longrightarrow> kept ox L' w w' l"
  unfolding kept_def by blast

lemma kept_Some: "kept ox L w w' l \<Longrightarrow> ew_nodes w l = Some f \<Longrightarrow> ew_nodes w' l = Some f"
  by (simp add: kept_def)

lemma quiet_window: "quiet ox \<Longrightarrow> ox_window ox n nodes = nodes"
  by (simp add: quiet_def)

lemma quiet_look:
  assumes "quiet ox"
  shows "ew_nodes (snd (look ox p w)) = ew_nodes w" "ew_nodes (tick ox w) = ew_nodes w"
    "ew_nodes (snd (try_lock_file ox w)) = ew_nodes w" "ew_nodes (snd (mtime_unchanged ox item w)) = ew_nodes w"
    "fst (look ox p w) = Some node \<Longrightarrow> ew_nodes w (file_key ox p) = Some node"
  using assms by (auto simp: quiet_def look_def tick_def try_lock_file_def mtime_unchanged_def Let_def split: option.splits if_splits)

lemma quiet_replace:
  assumes q: "quiet ox" and r: "replace_file ox p content w = (ok, w')"
  shows "(ok \<longrightarrow> (\<exists>f. ew_nodes w' = (ew_nodes w)(file_key ox p \<mapsto> f) \<and> (arriving ox \<longrightarrow> fn_bytes f = utf8 content)))
    \<and> (\<not> ok \<longrightarrow> (\<forall>l. kept ox {file_key ox p} w w' l))"
  using replace_calm[OF quiet_window[OF q] r] unfolding arriving_def kept_def by blast

lemma quiet_write_one:
  assumes q: "quiet ox" and one: "write_one ox item w = (a, w')"
  shows "(a = None \<longrightarrow> bytes_at ox w (wi_path item) = Some (utf8 (wi_original item))
            \<and> (\<exists>f. ew_nodes w' = (ew_nodes w)(file_key ox (wi_path item) \<mapsto> f) \<and> (arriving ox \<longrightarrow> fn_bytes f = utf8 (wi_final item))))
    \<and> (a \<noteq> None \<longrightarrow> (\<forall>l. kept ox {file_key ox (wi_path item)} w w' l))"
proof -
  let ?p = "wi_path item"
  obtain opened w1 where o: "look ox ?p w = (opened, w1)" by fastforce
  obtain locked w2 where l: "try_lock_file ox w1 = (locked, w2)" by fastforce
  obtain same w3 where m: "mtime_unchanged ox item w2 = (same, w3)" by fastforce
  obtain current w4 where c: "look ox ?p w3 = (current, w4)" by fastforce
  obtain ok w5 where r: "replace_file ox ?p (wi_final item) w4 = (ok, w5)" by fastforce
  have e: "ew_nodes w1 = ew_nodes w" "ew_nodes w2 = ew_nodes w" "ew_nodes w3 = ew_nodes w" "ew_nodes w4 = ew_nodes w"
    using quiet_look(1)[OF q, of ?p w] quiet_look(3)[OF q, of w1] quiet_look(4)[OF q, of item w2] quiet_look(1)[OF q, of ?p w3] o l m c
    by simp_all
  show ?thesis
  proof (cases "opened = None \<or> \<not> locked \<or> \<not> same \<or> map_option fn_bytes current \<noteq> Some (utf8 (wi_original item))")
    case True
    then have "a \<noteq> None \<and> ew_nodes w' = ew_nodes w" using one o l m c e by (auto simp: write_one_def Let_def split: if_splits)
    then show ?thesis using kept_refl[of w' w] by auto
  next
    case False
    then have "a = (if ok then None else Some (AbortWrite ?p))" "w' = w5" using one o l m c r by (auto simp: write_one_def Let_def)
    moreover have "bytes_at ox w ?p = Some (utf8 (wi_original item))"
      using False quiet_look(5)[OF q, of ?p w3] c e(3) by (auto simp: bytes_at_def)
    ultimately show ?thesis using quiet_replace[OF q r] e(4) by (auto simp: kept_def split: if_splits)
  qed
qed

text \<open>What was written are the first items, each over its original.\<close>

definition item_keys :: "outside \<Rightarrow> write_item list \<Rightarrow> ustr list" where
  "item_keys ox items = map (\<lambda>i. file_key ox (wi_path i)) items"

lemma quiet_write_items:
  assumes q: "quiet ox" and "write_items ox items w = (a, written, w')" and "distinct (item_keys ox items)"
  shows "\<exists>k. written = map wi_path (take k items) \<and> (a = None \<longrightarrow> length items \<le> k)
        \<and> (\<forall>item \<in> set (take k items). bytes_at ox w (wi_path item) = Some (utf8 (wi_original item))
             \<and> (arriving ox \<longrightarrow> bytes_at ox w' (wi_path item) = Some (utf8 (wi_final item))))
        \<and> (\<forall>l. l \<notin> set (item_keys ox (take k items)) \<longrightarrow> kept ox (set (item_keys ox items)) w w' l)"
  using assms(2,3)
proof (induction items arbitrary: w written)
  case (Cons item items)
  let ?l = "file_key ox (wi_path item)"
  obtain r w1 where o: "write_one ox item w = (r, w1)" by fastforce
  note one = quiet_write_one[OF q o]
  show ?case
  proof (cases r)
    case (Some x)
    have "kept ox (set (item_keys ox (item # items))) w w1 l" for l
      using one Some by (auto simp: item_keys_def intro: kept_mono)
    then show ?thesis using Cons.prems o Some by (intro exI[of _ 0]) auto
  next
    case None
    obtain a' written1 w2 where i: "write_items ox items w1 = (a', written1, w2)" by (metis prod_cases3)
    then have e: "a = a'" "written = wi_path item # written1" "w' = w2" using Cons.prems(1) o None by auto
    have d: "distinct (item_keys ox items)" "?l \<notin> set (item_keys ox items)" using Cons.prems(2) by (auto simp: item_keys_def)
    from Cons.IH[OF i[folded e(1,3)] d(1)] obtain k where k: "written1 = map wi_path (take k items)" "a = None \<longrightarrow> length items \<le> k"
        "\<And>i. i \<in> set (take k items) \<Longrightarrow> bytes_at ox w1 (wi_path i) = Some (utf8 (wi_original i))
           \<and> (arriving ox \<longrightarrow> bytes_at ox w' (wi_path i) = Some (utf8 (wi_final i)))"
        "\<And>l. l \<notin> set (item_keys ox (take k items)) \<Longrightarrow> kept ox (set (item_keys ox items)) w1 w' l" by blast
    have sub: "set (item_keys ox (take k items)) \<subseteq> set (item_keys ox items)" by (auto simp: item_keys_def dest: in_set_takeD)
    obtain f where f: "ew_nodes w1 = (ew_nodes w)(?l \<mapsto> f)" "arriving ox \<longrightarrow> fn_bytes f = utf8 (wi_final item)"
      using one None by blast
    have here: "arriving ox \<longrightarrow> bytes_at ox w' (wi_path item) = Some (utf8 (wi_final item))"
      using kept_Some[OF k(4)[of ?l], of f] d(2) sub f by (auto simp: bytes_at_def)
    have other: "bytes_at ox w (wi_path i) = Some (utf8 (wi_original i))" if i: "i \<in> set (take k items)" for i
    proof -
      have "file_key ox (wi_path i) \<in> set (item_keys ox items)" using i sub by (auto simp: item_keys_def dest: in_set_takeD)
      then have "file_key ox (wi_path i) \<noteq> ?l" using d(2) by metis
      then show ?thesis using k(3)[OF i] f(1) by (simp add: bytes_at_def)
    qed
    have rest: "kept ox (set (item_keys ox (item # items))) w w' l" if l: "l \<notin> set (item_keys ox (take (Suc k) (item # items)))" for l
    proof -
      have "l \<noteq> ?l" "l \<notin> set (item_keys ox (take k items))" using l by (simp_all add: item_keys_def)
      then have "ew_nodes w1 l = ew_nodes w l" "kept ox (set (item_keys ox items)) w1 w' l" using f(1) k(4) by simp_all
      then show ?thesis by (auto simp: kept_def item_keys_def)
    qed
    have "\<forall>i \<in> set (take (Suc k) (item # items)). bytes_at ox w (wi_path i) = Some (utf8 (wi_original i))
       \<and> (arriving ox \<longrightarrow> bytes_at ox w' (wi_path i) = Some (utf8 (wi_final i)))"
      using one None here other k(3) by simp
    then show ?thesis using k(1,2) e(2) rest by (intro exI[of _ "Suc k"]) auto
  qed
qed (simp add: kept_refl)

text \<open>Writes that all succeed leave no temporary file; the comparison at the end finds what has arrived.\<close>

lemma quiet_write_all:
  assumes q: "quiet ox" and "write_items ox items w = (None, written, w')" and "l \<notin> set (item_keys ox items)"
  shows "ew_nodes w' l = ew_nodes w l"
  using assms(2,3)
proof (induction items arbitrary: w written)
  case (Cons item items)
  obtain r w1 where o: "write_one ox item w = (r, w1)" by fastforce
  then have r: "r = None" using Cons.prems(1) by (cases r) auto
  obtain a' written1 w2 where i: "write_items ox items w1 = (a', written1, w2)" by (metis prod_cases3)
  then have "a' = None" "w' = w2" using Cons.prems(1) o r by auto
  then have "ew_nodes w' l = ew_nodes w1 l" using Cons.IH[of w1 written1] i Cons.prems(2) by (simp add: item_keys_def)
  then show ?case using quiet_write_one[OF q o] r Cons.prems(2) by (auto simp: item_keys_def)
qed simp

lemma quiet_verify:
  assumes "quiet ox" and "verify_outputs ox items w = (a, w')"
  shows "ew_nodes w' = ew_nodes w \<and> (a = None \<longrightarrow> (\<forall>item \<in> set items. bytes_at ox w (wi_path item) = Some (utf8 (wi_final item))))"
  using assms(2)
proof (induction items arbitrary: w)
  case (Cons item items)
  obtain current w1 where c: "look ox (wi_path item) w = (current, w1)" by fastforce
  have e: "ew_nodes w1 = ew_nodes w" "\<And>g. current = Some g \<Longrightarrow> ew_nodes w (file_key ox (wi_path item)) = Some g"
    using quiet_look(1)[OF assms(1), of "wi_path item" w] quiet_look(5)[OF assms(1), of "wi_path item" w] c by simp_all
  show ?case
  proof (cases "map_option fn_bytes current = Some (utf8 (wi_final item))")
    case True
    then have "verify_outputs ox items w1 = (a, w')" using Cons.prems c by simp
    moreover have "bytes_at ox w (wi_path item) = Some (utf8 (wi_final item))" using True e(2) by (auto simp: bytes_at_def)
    ultimately show ?thesis using Cons.IH[of w1] e(1) by (simp add: bytes_at_def)
  next
    case False
    then have "a = Some (AbortOutput (wi_path item))" "w' = w1" using Cons.prems c by (auto split: if_splits)
    then show ?thesis using e(1) by simp
  qed
qed simp

lemma quiet_roll_back:
  assumes q: "quiet ox" and "roll_back ox originals finals ps w = (failed, restored, w')" and "distinct (map (file_key ox) ps)"
    and "\<And>p. p \<in> set ps \<Longrightarrow> originals p \<noteq> None \<and> finals p \<noteq> None"
  shows "(failed = [] \<and> arriving ox \<longrightarrow> (\<forall>p \<in> set ps. bytes_at ox w' p = map_option utf8 (originals p)))
    \<and> (\<forall>l. l \<notin> file_key ox ` set ps \<longrightarrow> kept ox (file_key ox ` set ps) w w' l)"
  using assms(2-4)
proof (induction ps arbitrary: w failed restored)
  case (Cons p ps)
  let ?l = "file_key ox p"
  obtain original expected where m: "originals p = Some original" "finals p = Some expected" using Cons.prems(3)[of p] by auto
  obtain current w1 where c: "look ox p w = (current, w1)" by fastforce
  have e: "ew_nodes w1 = ew_nodes w" using quiet_look(1)[OF q, of p w] c by simp
  show ?case
  proof (cases "map_option fn_bytes current = Some (utf8 expected)")
    case True
    obtain ok w2 where r: "replace_file ox p original w1 = (ok, w2)" by fastforce
    note rep = quiet_replace[OF q r]
    show ?thesis
    proof (cases ok)
      case ok: True
      obtain f r' w3 where rest: "roll_back ox originals finals ps w2 = (f, r', w3)" by (metis prod_cases3)
      have res: "failed = f" "w' = w3" using Cons.prems(1) m c True r ok rest by auto
      have d: "distinct (map (file_key ox) ps)" "?l \<notin> file_key ox ` set ps" using Cons.prems(2) by auto
      have ih: "f = [] \<and> arriving ox \<longrightarrow> (\<forall>p \<in> set ps. bytes_at ox w3 p = map_option utf8 (originals p))"
          "\<And>l. l \<notin> file_key ox ` set ps \<Longrightarrow> kept ox (file_key ox ` set ps) w2 w3 l"
        using Cons.IH[of w2 f r'] rest res d(1) Cons.prems(3) by simp_all
      obtain g where g: "ew_nodes w2 = (ew_nodes w)(?l \<mapsto> g)" "arriving ox \<longrightarrow> fn_bytes g = utf8 original" using rep ok e by auto
      have "arriving ox \<longrightarrow> bytes_at ox w3 p = Some (utf8 original)"
        using kept_Some[OF ih(2)[OF d(2)], of g] g by (auto simp: bytes_at_def)
      moreover have "kept ox (file_key ox ` set (p # ps)) w w3 l" if "l \<notin> file_key ox ` set (p # ps)" for l
        using ih(2)[of l] g(1) that by (auto simp: kept_def)
      ultimately show ?thesis using ih(1) res m by auto
    next
      case False
      then have "failed = [p]" "w' = w2" using Cons.prems(1) m c True r by auto
      moreover have "kept ox (file_key ox ` set (p # ps)) w w2 l" for l using rep False e by (auto simp: kept_def)
      ultimately show ?thesis by simp
    qed
  next
    case False
    then show ?thesis using Cons.prems(1) m c e by (auto intro: kept_refl)
  qed
qed (simp add: kept_refl)

lemma item_map_in: "distinct (map wi_path items) \<Longrightarrow> item \<in> set items \<Longrightarrow> item_map f items (wi_path item) = Some (f item)"
proof -
  assume d: "distinct (map wi_path items)" and i: "item \<in> set items"
  have "(wi_path item, f item) \<in> set (rev (map (\<lambda>i. (wi_path i, f i)) items))" using i by auto
  moreover have "distinct (map fst (rev (map (\<lambda>i. (wi_path i, f i)) items)))"
    using d by (simp add: rev_map[symmetric] o_def)
  ultimately show ?thesis unfolding item_map_def by (simp only: map_of_eq_Some_iff)
qed

lemma all_or_nothing:
  assumes "quiet ox" and "distinct (item_keys ox items)" and "write_or_restore ox items w = (a, failed, restored, w')"
  shows "(a = None \<longrightarrow> (\<forall>item \<in> set items. bytes_at ox w' (wi_path item) = Some (utf8 (wi_final item)))
            \<and> (\<forall>l. l \<notin> set (item_keys ox items) \<longrightarrow> ew_nodes w' l = ew_nodes w l))
    \<and> (a \<noteq> None \<and> failed = [] \<and> arriving ox \<longrightarrow>
         (\<forall>l f. ew_nodes w l = Some f \<longrightarrow> map_option fn_bytes (ew_nodes w' l) = Some (fn_bytes f)))
    \<and> (\<forall>l. l \<notin> set (item_keys ox items) \<longrightarrow> kept ox (set (item_keys ox items)) w w' l)"
proof -
  obtain r written w1 where p: "write_phase ox items w = (r, written, w1)" by (metis prod_cases3)
  obtain r' written' v where i: "write_items ox items w = (r', written', v)" by (metis prod_cases3)
  obtain r'' v' where v: "verify_outputs ox items v = (r'', v')" by fastforce
  note ver = quiet_verify[OF assms(1) v]
  have e: "written = written'" "ew_nodes w1 = ew_nodes v" "r = None \<longrightarrow> r' = None \<and> r'' = None"
    using p i v ver by (auto simp: write_phase_def split: option.splits)
  obtain k where k: "written = map wi_path (take k items)"
      "\<And>i. i \<in> set (take k items) \<Longrightarrow> bytes_at ox w (wi_path i) = Some (utf8 (wi_original i))"
      "\<And>l. l \<notin> set (item_keys ox (take k items)) \<Longrightarrow> kept ox (set (item_keys ox items)) w w1 l"
    using quiet_write_items[OF assms(1) i assms(2)] e(1,2) unfolding kept_def by auto
  have sub: "set (item_keys ox (take k items)) \<subseteq> set (item_keys ox items)" by (auto simp: item_keys_def dest: in_set_takeD)
  show ?thesis
  proof (cases r)
    case None
    then have "a = None" "ew_nodes w' = ew_nodes v" using assms(3) p e by (simp_all add: write_or_restore_def)
    moreover have "\<And>l. l \<notin> set (item_keys ox items) \<Longrightarrow> ew_nodes v l = ew_nodes w l"
      using quiet_write_all[OF assms(1)] i e(3) None by blast
    ultimately show ?thesis using ver e(3) None by (auto simp: bytes_at_def kept_def)
  next
    case (Some x)
    obtain f re w2 where b: "roll_back_items ox items written w1 = (f, re, w2)" by (metis prod_cases3)
    then have res: "a = Some x" "failed = f" "w' = w2" using assms(3) p Some by (simp_all add: write_or_restore_def)
    have di: "distinct (map wi_path items)"
      using assms(2) distinct_map[of "file_key ox" "map wi_path items"] by (simp add: item_keys_def o_def)
    have orig: "\<exists>i \<in> set (take k items). wi_path i = p \<and> item_map wi_original items p = Some (wi_original i)
        \<and> item_map wi_final items p = Some (wi_final i)" if "p \<in> set written" for p
      using that k(1) item_map_in[OF di] by (auto dest: in_set_takeD)
    have keys: "map (file_key ox) written = item_keys ox (take k items)" by (simp add: k(1) item_keys_def)
    have dw: "distinct (map (file_key ox) (rev written))"
      using assms(2) keys by (simp add: rev_map[symmetric] item_keys_def take_map[symmetric] distinct_take)
    have m: "item_map wi_original items p \<noteq> None \<and> item_map wi_final items p \<noteq> None" if "p \<in> set (rev written)" for p
      using orig[of p] that by auto
    have undone: "f = [] \<and> arriving ox \<longrightarrow> (\<forall>p \<in> set (rev written). bytes_at ox w2 p = map_option utf8 (item_map wi_original items p))"
      "\<forall>l. l \<notin> file_key ox ` set (rev written) \<longrightarrow> kept ox (file_key ox ` set (rev written)) w1 w2 l"
      using quiet_roll_back[OF assms(1) b[unfolded roll_back_items_def] dw] m by blast+
    have kw: "file_key ox ` set (rev written) = set (item_keys ox (take k items))" using keys by (metis list.set_map set_rev)
    have k2: "kept ox (set (item_keys ox items)) w w2 l" if l: "l \<notin> set (item_keys ox (take k items))" for l
      using kept_trans[OF k(3)[OF l] undone(2)[rule_format, unfolded kw, OF l]] sub by (simp add: sup_absorb1)
    have "map_option fn_bytes (ew_nodes w2 l) = Some (fn_bytes g)" if "f = []" "arriving ox" "ew_nodes w l = Some g" for l g
    proof (cases "l \<in> set (item_keys ox (take k items))")
      case True
      then obtain p where pw: "p \<in> set written" "l = file_key ox p" using keys by (metis imageE list.set_map)
      obtain i where "i \<in> set (take k items)" "wi_path i = p" "item_map wi_original items p = Some (wi_original i)"
        using orig[OF pw(1)] by blast
      then show ?thesis using undone(1) that(1,2) pw k(2)[of i] that(3) by (auto simp: bytes_at_def)
    next
      case False
      then show ?thesis using kept_Some[OF k2[OF False] that(3)] by simp
    qed
    then show ?thesis using res k2 sub by auto
  qed
qed

text \<open>C6. When no other program interferes and no two of the edited paths are links to one file, then whatever calls fail: an edit
  without an abort leaves the new content in every one of its files and every other file as it was. After an abort whose
  rollback reports nothing it could not restore, every file there was before has the content it had, provided that what the
  rollback wrote has arrived (it compares nothing afterwards). And in every case no file that the edit is not about changes; the
  only new ones are temporary files beside its targets, left by a write that failed.\<close>

theorem edit_all_or_nothing:
  assumes "quiet ox" and "distinct (item_keys ox items)" and "write_or_restore ox items w = (a, failed, restored, w')"
  shows "(a = None \<longrightarrow> (\<forall>item \<in> set items. bytes_at ox w' (wi_path item) = Some (utf8 (wi_final item)))
            \<and> (\<forall>l. l \<notin> set (item_keys ox items) \<longrightarrow> ew_nodes w' l = ew_nodes w l))
    \<and> (a \<noteq> None \<and> failed = [] \<and> arriving ox \<longrightarrow>
         (\<forall>l f. ew_nodes w l = Some f \<longrightarrow> map_option fn_bytes (ew_nodes w' l) = Some (fn_bytes f)))
    \<and> (\<forall>l. l \<notin> set (item_keys ox items) \<longrightarrow> kept ox (set (item_keys ox items)) w w' l)"
  by (rule all_or_nothing[OF assms])

section \<open>Examples\<close>

definition still_outside :: "(nat \<Rightarrow> bool) \<Rightarrow> outside" where
  "still_outside fails =
     \<lparr>ox_change = (\<lambda>_ nodes. nodes), ox_window = (\<lambda>_ nodes. nodes), ox_fails = fails, ox_stamp = (\<lambda>n. Some n),
      ox_temp = (\<lambda>_ target. target @ str ''.tmp''), ox_arrives = (\<lambda>_ bytes. bytes), ox_fsync = False, ox_link = (\<lambda>_. False),
      ox_canonical = (\<lambda>p. Some p), ox_regular = (\<lambda>_. Some True), ox_is_dir = (\<lambda>_. False)\<rparr>"

lemma quiet_still [simp]: "quiet (still_outside fails)"
  by (simp add: quiet_def still_outside_def)

lemma arriving_still: "arriving (still_outside fails)"
  by (simp add: arriving_def still_outside_def)

definition two_files :: "edit_world" where
  "two_files =
     \<lparr>ew_nodes = [str ''/a'' \<mapsto> \<lparr>fn_bytes = utf8 (str ''x''), fn_mtime = Some 0\<rparr>, str ''/b'' \<mapsto> \<lparr>fn_bytes = utf8 (str ''y''), fn_mtime = Some 0\<rparr>],
      ew_calls = 0, ew_writes = []\<rparr>"

definition two_items :: "write_item list" where
  "two_items =
     [\<lparr>wi_path = str ''/a'', wi_final = str ''x1'', wi_original = str ''x'', wi_mtime = None\<rparr>,
      \<lparr>wi_path = str ''/b'', wi_final = str ''y1'', wi_original = str ''y'', wi_mtime = Some 0\<rparr>]"

text \<open>Writing the second temporary file fails: the first file is restored, and the temporary file stays.\<close>

lemma edit_all_or_nothing_witness:
  "case write_or_restore (still_outside (\<lambda>n. n = 17)) two_items two_files of
     (a, failed, restored, w') \<Rightarrow> a = Some (AbortWrite (str ''/b'')) \<and> restored = [str ''/a'']
       \<and> (\<forall>l f. ew_nodes two_files l = Some f \<longrightarrow> map_option fn_bytes (ew_nodes w' l) = Some (fn_bytes f))
       \<and> map_option fn_bytes (ew_nodes w' (str ''/b.tmp'')) = Some (utf8 (str ''y1''))"
proof -
  obtain a failed restored w' where r: "write_or_restore (still_outside (\<lambda>n. n = 17)) two_items two_files = (a, failed, restored, w')"
    by (metis prod_cases4)
  have "case write_or_restore (still_outside (\<lambda>n. n = 17)) two_items two_files of
     (a, failed, restored, w') \<Rightarrow> a = Some (AbortWrite (str ''/b'')) \<and> failed = [] \<and> restored = [str ''/a'']
       \<and> map_option fn_bytes (ew_nodes w' (str ''/b.tmp'')) = Some (utf8 (str ''y1''))" by code_simp
  then have e: "a = Some (AbortWrite (str ''/b''))" "failed = []" "restored = [str ''/a'']"
    "map_option fn_bytes (ew_nodes w' (str ''/b.tmp'')) = Some (utf8 (str ''y1''))" using r by simp_all
  have "distinct (item_keys (still_outside (\<lambda>n. n = 17)) two_items)" by code_simp
  from edit_all_or_nothing[OF quiet_still this r] show ?thesis using r e arriving_still by simp
qed

lemma writes_replace_expected_witness:
  "case write_or_restore (still_outside (\<lambda>n. n = 17)) two_items two_files of
     (a, failed, restored, w') \<Rightarrow> length (ew_writes w') = 2 \<and> list_all (expected_write two_items) (ew_writes w')"
proof -
  obtain a failed restored w' where r: "write_or_restore (still_outside (\<lambda>n. n = 17)) two_items two_files = (a, failed, restored, w')"
    by (metis prod_cases4)
  have w: "ox_window (still_outside (\<lambda>n. n = 17)) n nodes = nodes" for n nodes by (simp add: still_outside_def)
  have l: "case write_or_restore (still_outside (\<lambda>n. n = 17)) two_items two_files of (_, _, _, w') \<Rightarrow> length (ew_writes w') = 2" by code_simp
  have "ew_writes two_files = []" by (simp add: two_files_def)
  with writes_replace_expected[OF w r] show ?thesis using l r by (auto simp: list_all_iff)
qed

text \<open>A change between the comparison and the write it allows is overwritten; the rollback compares and writes in the same way.\<close>

lemma change_in_window_lost:
  "let ox = (still_outside (\<lambda>_. False))\<lparr>ox_window := (\<lambda>n nodes. nodes(str ''/a'' \<mapsto> \<lparr>fn_bytes = utf8 (str ''theirs''), fn_mtime = None\<rparr>))\<rparr>
   in case write_or_restore ox (take 1 two_items) two_files of
        (a, _, _, w') \<Rightarrow> ew_writes w' = [(str ''/a'', Some (utf8 (str ''theirs'')), utf8 (str ''x1''))]"
  by code_simp

text \<open>A write that has not arrived when the file is renamed: the comparison of the outputs finds an empty file, and the rollback
  leaves it, because it does not hold what was written.\<close>

lemma unflushed_write_not_restored:
  "let ox = (still_outside (\<lambda>_. False))\<lparr>ox_arrives := (\<lambda>_ _. [])\<rparr>
   in case write_or_restore ox (take 1 two_items) two_files of
        (a, failed, _, w') \<Rightarrow> a = Some (AbortOutput (str ''/a'')) \<and> failed = [str ''/a''] \<and> bytes_at ox w' (str ''/a'') = Some []"
  by code_simp

text \<open>A link is resolved: its target is replaced, and both names read the new content.\<close>

lemma link_target_replaced:
  "let ox = (still_outside (\<lambda>_. False))\<lparr>ox_link := (\<lambda>p. p = str ''/a''), ox_canonical := (\<lambda>p. Some (if p = str ''/a'' then str ''/real'' else p))\<rparr>;
       w = two_files\<lparr>ew_nodes := [str ''/real'' \<mapsto> \<lparr>fn_bytes = utf8 (str ''x''), fn_mtime = Some 0\<rparr>]\<rparr>
   in case write_or_restore ox (take 1 two_items) w of
        (a, _, _, w') \<Rightarrow> a = None \<and> bytes_at ox w' (str ''/a'') = Some (utf8 (str ''x1'')) \<and> bytes_at ox w' (str ''/real'') = Some (utf8 (str ''x1''))
          \<and> ew_nodes w' (str ''/a'') = None"
  by code_simp

end
