(* ===== verification/EditTransaction.thy ===== *)
theory EditTransaction
  imports EditBatch FileEditor EditWrites
begin

text \<open>
  One call of the edit tool from its grouped batches to its result, \<open>EditFileHandler::execute_with_workspace_root\<close> of
  \<open>src/core/tools/handlers/edit_file.rs\<close>: every file is checked, read, observed and prepared; after the approval the batches
  are applied and their transitions staged; then the files are written (\<open>EditWrites\<close>), and last the anchors are published.
  Diagnostics, previews and the texts of messages are left out; what a file is rejected for is a value.
\<close>

section \<open>Preparing a file\<close>

record edit_setting =
  eg_outside :: outside
  eg_sha :: "8 word list \<Rightarrow> ustr"
  eg_order :: "ustr list \<Rightarrow> ustr list"
  eg_arrange :: "anchor_transition list \<Rightarrow> anchor_transition list"
  eg_alnum :: "uchar \<Rightarrow> bool"
  eg_dbg :: "ustr \<Rightarrow> ustr"
  eg_fresh :: "ustr \<Rightarrow> ustr"
  eg_io :: io
  eg_task :: ustr
  eg_max_size :: int

text \<open>Why the batch of a file is rejected.\<close>

datatype batch_rejection =
    TooLarge
  | ChangedOutside
  | NotRegular
  | NotReadable
  | AnchorStorageFailed ustr
  | AnchorsInvalid ustr
  | AnchorsStale ustr
  | MustReread
  | NotPrepared file_editor_error
  | NotStaged anchor_transition_error
  | DuplicatesContent
  | GluesAnchors
  | Overlaps
  | NotPublished anchor_transition_error

record prepared_file =
  pf_batch :: file_edit_batch
  pf_prepared :: prepared_edits
  pf_content :: ustr
  pf_snapshot :: anchor_snapshot
  pf_mtime :: "nat option"

text \<open>The check for a change from outside, with the metadata read in between.\<close>

definition stale_warning :: "outside \<Rightarrow> ustr \<Rightarrow> edit_world \<Rightarrow> file_tracker \<Rightarrow> bool \<times> edit_world \<times> file_tracker" where
  "stale_warning ox p w t =
     (let w1 = tick ox w; (check, t1) = begin_stale_check (world_now ox w1) p t
      in case check of
           None \<Rightarrow> (False, w1, t1)
         | Some c \<Rightarrow>
             (let (node, w2) = look ox p w1;
                  (warn, t2) = finish_stale_check (world_now ox w2) p c (Option.bind node fn_mtime) t1
              in (warn, w2, t2)))"

text \<open>A file whose content is remembered must still be a regular file. \<open>None\<close> is no objection.\<close>

definition regular_check :: "outside \<Rightarrow> ustr option \<Rightarrow> ustr \<Rightarrow> batch_rejection option" where
  "regular_check ox expected p =
     (if expected = None then None
      else case ox_regular ox p of None \<Rightarrow> Some NotReadable | Some b \<Rightarrow> if b then None else Some NotRegular)"

text \<open>The content and the time of the file: its metadata, then its text.\<close>

definition read_file_text :: "outside \<Rightarrow> ustr \<Rightarrow> edit_world \<Rightarrow> (ustr \<times> nat option) option \<times> edit_world" where
  "read_file_text ox p w =
     (let (meta, w1) = look ox p w
      in case meta of
           None \<Rightarrow> (None, w1)
         | Some node \<Rightarrow>
             (let (current, w2) = look ox p w1
              in (case current of
                    None \<Rightarrow> None
                  | Some c \<Rightarrow> map_option (\<lambda>text. (text, fn_mtime node)) (read_string (fn_bytes c)), w2)))"

text \<open>The anchors of the text and the edits prepared on them. \<open>None\<close> is a panic.\<close>

definition prepare_text ::
  "edit_setting \<Rightarrow> file_edit_batch \<Rightarrow> bool \<Rightarrow> ustr \<Rightarrow> nat option \<Rightarrow> edit_state \<Rightarrow> disk \<Rightarrow> anchor_storage
     \<Rightarrow> ((batch_rejection + prepared_file) \<times> edit_state \<times> anchor_storage) option" where
  "prepare_text es b must_reread raw mtime s dk st =
     (let ox = eg_outside es; p = fb_absolute_path b
      in case observe_snapshot (eg_sha es) (eg_fresh es p) (eg_io es) p raw (eg_task es) dk st of
           (Inl (Persistence m), st1) \<Rightarrow> Some (Inl (AnchorStorageFailed m), mark_must_reread ox p s, st1)
         | (Inl (Validation m), st1) \<Rightarrow> Some (Inl (AnchorsInvalid m), s, st1)
         | (Inl (StaleGeneration q), st1) \<Rightarrow> Some (Inl (AnchorsStale q), mark_must_reread ox p s, st1)
         | (Inr snap, st1) \<Rightarrow>
             if must_reread \<and> \<not> is_pure_block b then Some (Inl MustReread, s, st1)
             else (case prepare_edits (eg_dbg es) (fst (normalize_file_content raw)) (fb_edits b) (sn_anchors snap) of
                     None \<Rightarrow> None
                   | Some (Inl e) \<Rightarrow>
                       Some (Inl (NotPrepared e), if requires_reread e then mark_must_reread ox p s else s, st1)
                   | Some (Inr prepared) \<Rightarrow>
                       Some (Inr \<lparr>pf_batch = b, pf_prepared = prepared, pf_content = raw, pf_snapshot = snap, pf_mtime = mtime\<rparr>, s, st1)))"

definition prepare_file ::
  "edit_setting \<Rightarrow> file_edit_batch \<Rightarrow> edit_world \<Rightarrow> edit_state \<Rightarrow> disk \<Rightarrow> anchor_storage
     \<Rightarrow> ((batch_rejection + prepared_file) \<times> edit_world \<times> edit_state \<times> anchor_storage) option" where
  "prepare_file es b w s dk st =
     (let ox = eg_outside es; p = fb_absolute_path b; key = file_key ox p; (meta, w1) = look ox p w
      in if (case meta of Some node \<Rightarrow> eg_max_size es < int (length (fn_bytes node)) | None \<Rightarrow> False)
         then Some (Inl TooLarge, w1, s, st)
         else
           let must_reread = (\<exists>k \<in> es_must_reread s. path_key_matches (world_now ox w1) k p);
               (warn, w2, t2) = stale_warning ox p w1 (es_tracker s);
               s2 = s\<lparr>es_tracker := t2\<rparr>
           in if warn then Some (Inl ChangedOutside, w2, mark_must_reread ox p s2, st)
              else
                let (expected, cache) = lru_get key (es_cache s2); s3 = s2\<lparr>es_cache := cache\<rparr>
                in case regular_check ox expected p of
                     Some r \<Rightarrow> Some (Inl r, w2, s3, st)
                   | None \<Rightarrow>
                       (case read_file_text ox p w2 of
                          (None, w4) \<Rightarrow> Some (Inl NotReadable, w4, s3, st)
                        | (Some (raw, mtime), w4) \<Rightarrow>
                            if expected \<noteq> None \<and> expected \<noteq> Some raw
                            then Some (Inl ChangedOutside, w4, mark_must_reread ox p s3, st)
                            else map_option (\<lambda>(r, s5, st5). (r, w4, s5, st5))
                              (prepare_text es b must_reread raw mtime
                                 (s3\<lparr>es_tracker := track_file_read (world_now ox w4) key (es_tracker s3)\<rparr>) dk st)))"

section \<open>The report\<close>

record edit_report =
  er_applied :: nat
  er_unchanged :: nat
  er_failed :: nat
  er_withheld :: nat
  er_overlap :: nat
  er_rejected :: "ustr set"
  er_reread :: "ustr set"
  er_storage_failed :: "ustr set"
  er_range_insufficient :: "ustr set"
  er_write_failed :: bool
  er_publication :: "(ustr \<times> bool) list"
  er_notes :: "(ustr \<times> batch_rejection) list"

definition empty_report :: edit_report where
  "empty_report =
     \<lparr>er_applied = 0, er_unchanged = 0, er_failed = 0, er_withheld = 0, er_overlap = 0, er_rejected = {}, er_reread = {},
      er_storage_failed = {}, er_range_insufficient = {}, er_write_failed = False, er_publication = [], er_notes = []\<rparr>"

definition asks_reread :: "batch_rejection \<Rightarrow> bool" where
  "asks_reread r =
     (case r of ChangedOutside \<Rightarrow> True | AnchorsStale _ \<Rightarrow> True | MustReread \<Rightarrow> True | NotPrepared e \<Rightarrow> requires_reread e | _ \<Rightarrow> False)"

definition reject_batch :: "file_edit_batch \<Rightarrow> batch_rejection \<Rightarrow> edit_report \<Rightarrow> edit_report" where
  "reject_batch b r rep =
     (let p = fb_absolute_path b
      in rep\<lparr>er_failed := er_failed rep + length (fb_edits b), er_rejected := insert p (er_rejected rep),
           er_reread := (if asks_reread r then insert p (er_reread rep) else er_reread rep),
           er_storage_failed := (case r of AnchorStorageFailed _ \<Rightarrow> insert p (er_storage_failed rep) | _ \<Rightarrow> er_storage_failed rep),
           er_range_insufficient := (if r = TooLarge then insert p (er_range_insufficient rep) else er_range_insufficient rep),
           er_notes := er_notes rep @ [(p, r)]\<rparr>)"

fun prepare_files ::
  "edit_setting \<Rightarrow> file_edit_batch list \<Rightarrow> edit_world \<Rightarrow> edit_state \<Rightarrow> disk \<Rightarrow> anchor_storage \<Rightarrow> edit_report
     \<Rightarrow> (prepared_file list \<times> edit_world \<times> edit_state \<times> anchor_storage \<times> edit_report) option" where
  "prepare_files es [] w s dk st rep = Some ([], w, s, st, rep)"
| "prepare_files es (b # bs) w s dk st rep =
     (case prepare_file es b w s dk st of
        None \<Rightarrow> None
      | Some (Inl r, w1, s1, st1) \<Rightarrow> prepare_files es bs w1 s1 dk st1 (reject_batch b r rep)
      | Some (Inr f, w1, s1, st1) \<Rightarrow>
          map_option (\<lambda>(fs, rest). (f # fs, rest)) (prepare_files es bs w1 s1 dk st1 rep))"

section \<open>Applying the batches\<close>

record file_result =
  fr_batch :: file_edit_batch
  fr_prepared :: prepared_edits
  fr_result :: batch_result
  fr_content :: ustr
  fr_original :: ustr
  fr_mtime :: "nat option"
  fr_transition :: "anchor_transition option"

text \<open>The new content of a file in its text format.\<close>

definition final_text :: "prepared_file \<Rightarrow> batch_result \<Rightarrow> ustr" where
  "final_text f res =
     restore_file_content (case br_final_content res of Some c \<Rightarrow> c | None \<Rightarrow> []) (snd (normalize_file_content (pf_content f)))"

definition anchors_suspect :: "prepared_edits \<Rightarrow> bool" where
  "anchors_suspect p \<longleftrightarrow> list_ex (\<lambda>f. reason_requires_reread (from_diagnostic (fe_error f))) (pe_failed p)"

definition count_result :: "file_edit_batch \<Rightarrow> prepared_edits \<Rightarrow> batch_result \<Rightarrow> edit_report \<Rightarrow> edit_report" where
  "count_result b p res rep =
     (let path = fb_absolute_path b;
          reasons = (if br_duplicate_insertions res \<noteq> [] then [DuplicatesContent]
            else if br_glued_anchor_lines res \<noteq> [] then [GluesAnchors] else []) @ (if br_overlap res then [Overlaps] else [])
      in rep\<lparr>er_applied := er_applied rep + (if br_success res then br_resolved_count res else 0),
           er_unchanged := er_unchanged rep + (if br_success res then length (pe_resolved p) - br_resolved_count res else 0),
           er_withheld := er_withheld rep + br_withheld_count res,
           er_failed := er_failed rep + br_failed_count res,
           er_overlap := er_overlap rep + (if br_overlap res then br_resolved_count res else 0),
           er_rejected := (if reasons = [] then er_rejected rep else insert path (er_rejected rep)),
           er_notes := er_notes rep @ map (\<lambda>r. (path, r)) reasons\<rparr>)"

fun apply_files ::
  "edit_setting \<Rightarrow> prepared_file list \<Rightarrow> edit_state \<Rightarrow> edit_report \<Rightarrow> (file_result list \<times> edit_state \<times> edit_report) option" where
  "apply_files es [] s rep = Some ([], s, rep)"
| "apply_files es (f # fs) s rep =
     (let b = pf_batch f; p = fb_absolute_path b
      in case apply_batch (eg_alnum es) (eg_dbg es) (fb_display_path b) (pf_prepared f) of
           None \<Rightarrow> None
         | Some (res, prepared) \<Rightarrow>
             let suspect = anchors_suspect prepared;
                 s1 = (if suspect then mark_must_reread (eg_outside es) p s else s);
                 rep1 = (if suspect then rep\<lparr>er_reread := insert p (er_reread rep)\<rparr> else rep);
                 content = final_text f res;
                 go = (\<lambda>t. map_option (\<lambda>(rs, rest). (\<lparr>fr_batch = b, fr_prepared = prepared, fr_result = res, fr_content = content,
                       fr_original = pf_content f, fr_mtime = pf_mtime f, fr_transition = t\<rparr> # rs, rest))
                     (apply_files es fs s1 (count_result b prepared res rep1)))
             in if \<not> br_success res then go None
                else (case stage_transition (eg_sha es) (eg_fresh es p) (pf_snapshot f) content (pe_provenance prepared) of
                        None \<Rightarrow> None
                      | Some (Inl e) \<Rightarrow> apply_files es fs s1 (reject_batch b (NotStaged e) rep1)
                      | Some (Inr t) \<Rightarrow> go (Some t)))"

definition writes_file :: "file_result \<Rightarrow> bool" where
  "writes_file r \<longleftrightarrow> br_success (fr_result r) \<and> 0 < br_resolved_count (fr_result r)"

definition item_of :: "file_result \<Rightarrow> write_item" where
  "item_of r =
     \<lparr>wi_path = fb_absolute_path (fr_batch r), wi_final = fr_content r, wi_original = fr_original r, wi_mtime = fr_mtime r\<rparr>"

definition items_of :: "file_result list \<Rightarrow> write_item list" where
  "items_of rs = map item_of (filter writes_file rs)"

definition transitions_of :: "file_result list \<Rightarrow> anchor_transition list" where
  "transitions_of rs = List.map_filter fr_transition rs"

section \<open>Writing and publishing\<close>

definition mark_all :: "outside \<Rightarrow> ustr list \<Rightarrow> edit_state \<Rightarrow> edit_state" where
  "mark_all ox ps s = fold (mark_must_reread ox) ps s"

text \<open>A rolled back file is remembered under its path.\<close>

definition remember_restored :: "outside \<Rightarrow> edit_world \<Rightarrow> write_item list \<Rightarrow> ustr list \<Rightarrow> edit_state \<Rightarrow> edit_state" where
  "remember_restored ox w items restored s =
     fold (\<lambda>p s. case item_map wi_original items p of Some c \<Rightarrow> remember_content ox w p p c s | None \<Rightarrow> s) restored s"

text \<open>The transitions are checked against the store before the first write; then the files are written, or restored.\<close>

definition write_results ::
  "edit_setting \<Rightarrow> file_result list \<Rightarrow> edit_world \<Rightarrow> edit_state \<Rightarrow> disk \<Rightarrow> anchor_storage \<Rightarrow> edit_report
     \<Rightarrow> edit_world \<times> edit_state \<times> disk \<times> anchor_storage \<times> edit_report" where
  "write_results es rs w s dk st rep =
     (let ox = eg_outside es; items = items_of rs; paths = map wi_path items
      in if items = [] then (w, s, dk, st, rep)
         else
           let (checked, dk1, st1) =
                 validate_transitions_checked (eg_sha es) (eg_order es) (eg_io es) (eg_arrange es (transitions_of rs)) dk st;
               storage = (case checked of Inl (Persistence _) \<Rightarrow> paths | _ \<Rightarrow> []);
               s1 = mark_all ox storage s;
               rep1 = rep\<lparr>er_storage_failed := er_storage_failed rep \<union> set storage\<rparr>;
               (abort, failed, restored, w1) =
                 (case checked of Inl e \<Rightarrow> (Some (AbortTransitions e), [], [], w) | Inr _ \<Rightarrow> write_or_restore ox items w)
           in case abort of
                None \<Rightarrow> (w1, s1, dk1, st1, rep1)
              | Some a \<Rightarrow>
                  let rereads = (case abort_reread a of Some p \<Rightarrow> [p] | None \<Rightarrow> []);
                      s2 = mark_all ox failed (remember_restored ox w1 items restored (mark_all ox rereads s1))
                  in (w1, s2, dk1, st1,
                      rep1\<lparr>er_write_failed := True, er_rejected := er_rejected rep1 \<union> set paths,
                           er_reread := er_reread rep1 \<union> set rereads \<union> set failed\<rparr>))"

definition successful :: "file_result list \<Rightarrow> file_result list" where
  "successful rs = filter (\<lambda>r. br_success (fr_result r)) rs"

definition path_of :: "file_result \<Rightarrow> ustr" where
  "path_of r = fb_absolute_path (fr_batch r)"

text \<open>Publication, when the writes have not failed. A failed one withholds the anchors of all files.\<close>

definition publish_results ::
  "edit_setting \<Rightarrow> file_result list \<Rightarrow> edit_state \<Rightarrow> disk \<Rightarrow> anchor_storage \<Rightarrow> edit_report
     \<Rightarrow> edit_state \<times> disk \<times> anchor_storage \<times> edit_report" where
  "publish_results es rs s dk st rep =
     (if er_write_failed rep then (s, dk, st, rep)
      else case commit_transitions_checked (eg_sha es) (eg_order es) (eg_io es) (eg_arrange es (transitions_of rs)) dk st of
             (Inr _, dk1, st1) \<Rightarrow> (s, dk1, st1, rep)
           | (Inl e, dk1, st1) \<Rightarrow>
               (let ps = map path_of (successful rs)
                in (mark_all (eg_outside es) ps s, dk1,
                    fold (\<lambda>p st. invalidate_state (eg_sha es) (eg_io es) p (eg_task es) dk1 st) ps st1,
                    rep\<lparr>er_rejected := er_rejected rep \<union> set ps, er_reread := er_reread rep \<union> set ps,
                        er_publication := er_publication rep @ map (\<lambda>r. (path_of r, writes_file r)) (successful rs),
                        er_notes := er_notes rep @ map (\<lambda>p. (p, NotPublished e)) ps\<rparr>)))"

text \<open>What the task remembers afterwards. The demand to read a file again is dropped for a batch of block edits.\<close>

definition remember_result :: "edit_setting \<Rightarrow> edit_world \<Rightarrow> edit_report \<Rightarrow> file_result \<Rightarrow> edit_state \<Rightarrow> edit_state" where
  "remember_result es w rep r s =
     (let ox = eg_outside es; p = path_of r; t = mark_file_as_edited_by_sned (world_now ox w) p (es_tracker s);
          published = (p \<notin> fst ` set (er_publication rep))
      in if \<not> writes_file r \<or> er_write_failed rep then s
         else s\<lparr>es_tracker := t,
              es_cache := (if published then insert_file_content (file_key ox p) (fr_content r) (es_cache s) else es_cache s)\<rparr>)"

definition drop_demand :: "edit_setting \<Rightarrow> edit_report \<Rightarrow> file_result \<Rightarrow> edit_state \<Rightarrow> edit_state" where
  "drop_demand es rep r s =
     (let p = path_of r; key = file_key (eg_outside es) p
      in if \<not> writes_file r \<or> er_write_failed rep then s
         else count_change p (br_lines_added (fr_result r)) (br_lines_removed (fr_result r))
           (if is_pure_block (fr_batch r) then s\<lparr>es_must_reread := es_must_reread s - {key}\<rparr> else s))"

definition uncount_failed :: "file_result list \<Rightarrow> edit_report \<Rightarrow> edit_report" where
  "uncount_failed rs rep =
     (let n = sum_list (map (\<lambda>r. br_resolved_count (fr_result r)) (filter writes_file rs))
      in if er_write_failed rep then rep\<lparr>er_applied := er_applied rep - n, er_failed := er_failed rep + n\<rparr> else rep)"

definition remember_results :: "edit_setting \<Rightarrow> edit_world \<Rightarrow> edit_report \<Rightarrow> file_result list \<Rightarrow> edit_state \<Rightarrow> edit_state" where
  "remember_results es w rep rs s =
     fold (forget_reads (eg_outside es)) (map wi_path (items_of rs))
       (fold (drop_demand es rep) rs (fold (remember_result es w rep) rs s))"

section \<open>The call\<close>

datatype edit_consent = Consent | ConsentDenied | ConsentFailed

datatype edit_verdict =
    EditDone
  | EditDenied
  | EditUndecided
  | EditStorageFailure "ustr set"
  | EditUnpublished "ustr set" "(ustr \<times> bool) list"
  | EditNeedsReread "ustr set"
  | EditRangeInsufficient "ustr set"
  | EditFailed

definition verdict_of :: "edit_report \<Rightarrow> edit_verdict" where
  "verdict_of rep =
     (if er_rejected rep = {} \<and> \<not> er_write_failed rep \<and> er_failed rep = 0 \<and> er_overlap rep = 0 then EditDone
      else if er_storage_failed rep \<noteq> {} \<and> er_publication rep = [] then EditStorageFailure (er_storage_failed rep)
      else if er_reread rep \<noteq> {}
      then (if er_publication rep \<noteq> [] then EditUnpublished (er_reread rep) (er_publication rep) else EditNeedsReread (er_reread rep))
      else if er_range_insufficient rep \<noteq> {} then EditRangeInsufficient (er_range_insufficient rep)
      else EditFailed)"

text \<open>The batches come from the entries that could be read; \<open>rep\<close> is the report on the others. \<open>ask\<close> is the approval of the
  prepared batches.\<close>

definition execute_edit ::
  "edit_setting \<Rightarrow> (prepared_file list \<Rightarrow> edit_consent) \<Rightarrow> file_edit_batch list \<Rightarrow> edit_report
     \<Rightarrow> edit_world \<Rightarrow> edit_state \<Rightarrow> disk \<Rightarrow> anchor_storage
     \<Rightarrow> (edit_verdict \<times> edit_report \<times> file_result list \<times> edit_world \<times> edit_state \<times> disk \<times> anchor_storage) option" where
  "execute_edit es ask batches rep w s dk st =
     (case prepare_files es batches w s dk st rep of
        None \<Rightarrow> None
      | Some (fs, w1, s1, st1, rep1) \<Rightarrow>
          (case (if fs = [] then Consent else ask fs) of
             ConsentDenied \<Rightarrow> Some (EditDenied, rep1, [], w1, s1, dk, st1)
           | ConsentFailed \<Rightarrow> Some (EditUndecided, rep1, [], w1, s1, dk, st1)
           | Consent \<Rightarrow>
               (case apply_files es fs s1 rep1 of
                  None \<Rightarrow> None
                | Some (rs, s2, rep2) \<Rightarrow>
                    let (w3, s3, dk3, st3, rep3) = write_results es rs w1 s2 dk st1 rep2;
                        (s4, dk4, st4, rep4) = publish_results es rs s3 dk3 st3 rep3;
                        rep5 = uncount_failed rs rep4
                    in Some (verdict_of rep5, rep5, rs, w3, remember_results es w3 rep5 rs s4, dk4, st4))))"

section \<open>What is known of prepared files and results\<close>

definition prepared_ok :: "edit_setting \<Rightarrow> prepared_file \<Rightarrow> bool" where
  "prepared_ok es f \<longleftrightarrow>
     (let snap = pf_snapshot f; text = fst (normalize_file_content (pf_content f))
      in length (sn_anchors snap) = length (sn_lines snap) \<and> length (td_anchors (sn_document snap)) = length (sn_lines snap)
         \<and> sn_lines snap = split_content_lines text
         \<and> target_of_snapshot snap = (eg_task es, fb_absolute_path (pf_batch f))
         \<and> sn_raw_digest snap = content_digest (eg_sha es) (pf_content f)
         \<and> prepare_edits (eg_dbg es) text (fb_edits (pf_batch f)) (sn_anchors snap) = Some (Inr (pf_prepared f)))"

lemma prepare_edits_total:
  assumes "length hashes = length (split_content_lines content)"
  shows "prepare_edits dbg content edits hashes \<noteq> None"
proof -
  obtain rs fs where "resolve_edits dbg edits (split_content_lines content) hashes = Some (rs, fs)"
    using batch_resolution_total[OF assms] by blast
  then show ?thesis by (auto simp: prepare_edits_def Let_def split: if_splits)
qed

lemma observed_lines:
  assumes "observe_snapshot sha fresh io path content task_id dk st = (Inr snap, st')"
  shows "sn_lines snap = split_content_lines (fst (normalize_file_content content))"
  using assms
  by (auto simp: observe_snapshot_def observe_content_def snapshot_of_def Let_def split: prod.splits sum.splits if_splits)

lemma prepare_text_total: "prepare_text es b must_reread raw mtime s dk st \<noteq> None"
proof -
  obtain q st1 where o: "observe_snapshot (eg_sha es) (eg_fresh es (fb_absolute_path b)) (eg_io es) (fb_absolute_path b) raw (eg_task es) dk st = (q, st1)"
    by fastforce
  show ?thesis
  proof (cases q)
    case (Inl e)
    then show ?thesis using o by (cases e) (auto simp: prepare_text_def Let_def)
  next
    case (Inr snap)
    have "prepare_edits (eg_dbg es) (fst (normalize_file_content raw)) (fb_edits b) (sn_anchors snap) \<noteq> None"
      using prepare_edits_total observed_snapshot(1)[OF o[unfolded Inr]] observed_lines[OF o[unfolded Inr]] by simp
    then show ?thesis using o Inr by (auto simp: prepare_text_def Let_def split: sum.splits)
  qed
qed

lemma prepare_text_ok:
  assumes "prepare_text es b must_reread raw mtime s dk st = Some (Inr f, s', st')"
  shows "prepared_ok es f \<and> pf_batch f = b \<and> pf_content f = raw \<and> s' = s \<and> (must_reread \<longrightarrow> is_pure_block b)"
proof -
  obtain q st1 where o: "observe_snapshot (eg_sha es) (eg_fresh es (fb_absolute_path b)) (eg_io es) (fb_absolute_path b) raw (eg_task es) dk st = (q, st1)"
    by fastforce
  show ?thesis
  proof (cases q)
    case (Inl e)
    then show ?thesis using assms o by (cases e) (auto simp: prepare_text_def Let_def)
  next
    case (Inr snap)
    note ob = observed_snapshot[OF o[unfolded Inr]] observed_lines[OF o[unfolded Inr]]
    from assms o Inr have "\<exists>prepared. prepare_edits (eg_dbg es) (fst (normalize_file_content raw)) (fb_edits b) (sn_anchors snap) = Some (Inr prepared)
        \<and> f = \<lparr>pf_batch = b, pf_prepared = prepared, pf_content = raw, pf_snapshot = snap, pf_mtime = mtime\<rparr> \<and> s' = s
        \<and> (must_reread \<longrightarrow> is_pure_block b)"
      by (auto simp: prepare_text_def Let_def split: option.splits sum.splits if_splits)
    then show ?thesis using ob by (auto simp: prepared_ok_def Let_def)
  qed
qed

lemma prepare_file_total: "prepare_file es b w s dk st \<noteq> None"
  using prepare_text_total by (simp add: prepare_file_def Let_def case_prod_unfold split: option.splits prod.splits)

lemma prepare_file_ok:
  assumes "prepare_file es b w s dk st = Some (Inr f, w', s', st')"
  shows "prepared_ok es f \<and> pf_batch f = b"
  using assms prepare_text_ok
  by (auto simp: prepare_file_def Let_def case_prod_unfold split: option.splits prod.splits if_splits)

lemma prepare_file_cases:
  obtains (rejected) r w1 s1 st1 where "prepare_file es b w s dk st = Some (Inl r, w1, s1, st1)"
  | (ready) f w1 s1 st1 where "prepare_file es b w s dk st = Some (Inr f, w1, s1, st1)" "prepared_ok es f" "pf_batch f = b"
proof -
  obtain q w1 s1 st1 where p: "prepare_file es b w s dk st = Some (q, w1, s1, st1)"
    using prepare_file_total[of es b w s dk st] by auto
  show thesis
  proof (cases q)
    case (Inl r)
    then show thesis using p by (intro rejected) simp
  next
    case (Inr f)
    note ok = prepare_file_ok[OF p[unfolded Inr]]
    show thesis by (rule ready[OF p[unfolded Inr] conjunct1[OF ok] conjunct2[OF ok]])
  qed
qed

lemma prepare_files_result:
  obtains fs w' s' st' rep' where "prepare_files es bs w s dk st rep = Some (fs, w', s', st', rep')" "list_all (prepared_ok es) fs"
proof (induction bs arbitrary: w s st rep thesis)
  case (Cons b bs)
  show ?case
  proof (rule prepare_file_cases[of es b w s dk st])
    fix r w1 s1 st1
    assume p: "prepare_file es b w s dk st = Some (Inl r, w1, s1, st1)"
    show thesis by (rule Cons.IH[of w1 s1 st1 "reject_batch b r rep"], rule Cons.prems) (simp_all add: p)
  next
    fix f w1 s1 st1
    assume p: "prepare_file es b w s dk st = Some (Inr f, w1, s1, st1)" "prepared_ok es f"
    show thesis
    proof (rule Cons.IH[of w1 s1 st1 rep])
      fix fs w' s' st' rep'
      assume r: "prepare_files es bs w1 s1 dk st1 rep = Some (fs, w', s', st', rep')" "list_all (prepared_ok es) fs"
      show thesis by (rule Cons.prems[of "f # fs" w' s' st' rep']) (simp_all add: p r)
    qed
  qed
qed simp

lemma prepared_apply_total:
  assumes "prepared_ok es f"
  shows "apply_batch alnum dbg display (pf_prepared f) \<noteq> None"
proof -
  let ?text = "fst (normalize_file_content (pf_content f))" and ?snap = "pf_snapshot f"
  have p: "prepare_edits (eg_dbg es) ?text (fb_edits (pf_batch f)) (sn_anchors ?snap) = Some (Inr (pf_prepared f))"
    and l: "length (sn_anchors ?snap) = length (split_content_lines ?text)" using assms by (simp_all add: prepared_ok_def Let_def)
  obtain outcome prov where "apply_edits_with_provenance alnum dbg (pe_lines (pf_prepared f)) (pe_resolved (pf_prepared f)) = Some (outcome, prov)"
    using apply_edits_total[OF prepared_in_bounds[OF p l]] by fastforce
  then show ?thesis by (cases outcome) (auto simp: apply_batch_def Let_def)
qed

lemma stage_prepared_total:
  assumes "prepared_ok es f"
  shows "stage_transition sha fresh (pf_snapshot f) content prov \<noteq> None"
  using assms by (intro stage_transition_no_panic) (simp add: prepared_ok_def Let_def)

lemma apply_files_total:
  "list_all (prepared_ok es) fs \<Longrightarrow> apply_files es fs s rep \<noteq> None"
proof (induction fs arbitrary: s rep)
  case (Cons f fs)
  have ok: "prepared_ok es f" and IH: "\<And>s rep. apply_files es fs s rep \<noteq> None" using Cons by simp_all
  obtain res p where a: "apply_batch (eg_alnum es) (eg_dbg es) (fb_display_path (pf_batch f)) (pf_prepared f) = Some (res, p)"
    using prepared_apply_total[OF ok] by fastforce
  have map: "map_option g (apply_files es fs s' rep') \<noteq> None" for g :: "_ \<Rightarrow> file_result list \<times> edit_state \<times> edit_report" and s' rep'
    using IH by simp
  obtain x where x: "stage_transition (eg_sha es) (eg_fresh es (fb_absolute_path (pf_batch f))) (pf_snapshot f) (final_text f res) (pe_provenance p) = Some x"
    using stage_prepared_total[OF ok] by blast
  show ?case
  proof (cases "br_success res")
    case True
    show ?thesis
    proof (cases x)
      case (Inl e)
      show ?thesis unfolding apply_files.simps Let_def a option.case prod.case using True x Inl IH by simp
    next
      case (Inr t)
      show ?thesis unfolding apply_files.simps Let_def a option.case prod.case using True x Inr map by simp
    qed
  next
    case False
    show ?thesis unfolding apply_files.simps Let_def a option.case prod.case using False map by simp
  qed
qed simp

text \<open>C28. Whatever the files hold, whatever others do to them and whichever calls fail, a call of the edit tool comes to a verdict:
  nothing in it panics.\<close>

theorem edit_never_panics: "execute_edit es ask batches rep w s dk st \<noteq> None"
proof -
  obtain fs w1 s1 st1 rep1 where p: "prepare_files es batches w s dk st rep = Some (fs, w1, s1, st1, rep1)" "list_all (prepared_ok es) fs"
    by (rule prepare_files_result)
  obtain rs s2 rep2 where a: "apply_files es fs s1 rep1 = Some (rs, s2, rep2)"
    using apply_files_total[OF p(2), of s1 rep1] by auto
  show ?thesis
    unfolding execute_edit_def p(1) option.case prod.case a
    by (simp add: Let_def case_prod_unfold split: edit_consent.splits)
qed

section \<open>A call that is done\<close>

lemma quiet_stale: "quiet ox \<Longrightarrow> stale_warning ox p w t = (b, w', t') \<Longrightarrow> ew_nodes w' = ew_nodes w"
  using quiet_look(1)[of ox p "tick ox w"] quiet_look(2)[of ox w]
  by (auto simp: stale_warning_def Let_def split: prod.splits option.splits)

lemma quiet_read:
  assumes q: "quiet ox" and "read_file_text ox p w = (r, w')"
  shows "ew_nodes w' = ew_nodes w" and "r = Some (raw, m) \<Longrightarrow> bytes_at ox w p = Some (utf8 raw)"
proof -
  obtain meta w1 where l1: "look ox p w = (meta, w1)" by fastforce
  obtain current w2 where l2: "look ox p w1 = (current, w2)" by fastforce
  have e: "ew_nodes w1 = ew_nodes w" "ew_nodes w2 = ew_nodes w" using quiet_look(1)[OF q, of p w] quiet_look(1)[OF q, of p w1] l1 l2 by simp_all
  show "ew_nodes w' = ew_nodes w" using assms(2) l1 l2 e by (cases meta) (auto simp: read_file_text_def)
  show "bytes_at ox w p = Some (utf8 raw)" if r: "r = Some (raw, m)"
  proof -
    obtain node c where n: "meta = Some node" "current = Some c" "read_string (fn_bytes c) = Some raw"
      using assms(2) l1 l2 r by (cases meta; cases current) (auto simp: read_file_text_def)
    have "ew_nodes w (file_key ox p) = Some c" using quiet_look(5)[OF q, of p w1 c] l2 n(2) e(1) by simp
    then show ?thesis using n(3) by (auto simp: bytes_at_def read_string_def Let_def split: if_splits)
  qed
qed

lemma quiet_prepare_file:
  assumes q: "quiet (eg_outside es)" and p: "prepare_file es b w s dk st = Some (r, w', s', st')"
  shows "ew_nodes w' = ew_nodes w" and "r = Inr f \<Longrightarrow> bytes_at (eg_outside es) w (fb_absolute_path b) = Some (utf8 (pf_content f))"
proof -
  let ?p = "fb_absolute_path b" and ?ox = "eg_outside es"
  obtain meta w1 where l: "look ?ox ?p w = (meta, w1)" by fastforce
  obtain warn w2 t2 where sw: "stale_warning ?ox ?p w1 (es_tracker s) = (warn, w2, t2)" by (metis prod_cases3)
  obtain rt w4 where rd: "read_file_text ?ox ?p w2 = (rt, w4)" by fastforce
  have e: "ew_nodes w1 = ew_nodes w" "ew_nodes w2 = ew_nodes w" "ew_nodes w4 = ew_nodes w"
    using quiet_look(1)[OF q, of ?p w] quiet_stale[OF q sw] quiet_read(1)[OF q rd] l by simp_all
  have "w' = w1 \<or> w' = w2 \<or> w' = w4"
    using p l sw rd by (auto simp: prepare_file_def Let_def split: option.splits prod.splits if_splits)
  then show "ew_nodes w' = ew_nodes w" using e by auto
  have b: "bytes_at ?ox w2 = bytes_at ?ox w" by (simp add: bytes_at_def fun_eq_iff e)
  assume r: "r = Inr f"
  have "\<exists>raw m. rt = Some (raw, m) \<and> pf_content f = raw"
    using p l sw rd r prepare_text_ok
    by (fastforce simp: prepare_file_def Let_def split: option.splits prod.splits if_splits)
  then show "bytes_at ?ox w ?p = Some (utf8 (pf_content f))" using quiet_read(2)[OF q rd] b by auto
qed

lemma reject_rejected [simp]: "er_rejected (reject_batch b r rep) = insert (fb_absolute_path b) (er_rejected rep)"
  "er_failed (reject_batch b r rep) = er_failed rep + length (fb_edits b)"
  by (simp_all add: reject_batch_def Let_def)

text \<open>Preparation without a rejection: every batch is prepared on the text its file holds.\<close>

definition read_ok :: "edit_setting \<Rightarrow> edit_world \<Rightarrow> prepared_file \<Rightarrow> bool" where
  "read_ok es w f \<longleftrightarrow> prepared_ok es f \<and> bytes_at (eg_outside es) w (fb_absolute_path (pf_batch f)) = Some (utf8 (pf_content f))"

lemma prepare_files_clean:
  assumes "quiet (eg_outside es)" and "prepare_files es bs w s dk st rep = Some (fs, w', s', st', rep')"
  shows "ew_nodes w' = ew_nodes w \<and> er_rejected rep \<subseteq> er_rejected rep'
    \<and> (er_rejected rep' = {} \<longrightarrow> map pf_batch fs = bs \<and> list_all (read_ok es w) fs)"
  using assms(2)
proof (induction bs arbitrary: fs w s st rep)
  case (Cons b bs)
  show ?case
  proof (rule prepare_file_cases[of es b w s dk st])
    fix r w1 s1 st1
    assume p: "prepare_file es b w s dk st = Some (Inl r, w1, s1, st1)"
    have "prepare_files es bs w1 s1 dk st1 (reject_batch b r rep) = Some (fs, w', s', st', rep')" using Cons.prems p by simp
    from Cons.IH[OF this] show ?thesis using quiet_prepare_file(1)[OF assms(1) p] by auto
  next
    fix f w1 s1 st1
    assume p: "prepare_file es b w s dk st = Some (Inr f, w1, s1, st1)" "prepared_ok es f" "pf_batch f = b"
    obtain fs1 where r: "prepare_files es bs w1 s1 dk st1 rep = Some (fs1, w', s', st', rep')" "fs = f # fs1"
      using Cons.prems p by auto
    note n = quiet_prepare_file[OF assms(1) p(1)]
    have "bytes_at (eg_outside es) w1 = bytes_at (eg_outside es) w" using n(1) by (simp add: bytes_at_def fun_eq_iff)
    then have "read_ok es w1 = read_ok es w" by (simp add: read_ok_def fun_eq_iff)
    then show ?thesis using Cons.IH[OF r(1)] n p r(2) by (auto simp: read_ok_def)
  qed
qed auto

text \<open>The result of a prepared file: the pure one of the batch, its text and the transition staged for it.\<close>

definition result_of :: "edit_setting \<Rightarrow> prepared_file \<Rightarrow> file_result \<Rightarrow> bool" where
  "result_of es f r \<longleftrightarrow>
     fr_batch r = pf_batch f \<and> fr_original r = pf_content f \<and> fr_content r = final_text f (fr_result r)
     \<and> apply_batch (eg_alnum es) (eg_dbg es) (fb_display_path (pf_batch f)) (pf_prepared f) = Some (fr_result r, fr_prepared r)
     \<and> br_success (fr_result r)
     \<and> (\<exists>t. fr_transition r = Some t \<and> stage_transition (eg_sha es) (eg_fresh es (path_of r)) (pf_snapshot f) (fr_content r)
             (pe_provenance (fr_prepared r)) = Some (Inr t))"

lemma outcome_flags:
  assumes "apply_edits_with_provenance alnum dbg ls rs = Some (outcome, prov)"
  shows "outcome \<noteq> GluedAnchor [] \<and> outcome \<noteq> DuplicateInsertion []"
  using assms
  by (auto simp: apply_edits_with_provenance_def assembled_outcome_def Let_def split: option.splits prod.splits if_splits)

lemma failed_batch_flagged:
  assumes "apply_batch alnum dbg display p = Some (res, p')"
  shows "br_success res \<or> br_duplicate_insertions res \<noteq> [] \<or> br_glued_anchor_lines res \<noteq> [] \<or> br_overlap res"
  using assms outcome_flags
  by (fastforce simp: apply_batch_def Let_def rejected_result_def split: option.splits prod.splits apply_outcome.splits)

lemma count_rejected:
  "er_rejected rep \<subseteq> er_rejected (count_result b p res rep)"
  "br_duplicate_insertions res \<noteq> [] \<or> br_glued_anchor_lines res \<noteq> [] \<or> br_overlap res \<Longrightarrow> er_rejected (count_result b p res rep) \<noteq> {}"
  by (auto simp: count_result_def Let_def)

lemma apply_files_clean:
  "apply_files es fs s rep = Some (rs, s', rep') \<Longrightarrow>
   er_rejected rep \<subseteq> er_rejected rep' \<and> (er_rejected rep' = {} \<longrightarrow> list_all2 (result_of es) fs rs)"
proof (induction fs arbitrary: s rep rs)
  case (Cons f fs)
  let ?b = "pf_batch f"
  obtain res p where a: "apply_batch (eg_alnum es) (eg_dbg es) (fb_display_path ?b) (pf_prepared f) = Some (res, p)"
    using Cons.prems by (auto simp: Let_def split: option.splits)
  define s1 where "s1 = (if anchors_suspect p then mark_must_reread (eg_outside es) (fb_absolute_path ?b) s else s)"
  define rep1 where "rep1 = (if anchors_suspect p then rep\<lparr>er_reread := insert (fb_absolute_path ?b) (er_reread rep)\<rparr> else rep)"
  have rj: "er_rejected rep1 = er_rejected rep" by (simp add: rep1_def)
  note run = Cons.prems[unfolded apply_files.simps Let_def a option.case prod.case, folded s1_def rep1_def]
  show ?case
  proof (cases "br_success res")
    case False
    then have "er_rejected (count_result ?b p res rep1) \<noteq> {}" using failed_batch_flagged[OF a] count_rejected(2) by blast
    moreover obtain rs1 where "apply_files es fs s1 (count_result ?b p res rep1) = Some (rs1, s', rep')"
      using run False by auto
    ultimately show ?thesis using Cons.IH count_rejected(1)[of rep1 ?b p res] rj by blast
  next
    case True
    then obtain x where x: "stage_transition (eg_sha es) (eg_fresh es (fb_absolute_path ?b)) (pf_snapshot f) (final_text f res) (pe_provenance p) = Some x"
      using run by (auto split: option.splits)
    show ?thesis
    proof (cases x)
      case (Inl e)
      then have "apply_files es fs s1 (reject_batch ?b (NotStaged e) rep1) = Some (rs, s', rep')" using run True x by simp
      then show ?thesis using Cons.IH rj by fastforce
    next
      case (Inr t)
      then obtain rs1 r where r: "apply_files es fs s1 (count_result ?b p res rep1) = Some (rs1, s', rep')" "rs = r # rs1"
        "r = \<lparr>fr_batch = ?b, fr_prepared = p, fr_result = res, fr_content = final_text f res, fr_original = pf_content f, fr_mtime = pf_mtime f, fr_transition = Some t\<rparr>"
        using run True x by auto
      have "result_of es f r" using a x Inr True by (simp add: result_of_def r(3) path_of_def)
      then show ?thesis using Cons.IH[OF r(1)] r(2) count_rejected(1)[of rep1 ?b p res] rj by auto
    qed
  qed
qed auto

lemma write_results_clean:
  assumes "write_results es rs w s dk st rep = (w', s', dk', st', rep')" and "\<not> er_write_failed rep'"
  shows "er_rejected rep' = er_rejected rep
    \<and> (if items_of rs = [] then w' = w else write_or_restore (eg_outside es) (items_of rs) w = (None, [], [], w'))"
proof (cases "items_of rs = []")
  case True
  then show ?thesis using assms(1) by (simp add: write_results_def)
next
  case False
  obtain checked dk1 st1 where v: "validate_transitions_checked (eg_sha es) (eg_order es) (eg_io es) (eg_arrange es (transitions_of rs)) dk st = (checked, dk1, st1)"
    by (metis prod_cases3)
  note run = assms(1)[unfolded write_results_def Let_def if_not_P[OF False] v prod.case]
  show ?thesis
  proof (cases checked)
    case (Inl e)
    then have "er_write_failed rep'" using run by auto
    then show ?thesis using assms(2) by simp
  next
    case (Inr u)
    obtain a failed restored w1 where x: "write_or_restore (eg_outside es) (items_of rs) w = (a, failed, restored, w1)" by (metis prod_cases4)
    have "a = None \<Longrightarrow> failed = [] \<and> restored = []" using x by (auto simp: write_or_restore_def split: prod.splits option.splits)
    then show ?thesis using run assms(2) Inr x False by (cases a) auto
  qed
qed

lemma publish_results_clean:
  assumes "publish_results es rs s dk st rep = (s', dk', st', rep')" and "\<not> er_write_failed rep" and "er_rejected rep' = {}"
  shows "er_rejected rep = {} \<and> er_write_failed rep' = er_write_failed rep
    \<and> (successful rs = [] \<or> commit_transitions_checked (eg_sha es) (eg_order es) (eg_io es) (eg_arrange es (transitions_of rs)) dk st = (Inr (), dk', st'))"
proof -
  obtain q d t where c: "commit_transitions_checked (eg_sha es) (eg_order es) (eg_io es) (eg_arrange es (transitions_of rs)) dk st = (q, d, t)"
    by (metis prod_cases3)
  show ?thesis using assms c by (cases q) (auto simp: publish_results_def Let_def)
qed

lemma uncount_rejected [simp]: "er_rejected (uncount_failed rs rep) = er_rejected rep" "er_write_failed (uncount_failed rs rep) = er_write_failed rep"
  by (simp_all add: uncount_failed_def Let_def)

lemma verdict_done: "verdict_of rep = EditDone \<longleftrightarrow> er_rejected rep = {} \<and> \<not> er_write_failed rep \<and> er_failed rep = 0 \<and> er_overlap rep = 0"
  by (simp add: verdict_of_def)

text \<open>The steps of any call.\<close>

lemma call_steps:
  assumes "execute_edit es ask batches rep w s dk st = Some (v, rep', rs, w', s', dk', st')"
  obtains (refused) fs w1 s1 st1 rep1 where "prepare_files es batches w s dk st rep = Some (fs, w1, s1, st1, rep1)"
      "v = EditDenied \<or> v = EditUndecided" "rep' = rep1" "rs = []" "w' = w1" "s' = s1" "dk' = dk" "st' = st1"
  | (ran) fs w1 s1 st1 rep1 s2 rep2 s3 dk3 st3 rep3 s4 rep4
    where "prepare_files es batches w s dk st rep = Some (fs, w1, s1, st1, rep1)"
      "apply_files es fs s1 rep1 = Some (rs, s2, rep2)"
      "write_results es rs w1 s2 dk st1 rep2 = (w', s3, dk3, st3, rep3)"
      "publish_results es rs s3 dk3 st3 rep3 = (s4, dk', st', rep4)"
      "rep' = uncount_failed rs rep4" "v = verdict_of rep'" "s' = remember_results es w' rep' rs s4"
proof -
  obtain fs w1 s1 st1 rep1 where p: "prepare_files es batches w s dk st rep = Some (fs, w1, s1, st1, rep1)"
    by (rule prepare_files_result)
  note run = assms[unfolded execute_edit_def p option.case prod.case]
  show thesis
  proof (cases "if fs = [] then Consent else ask fs")
    case Consent
    note run = run[unfolded Consent edit_consent.case]
    obtain rs1 s2 rep2 where a: "apply_files es fs s1 rep1 = Some (rs1, s2, rep2)"
      using run by (cases "apply_files es fs s1 rep1") auto
    obtain w3 s3 dk3 st3 rep3 where wr: "write_results es rs1 w1 s2 dk st1 rep2 = (w3, s3, dk3, st3, rep3)" by (metis prod_cases5)
    obtain s4 dk4 st4 rep4 where pub: "publish_results es rs1 s3 dk3 st3 rep3 = (s4, dk4, st4, rep4)" by (metis prod_cases4)
    note run = run[unfolded a option.case prod.case wr pub Let_def]
    have e: "rs1 = rs" "w3 = w'" "dk4 = dk'" "st4 = st'" using run by auto
    show thesis
      by (rule ran[OF p a[unfolded e(1)] wr[unfolded e(1,2)] pub[unfolded e(1,3,4)]]) (use run in auto)
  next
    case ConsentDenied
    show thesis by (rule refused[OF p]) (use run ConsentDenied in auto)
  next
    case ConsentFailed
    show thesis by (rule refused[OF p]) (use run ConsentFailed in auto)
  qed
qed

text \<open>The steps of a call that is done.\<close>

lemma done_steps:
  assumes "execute_edit es ask batches rep w s dk st = Some (EditDone, rep', rs, w', s', dk', st')"
  obtains fs w1 s1 st1 rep1 s2 rep2 s3 dk3 st3 rep3 s4 rep4
  where "prepare_files es batches w s dk st rep = Some (fs, w1, s1, st1, rep1)"
    "apply_files es fs s1 rep1 = Some (rs, s2, rep2)"
    "write_results es rs w1 s2 dk st1 rep2 = (w', s3, dk3, st3, rep3)"
    "publish_results es rs s3 dk3 st3 rep3 = (s4, dk', st', rep4)"
    "er_rejected rep4 = {}" "\<not> er_write_failed rep4"
  using assms
proof (cases rule: call_steps)
  case (ran fs w1 s1 st1 rep1 s2 rep2 s3 dk3 st3 rep3 s4 rep4)
  have "verdict_of (uncount_failed rs rep4) = EditDone" using ran(5,6) by simp
  then show ?thesis using that[OF ran(1-4)] by (simp add: verdict_done)
qed simp

lemma publish_write_failed: "publish_results es rs s dk st rep = (s', dk', st', rep') \<Longrightarrow> er_write_failed rep' = er_write_failed rep"
  by (auto simp: publish_results_def Let_def split: if_splits prod.splits sum.splits)

text \<open>What the anchors say of the new content.\<close>

definition content_tracked :: "edit_setting \<Rightarrow> anchor_storage \<Rightarrow> file_result \<Rightarrow> bool" where
  "content_tracked es st r \<longleftrightarrow>
     eg_sha es (utf8 (fr_content r)) = eg_sha es (utf8 (fr_original r))
     \<or> (case document_in (as_tasks st) (eg_task es) (path_of r) of
          None \<Rightarrow> MAX_TRACKED_LINES < length (final_lines (fr_content r))
        | Some doc \<Rightarrow> td_hashes doc = compute_hashes (final_lines (fr_content r)))"

lemma committed_tracked:
  assumes c: "commit_transitions_checked (eg_sha es) order io ts dk st = (Inr (), dk', st')" and o: "\<And>ks. set (order ks) = set ks"
    and r: "result_of es f r" and ok: "prepared_ok es f" and t: "fr_transition r = Some t" "t \<in> set ts"
  shows "content_tracked es st' r" and "target t = (eg_task es, path_of r)"
proof -
  have s: "stage_transition (eg_sha es) (eg_fresh es (path_of r)) (pf_snapshot f) (fr_content r) (pe_provenance (fr_prepared r)) = Some (Inr t)"
    using r t(1) by (auto simp: result_of_def)
  have snap: "target_of_snapshot (pf_snapshot f) = (eg_task es, path_of r)" "sn_raw_digest (pf_snapshot f) = content_digest (eg_sha es) (fr_original r)"
    using ok r by (simp_all add: prepared_ok_def result_of_def path_of_def Let_def)
  note sf = staged_facts[OF s]
  show tg: "target t = (eg_task es, path_of r)" using sf snap by simp
  have h: "td_hashes (tr_document t) = compute_hashes (final_lines (fr_content r))"
    using committed_metadata[OF c t(2)] sf by (simp add: metadata_agrees_def)
  show "content_tracked es st' r"
  proof (cases "is_noop t")
    case True
    then show ?thesis using sf snap(2) by (simp add: content_digest_def content_tracked_def)
  next
    case False
    have "document_in (as_tasks st') (tr_task_id t) (tr_absolute_path t) = outcome_of t"
      using commit_outcomes[OF c o] False t(2) by (auto simp: list_all_iff)
    then have "document_in (as_tasks st') (eg_task es) (path_of r) = outcome_of t" using tg by (simp add: target_def)
    then show ?thesis using sf h by (simp add: content_tracked_def outcome_of_def)
  qed
qed
lemma result_pairs:
  assumes "list_all2 (result_of es) fs rs" and "list_all (read_ok es w) fs" and r: "r \<in> set rs"
  shows "\<exists>f. prepared_ok es f \<and> result_of es f r \<and> bytes_at (eg_outside es) w (path_of r) = Some (utf8 (fr_original r))"
proof -
  obtain i where i: "i < length rs" "rs ! i = r" using r by (auto simp: in_set_conv_nth)
  then have "result_of es (fs ! i) r" "read_ok es w (fs ! i)"
    using assms(1,2) by (auto simp: list_all2_conv_all_nth list_all_length)
  moreover from this have "fb_absolute_path (pf_batch (fs ! i)) = path_of r" "pf_content (fs ! i) = fr_original r"
    by (simp_all add: result_of_def path_of_def)
  ultimately show ?thesis by (intro exI[of _ "fs ! i"]) (simp add: read_ok_def)
qed

text \<open>A commit of the transitions of all results describes each new content, and names no file twice.\<close>

lemma results_committed:
  assumes res: "\<And>r. r \<in> set rs \<Longrightarrow> \<exists>f. prepared_ok es f \<and> result_of es f r"
    and o: "\<And>ks. set (order ks) = set ks" and arrange: "mset ts = mset (transitions_of rs)"
    and c: "commit_transitions_checked (eg_sha es) order io ts dk st = (Inr (), dk', st')"
  shows "(\<forall>r \<in> set rs. content_tracked es st' r) \<and> distinct (map path_of rs)"
proof -
  have some: "fr_transition r \<noteq> None" if "r \<in> set rs" for r using res[OF that] by (auto simp: result_of_def)
  have ts: "transitions_of rs = map (the \<circ> fr_transition) rs"
    using some by (simp add: transitions_of_def List.map_filter_def filter_id_conv)
  have sets: "set ts = set (transitions_of rs)" using arrange by (metis set_mset_mset)
  have one: "content_tracked es st' r \<and> target (the (fr_transition r)) = (eg_task es, path_of r)" if r: "r \<in> set rs" for r
  proof -
    obtain f where f: "prepared_ok es f" "result_of es f r" using res[OF r] by blast
    obtain t where t: "fr_transition r = Some t" using some[OF r] by blast
    have "t \<in> set ts" unfolding sets ts using r t by force
    from committed_tracked[OF c o f(2,1) t this] t show ?thesis by simp
  qed
  have "map target (transitions_of rs) = map (\<lambda>r. (eg_task es, path_of r)) rs" using ts one by simp
  moreover have "distinct (map target ts)" using commit_outcomes[OF c o] by blast
  moreover have "mset (map target ts) = mset (map target (transitions_of rs))" using arrange by (simp add: mset_map)
  ultimately have "distinct (map (\<lambda>r. (eg_task es, path_of r)) rs)" by (metis mset_eq_imp_distinct_iff)
  then show ?thesis using one by (simp add: distinct_map inj_on_def)
qed

lemma results_written:
  assumes "quiet (eg_outside es)" and d: "distinct (map (\<lambda>r. file_key (eg_outside es) (path_of r)) rs)"
    and wc: "if items_of rs = [] then w' = w else write_or_restore (eg_outside es) (items_of rs) w = (None, [], [], w')"
    and r: "r \<in> set rs" and b: "bytes_at (eg_outside es) w (path_of r) = Some (utf8 (fr_original r))"
  shows "bytes_at (eg_outside es) w' (path_of r) = Some (utf8 (if writes_file r then fr_content r else fr_original r))"
proof -
  have keys: "item_keys (eg_outside es) (items_of rs) = map (\<lambda>r. file_key (eg_outside es) (path_of r)) (filter writes_file rs)"
    by (simp add: item_keys_def items_of_def item_of_def path_of_def)
  have di: "distinct (item_keys (eg_outside es) (items_of rs))" unfolding keys using d by (simp add: distinct_map_filter)
  show ?thesis
  proof (cases "items_of rs = []")
    case True
    then show ?thesis using wc r b by (auto simp: items_of_def filter_empty_conv)
  next
    case False
    then have x: "write_or_restore (eg_outside es) (items_of rs) w = (None, [], [], w')" using wc by simp
    note all = all_or_nothing[OF assms(1) di x]
    show ?thesis
    proof (cases "writes_file r")
      case True
      then have "item_of r \<in> set (items_of rs)" using r by (simp add: items_of_def)
      then show ?thesis using all True by (auto simp: item_of_def path_of_def)
    next
      case False
      then have "file_key (eg_outside es) (path_of r) \<notin> set (item_keys (eg_outside es) (items_of rs))"
        unfolding keys using d r by (auto simp: distinct_map inj_on_def)
      then show ?thesis using all b False by (simp add: bytes_at_def)
    qed
  qed
qed

lemma others_untouched:
  assumes "quiet (eg_outside es)" and d: "distinct (map (\<lambda>r. file_key (eg_outside es) (path_of r)) rs)"
    and wc: "if items_of rs = [] then w' = w else write_or_restore (eg_outside es) (items_of rs) w = (None, [], [], w')"
    and l: "l \<notin> (\<lambda>r. file_key (eg_outside es) (path_of r)) ` set rs"
  shows "ew_nodes w' l = ew_nodes w l"
proof (cases "items_of rs = []")
  case False
  have keys: "item_keys (eg_outside es) (items_of rs) = map (\<lambda>r. file_key (eg_outside es) (path_of r)) (filter writes_file rs)"
    by (simp add: item_keys_def items_of_def item_of_def path_of_def)
  have di: "distinct (item_keys (eg_outside es) (items_of rs))" unfolding keys using d by (simp add: distinct_map_filter)
  have x: "write_or_restore (eg_outside es) (items_of rs) w = (None, [], [], w')" using wc False by simp
  have "l \<notin> set (item_keys (eg_outside es) (items_of rs))" unfolding keys using l by auto
  then show ?thesis using all_or_nothing[OF assms(1) di x] by blast
qed (use wc in simp)


section \<open>Concrete calls\<close>

definition one_setting :: "(nat \<Rightarrow> bool) \<Rightarrow> io \<Rightarrow> edit_setting" where
  "one_setting fails io' =
     \<lparr>eg_outside = still_outside fails, eg_sha = no_sha, eg_order = all_order, eg_arrange = (\<lambda>ts. ts), eg_alnum = (\<lambda>_. True),
      eg_dbg = (\<lambda>s. s), eg_fresh = (\<lambda>_. str ''q''), eg_io = io', eg_task = [116], eg_max_size = 1000\<rparr>"

definition one_batch :: file_edit_batch where
  "one_batch = \<lparr>fb_absolute_path = str ''/f'', fb_display_path = str ''f'', fb_edits = [Edit_block (str ''b'') (str ''c'')]\<rparr>"

definition one_file :: edit_world where
  "one_file = \<lparr>ew_nodes = [str ''/f'' \<mapsto> \<lparr>fn_bytes = utf8 (join [nl] [[97], [98]]), fn_mtime = Some 0\<rparr>], ew_calls = 0, ew_writes = []\<rparr>"

definition fresh_state :: edit_state where
  "fresh_state =
     \<lparr>es_must_reread = {}, es_cache = [], es_tracker = new_tracker None, es_consecutive_reads = {}, es_last_read_turn = {},
      es_recent_windows = {}, es_snapshots = {}, es_coverage = {}, es_pending = [], es_changes = (\<lambda>_. None)\<rparr>"

definition other_batch :: file_edit_batch where
  "other_batch = \<lparr>fb_absolute_path = str ''/h'', fb_display_path = str ''h'', fb_edits = [Edit_block (str ''b'') (str ''b'')]\<rparr>"

definition both_files :: edit_world where
  "both_files = one_file\<lparr>ew_nodes := (ew_nodes one_file)(str ''/h'' \<mapsto> \<lparr>fn_bytes = utf8 (join [nl] [[97], [98]]), fn_mtime = Some 0\<rparr>)\<rparr>"


section \<open>A call that fails\<close>

text \<open>What the anchors of a task in memory lose: nothing.\<close>

definition keeps_documents :: "anchor_storage \<Rightarrow> anchor_storage \<Rightarrow> bool" where
  "keeps_documents st st' \<longleftrightarrow> (\<forall>t docs. im_get (as_tasks st) t = Some docs \<longrightarrow> im_get (as_tasks st') t = Some docs)"

lemma keeps_documents_trans: "keeps_documents st st1 \<Longrightarrow> keeps_documents st1 st2 \<Longrightarrow> keeps_documents st st2"
  by (simp add: keeps_documents_def)

lemma keeps_documents_refl [simp]: "keeps_documents st st"
  by (simp add: keeps_documents_def)

lemma prepare_file_keeps:
  assumes "prepare_file es b w s dk st = Some (r, w', s', st')"
  shows "keeps_documents st st'"
proof -
  have prepared: "keeps_documents st st5" if "prepare_text es b m raw mtime s5 dk st = Some (r', s6, st5)" for m raw mtime s5 r' s6 st5
  proof -
    obtain q st1 where o: "observe_snapshot (eg_sha es) (eg_fresh es (fb_absolute_path b)) (eg_io es) (fb_absolute_path b) raw (eg_task es) dk st = (q, st1)"
      by fastforce
    have "st5 = st1" using that o
      by (auto simp: prepare_text_def Let_def split: sum.splits anchor_transition_error.splits option.splits if_splits)
    then show ?thesis using observe_frame[OF o] by (simp add: keeps_documents_def)
  qed
  show ?thesis
    using assms by (auto simp: prepare_file_def Let_def intro: prepared split: option.splits prod.splits if_splits)
qed

lemma prepare_files_keeps:
  "prepare_files es bs w s dk st rep = Some (fs, w', s', st', rep') \<Longrightarrow>
   keeps_documents st st' \<and> er_write_failed rep' = er_write_failed rep \<and> er_publication rep' = er_publication rep"
proof (induction bs arbitrary: fs w s st rep)
  case (Cons b bs)
  show ?case
  proof (rule prepare_file_cases[of es b w s dk st])
    fix r w1 s1 st1
    assume p: "prepare_file es b w s dk st = Some (Inl r, w1, s1, st1)"
    have "prepare_files es bs w1 s1 dk st1 (reject_batch b r rep) = Some (fs, w', s', st', rep')" using Cons.prems p by simp
    from Cons.IH[OF this] show ?thesis
      using keeps_documents_trans[OF prepare_file_keeps[OF p]] by (simp add: reject_batch_def Let_def)
  next
    fix f w1 s1 st1
    assume p: "prepare_file es b w s dk st = Some (Inr f, w1, s1, st1)"
    obtain fs1 where r: "prepare_files es bs w1 s1 dk st1 rep = Some (fs1, w', s', st', rep')" using Cons.prems p by auto
    from Cons.IH[OF this] show ?thesis using keeps_documents_trans[OF prepare_file_keeps[OF p]] by simp
  qed
qed simp

lemma apply_files_report:
  "apply_files es fs s rep = Some (rs, s', rep') \<Longrightarrow>
   er_write_failed rep' = er_write_failed rep \<and> er_publication rep' = er_publication rep"
proof (induction fs arbitrary: s rep rs)
  case (Cons f fs)
  then show ?case
    by (fastforce simp: Let_def reject_batch_def count_result_def split: option.splits sum.splits prod.splits if_splits)
qed simp

lemma validate_keeps:
  assumes "validate_transitions_checked sha order io ts dk st = (r, dk', st')"
  shows "dk' = dk \<and> keeps_documents st st'"
  using assms load_durable_keeps
  by (fastforce simp: validate_transitions_checked_def check_transitions_def keeps_documents_def
      split: if_splits prod.splits sum.splits option.splits)

lemma write_results_keeps:
  assumes "write_results es rs w s dk st rep = (w', s', dk', st', rep')"
  shows "dk' = dk \<and> keeps_documents st st' \<and> er_publication rep' = er_publication rep"
proof (cases "items_of rs = []")
  case True
  then show ?thesis using assms by (simp add: write_results_def)
next
  case False
  obtain checked dk1 st1 where v: "validate_transitions_checked (eg_sha es) (eg_order es) (eg_io es) (eg_arrange es (transitions_of rs)) dk st = (checked, dk1, st1)"
    by (metis prod_cases3)
  have "dk' = dk1 \<and> st' = st1 \<and> er_publication rep' = er_publication rep"
    using assms[unfolded write_results_def Let_def if_not_P[OF False] v prod.case] by (auto split: prod.splits option.splits)
  then show ?thesis using validate_keeps[OF v] by simp
qed

text \<open>A call whose writes failed publishes nothing: it does not report that it is done, no file of the anchor cache has
  changed, and every document in memory is still there.\<close>

theorem failed_write_publishes_nothing:
  assumes "execute_edit es ask batches empty_report w s dk st = Some (v, rep, rs, w', s', dk', st')" and "er_write_failed rep"
  shows "v \<noteq> EditDone \<and> dk' = dk \<and> keeps_documents st st'"
  using assms(1)
proof (cases rule: call_steps)
  case (refused fs w1 s1 st1 rep1)
  then show ?thesis using prepare_files_keeps assms(2) by (auto simp: empty_report_def)
next
  case (ran fs w1 s1 st1 rep1 s2 rep2 s3 dk3 st3 rep3 s4 rep4)
  have f: "er_write_failed rep3" using assms(2) publish_write_failed[OF ran(4)] ran(5) by simp
  then have e: "dk' = dk3" "st' = st3" using ran(4) by (simp_all add: publish_results_def)
  have "keeps_documents st st'"
    unfolding e using keeps_documents_trans prepare_files_keeps[OF ran(1)] write_results_keeps[OF ran(3)] by blast
  then show ?thesis using write_results_keeps[OF ran(3)] e assms(2) ran(6) by (simp add: verdict_of_def)
qed

lemma failed_write_publishes_nothing_witness:
  "case execute_edit (one_setting (\<lambda>n. n = 8) sound_io) (\<lambda>_. Consent) [one_batch] empty_report one_file fresh_state empty_disk empty_storage of
     None \<Rightarrow> False
   | Some (v, rep, rs, w', s', dk', st') \<Rightarrow> er_write_failed rep \<and> v \<noteq> EditDone \<and> dk' = empty_disk"
proof -
  let ?x = "execute_edit (one_setting (\<lambda>n. n = 8) sound_io) (\<lambda>_. Consent) [one_batch] empty_report one_file fresh_state empty_disk empty_storage"
  have "case ?x of None \<Rightarrow> False | Some (v, rep, rs, w', s', dk', st') \<Rightarrow> er_write_failed rep" by code_simp
  then obtain v rep rs w' s' dk' st' where x: "?x = Some (v, rep, rs, w', s', dk', st')" and f: "er_write_failed rep"
    by (auto split: option.splits)
  show ?thesis using failed_write_publishes_nothing[OF x f] f unfolding x by simp
qed

section \<open>The demand to read again\<close>

lemma mark_demand [simp]: "es_must_reread (mark_must_reread ox p s) = insert (file_key ox p) (es_must_reread s)"
  by (simp add: mark_must_reread_def Let_def)

lemma mark_all_demand: "es_must_reread (mark_all ox ps s) = file_key ox ` set ps \<union> es_must_reread s"
  unfolding mark_all_def by (induction ps arbitrary: s) auto

lemma keep_demand [simp]: "es_must_reread (remember_result es w rep r s) = es_must_reread s" "es_must_reread (forget_reads ox p s) = es_must_reread s"
  "es_must_reread (count_change p a b s) = es_must_reread s"
  by (simp_all add: remember_result_def forget_reads_def count_change_def Let_def split: prod.splits)

text \<open>The results that drop the demand of their file.\<close>

definition drops_demand :: "edit_report \<Rightarrow> file_result \<Rightarrow> bool" where
  "drops_demand rep r \<longleftrightarrow> writes_file r \<and> \<not> er_write_failed rep \<and> is_pure_block (fr_batch r)"

lemma drop_demand_set:
  "es_must_reread (drop_demand es rep r s) = es_must_reread s - (if drops_demand rep r then {file_key (eg_outside es) (path_of r)} else {})"
  by (simp add: drop_demand_def drops_demand_def Let_def)

lemma remember_demand:
  "es_must_reread (remember_results es w rep rs s) = es_must_reread s - {file_key (eg_outside es) (path_of r) | r. r \<in> set rs \<and> drops_demand rep r}"
proof -
  have "es_must_reread (fold (forget_reads (eg_outside es)) ps t) = es_must_reread t" for ps t by (induction ps arbitrary: t) simp_all
  moreover have "es_must_reread (fold (drop_demand es rep) rs t)
      = es_must_reread t - {file_key (eg_outside es) (path_of r) | r. r \<in> set rs \<and> drops_demand rep r}" for t
    by (induction rs arbitrary: t) (auto simp: drop_demand_set)
  moreover have "es_must_reread (fold (remember_result es w rep) rs t) = es_must_reread t" for t by (induction rs arbitrary: t) simp_all
  ultimately show ?thesis by (simp add: remember_results_def)
qed

lemma publish_failed:
  assumes "publish_results es rs s dk st rep = (s', dk', st', rep')" and "er_publication rep = []" and "er_publication rep' \<noteq> []"
  shows "\<not> er_write_failed rep \<and> er_publication rep' = map (\<lambda>r. (path_of r, writes_file r)) (successful rs)
    \<and> path_of ` set (successful rs) \<subseteq> er_reread rep'
    \<and> path_of ` set (successful rs) \<subseteq> er_rejected rep' \<and> s' = mark_all (eg_outside es) (map path_of (successful rs)) s"
proof -
  obtain q d t where c: "commit_transitions_checked (eg_sha es) (eg_order es) (eg_io es) (eg_arrange es (transitions_of rs)) dk st = (q, d, t)"
    by (metis prod_cases3)
  have wf: "\<not> er_write_failed rep" using assms by (auto simp: publish_results_def)
  note run = assms(1)[unfolded publish_results_def if_not_P[OF wf] c Let_def]
  show ?thesis
  proof (cases q)
    case (Inl e)
    then have "er_publication rep' = map (\<lambda>r. (path_of r, writes_file r)) (successful rs)" and
      "er_reread rep' = er_reread rep \<union> path_of ` set (successful rs)" "er_rejected rep' = er_rejected rep \<union> path_of ` set (successful rs)"
      "s' = mark_all (eg_outside es) (map path_of (successful rs)) s"
      using run assms(2) by auto
    then show ?thesis using wf by simp
  next
    case (Inr u)
    then show ?thesis using run assms(2,3) by auto
  qed
qed



end
