(* ===== verification/Spec2Isabelle.thy ===== *)
theory Spec2Isabelle
  imports FileEditor FileLocks ContextManager PlanCommands ProviderStream JsonRepair ProviderRetry ToolBatch EditParams AgentStream LockOrder EditTransaction
begin

text \<open>
  A verification development for \<^bold>\<open>sned\<close>, a terminal coding agent written in Rust. A model reads files of the
  user with an anchor in front of every line and sends back edits that name lines by their anchors; the agent
  resolves the edits, applies them, keeps the anchors of the lines that survive, and drives the conversation with the
  provider. The development models the parts that decide whether a file is changed as the model and the user meant
  it, and the parts around the conversation that keep state. Paths below are relative to \<open>src/src\<close>.

  \<^bold>\<open>The edit engine\<close> (\<open>core/hash_utils.rs\<close>, \<open>core/file_editor.rs\<close>), bottom up:

  \<^item> \<open>Prelude\<close>: Rust strings as lists of Unicode scalar values with the operations of \<open>str\<close> the program calls,
    UTF-8, character classes, positions and slices, and their laws.
  \<^item> \<open>HashUtils\<close>: line hashes (FNV-1a on 64-bit words), the display of a line with its anchor, the regular expressions
    as functions, and the stripping of anchors from what the model pastes back.
  \<^item> \<open>FileText\<close>: normalisation of a file to lines with the record of its line endings and byte order mark, and its
    restoration; exactly which files survive the round trip.
  \<^item> \<open>EditTypes\<close>: the records \<open>Edit\<close>, \<open>ResolvedEdit\<close>, \<open>FailedEdit\<close>, \<open>AppliedEdit\<close> and the classification of diagnostics.
  \<^item> \<open>EditResolve\<close>: \<open>EditExecutor::resolve_edits\<close>: an edit becomes a range of lines or a failure. What a resolved range
    guarantees about anchors, contents, fingerprints and uniqueness, and that resolution is total.
  \<^item> \<open>EditApply\<close>: \<open>apply_edits_with_provenance\<close>: overlaps, no-ops, splices from the last edit to the first, duplicate
    insertions, reported positions and the origins of the new lines. It is compared with a front-to-back pass.
  \<^item> \<open>AnchorState\<close>: \<open>TrackedDocument\<close>; allocation of identities, staging of a transition, reconciliation by a diff. The
    locale \<open>identity_supply\<close> states what the allocator promises and is interpreted on it.
  \<^item> \<open>IndexMap\<close>: the ordered map of the crate \<open>indexmap\<close>, with the locale \<open>keyed_store\<close>.
  \<^item> \<open>AnchorStore\<close>, \<open>AnchorCommit\<close>: \<open>AnchorStorage\<close> and \<open>AnchorStateManager\<close> over the decoded cache directory: loading, batches
    of transitions with preflight and commit, publication under an observed revision, eviction, shard names. The
    locale \<open>guarded_store\<close> gives the refusal of stale writers.
  \<^item> \<open>FileLocks\<close>: the per-path locks as an interleaved machine with its reachable states. \<open>LockOrder\<close> (\<open>core/tools/mod.rs\<close>): tasks
    that take the locks of several files in the order of their keys, run against that machine; they cannot deadlock, and
    a measure that each step lowers by one shows that all of them finish.
  \<^item> \<open>FileEditor\<close>: the composition: observe, resolve, apply, restore the text format, stage and commit. Its properties
    span all of the above.
  \<^item> \<open>EditBatch\<close> (\<open>core/edit_batch.rs\<close>, \<open>core/tools/handlers/error_guidance.rs\<close>): the edits of a call grouped by file,
    validated, prepared and applied, with the diff and the report the model gets back. Indexing of the report is checked,
    so that its totality is a theorem.
  \<^item> \<open>EditParams\<close> (\<open>core/tools/handlers/edit_file.rs\<close>): the parameters of the tool with the repair of nested JSON texts, the
    normalisation of their shapes, the reading of the edits, and the paths that are locked and shown to the approval.

  \<^item> \<open>FileTracking\<close> (\<open>core/context/trackers.rs\<close>, \<open>core/agent_types.rs\<close>): what a task remembers of the files it has read, the
    watcher, the check for a change from outside, and the cache of contents with its limits.
  \<^item> \<open>EditWrites\<close>, \<open>EditTransaction\<close> (\<open>core/tools/handlers/edit_file.rs\<close>): one call of the edit tool, from its grouped batches
    to its verdict, in a file system that others change. Every call of the file system is numbered, and \<open>outside\<close> says
    what happens before it and whether it fails. \<open>EditWrites\<close> has the writes, each through a temporary file beside the resolved
    target (\<open>storage/disk.rs\<close>), with their rollback: all files or none, and no write over a content it does not expect. \<open>EditTransaction\<close> composes them with the preparation, the staging and the
    publication of the anchors; its refinement says that a call that is done has written the pure results of its batches.

  \<^bold>\<open>The conversation\<close>:

  \<^item> \<open>Messages\<close>: the message types of \<open>providers/mod.rs\<close>.
  \<^item> \<open>ContextManager\<close>: \<open>core/context/context_manager.rs\<close> and \<open>context_window.rs\<close>: thresholds with the rounding of \<open>f64\<close>, what is
    truncated, and the repair that keeps every tool call next to its results.
  \<^item> \<open>PlanState\<close>: \<open>core/plan_state.rs\<close>, every operation on a plan. \<open>PlanCommands\<close>: the commands of \<open>cli/slash_commands.rs\<close> and
    \<open>cli/interactive.rs\<close>, the plan submitted by \<open>core/tools/handlers/plan_mode_respond.rs\<close>, what a turn of
    \<open>core/agent_loop.rs\<close> does to the plan, and the panel's cache of \<open>cli/tui/app.rs\<close>. \<open>plan_moves\<close> collects the changes under the
    guards of the handlers, so the invariant and the version are carried through every handler by one rule induction.
  \<^item> \<open>ProviderStream\<close>: the line buffer of the response stream and the reasoning deltas (\<open>providers/mod.rs\<close>).
  \<^item> \<open>AgentStream\<close> (\<open>core/agent_stream.rs\<close>, \<open>core/agent_loop.rs\<close>): \<open>StreamAccumulator\<close>, which makes text, reasoning, calls, usage and
    errors of the chunks of one attempt, and the turn that retries attempts. The calls it assembles are compared with the
    fragments of the stream.
  \<^item> \<open>JsonRepair\<close>: the repair of tool call arguments (\<open>providers/mod.rs\<close>).
  \<^item> \<open>ProviderRetry\<close>: provider errors and the retry loop (\<open>core/provider_retry.rs\<close>).

  \<^bold>\<open>What the model may do\<close>: a call of a tool passes the gate of its batch, the approval and the resolution of its paths.

  \<^item> \<open>UnicodeCase\<close>: lower case and splitting at white space, as \<open>str\<close> does it.
  \<^item> \<open>CommandLex\<close>, \<open>CommandSafety\<close> (\<open>core/approval.rs\<close>): the splitting of a command into segments and pipeline stages and
    \<open>CommandSafetyChecker\<close> with its lists and rules. The quotes as the checker
    reads them are stated as an automaton that cuts a command into pieces, and what the checker lets pass is stated of these
    pieces. How a shell reads the text is not modelled; lemmas give commands the checker passes whose hidden parts a shell runs.
  \<^item> \<open>Json\<close>: the JSON values a call carries. \<open>CommandScope\<close>: the coercion of the commands of a call (\<open>core/tools/mod.rs\<close>) and
    the reusable scopes \<open>CommandApprovalScope\<close> the user can grant; a scope covers only what it names.
  \<^item> \<open>PathPolicy\<close> (\<open>core/tools/mod.rs\<close>, \<open>core/approval.rs\<close>): \<open>std::path\<close>, the resolution of a path in the workspace or in an
    authorised directory, and the tests for local and external paths. \<open>fs_laws\<close> says what is relied on of the file system.
  \<^item> \<open>ApprovalRules\<close>: the tools and their categories and \<open>ApprovalManager\<close> with its grants and settings. \<open>Preflight\<close>
    (\<open>core/tools/execution.rs\<close>): the decision about one call with its prompts, and sessions of many calls: what runs
    without a prompt was earned by an answer of the user.
  \<^item> \<open>ToolBatch\<close> (\<open>core/tools/execution.rs\<close>, \<open>core/tools/definitions.rs\<close>): tool profiles, the gate of a call, the groups of a
    batch, the runs of its calls as a machine with the window of \<open>buffered\<close> and a cancellation at any time, and the pairing
    of the results.
  \<^item> \<open>ToolCalls\<close> (\<open>core/tools/execution.rs\<close>, \<open>core/tools/mod.rs\<close>, \<open>core/tools/handlers/replace_symbol.rs\<close>): the arguments of a
    call, the files it names for the approval and for the summary of a turn, and its fingerprint; what the handlers take from
    the same arguments is compared with the paths that are shown.
  \<^item> \<open>StreamParsing\<close> (\<open>core/stream_parsing.rs\<close>): the filter that hides thinking sections from a stream, compared with a
    reference that sees the whole text.

  \<^bold>\<open>Conventions.\<close> A struct is a record, an enum a datatype; 64- and 32-bit numbers that can overflow are words with the
  checked, saturating or wrapping operation the source uses, indices and lengths are naturals and limits that a witness
  must evaluate are integers. A panic is \<open>None\<close> (or a constructor \<open>Panic\<close>), an error a value. Loops are structural
  recursions or functions with a termination proof; no fuel is used. Interleavings are explicit: \<open>FileLocks\<close>, \<open>LockOrder\<close> and
  \<open>PlanCommands\<close> have inductive sets of reachable states.

  \<^bold>\<open>Parameters.\<close> What is not in the repository is an argument of the definitions: \<open>sha\<close> (SHA-256), \<open>fresh\<close> (a random
  namespace), \<open>diff\<close> (the Myers diff of \<open>similar\<close>), \<open>order\<close> (the iteration of hash tables), \<open>alnum\<close> and \<open>dbg\<close> (Unicode tables and the
  escaping of \<open>{:?}\<close>), \<open>io\<close> (the failures of the operating system), \<open>valid\<close> and \<open>reject\<close> (\<open>serde_json\<close>), \<open>hash\<close> (the default
  hasher), \<open>reason\<close> (the phrases of status codes), the provider with its jitter and cancellation, \<open>parse\<close> and
  \<open>read_values\<close> (\<open>serde_json\<close> again), \<open>render\<close> (its printer), \<open>ulid\<close> (new identifiers), \<open>sha_hex\<close> (the digest as hexadecimal text),
  \<open>re_match\<close> (the crate \<open>regex\<close>), the record \<open>file_system\<close> of the calls of \<open>std::fs\<close>, the records \<open>file_world\<close> and
  \<open>outside\<close> of the files as others leave them, \<open>arrange\<close> (the order of a batch of transitions), and \<open>ask\<close>, the answer of the user to a prompt. A theorem
  assumes of them only what their documentation says, and its witness instantiates them.

  \<^bold>\<open>Where the code falls short\<close>, lemmas show it on concrete inputs, among them \<open>failed_batch_partly_durable\<close>,
  \<open>unnamed_tasks_collide\<close>, \<open>oversized_write_diverges\<close>, \<open>failed_try_leaks_entry\<close>, \<open>short_history_loses_request\<close>,
  \<open>late_results_dropped\<close>, \<open>unapproved_complete_runs_two\<close>, \<open>removed_step_skips_successor\<close>, \<open>revised_plan_not_shown\<close>,
  \<open>repeated_delta_lost\<close>, \<open>closers_in_fixed_order\<close>, \<open>request_timeout_not_retried\<close>, \<open>huge_retry_after_wraps\<close>,
  \<open>ansi_quote_hides_command\<close>, \<open>comment_quote_hides_command\<close>, \<open>quoted_option_passes\<close>, \<open>quoted_dollar_hides_redirect\<close>, \<open>combined_sort_option_passes\<close>, \<open>read_only_sed_writes\<close>,
  \<open>new_directory_behind_link_local\<close>, \<open>environment_lists_still_prompt\<close>, \<open>exact_approval_asks_again\<close>, \<open>missing_result_shifts\<close>,
  \<open>blank_line_stalls\<close>, \<open>split_close_tag_missed\<close>, \<open>block_preview_shows_extra_line\<close>, \<open>mixed_paths_unrequested\<close>, \<open>replacement_paths_hidden\<close>,
  \<open>empty_name_erases\<close>, \<open>held_back_text_shown_twice\<close>, \<open>text_after_error_retried\<close>, \<open>change_in_window_lost\<close>,
  \<open>unflushed_write_not_restored\<close> and \<open>oversized_insert_keeps_old\<close>.

  \<^bold>\<open>Not modelled\<close>: the rest of the agent loop and of the interactive terminal (asynchronous orchestration, rendering,
  key handling), the HTTP clients of the providers, the handlers of the tools (file search, commands, symbols, web
  fetch; of the edit tool the resolution of its paths, its diagnostics and range edits by revision), checkpoints in a shadow git repository, hooks, the symbol index, and the storage of settings and secrets: they
  are dominated by input and output of libraries. Of the approval the prompt itself is left out (its text, its
  channel and its timeout); of the tool batch the hooks and the rendering of outputs; of the stream parsing the functions that work on the whole output. Lower case leaves out the
  rule for a sigma at the end of a word. Also left out are colours, highlighting and styles, traces and timings of what is printed, and floating
  point numbers that are only displayed.
\<close>

end
